(* ===== verification/Leaves_Prelude.thy ===== *)
theory Leaves_Prelude
  imports Main "HOL-Library.Word" "HOL-Library.Sublist" "HOL-Library.List_Lexorder"
begin

text \<open>
  Shared material of the development: the theorem collections, the names of the machine
  types of the C++ code (\<open>uint8_t\<close> and so on as words) and generic facts on lists and
  words that several components use.
\<close>

unbundle bit_operations_syntax

named_theorems bits_simps \<open>reading single bits of the words the bit helpers build\<close>
named_theorems node_simps \<open>field selectors and layout of trie nodes\<close>

type_synonym uint8 = "8 word"
type_synonym uint16 = "16 word"
type_synonym uint32 = "32 word"
type_synonym uint64 = "64 word"
type_synonym bytes = "8 word list"

section \<open>Sorted lists\<close>

lemma sorted_filter_upt: "sorted (filter P [i..<j])"
  by (simp add: sorted_wrt_filter)

lemma filter_less_sorted_take:
  fixes xs :: "'a::linorder list"
  assumes "sorted xs" "distinct xs" "i < length xs"
  shows "filter (\<lambda>x. x < xs ! i) xs = take i xs"
proof -
  have "filter (\<lambda>x. x < xs ! i) (take i xs @ drop i xs) = take i xs @ []"
    unfolding filter_append
  proof (rule arg_cong2[where f = "(@)"])
    show "filter (\<lambda>x. x < xs ! i) (take i xs) = take i xs"
    proof (rule filter_True, rule ballI)
      fix x assume "x \<in> set (take i xs)"
      then obtain j where j: "j < i" "x = xs ! j"
        using assms(3) by (auto simp: in_set_conv_nth)
      then have "xs ! j \<le> xs ! i" "xs ! j \<noteq> xs ! i"
        using assms by (auto simp: sorted_nth_mono nth_eq_iff_index_eq)
      then show "x < xs ! i" using j by simp
    qed
    show "filter (\<lambda>x. x < xs ! i) (drop i xs) = []"
    proof (rule filter_False, rule ballI)
      fix x assume "x \<in> set (drop i xs)"
      then obtain j where "i \<le> j" "j < length xs" "x = xs ! j"
        using assms(3) by (auto simp: in_set_conv_nth) (metis le_add1 less_diff_conv add.commute)
      then show "\<not> x < xs ! i"
        using assms by (simp add: sorted_nth_mono leD)
    qed
  qed
  then show ?thesis by simp
qed

lemma length_filter_less_nth:
  fixes xs :: "'a::linorder list"
  assumes "sorted xs" "distinct xs" "i < length xs"
  shows "length (filter (\<lambda>x. x < xs ! i) xs) = i"
  using filter_less_sorted_take[OF assms] assms(3) by simp

section \<open>Searching a list for its first or last match\<close>

lemma nth_length_takeWhile_filter:
  "filter P xs \<noteq> [] \<Longrightarrow> xs ! length (takeWhile (\<lambda>x. \<not> P x) xs) = hd (filter P xs)"
  by (induction xs) auto

lemma length_takeWhile_filter:
  "filter P xs \<noteq> [] \<Longrightarrow> length (takeWhile (\<lambda>x. \<not> P x) xs) < length xs"
  by (induction xs) auto

lemma hd_filter_upt:
  assumes "filter P [0..<n] \<noteq> []"
  shows "length (takeWhile (\<lambda>i. \<not> P i) [0..<n]) = hd (filter P [0..<n])"
  using nth_length_takeWhile_filter[OF assms] length_takeWhile_filter[OF assms] by simp

lemma last_filter_upt:
  assumes "filter P [0..<n] \<noteq> []"
  shows "n - 1 - length (takeWhile (\<lambda>i. \<not> P i) (rev [0..<n])) = last (filter P [0..<n])"
    and "length (takeWhile (\<lambda>i. \<not> P i) (rev [0..<n])) < n"
proof -
  have ne: "filter P (rev [0..<n]) \<noteq> []"
    using assms by (simp add: rev_filter[symmetric])
  show lt: "length (takeWhile (\<lambda>i. \<not> P i) (rev [0..<n])) < n"
    using length_takeWhile_filter[OF ne] by simp
  show "n - 1 - length (takeWhile (\<lambda>i. \<not> P i) (rev [0..<n])) = last (filter P [0..<n])"
    using nth_length_takeWhile_filter[OF ne] lt
    by (simp add: rev_nth rev_filter[symmetric] hd_rev)
qed

lemma hd_sorted_Least:
  fixes xs :: "nat list"
  assumes "sorted xs" "xs \<noteq> []"
  shows "hd xs = (LEAST x. x \<in> set xs)"
  using assms by (cases xs) (auto intro!: Least_equality[symmetric])

lemma last_sorted_Greatest:
  fixes xs :: "nat list"
  assumes "sorted xs" "xs \<noteq> []"
  shows "last xs = (GREATEST x. x \<in> set xs)"
proof (rule Greatest_equality[symmetric])
  show "last xs \<in> set xs" using assms by simp
  fix y assume "y \<in> set xs"
  then obtain i where "i < length xs" "y = xs ! i" by (auto simp: in_set_conv_nth)
  then show "y \<le> last xs"
    using assms by (simp add: last_conv_nth sorted_nth_mono)
qed

end
