(* ===== verification/Leaves_Bits.thy ===== *)
theory Leaves_Bits
  imports Leaves_Prelude
begin

text \<open>
  The bit helpers of \<open>include/leaves/intern/core/_bits.hpp\<close>. A bitmap is a word of the
  native type the templates compute with; the helpers on an 8-bit bitmap run on its
  32-bit promotion, as \<open>native_unsigned\<close> prescribes. Results that may be \<open>-1\<close> are
  integers.
\<close>

section \<open>The three primitives of the standard library\<close>

definition popcount :: "'a::len word \<Rightarrow> nat" where
  "popcount w = length (filter (bit w) [0..<LENGTH('a)])"

definition countr_zero :: "'a::len word \<Rightarrow> nat" where
  "countr_zero w = length (takeWhile (\<lambda>i. \<not> bit w i) [0..<LENGTH('a)])"

definition countl_zero :: "'a::len word \<Rightarrow> nat" where
  "countl_zero w = length (takeWhile (\<lambda>i. \<not> bit w i) (rev [0..<LENGTH('a)]))"

section \<open>The helpers\<close>

definition native8 :: "uint8 \<Rightarrow> uint32" where
  "native8 w = ucast w"

definition bits_count :: "'a::len word \<Rightarrow> nat" where
  "bits_count w = popcount w"

definition bits_isset :: "'a::len word \<Rightarrow> nat \<Rightarrow> bool" where
  "bits_isset w v \<longleftrightarrow> w AND push_bit v 1 \<noteq> 0"

definition bits_set :: "'a::len word \<Rightarrow> nat \<Rightarrow> 'a word" where
  "bits_set w v = w OR push_bit v 1"

definition bits_index :: "'a::len word \<Rightarrow> nat \<Rightarrow> nat" where
  "bits_index w v = popcount (w AND (push_bit v 1 - 1))"

definition bits_first :: "'a::len word \<Rightarrow> int" where
  "bits_first w = (if w \<noteq> 0 then int (countr_zero w) else -1)"

definition bits_last :: "'a::len word \<Rightarrow> int" where
  "bits_last w = (if w \<noteq> 0 then (int LENGTH('a) - 1) - int (countl_zero w) else -1)"

definition bits_next :: "'a::len word \<Rightarrow> nat \<Rightarrow> int" where
  "bits_next w i =
     (if i \<ge> LENGTH('a) - 1 then -1
      else let m = NOT (push_bit (i + 1) 1 - 1); v = w AND m
           in if v \<noteq> 0 then int (countr_zero v) else -1)"

definition bits_prev :: "'a::len word \<Rightarrow> nat \<Rightarrow> int" where
  "bits_prev w i =
     (let m = push_bit i 1 - 1; v = w AND m
      in if v \<noteq> 0 then (int LENGTH('a) - 1) - int (countl_zero v) else -1)"

section \<open>The set bits in ascending order\<close>

definition bit_list :: "'a::len word \<Rightarrow> nat list" where
  "bit_list w = filter (bit w) [0..<LENGTH('a)]"

lemma bit_less_length: "bit (w :: 'a::len word) i \<Longrightarrow> i < LENGTH('a)"
  by (rule bit_imp_le_length)

lemma set_bit_list [simp]: "set (bit_list w) = {i. bit w i}"
  by (auto simp: bit_list_def dest: bit_less_length)

lemma sorted_bit_list [simp]: "sorted (bit_list w)"
  by (simp add: bit_list_def sorted_filter_upt)

lemma distinct_bit_list [simp]: "distinct (bit_list w)"
  by (simp add: bit_list_def)

lemma finite_bits [simp]: "finite {i. bit (w :: 'a::len word) i}"
  using finite_set[of "bit_list w"] by simp

lemma popcount_bit_list: "popcount w = length (bit_list w)"
  by (simp add: popcount_def bit_list_def)

lemma bit_list_empty_iff [simp]: "bit_list w = [] \<longleftrightarrow> w = 0"
proof
  assume "bit_list w = []"
  then have "{i. bit w i} = {}" by (metis set_bit_list list.set(1))
  then show "w = 0" by (auto intro: bit_word_eqI)
qed (simp add: bit_list_def)

lemma bit_list_eqD: "bit_list v = bit_list w \<Longrightarrow> v = w"
  by (rule bit_word_eqI) (metis mem_Collect_eq set_bit_list)

section \<open>Masks\<close>

lemma low_mask [bits_simps]: "push_bit i (1 :: 'a::len word) - 1 = mask i"
  by (simp add: mask_eq_exp_minus_1 push_bit_eq_mult)

lemma bit_and_low_mask [bits_simps]:
  "bit (w AND mask i) j \<longleftrightarrow> bit (w :: 'a::len word) j \<and> j < i"
  by (auto simp: bit_and_iff bit_mask_iff dest: bit_less_length)

lemma bit_and_high_mask [bits_simps]:
  "bit (w AND NOT (mask i)) j \<longleftrightarrow> bit (w :: 'a::len word) j \<and> i \<le> j"
  by (auto simp: bit_and_iff bit_not_iff bit_mask_iff dest: bit_less_length)

lemma bit_list_and_low_mask: "bit_list (w AND mask i) = filter (\<lambda>j. j < i) (bit_list w)"
  unfolding bit_list_def filter_filter by (rule filter_cong) (auto simp: bits_simps)

lemma bit_list_and_high_mask:
  "bit_list (w AND NOT (mask i)) = filter (\<lambda>j. i \<le> j) (bit_list w)"
  unfolding bit_list_def filter_filter by (rule filter_cong) (auto simp: bits_simps)

lemma bits_isset_iff [simp]: "bits_isset w i \<longleftrightarrow> bit (w :: 'a::len word) i"
  by (simp add: bits_isset_def push_bit_eq_mult and_exp_eq_0_iff_not_bit)

lemma bit_bits_set: "bit (bits_set w v) i \<longleftrightarrow> bit (w :: 'a::len word) i \<or> i = v \<and> v < LENGTH('a)"
  by (auto simp: bits_set_def bit_or_iff push_bit_eq_mult bit_exp_iff)

section \<open>The helpers read the list of set bits\<close>

lemma bits_count_eq: "bits_count w = length (bit_list w)"
  by (simp add: bits_count_def popcount_bit_list)

lemma bits_index_eq: "bits_index w v = length (filter (\<lambda>j. j < v) (bit_list w))"
  unfolding bits_index_def low_mask popcount_bit_list bit_list_and_low_mask ..

lemma countr_zero_eq: "w \<noteq> 0 \<Longrightarrow> countr_zero w = hd (bit_list w)"
  using hd_filter_upt[of "bit w"] bit_list_empty_iff[of w]
  by (simp add: countr_zero_def bit_list_def)

lemma countr_zero_least:
  assumes "w \<noteq> 0"
  shows "bit w (countr_zero w)" and "n < countr_zero w \<Longrightarrow> \<not> bit w n"
proof -
  have c: "countr_zero w = hd (bit_list w)" by (rule countr_zero_eq[OF assms])
  have "hd (bit_list w) \<in> set (bit_list w)" using assms by (intro hd_in_set) simp
  then show "bit w (countr_zero w)" using c by simp
  have "hd (bit_list w) \<le> m" if "m \<in> set (bit_list w)" for m
    using that sorted_bit_list[of w] by (cases "bit_list w") auto
  then show "n < countr_zero w \<Longrightarrow> \<not> bit w n" using c by fastforce
qed

lemma countl_zero_eq:
  fixes w :: "'a::len word"
  assumes "w \<noteq> 0"
  shows "(int LENGTH('a) - 1) - int (countl_zero w) = int (last (bit_list w))"
proof -
  have ne: "filter (bit w) [0..<LENGTH('a)] \<noteq> []"
    using assms bit_list_empty_iff[of w] by (simp add: bit_list_def)
  show ?thesis
    using last_filter_upt[OF ne] unfolding countl_zero_def bit_list_def by linarith
qed

lemma bits_first_eq:
  "bits_first w = (if bit_list w = [] then -1 else int (hd (bit_list w)))"
  by (simp add: bits_first_def countr_zero_eq)

lemma bits_last_eq:
  "bits_last w = (if bit_list w = [] then -1 else int (last (bit_list w)))"
  by (simp add: bits_last_def countl_zero_eq)

lemma bits_next_eq:
  fixes w :: "'a::len word"
  shows "bits_next w i =
    (let ys = filter (\<lambda>j. i < j) (bit_list w) in if ys = [] then -1 else int (hd ys))"
proof (cases "i \<ge> LENGTH('a) - 1")
  case True
  then have "filter (\<lambda>j. i < j) (bit_list w) = []"
    by (force simp: filter_empty_conv dest: bit_less_length)
  with True show ?thesis by (simp add: bits_next_def)
next
  case False
  let ?v = "w AND NOT (push_bit (i + 1) 1 - 1)"
  have bl: "bit_list ?v = filter (\<lambda>j. i < j) (bit_list w)"
    unfolding low_mask bit_list_and_high_mask by (rule filter_cong) auto
  have "bits_next w i = (if ?v \<noteq> 0 then int (countr_zero ?v) else -1)"
    using False by (simp only: bits_next_def Let_def if_False)
  then show ?thesis
    using bl bit_list_empty_iff[of ?v] countr_zero_eq[of ?v] by (simp only: Let_def) metis
qed

lemma bits_prev_eq:
  "bits_prev w i =
    (let ys = filter (\<lambda>j. j < i) (bit_list w) in if ys = [] then -1 else int (last ys))"
proof -
  let ?v = "w AND (push_bit i 1 - 1)"
  have bl: "bit_list ?v = filter (\<lambda>j. j < i) (bit_list w)"
    unfolding low_mask bit_list_and_low_mask ..
  show ?thesis
    using bl bit_list_empty_iff[of ?v] countl_zero_eq[of ?v]
    unfolding bits_prev_def Let_def by metis
qed

lemma bit_list_native8: "bit_list (native8 w) = bit_list w"
proof -
  have b: "bit (native8 w) i \<longleftrightarrow> bit w i" for i
    by (auto simp: native8_def bit_ucast_iff dest: bit_less_length)
  have "sorted (bit_list (native8 w))" "sorted (bit_list w)"
    "distinct (bit_list (native8 w))" "distinct (bit_list w)"
    "set (bit_list (native8 w)) = set (bit_list w)"
    using b by simp_all
  then show ?thesis by (metis sorted_distinct_set_unique)
qed

section \<open>What the helpers promise\<close>

text \<open>
  C34. The bit helpers of every width: \<open>bits::count\<close> is the number of set bits and
  \<open>bits::index\<close> the number of those below the given one, the rank the compressed arrays are
  addressed with; \<open>bits::first\<close> and \<open>bits::last\<close> are the least and the greatest set bit,
  \<open>bits::next\<close> is the least set bit above the given index and \<open>bits::prev\<close> the greatest one
  below it; each of the four is \<open>-1\<close> exactly when there is none.
\<close>

theorem bits_search_spec:
  fixes w :: "'a::len word"
  shows "bits_count w = card {j. bit w j} \<and> bits_index w i = card {j. j < i \<and> bit w j}
    \<and> bits_first w = (if \<exists>j. bit w j then int (LEAST j. bit w j) else -1)
    \<and> bits_last w = (if \<exists>j. bit w j then int (GREATEST j. bit w j) else -1)
    \<and> bits_next w i = (if \<exists>j. i < j \<and> bit w j then int (LEAST j. i < j \<and> bit w j) else -1)
    \<and> bits_prev w i = (if \<exists>j. j < i \<and> bit w j then int (GREATEST j. j < i \<and> bit w j) else -1)"
proof (intro conjI)
  let ?up = "filter (\<lambda>j. i < j) (bit_list w)" and ?dn = "filter (\<lambda>j. j < i) (bit_list w)"
  have up: "x \<in> set ?up \<longleftrightarrow> i < x \<and> bit w x" and dn: "x \<in> set ?dn \<longleftrightarrow> x < i \<and> bit w x" for x
    by auto
  have so: "sorted ?up" "sorted ?dn" by (simp_all add: sorted_wrt_filter)
  show "bits_next w i = (if \<exists>j. i < j \<and> bit w j then int (LEAST j. i < j \<and> bit w j) else -1)"
    using hd_sorted_Least[OF so(1)] up
    by (auto simp: bits_next_eq Let_def filter_empty_conv)
  show "bits_prev w i = (if \<exists>j. j < i \<and> bit w j then int (GREATEST j. j < i \<and> bit w j) else -1)"
    using last_sorted_Greatest[OF so(2)] dn
    by (auto simp: bits_prev_eq Let_def filter_empty_conv)
  have so': "sorted (bit_list w)" and mem: "x \<in> set (bit_list w) \<longleftrightarrow> bit w x" for x by simp_all
  show "bits_first w = (if \<exists>j. bit w j then int (LEAST j. bit w j) else -1)"
    using hd_sorted_Least[OF so'] mem by (auto simp: bits_first_eq bit_list_empty_iff[symmetric] simp flip: set_empty)
  show "bits_last w = (if \<exists>j. bit w j then int (GREATEST j. bit w j) else -1)"
    using last_sorted_Greatest[OF so'] mem by (auto simp: bits_last_eq simp flip: set_empty)
  have "card (set (bit_list w)) = length (bit_list w)" by (rule distinct_card) simp
  moreover have "set (bit_list w) = {j. bit w j}" using mem by auto
  ultimately show "bits_count w = card {j. bit w j}" by (simp add: bits_count_eq)
  have "card (set ?dn) = length ?dn" by (rule distinct_card) simp
  moreover have "set ?dn = {j. j < i \<and> bit w j}" using dn by auto
  ultimately show "bits_index w i = card {j. j < i \<and> bit w j}"
    by (simp add: bits_index_eq)
qed

end
