(* ===== verification/Leaves_Util.thy ===== *)
theory Leaves_Util
  imports Leaves_Bits
begin

text \<open>
  Shared helpers of \<open>include/leaves/intern/core/_util.hpp\<close> (and the bit-scan primitives of
  \<open>_port.hpp\<close>): alignment, the byte-range view \<open>Slice\<close>, the common-prefix search
  \<open>get_prefix\<close> with its word-wise and vector fast paths, and the tagged offsets
  \<open>_Offset<uint64_t>\<close>. A byte range is the list of its bytes.
\<close>

section \<open>Alignment\<close>

definition padding :: "nat \<Rightarrow> nat \<Rightarrow> nat" where
  "padding a b = ((a + b - 1) div b) * b"

definition ALIGN :: uint32 where
  "ALIGN = 8"

definition align :: "uint32 \<Rightarrow> uint32" where
  "align s = (s + ALIGN - 1) AND NOT (ALIGN - 1)"

text \<open>The layout code calls \<open>align\<close> on small sizes and stores the result in a \<open>uint16_t\<close>.\<close>

definition align_size :: "nat \<Rightarrow> nat" where
  "align_size n = unat (align (word_of_nat n))"

section \<open>Slices\<close>

fun memcmp :: "bytes \<Rightarrow> bytes \<Rightarrow> int" where
  "memcmp (x # xs) (y # ys) = (if x = y then memcmp xs ys else if x > y then 1 else -1)"
| "memcmp _ _ = 0"

definition slice_eq :: "bytes \<Rightarrow> bytes \<Rightarrow> bool" where
  "slice_eq s t \<longleftrightarrow> length s = length t \<and> memcmp s t = 0"

definition slice_compare :: "bytes \<Rightarrow> bytes \<Rightarrow> int" where
  "slice_compare s t =
     (let n = (if length s < length t then length s else length t);
          c = memcmp (take n s) (take n t);
          c' = (if c \<noteq> 0 then c else of_bool (length s > length t) - of_bool (length s < length t))
      in of_bool (0 < c') - of_bool (c' < 0))"

section \<open>Common prefix\<close>

definition load_le :: "bytes \<Rightarrow> uint64" where
  "load_le bs = foldr (\<lambda>b acc. ucast b OR push_bit 8 acc) bs 0"

definition load_word :: "bool \<Rightarrow> bytes \<Rightarrow> uint64" where
  "load_word little_endian bs = load_le (if little_endian then bs else rev bs)"

definition count_trailing_zeros :: "uint64 \<Rightarrow> nat" where
  "count_trailing_zeros x = countr_zero x"

definition count_leading_zeros :: "uint64 \<Rightarrow> nat" where
  "count_leading_zeros x = countl_zero x"

definition diff_word :: "bool \<Rightarrow> nat \<Rightarrow> bytes \<Rightarrow> bytes \<Rightarrow> nat \<Rightarrow> uint64" where
  "diff_word le k s t i = load_word le (take k (drop i s)) XOR load_word le (take k (drop i t))"

definition lane_mask :: "nat \<Rightarrow> bytes \<Rightarrow> bytes \<Rightarrow> nat \<Rightarrow> uint64" where
  "lane_mask w s t i = foldr (\<lambda>j m. if s ! (i + j) \<noteq> t ! (i + j) then bits_set m j else m) [0..<w] 0"

definition byte_cmp :: "bytes \<Rightarrow> bytes \<Rightarrow> nat \<Rightarrow> int" where
  "byte_cmp s t i = (if s ! i > t ! i then 1 else -1)"

definition end_cmp :: "bytes \<Rightarrow> bytes \<Rightarrow> nat \<Rightarrow> int" where
  "end_cmp s t i =
     (if i < min (length s) (length t) then byte_cmp s t i
      else if length s > length t then 1
      else if length t > length s then -1
      else 0)"

function byte_scan :: "bytes \<Rightarrow> bytes \<Rightarrow> nat \<Rightarrow> nat \<Rightarrow> nat" where
  "byte_scan s t m i = (if i < m \<and> s ! i = t ! i then byte_scan s t m (i + 1) else i)"
  by pat_completeness auto
termination by (relation "measure (\<lambda>(s, t, m, i). m - i)") auto

text \<open>
  A scan loop over blocks of \<open>w\<close> bytes leaves either the position of the first difference
  (\<open>Inl\<close>, the early return) or the position where fewer than \<open>w\<close> bytes remain (\<open>Inr\<close>).
\<close>

function simd_scan :: "nat \<Rightarrow> bytes \<Rightarrow> bytes \<Rightarrow> nat \<Rightarrow> nat \<Rightarrow> nat + nat" where
  "simd_scan w s t m i =
     (if 0 < w \<and> i + w \<le> m then
        (let mask = lane_mask w s t i
         in if mask \<noteq> 0 then Inl (i + count_trailing_zeros mask)
            else simd_scan w s t m (i + w))
      else Inr i)"
  by pat_completeness auto
termination by (relation "measure (\<lambda>(w, s, t, m, i). m - i)") auto

function word_scan :: "bool \<Rightarrow> bytes \<Rightarrow> bytes \<Rightarrow> nat \<Rightarrow> nat \<Rightarrow> nat + nat" where
  "word_scan le s t m i =
     (if i + 8 \<le> m then
        (let diff = diff_word le 8 s t i
         in if diff \<noteq> 0
            then Inl (i + (if le then count_trailing_zeros diff else count_leading_zeros diff) div 8)
            else word_scan le s t m (i + 8))
      else Inr i)"
  by pat_completeness auto
termination by (relation "measure (\<lambda>(le, s, t, m, i). m - i)") auto

fun vector_scans :: "nat list \<Rightarrow> bytes \<Rightarrow> bytes \<Rightarrow> nat \<Rightarrow> nat \<Rightarrow> nat + nat" where
  "vector_scans [] s t m i = Inr i"
| "vector_scans (w # ws) s t m i =
     (case simd_scan w s t m i of Inl j \<Rightarrow> Inl j | Inr j \<Rightarrow> vector_scans ws s t m j)"

definition long_scan :: "bool \<Rightarrow> nat list \<Rightarrow> bytes \<Rightarrow> bytes \<Rightarrow> nat \<Rightarrow> nat + nat" where
  "long_scan le ws s t m =
     (let d0 = diff_word le 8 s t 0
      in if d0 \<noteq> 0 then Inl (count_trailing_zeros d0 div 8)
         else let d1 = diff_word le 8 s t 8
         in if m \<ge> 16 \<and> d1 \<noteq> 0 then Inl (8 + count_trailing_zeros d1 div 8)
         else case vector_scans ws s t m (if m \<ge> 16 then 16 else 8) of
                Inl j \<Rightarrow> Inl j
              | Inr i \<Rightarrow> word_scan le s t m i)"

definition get_prefix :: "bool \<Rightarrow> nat list \<Rightarrow> bytes \<Rightarrow> bytes \<Rightarrow> nat \<times> int" where
  "get_prefix le ws s t =
     (let m = min (length s) (length t)
      in if m < 8 then
           (let d = diff_word le 4 s t 0
            in if m \<ge> 4 \<and> d \<noteq> 0
               then let i = count_trailing_zeros d div 8 in (i, byte_cmp s t i)
               else let i = byte_scan s t m (if m \<ge> 4 then 4 else 0)
                    in (i, end_cmp s t i))
         else case long_scan le ws s t m of
                Inl i \<Rightarrow> (i, byte_cmp s t i)
              | Inr i \<Rightarrow> let j = byte_scan s t m i in (j, end_cmp s t j))"

declare byte_scan.simps [simp del] simd_scan.simps [simp del] word_scan.simps [simp del]

section \<open>Tagged offsets\<close>

datatype node_type = TRIE | LEAF

definition TYPE_MASK :: uint64 where
  "TYPE_MASK = 3"

definition RELATIVE_FLAG :: uint64 where
  "RELATIVE_FLAG = 4"

definition type_bits :: "node_type \<Rightarrow> uint64" where
  "type_bits ty = (case ty of TRIE \<Rightarrow> 0 | LEAF \<Rightarrow> 1)"

definition offset_value :: "uint64 \<Rightarrow> uint64" where
  "offset_value off = off AND NOT (TYPE_MASK OR RELATIVE_FLAG)"

definition offset_type :: "uint64 \<Rightarrow> uint64" where
  "offset_type off = off AND TYPE_MASK"

definition offset_set_type :: "node_type \<Rightarrow> uint64 \<Rightarrow> uint64" where
  "offset_set_type ty off = (off AND NOT TYPE_MASK) OR type_bits ty"

definition offset_is_relative :: "uint64 \<Rightarrow> bool" where
  "offset_is_relative off \<longleftrightarrow> off AND RELATIVE_FLAG \<noteq> 0"

definition offset_set_relative :: "uint64 \<Rightarrow> uint64 \<Rightarrow> node_type \<Rightarrow> uint64" where
  "offset_set_relative this dest saved_type =
     offset_set_type saved_type ((dest - this) OR RELATIVE_FLAG)"

definition offset_as_signed :: "uint64 \<Rightarrow> uint64" where
  "offset_as_signed off = signed_drop_bit 3 (push_bit 3 (off AND NOT (TYPE_MASK OR RELATIVE_FLAG)))"

definition offset_resolve :: "uint64 \<Rightarrow> uint64 \<Rightarrow> uint64" where
  "offset_resolve this off = this + offset_as_signed off"

section \<open>Alignment rounds up\<close>

lemma align_size_eq:
  assumes "n < 4294967288"
  shows "align_size n = ((n + 7) div 8) * 8"
proof -
  let ?x = "word_of_nat n + 7 :: uint32"
  have ux: "unat ?x = n + 7"
    using assms by (simp add: unat_word_ariths unsigned_of_nat take_bit_nat_eq_self)
  have seven: "(7 :: uint32) = mask 3" by (simp add: mask_eq_exp_minus_1)
  have "align (word_of_nat n) = ?x AND NOT (mask 3)"
    by (simp add: align_def ALIGN_def seven algebra_simps)
  also have "\<dots> = push_bit 3 (drop_bit 3 ?x)"
    by (rule bit_word_eqI) (auto simp: bit_simps bits_simps dest: bit_less_length)
  finally have "align_size n = unat (push_bit 3 (drop_bit 3 ?x))"
    by (simp add: align_size_def)
  also have "\<dots> = ((n + 7) div 8) * 8"
    using assms ux
    by (simp add: push_bit_eq_mult unat_word_ariths unat_drop_bit_eq drop_bit_eq_div
        del: drop_bit_of_nat)
  finally show ?thesis .
qed

lemma padding_bounds: "0 < b \<Longrightarrow> a \<le> padding a b \<and> padding a b < a + b \<and> b dvd padding a b"
proof -
  assume b: "0 < b"
  have "(a + b - 1) div b * b + (a + b - 1) mod b = a + b - 1" by simp
  moreover have "(a + b - 1) mod b < b" using b by simp
  ultimately have "a \<le> (a + b - 1) div b * b" "(a + b - 1) div b * b < a + b"
    using b by linarith+
  then show ?thesis unfolding padding_def by simp
qed

section \<open>The first difference\<close>

definition agree :: "bytes \<Rightarrow> bytes \<Rightarrow> nat \<Rightarrow> bool" where
  "agree s t i \<longleftrightarrow> i \<le> min (length s) (length t) \<and> (\<forall>j<i. s ! j = t ! j)"

definition diff_at :: "bytes \<Rightarrow> bytes \<Rightarrow> nat \<Rightarrow> bool" where
  "diff_at s t i \<longleftrightarrow> agree s t i \<and> i < min (length s) (length t) \<and> s ! i \<noteq> t ! i"

lemma bit_byte_cons:
  "bit (ucast (b :: uint8) OR push_bit 8 x :: uint64) n \<longleftrightarrow>
   (if n < 8 then bit b n else n < 64 \<and> bit x (n - 8))"
proof (cases "n < 8")
  case True
  then show ?thesis by (simp add: bit_or_iff bit_push_bit_iff bit_ucast_iff)
next
  case False
  moreover have "\<not> bit b n" using False bit_less_length[of b n] by auto
  ultimately show ?thesis by (auto simp: bit_or_iff bit_push_bit_iff bit_ucast_iff)
qed

lemma bit_load_le:
  "bit (load_le bs) n \<longleftrightarrow> n < 64 \<and> n < 8 * length bs \<and> bit (bs ! (n div 8)) (n mod 8)"
proof (induction bs arbitrary: n)
  case Nil
  then show ?case by (simp add: load_le_def)
next
  case (Cons b bs)
  have step: "load_le (b # bs) = ucast b OR push_bit 8 (load_le bs)" by (simp add: load_le_def)
  show ?case
  proof (cases "n < 8")
    case True
    then show ?thesis unfolding step bit_byte_cons by simp
  next
    case False
    then obtain m where n: "n = m + 8" by (metis add.commute le_add_diff_inverse not_less)
    show ?thesis
      unfolding step bit_byte_cons n using div_add_self2[of 8 m] by (auto simp add: Cons.IH[of m])
  qed
qed

lemma diff_word_first:
  assumes len: "length a = k" "length b = k" "k \<le> 8"
  shows "load_le a XOR load_le b = 0 \<longleftrightarrow> a = b"
    and "a \<noteq> b \<Longrightarrow> diff_at a b (countr_zero (load_le a XOR load_le b) div 8)"
proof -
  let ?d = "load_le a XOR load_le b"
  have bd: "bit ?d n \<longleftrightarrow> n < 8 * k \<and> bit (a ! (n div 8)) (n mod 8) \<noteq> bit (b ! (n div 8)) (n mod 8)" for n
    using len by (auto simp: bit_xor_iff bit_load_le)
  have byte: "a ! j = b ! j" if "j < k" "\<And>m. m < 8 \<Longrightarrow> \<not> bit ?d (8 * j + m)" for j
  proof (rule bit_word_eqI)
    fix m assume "m < LENGTH(8)"
    then have m: "m < 8" by simp
    then have "8 * j + m < 8 * k" using that(1) by linarith
    then show "bit (a ! j) m = bit (b ! j) m"
      using that(2)[OF m] m unfolding bd by simp
  qed
  show zero: "?d = 0 \<longleftrightarrow> a = b"
  proof
    assume "?d = 0"
    then show "a = b" using byte len by (intro nth_equalityI) auto
  qed simp
  assume "a \<noteq> b"
  then have d0: "?d \<noteq> 0" using zero by blast
  let ?c = "countr_zero ?d"
  have hit: "bit ?d ?c" and least: "\<And>n. n < ?c \<Longrightarrow> \<not> bit ?d n"
    using countr_zero_least[OF d0] by blast+
  have ik: "?c div 8 < k" using hit unfolding bd by (simp add: less_mult_imp_div_less mult.commute)
  have ne: "a ! (?c div 8) \<noteq> b ! (?c div 8)" using hit unfolding bd by auto
  have eq: "a ! j = b ! j" if "j < ?c div 8" for j
  proof (rule byte)
    show "j < k" using that ik by linarith
    fix m :: nat assume "m < 8"
    then have "8 * j + m < ?c" using that by linarith
    then show "\<not> bit ?d (8 * j + m)" by (rule least)
  qed
  show "diff_at a b (?c div 8)"
    using len ik ne eq by (simp add: diff_at_def agree_def)
qed

lemma agree_block:
  assumes "agree s t i" "i + k \<le> min (length s) (length t)"
    "take k (drop i s) = take k (drop i t)"
  shows "agree s t (i + k)"
  unfolding agree_def
proof (intro conjI allI impI)
  show "i + k \<le> min (length s) (length t)" by (rule assms)
  fix j assume j: "j < i + k"
  show "s ! j = t ! j"
  proof (cases "j < i")
    case False
    then have "take k (drop i s) ! (j - i) = s ! j" "take k (drop i t) ! (j - i) = t ! j"
      using j assms(2) by auto
    then show ?thesis using assms(3) by simp
  qed (use assms(1) in \<open>simp add: agree_def\<close>)
qed

lemma diff_at_block:
  assumes "agree s t i" "i + k \<le> min (length s) (length t)"
    "diff_at (take k (drop i s)) (take k (drop i t)) j"
  shows "diff_at s t (i + j)"
proof -
  have jk: "j < k" and ne: "s ! (i + j) \<noteq> t ! (i + j)"
    using assms(2,3) by (auto simp: diff_at_def)
  have "\<forall>l<j. s ! (i + l) = t ! (i + l)"
    using assms(2,3) jk by (auto simp: diff_at_def agree_def)
  then have "\<forall>l<i + j. s ! l = t ! l"
    using assms(1) by (metis agree_def add_diff_inverse_nat nat_add_left_cancel_less)
  then show ?thesis using assms(2) jk ne by (simp add: diff_at_def agree_def)
qed

lemma diff_word_cases:
  assumes "agree s t i" "i + k \<le> min (length s) (length t)" "k \<le> 8"
  shows "diff_word True k s t i = 0 \<Longrightarrow> agree s t (i + k)"
    and "diff_word True k s t i \<noteq> 0 \<Longrightarrow>
      diff_at s t (i + count_trailing_zeros (diff_word True k s t i) div 8)"
proof -
  let ?a = "take k (drop i s)" and ?b = "take k (drop i t)"
  have len: "length ?a = k" "length ?b = k" using assms(2) by auto
  show "diff_word True k s t i = 0 \<Longrightarrow> agree s t (i + k)"
    using diff_word_first(1)[OF len assms(3)] agree_block[OF assms(1,2)]
    by (simp add: diff_word_def load_word_def)
  show "diff_word True k s t i \<noteq> 0 \<Longrightarrow>
      diff_at s t (i + count_trailing_zeros (diff_word True k s t i) div 8)"
    using diff_word_first[OF len assms(3)] diff_at_block[OF assms(1,2)]
    by (simp add: diff_word_def load_word_def count_trailing_zeros_def)
qed

lemma bit_lane_mask_fold:
  "distinct js \<Longrightarrow> (\<forall>j\<in>set js. j < 64) \<Longrightarrow>
   bit (foldr (\<lambda>j m. if P j then bits_set m j else m) js (0 :: uint64)) n \<longleftrightarrow> n \<in> set js \<and> P n"
  by (induction js) (auto simp: bit_bits_set)

lemma bit_lane_mask:
  "w \<le> 64 \<Longrightarrow> bit (lane_mask w s t i) n \<longleftrightarrow> n < w \<and> s ! (i + n) \<noteq> t ! (i + n)"
  unfolding lane_mask_def by (subst bit_lane_mask_fold) auto

lemma lane_mask_cases:
  assumes "agree s t i" "i + w \<le> min (length s) (length t)" "w \<le> 64"
  shows "lane_mask w s t i = 0 \<Longrightarrow> agree s t (i + w)"
    and "lane_mask w s t i \<noteq> 0 \<Longrightarrow> diff_at s t (i + count_trailing_zeros (lane_mask w s t i))"
proof -
  let ?m = "lane_mask w s t i"
  assume "?m = 0"
  then have "\<And>n. n < w \<Longrightarrow> s ! (i + n) = t ! (i + n)"
    using bit_lane_mask[OF assms(3), of s t i] by force
  then show "agree s t (i + w)"
    using assms by (auto simp: agree_def) (metis add_diff_inverse_nat nat_add_left_cancel_less)
next
  let ?m = "lane_mask w s t i"
  assume m0: "?m \<noteq> 0"
  let ?c = "countr_zero ?m"
  have "bit ?m ?c" by (rule countr_zero_least[OF m0])
  then have cw: "?c < w" "s ! (i + ?c) \<noteq> t ! (i + ?c)" using bit_lane_mask[OF assms(3)] by auto
  have "\<not> bit ?m n" if "n < ?c" for n
    by (rule countr_zero_least(2)[OF m0 that])
  then have "\<forall>n<?c. s ! (i + n) = t ! (i + n)"
    using bit_lane_mask[OF assms(3)] cw(1) by (meson less_trans)
  then have "\<forall>l<i + ?c. s ! l = t ! l"
    using assms(1) by (metis agree_def add_diff_inverse_nat nat_add_left_cancel_less)
  then show "diff_at s t (i + count_trailing_zeros ?m)"
    using cw assms(2) by (simp add: diff_at_def agree_def count_trailing_zeros_def)
qed

section \<open>The scan loops\<close>

fun scan_ok :: "bytes \<Rightarrow> bytes \<Rightarrow> nat + nat \<Rightarrow> bool" where
  "scan_ok s t (Inl j) = diff_at s t j"
| "scan_ok s t (Inr j) = agree s t j"

lemma simd_scan_ok:
  assumes "agree s t i" "m = min (length s) (length t)" "w \<le> 64"
  shows "scan_ok s t (simd_scan w s t m i)"
  using assms
proof (induction w s t m i rule: simd_scan.induct)
  case (1 w s t m i)
  show ?case
    using 1 lane_mask_cases[OF 1(2), of w]
    by (subst simd_scan.simps) (auto simp: Let_def)
qed

lemma vector_scans_ok:
  assumes "agree s t i" "m = min (length s) (length t)" "\<forall>w\<in>set ws. w \<le> 64"
  shows "scan_ok s t (vector_scans ws s t m i)"
  using assms
proof (induction ws arbitrary: i)
  case (Cons w ws)
  have "scan_ok s t (simd_scan w s t m i)"
    using simd_scan_ok[OF Cons.prems(1,2), of w] Cons.prems(3) by simp
  then show ?case using Cons by (cases "simd_scan w s t m i") auto
qed simp

lemma word_scan_ok:
  assumes "agree s t i" "m = min (length s) (length t)"
  shows "scan_ok s t (word_scan True s t m i)"
  using assms
proof (induction "True" s t m i rule: word_scan.induct)
  case (1 s t m i)
  show ?case
    using 1 diff_word_cases[OF 1(2), of 8]
    by (subst word_scan.simps) (auto simp: Let_def)
qed

lemma byte_scan_ok:
  assumes "agree s t i" "m = min (length s) (length t)"
  shows "agree s t (byte_scan s t m i) \<and>
    (byte_scan s t m i < m \<longrightarrow> s ! byte_scan s t m i \<noteq> t ! byte_scan s t m i)"
  using assms
proof (induction s t m i rule: byte_scan.induct)
  case (1 s t m i)
  show ?case
  proof (cases "i < m \<and> s ! i = t ! i")
    case True
    then have "agree s t (i + 1)" using 1(2,3) by (auto simp: agree_def less_Suc_eq)
    with 1(1)[OF True] 1(3) have "agree s t (byte_scan s t m (i + 1)) \<and>
      (byte_scan s t m (i + 1) < m \<longrightarrow> s ! byte_scan s t m (i + 1) \<noteq> t ! byte_scan s t m (i + 1))"
      by simp
    with True show ?thesis by (simp add: byte_scan.simps[of s t m i])
  next
    case False
    then have "byte_scan s t m i = i" by (simp only: byte_scan.simps[of s t m i] if_False)
    with 1(2) False show ?thesis by simp
  qed
qed

lemma long_scan_ok:
  assumes "m = min (length s) (length t)" "8 \<le> m" "\<forall>w\<in>set ws. w \<le> 64"
  shows "scan_ok s t (long_scan True ws s t m)"
proof -
  have a0: "agree s t 0" by (simp add: agree_def)
  note d0 = diff_word_cases[OF a0, of 8]
  show ?thesis
  proof (cases "diff_word True 8 s t 0 = 0")
    case False
    then show ?thesis using d0(2) assms by (simp add: long_scan_def Let_def)
  next
    case True
    then have a8: "agree s t 8" using d0(1) assms by simp
    note d1 = diff_word_cases[OF a8, of 8]
    show ?thesis
    proof (cases "m \<ge> 16 \<and> diff_word True 8 s t 8 \<noteq> 0")
      case t: True
      then have "diff_at s t (8 + count_trailing_zeros (diff_word True 8 s t 8) div 8)"
        using d1(2) assms(1) by simp
      then show ?thesis using True t unfolding long_scan_def Let_def by simp
    next
      case f: False
      then have a: "agree s t (if m \<ge> 16 then 16 else 8)"
        using a8 d1(1) assms(1) by auto
      let ?v = "vector_scans ws s t m (if m \<ge> 16 then 16 else 8)"
      have "long_scan True ws s t m = (case ?v of Inl j \<Rightarrow> Inl j | Inr i \<Rightarrow> word_scan True s t m i)"
        unfolding long_scan_def Let_def using True f by (simp only: simp_thms if_False)
      then show ?thesis
        using vector_scans_ok[OF a assms(1,3)] word_scan_ok[OF _ assms(1)] by (cases ?v) simp_all
    qed
  qed
qed

section \<open>What the prefix search computes\<close>

definition key_cmp :: "bytes \<Rightarrow> bytes \<Rightarrow> int" where
  "key_cmp s t = (if s = t then 0 else if t < s then 1 else -1)"

lemma agree_append: "agree s t i \<Longrightarrow> take i s = take i t"
  by (auto simp: agree_def intro!: nth_equalityI)

lemma diff_at_spec:
  assumes "diff_at s t i"
  shows "(i, byte_cmp s t i) = (length (longest_common_prefix s t), key_cmp s t)"
proof -
  have tk: "take i s = take i t" and lt: "i < length s" "i < length t" and ne: "s ! i \<noteq> t ! i"
    using assms by (auto simp: diff_at_def intro: agree_append)
  have s: "s = take i s @ s ! i # drop (Suc i) s" and t: "t = take i s @ t ! i # drop (Suc i) t"
    using id_take_nth_drop[OF lt(1)] id_take_nth_drop[OF lt(2)] tk by simp_all
  have "longest_common_prefix (u @ a # x) (u @ b # y) = u" if "a \<noteq> b" for u x y :: bytes and a b
    using that by (induction u) auto
  then have "longest_common_prefix s t = take i s" using s t ne by metis
  moreover have "u @ a # x < u @ b # y \<longleftrightarrow> a < b" if "a \<noteq> b" for u x y :: bytes and a b
    using that by (induction u) auto
  then have "t < s \<longleftrightarrow> t ! i < s ! i" using s t ne by metis
  moreover have "s \<noteq> t" using ne by auto
  ultimately show ?thesis
    using lt ne by (auto simp: byte_cmp_def key_cmp_def)
qed

lemma agree_end_spec:
  assumes "agree s t i" "i = min (length s) (length t)"
  shows "i = length (longest_common_prefix s t) \<and> end_cmp s t i = key_cmp s t"
proof -
  have tk: "take i s = take i t" using agree_append[OF assms(1)] .
  have pre: "longest_common_prefix u (u @ x) = u" "longest_common_prefix (u @ x) u = u" for u x :: bytes
    by (induction u) auto
  consider "s = t" | y ys where "t = s @ y # ys" | y ys where "s = t @ y # ys"
  proof (cases "length s \<le> length t")
    case True
    then have "take i t = s" using tk assms(2) by simp
    then have "t = s @ drop i t" using append_take_drop_id[of i t] by simp
    then show ?thesis using that(1,2) by (cases "drop i t") auto
  next
    case False
    then have "take i s = t" using tk assms(2) by simp
    then have "s = t @ drop i s" using append_take_drop_id[of i s] by simp
    then show ?thesis using that(1,3) by (cases "drop i s") auto
  qed
  then show ?thesis
  proof cases
    case 1
    then show ?thesis using assms(2) pre(1)[of s "[]"] by (simp add: end_cmp_def key_cmp_def)
  next
    case 2
    have "s < s @ y # ys" by (induction s) auto
    then show ?thesis using 2 assms(2) by (simp add: pre end_cmp_def key_cmp_def)
  next
    case 3
    have "t < t @ y # ys" by (induction t) auto
    then show ?thesis using 3 assms(2) by (simp add: pre end_cmp_def key_cmp_def)
  qed
qed

lemma byte_scan_result:
  assumes "agree s t i"
  shows "let j = byte_scan s t (min (length s) (length t)) i in
    (j, end_cmp s t j) = (length (longest_common_prefix s t), key_cmp s t)"
proof -
  let ?m = "min (length s) (length t)"
  let ?j = "byte_scan s t ?m i"
  have j: "agree s t ?j" "?j < ?m \<Longrightarrow> s ! ?j \<noteq> t ! ?j"
    using byte_scan_ok[OF assms refl] by auto
  show ?thesis
  proof (cases "?j < ?m")
    case True
    then have "diff_at s t ?j" using j by (simp add: diff_at_def)
    from diff_at_spec[OF this] show ?thesis
      unfolding end_cmp_def Let_def if_P[OF True] .
  next
    case False
    moreover have "?j \<le> ?m" using j(1) unfolding agree_def by blast
    ultimately have "?j = ?m" by linarith
    from agree_end_spec[OF j(1) this] show ?thesis unfolding Let_def by (metis prod.inject)
  qed
qed

lemma get_prefix_eq:
  assumes "\<forall>w\<in>set ws. w \<le> 64"
  shows "get_prefix True ws s t = (length (longest_common_prefix s t), key_cmp s t)"
proof (cases "min (length s) (length t) < 8")
  case True
  have a0: "agree s t 0" by (simp add: agree_def)
  note d = diff_word_cases[OF a0, of 4]
  show ?thesis
  proof (cases "min (length s) (length t) \<ge> 4 \<and> diff_word True 4 s t 0 \<noteq> 0")
    case t: True
    then have "diff_at s t (count_trailing_zeros (diff_word True 4 s t 0) div 8)"
      using d(2) by simp
    note spec = diff_at_spec[OF this]
    show ?thesis
      unfolding get_prefix_def Let_def if_P[OF True] if_P[OF t] by (rule spec)
  next
    case f: False
    then have a: "agree s t (if min (length s) (length t) \<ge> 4 then 4 else 0)"
      using d(1) a0 by auto
    show ?thesis
      using byte_scan_result[OF a] unfolding get_prefix_def Let_def if_P[OF True] if_not_P[OF f] .
  qed
next
  case False
  let ?m = "min (length s) (length t)"
  have ok: "scan_ok s t (long_scan True ws s t ?m)"
    using long_scan_ok[OF refl _ assms, of s t] False by (simp only: not_less)
  show ?thesis
  proof (cases "long_scan True ws s t ?m")
    case (Inl i)
    then have "diff_at s t i" using ok by simp
    from diff_at_spec[OF this] show ?thesis
      unfolding get_prefix_def Let_def if_not_P[OF False] Inl sum.case .
  next
    case (Inr i)
    then have "agree s t i" using ok by simp
    from byte_scan_result[OF this] show ?thesis
      unfolding get_prefix_def Let_def if_not_P[OF False] Inr sum.case .
  qed
qed

text \<open>
  C33. The optimised prefix search is the plain one: whatever vector widths are compiled in
  (each at most 64 bytes), on a little-endian machine \<open>get_prefix\<close> returns the length of the
  longest common prefix and the sign of the lexicographic comparison of the two byte ranges.
\<close>

theorem get_prefix_correct:
  assumes "\<forall>w\<in>set ws. w \<le> 64"
  shows "get_prefix True ws s t =
    (length (longest_common_prefix s t), if s = t then 0 else if t < s then 1 else -1)"
  using get_prefix_eq[OF assms] by (simp add: key_cmp_def)

theorem get_prefix_correct_witness:
  "get_prefix True [64, 32, 16] [1, 2, 3, 4, 5] [1, 2, 3, 9] =
    (length (longest_common_prefix [1, 2, 3, 4, 5] [1, 2, 3, 9 :: uint8]),
     if [1, 2, 3, 4, 5] = [1, 2, 3, 9 :: uint8] then 0
     else if [1, 2, 3, 9] < [1, 2, 3, 4, 5 :: uint8] then 1 else -1)"
  by (rule get_prefix_correct) simp

text \<open>
  The short fast paths take the number of trailing zeros of the difference without asking for
  the byte order. On a big-endian machine they report the last difference of the block, not
  the first one.
\<close>

lemma get_prefix_big_endian:
  "get_prefix False [] [9, 2, 3, 4] [1, 2, 3, 4] = (3, -1)"
  by code_simp

lemma memcmp_append_eq: "length s = length t \<Longrightarrow> memcmp s t = key_cmp s t"
  by (induction s t rule: list_induct2) (auto simp: key_cmp_def)

text \<open>
  \<open>Slice::compare\<close> is the lexicographic order on bytes, and \<open>Slice::operator==\<close> is equality.
\<close>

theorem slice_compare_correct:
  "slice_compare s t = (if s = t then 0 else if t < s then 1 else -1) \<and> (slice_eq s t \<longleftrightarrow> s = t)"
proof
  have "slice_compare s t = key_cmp s t"
  proof (induction s arbitrary: t)
    case Nil
    then show ?case by (cases t) (auto simp: slice_compare_def key_cmp_def)
  next
    case step: (Cons x xs)
    show ?case
    proof (cases t)
      case Nil
      then show ?thesis by (simp add: slice_compare_def key_cmp_def)
    next
      case (Cons y ys)
      then show ?thesis
        using step.IH[of ys] memcmp_append_eq[of ys ys] by (auto simp: slice_compare_def key_cmp_def Let_def split: if_splits)
    qed
  qed
  then show "slice_compare s t = (if s = t then 0 else if t < s then 1 else -1)"
    by (simp add: key_cmp_def)
  show "slice_eq s t \<longleftrightarrow> s = t"
    by (auto simp: slice_eq_def memcmp_append_eq key_cmp_def split: if_splits)
qed

section \<open>Offsets\<close>

lemma type_masks: "TYPE_MASK OR RELATIVE_FLAG = mask 3" "TYPE_MASK = mask 2"
  by (simp_all add: TYPE_MASK_def RELATIVE_FLAG_def mask_eq_exp_minus_1)

lemma bit_type_bits: "bit (type_bits ty) n \<longleftrightarrow> ty = LEAF \<and> n = 0"
  by (cases ty) (auto simp: type_bits_def bit_1_iff)

lemma bit_RELATIVE_FLAG: "bit RELATIVE_FLAG n \<longleftrightarrow> n = 2"
proof -
  have r: "RELATIVE_FLAG = 2 ^ 2" by (simp add: RELATIVE_FLAG_def)
  show ?thesis unfolding r bit_exp_iff by auto
qed

lemmas offset_bits = bit_and_iff bit_or_iff bit_not_iff bit_mask_iff bit_type_bits bit_RELATIVE_FLAG

lemma aligned_low_bits:
  assumes "(off :: uint64) AND 7 = 0"
  shows "n < 3 \<Longrightarrow> \<not> bit off n"
proof -
  assume n: "n < 3"
  have "(7 :: uint64) = mask 3" by (simp add: mask_eq_exp_minus_1)
  then have "off AND mask 3 = 0" using assms by simp
  then have "\<not> bit (off AND mask 3) n" by simp
  then show "\<not> bit off n" using n by (simp add: bit_and_low_mask)
qed

lemma small_sign_bits:
  assumes "- (2 ^ 60) \<le> sint (d :: uint64)" "sint d < 2 ^ 60" "60 \<le> n" "n < 64"
  shows "bit d n = bit d 60"
proof -
  have "signed_take_bit 60 (sint d) = sint d"
    using assms(1,2) by (simp add: signed_take_bit_int_eq_self)
  moreover have "bit (signed_take_bit 60 (sint d)) n = bit (sint d) (min 60 n)"
    by (simp add: bit_signed_take_bit_iff)
  ultimately have "bit (sint d) n = bit (sint d) (min 60 n)" by simp
  then show ?thesis using assms(3,4) by (simp add: bit_sint_iff min_def split: if_splits)
qed

text \<open>
  Tagging an 8-byte aligned offset with a node type loses nothing: the address and the
  type are read back, and the offset is not marked relative.
\<close>

theorem offset_tag_roundtrip:
  assumes "off AND 7 = 0"
  shows "offset_value (offset_set_type ty off) = off \<and>
    offset_type (offset_set_type ty off) = type_bits ty \<and>
    \<not> offset_is_relative (offset_set_type ty off)"
proof -
  note low = aligned_low_bits[OF assms]
  have "offset_value (offset_set_type ty off) = off"
    unfolding offset_value_def offset_set_type_def type_masks
    by (rule bit_word_eqI) (use low in \<open>auto simp: offset_bits\<close>)
  moreover have "offset_type (offset_set_type ty off) = type_bits ty"
    unfolding offset_type_def offset_set_type_def type_masks
    by (rule bit_word_eqI) (use low in \<open>auto simp: offset_bits\<close>)
  moreover have "offset_set_type ty off AND RELATIVE_FLAG = 0"
    unfolding offset_set_type_def type_masks
    by (rule bit_word_eqI) (use low in \<open>auto simp: offset_bits\<close>)
  ultimately show ?thesis by (simp add: offset_is_relative_def)
qed

theorem offset_tag_roundtrip_witness:
  "offset_value (offset_set_type LEAF 64) = 64 \<and>
   offset_type (offset_set_type LEAF 64) = type_bits LEAF \<and>
   \<not> offset_is_relative (offset_set_type LEAF 64)"
  by (rule offset_tag_roundtrip) simp

text \<open>
  A relative offset stored at address \<open>this\<close> resolves to the destination it was made from,
  keeps the node type and is marked relative, for an aligned distance below \<open>2^60\<close> in either
  direction.
\<close>

theorem offset_relative_roundtrip:
  assumes "(dest - this) AND 7 = 0"
    and "- (2 ^ 60) \<le> sint (dest - this)" "sint (dest - this) < 2 ^ 60"
  shows "offset_resolve this (offset_set_relative this dest ty) = dest \<and>
    offset_type (offset_set_relative this dest ty) = type_bits ty \<and>
    offset_is_relative (offset_set_relative this dest ty)"
proof -
  let ?d = "dest - this" and ?o = "offset_set_relative this dest ty"
  note low = aligned_low_bits[OF assms(1)]
  note high = small_sign_bits[OF assms(2,3)]
  have v: "?o AND NOT (mask 3) = ?d"
    unfolding offset_set_relative_def offset_set_type_def type_masks
    by (rule bit_word_eqI) (use low in \<open>auto simp: offset_bits\<close>)
  have "signed_drop_bit 3 (push_bit 3 ?d) = ?d"
  proof (rule bit_word_eqI)
    fix n assume "n < LENGTH(64)"
    then have n: "n < 64" by simp
    show "bit (signed_drop_bit 3 (push_bit 3 ?d)) n = bit ?d n"
    proof (cases "n < 61")
      case True
      then show ?thesis by (simp add: bit_signed_drop_bit_iff bit_push_bit_iff)
    next
      case False
      then have "bit ?d n = bit ?d 60" using n by (intro high) simp_all
      with False n show ?thesis by (simp add: bit_signed_drop_bit_iff bit_push_bit_iff)
    qed
  qed
  then have "offset_resolve this ?o = dest"
    unfolding offset_resolve_def offset_as_signed_def type_masks(1) v by simp
  moreover have "offset_type ?o = type_bits ty"
    unfolding offset_type_def offset_set_relative_def offset_set_type_def type_masks
    by (rule bit_word_eqI) (use low in \<open>auto simp: offset_bits\<close>)
  moreover have "bit (?o AND RELATIVE_FLAG) 2"
    unfolding offset_set_relative_def offset_set_type_def type_masks
    by (simp add: offset_bits)
  then have "?o AND RELATIVE_FLAG \<noteq> 0" by auto
  ultimately show ?thesis by (simp add: offset_is_relative_def)
qed

theorem offset_relative_roundtrip_witness:
  "offset_resolve 4096 (offset_set_relative 4096 64 TRIE) = 64 \<and>
   offset_type (offset_set_relative 4096 64 TRIE) = type_bits TRIE \<and>
   offset_is_relative (offset_set_relative 4096 64 TRIE)"
  by (rule offset_relative_roundtrip) simp_all

end
