(* ===== verification/Leaves_Node.thy ===== *)
theory Leaves_Node
  imports Leaves_Util
begin

text \<open>
  Trie and leaf nodes (\<open>include/leaves/intern/core/_node.hpp\<close>). A trie node keeps, for the
  257 possible branch keys (\<open>NONE\<close> and the 256 bytes), an 8-bit bitmap of the groups of 32
  keys that are present, one 32-bit bitmap per present group, and the dense array of links.
  The two variable-length parts \<open>lower()\<close> and \<open>array()\<close> are lists here; the header fields
  that say where they start are kept and computed as in the code. The type of a link is a
  parameter.
\<close>

section \<open>Template parameters and constants\<close>

record traits =
  HASH_SIZE :: nat
  PAGE_SIZES :: "nat list"
  AREA_SIZE :: nat
  PAGE_CONTAINER_SIZE :: nat
  MAX_KEY_SIZE :: nat
  PAGE_HEADER_SIZE :: nat
  LITTLE_ENDIAN :: bool
  VECTOR_WIDTHS :: "nat list"

definition trie_HEADER_SIZE :: "traits \<Rightarrow> nat" where
  "trie_HEADER_SIZE T = 2 + 1 + 1 + 1 + 1 + HASH_SIZE T + 1"

definition sizeof_uint32_e :: nat where
  "sizeof_uint32_e = 4"

definition sizeof_offset_e :: nat where
  "sizeof_offset_e = 8"

definition MAX_BRANCH_COUNT :: nat where
  "MAX_BRANCH_COUNT = 257"

definition NULL_MASK :: uint16 where
  "NULL_MASK = push_bit 15 1"

definition NONE :: int where
  "NONE = -1"

definition OUT_OF_RANGE :: int where
  "OUT_OF_RANGE = -2"

definition LOWER_MASK :: uint8 where
  "LOWER_MASK = 31"

definition trie_MAX_SIZE :: "traits \<Rightarrow> nat" where
  "trie_MAX_SIZE T =
     align_size (padding (trie_HEADER_SIZE T + 255) sizeof_uint32_e + 8 * sizeof_uint32_e)
     + MAX_BRANCH_COUNT * sizeof_offset_e"

record 'o trie_node =
  array_len :: uint16
  upper :: uint8
  compressed_len :: uint8
  lower_offset :: uint8
  array_offset :: uint8
  compressed :: bytes
  lower :: "uint32 list"
  array :: "'o list"

section \<open>Accessors and sizes\<close>

definition node_count :: "('o, 'z) trie_node_scheme \<Rightarrow> nat" where
  "node_count n = unat (array_len n AND NOT NULL_MASK)"

definition has_none :: "('o, 'z) trie_node_scheme \<Rightarrow> bool" where
  "has_none n \<longleftrightarrow> array_len n AND NULL_MASK \<noteq> 0"

definition ubit :: "int \<Rightarrow> nat" where
  "ubit k = unat (drop_bit 5 (word_of_int k :: uint8))"

definition lbit :: "int \<Rightarrow> nat" where
  "lbit k = unat ((word_of_int k :: uint8) AND LOWER_MASK)"

definition lower_size :: "('o, 'z) trie_node_scheme \<Rightarrow> nat" where
  "lower_size n = bits_count (native8 (upper n)) * sizeof_uint32_e"

definition lower_start :: "('o, 'z) trie_node_scheme \<Rightarrow> nat" where
  "lower_start n = unat (lower_offset n) * sizeof_uint32_e"

definition lower_end :: "('o, 'z) trie_node_scheme \<Rightarrow> nat" where
  "lower_end n = lower_start n + lower_size n"

definition array_start :: "('o, 'z) trie_node_scheme \<Rightarrow> nat" where
  "array_start n = unat (array_offset n) * sizeof_offset_e"

definition array_size :: "('o, 'z) trie_node_scheme \<Rightarrow> nat" where
  "array_size n = node_count n * sizeof_offset_e"

definition array_end :: "('o, 'z) trie_node_scheme \<Rightarrow> nat" where
  "array_end n = array_start n + array_size n"

definition node_size :: "('o, 'z) trie_node_scheme \<Rightarrow> nat" where
  "node_size n = array_end n"

definition changed_len :: "traits \<Rightarrow> ('o, 'z) trie_node_scheme \<Rightarrow> nat \<Rightarrow> nat" where
  "changed_len T n new_compressed_len =
     (let prefix_size = padding (trie_HEADER_SIZE T + new_compressed_len) sizeof_uint32_e
      in align_size (prefix_size + lower_size n + array_size n))"

definition increment_size :: "traits \<Rightarrow> ('o, 'z) trie_node_scheme \<Rightarrow> int \<Rightarrow> nat" where
  "increment_size T n key =
     (let prefix_size = padding (trie_HEADER_SIZE T + unat (compressed_len n)) sizeof_uint32_e;
          lower_size' = lower_size n +
            (if key \<noteq> NONE \<and> \<not> bits_isset (native8 (upper n)) (ubit key)
             then sizeof_uint32_e else 0);
          array_size' = (node_count n + 1) * sizeof_offset_e
      in align_size (prefix_size + lower_size' + array_size'))"

definition decrement_size :: "traits \<Rightarrow> ('o, 'z) trie_node_scheme \<Rightarrow> int \<Rightarrow> nat" where
  "decrement_size T n key =
     (let prefix_size = padding (trie_HEADER_SIZE T + unat (compressed_len n)) sizeof_uint32_e;
          lidx = bits_index (native8 (upper n)) (ubit key);
          lower_size' = lower_size n -
            (if key \<noteq> NONE \<and> bits_isset (native8 (upper n)) (ubit key)
                \<and> bits_count (lower n ! lidx) = 1
             then sizeof_uint32_e else 0);
          array_size' = (node_count n - 1) * sizeof_offset_e
      in align_size (prefix_size + lower_size' + array_size'))"

definition calc_lower_start :: "traits \<Rightarrow> ('o, 'z) trie_node_scheme \<Rightarrow> nat" where
  "calc_lower_start T n = padding (trie_HEADER_SIZE T + unat (compressed_len n)) sizeof_uint32_e"

definition calc_array_start :: "('o, 'z) trie_node_scheme \<Rightarrow> nat" where
  "calc_array_start n =
     align_size (lower_start n + bits_count (native8 (upper n)) * sizeof_uint32_e)"

definition trie_size_keys :: "traits \<Rightarrow> nat \<Rightarrow> int \<Rightarrow> int \<Rightarrow> nat" where
  "trie_size_keys T pfx key1 key2 =
     (let prefix_size = padding (trie_HEADER_SIZE T + pfx) sizeof_uint32_e;
          lower_size = (if key1 = NONE \<or> key2 = NONE then sizeof_uint32_e
                        else if ubit key1 = ubit key2 then sizeof_uint32_e
                        else 2 * sizeof_uint32_e)
      in align_size (prefix_size + lower_size) + 2 * sizeof_offset_e)"

definition trie_size_branches :: "traits \<Rightarrow> nat \<Rightarrow> nat \<Rightarrow> nat" where
  "trie_size_branches T pfx branches =
     (let prefix_size = padding (trie_HEADER_SIZE T + pfx) sizeof_uint32_e;
          lower_size = min branches 8 * sizeof_uint32_e;
          array_size = branches * sizeof_offset_e
      in align_size (prefix_size + lower_size + array_size))"

section \<open>Constructors\<close>

definition set_layout :: "nat \<Rightarrow> nat \<Rightarrow> 'o trie_node \<Rightarrow> 'o trie_node" where
  "set_layout lower_start' array_start' n =
     n\<lparr>lower_offset := word_of_nat (lower_start' div sizeof_uint32_e),
       array_offset := word_of_nat (array_start' div sizeof_offset_e)\<rparr>"

text \<open>\<open>create(Slice prefix, int key1, int key2)\<close>: the links of both keys are still unset.\<close>

definition create_keys ::
  "traits \<Rightarrow> bytes \<Rightarrow> int \<Rightarrow> int \<Rightarrow> ('o::zero) trie_node \<times> (nat \<times> nat)" where
  "create_keys T pfx key1' key2' =
     (let len = word_of_nat (length pfx) :: uint8;
          (key1, key2, result) =
            (if key2' < key1' then (key2', key1', (1, 0)) else (key1', key2', (0, 1)));
          lower_start' = padding (trie_HEADER_SIZE T + unat len) sizeof_uint32_e;
          (alen, up, low, array_start') =
            (if key1 \<noteq> NONE then
               (let u = push_bit (ubit key1) 1 OR push_bit (ubit key2) 1
                in if bits_count (native8 u) = 1
                   then (2, u, [push_bit (lbit key1) 1 OR push_bit (lbit key2) 1],
                         align_size (lower_start' + sizeof_uint32_e))
                   else (2, u, [push_bit (lbit key1) 1, push_bit (lbit key2) 1],
                         align_size (lower_start' + 2 * sizeof_uint32_e)))
             else (2 OR NULL_MASK, push_bit (ubit key2) 1, [push_bit (lbit key2) 1],
                   align_size (lower_start' + sizeof_uint32_e)))
      in (set_layout lower_start' array_start'
            \<lparr>array_len = alen, upper = up, compressed_len = len, lower_offset = 0,
             array_offset = 0, compressed = take (unat len) pfx, lower = low, array = [0, 0]\<rparr>,
          result))"

text \<open>\<open>create(Slice prefix, int key)\<close>; the returned array index is always 0.\<close>

definition create_key :: "traits \<Rightarrow> bytes \<Rightarrow> int \<Rightarrow> ('o::zero) trie_node \<times> nat" where
  "create_key T pfx key =
     (let len = word_of_nat (length pfx) :: uint8;
          lower_start' = padding (trie_HEADER_SIZE T + unat len) sizeof_uint32_e;
          (alen, up, low, array_start') =
            (if key \<noteq> NONE
             then (1, push_bit (ubit key) 1, [push_bit (lbit key) 1],
                   align_size (lower_start' + sizeof_uint32_e))
             else (1 OR NULL_MASK, 0, [], align_size lower_start'))
      in (set_layout lower_start' array_start'
            \<lparr>array_len = alen, upper = up, compressed_len = len, lower_offset = 0,
             array_offset = 0, compressed = take (unat len) pfx, lower = low, array = [0]\<rparr>,
          0))"

text \<open>\<open>create(const TNode& src, Slice prefix)\<close>: the branches of \<open>src\<close> under another prefix.\<close>

definition create_prefix :: "traits \<Rightarrow> 'o trie_node \<Rightarrow> bytes \<Rightarrow> 'o trie_node" where
  "create_prefix T src pfx =
     (let len = word_of_nat (length pfx) :: uint8;
          bcount = bits_count (native8 (upper src));
          n = \<lparr>array_len = array_len src, upper = upper src, compressed_len = len,
               lower_offset = word_of_nat
                 (padding (trie_HEADER_SIZE T + unat len) sizeof_uint32_e div sizeof_uint32_e),
               array_offset = 0, compressed = take (unat len) pfx,
               lower = take bcount (lower src), array = take (node_count src) (array src)\<rparr>
      in n\<lparr>array_offset := word_of_nat
             (align_size (lower_start n + bcount * sizeof_uint32_e) div sizeof_offset_e)\<rparr>)"

text \<open>The array index of a key, from the bitmaps: the unrolled sums of the code.\<close>

definition sum_lower :: "uint32 list \<Rightarrow> nat \<Rightarrow> nat" where
  "sum_lower ls lidx = sum_list (map bits_count (take (min lidx 7) ls))"

definition link_index :: "uint16 \<Rightarrow> uint32 list \<Rightarrow> nat \<Rightarrow> int \<Rightarrow> nat" where
  "link_index alen ls lidx key =
     bits_count (ls ! lidx AND (push_bit (lbit key) 1 - 1)) + of_bool (alen AND NULL_MASK \<noteq> 0)
     + sum_lower ls lidx"

text \<open>\<open>create(const TNode& src, int key)\<close>: \<open>src\<close> with one more branch, whose link is unset.\<close>

definition create_add :: "traits \<Rightarrow> ('o::zero) trie_node \<Rightarrow> int \<Rightarrow> 'o trie_node \<times> nat" where
  "create_add T src key =
     (let lower_start' = padding (trie_HEADER_SIZE T + unat (compressed_len src)) sizeof_uint32_e;
          alen = array_len src + 1;
          (alen', up, low, oidx) =
            (if key \<noteq> NONE then
               (let bt = ubit key;
                    up = upper src OR push_bit bt 1;
                    lidx = bits_index (native8 up) bt;
                    low = (if bits_isset (native8 (upper src)) bt
                           then (lower src)[lidx := lower src ! lidx OR push_bit (lbit key) 1]
                           else take lidx (lower src) @ [push_bit (lbit key) 1]
                                @ take (bits_count (native8 (upper src)) - lidx) (drop lidx (lower src)))
                in (alen, up, low, link_index alen low lidx key))
             else (alen OR NULL_MASK, upper src, take (bits_count (native8 (upper src))) (lower src), 0));
          n = \<lparr>array_len = alen', upper = up, compressed_len = compressed_len src,
               lower_offset = word_of_nat (lower_start' div sizeof_uint32_e), array_offset = 0,
               compressed = take (unat (compressed_len src)) (compressed src), lower = low,
               array = []\<rparr>
      in (n\<lparr>array_offset := word_of_nat (calc_array_start n div sizeof_offset_e),
            array := take oidx (array src) @ [0]
                     @ take (node_count n - 1 - oidx) (drop oidx (array src))\<rparr>,
          oidx))"

text \<open>\<open>create_remove(const TrieNode& src, int key)\<close>: \<open>src\<close> without the branch of \<open>key\<close>.\<close>

definition create_remove :: "traits \<Rightarrow> 'o trie_node \<Rightarrow> int \<Rightarrow> 'o trie_node" where
  "create_remove T src key =
     (let lower_start' = padding (trie_HEADER_SIZE T + unat (compressed_len src)) sizeof_uint32_e;
          alen = array_len src - 1;
          (alen', up, low, oidx) =
            (if key \<noteq> NONE then
               (let bt = ubit key;
                    lidx = bits_index (native8 (upper src)) bt;
                    new_lower_val = lower src ! lidx AND NOT (push_bit (lbit key) 1)
                in if new_lower_val = 0
                   then (alen, upper src AND NOT (push_bit bt 1),
                         take lidx (lower src)
                         @ take (bits_count (native8 (upper src)) - lidx - 1) (drop (lidx + 1) (lower src)),
                         link_index alen (lower src) lidx key)
                   else (alen, upper src, (lower src)[lidx := new_lower_val],
                         link_index alen (lower src) lidx key))
             else (alen AND NOT NULL_MASK, upper src,
                   take (bits_count (native8 (upper src))) (lower src), 0));
          n = \<lparr>array_len = alen', upper = up, compressed_len = compressed_len src,
               lower_offset = word_of_nat (lower_start' div sizeof_uint32_e), array_offset = 0,
               compressed = take (unat (compressed_len src)) (compressed src), lower = low,
               array = []\<rparr>
      in n\<lparr>array_offset := word_of_nat (calc_array_start n div sizeof_offset_e),
           array := take oidx (array src)
                    @ take (node_count n - oidx) (drop (oidx + 1) (array src))\<rparr>)"

text \<open>
  \<open>insert_branch(int key)\<close>: the in-place variant. Opening a slot with \<open>memmove\<close> leaves the
  bytes of the slot as they were.
\<close>

definition open_slot :: "nat \<Rightarrow> ('o::zero) list \<Rightarrow> 'o list" where
  "open_slot i xs = take i xs @ [if i < length xs then xs ! i else 0] @ drop i xs"

definition insert_branch :: "('o::zero) trie_node \<Rightarrow> int \<Rightarrow> 'o trie_node \<times> nat" where
  "insert_branch n key =
     (if key = NONE then
        (n\<lparr>array_len := (array_len n + 1) OR NULL_MASK, array := open_slot 0 (array n)\<rparr>, 0)
      else
        let bt = ubit key
        in if bits_isset (native8 (upper n)) bt then
             (let lidx = bits_index (native8 (upper n)) bt;
                  oidx = link_index (array_len n) (lower n) lidx key
              in (n\<lparr>lower := (lower n)[lidx := lower n ! lidx OR push_bit (lbit key) 1],
                    array := open_slot oidx (array n), array_len := array_len n + 1\<rparr>, oidx))
           else
             (let ls = lower_start n;
                  old_bcount = bits_count (native8 (upper n));
                  up = upper n OR push_bit bt 1;
                  new_lidx = bits_index (native8 up) bt;
                  oidx = of_bool (array_len n AND NULL_MASK \<noteq> 0)
                         + sum_list (map bits_count (take new_lidx (lower n)));
                  new_as = align_size (ls + (old_bcount + 1) * sizeof_uint32_e)
              in (n\<lparr>upper := up,
                    lower := take new_lidx (lower n) @ [push_bit (lbit key) 1] @ drop new_lidx (lower n),
                    array := open_slot oidx (array n),
                    array_offset := word_of_nat (new_as div sizeof_offset_e),
                    array_len := array_len n + 1\<rparr>, oidx)))"

section \<open>Queries\<close>

definition node_isset :: "('o, 'z) trie_node_scheme \<Rightarrow> int \<Rightarrow> bool" where
  "node_isset n nchar =
     (if nchar = NONE then has_none n
      else bits_isset (native8 (upper n)) (ubit nchar)
           \<and> lower n ! bits_index (native8 (upper n)) (ubit nchar) AND push_bit (lbit nchar) 1 \<noteq> 0)"

definition array_index :: "('o, 'z) trie_node_scheme \<Rightarrow> int \<Rightarrow> int" where
  "array_index n nchar =
     (if nchar = NONE then (if has_none n then 0 else -1)
      else let lidx = bits_index (native8 (upper n)) (ubit nchar)
           in if bits_isset (native8 (upper n)) (ubit nchar)
              then if lower n ! lidx AND push_bit (lbit nchar) 1 = 0 then -1
                   else int (link_index (array_len n) (lower n) lidx nchar)
              else -1)"

definition node_offset :: "('o, 'z) trie_node_scheme \<Rightarrow> int \<Rightarrow> 'o option" where
  "node_offset n nchar =
     (let idx = array_index n nchar in if idx \<ge> 0 then Some (array n ! nat idx) else None)"

definition key_of :: "int \<Rightarrow> int \<Rightarrow> int" where
  "key_of grp b = (push_bit 5 grp) OR b"

definition prev_lower :: "('o, 'z) trie_node_scheme \<Rightarrow> int \<Rightarrow> int" where
  "prev_lower n nchar =
     (let lidx = bits_prev (native8 (upper n)) (ubit nchar)
      in if lidx < 0 then (if has_none n then NONE else OUT_OF_RANGE)
         else key_of lidx (bits_last (lower n ! bits_index (native8 (upper n)) (nat lidx))))"

definition node_prev :: "('o, 'z) trie_node_scheme \<Rightarrow> int \<Rightarrow> int" where
  "node_prev n nchar =
     (if nchar = NONE then OUT_OF_RANGE
      else if \<not> bits_isset (native8 (upper n)) (ubit nchar) then prev_lower n nchar
      else let lidx = bits_index (native8 (upper n)) (ubit nchar);
               lbit_idx = bits_prev (lower n ! lidx) (lbit nchar)
           in if lbit_idx < 0 then prev_lower n nchar else key_of (int (ubit nchar)) lbit_idx)"

definition next_lower :: "('o, 'z) trie_node_scheme \<Rightarrow> int \<Rightarrow> int" where
  "next_lower n nchar =
     (let lidx = bits_next (native8 (upper n)) (ubit nchar)
      in if lidx < 0 then OUT_OF_RANGE
         else key_of lidx (bits_first (lower n ! bits_index (native8 (upper n)) (nat lidx))))"

definition node_next :: "('o, 'z) trie_node_scheme \<Rightarrow> int \<Rightarrow> int" where
  "node_next n nchar =
     (if nchar = NONE then
        (let lidx = bits_first (native8 (upper n))
         in if lidx < 0 then OUT_OF_RANGE else key_of lidx (bits_first (lower n ! 0)))
      else if \<not> bits_isset (native8 (upper n)) (ubit nchar) then next_lower n nchar
      else let lidx = bits_index (native8 (upper n)) (ubit nchar);
               lbit_idx = bits_next (lower n ! lidx) (lbit nchar)
           in if lbit_idx < 0 then next_lower n nchar else key_of (int (ubit nchar)) lbit_idx)"

definition node_first :: "('o, 'z) trie_node_scheme \<Rightarrow> int" where
  "node_first n =
     (if has_none n then NONE
      else key_of (bits_first (native8 (upper n))) (bits_first (lower n ! 0)))"

text \<open>
  \<open>for_each_branch\<close> calls its argument for each branch in turn; the model lists the calls, as
  pairs of the key and the array index of the link.
\<close>

function scan_lower :: "int \<Rightarrow> uint32 \<Rightarrow> nat \<Rightarrow> (int \<times> nat) list \<times> nat" where
  "scan_lower base remaining_lower arr_idx =
     (if remaining_lower = 0 then ([], arr_idx)
      else let bt = bits_first remaining_lower;
               (calls, i) = scan_lower base (remaining_lower AND (remaining_lower - 1)) (arr_idx + 1)
           in ((base OR bt, arr_idx) # calls, i))"
  by pat_completeness auto

function scan_upper :: "uint32 list \<Rightarrow> uint8 \<Rightarrow> nat \<Rightarrow> nat \<Rightarrow> (int \<times> nat) list" where
  "scan_upper ls remaining_upper lower_idx arr_idx =
     (if remaining_upper = 0 then []
      else let grp = bits_first (native8 remaining_upper);
               (calls, i) = scan_lower (push_bit 5 grp) (ls ! lower_idx) arr_idx
           in calls @ scan_upper ls (remaining_upper AND (remaining_upper - 1)) (lower_idx + 1) i)"
  by pat_completeness auto

lemma blsr_less:
  assumes "w \<noteq> (0 :: 'a::len word)"
  shows "unat (w AND (w - 1)) < unat w"
proof -
  have "w AND (w - 1) \<le> w - 1" by (rule word_and_le1)
  also have "w - 1 < w" using assms by (simp add: word_less_nat_alt unat_minus_one unat_gt_0)
  finally show ?thesis by (simp add: word_less_nat_alt)
qed

termination scan_lower
  by (relation "measure (\<lambda>(base, w, i). unat w)") (auto simp: blsr_less)

termination scan_upper
  by (relation "measure (\<lambda>(ls, w, j, i). unat w)") (auto simp: blsr_less)

definition for_each_branch :: "('o, 'z) trie_node_scheme \<Rightarrow> (int \<times> nat) list" where
  "for_each_branch n =
     (if has_none n then (NONE, 0) # scan_upper (lower n) (upper n) 0 1
      else scan_upper (lower n) (upper n) 0 0)"

declare scan_lower.simps [simp del] scan_upper.simps [simp del]

section \<open>Bulk construction\<close>

text \<open>
  \<open>create(const Slice& prefix, offset_e* offsets, uint8_t precomputed_upper)\<close>: the inner loop
  over the 32 keys of a group yields the bitmap of the group and its non-zero links.
\<close>

definition bulk_group :: "(int \<Rightarrow> 'o::zero) \<Rightarrow> int \<Rightarrow> uint32 \<times> 'o list" where
  "bulk_group offsets base =
     fold (\<lambda>j (lbits, arr). if offsets (base + int j) \<noteq> 0
                            then (lbits OR push_bit j 1, arr @ [offsets (base + int j)])
                            else (lbits, arr)) [0..<32] (0, [])"

function bulk_groups ::
  "(int \<Rightarrow> 'o::zero) \<Rightarrow> uint8 \<Rightarrow> uint8 \<Rightarrow> uint32 list \<times> 'o list \<Rightarrow> uint32 list \<times> 'o list" where
  "bulk_groups offsets up remaining (low, arr) =
     (if remaining = 0 then (low, arr)
      else let grp = bits_first (native8 remaining);
               (lbits, links) = bulk_group offsets (push_bit 5 grp)
           in bulk_groups offsets up (remaining AND (remaining - 1))
                (low[bits_index (native8 up) (nat grp) := lbits], arr @ links))"
  by pat_completeness auto

termination bulk_groups
  by (relation "measure (\<lambda>(offsets, up, w, r). unat w)") (auto simp: blsr_less)

definition create_bulk :: "traits \<Rightarrow> bytes \<Rightarrow> (int \<Rightarrow> 'o::zero) \<Rightarrow> uint8 \<Rightarrow> 'o trie_node" where
  "create_bulk T pfx offsets precomputed_upper =
     (let len = word_of_nat (length pfx) :: uint8;
          n = \<lparr>array_len = 0, upper = precomputed_upper, compressed_len = len, lower_offset = 0,
               array_offset = 0, compressed = take (unat len) pfx, lower = [], array = []\<rparr>;
          n' = n\<lparr>lower_offset := word_of_nat (calc_lower_start T n div sizeof_uint32_e)\<rparr>;
          n'' = n'\<lparr>array_offset := word_of_nat (calc_array_start n' div sizeof_offset_e)\<rparr>;
          none = offsets NONE \<noteq> 0;
          (low, arr) = bulk_groups offsets precomputed_upper precomputed_upper
                         (replicate (bits_count (native8 precomputed_upper)) 0, [])
      in n''\<lparr>array_len := (if none then 1 OR NULL_MASK else 0) + word_of_nat (length arr),
             lower := low, array := (if none then [offsets NONE] else []) @ arr\<rparr>)"

declare bulk_groups.simps [simp del]

section \<open>Leaf nodes\<close>

text \<open>
  A leaf holds the rest of its key and the value, or, when the top bit of \<open>value_size\<close> is
  set, a descriptor of a value kept elsewhere. \<open>data\<close> is the byte area behind the header.
\<close>

record leaf_node =
  value_size :: uint16
  key_size :: uint8
  leaf_data :: bytes

definition leaf_HEADER_SIZE :: "traits \<Rightarrow> nat" where
  "leaf_HEADER_SIZE T = 2 + 1 + HASH_SIZE T"

definition leaf_MAX_SIZE :: "traits \<Rightarrow> nat" where
  "leaf_MAX_SIZE T = last (PAGE_SIZES T)"

definition BIG_VALUE_FLAG :: uint16 where
  "BIG_VALUE_FLAG = push_bit 15 1"

definition vsize :: "leaf_node \<Rightarrow> nat" where
  "vsize l = unat (value_size l AND NOT BIG_VALUE_FLAG)"

definition leaf_key :: "leaf_node \<Rightarrow> bytes" where
  "leaf_key l = take (unat (key_size l)) (leaf_data l)"

definition leaf_value :: "leaf_node \<Rightarrow> bytes" where
  "leaf_value l = take (vsize l) (drop (unat (key_size l)) (leaf_data l))"

definition leaf_size :: "traits \<Rightarrow> leaf_node \<Rightarrow> nat" where
  "leaf_size T l = leaf_HEADER_SIZE T + unat (key_size l) + vsize l"

definition set_big :: "leaf_node \<Rightarrow> leaf_node" where
  "set_big l = l\<lparr>value_size := value_size l OR BIG_VALUE_FLAG\<rparr>"

definition clear_big :: "leaf_node \<Rightarrow> leaf_node" where
  "clear_big l = l\<lparr>value_size := value_size l AND NOT BIG_VALUE_FLAG\<rparr>"

definition leaf_is_big :: "leaf_node \<Rightarrow> bool" where
  "leaf_is_big l \<longleftrightarrow> value_size l AND BIG_VALUE_FLAG = BIG_VALUE_FLAG"

text \<open>\<open>set(key, value_size)\<close> writes the key over the first bytes of the data area.\<close>

definition leaf_set :: "leaf_node \<Rightarrow> bytes \<Rightarrow> nat \<Rightarrow> leaf_node" where
  "leaf_set l key value_size' =
     l\<lparr>key_size := word_of_nat (length key), leaf_data := key @ drop (length key) (leaf_data l),
       value_size := word_of_nat value_size'\<rparr>"

text \<open>\<open>memcpy\<close> of a value to \<open>vdata()\<close>.\<close>

definition leaf_write :: "leaf_node \<Rightarrow> bytes \<Rightarrow> leaf_node" where
  "leaf_write l v =
     l\<lparr>leaf_data := take (unat (key_size l)) (leaf_data l) @ v
        @ drop (unat (key_size l) + length v) (leaf_data l)\<rparr>"

definition leaf_size_of :: "traits \<Rightarrow> nat \<Rightarrow> nat \<Rightarrow> nat" where
  "leaf_size_of T key value = leaf_HEADER_SIZE T + key + value"

section \<open>The branch keys of a node\<close>

definition mkkey :: "nat \<Rightarrow> nat \<Rightarrow> int" where
  "mkkey g j = int (32 * g + j)"

definition group_keys :: "nat list \<Rightarrow> uint32 list \<Rightarrow> int list" where
  "group_keys gs ls = concat (map2 (\<lambda>g l. map (mkkey g) (bit_list l)) gs ls)"

definition node_keys :: "('o, 'z) trie_node_scheme \<Rightarrow> int list" where
  "node_keys n = (if has_none n then [NONE] else []) @ group_keys (bit_list (upper n)) (lower n)"

definition valid_key :: "int \<Rightarrow> bool" where
  "valid_key k \<longleftrightarrow> -1 \<le> k \<and> k < 256"

definition wf_bitmaps :: "('o, 'z) trie_node_scheme \<Rightarrow> bool" where
  "wf_bitmaps n \<longleftrightarrow> length (lower n) = bits_count (upper n) \<and> 0 \<notin> set (lower n)
     \<and> node_count n = length (node_keys n) \<and> length (array n) = node_count n"

definition wf_layout :: "traits \<Rightarrow> ('o, 'z) trie_node_scheme \<Rightarrow> bool" where
  "wf_layout T n \<longleftrightarrow> length (compressed n) = unat (compressed_len n)
     \<and> lower_start n = calc_lower_start T n \<and> array_start n = calc_array_start n"

definition wf_node :: "traits \<Rightarrow> ('o, 'z) trie_node_scheme \<Rightarrow> bool" where
  "wf_node T n \<longleftrightarrow> wf_bitmaps n \<and> wf_layout T n"

subsection \<open>Keys as group and position\<close>

lemma ubit_lbit:
  assumes "0 \<le> k" "k < 256"
  shows "ubit k = nat k div 32" "lbit k = nat k mod 32"
proof -
  have u: "unat (word_of_int k :: uint8) = nat k"
    using assms by (simp add: unsigned_of_int take_bit_int_eq_self nat_mod_distrib)
  have "drop_bit 5 (word_of_int k :: uint8) = word_of_int k div 32"
    by (simp add: drop_bit_eq_div)
  then show "ubit k = nat k div 32" by (simp add: ubit_def u unat_div)
  have "(word_of_int k :: uint8) AND LOWER_MASK = word_of_int k mod 32"
    using take_bit_eq_mask[of 5 "word_of_int k :: uint8"] take_bit_eq_mod[of 5 "word_of_int k :: uint8"]
    by (simp add: LOWER_MASK_def mask_eq_exp_minus_1)
  then show "lbit k = nat k mod 32" by (simp add: lbit_def u unat_mod)
qed

lemma key_split:
  assumes "0 \<le> k" "k < 256"
  shows "k = mkkey (ubit k) (lbit k)" "ubit k < 8" "lbit k < 32"
  using assms by (auto simp: ubit_lbit mkkey_def)

lemma mkkey_bounds: "0 \<le> mkkey g j" "g < 8 \<Longrightarrow> j < 32 \<Longrightarrow> mkkey g j < 256"
  by (simp_all add: mkkey_def)

lemma mkkey_less_iff:
  "i < 32 \<Longrightarrow> j < 32 \<Longrightarrow> mkkey g i < mkkey h j \<longleftrightarrow> g < h \<or> g = h \<and> i < j"
  unfolding mkkey_def by auto

lemma mkkey_eq_iff:
  "i < 32 \<Longrightarrow> j < 32 \<Longrightarrow> mkkey g i = mkkey h j \<longleftrightarrow> g = h \<and> i = j"
  using mkkey_less_iff[of i j g h] mkkey_less_iff[of j i h g]
  by (metis less_irrefl not_less_iff_gr_or_eq)

lemma mkkey_not_NONE [simp]: "mkkey g j \<noteq> NONE" "NONE \<noteq> mkkey g j" "NONE < mkkey g j"
  using mkkey_bounds(1)[of g j] by (auto simp: NONE_def)

lemma ubit_mkkey [simp]: "g < 8 \<Longrightarrow> j < 32 \<Longrightarrow> ubit (mkkey g j) = g"
  and lbit_mkkey [simp]: "g < 8 \<Longrightarrow> j < 32 \<Longrightarrow> lbit (mkkey g j) = j"
proof -
  assume "g < 8" "j < 32"
  then have b: "0 \<le> mkkey g j" "mkkey g j < 256" using mkkey_bounds by auto
  have "nat (mkkey g j) = 32 * g + j" unfolding mkkey_def by (rule nat_int)
  with \<open>j < 32\<close> show "ubit (mkkey g j) = g" "lbit (mkkey g j) = j"
    by (simp_all add: ubit_lbit[OF b])
qed

lemma key_of_eq: "j < 32 \<Longrightarrow> key_of (int g) (int j) = mkkey g j"
proof -
  assume j: "j < 32"
  have "push_bit 5 (int g) AND int j = 0"
  proof (rule bit_eqI)
    fix n
    have "\<not> bit (int j) n" if "5 \<le> n"
    proof -
      have "int j = take_bit 5 (int j)" using j by (simp add: take_bit_int_eq_self)
      then show ?thesis using that by (metis bit_take_bit_iff not_less)
    qed
    then show "bit (push_bit 5 (int g) AND int j) n = bit (0::int) n"
      by (auto simp: bit_and_iff bit_push_bit_iff)
  qed
  then show ?thesis by (simp add: key_of_def mkkey_def push_bit_eq_mult disjunctive_add_eq_or[symmetric])
qed

lemma bit_list_0 [simp]: "bit_list 0 = []"
  by (simp only: bit_list_empty_iff)

lemma bit_native8 [simp]: "bit (native8 w) i \<longleftrightarrow> bit w i"
  by (metis bit_list_native8 mem_Collect_eq set_bit_list)

lemma bits_native8 [simp]:
  "bits_count (native8 w) = bits_count w" "bits_index (native8 w) i = bits_index w i"
  by (simp_all add: bits_count_eq bits_index_eq bit_list_native8)

lemma upper_bits: "g \<in> set (bit_list (u :: uint8)) \<Longrightarrow> g < 8"
  using bit_less_length[of u g] by simp

lemma lower_bits: "j \<in> set (bit_list (l :: uint32)) \<Longrightarrow> j < 32"
  using bit_less_length[of l j] by simp

lemma ends_lower_bits:
  assumes "(l :: uint32) \<noteq> 0"
  shows "hd (bit_list l) < 32" "last (bit_list l) < 32"
proof -
  have ne: "bit_list l \<noteq> []" using assms by simp
  show "hd (bit_list l) < 32" by (rule lower_bits[OF hd_in_set[OF ne]])
  show "last (bit_list l) < 32" by (rule lower_bits[OF last_in_set[OF ne]])
qed

subsection \<open>Keys of a list of groups\<close>

lemma group_keys_simps [simp]:
  "group_keys [] ls = []" "group_keys gs [] = []"
  "group_keys (g # gs) (l # ls) = map (mkkey g) (bit_list l) @ group_keys gs ls"
  by (simp_all add: group_keys_def)

lemma group_keys_append:
  "length gs = length ls \<Longrightarrow> group_keys (gs @ gs') (ls @ ls') = group_keys gs ls @ group_keys gs' ls'"
  by (simp add: group_keys_def)

lemma set_group_keys:
  "length gs = length ls \<Longrightarrow>
   set (group_keys gs ls) = {mkkey (gs ! i) j | i j. i < length gs \<and> bit (ls ! i) j}"
proof (induction gs ls rule: list_induct2)
  case (Cons g gs l ls)
  have "{mkkey ((g # gs) ! i) j | i j. i < length (g # gs) \<and> bit ((l # ls) ! i) j}
      = mkkey g ` {j. bit l j} \<union> {mkkey (gs ! i) j | i j. i < length gs \<and> bit (ls ! i) j}"
    (is "?A = ?B")
  proof
    show "?A \<subseteq> ?B"
    proof
      fix x assume "x \<in> ?A"
      then obtain i j where "i < Suc (length gs)" "bit ((l # ls) ! i) j" "x = mkkey ((g # gs) ! i) j"
        by auto
      then show "x \<in> ?B" by (cases i) auto
    qed
    show "?B \<subseteq> ?A" by (force intro: exI[of _ 0] exI[of _ "Suc _"])
  qed
  then show ?case using Cons.IH by simp
qed simp

text \<open>The groups below, at and above a given group.\<close>

lemma sorted_split_at:
  fixes gs :: "nat list"
  assumes "sorted gs" "distinct gs"
  shows "gs = filter (\<lambda>x. x < g) gs @ (if g \<in> set gs then [g] else []) @ filter (\<lambda>x. g < x) gs"
  using assms
proof (induction gs)
  case (Cons h gs)
  consider "h < g" | "h = g" | "g < h" by linarith
  then show ?case
  proof cases
    case 1
    then show ?thesis using Cons by auto
  next
    case 2
    have "filter (\<lambda>x. x < g) gs = []" "filter (\<lambda>x. g < x) gs = gs"
      using 2 Cons.prems by (auto simp: filter_empty_conv filter_id_conv order_le_less)
    then show ?thesis using 2 by simp
  next
    case 3
    have "filter (\<lambda>x. x < g) gs = []" "filter (\<lambda>x. g < x) gs = gs" "g \<notin> set gs"
      using 3 Cons.prems by (auto simp: filter_empty_conv filter_id_conv)
    then show ?thesis using 3 by simp
  qed
qed simp

lemma in_group_keys_bounds:
  assumes "k \<in> set (group_keys gs ls)" "length gs = length ls" "j < 32"
  shows "\<forall>x\<in>set gs. x < g \<Longrightarrow> k < mkkey g j" "\<forall>x\<in>set gs. g < x \<Longrightarrow> mkkey g j < k"
proof -
  obtain i m where k: "k = mkkey (gs ! i) m" "i < length gs" "bit (ls ! i) m"
    using assms(1) by (auto simp: set_group_keys[OF assms(2)])
  have m: "m < 32" using k(3) bit_less_length by fastforce
  have "gs ! i \<in> set gs" using k(2) by simp
  then show "\<forall>x\<in>set gs. x < g \<Longrightarrow> k < mkkey g j" "\<forall>x\<in>set gs. g < x \<Longrightarrow> mkkey g j < k"
    using k(1) m assms(3) by (auto simp: mkkey_less_iff)
qed

lemma length_group_keys:
  "length gs = length ls \<Longrightarrow> length (group_keys gs ls) = sum_list (map bits_count ls)"
  by (induction gs ls rule: list_induct2) (auto simp: bits_count_eq)

lemma sorted_map_mkkey: "sorted_wrt (<) (map (mkkey g) (bit_list (l :: uint32)))"
proof -
  have "sorted_wrt (<) (bit_list l)"
    by (simp add: strict_sorted_iff)
  then show ?thesis
    unfolding sorted_wrt_map
    by (rule sorted_wrt_mono_rel[rotated]) (auto simp: mkkey_less_iff dest: bit_less_length)
qed

lemma sorted_group_keys:
  "length gs = length ls \<Longrightarrow> sorted_wrt (<) gs \<Longrightarrow> sorted_wrt (<) (group_keys gs ls)"
proof (induction gs ls rule: list_induct2)
  case (Cons g gs l ls)
  have "x < y" if "x \<in> set (map (mkkey g) (bit_list l))" "y \<in> set (group_keys gs ls)" for x y
  proof -
    obtain j where j: "x = mkkey g j" "bit l j" using \<open>x \<in> _\<close> by auto
    have "j < 32" using j(2) bit_less_length by fastforce
    then show ?thesis
      using in_group_keys_bounds(2)[OF that(2) Cons.hyps(1)] Cons.prems j by simp
  qed
  then show ?case
    using Cons sorted_map_mkkey[of g l] by (auto simp: sorted_wrt_append)
qed simp

lemma group_keys_split:
  assumes "sorted gs" "distinct gs" "length gs = length ls" "a = length (filter (\<lambda>x. x < g) gs)"
  shows "group_keys gs ls = group_keys (filter (\<lambda>x. x < g) gs) (take a ls)
    @ (if g \<in> set gs then map (mkkey g) (bit_list (ls ! a)) else [])
    @ group_keys (filter (\<lambda>x. g < x) gs) (drop (if g \<in> set gs then Suc a else a) ls)"
proof -
  let ?A = "filter (\<lambda>x. x < g) gs" and ?B = "filter (\<lambda>x. g < x) gs"
  have gs: "gs = ?A @ (if g \<in> set gs then [g] else []) @ ?B"
    by (rule sorted_split_at[OF assms(1,2)])
  have la: "a \<le> length ls" using assms(3,4) length_filter_le[of "\<lambda>x. x < g" gs] by simp
  show ?thesis
  proof (cases "g \<in> set gs")
    case True
    then have "length gs = a + 1 + length ?B"
      using arg_cong[OF gs, of length] assms(4) by simp
    then have al: "a < length ls" using assms(3) by linarith
    then have ls: "ls = take a ls @ [ls ! a] @ drop (Suc a) ls" by (simp add: id_take_nth_drop)
    have "group_keys gs ls = group_keys (?A @ [g] @ ?B) (take a ls @ [ls ! a] @ drop (Suc a) ls)"
      using gs ls True by simp
    then show ?thesis using True assms(4) la by (simp add: group_keys_append)
  next
    case False
    then have "group_keys gs ls = group_keys (?A @ ?B) (take a ls @ drop a ls)"
      using gs by simp
    also have "\<dots> = group_keys ?A (take a ls) @ group_keys ?B (drop a ls)"
      using assms(4) la by (intro group_keys_append) simp
    finally show ?thesis using False by simp
  qed
qed

lemma filter_map_mkkey:
  assumes "j < 32"
  shows "filter (\<lambda>x. x < mkkey g j) (map (mkkey g) (bit_list (l :: uint32))) =
    map (mkkey g) (filter (\<lambda>i. i < j) (bit_list l))"
    and "filter (\<lambda>x. mkkey g j < x) (map (mkkey g) (bit_list l)) =
    map (mkkey g) (filter (\<lambda>i. j < i) (bit_list l))"
  unfolding filter_map
  by (rule arg_cong[where f = "map (mkkey g)"], rule filter_cong,
      use assms in \<open>auto simp: mkkey_less_iff dest: bit_less_length\<close>)+

lemma filter_group_keys:
  assumes "sorted gs" "distinct gs" "length gs = length ls" "a = length (filter (\<lambda>x. x < g) gs)"
    and "j < 32"
  shows "filter (\<lambda>x. x < mkkey g j) (group_keys gs ls) =
      group_keys (filter (\<lambda>x. x < g) gs) (take a ls)
      @ (if g \<in> set gs then map (mkkey g) (filter (\<lambda>i. i < j) (bit_list (ls ! a))) else [])"
    and "filter (\<lambda>x. mkkey g j < x) (group_keys gs ls) =
      (if g \<in> set gs then map (mkkey g) (filter (\<lambda>i. j < i) (bit_list (ls ! a))) else [])
      @ group_keys (filter (\<lambda>x. g < x) gs) (drop (if g \<in> set gs then Suc a else a) ls)"
proof -
  let ?A = "filter (\<lambda>x. x < g) gs" and ?B = "filter (\<lambda>x. g < x) gs"
  let ?lA = "take a ls" and ?lB = "drop (if g \<in> set gs then Suc a else a) ls"
  note split = group_keys_split[OF assms(1-4)]
  have lenA: "length ?A = length ?lA"
    using assms(3,4) length_filter_le[of "\<lambda>x. x < g" gs] by simp
  have "length gs = length ?A + (if g \<in> set gs then 1 else 0) + length ?B"
    using arg_cong[OF sorted_split_at[OF assms(1,2), of g], of length] by simp
  then have lenB: "length ?B = length ?lB" using assms(3,4) by simp
  have A: "k < mkkey g j" if "k \<in> set (group_keys ?A ?lA)" for k
    by (rule in_group_keys_bounds(1)[OF that lenA assms(5)]) simp
  have B: "mkkey g j < k" if "k \<in> set (group_keys ?B ?lB)" for k
    by (rule in_group_keys_bounds(2)[OF that lenB assms(5)]) simp
  have fA: "filter (\<lambda>x. x < mkkey g j) (group_keys ?A ?lA) = group_keys ?A ?lA"
    "filter (\<lambda>x. mkkey g j < x) (group_keys ?A ?lA) = []"
    using A by (auto simp: filter_id_conv filter_empty_conv dest: less_asym)
  have fB: "filter (\<lambda>x. x < mkkey g j) (group_keys ?B ?lB) = []"
    "filter (\<lambda>x. mkkey g j < x) (group_keys ?B ?lB) = group_keys ?B ?lB"
    using B by (auto simp: filter_id_conv filter_empty_conv dest: less_asym)
  show "filter (\<lambda>x. x < mkkey g j) (group_keys gs ls) =
      group_keys ?A ?lA @ (if g \<in> set gs then map (mkkey g) (filter (\<lambda>i. i < j) (bit_list (ls ! a))) else [])"
    unfolding split filter_append fA fB by (simp add: filter_map_mkkey[OF assms(5)])
  show "filter (\<lambda>x. mkkey g j < x) (group_keys gs ls) =
      (if g \<in> set gs then map (mkkey g) (filter (\<lambda>i. j < i) (bit_list (ls ! a))) else [])
      @ group_keys ?B ?lB"
    unfolding split filter_append fA fB by (simp add: filter_map_mkkey[OF assms(5)])
qed

subsection \<open>Queries read the sorted list of keys\<close>

lemma wf_lengths:
  assumes "wf_bitmaps n"
  shows "length (bit_list (upper n)) = length (lower n)"
  using assms by (simp add: wf_bitmaps_def bits_count_eq)

lemma sorted_upper: "sorted_wrt (<) (bit_list w)"
  by (simp add: strict_sorted_iff)

lemma sorted_node_keys:
  assumes "wf_bitmaps n"
  shows "sorted_wrt (<) (node_keys n)"
proof -
  have "0 \<le> k" if "k \<in> set (group_keys (bit_list (upper n)) (lower n))" for k
    using that by (auto simp: set_group_keys[OF wf_lengths[OF assms]] mkkey_bounds)
  then show ?thesis
    using sorted_group_keys[OF wf_lengths[OF assms] sorted_upper]
    by (force simp: node_keys_def sorted_wrt_append NONE_def)
qed

lemma distinct_node_keys: "wf_bitmaps n \<Longrightarrow> distinct (node_keys n)"
  using sorted_node_keys strict_sorted_iff by blast

lemma valid_node_keys:
  assumes "wf_bitmaps n" "k \<in> set (node_keys n)"
  shows "valid_key k"
proof -
  have "valid_key (mkkey (bit_list (upper n) ! i) j)"
    if "i < length (bit_list (upper n))" "bit (lower n ! i) j" for i j
  proof -
    have "bit_list (upper n) ! i < 8" using nth_mem[OF that(1)] upper_bits by blast
    moreover have "j < 32" using that(2) bit_less_length by fastforce
    ultimately show ?thesis using mkkey_bounds[of "bit_list (upper n) ! i" j] by (simp add: valid_key_def)
  qed
  then show ?thesis
    using assms by (auto simp: node_keys_def set_group_keys[OF wf_lengths] NONE_def valid_key_def
        split: if_splits)
qed

lemma group_index_le: "bits_index (w :: uint8) g \<le> 7" if "g < 8"
proof -
  have "set (filter (\<lambda>j. j < g) (bit_list w)) \<subseteq> {..<g}" by auto
  then have "card (set (filter (\<lambda>j. j < g) (bit_list w))) \<le> card {..<g}"
    by (intro card_mono) auto
  then have "length (filter (\<lambda>j. j < g) (bit_list w)) \<le> g"
    by (simp add: distinct_card del: set_filter)
  then show ?thesis using that by (simp add: bits_index_eq)
qed

lemma group_at_index:
  assumes "bit (w :: uint8) g"
  shows "bits_index w g < length (bit_list w)" "bit_list w ! bits_index w g = g"
proof -
  have "g \<in> set (bit_list w)" using assms by simp
  then obtain i where i: "i < length (bit_list w)" "bit_list w ! i = g"
    by (auto simp: in_set_conv_nth simp del: set_bit_list)
  then have "bits_index w g = i"
    using length_filter_less_nth[of "bit_list w" i] by (simp add: bits_index_eq)
  then show "bits_index w g < length (bit_list w)" "bit_list w ! bits_index w g = g"
    using i by simp_all
qed

lemma node_isset_iff:
  assumes "wf_bitmaps n" "valid_key k"
  shows "node_isset n k \<longleftrightarrow> k \<in> set (node_keys n)"
proof (cases "k = NONE")
  case True
  have "NONE \<notin> set (group_keys (bit_list (upper n)) (lower n))"
    unfolding set_group_keys[OF wf_lengths[OF assms(1)]] by auto
  with True show ?thesis by (simp add: node_isset_def node_keys_def)
next
  case False
  then have k: "0 \<le> k" "k < 256" using assms(2) by (auto simp: valid_key_def NONE_def)
  let ?g = "ubit k" and ?j = "lbit k" and ?gs = "bit_list (upper n)"
  note ks = key_split[OF k]
  have "k \<in> set (group_keys ?gs (lower n)) \<longleftrightarrow>
      bit (upper n) ?g \<and> bit (lower n ! bits_index (upper n) ?g) ?j" (is "?L \<longleftrightarrow> ?R")
  proof
    assume ?L
    then obtain i j where i: "i < length ?gs" "bit (lower n ! i) j" "k = mkkey (?gs ! i) j"
      by (auto simp: set_group_keys[OF wf_lengths[OF assms(1)]])
    have j: "j < 32" using i(2) bit_less_length by fastforce
    have g: "?gs ! i < 8" using nth_mem[OF i(1)] upper_bits by blast
    have "?g = ?gs ! i" "?j = j" using i(3) g j by simp_all
    moreover have "bits_index (upper n) (?gs ! i) = i"
      using length_filter_less_nth[of ?gs i] i(1) by (simp add: bits_index_eq)
    moreover have "bit (upper n) (?gs ! i)" using nth_mem[OF i(1)] by simp
    ultimately show ?R using i(2) by simp
  next
    assume r: ?R
    then have "k = mkkey (?gs ! bits_index (upper n) ?g) ?j" "bits_index (upper n) ?g < length ?gs"
      using group_at_index[of "upper n" ?g] ks by simp_all
    then show ?L
      unfolding set_group_keys[OF wf_lengths[OF assms(1)]] using r by blast
  qed
  then show ?thesis
    using False
    by (auto simp: node_isset_def node_keys_def and_exp_eq_0_iff_not_bit)
qed

lemma filter_less_node_keys:
  assumes "wf_bitmaps n" "0 \<le> k" "k < 256"
  shows "length (filter (\<lambda>x. x < k) (node_keys n)) =
    of_bool (has_none n) + sum_list (map bits_count (take (bits_index (upper n) (ubit k)) (lower n)))
    + (if bit (upper n) (ubit k) then bits_index (lower n ! bits_index (upper n) (ubit k)) (lbit k) else 0)"
proof -
  note ks = key_split[OF assms(2,3)]
  have len: "length (bit_list (upper n)) = length (lower n)" by (rule wf_lengths[OF assms(1)])
  note f = filter_group_keys(1)[OF sorted_bit_list distinct_bit_list len refl ks(3), of "ubit k"]
  have la: "length (filter (\<lambda>x. x < ubit k) (bit_list (upper n))) \<le> length (lower n)"
    using len length_filter_le[of "\<lambda>x. x < ubit k" "bit_list (upper n)"] by simp
  have "length (filter (\<lambda>x. x < mkkey (ubit k) (lbit k)) (group_keys (bit_list (upper n)) (lower n))) =
      sum_list (map bits_count (take (bits_index (upper n) (ubit k)) (lower n)))
      + (if bit (upper n) (ubit k) then bits_index (lower n ! bits_index (upper n) (ubit k)) (lbit k) else 0)"
    unfolding f using la by (simp add: length_group_keys bits_index_eq)
  then show ?thesis
    using ks(1) assms(2) by (simp add: node_keys_def NONE_def)
qed

lemma link_index_eq:
  assumes "wf_bitmaps n" "0 \<le> k" "k < 256" "bit (upper n) (ubit k)"
  shows "link_index (array_len n) (lower n) (bits_index (upper n) (ubit k)) k =
    length (filter (\<lambda>x. x < k) (node_keys n))"
  unfolding filter_less_node_keys[OF assms(1-3)] link_index_def sum_lower_def
  using assms(4) group_index_le[OF key_split(2)[OF assms(2,3)], of "upper n"]
  by (simp add: bits_index_def bits_count_def has_none_def min_absorb1)

lemma array_index_eq:
  assumes "wf_bitmaps n" "valid_key k"
  shows "array_index n k = (if k \<in> set (node_keys n)
    then int (length (filter (\<lambda>x. x < k) (node_keys n))) else -1)"
proof (cases "k = NONE")
  case True
  have "filter (\<lambda>x. x < NONE) (node_keys n) = []"
    using valid_node_keys[OF assms(1)] by (force simp: filter_empty_conv valid_key_def NONE_def)
  then show ?thesis
    using True node_isset_iff[OF assms] by (simp add: array_index_def node_isset_def)
next
  case False
  then have k: "0 \<le> k" "k < 256" using assms(2) by (auto simp: valid_key_def NONE_def)
  then show ?thesis
    using False node_isset_iff[OF assms] link_index_eq[OF assms(1) k]
    by (auto simp: array_index_def node_isset_def Let_def and_exp_eq_0_iff_not_bit)
qed

subsection \<open>Successor and predecessor\<close>

definition succ_key :: "int \<Rightarrow> int list \<Rightarrow> int" where
  "succ_key k ks = (let ys = filter (\<lambda>x. k < x) ks in if ys = [] then OUT_OF_RANGE else hd ys)"

definition pred_key :: "int \<Rightarrow> int list \<Rightarrow> int" where
  "pred_key k ks = (let ys = filter (\<lambda>x. x < k) ks in if ys = [] then OUT_OF_RANGE else last ys)"

lemma group_keys_Nil_iff:
  "length gs = length ls \<Longrightarrow> 0 \<notin> set ls \<Longrightarrow> group_keys gs ls = [] \<longleftrightarrow> gs = []"
  by (induction gs ls rule: list_induct2) auto

lemma hd_group_keys:
  assumes "length gs = length ls" "0 \<notin> set ls" "gs \<noteq> []"
  shows "hd (group_keys gs ls) = mkkey (hd gs) (hd (bit_list (hd ls)))"
  using assms by (cases gs; cases ls) (auto simp: hd_append hd_map)

lemma last_group_keys:
  assumes "length gs = length ls" "0 \<notin> set ls" "gs \<noteq> []"
  shows "last (group_keys gs ls) = mkkey (last gs) (last (bit_list (last ls)))"
proof -
  obtain gs' g ls' l where gl: "gs = gs' @ [g]" "ls = ls' @ [l]"
    using assms by (metis length_0_conv rev_exhaust)
  then have "group_keys gs ls = group_keys gs' ls' @ map (mkkey g) (bit_list l)"
    using assms(1) by (simp add: group_keys_append)
  moreover have "bit_list l \<noteq> []" using assms(2) gl by auto
  ultimately show ?thesis using gl by (simp add: last_map)
qed

lemma hd_drop_filter_gt:
  fixes gs :: "nat list"
  assumes "sorted gs" "distinct gs" "filter (\<lambda>x. g < x) gs \<noteq> []"
  shows "drop (length (filter (\<lambda>x. x < hd (filter (\<lambda>x. g < x) gs)) gs)) gs = filter (\<lambda>x. g < x) gs"
proof -
  let ?A = "filter (\<lambda>x. x < g) gs @ (if g \<in> set gs then [g] else [])" and ?B = "filter (\<lambda>x. g < x) gs"
  obtain h B where B: "?B = h # B" using assms(3) by (cases ?B) auto
  have gs: "gs = ?A @ ?B" using sorted_split_at[OF assms(1,2), of g] by simp
  have "h \<in> set ?B" using B by simp
  then have "g < h" by simp
  then have "\<forall>x\<in>set ?A. x < h" by auto
  then have "filter (\<lambda>x. x < h) ?A = ?A" by (simp only: filter_id_conv)
  moreover have "filter (\<lambda>x. x < h) ?B = []"
  proof -
    have "sorted ?B" by (simp add: assms(1) sorted_wrt_filter)
    then show ?thesis unfolding B by (auto simp: filter_empty_conv)
  qed
  ultimately have "filter (\<lambda>x. x < h) gs = ?A"
    using gs by (metis append_Nil2 filter_append)
  moreover have "drop (length ?A) gs = ?B" using gs by (metis append_eq_conv_conj)
  ultimately show ?thesis using B by simp
qed

lemma next_lower_eq:
  assumes "wf_bitmaps n" "g < 8" "ubit k = g"
    "rest = filter (\<lambda>x. g < x) (bit_list (upper n))"
    "ls' = drop (length (lower n) - length rest) (lower n)"
  shows "next_lower n k = (if rest = [] then OUT_OF_RANGE else hd (group_keys rest ls'))"
proof (cases "rest = []")
  case True
  then show ?thesis using assms(3,4) by (simp add: next_lower_def bits_next_eq bit_list_native8 Let_def)
next
  case False
  let ?gs = "bit_list (upper n)" and ?h = "hd rest"
  have len: "length ?gs = length (lower n)" by (rule wf_lengths[OF assms(1)])
  have nz: "0 \<notin> set (lower n)" using assms(1) by (simp add: wf_bitmaps_def)
  have nx: "bits_next (native8 (upper n)) g = int ?h"
    using False assms(4) by (simp add: bits_next_eq bit_list_native8 Let_def)
  have dr: "drop (bits_index (upper n) ?h) ?gs = rest"
    using hd_drop_filter_gt[of ?gs g] False assms(4) by (simp add: bits_index_eq)
  then have ix: "bits_index (upper n) ?h = length (lower n) - length rest"
    using len False by (metis add_diff_cancel_right' diff_diff_cancel drop_eq_Nil length_drop nle_le)
  have lr: "length rest = length ls'"
    using assms(4,5) len length_filter_le[of "\<lambda>x. g < x" ?gs] by simp
  have ne: "ls' \<noteq> []" using lr False by auto
  have hl: "hd ls' = lower n ! bits_index (upper n) ?h"
    using ne assms(5) ix by (simp add: hd_drop_conv_nth)
  have nz': "0 \<notin> set ls'" using nz assms(5) by (auto dest: in_set_dropD)
  have l0: "hd ls' \<noteq> 0" using nz' ne hd_in_set by fastforce
  have "hd (bit_list (hd ls')) < 32"
    by (rule ends_lower_bits[OF l0])
  then show ?thesis
    using False nx assms(3) hl l0 hd_group_keys[OF lr nz' False]
    by (simp add: next_lower_def Let_def bits_first_eq key_of_eq)
qed

lemma prev_lower_eq:
  assumes "wf_bitmaps n" "g < 8" "ubit k = g"
    "front = filter (\<lambda>x. x < g) (bit_list (upper n))"
  shows "prev_lower n k = (if front = [] then (if has_none n then NONE else OUT_OF_RANGE)
    else last (group_keys front (take (length front) (lower n))))"
proof (cases "front = []")
  case True
  then show ?thesis using assms(3,4) by (simp add: prev_lower_def bits_prev_eq bit_list_native8 Let_def)
next
  case False
  let ?gs = "bit_list (upper n)" and ?h = "last front" and ?a = "length front"
  let ?ls = "take ?a (lower n)"
  have len: "length ?gs = length (lower n)" by (rule wf_lengths[OF assms(1)])
  have nz: "0 \<notin> set (lower n)" using assms(1) by (simp add: wf_bitmaps_def)
  have la: "?a \<le> length (lower n)"
    using len assms(4) length_filter_le[of "\<lambda>x. x < g" ?gs] by simp
  have lr: "length front = length ?ls" using la by simp
  have pv: "bits_prev (native8 (upper n)) g = int ?h"
    using False assms(4) by (simp add: bits_prev_eq bit_list_native8 Let_def)
  have gs: "?gs = front @ drop ?a ?gs"
    using sorted_split_at[of ?gs g] assms(4) by (metis append_eq_conv_conj sorted_bit_list distinct_bit_list)
  have a0: "0 < ?a" using False by simp
  have h: "?gs ! (?a - 1) = ?h"
    using gs a0 False by (metis diff_less last_conv_nth nth_append zero_less_one)
  have "?a - 1 < length ?gs" using a0 la len by linarith
  with h have ix: "bits_index (upper n) ?h = ?a - 1"
    using length_filter_less_nth[of ?gs "?a - 1"] by (simp add: bits_index_eq)
  have ne: "?ls \<noteq> []" using lr False by auto
  have hl: "last ?ls = lower n ! bits_index (upper n) ?h"
    using ne la ix by (simp add: last_conv_nth min_absorb2)
  have nz': "0 \<notin> set ?ls" using nz by (auto dest: in_set_takeD)
  have l0: "last ?ls \<noteq> 0" using last_in_set[OF ne] nz' by metis
  have "last (bit_list (last ?ls)) < 32"
    by (rule ends_lower_bits[OF l0])
  then show ?thesis
    using False pv assms(3) hl l0 last_group_keys[OF lr nz' False]
    by (simp add: prev_lower_def Let_def bits_last_eq key_of_eq)
qed

lemma node_next_eq:
  assumes "wf_bitmaps n" "valid_key k"
  shows "node_next n k = succ_key k (node_keys n)"
proof (cases "k = NONE")
  case True
  let ?gs = "bit_list (upper n)"
  have len: "length ?gs = length (lower n)" by (rule wf_lengths[OF assms(1)])
  have nz: "0 \<notin> set (lower n)" using assms(1) by (simp add: wf_bitmaps_def)
  have "filter (\<lambda>x. NONE < x) (group_keys ?gs (lower n)) = group_keys ?gs (lower n)"
    by (auto simp: filter_id_conv set_group_keys[OF len])
  then have f: "filter (\<lambda>x. NONE < x) (node_keys n) = group_keys ?gs (lower n)"
    by (simp add: node_keys_def)
  show ?thesis
  proof (cases "?gs = []")
    case e: True
    then show ?thesis using True f
      by (simp add: node_next_def succ_key_def bits_first_eq bit_list_native8 Let_def)
  next
    case e: False
    have ne: "lower n \<noteq> []" using e len by auto
    have l0: "hd (lower n) \<noteq> 0" using nz ne hd_in_set by fastforce
    have "hd (bit_list (hd (lower n))) < 32"
      by (rule ends_lower_bits[OF l0])
    then show ?thesis
      using True f e l0 ne hd_group_keys[OF len nz e] group_keys_Nil_iff[OF len nz]
      by (simp add: node_next_def succ_key_def bits_first_eq bit_list_native8 Let_def key_of_eq
          hd_conv_nth[of "lower n", symmetric])
  qed
next
  case False
  then have k: "0 \<le> k" "k < 256" using assms(2) by (auto simp: valid_key_def NONE_def)
  let ?g = "ubit k" and ?j = "lbit k" and ?gs = "bit_list (upper n)"
  let ?a = "bits_index (upper n) ?g" and ?rest = "filter (\<lambda>x. ?g < x) ?gs"
  let ?ls = "drop (length (lower n) - length ?rest) (lower n)"
  note ks = key_split[OF k]
  have len: "length ?gs = length (lower n)" by (rule wf_lengths[OF assms(1)])
  have nz: "0 \<notin> set (lower n)" using assms(1) by (simp add: wf_bitmaps_def)
  note nl = next_lower_eq[OF assms(1) ks(2) refl refl refl]
  have "length ?gs = ?a + (if ?g \<in> set ?gs then 1 else 0) + length ?rest"
    using arg_cong[OF sorted_split_at[of ?gs ?g], of length] by (simp add: bits_index_eq)
  then have dr: "length (lower n) - length ?rest = (if ?g \<in> set ?gs then Suc ?a else ?a)"
    using len by simp
  note f = filter_group_keys(2)[OF sorted_bit_list distinct_bit_list len _ ks(3), of ?a ?g]
  have f': "filter (\<lambda>x. k < x) (node_keys n) =
      (if bit (upper n) ?g then map (mkkey ?g) (filter (\<lambda>i. ?j < i) (bit_list (lower n ! ?a))) else [])
      @ group_keys ?rest ?ls"
    using f ks(1) k(1) dr by (simp add: node_keys_def NONE_def bits_index_eq)
  have lr: "length ?rest = length ?ls"
    using len length_filter_le[of "\<lambda>x. ?g < x" ?gs] by simp
  have nz': "0 \<notin> set ?ls" using nz by (auto dest: in_set_dropD)
  note em = group_keys_Nil_iff[OF lr nz']
  have "hd ys < 32" if "ys = filter (\<lambda>i. ?j < i) (bit_list (lower n ! ?a))" "ys \<noteq> []" for ys
    using that hd_in_set[OF that(2)] lower_bits by auto
  then show ?thesis
    using False nl f' em
    by (auto simp: node_next_def succ_key_def Let_def bits_next_eq key_of_eq hd_append hd_map)
qed

lemma node_prev_eq:
  assumes "wf_bitmaps n" "valid_key k"
  shows "node_prev n k = pred_key k (node_keys n)"
proof (cases "k = NONE")
  case True
  have "filter (\<lambda>x. x < NONE) (node_keys n) = []"
    using valid_node_keys[OF assms(1)] by (force simp: filter_empty_conv valid_key_def NONE_def)
  then show ?thesis using True by (simp add: node_prev_def pred_key_def)
next
  case False
  then have k: "0 \<le> k" "k < 256" using assms(2) by (auto simp: valid_key_def NONE_def)
  let ?g = "ubit k" and ?j = "lbit k" and ?gs = "bit_list (upper n)"
  let ?a = "bits_index (upper n) ?g" and ?front = "filter (\<lambda>x. x < ?g) ?gs"
  let ?ls = "take (length ?front) (lower n)"
  note ks = key_split[OF k]
  have len: "length ?gs = length (lower n)" by (rule wf_lengths[OF assms(1)])
  have nz: "0 \<notin> set (lower n)" using assms(1) by (simp add: wf_bitmaps_def)
  note pl = prev_lower_eq[OF assms(1) ks(2) refl refl]
  note f = filter_group_keys(1)[OF sorted_bit_list distinct_bit_list len _ ks(3), of ?a ?g]
  have f': "filter (\<lambda>x. x < k) (node_keys n) = (if has_none n then [NONE] else []) @
      group_keys ?front ?ls @
      (if bit (upper n) ?g then map (mkkey ?g) (filter (\<lambda>i. i < ?j) (bit_list (lower n ! ?a))) else [])"
    using f ks(1) k(1) by (simp add: node_keys_def NONE_def bits_index_eq)
  have lr: "length ?front = length ?ls"
    using len length_filter_le[of "\<lambda>x. x < ?g" ?gs] by simp
  have nz': "0 \<notin> set ?ls" using nz by (auto dest: in_set_takeD)
  note em = group_keys_Nil_iff[OF lr nz']
  have "last ys < 32" if "ys = filter (\<lambda>i. i < ?j) (bit_list (lower n ! ?a))" "ys \<noteq> []" for ys
    using that last_in_set[OF that(2)] lower_bits by auto
  then show ?thesis
    using False pl f' em
    by (auto simp: node_prev_def pred_key_def Let_def bits_prev_eq key_of_eq last_append last_map)
qed

end
