(* ===== verification/Leaves_Branch.thy ===== *)
theory Leaves_Branch
  imports Leaves_Node
begin

text \<open>
  Changing the branches of a trie node: what the constructors and the in-place insertion of
  \<open>_node.hpp\<close> do to the sorted list of branch keys and to the array of links.
\<close>

subsection \<open>Iteration over the branches\<close>

lemma bit_list_blsr:
  fixes w :: "'a::len word"
  assumes "w \<noteq> 0"
  shows "bit_list (w AND (w - 1)) = tl (bit_list w)"
proof -
  let ?c = "countr_zero w" and ?u = "w AND NOT (2 ^ countr_zero w)"
  have hit: "bit w ?c" and low: "\<And>i. i < ?c \<Longrightarrow> \<not> bit w i"
    using countr_zero_least[OF assms] by blast+
  have "?u AND 2 ^ ?c = 0" by (simp add: and_exp_eq_0_iff_not_bit bit_and_iff bit_not_iff bit_exp_iff hit)
  then have "?u + 2 ^ ?c = ?u OR 2 ^ ?c" by (rule disjunctive_add_eq_or)
  also have "\<dots> = w" by (rule bit_word_eqI) (auto simp: bit_or_iff bit_and_iff bit_not_iff bit_exp_iff hit)
  finally have "w - 1 = ?u + mask ?c" by (simp add: mask_eq_exp_minus_1 algebra_simps)
  also have "\<dots> = ?u OR mask ?c"
    by (rule disjunctive_add_eq_or, rule bit_word_eqI)
      (use low in \<open>auto simp: bit_and_iff bit_not_iff bit_exp_iff bit_mask_iff\<close>)
  finally have w1: "w - 1 = ?u OR mask ?c" .
  have b: "bit (w AND (w - 1)) i \<longleftrightarrow> bit w i \<and> i \<noteq> ?c" for i
    unfolding w1 using low hit
    by (auto simp: bit_or_iff bit_and_iff bit_not_iff bit_exp_iff bit_mask_iff dest: bit_less_length)
  have ne: "bit_list w \<noteq> []" using assms by simp
  have hd: "hd (bit_list w) = ?c" using countr_zero_eq[OF assms] by simp
  have sw: "sorted_wrt (<) (bit_list w)" by (rule sorted_upper)
  have "set (tl (bit_list w)) = {i. bit w i \<and> i \<noteq> ?c}"
  proof -
    have "bit_list w = ?c # tl (bit_list w)" using ne hd by (metis list.collapse)
    then have "{i. bit w i} = insert ?c (set (tl (bit_list w)))" "?c \<notin> set (tl (bit_list w))"
      by (metis list.simps(15) set_bit_list) (metis distinct.simps(2) distinct_bit_list \<open>bit_list w = _\<close>)
    then show ?thesis by auto
  qed
  then have "set (bit_list (w AND (w - 1))) = set (tl (bit_list w))" using b by simp
  moreover have "sorted_wrt (<) (tl (bit_list w))" using sw ne by (cases "bit_list w") auto
  ultimately show ?thesis
    by (metis sorted_upper strict_sorted_iff sorted_distinct_set_unique)
qed

lemma scan_lower_eq:
  "scan_lower (push_bit 5 (int g)) w i =
    (zip (map (mkkey g) (bit_list w)) [i..<i + length (bit_list w)], i + length (bit_list w))"
proof (induction "push_bit 5 (int g)" w i rule: scan_lower.induct)
  case (1 w i)
  show ?case
  proof (cases "w = 0")
    case True
    then show ?thesis by (subst scan_lower.simps) simp
  next
    case False
    obtain j js where bl: "bit_list w = j # js" using False by (metis bit_list_empty_iff list.exhaust)
    have j: "j < 32" using ends_lower_bits(1)[OF False] bl by simp
    have "push_bit 5 (int g) OR bits_first w = mkkey g j"
      using key_of_eq[OF j, of g] bl by (simp add: key_of_def bits_first_eq)
    moreover have "bit_list (w AND (w - 1)) = js" using bit_list_blsr[OF False] bl by simp
    moreover note 1[OF False, of "bits_first w"]
    ultimately show ?thesis
      using False bl by (subst scan_lower.simps) (simp add: Let_def upt_conv_Cons del: upt_Suc)
  qed
qed

lemma scan_upper_eq:
  assumes "length (bit_list u) \<le> length ls - lidx"
  shows "scan_upper ls u lidx i =
    (let ks = group_keys (bit_list u) (take (length (bit_list u)) (drop lidx ls))
     in zip ks [i..<i + length ks])"
  using assms
proof (induction ls u lidx i rule: scan_upper.induct)
  case (1 ls u lidx i)
  show ?case
  proof (cases "u = 0")
    case True
    then show ?thesis by (subst scan_upper.simps) simp
  next
    case False
    obtain g gs where bl: "bit_list u = g # gs" using False by (metis bit_list_empty_iff list.exhaust)
    have f: "bits_first (native8 u) = int g" using bl by (simp add: bits_first_eq bit_list_native8)
    have tl: "bit_list (u AND (u - 1)) = gs" using bit_list_blsr[OF False] bl by simp
    have lt: "lidx < length ls" using 1(2) bl by simp
    have dr: "drop lidx ls = ls ! lidx # drop (Suc lidx) ls" using lt by (simp add: Cons_nth_drop_Suc)
    let ?b = "bit_list (ls ! lidx)"
    have "length gs \<le> length ls - (lidx + 1)" using 1(2) bl by simp
    then have ih: "scan_upper ls (u AND (u - 1)) (lidx + 1) (i + length ?b) =
      (let ks = group_keys gs (take (length gs) (drop (lidx + 1) ls))
       in zip ks [i + length ?b..<i + length ?b + length ks])"
      using 1(1)[OF False refl] f tl by (simp add: scan_lower_eq)
    let ?ks = "group_keys gs (take (length gs) (drop (Suc lidx) ls))"
    have sp: "[i..<i + length ?b + length ?ks] = [i..<i + length ?b] @ [i + length ?b..<i + length ?b + length ?ks]"
      by (rule upt_add_eq_append) simp
    show ?thesis
      using False bl f dr ih
      by (subst scan_upper.simps) (simp add: Let_def scan_lower_eq zip_append sp add.assoc[symmetric])
  qed
qed

lemma for_each_branch_eq:
  assumes "wf_bitmaps n"
  shows "for_each_branch n = zip (node_keys n) [0..<node_count n]"
proof -
  have len: "length (bit_list (upper n)) = length (lower n)" by (rule wf_lengths[OF assms])
  have c: "node_count n = length (node_keys n)" using assms by (simp add: wf_bitmaps_def)
  show ?thesis
    using len c
    by (simp add: for_each_branch_def scan_upper_eq Let_def node_keys_def upt_conv_Cons del: upt_Suc)
qed

subsection \<open>The count field\<close>

lemma NULL_MASK_exp: "NULL_MASK = 2 ^ 15"
  by (simp add: NULL_MASK_def)

lemma bit_NULL_MASK: "bit NULL_MASK i \<longleftrightarrow> i = 15"
  unfolding NULL_MASK_exp bit_exp_iff by auto

lemma take_bit_15: "unat (take_bit 15 (w :: uint16)) = unat w mod 32768"
  by (simp add: take_bit_eq_mod unat_mod)

lemma node_count_mod: "node_count n = unat (array_len n) mod 32768"
proof -
  have "array_len n AND NOT NULL_MASK = take_bit 15 (array_len n)"
    by (rule bit_word_eqI) (auto simp: bit_and_iff bit_not_iff bit_take_bit_iff bit_NULL_MASK)
  then show ?thesis unfolding node_count_def using take_bit_15 by simp
qed

lemma flag_iff: "w AND NULL_MASK \<noteq> 0 \<longleftrightarrow> 32768 \<le> unat (w :: uint16)"
proof -
  have b: "unat w < 65536" using unsigned_less[of w] by simp
  have "w AND NULL_MASK \<noteq> 0 \<longleftrightarrow> bit w 15"
    unfolding NULL_MASK_exp and_exp_eq_0_iff_not_bit by simp
  also have "\<dots> \<longleftrightarrow> bit (unat w) 15" by (simp add: bit_unsigned_iff)
  also have "\<dots> \<longleftrightarrow> odd (unat w div 2 ^ 15)" by (rule bit_iff_odd)
  also have "\<dots> \<longleftrightarrow> 32768 \<le> unat w"
  proof (cases "32768 \<le> unat w")
    case True
    then have "unat w div 2 ^ 15 = 1" using b by simp
    then show ?thesis using True by simp
  qed simp
  finally show ?thesis .
qed

lemma has_none_unat: "has_none n \<longleftrightarrow> 32768 \<le> unat (array_len n)"
  by (simp add: has_none_def flag_iff)

lemma count_plus_1:
  assumes "unat (w :: uint16) mod 32768 < 32767"
  shows "unat (w + 1) mod 32768 = unat w mod 32768 + 1" "32768 \<le> unat (w + 1) \<longleftrightarrow> 32768 \<le> unat w"
proof -
  have b: "unat w < 65536" using unsigned_less[of w] by simp
  have ne: "unat w \<noteq> 65535" "unat w \<noteq> 32767" using assms by auto
  then have u: "unat (w + 1) = unat w + 1" using b by (simp add: unat_word_ariths)
  show "unat (w + 1) mod 32768 = unat w mod 32768 + 1" using assms u by (simp add: mod_Suc)
  show "32768 \<le> unat (w + 1) \<longleftrightarrow> 32768 \<le> unat w" using ne u by linarith
qed

lemma count_minus_1:
  assumes "0 < unat (w :: uint16) mod 32768"
  shows "unat (w - 1) mod 32768 = unat w mod 32768 - 1" "32768 \<le> unat (w - 1) \<longleftrightarrow> 32768 \<le> unat w"
proof -
  have "w \<noteq> 0" using assms by auto
  then have u: "unat (w - 1) = unat w - 1" by (rule unat_minus_one)
  have ne: "unat w \<noteq> 0" "unat w \<noteq> 32768" using assms by auto
  then show "32768 \<le> unat (w - 1) \<longleftrightarrow> 32768 \<le> unat w" using u by linarith
  obtain m where m: "unat w = Suc m" using ne by (meson not0_implies_Suc)
  then have "Suc (m mod 32768) \<noteq> 32768" using assms by (auto simp: mod_Suc)
  then show "unat (w - 1) mod 32768 = unat w mod 32768 - 1" using u m by (simp add: mod_Suc)
qed

lemma count_set_flag:
  "unat (w OR NULL_MASK) mod 32768 = unat w mod 32768" "32768 \<le> unat (w OR NULL_MASK)"
proof -
  have "take_bit 15 (w OR NULL_MASK) = take_bit 15 w"
    by (rule bit_word_eqI) (auto simp: bit_or_iff bit_take_bit_iff bit_NULL_MASK)
  then show "unat (w OR NULL_MASK) mod 32768 = unat w mod 32768" using take_bit_15 by metis
  have "bit ((w OR NULL_MASK) AND NULL_MASK) 15" by (simp add: bit_or_iff bit_and_iff bit_NULL_MASK)
  then have "(w OR NULL_MASK) AND NULL_MASK \<noteq> 0" by auto
  then show "32768 \<le> unat (w OR NULL_MASK)" unfolding flag_iff .
qed

lemma count_clear_flag:
  "unat (w AND NOT NULL_MASK) mod 32768 = unat w mod 32768" "\<not> 32768 \<le> unat (w AND NOT NULL_MASK)"
proof -
  have "take_bit 15 (w AND NOT NULL_MASK) = take_bit 15 w"
    by (rule bit_word_eqI) (auto simp: bit_and_iff bit_not_iff bit_take_bit_iff bit_NULL_MASK)
  then show "unat (w AND NOT NULL_MASK) mod 32768 = unat w mod 32768" using take_bit_15 by metis
  have "(w AND NOT NULL_MASK) AND NULL_MASK = 0" by (rule bit_word_eqI) (auto simp: bit_and_iff bit_not_iff)
  then show "\<not> 32768 \<le> unat (w AND NOT NULL_MASK)" by (simp add: flag_iff[symmetric])
qed

lemma keys_bound:
  assumes "wf_bitmaps n"
  shows "length (node_keys n) \<le> 257"
proof -
  have "set (node_keys n) \<subseteq> {-1..<256}" using valid_node_keys[OF assms] by (auto simp: valid_key_def)
  then have "card (set (node_keys n)) \<le> card {-1..<256::int}" by (intro card_mono) auto
  then show ?thesis using distinct_card[OF distinct_node_keys[OF assms]] by simp
qed

lemma keys_bound_strict:
  assumes "wf_bitmaps n" "valid_key k" "k \<notin> set (node_keys n)"
  shows "length (node_keys n) < 257"
proof -
  have "set (node_keys n) \<subset> {-1..<256}" using valid_node_keys[OF assms(1)] assms by (auto simp: valid_key_def)
  then have "card (set (node_keys n)) < card {-1..<256::int}" by (intro psubset_card_mono) auto
  then show ?thesis using distinct_card[OF distinct_node_keys[OF assms(1)]] by simp
qed

subsection \<open>Adding and removing a bit of the bitmaps\<close>

lemma bit_list_set:
  fixes w :: "'a::len word"
  assumes "\<not> bit w i" "i < LENGTH('a)"
  shows "bit_list (w OR push_bit i 1) =
    filter (\<lambda>x. x < i) (bit_list w) @ [i] @ filter (\<lambda>x. i < x) (bit_list w)"
proof -
  let ?w = "w OR push_bit i 1"
  have b: "bit ?w x \<longleftrightarrow> bit w x \<or> x = i" for x
    using bit_bits_set[of w i x] assms(2) by (simp add: bits_set_def)
  have "filter (\<lambda>x. x < i) (bit_list ?w) = filter (\<lambda>x. x < i) (bit_list w)"
    "filter (\<lambda>x. i < x) (bit_list ?w) = filter (\<lambda>x. i < x) (bit_list w)"
    unfolding bit_list_def filter_filter by (rule filter_cong, use b in auto)+
  moreover have "i \<in> set (bit_list ?w)" using b by simp
  ultimately show ?thesis using sorted_split_at[of "bit_list ?w" i] by simp
qed

lemma bit_list_clear:
  fixes w :: "'a::len word"
  shows "bit_list (w AND NOT (push_bit i 1)) =
    filter (\<lambda>x. x < i) (bit_list w) @ filter (\<lambda>x. i < x) (bit_list w)"
proof -
  let ?w = "w AND NOT (push_bit i 1)"
  have b: "bit ?w x \<longleftrightarrow> bit w x \<and> x \<noteq> i" for x
  proof (cases "x < LENGTH('a)")
    case True
    then show ?thesis unfolding push_bit_eq_mult by (auto simp: bit_and_iff bit_not_iff bit_exp_iff)
  next
    case False
    then have "\<not> bit ?w x" "\<not> bit w x" using bit_less_length by blast+
    then show ?thesis by blast
  qed
  have f: "filter (\<lambda>x. bit ?w x \<and> P x) xs = filter (\<lambda>x. bit w x \<and> P x) xs" if "\<not> P i" for P xs
    by (rule filter_cong[OF refl]) (use b that in blast)
  have "filter (\<lambda>x. x < i) (bit_list ?w) = filter (\<lambda>x. x < i) (bit_list w)"
    "filter (\<lambda>x. i < x) (bit_list ?w) = filter (\<lambda>x. i < x) (bit_list w)"
    unfolding bit_list_def filter_filter by (rule f, simp)+
  moreover have "i \<notin> set (bit_list ?w)" using b by simp
  ultimately show ?thesis using sorted_split_at[of "bit_list ?w" i] by simp
qed

definition insert_key :: "int \<Rightarrow> int list \<Rightarrow> int list" where
  "insert_key k ks = filter (\<lambda>x. x < k) ks @ [k] @ filter (\<lambda>x. k < x) ks"

definition remove_key :: "int \<Rightarrow> int list \<Rightarrow> int list" where
  "remove_key k ks = filter (\<lambda>x. x < k) ks @ filter (\<lambda>x. k < x) ks"

lemma bits_index_set: "g < 8 \<Longrightarrow> bits_index ((w :: uint8) OR push_bit g 1) g = bits_index w g"
proof -
  assume "g < 8"
  have "filter (\<lambda>x. x < g) (bit_list (w OR push_bit g 1)) = filter (\<lambda>x. x < g) (bit_list w)"
  proof (cases "bit w g")
    case True
    then have "w OR push_bit g 1 = w"
      unfolding push_bit_eq_mult by (intro bit_word_eqI) (auto simp: bit_or_iff bit_exp_iff)
    then show ?thesis by simp
  next
    case False
    have "g < LENGTH(8)" using \<open>g < 8\<close> by simp
    from bit_list_set[OF False this] show ?thesis by (simp add: filter_empty_conv)
  qed
  then show ?thesis by (simp add: bits_index_eq)
qed

lemma bit_list_push_bit: "j < LENGTH('a) \<Longrightarrow> bit_list (push_bit j 1 :: 'a::len word) = [j]"
  using bit_list_set[of 0 j] by simp

lemma insert_key_set: "set (insert_key k ks) = insert k (set ks)"
  by (auto simp: insert_key_def)

lemma length_insert_key: "k \<notin> set ks \<Longrightarrow> length (insert_key k ks) = Suc (length ks)"
proof -
  assume "k \<notin> set ks"
  then have "filter (\<lambda>x. k < x) ks = filter (\<lambda>x. \<not> x < k) ks" 
    by (intro filter_cong) (auto simp: not_less order_le_less)
  then show ?thesis using sum_length_filter_compl[of "\<lambda>x. x < k" ks] by (simp add: insert_key_def)
qed

lemma filter_insert_key: "filter (\<lambda>x. x < k) (insert_key k ks) = filter (\<lambda>x. x < k) ks"
  by (simp add: insert_key_def filter_empty_conv)

lemma insert_key_NONE_Cons:
  assumes "NONE < k"
  shows "NONE # insert_key k ks = insert_key k (NONE # ks)"
  using assms by (simp add: insert_key_def)

lemma insert_key_NONE:
  assumes "\<forall>x\<in>set ks. NONE < x"
  shows "insert_key NONE ks = NONE # ks"
proof -
  have "filter (\<lambda>x. x < NONE) ks = []" "filter (\<lambda>x. NONE < x) ks = ks"
    using assms by (auto simp: filter_empty_conv filter_id_conv)
  then show ?thesis by (simp add: insert_key_def)
qed

lemma group_keys_add_new:
  assumes "sorted gs" "distinct gs" "length gs = length ls" "a = length (filter (\<lambda>x. x < g) gs)"
    and "j < 32" "g \<notin> set gs"
  shows "group_keys (filter (\<lambda>x. x < g) gs @ [g] @ filter (\<lambda>x. g < x) gs)
      (take a ls @ [push_bit j 1] @ drop a ls) = insert_key (mkkey g j) (group_keys gs ls)"
proof -
  have la: "a \<le> length ls" using assms(3,4) length_filter_le[of "\<lambda>x. x < g" gs] by simp
  have "bit_list (push_bit j 1 :: uint32) = [j]" using assms(5) by (intro bit_list_push_bit) simp
  then show ?thesis
    using filter_group_keys[OF assms(1-5)] assms(4,6) la by (simp add: insert_key_def group_keys_append)
qed

lemma group_keys_change:
  assumes "sorted gs" "distinct gs" "length gs = length ls" "a = length (filter (\<lambda>x. x < g) gs)"
    and "j < 32" "g \<in> set gs"
  shows "group_keys gs (ls[a := l]) =
      group_keys (filter (\<lambda>x. x < g) gs) (take a ls) @ map (mkkey g) (bit_list l)
      @ group_keys (filter (\<lambda>x. g < x) gs) (drop (Suc a) ls)"
proof -
  have "length gs = length (filter (\<lambda>x. x < g) gs) + 1 + length (filter (\<lambda>x. g < x) gs)"
    using arg_cong[OF sorted_split_at[OF assms(1,2), of g], of length] assms(6) by simp
  then have "a < length ls" using assms(3,4) by linarith
  then show ?thesis using group_keys_split[OF assms(1,2) _ assms(4), of "ls[a := l]"] assms(3,6) by simp
qed

lemma group_keys_add_old:
  assumes "sorted gs" "distinct gs" "length gs = length ls" "a = length (filter (\<lambda>x. x < g) gs)"
    and "j < 32" "g \<in> set gs" "\<not> bit (ls ! a) j"
  shows "group_keys gs (ls[a := ls ! a OR push_bit j 1]) = insert_key (mkkey g j) (group_keys gs ls)"
  using filter_group_keys[OF assms(1-5)] assms(6) group_keys_change[OF assms(1-6)]
    bit_list_set[OF assms(7)] assms(5)
  by (simp add: insert_key_def)

lemma group_keys_remove:
  assumes "sorted gs" "distinct gs" "length gs = length ls" "a = length (filter (\<lambda>x. x < g) gs)"
    and "j < 32" "g \<in> set gs"
  shows "group_keys gs (ls[a := ls ! a AND NOT (push_bit j 1)]) = remove_key (mkkey g j) (group_keys gs ls)"
  using filter_group_keys[OF assms(1-5)] assms(6) group_keys_change[OF assms(1-6)]
    bit_list_clear[of "ls ! a" j]
  by (simp add: remove_key_def)

lemma group_keys_remove_group:
  assumes "sorted gs" "distinct gs" "length gs = length ls" "a = length (filter (\<lambda>x. x < g) gs)"
    and "j < 32" "g \<in> set gs" "ls ! a AND NOT (push_bit j 1) = 0"
  shows "group_keys (filter (\<lambda>x. x < g) gs @ filter (\<lambda>x. g < x) gs) (take a ls @ drop (Suc a) ls)
    = remove_key (mkkey g j) (group_keys gs ls)"
proof -
  have la: "a \<le> length ls" using assms(3,4) length_filter_le[of "\<lambda>x. x < g" gs] by simp
  then show ?thesis
    using group_keys_remove[OF assms(1-6)] group_keys_change[OF assms(1-6), of 0] assms(4,7)
    by (simp add: group_keys_append)
qed


text \<open>The two bitmap updates every way of adding or removing a byte branch performs.\<close>

definition add_lower :: "'o trie_node \<Rightarrow> int \<Rightarrow> uint32 list" where
  "add_lower n k =
     (let a = bits_index (upper n) (ubit k)
      in if bit (upper n) (ubit k) then (lower n)[a := lower n ! a OR push_bit (lbit k) 1]
         else take a (lower n) @ [push_bit (lbit k) 1] @ drop a (lower n))"

lemma or_exp_nonzero: "j < 32 \<Longrightarrow> (l :: uint32) OR push_bit j 1 \<noteq> 0"
proof
  assume "j < 32" "l OR push_bit j 1 = 0"
  moreover have "bit (l OR push_bit j 1) j" using \<open>j < 32\<close> unfolding push_bit_eq_mult by (simp add: bit_or_iff bit_exp_iff)
  ultimately show False by simp
qed

lemma zero_notin_update:
  assumes "x \<notin> set xs" "y \<noteq> x"
  shows "x \<notin> set (xs[i := y])"
  using assms set_update_subset_insert[of xs i y] by auto

lemma add_lower_keys:
  assumes "wf_bitmaps n" "0 \<le> k" "k < 256" "k \<notin> set (node_keys n)"
  defines "u \<equiv> upper n OR push_bit (ubit k) 1"
  shows "group_keys (bit_list u) (add_lower n k) = insert_key k (group_keys (bit_list (upper n)) (lower n))"
    and "length (add_lower n k) = bits_count u" and "0 \<notin> set (add_lower n k)"
proof -
  let ?g = "ubit k" and ?j = "lbit k" and ?gs = "bit_list (upper n)" and ?a = "bits_index (upper n) (ubit k)"
  note ks = key_split[OF assms(2,3)]
  have len: "length ?gs = length (lower n)" by (rule wf_lengths[OF assms(1)])
  have nz: "0 \<notin> set (lower n)" using assms(1) by (simp add: wf_bitmaps_def)
  have a: "?a = length (filter (\<lambda>x. x < ?g) ?gs)" by (simp add: bits_index_eq)
  have ns: "\<not> node_isset n k" using assms(1-4) node_isset_iff[of n k] by (simp add: valid_key_def)
  have pz: "(push_bit ?j 1 :: uint32) \<noteq> 0" using or_exp_nonzero[OF ks(3), of 0] by simp
  have "group_keys (bit_list u) (add_lower n k) = insert_key k (group_keys ?gs (lower n))
    \<and> length (add_lower n k) = length (bit_list u) \<and> 0 \<notin> set (add_lower n k)"
  proof (cases "bit (upper n) ?g")
    case True
    have "u = upper n" unfolding u_def push_bit_eq_mult using True
      by (intro bit_word_eqI) (auto simp: bit_or_iff bit_exp_iff)
    moreover have "\<not> bit (lower n ! ?a) ?j"
      using ns True assms(2) by (auto simp: node_isset_def and_exp_eq_0_iff_not_bit NONE_def)
    note group_keys_add_old[OF sorted_bit_list distinct_bit_list len a ks(3) _ this]
    moreover have "0 \<notin> set ((lower n)[?a := lower n ! ?a OR push_bit ?j 1])"
      by (rule zero_notin_update[OF nz or_exp_nonzero[OF ks(3)]])
    ultimately show ?thesis using True ks(1) len by (simp add: add_lower_def Let_def)
  next
    case False
    have "?g < LENGTH(8)" using ks(2) by simp
    note bl = bit_list_set[OF False this]
    have la: "?a \<le> length (lower n)" using len a length_filter_le[of "\<lambda>x. x < ?g" ?gs] by simp
    have "group_keys (bit_list u) (add_lower n k) = insert_key k (group_keys ?gs (lower n))"
      using group_keys_add_new[OF sorted_bit_list distinct_bit_list len a ks(3)] False ks(1) 
      unfolding u_def bl add_lower_def Let_def by simp
    moreover have "length (bit_list u) = Suc (length ?gs)"
      using arg_cong[OF sorted_split_at[of ?gs ?g], of length] False unfolding u_def bl by simp
    moreover have "0 \<notin> set (add_lower n k)"
      using False nz pz by (auto simp: add_lower_def Let_def dest: in_set_takeD in_set_dropD)
    ultimately show ?thesis using False len la by (simp add: add_lower_def Let_def)
  qed
  then show "group_keys (bit_list u) (add_lower n k) = insert_key k (group_keys (bit_list (upper n)) (lower n))"
    "length (add_lower n k) = bits_count u" "0 \<notin> set (add_lower n k)" by (auto simp: bits_count_eq)
qed


lemma NONE_notin_group: "x \<in> set (group_keys gs ls) \<Longrightarrow> length gs = length ls \<Longrightarrow> NONE < x"
  by (auto simp: set_group_keys)

lemma group_count:
  "wf_bitmaps n \<Longrightarrow> length (node_keys n) = of_bool (has_none n) + length (group_keys (bit_list (upper n)) (lower n))"
  by (simp add: node_keys_def)

text \<open>What a node is after the branch \<open>k\<close> was added: the conclusion shared by all ways of adding.\<close>

definition branch_added :: "int \<Rightarrow> 'o trie_node \<Rightarrow> 'o trie_node \<Rightarrow> nat \<Rightarrow> 'o \<Rightarrow> bool" where
  "branch_added k src n i x \<longleftrightarrow> node_keys n = insert_key k (node_keys src)
     \<and> i = length (filter (\<lambda>y. y < k) (node_keys src)) \<and> i \<le> length (array src)
     \<and> array n = take i (array src) @ [x] @ drop i (array src) \<and> wf_bitmaps n
     \<and> compressed_len n = compressed_len src \<and> compressed n = compressed src
     \<and> upper n = (if k = NONE then upper src else upper src OR push_bit (ubit k) 1)
     \<and> lower n = (if k = NONE then lower src else add_lower src k)
     \<and> array_len n = (if k = NONE then (array_len src + 1) OR NULL_MASK else array_len src + 1)"

lemma add_index_bound:
  assumes "wf_bitmaps n"
  shows "length (filter P (node_keys n)) \<le> length (array n)"
  using assms length_filter_le[of P "node_keys n"] by (simp add: wf_bitmaps_def)

lemma branch_addedI:
  assumes wf: "wf_bitmaps src" and k: "valid_key k" "k \<notin> set (node_keys src)"
    and up: "upper n = (if k = NONE then upper src else upper src OR push_bit (ubit k) 1)"
    and low: "lower n = (if k = NONE then lower src else add_lower src k)"
    and al: "array_len n = (if k = NONE then (array_len src + 1) OR NULL_MASK else array_len src + 1)"
    and i: "i = length (filter (\<lambda>y. y < k) (node_keys src))"
    and ar: "array n = take i (array src) @ [x] @ drop i (array src)"
    and c: "compressed_len n = compressed_len src" "compressed n = compressed src"
  shows "branch_added k src n i x"
proof -
  let ?gk = "group_keys (bit_list (upper src)) (lower src)"
  have len: "length (bit_list (upper src)) = length (lower src)" by (rule wf_lengths[OF wf])
  have cnt: "node_count src = length (node_keys src)" "length (array src) = node_count src"
    using wf by (auto simp: wf_bitmaps_def)
  have "length (node_keys src) < 257" by (rule keys_bound_strict[OF wf k])
  then have m: "unat (array_len src) mod 32768 < 32767" using cnt by (simp add: node_count_mod)
  note p1 = count_plus_1[OF m]
  have nc: "node_count n = Suc (node_count src)"
    using al p1(1) by (simp add: node_count_mod count_set_flag)
  have hn: "has_none n \<longleftrightarrow> k = NONE \<or> has_none src"
    using al p1(2) by (simp add: has_none_unat count_set_flag)
  have nk: "node_keys n = insert_key k (node_keys src) \<and> length (lower n) = bits_count (upper n) \<and> 0 \<notin> set (lower n)"
  proof (cases "k = NONE")
    case True
    then have "\<not> has_none src" using k(2) by (auto simp: node_keys_def)
    moreover have "\<forall>x\<in>set ?gk. NONE < x" using NONE_notin_group len by blast
    ultimately show ?thesis
      using True up low wf hn by (simp add: node_keys_def insert_key_NONE wf_bitmaps_def)
  next
    case False
    then have k': "0 \<le> k" "k < 256" using k(1) by (auto simp: valid_key_def NONE_def)
    then have "NONE < k" by (simp add: NONE_def)
    then show ?thesis
      using add_lower_keys[OF wf k' k(2)] False up low hn insert_key_NONE_Cons[of k]
      by (simp add: node_keys_def)
  qed
  have "i \<le> length (array src)" using i add_index_bound[OF wf] by simp
  moreover have "wf_bitmaps n"
    using nk nc cnt ar calculation length_insert_key[OF k(2)] by (simp add: wf_bitmaps_def)
  ultimately show ?thesis using nk i ar c up low al by (simp add: branch_added_def)
qed


lemma link_index_added:
  assumes "wf_bitmaps src" "0 \<le> k" "k < 256" "k \<notin> set (node_keys src)"
  shows "link_index (array_len src + 1) (add_lower src k) (bits_index (upper src) (ubit k)) k =
    length (filter (\<lambda>y. y < k) (node_keys src))"
proof -
  let ?i = "length (filter (\<lambda>y. y < k) (node_keys src))"
  let ?n = "src\<lparr>array_len := array_len src + 1, upper := upper src OR push_bit (ubit k) 1,
      lower := add_lower src k, array := take ?i (array src) @ [undefined] @ drop ?i (array src)\<rparr>"
  note ks = key_split[OF assms(2,3)]
  have ne: "k \<noteq> NONE" using assms(2) by (simp add: NONE_def)
  have "branch_added k src ?n ?i undefined"
    by (rule branch_addedI[OF assms(1)]) (use assms ne in \<open>simp_all add: valid_key_def\<close>)
  then have n: "wf_bitmaps ?n" "node_keys ?n = insert_key k (node_keys src)" unfolding branch_added_def by blast+
  have "bit (upper ?n) (ubit k)"
    using ks(2) unfolding push_bit_eq_mult by (simp add: bit_or_iff bit_exp_iff)
  from link_index_eq[OF n(1) assms(2,3) this] show ?thesis
    unfolding n(2) filter_insert_key using bits_index_set[OF ks(2), of "upper src"] by simp
qed

lemma create_add_fields:
  assumes wf: "wf_bitmaps src" "length (compressed src) = unat (compressed_len src)"
    and k: "valid_key k" "k \<notin> set (node_keys src)"
  shows "branch_added k src (fst (create_add T src k)) (snd (create_add T src k)) 0"
proof -
  let ?n = "fst (create_add T src k)" and ?i = "snd (create_add T src k)"
  have len: "length (lower src) = bits_count (upper src)" using wf(1) by (simp add: wf_bitmaps_def)
  have u: "upper ?n = (if k = NONE then upper src else upper src OR push_bit (ubit k) 1)"
    by (simp add: create_add_def Let_def)
  have l: "lower ?n = (if k = NONE then lower src else add_lower src k)"
    and a: "array_len ?n = (if k = NONE then (array_len src + 1) OR NULL_MASK else array_len src + 1)"
    and i: "?i = length (filter (\<lambda>y. y < k) (node_keys src))"
  proof -
    have "lower ?n = (if k = NONE then lower src else add_lower src k) \<and>
      array_len ?n = (if k = NONE then (array_len src + 1) OR NULL_MASK else array_len src + 1) \<and>
      ?i = length (filter (\<lambda>y. y < k) (node_keys src))"
    proof (cases "k = NONE")
      case True
      have "filter (\<lambda>x. x < NONE) (node_keys src) = []"
        using valid_node_keys[OF wf(1)] by (force simp: filter_empty_conv valid_key_def NONE_def)
      then show ?thesis using True len by (simp add: create_add_def Let_def)
    next
      case False
      then have k': "0 \<le> k" "k < 256" using k(1) by (auto simp: valid_key_def NONE_def)
      note bi = bits_index_set[OF key_split(2)[OF k'], of "upper src"]
      have "bits_index (upper src) (ubit k) \<le> length (lower src)"
        unfolding len bits_count_eq bits_index_eq by simp
      then have al: "add_lower src k = (if bit (upper src) (ubit k)
          then (lower src)[bits_index (upper src) (ubit k) := lower src ! bits_index (upper src) (ubit k) OR push_bit (lbit k) 1]
          else take (bits_index (upper src) (ubit k)) (lower src) @ [push_bit (lbit k) 1]
            @ take (bits_count (upper src) - bits_index (upper src) (ubit k)) (drop (bits_index (upper src) (ubit k)) (lower src)))"
        using len by (simp add: add_lower_def Let_def)
      show ?thesis
        using False link_index_added[OF wf(1) k' k(2)] bi unfolding al
        by (cases "bit (upper src) (ubit k)") (simp_all add: create_add_def Let_def del: push_bit_of_1)
    qed
    then show "lower ?n = (if k = NONE then lower src else add_lower src k)"
      "array_len ?n = (if k = NONE then (array_len src + 1) OR NULL_MASK else array_len src + 1)"
      "?i = length (filter (\<lambda>y. y < k) (node_keys src))" by auto
  qed
  have c: "compressed_len ?n = compressed_len src" "compressed ?n = compressed src"
    using wf(2) by (simp_all add: create_add_def Let_def)
  show ?thesis
  proof (rule branch_addedI[OF wf(1) k u l a i _ c])
    let ?m = "?n\<lparr>array := []\<rparr>"
    have ar: "array ?n = take ?i (array src) @ [0] @ take (node_count ?m - 1 - ?i) (drop ?i (array src))"
      by (simp add: create_add_def Let_def node_count_def)
    have cnt: "node_count src = length (node_keys src)" "length (array src) = node_count src"
      using wf by (auto simp: wf_bitmaps_def)
    have "length (node_keys src) < 257" by (rule keys_bound_strict[OF wf(1) k])
    then have m: "unat (array_len src) mod 32768 < 32767" using cnt by (simp add: node_count_mod)
    have "node_count ?m = Suc (node_count src)"
      using a count_plus_1[OF m] by (simp add: node_count_mod count_set_flag)
    then show "array ?n = take ?i (array src) @ [0] @ drop ?i (array src)"
      using ar cnt by simp
  qed
qed


lemma insert_branch_fields:
  assumes wf: "wf_bitmaps src" and k: "valid_key k" "k \<notin> set (node_keys src)"
    and r: "insert_branch src k = (n, i)"
  shows "branch_added k src n i (if i < length (array src) then array src ! i else 0)"
proof (cases "k = NONE")
  case True
  have f: "filter (\<lambda>x. x < NONE) (node_keys src) = []"
    using valid_node_keys[OF wf(1)] by (force simp: filter_empty_conv valid_key_def NONE_def)
  show ?thesis
    by (rule branch_addedI[OF wf k]) (use True r f in \<open>auto simp: insert_branch_def open_slot_def\<close>)
next
  case False
  then have k': "0 \<le> k" "k < 256" using k(1) by (auto simp: valid_key_def NONE_def)
  note bi = bits_index_set[OF key_split(2)[OF k'], of "upper src"]
  show ?thesis
  proof (cases "bit (upper src) (ubit k)")
    case True
    have up: "upper src OR push_bit (ubit k) 1 = upper src" unfolding push_bit_eq_mult using True
      by (intro bit_word_eqI) (auto simp: bit_or_iff bit_exp_iff)
    show ?thesis
      by (rule branch_addedI[OF wf k])
        (use False True up r link_index_eq[OF wf k' True] in
          \<open>auto simp: insert_branch_def open_slot_def add_lower_def Let_def simp del: push_bit_of_1\<close>)
  next
    case new: False
    have "of_bool (has_none src) + sum_list (map bits_count (take (bits_index (upper src) (ubit k)) (lower src)))
      = length (filter (\<lambda>y. y < k) (node_keys src))"
      using filter_less_node_keys[OF wf k'] new by simp
    then show ?thesis
      by (intro branch_addedI[OF wf k])
        (use False new bi r in
          \<open>auto simp: insert_branch_def open_slot_def add_lower_def Let_def has_none_def simp del: push_bit_of_1\<close>)
  qed
qed

section \<open>Layout of the constructed nodes\<close>

definition traits_ok :: "traits \<Rightarrow> bool" where
  "traits_ok T \<longleftrightarrow> HASH_SIZE T \<le> 64"

lemma lower_fits:
  assumes "traits_ok T" "p = padding (trie_HEADER_SIZE T + unat (l :: uint8)) sizeof_uint32_e"
  shows "unat (word_of_nat (p div sizeof_uint32_e) :: uint8) * sizeof_uint32_e = p" "p \<le> 330"
proof -
  have "unat l < 256" using unsigned_less[of l] by simp
  moreover have d: "4 dvd p" "p < trie_HEADER_SIZE T + unat l + 4"
    using padding_bounds[of 4 "trie_HEADER_SIZE T + unat l"] assms(2) by (simp_all add: sizeof_uint32_e_def)
  ultimately show b: "p \<le> 330" using assms(1) by (simp add: traits_ok_def trie_HEADER_SIZE_def)
  have "p div 4 < 256" using b by linarith
  then show "unat (word_of_nat (p div sizeof_uint32_e) :: uint8) * sizeof_uint32_e = p"
    using d(1) by (simp add: sizeof_uint32_e_def unsigned_of_nat take_bit_nat_eq_self)
qed

lemma array_fits:
  assumes "p \<le> 330" "b \<le> 8"
  shows "unat (word_of_nat (align_size (p + b * sizeof_uint32_e) div sizeof_offset_e) :: uint8) * sizeof_offset_e
    = align_size (p + b * sizeof_uint32_e)"
proof -
  have a: "align_size (p + b * 4) = ((p + b * 4 + 7) div 8) * 8"
    using assms by (intro align_size_eq) linarith
  have "(p + b * 4 + 7) div 8 < 256" using assms by linarith
  then show ?thesis
    unfolding sizeof_uint32_e_def sizeof_offset_e_def a
    by (simp add: unsigned_of_nat take_bit_nat_eq_self del: of_nat_add of_nat_mult)
qed

lemma bits_count_upper: "bits_count (u :: uint8) \<le> 8"
  using length_filter_le[of "bit u" "[0..<8]"] by (simp add: bits_count_def popcount_def)

lemma wf_layoutI:
  assumes "traits_ok T" "length (compressed n) = unat (compressed_len n)"
    and "lower_offset n = word_of_nat (calc_lower_start T n div sizeof_uint32_e)"
    and "array_offset n = word_of_nat (calc_array_start n div sizeof_offset_e)"
  shows "wf_layout T n"
proof -
  have l: "lower_start n = calc_lower_start T n" "calc_lower_start T n \<le> 330"
    using lower_fits[OF assms(1) refl, of "compressed_len n"] assms(3)
    by (simp_all add: lower_start_def calc_lower_start_def)
  then have "array_start n = calc_array_start n"
    using array_fits[of "lower_start n", OF _ bits_count_upper[of "upper n"]] assms(4)
    by (simp add: array_start_def calc_array_start_def)
  with l assms(2) show ?thesis by (simp add: wf_layout_def)
qed

lemma create_add_layout:
  assumes "traits_ok T" "length (compressed src) = unat (compressed_len src)"
  shows "wf_layout T (fst (create_add T src k))"
  by (rule wf_layoutI)
    (use assms in \<open>simp_all add: create_add_def Let_def calc_lower_start_def calc_array_start_def lower_start_def\<close>)

lemma insert_branch_layout:
  assumes "traits_ok T" "wf_node T src" "valid_key k" "k \<notin> set (node_keys src)"
    and "insert_branch src k = (n, i)"
  shows "wf_layout T n"
proof -
  have wf: "wf_bitmaps src" "wf_layout T src" using assms(2) by (simp_all add: wf_node_def)
  have b: "branch_added k src n i (if i < length (array src) then array src ! i else 0)"
    by (rule insert_branch_fields[OF wf(1) assms(3,4,5)])
  have low: "lower_offset n = lower_offset src"
    using assms(5) by (auto simp: insert_branch_def Let_def split: if_splits)
  have cs: "calc_lower_start T n = calc_lower_start T src" "lower_start n = lower_start src"
    using b low by (simp_all add: branch_added_def calc_lower_start_def lower_start_def)
  have "array_start n = calc_array_start n"
  proof (cases "k = NONE \<or> bit (upper src) (ubit k)")
    case True
    then have "array_offset n = array_offset src" "upper n = upper src"
      using assms(5) by (auto simp: insert_branch_def Let_def split: if_splits)
    then show ?thesis using wf(2) cs by (simp add: wf_layout_def array_start_def calc_array_start_def)
  next
    case False
    have k': "0 \<le> k" "k < 256" using assms(3) False by (auto simp: valid_key_def NONE_def)
    have g: "ubit k < LENGTH(8)" using key_split(2)[OF k'] by simp
    have "upper n = upper src OR push_bit (ubit k) 1"
      using assms(5) False by (auto simp: insert_branch_def Let_def split: if_splits)
    moreover have "bits_count (upper src OR push_bit (ubit k) 1) = Suc (bits_count (upper src))"
      using bit_list_set[OF _ g, of "upper src"] False arg_cong[OF sorted_split_at[of "bit_list (upper src)" "ubit k"], of length]
      by (simp add: bits_count_eq del: push_bit_of_1)
    ultimately have bc: "bits_count (upper n) = Suc (bits_count (upper src))" by simp
    have ao: "array_offset n = word_of_nat (align_size (lower_start src + (bits_count (upper src) + 1) * sizeof_uint32_e) div sizeof_offset_e)"
      using assms(5) False by (auto simp: insert_branch_def Let_def split: if_splits)
    have "lower_start src \<le> 330"
      using wf(2) lower_fits(2)[OF assms(1) refl, of "compressed_len src"] by (simp add: wf_layout_def calc_lower_start_def)
    from array_fits[OF this bits_count_upper[of "upper n"]] show ?thesis
      using ao bc cs by (simp add: array_start_def calc_array_start_def)
  qed
  then show ?thesis using wf(2) b cs by (simp add: wf_layout_def branch_added_def)
qed


section \<open>Removing a branch\<close>

lemma bits_count_clear:
  assumes "bit (w :: 'a::len word) i"
  shows "bits_count w = Suc (bits_count (w AND NOT (push_bit i 1)))"
  using arg_cong[OF sorted_split_at[of "bit_list w" i], of length] assms bit_list_clear[of w i]
  by (simp add: bits_count_eq del: push_bit_of_1)

lemma length_remove_key:
  assumes "k \<in> set ks" "distinct ks"
  shows "length ks = Suc (length (remove_key k ks))"
proof -
  have "length (filter (\<lambda>x. x \<noteq> k) ks) = length (remove_key k ks)"
  proof -
    have "length (filter (\<lambda>x. x < k) (filter (\<lambda>x. x \<noteq> k) ks)) + length (filter (\<lambda>x. \<not> x < k) (filter (\<lambda>x. x \<noteq> k) ks))
      = length (filter (\<lambda>x. x \<noteq> k) ks)" by (rule sum_length_filter_compl)
    moreover have "filter (\<lambda>x. x < k) (filter (\<lambda>x. x \<noteq> k) ks) = filter (\<lambda>x. x < k) ks"
      "filter (\<lambda>x. \<not> x < k) (filter (\<lambda>x. x \<noteq> k) ks) = filter (\<lambda>x. k < x) ks"
      unfolding filter_filter by (rule filter_cong, auto)+
    ultimately show ?thesis by (simp add: remove_key_def)
  qed
  moreover have "length (filter (\<lambda>x. x = k) ks) = 1"
  proof -
    have "set (filter (\<lambda>x. x = k) ks) = {k}" using assms(1) by auto
    then have "card {k} = length (filter (\<lambda>x. x = k) ks)"
      using distinct_card[OF distinct_filter[OF assms(2)], of "\<lambda>x. x = k"] by simp
    then show ?thesis by simp
  qed
  ultimately show ?thesis using sum_length_filter_compl[of "\<lambda>x. x = k" ks] by simp
qed

definition branch_removed :: "int \<Rightarrow> 'o trie_node \<Rightarrow> 'o trie_node \<Rightarrow> bool" where
  "branch_removed k src n \<longleftrightarrow> node_keys n = remove_key k (node_keys src)
     \<and> (\<exists>i. i = length (filter (\<lambda>y. y < k) (node_keys src)) \<and> i < length (array src)
          \<and> array n = take i (array src) @ drop (Suc i) (array src))
     \<and> wf_bitmaps n \<and> compressed_len n = compressed_len src \<and> compressed n = compressed src"

lemma removed_index_less:
  assumes "wf_bitmaps n" "k \<in> set (node_keys n)"
  shows "length (filter (\<lambda>y. y < k) (node_keys n)) < length (array n)"
  using assms length_filter_less[OF assms(2), of "\<lambda>y. y < k"] by (simp add: wf_bitmaps_def)

text \<open>The bitmaps after the bit of a byte branch is cleared.\<close>

definition remove_lower :: "'o trie_node \<Rightarrow> int \<Rightarrow> uint8 \<times> uint32 list" where
  "remove_lower n k =
     (let a = bits_index (upper n) (ubit k); v = lower n ! a AND NOT (push_bit (lbit k) 1)
      in if v = 0 then (upper n AND NOT (push_bit (ubit k) 1), take a (lower n) @ drop (Suc a) (lower n))
         else (upper n, (lower n)[a := v]))"

lemma remove_lower_keys:
  assumes "wf_bitmaps n" "0 \<le> k" "k < 256" "k \<in> set (node_keys n)" "remove_lower n k = (u, ls)"
  shows "group_keys (bit_list u) ls = remove_key k (group_keys (bit_list (upper n)) (lower n))
    \<and> length ls = bits_count u \<and> 0 \<notin> set ls"
proof -
  let ?g = "ubit k" and ?j = "lbit k" and ?gs = "bit_list (upper n)" and ?a = "bits_index (upper n) (ubit k)"
  let ?v = "lower n ! ?a AND NOT (push_bit ?j 1)"
  note ks = key_split[OF assms(2,3)]
  have len: "length ?gs = length (lower n)" by (rule wf_lengths[OF assms(1)])
  have nz: "0 \<notin> set (lower n)" using assms(1) by (simp add: wf_bitmaps_def)
  have a: "?a = length (filter (\<lambda>x. x < ?g) ?gs)" by (simp add: bits_index_eq)
  have "node_isset n k" using assms(1-4) node_isset_iff[of n k] by (simp add: valid_key_def)
  then have g: "bit (upper n) ?g" using assms(2) by (simp add: node_isset_def NONE_def)
  then have gi: "?g \<in> set ?gs" by simp
  show ?thesis
  proof (cases "?v = 0")
    case True
    then have u: "u = upper n AND NOT (push_bit ?g 1)" and ls: "ls = take ?a (lower n) @ drop (Suc ?a) (lower n)"
      using assms(5) unfolding remove_lower_def Let_def by (simp_all del: push_bit_of_1)
    have bl: "bit_list u = filter (\<lambda>x. x < ?g) ?gs @ filter (\<lambda>x. ?g < x) ?gs"
      unfolding u by (rule bit_list_clear)
    have "?a < length (lower n)" using group_at_index(1)[OF g] len by simp
    then have "length ls = bits_count u"
      using ls len bits_count_clear[OF g] unfolding u[symmetric] by (simp add: bits_count_eq)
    moreover have "0 \<notin> set ls" using ls nz by (auto dest: in_set_takeD in_set_dropD)
    ultimately show ?thesis
      using group_keys_remove_group[OF sorted_bit_list distinct_bit_list len a ks(3) gi True] ks(1)
      unfolding bl ls by simp
  next
    case False
    then have u: "u = upper n" and ls: "ls = (lower n)[?a := ?v]"
      using assms(5) unfolding remove_lower_def Let_def if_not_P[OF False] prod.inject by blast+
    have "0 \<notin> set ls" unfolding ls by (rule zero_notin_update[OF nz False])
    moreover have "length ls = bits_count u" using ls u len by (simp add: bits_count_eq)
    ultimately show ?thesis
      using group_keys_remove[OF sorted_bit_list distinct_bit_list len a ks(3) gi] ks(1) unfolding u ls by simp
  qed
qed

lemma create_remove_fields:
  assumes wf: "wf_bitmaps src" "length (compressed src) = unat (compressed_len src)"
    and k: "k \<in> set (node_keys src)"
  shows "branch_removed k src (create_remove T src k)"
proof -
  let ?n = "create_remove T src k" and ?i = "length (filter (\<lambda>y. y < k) (node_keys src))"
  let ?gk = "group_keys (bit_list (upper src)) (lower src)"
  have vk: "valid_key k" by (rule valid_node_keys[OF wf(1) k])
  have len: "length (lower src) = bits_count (upper src)" using wf(1) by (simp add: wf_bitmaps_def)
  have cnt: "node_count src = length (node_keys src)" "length (array src) = node_count src"
    using wf by (auto simp: wf_bitmaps_def)
  have lk: "length (node_keys src) = Suc (length (remove_key k (node_keys src)))"
    by (rule length_remove_key[OF k distinct_node_keys[OF wf(1)]])
  then have "0 < unat (array_len src) mod 32768" using cnt by (simp add: node_count_mod)
  note m1 = count_minus_1[OF this]
  have al: "array_len ?n = (if k = NONE then (array_len src - 1) AND NOT NULL_MASK else array_len src - 1)"
    by (auto simp: create_remove_def Let_def)
  have nc: "node_count ?n = node_count src - 1" using al m1(1) by (simp add: node_count_mod count_clear_flag)
  have hn: "has_none ?n \<longleftrightarrow> k \<noteq> NONE \<and> has_none src" using al m1(2) by (simp add: has_none_unat count_clear_flag)
  have c: "compressed_len ?n = compressed_len src" "compressed ?n = compressed src"
    using wf(2) by (auto simp: create_remove_def Let_def)
  have gN: "NONE < x" if "x \<in> set ?gk" for x using NONE_notin_group[OF that] len by (simp add: bits_count_eq)
  have main: "node_keys ?n = remove_key k (node_keys src) \<and> length (lower ?n) = bits_count (upper ?n) \<and> 0 \<notin> set (lower ?n)
    \<and> array ?n = take ?i (array src) @ take (node_count (?n\<lparr>array := []\<rparr>) - ?i) (drop (Suc ?i) (array src))"
  proof (cases "k = NONE")
    case True
    have f: "filter (\<lambda>x. x < NONE) (node_keys src) = []"
      using valid_node_keys[OF wf(1)] by (force simp: filter_empty_conv valid_key_def NONE_def)
    have "has_none src" using k True gN by (fastforce simp: node_keys_def split: if_splits)
    moreover have "filter (\<lambda>x. NONE < x) ?gk = ?gk" using gN by (simp add: filter_id_conv)
    moreover have "filter (\<lambda>x. x < NONE) ?gk = []" using gN by (auto simp: filter_empty_conv dest: less_asym)
    ultimately have nk: "remove_key NONE (node_keys src) = ?gk" by (simp add: remove_key_def node_keys_def)
    have "upper ?n = upper src" "lower ?n = lower src" using True len by (simp_all add: create_remove_def Let_def)
    then have "node_keys ?n = ?gk" using hn True by (simp add: node_keys_def)
    moreover have "array ?n = take ?i (array src) @ take (node_count (?n\<lparr>array := []\<rparr>) - ?i) (drop (Suc ?i) (array src))"
      using True f by (simp add: create_remove_def Let_def node_count_def)
    ultimately show ?thesis
      using nk True len \<open>upper ?n = _\<close> \<open>lower ?n = _\<close> wf(1) by (simp add: wf_bitmaps_def)
  next
    case False
    then have k': "0 \<le> k" "k < 256" using vk by (auto simp: valid_key_def NONE_def)
    obtain u ls where rl: "remove_lower src k = (u, ls)" by force
    note rk = remove_lower_keys[OF wf(1) k' k rl]
    have "node_isset src k" using k vk wf node_isset_iff by blast
    then have g: "bit (upper src) (ubit k)" using k' by (simp add: node_isset_def NONE_def)
    have li: "link_index (array_len src - 1) (lower src) (bits_index (upper src) (ubit k)) k = ?i"
    proof -
      have "(array_len src - 1) AND NULL_MASK \<noteq> 0 \<longleftrightarrow> array_len src AND NULL_MASK \<noteq> 0"
        using m1(2) unfolding flag_iff .
      then show ?thesis using link_index_eq[OF wf(1) k' g] by (simp add: link_index_def)
    qed
    have f: "upper ?n = u" "lower ?n = ls"
      using rl False len unfolding remove_lower_def Let_def
      by (auto simp: create_remove_def Let_def simp del: push_bit_of_1 split: if_splits)
    have "NONE < k" using k' by (simp add: NONE_def)
    then have "node_keys ?n = remove_key k (node_keys src)"
      using rk f hn False by (simp add: node_keys_def remove_key_def)
    moreover have "array ?n = take ?i (array src) @ take (node_count (?n\<lparr>array := []\<rparr>) - ?i) (drop (Suc ?i) (array src))"
      using False li by (simp add: create_remove_def Let_def node_count_def del: push_bit_of_1)
    ultimately show ?thesis using rk f by simp
  qed
  have il: "?i < length (array src)" by (rule removed_index_less[OF wf(1) k])
  have "node_count (?n\<lparr>array := []\<rparr>) = node_count ?n" by (simp add: node_count_def)
  then have ar: "array ?n = take ?i (array src) @ drop (Suc ?i) (array src)"
    using main nc cnt by simp
  then have "wf_bitmaps ?n" using main nc cnt lk il by (simp add: wf_bitmaps_def)
  with main ar il c show ?thesis by (auto simp: branch_removed_def)
qed

lemma create_remove_layout:
  assumes "traits_ok T" "length (compressed src) = unat (compressed_len src)"
  shows "wf_layout T (create_remove T src k)"
  by (rule wf_layoutI)
    (use assms in \<open>auto simp: create_remove_def Let_def calc_lower_start_def calc_array_start_def lower_start_def\<close>)

end
