(* ===== verification/Leaves_NodeMap.thy ===== *)
theory Leaves_NodeMap
  imports Leaves_Branch
begin

text \<open>
  Trie nodes as finite maps from branch keys to links: sizes, the constructors of fresh nodes,
  and the properties of the node operations of \<open>_node.hpp\<close>; leaf nodes at the end.
\<close>

section \<open>Sizes\<close>

declare push_bit_of_1 [simp del]

lemma align_size_add: "x + 8 * c < 4294967288 \<Longrightarrow> align_size (x + c * 8) = align_size x + c * 8"
proof -
  assume b: "x + 8 * c < 4294967288"
  have "align_size (x + c * 8) = ((x + c * 8 + 7) div 8) * 8" using b by (intro align_size_eq) simp
  moreover have "align_size x = ((x + 7) div 8) * 8" using b by (intro align_size_eq) simp
  moreover have "(x + c * 8 + 7) div 8 = (x + 7) div 8 + c" by simp
  ultimately show ?thesis by (simp add: algebra_simps)
qed

lemma node_size_layout:
  assumes "traits_ok T" "wf_node T n"
  shows "node_size n = align_size (padding (trie_HEADER_SIZE T + unat (compressed_len n)) sizeof_uint32_e
      + lower_size n + node_count n * sizeof_offset_e)"
    and "node_size n \<le> trie_MAX_SIZE T"
proof -
  let ?p = "padding (trie_HEADER_SIZE T + unat (compressed_len n)) sizeof_uint32_e"
  have w: "lower_start n = ?p" "array_start n = align_size (?p + lower_size n)"
    using assms(2) by (simp_all add: wf_node_def wf_layout_def calc_lower_start_def calc_array_start_def lower_size_def)
  have p: "?p \<le> 330" by (rule lower_fits(2)[OF assms(1) refl])
  have l: "lower_size n \<le> 8 * sizeof_uint32_e"
    using bits_count_upper[of "upper n"] by (simp add: lower_size_def)
  have c: "node_count n \<le> MAX_BRANCH_COUNT"
    using keys_bound[of n] assms(2) by (simp add: wf_node_def wf_bitmaps_def MAX_BRANCH_COUNT_def)
  have "?p + lower_size n + 8 * node_count n < 4294967288"
    using p l c by (simp add: sizeof_uint32_e_def MAX_BRANCH_COUNT_def)
  from align_size_add[OF this] show "node_size n = align_size (?p + lower_size n + node_count n * sizeof_offset_e)"
    unfolding node_size_def array_end_def w(2) array_size_def sizeof_offset_e_def ..
  have "unat (compressed_len n) < 256" using unsigned_less[of "compressed_len n", where 'a = nat] by simp
  then have u: "unat (compressed_len n) \<le> 255" by simp
  then have pp: "?p \<le> padding (trie_HEADER_SIZE T + 255) sizeof_uint32_e"
    unfolding padding_def by (intro mult_le_mono1 div_le_mono) simp
  have pb: "padding (trie_HEADER_SIZE T + 255) sizeof_uint32_e \<le> 330"
    using lower_fits(2)[OF assms(1) refl, of 255] by simp
  have "align_size (?p + lower_size n) \<le> align_size (padding (trie_HEADER_SIZE T + 255) sizeof_uint32_e + 8 * sizeof_uint32_e)"
  proof -
    have "align_size (?p + lower_size n) = ((?p + lower_size n + 7) div 8) * 8"
      "align_size (padding (trie_HEADER_SIZE T + 255) sizeof_uint32_e + 8 * sizeof_uint32_e)
        = ((padding (trie_HEADER_SIZE T + 255) sizeof_uint32_e + 8 * sizeof_uint32_e + 7) div 8) * 8"
      using p l pb by (intro align_size_eq; simp add: sizeof_uint32_e_def)+
    then show ?thesis using pp l by (simp add: div_le_mono)
  qed
  then show "node_size n \<le> trie_MAX_SIZE T"
    using c by (simp add: node_size_def array_end_def w array_size_def trie_MAX_SIZE_def add_mono)
qed

lemma branch_added_counts:
  assumes "wf_bitmaps src" "branch_added k src n i x" "valid_key k" "k \<notin> set (node_keys src)"
  shows "node_count n = Suc (node_count src)"
    and "lower_size n = lower_size src +
      (if k \<noteq> NONE \<and> \<not> bits_isset (native8 (upper src)) (ubit k) then sizeof_uint32_e else 0)"
proof -
  have n: "wf_bitmaps n" "node_keys n = insert_key k (node_keys src)"
    "upper n = (if k = NONE then upper src else upper src OR push_bit (ubit k) 1)"
    using assms(2) unfolding branch_added_def by blast+
  then show "node_count n = Suc (node_count src)"
    using assms(1) length_insert_key[OF assms(4)] by (simp add: wf_bitmaps_def)
  show "lower_size n = lower_size src +
      (if k \<noteq> NONE \<and> \<not> bits_isset (native8 (upper src)) (ubit k) then sizeof_uint32_e else 0)"
  proof (cases "k = NONE \<or> bit (upper src) (ubit k)")
    case True
    then have "upper n = upper src"
      using n(3) unfolding push_bit_eq_mult by (intro bit_word_eqI) (auto simp: bit_or_iff bit_exp_iff)
    then show ?thesis using True by (auto simp: lower_size_def)
  next
    case False
    have k': "0 \<le> k" "k < 256" using assms(3) False by (auto simp: valid_key_def NONE_def)
    have g: "ubit k < LENGTH(8)" using key_split(2)[OF k'] by simp
    have "bits_count (upper src OR push_bit (ubit k) 1) = Suc (bits_count (upper src))"
      using bit_list_set[OF _ g, of "upper src"] False
        arg_cong[OF sorted_split_at[of "bit_list (upper src)" "ubit k"], of length]
      by (simp add: bits_count_eq)
    then show ?thesis using False n(3) by (simp add: lower_size_def)
  qed
qed

text \<open>The two ways of adding a branch agree once the new slot is written.\<close>

lemma wf_layout_offsets:
  assumes "wf_layout T m" "wf_layout T n" "compressed_len m = compressed_len n" "upper m = upper n"
  shows "lower_offset m = lower_offset n" "array_offset m = array_offset n"
proof -
  have "lower_start m = lower_start n" using assms by (simp add: wf_layout_def calc_lower_start_def)
  then show "lower_offset m = lower_offset n"
    by (simp add: lower_start_def sizeof_uint32_e_def word_unat_eq_iff)
  have "array_start m = array_start n"
    using assms \<open>lower_start m = _\<close> by (simp add: wf_layout_def calc_array_start_def)
  then show "array_offset m = array_offset n"
    by (simp add: array_start_def sizeof_offset_e_def word_unat_eq_iff)
qed

lemma branch_added_unique:
  assumes "branch_added k src m i x" "branch_added k src n j y" "wf_layout T m" "wf_layout T n"
  shows "i = j" "m\<lparr>array := (array m)[i := z]\<rparr> = n\<lparr>array := (array n)[j := z]\<rparr>"
proof -
  show ij: "i = j" using assms(1,2) unfolding branch_added_def by simp
  have il: "i \<le> length (array src)" and am: "array m = take i (array src) @ [x] @ drop i (array src)"
    and an: "array n = take i (array src) @ [y] @ drop i (array src)"
    using assms(1,2) ij unfolding branch_added_def by blast+
  have "(array m)[i := z] = (array n)[i := z]"
    unfolding am an using il by (simp add: list_update_append)
  moreover have f: "compressed_len m = compressed_len n" "compressed m = compressed n" "upper m = upper n"
    "lower m = lower n" "array_len m = array_len n"
    using assms(1,2) unfolding branch_added_def by presburger+
  moreover note wf_layout_offsets[OF assms(3,4) f(1,3)]
  ultimately show "m\<lparr>array := (array m)[i := z]\<rparr> = n\<lparr>array := (array n)[j := z]\<rparr>"
    unfolding ij by (intro trie_node.equality) simp_all
qed


section \<open>Fresh nodes\<close>

lemma bit_list_two:
  assumes "i < j" "j < LENGTH('a)"
  shows "bit_list (push_bit i 1 OR push_bit j 1 :: 'a::len word) = [i, j]"
proof -
  have "bit_list (push_bit i 1 :: 'a word) = [i]" using assms by (intro bit_list_push_bit) simp
  moreover have "\<not> bit (push_bit i 1 :: 'a word) j" using assms unfolding push_bit_eq_mult by (simp add: bit_exp_iff)
  ultimately show ?thesis using bit_list_set[of "push_bit i 1 :: 'a word" j] assms by simp
qed

lemma small_counts:
  "unat ((2 :: uint16)) mod 32768 = 2" "unat ((2 OR NULL_MASK :: uint16)) mod 32768 = 2"
  "unat ((1 :: uint16)) mod 32768 = 1" "unat ((1 OR NULL_MASK :: uint16)) mod 32768 = 1"
  by (simp_all add: count_set_flag)

lemma single_bits:
  assumes "0 \<le> k" "k < 256"
  shows "bit_list (push_bit (ubit k) 1 :: uint8) = [ubit k]" "bit_list (push_bit (lbit k) 1 :: uint32) = [lbit k]"
  using key_split(2,3)[OF assms] by (simp_all add: bit_list_push_bit)

lemma ubit_lbit_order:
  assumes "0 \<le> k1" "k1 < 256" "0 \<le> k2" "k2 < 256" "k1 < k2"
  shows "ubit k1 < ubit k2 \<or> ubit k1 = ubit k2 \<and> lbit k1 < lbit k2"
  using assms(5) key_split[OF assms(1,2)] key_split[OF assms(3,4)]
    mkkey_less_iff[of "lbit k1" "lbit k2" "ubit k1" "ubit k2"] by metis

text \<open>The bitmaps of a node for two keys, as \<open>create\<close> computes them.\<close>

definition two_bitmaps :: "int \<Rightarrow> int \<Rightarrow> uint8 \<times> uint32 list" where
  "two_bitmaps k1 k2 =
     (if k1 = NONE then (push_bit (ubit k2) 1, [push_bit (lbit k2) 1])
      else let u = push_bit (ubit k1) 1 OR push_bit (ubit k2) 1
           in (u, if bits_count u = 1 then [push_bit (lbit k1) 1 OR push_bit (lbit k2) 1]
                  else [push_bit (lbit k1) 1, push_bit (lbit k2) 1]))"

lemma two_bitmaps_keys:
  assumes v: "valid_key k1" "valid_key k2" "k1 < k2" and r: "two_bitmaps k1 k2 = (u, ls)"
  shows "(if k1 = NONE then [NONE] else []) @ group_keys (bit_list u) ls = [k1, k2]
    \<and> length ls = bits_count u \<and> 0 \<notin> set ls"
proof -
  have k2: "0 \<le> k2" "k2 < 256" using v by (auto simp: valid_key_def NONE_def)
  note s2 = key_split[OF k2] and b2 = single_bits[OF k2]
  show ?thesis
  proof (cases "k1 = NONE")
    case True
    then show ?thesis
      using r s2(1) b2 by (auto simp: two_bitmaps_def bits_count_eq)
  next
    case False
    then have k1: "0 \<le> k1" "k1 < 256" using v by (auto simp: valid_key_def NONE_def)
    note s1 = key_split[OF k1] and b1 = single_bits[OF k1] and ord = ubit_lbit_order[OF k1 k2 v(3)]
    show ?thesis
    proof (cases "ubit k1 = ubit k2")
      case True
      have bl: "bit_list (push_bit (lbit k1) 1 OR push_bit (lbit k2) 1 :: uint32) = [lbit k1, lbit k2]"
        using True ord s2(3) by (intro bit_list_two) auto
      have u: "u = push_bit (ubit k2) 1" "ls = [push_bit (lbit k1) 1 OR push_bit (lbit k2) 1]"
        using r False True b2 by (auto simp: two_bitmaps_def Let_def bits_count_eq)
      show ?thesis
        using False True s1(1) s2(1) bl b2 unfolding u by (auto simp: bits_count_eq)
    next
      case diff: False
      have bu: "bit_list (push_bit (ubit k1) 1 OR push_bit (ubit k2) 1 :: uint8) = [ubit k1, ubit k2]"
        using diff ord s2(2) by (intro bit_list_two) auto
      have u: "u = push_bit (ubit k1) 1 OR push_bit (ubit k2) 1" "ls = [push_bit (lbit k1) 1, push_bit (lbit k2) 1]"
        using r False bu by (auto simp: two_bitmaps_def Let_def bits_count_eq)
      show ?thesis
        using False s1(1) s2(1) bu b1 b2 unfolding u by (auto simp: bits_count_eq)
    qed
  qed
qed

lemma prefix_len: "length pfx < 256 \<Longrightarrow> unat (word_of_nat (length pfx) :: uint8) = length pfx"
  by (simp add: unsigned_of_nat take_bit_nat_eq_self)

lemma create_keys_fields:
  assumes T: "traits_ok T" and l: "length pfx < 256" and v: "valid_key k1" "valid_key k2" "k1 < k2"
  defines "n \<equiv> fst (create_keys T pfx k1 k2) :: ('o::zero) trie_node"
  shows "two_bitmaps k1 k2 = (upper n, lower n)" "array_len n = (if k1 = NONE then 2 OR NULL_MASK else 2)"
    "compressed n = pfx" "compressed_len n = word_of_nat (length pfx)" "array n = [0, 0]"
    "lower_offset n = word_of_nat (calc_lower_start T n div sizeof_uint32_e)"
    "array_offset n = word_of_nat (calc_array_start n div sizeof_offset_e)"
proof -
  have k2: "0 \<le> k2" "k2 < 256" using v by (auto simp: valid_key_def NONE_def)
  have ns: "\<not> k2 < k1" using v(3) by simp
  show tb: "two_bitmaps k1 k2 = (upper n, lower n)" and al: "array_len n = (if k1 = NONE then 2 OR NULL_MASK else 2)"
    and c: "compressed n = pfx" "compressed_len n = word_of_nat (length pfx)" "array n = [0, 0]"
    and lo: "lower_offset n = word_of_nat (calc_lower_start T n div sizeof_uint32_e)"
    using ns prefix_len[OF l]
    by (auto simp: n_def create_keys_def two_bitmaps_def Let_def set_layout_def calc_lower_start_def
       )
  have ls: "lower_start n = padding (trie_HEADER_SIZE T + length pfx) sizeof_uint32_e"
    using lo lower_fits(1)[OF T refl, of "word_of_nat (length pfx)"] prefix_len[OF l] c(2)
    by (simp add: lower_start_def calc_lower_start_def)
  have len: "length (lower n) = bits_count (upper n)" using two_bitmaps_keys[OF v tb] by simp
  have "array_offset n = word_of_nat (align_size (padding (trie_HEADER_SIZE T + length pfx) sizeof_uint32_e
      + length (lower n) * sizeof_uint32_e) div sizeof_offset_e)"
    using ns prefix_len[OF l] by (auto simp: n_def create_keys_def Let_def set_layout_def mult_2)
  then show "array_offset n = word_of_nat (calc_array_start n div sizeof_offset_e)"
    by (simp add: calc_array_start_def ls len)
qed

lemma create_keys_sorted:
  assumes T: "traits_ok T" and l: "length pfx < 256" and v: "valid_key k1" "valid_key k2" "k1 < k2"
  defines "n \<equiv> fst (create_keys T pfx k1 k2) :: ('o::zero) trie_node"
  shows "wf_node T n" "node_keys n = [k1, k2]"
proof -
  note f = create_keys_fields[OF T l v, where 'o = 'o, folded n_def]
  note b = two_bitmaps_keys[OF v f(1)]
  have hn: "has_none n \<longleftrightarrow> k1 = NONE" unfolding has_none_unat f by (simp add: count_set_flag)
  show nk: "node_keys n = [k1, k2]" using b hn by (simp add: node_keys_def)
  have "node_count n = 2" unfolding node_count_mod f by (simp add: small_counts)
  then have "wf_bitmaps n" using b nk f(5) by (simp add: wf_bitmaps_def)
  moreover have "wf_layout T n"
    by (rule wf_layoutI[OF T _ f(6,7)]) (use f prefix_len[OF l] in simp)
  ultimately show "wf_node T n" by (simp add: wf_node_def)
qed

text \<open>Given in descending order, the keys are swapped and the two indices with them.\<close>

lemma create_keys_swap:
  fixes T pfx k1 k2
  defines "r a b \<equiv> create_keys T pfx a b :: ('o::zero) trie_node \<times> (nat \<times> nat)"
  shows "k2 < k1 \<Longrightarrow> fst (r k1 k2) = fst (r k2 k1)" "snd (r k1 k2) = (if k2 < k1 then (1, 0) else (0, 1))"
  by (auto simp: r_def create_keys_def Let_def)

lemma create_keys_eq:
  assumes T: "traits_ok T" and l: "length pfx < 256" and v: "valid_key k1" "valid_key k2" "k1 \<noteq> k2"
  defines "n \<equiv> fst (create_keys T pfx k1 k2) :: ('o::zero) trie_node"
  shows "wf_node T n" "node_keys n = [min k1 k2, max k1 k2]" "array n = [0, 0]" "compressed n = pfx"
    "compressed_len n = word_of_nat (length pfx)"
    "snd (create_keys T pfx k1 k2 :: 'o trie_node \<times> _) = (if k2 < k1 then (1, 0) else (0, 1))"
proof -
  have "wf_node T n \<and> node_keys n = [min k1 k2, max k1 k2] \<and> array n = [0, 0] \<and> compressed n = pfx
    \<and> compressed_len n = word_of_nat (length pfx)"
  proof (cases "k1 < k2")
    case True
    then show ?thesis
      using create_keys_sorted[OF T l v(1,2) True, where 'o = 'o] create_keys_fields[OF T l v(1,2) True, where 'o = 'o]
      by (simp add: n_def)
  next
    case False
    then have lt: "k2 < k1" using v(3) by simp
    then show ?thesis
      using create_keys_sorted[OF T l v(2,1) lt, where 'o = 'o] create_keys_fields[OF T l v(2,1) lt, where 'o = 'o]
        create_keys_swap(1)[OF lt, of T pfx, where 'o = 'o]
      by (simp add: n_def)
  qed
  then show "wf_node T n" "node_keys n = [min k1 k2, max k1 k2]" "array n = [0, 0]" "compressed n = pfx"
    "compressed_len n = word_of_nat (length pfx)" by auto
  show "snd (create_keys T pfx k1 k2 :: 'o trie_node \<times> _) = (if k2 < k1 then (1, 0) else (0, 1))"
    by (rule create_keys_swap(2))
qed


lemma create_key_eq:
  assumes T: "traits_ok T" and l: "length pfx < 256" and v: "valid_key k"
  defines "n \<equiv> fst (create_key T pfx k) :: ('o::zero) trie_node"
  shows "wf_node T n" "node_keys n = [k]" "array n = [0]" "compressed n = pfx"
proof -
  have ul: "unat (word_of_nat (length pfx) :: uint8) = length pfx" by (rule prefix_len[OF l])
  have f: "compressed n = pfx" "compressed_len n = word_of_nat (length pfx)" "array n = [0]"
    "array_len n = (if k = NONE then 1 OR NULL_MASK else 1)"
    "upper n = (if k = NONE then 0 else push_bit (ubit k) 1)"
    "lower n = (if k = NONE then [] else [push_bit (lbit k) 1])"
    "lower_offset n = word_of_nat (calc_lower_start T n div sizeof_uint32_e)"
    using ul by (auto simp: n_def create_key_def Let_def set_layout_def calc_lower_start_def)
  have b: "k \<noteq> NONE \<Longrightarrow> bit_list (push_bit (ubit k) 1 :: uint8) = [ubit k] \<and> bit_list (push_bit (lbit k) 1 :: uint32) = [lbit k]
      \<and> mkkey (ubit k) (lbit k) = k"
    using single_bits[of k] key_split(1)[of k] v by (auto simp: valid_key_def NONE_def)
  have hn: "has_none n \<longleftrightarrow> k = NONE" unfolding has_none_unat f by (simp add: count_set_flag)
  show nk: "node_keys n = [k]" unfolding node_keys_def hn f using b by (auto)
  have len: "length (lower n) = bits_count (upper n)" using b unfolding f by (auto simp: bits_count_eq)
  have "0 \<notin> set (lower n)" unfolding f using b by (auto)
  moreover have "node_count n = 1" unfolding node_count_mod f by (simp add: small_counts)
  ultimately have "wf_bitmaps n" using len nk f(3) by (simp add: wf_bitmaps_def)
  moreover have "wf_layout T n"
  proof (rule wf_layoutI[OF T _ f(7)])
    have ls: "lower_start n = padding (trie_HEADER_SIZE T + length pfx) sizeof_uint32_e"
      using f(7) lower_fits(1)[OF T refl, of "word_of_nat (length pfx)"] ul f(2)
      by (simp add: lower_start_def calc_lower_start_def)
    have "array_offset n = word_of_nat (align_size (padding (trie_HEADER_SIZE T + length pfx) sizeof_uint32_e
        + length (lower n) * sizeof_uint32_e) div sizeof_offset_e)"
      using ul by (auto simp: n_def create_key_def Let_def set_layout_def)
    then show "array_offset n = word_of_nat (calc_array_start n div sizeof_offset_e)"
      by (simp add: calc_array_start_def ls len)
  qed (use f ul in simp)
  ultimately show "wf_node T n" by (simp add: wf_node_def)
  show "array n = [0]" "compressed n = pfx" by (rule f)+
qed

lemma create_prefix_eq:
  assumes T: "traits_ok T" and l: "length pfx < 256" and wf: "wf_bitmaps src"
  defines "n \<equiv> create_prefix T src pfx"
  shows "wf_node T n" "node_keys n = node_keys src" "array n = array src" "compressed n = pfx"
    "node_size n = changed_len T src (length pfx)"
proof -
  have ul: "unat (word_of_nat (length pfx) :: uint8) = length pfx" by (rule prefix_len[OF l])
  have s: "length (lower src) = bits_count (upper src)" "0 \<notin> set (lower src)"
    "node_count src = length (node_keys src)" "length (array src) = node_count src"
    using wf by (auto simp: wf_bitmaps_def)
  have f: "compressed n = pfx" "compressed_len n = word_of_nat (length pfx)" "array n = array src"
    "array_len n = array_len src" "upper n = upper src" "lower n = lower src"
    using ul s by (auto simp: n_def create_prefix_def Let_def)
  show nk: "node_keys n = node_keys src" by (simp add: node_keys_def has_none_def f)
  have nc: "node_count n = node_count src" by (simp add: node_count_def f)
  have "wf_bitmaps n" unfolding wf_bitmaps_def nk nc f using s by simp
  moreover have "wf_layout T n"
    by (rule wf_layoutI[OF T])
      (use ul s in \<open>auto simp: n_def create_prefix_def Let_def calc_lower_start_def calc_array_start_def lower_start_def\<close>)
  ultimately show w: "wf_node T n" by (simp add: wf_node_def)
  show "array n = array src" "compressed n = pfx" by (rule f)+
  have "lower_size n = lower_size src" by (simp add: lower_size_def f)
  then show "node_size n = changed_len T src (length pfx)"
    using node_size_layout(1)[OF T w] ul f(2) nc by (simp add: changed_len_def array_size_def)
qed

lemma two_bitmaps_groups:
  assumes v: "valid_key k1" "valid_key k2" "k1 < k2" and r: "two_bitmaps k1 k2 = (u, ls)"
  shows "bits_count u = (if k1 = NONE \<or> ubit k1 = ubit k2 then 1 else 2)"
proof -
  have k2: "0 \<le> k2" "k2 < 256" using v by (auto simp: valid_key_def NONE_def)
  have g: "ubit k1 < ubit k2" if "k1 \<noteq> NONE" "ubit k1 \<noteq> ubit k2"
    using ubit_lbit_order[OF _ _ k2 v(3)] that v(1) by (auto simp: valid_key_def NONE_def)
  have "k1 \<noteq> NONE \<Longrightarrow> ubit k1 \<noteq> ubit k2 \<Longrightarrow>
      bit_list (push_bit (ubit k1) 1 OR push_bit (ubit k2) 1 :: uint8) = [ubit k1, ubit k2]"
    using g key_split(2)[OF k2] by (intro bit_list_two) auto
  then show ?thesis
    using r single_bits(1)[OF k2]
    by (cases "k1 = NONE"; cases "ubit k1 = ubit k2") (auto simp: two_bitmaps_def Let_def bits_count_eq)
qed

lemma create_keys_size:
  assumes T: "traits_ok T" and l: "length pfx < 256" and v: "valid_key k1" "valid_key k2" "k1 \<noteq> k2"
  shows "node_size (fst (create_keys T pfx k1 k2) :: ('o::zero) trie_node) = trie_size_keys T (length pfx) k1 k2"
proof -
  have asc: "node_size (fst (create_keys T pfx a b) :: 'o trie_node) = trie_size_keys T (length pfx) a b"
    if ab: "valid_key a" "valid_key b" "a < b" for a b
  proof -
    let ?n = "fst (create_keys T pfx a b) :: 'o trie_node"
    note f = create_keys_fields[OF T l ab, where 'o = 'o] and w = create_keys_sorted[OF T l ab, where 'o = 'o]
    have bc: "bits_count (upper ?n) = (if a = NONE \<or> ubit a = ubit b then 1 else 2)"
      by (rule two_bitmaps_groups[OF ab f(1)])
    have "node_count ?n = 2" using w by (simp add: wf_node_def wf_bitmaps_def)
    moreover have "array_start ?n = align_size (padding (trie_HEADER_SIZE T + length pfx) sizeof_uint32_e
        + bits_count (upper ?n) * sizeof_uint32_e)"
      using w(1) prefix_len[OF l] f(4) by (simp add: wf_node_def wf_layout_def calc_array_start_def calc_lower_start_def)
    moreover have "b \<noteq> NONE" using ab by (auto simp: valid_key_def NONE_def)
    ultimately show ?thesis
      using bc by (simp add: node_size_def array_end_def array_size_def trie_size_keys_def Let_def)
  qed
  show ?thesis
  proof (cases "k1 < k2")
    case True
    then show ?thesis by (rule asc[OF v(1,2)])
  next
    case False
    then have lt: "k2 < k1" using v(3) by simp
    have "trie_size_keys T (length pfx) k1 k2 = trie_size_keys T (length pfx) k2 k1"
      by (auto simp: trie_size_keys_def Let_def)
    then show ?thesis using asc[OF v(2,1) lt] create_keys_swap(1)[OF lt, of T pfx, where 'o = 'o] by simp
  qed
qed

section \<open>Bulk construction\<close>

lemma bulk_group_eq:
  "bulk_group offsets base =
    (let js = filter (\<lambda>j. offsets (base + int j) \<noteq> 0) [0..<32]
     in (fold (\<lambda>j w. w OR push_bit j 1) js 0, map (\<lambda>j. offsets (base + int j)) js))"
proof -
  have "fold (\<lambda>j (lbits :: uint32, arr). if offsets (base + int j) \<noteq> 0
        then (lbits OR push_bit j 1, arr @ [offsets (base + int j)]) else (lbits, arr)) xs (w, arr)
    = (fold (\<lambda>j w. w OR push_bit j 1) (filter (\<lambda>j. offsets (base + int j) \<noteq> 0) xs) w,
       arr @ map (\<lambda>j. offsets (base + int j)) (filter (\<lambda>j. offsets (base + int j) \<noteq> 0) xs))" for xs w arr
    by (induction xs arbitrary: w arr) auto
  then show ?thesis by (simp add: bulk_group_def Let_def)
qed

lemma bit_fold_or:
  fixes w :: "'a::len word"
  shows "bit (fold (\<lambda>j w. w OR push_bit j 1) js w) i \<longleftrightarrow> bit w i \<or> (i < LENGTH('a) \<and> i \<in> set js)"
  unfolding push_bit_eq_mult by (induction js arbitrary: w) (auto simp: bit_or_iff bit_exp_iff)

lemma bit_list_fold_or:
  "bit_list (fold (\<lambda>j w. w OR push_bit j 1) (filter P [0..<32]) (0 :: uint32)) = filter P [0..<32]"
proof -
  have "bit (fold (\<lambda>j w. w OR push_bit j 1) (filter P [0..<32]) (0 :: uint32)) i \<longleftrightarrow> i < 32 \<and> P i" for i
    by (auto simp: bit_fold_or)
  then show ?thesis unfolding bit_list_def by (intro filter_cong) auto
qed

definition group_links :: "(int \<Rightarrow> 'o::zero) \<Rightarrow> nat \<Rightarrow> nat list" where
  "group_links offsets g = filter (\<lambda>j. offsets (mkkey g j) \<noteq> 0) [0..<32]"

lemma bulk_group_links:
  assumes "bulk_group offsets (push_bit 5 (int g)) = (w, links)"
  shows "bit_list w = group_links offsets g" "links = map (\<lambda>j. offsets (mkkey g j)) (group_links offsets g)"
proof -
  have m: "push_bit 5 (int g) + int j = mkkey g j" for j
    by (simp add: mkkey_def push_bit_eq_mult)
  show "bit_list w = group_links offsets g"
    using assms bit_list_fold_or[of "\<lambda>j. offsets (mkkey g j) \<noteq> 0"]
    unfolding bulk_group_eq Let_def m group_links_def by (auto)
  show "links = map (\<lambda>j. offsets (mkkey g j)) (group_links offsets g)"
    using assms unfolding bulk_group_eq Let_def m group_links_def by (auto)
qed


lemma bits_index_nth:
  assumes "d < length (bit_list (u :: uint8))"
  shows "bits_index u (bit_list u ! d) = d"
  using length_filter_less_nth[OF sorted_bit_list distinct_bit_list assms] by (simp add: bits_index_eq)

lemma bulk_groups_eq:
  assumes "bit_list rm = drop d (bit_list up)" "length low = length (bit_list up)"
  shows "bulk_groups offsets up rm (low, arr) =
    (take d low @ map (\<lambda>g. fst (bulk_group offsets (push_bit 5 (int g)))) (drop d (bit_list up)),
     arr @ concat (map (\<lambda>g. snd (bulk_group offsets (push_bit 5 (int g)))) (drop d (bit_list up))))"
  using assms
proof (induction offsets up rm "(low, arr)" arbitrary: low arr d rule: bulk_groups.induct)
  case (1 offsets up rm low arr)
  show ?case
  proof (cases "rm = 0")
    case True
    then show ?thesis using 1(2,3) by (subst bulk_groups.simps) simp
  next
    case False
    have d: "d < length (bit_list up)" using 1(2) False by (metis bit_list_empty_iff drop_all not_less)
    have dr: "drop d (bit_list up) = bit_list up ! d # drop (Suc d) (bit_list up)"
      using d by (simp add: Cons_nth_drop_Suc)
    let ?g = "bit_list up ! d"
    obtain w links where bg: "bulk_group offsets (push_bit 5 (int ?g)) = (w, links)" by force
    have f: "bits_first (native8 rm) = int ?g"
      using False 1(2) dr by (simp add: bits_first_eq bit_list_native8)
    have tl: "bit_list (rm AND (rm - 1)) = drop (Suc d) (bit_list up)"
      using bit_list_blsr[OF False] 1(2) dr by simp
    have ix: "bits_index (native8 up) ?g = d" using bits_index_nth[OF d] by simp
    have "bulk_groups offsets up (rm AND (rm - 1)) (low[d := w], arr @ links) =
      (take (Suc d) (low[d := w]) @ map (\<lambda>g. fst (bulk_group offsets (push_bit 5 (int g)))) (drop (Suc d) (bit_list up)),
       (arr @ links) @ concat (map (\<lambda>g. snd (bulk_group offsets (push_bit 5 (int g)))) (drop (Suc d) (bit_list up))))"
      by (rule 1(1)[OF False refl, unfolded f, OF bg[symmetric] refl, unfolded nat_int ix, OF tl])
        (use 1(3) in simp)
    moreover have "take (Suc d) (low[d := w]) = take d low @ [w]"
      using d 1(3) by (simp add: take_Suc_conv_app_nth)
    ultimately show ?thesis
      unfolding dr using False f bg ix by (subst bulk_groups.simps) simp
  qed
qed

lemma group_keys_map:
  "group_keys gs (map lb gs) = concat (map (\<lambda>g. map (mkkey g) (bit_list (lb g))) gs)"
  by (induction gs) auto

definition bulk_keys :: "(int \<Rightarrow> 'o::zero) \<Rightarrow> int list" where
  "bulk_keys offsets = filter (\<lambda>k. offsets k \<noteq> 0) [-1..255]"

lemma create_bulk_groups:
  assumes "\<forall>g<8. bit up g \<longleftrightarrow> group_links offsets g \<noteq> []"
    and "bulk_groups offsets up up (replicate (bits_count up) 0, []) = (low, arr)"
  shows "length low = bits_count up" "0 \<notin> set low" "arr = map offsets (group_keys (bit_list up) low)"
    "group_keys (bit_list up) low = filter (\<lambda>k. offsets k \<noteq> 0) [0..255]"
proof -
  define lb where "lb g = fst (bulk_group offsets (push_bit 5 (int g)))" for g
  let ?gs = "bit_list up"
  have "length (replicate (bits_count up) (0 :: uint32)) = length ?gs" by (simp add: bits_count_eq)
  note e = bulk_groups_eq[OF _ this, of up 0 offsets "[]", folded lb_def]
  have low: "low = map lb ?gs" and arr: "arr = concat (map (\<lambda>g. snd (bulk_group offsets (push_bit 5 (int g)))) ?gs)"
    using e assms(2) by simp_all
  have bl: "bit_list (lb g) = group_links offsets g" "snd (bulk_group offsets (push_bit 5 (int g))) = map (\<lambda>j. offsets (mkkey g j)) (group_links offsets g)" for g
    using bulk_group_links[of offsets g "lb g" "snd (bulk_group offsets (push_bit 5 (int g)))"] by (simp_all add: lb_def)
  show len: "length low = bits_count up" by (simp add: low bits_count_eq)
  show "0 \<notin> set low"
  proof
    assume "0 \<in> set low"
    then obtain g where "bit up g" "lb g = 0" by (auto simp: low)
    moreover have "g < 8" using \<open>bit up g\<close> bit_less_length by fastforce
    ultimately show False using assms(1) bl(1)[of g] by simp
  qed
  have gk: "group_keys ?gs low = concat (map (\<lambda>g. map (mkkey g) (group_links offsets g)) ?gs)"
    by (simp add: low group_keys_map bl)
  show "arr = map offsets (group_keys ?gs low)" unfolding arr gk bl by (simp add: map_concat comp_def)
  have len': "length ?gs = length low" by (simp add: low)
  have "set (group_keys ?gs low) = set (filter (\<lambda>k. offsets k \<noteq> 0) [0..255])"
  proof (rule set_eqI)
    fix k
    have "k \<in> set (group_keys ?gs low) \<longleftrightarrow> (\<exists>g j. bit up g \<and> j < 32 \<and> offsets (mkkey g j) \<noteq> 0 \<and> k = mkkey g j)"
      unfolding gk by (auto simp: group_links_def)
    also have "\<dots> \<longleftrightarrow> 0 \<le> k \<and> k \<le> 255 \<and> offsets k \<noteq> 0"
    proof
      assume "\<exists>g j. bit up g \<and> j < 32 \<and> offsets (mkkey g j) \<noteq> 0 \<and> k = mkkey g j"
      then obtain g j where k: "bit up g" "j < 32" "offsets (mkkey g j) \<noteq> 0" "k = mkkey g j" by blast
      then have "g < 8" using bit_less_length by fastforce
      then show "0 \<le> k \<and> k \<le> 255 \<and> offsets k \<noteq> 0" using k mkkey_bounds[of g j] by simp
    next
      assume k: "0 \<le> k \<and> k \<le> 255 \<and> offsets k \<noteq> 0"
      then have "0 \<le> k" "k < 256" by auto
      note ks = key_split[OF this]
      then have "lbit k \<in> set (group_links offsets (ubit k))" using k by (simp add: group_links_def)
      then have "bit up (ubit k)" using assms(1) ks(2) by force
      then show "\<exists>g j. bit up g \<and> j < 32 \<and> offsets (mkkey g j) \<noteq> 0 \<and> k = mkkey g j" using ks k by metis
    qed
    finally show "k \<in> set (group_keys ?gs low) \<longleftrightarrow> k \<in> set (filter (\<lambda>k. offsets k \<noteq> 0) [0..255])" by auto
  qed
  moreover have "sorted_wrt (<) (group_keys ?gs low)" by (rule sorted_group_keys[OF len' sorted_upper])
  moreover have "sorted_wrt (<) (filter (\<lambda>k. offsets k \<noteq> 0) [0..255])" by (simp add: sorted_wrt_filter strict_sorted_iff sorted_filter)
  ultimately show "group_keys ?gs low = filter (\<lambda>k. offsets k \<noteq> 0) [0..255]"
    by (metis strict_sorted_iff sorted_distinct_set_unique)
qed


lemma bulk_count:
  assumes "m \<le> 256"
  shows "unat ((if none then 1 OR NULL_MASK else 0) + word_of_nat m :: uint16) =
    (if none then 32769 else 0) + m"
proof -
  have "unat (1 OR NULL_MASK) = 32769" by (simp add: NULL_MASK_def push_bit_of_1)
  moreover have "unat (word_of_nat m :: uint16) = m" using assms by (simp add: unsigned_of_nat take_bit_nat_eq_self)
  ultimately show ?thesis using assms by (simp add: unat_word_ariths)
qed

lemma create_bulk_eq:
  assumes T: "traits_ok T" and l: "length pfx < 256"
    and up: "\<forall>g<8. bit up g \<longleftrightarrow> group_links offsets g \<noteq> []"
  defines "n \<equiv> create_bulk T pfx offsets up"
  shows "wf_node T n" "node_keys n = bulk_keys offsets" "array n = map offsets (bulk_keys offsets)" "compressed n = pfx"
proof -
  obtain low arr where g: "bulk_groups offsets up up (replicate (bits_count up) 0, []) = (low, arr)" by force
  note b = create_bulk_groups[OF up g]
  have ul: "unat (word_of_nat (length pfx) :: uint8) = length pfx" by (rule prefix_len[OF l])
  have f: "compressed n = pfx" "compressed_len n = word_of_nat (length pfx)" "upper n = up" "lower n = low"
    "array n = (if offsets NONE \<noteq> 0 then [offsets NONE] else []) @ arr"
    "array_len n = (if offsets NONE \<noteq> 0 then 1 OR NULL_MASK else 0) + word_of_nat (length arr)"
    "lower_offset n = word_of_nat (calc_lower_start T n div sizeof_uint32_e)"
    "array_offset n = word_of_nat (calc_array_start n div sizeof_offset_e)"
    using g ul by (simp_all add: n_def create_bulk_def Let_def calc_lower_start_def calc_array_start_def lower_start_def)
  have "length (filter (\<lambda>k. offsets k \<noteq> 0) [0..255]) \<le> length [0..255]" by (rule length_filter_le)
  then have la: "length arr \<le> 256" using b(3,4) by simp
  note cnt = bulk_count[OF la, of "offsets NONE \<noteq> 0"]
  have hn: "has_none n \<longleftrightarrow> offsets NONE \<noteq> 0" unfolding has_none_unat f(6) cnt using la by simp
  have "(32769 + length arr) mod 32768 = Suc (length arr)" using la by (simp add: le_mod_geq)
  then have nc: "node_count n = of_bool (offsets NONE \<noteq> 0) + length arr" unfolding node_count_mod f(6) cnt using la by simp
  have u: "[-1..255] = NONE # [0..255::int]" by (simp add: NONE_def upto_rec1)
  show nk: "node_keys n = bulk_keys offsets"
    unfolding node_keys_def hn f b(4) bulk_keys_def u by simp
  show ar: "array n = map offsets (bulk_keys offsets)"
    unfolding f(5) b(3,4) bulk_keys_def u by simp
  have "wf_bitmaps n"
    unfolding wf_bitmaps_def nk nc ar f(3,4) using b(1-4) by (simp add: bulk_keys_def u)
  moreover have "wf_layout T n" by (rule wf_layoutI[OF T _ f(7,8)]) (use f ul in simp)
  ultimately show "wf_node T n" by (simp add: wf_node_def)
  show "compressed n = pfx" by (rule f)
qed

lemma branch_removed_counts:
  assumes "wf_bitmaps src" "length (compressed src) = unat (compressed_len src)" "k \<in> set (node_keys src)"
  shows "node_count (create_remove T src k) = node_count src - 1"
    and "lower_size (create_remove T src k) = lower_size src -
      (if k \<noteq> NONE \<and> bits_isset (native8 (upper src)) (ubit k)
          \<and> bits_count (lower src ! bits_index (native8 (upper src)) (ubit k)) = 1
       then sizeof_uint32_e else 0)"
proof -
  let ?n = "create_remove T src k"
  have r: "branch_removed k src ?n" by (rule create_remove_fields[OF assms])
  then have "wf_bitmaps ?n" "node_keys ?n = remove_key k (node_keys src)" unfolding branch_removed_def by blast+
  then show "node_count ?n = node_count src - 1"
    using assms(1) length_remove_key[OF assms(3) distinct_node_keys[OF assms(1)]] by (simp add: wf_bitmaps_def)
  show "lower_size ?n = lower_size src -
      (if k \<noteq> NONE \<and> bits_isset (native8 (upper src)) (ubit k)
          \<and> bits_count (lower src ! bits_index (native8 (upper src)) (ubit k)) = 1
       then sizeof_uint32_e else 0)"
  proof (cases "k = NONE")
    case True
    then show ?thesis by (simp add: create_remove_def Let_def lower_size_def)
  next
    case False
    let ?l = "lower src ! bits_index (upper src) (ubit k)"
    have "node_isset src k" using assms valid_node_keys node_isset_iff by blast
    then have g: "bit (upper src) (ubit k)" and j: "bit ?l (lbit k)"
      using False by (auto simp: node_isset_def push_bit_of_1 and_exp_eq_0_iff_not_bit)
    have z: "?l AND NOT (push_bit (lbit k) 1) = 0 \<longleftrightarrow> bits_count ?l = 1"
      using bits_count_clear[OF j] by (metis One_nat_def bit_list_empty_iff bits_count_eq length_0_conv nat.inject)
    have "upper ?n = (if bits_count ?l = 1 then upper src AND NOT (push_bit (ubit k) 1) else upper src)"
      using False z by (simp add: create_remove_def Let_def)
    then show ?thesis
      using False g bits_count_clear[OF g] by (simp add: lower_size_def)
  qed
qed


section \<open>Nodes as finite maps\<close>

text \<open>A node stands for the finite map from its branch keys to their links.\<close>

definition branches :: "('o, 'z) trie_node_scheme \<Rightarrow> int \<rightharpoonup> 'o" where
  "branches n = map_of (zip (node_keys n) (array n))"

lemma sorted_keys_split:
  assumes "sorted_wrt (<) (ks :: int list)"
  shows "filter (\<lambda>x. x < k) ks = take (length (filter (\<lambda>x. x < k) ks)) ks"
    and "filter (\<lambda>x. k < x) ks = drop (length (filter (\<lambda>x. x < k) ks) + of_bool (k \<in> set ks)) ks"
proof -
  have "ks = filter (\<lambda>x. x < k) ks @ (if k \<in> set ks then [k] else []) @ filter (\<lambda>x. k < x) ks"
    using assms
  proof (induction ks)
    case (Cons a ks)
    consider "a < k" | "a = k" | "k < a" by linarith
    then show ?case
    proof cases
      case 1 then show ?thesis using Cons by auto
    next
      case 2
      have "filter (\<lambda>x. x < k) ks = []" "filter (\<lambda>x. k < x) ks = ks" "k \<notin> set ks"
        using 2 Cons.prems by (auto simp: filter_empty_conv filter_id_conv)
      then show ?thesis using 2 by simp
    next
      case 3
      have "filter (\<lambda>x. x < k) ks = []" "filter (\<lambda>x. k < x) ks = ks" "k \<notin> set ks"
        using 3 Cons.prems by (auto simp: filter_empty_conv filter_id_conv)
      then show ?thesis using 3 by simp
    qed
  qed simp
  then have e: "ks = filter (\<lambda>x. x < k) ks @ (if k \<in> set ks then [k] else []) @ filter (\<lambda>x. k < x) ks" .
  show "filter (\<lambda>x. x < k) ks = take (length (filter (\<lambda>x. x < k) ks)) ks"
    using e by (metis append_eq_conv_conj)
  show "filter (\<lambda>x. k < x) ks = drop (length (filter (\<lambda>x. x < k) ks) + of_bool (k \<in> set ks)) ks"
    by (subst (3) e) simp
qed

lemma map_of_zip_split:
  assumes "i \<le> length ks" "length ks = length xs"
  shows "map_of (zip ks xs) = map_of (zip (drop i ks) (drop i xs)) ++ map_of (zip (take i ks) (take i xs))"
proof -
  have "zip ks xs = zip (take i ks) (take i xs) @ zip (drop i ks) (drop i xs)"
    using assms by (metis append_take_drop_id drop_zip take_zip)
  then show ?thesis by simp
qed

lemma map_middle:
  "A k = None \<Longrightarrow> B(k \<mapsto> x) ++ A = (B ++ A)(k \<mapsto> x)"
  "A k = None \<Longrightarrow> B k = None \<Longrightarrow> (B(k \<mapsto> x) ++ A)(k := None) = B ++ A"
  by (auto simp: fun_eq_iff map_add_def split: option.splits)

lemma map_of_zip_append:
  "length ks = length xs \<Longrightarrow> map_of (zip (ks @ ks') (xs @ xs')) = map_of (zip ks' xs') ++ map_of (zip ks xs)"
  by simp

lemma branches_added:
  assumes wf: "wf_bitmaps src" and k: "k \<notin> set (node_keys src)" and b: "branch_added k src n i x"
  shows "branches n = (branches src)(k \<mapsto> x)"
proof -
  let ?ks = "node_keys src"
  have a: "array n = take i (array src) @ [x] @ drop i (array src)" and i: "i = length (filter (\<lambda>y. y < k) ?ks)"
    and nk: "node_keys n = insert_key k ?ks" using b unfolding branch_added_def by blast+
  have len: "length ?ks = length (array src)" using wf by (simp add: wf_bitmaps_def)
  have il: "i \<le> length ?ks" unfolding i by simp
  have nk': "node_keys n = take i ?ks @ [k] @ drop i ?ks"
    using sorted_keys_split[OF sorted_node_keys[OF wf], of k] k i unfolding nk insert_key_def by simp
  have nt: "k \<notin> set (take i ?ks)" using k by (auto dest: in_set_takeD)
  have "map_of (zip (take i ?ks) (take i (array src))) k = None"
    using nt by (auto simp: map_of_eq_None_iff dest: set_zip_leftD)
  then have mid: "B(k \<mapsto> x) ++ map_of (zip (take i ?ks) (take i (array src)))
      = (B ++ map_of (zip (take i ?ks) (take i (array src))))(k \<mapsto> x)" for B
    by (rule map_middle(1))
  show ?thesis
    unfolding branches_def nk' a map_of_zip_split[OF il len]
    using il len mid by simp
qed

lemma branches_removed:
  assumes wf: "wf_bitmaps src" and k: "k \<in> set (node_keys src)" and b: "branch_removed k src n"
  shows "branches n = (branches src)(k := None)"
proof -
  let ?ks = "node_keys src"
  obtain i where i: "i = length (filter (\<lambda>y. y < k) ?ks)" "i < length (array src)"
    and a: "array n = take i (array src) @ drop (Suc i) (array src)" and nk: "node_keys n = remove_key k ?ks"
    using b unfolding branch_removed_def by blast
  have len: "length ?ks = length (array src)" using wf by (simp add: wf_bitmaps_def)
  have nk': "node_keys n = take i ?ks @ drop (Suc i) ?ks"
    using sorted_keys_split[OF sorted_node_keys[OF wf], of k] k i unfolding nk remove_key_def by simp
  have ki: "?ks ! i = k"
  proof -
    obtain j where "j < length ?ks" "?ks ! j = k" using k by (auto simp: in_set_conv_nth)
    then show ?thesis
      using length_filter_less_nth[of ?ks j] sorted_node_keys[OF wf] distinct_node_keys[OF wf] i(1)
      by (simp add: strict_sorted_iff)
  qed
  have sp: "?ks = take i ?ks @ k # drop (Suc i) ?ks" using i len ki by (metis id_take_nth_drop)
  have d: "distinct (take i ?ks @ k # drop (Suc i) ?ks)" using distinct_node_keys[OF wf] sp by metis
  have xs: "array src = take i (array src) @ array src ! i # drop (Suc i) (array src)"
    using i by (simp add: id_take_nth_drop)
  let ?A = "map_of (zip (take i ?ks) (take i (array src)))"
    and ?B = "map_of (zip (drop (Suc i) ?ks) (drop (Suc i) (array src)))"
  have "branches src = map_of (zip (take i ?ks @ k # drop (Suc i) ?ks) (take i (array src) @ array src ! i # drop (Suc i) (array src)))"
    unfolding branches_def using sp xs by metis
  also have "\<dots> = ?B(k \<mapsto> array src ! i) ++ ?A" using i len by (subst map_of_zip_append) simp_all
  finally have "branches src = ?B(k \<mapsto> array src ! i) ++ ?A" .
  moreover have "?A k = None" "?B k = None" using d by (auto simp: map_of_eq_None_iff dest: set_zip_leftD)
  moreover have "branches n = ?B ++ ?A"
    unfolding branches_def nk' a by (rule map_of_zip_append) (use i len in simp)
  ultimately show ?thesis using map_middle(2) by metis
qed

lemma branches_eq_nth:
  assumes wf: "wf_bitmaps n" and k: "k \<in> set (node_keys n)"
  shows "branches n k = Some (array n ! length (filter (\<lambda>y. y < k) (node_keys n)))"
proof -
  let ?ks = "node_keys n"
  obtain j where j: "j < length ?ks" "?ks ! j = k" using k by (auto simp: in_set_conv_nth)
  then have "length (filter (\<lambda>y. y < k) ?ks) = j"
    using length_filter_less_nth[of ?ks j] sorted_node_keys[OF wf] distinct_node_keys[OF wf]
    by (simp add: strict_sorted_iff)
  moreover have "length ?ks = length (array n)" using wf by (simp add: wf_bitmaps_def)
  ultimately show ?thesis
    using j map_of_zip_nth[of ?ks "array n" j] distinct_node_keys[OF wf] by (simp add: branches_def)
qed

lemma dom_branches: "wf_bitmaps n \<Longrightarrow> dom (branches n) = set (node_keys n)"
  by (simp add: branches_def wf_bitmaps_def)


section \<open>Properties\<close>

text \<open>
  C21. On every well-formed node and every branch key, \<open>isset\<close> decides whether the key is a
  branch of the node, \<open>offset\<close> returns exactly the link the node's map holds for it (and no
  link when there is none), and \<open>array_index\<close> is the rank of the key among the branches.
\<close>

theorem node_lookup_correct:
  assumes "wf_node T n" "valid_key k"
  shows "(node_isset n k \<longleftrightarrow> k \<in> dom (branches n)) \<and> node_offset n k = branches n k
    \<and> array_index n k =
        (if k \<in> dom (branches n) then int (card {x \<in> dom (branches n). x < k}) else -1)"
proof -
  have wf: "wf_bitmaps n" using assms(1) by (simp add: wf_node_def)
  note d = dom_branches[OF wf] and ix = array_index_eq[OF wf assms(2)]
  have "branches n k = None" if "k \<notin> set (node_keys n)" using that unfolding d[symmetric] by blast
  then have "node_offset n k = branches n k"
    using branches_eq_nth[OF wf] ix by (auto simp: node_offset_def Let_def)
  moreover have "card {x \<in> dom (branches n). x < k} = length (filter (\<lambda>x. x < k) (node_keys n))"
    unfolding d using distinct_card[OF distinct_filter[OF distinct_node_keys[OF wf]], of "\<lambda>x. x < k"] by simp
  ultimately show ?thesis using ix d node_isset_iff[OF wf assms(2)] by simp
qed

lemma create_add_wf:
  assumes "traits_ok T" "wf_node T src" "valid_key k" "k \<notin> set (node_keys src)"
  shows "wf_node T (fst (create_add T src k))"
    "branch_added k src (fst (create_add T src k)) (snd (create_add T src k)) 0"
proof -
  have w: "wf_bitmaps src" "length (compressed src) = unat (compressed_len src)"
    using assms(2) by (simp_all add: wf_node_def wf_layout_def)
  show b: "branch_added k src (fst (create_add T src k)) (snd (create_add T src k)) 0"
    by (rule create_add_fields[OF w assms(3,4)])
  show "wf_node T (fst (create_add T src k))"
    using b create_add_layout[OF assms(1) w(2)] unfolding wf_node_def branch_added_def by blast
qed

text \<open>A node with the three branches \<open>NONE\<close>, 5 and 200, built by the constructors.\<close>

definition ex_traits :: traits where
  "ex_traits = \<lparr>HASH_SIZE = 0, PAGE_SIZES = [128, 256, 512, 1024, 2432], AREA_SIZE = 65536,
     PAGE_CONTAINER_SIZE = 512, MAX_KEY_SIZE = 1024, PAGE_HEADER_SIZE = 8, LITTLE_ENDIAN = True,
     VECTOR_WIDTHS = []\<rparr>"

definition ex_node :: "nat trie_node" where
  "ex_node = fst (create_add ex_traits (fst (create_keys ex_traits [7, 9] 200 NONE)) 5)"

lemma ex_node_wf: "traits_ok ex_traits" "wf_node ex_traits ex_node" "node_keys ex_node = [NONE, 5, 200]"
  "array ex_node = [0, 0, 0]"
proof -
  let ?m = "fst (create_keys ex_traits [7, 9] 200 NONE) :: nat trie_node"
  show t: "traits_ok ex_traits" by (simp add: traits_ok_def ex_traits_def)
  have m: "wf_node ex_traits ?m" "node_keys ?m = [NONE, 200]" "array ?m = [0, 0]"
    using create_keys_eq[OF t, of "[7, 9]" 200 NONE, where 'o = nat] by (simp_all add: valid_key_def NONE_def)
  have "5 \<notin> set (node_keys ?m)" using m by (simp add: NONE_def)
  note a = create_add_wf[OF t m(1) _ this, folded ex_node_def]
  then show "wf_node ex_traits ex_node" by (simp add: valid_key_def)
  show "node_keys ex_node = [NONE, 5, 200]" "array ex_node = [0, 0, 0]"
    using a(2) m(2,3) by (simp_all add: branch_added_def insert_key_def valid_key_def NONE_def)
qed

theorem node_lookup_correct_witness:
  "wf_node ex_traits ex_node \<and> valid_key 200 \<and> node_offset ex_node 200 = Some 0 \<and> array_index ex_node 200 = 2
    \<and> \<not> node_isset ex_node 6"
proof -
  have d: "branches ex_node = [NONE \<mapsto> 0, 5 \<mapsto> 0, 200 \<mapsto> 0]"
    by (auto simp: branches_def ex_node_wf NONE_def)
  have "{x \<in> dom (branches ex_node). x < 200} = {NONE, 5}" by (auto simp: d NONE_def split: if_splits)
  then have "card {x \<in> dom (branches ex_node). x < 200} = 2" by (simp add: NONE_def)
  then show ?thesis
    using node_lookup_correct[OF ex_node_wf(2), of 200] node_lookup_correct[OF ex_node_wf(2), of 6] ex_node_wf(2)
    by (simp add: valid_key_def d NONE_def)
qed

definition is_succ :: "int set \<Rightarrow> int \<Rightarrow> int \<Rightarrow> bool" where
  "is_succ S k r \<longleftrightarrow> (if \<exists>x\<in>S. k < x then r \<in> S \<and> k < r \<and> (\<forall>x\<in>S. k < x \<longrightarrow> r \<le> x) else r = OUT_OF_RANGE)"

definition is_pred :: "int set \<Rightarrow> int \<Rightarrow> int \<Rightarrow> bool" where
  "is_pred S k r \<longleftrightarrow> (if \<exists>x\<in>S. x < k then r \<in> S \<and> r < k \<and> (\<forall>x\<in>S. x < k \<longrightarrow> x \<le> r) else r = OUT_OF_RANGE)"

lemma succ_key_is_succ:
  assumes "sorted_wrt (<) ks"
  shows "is_succ (set ks) k (succ_key k ks)"
proof (cases "filter (\<lambda>x. k < x) ks")
  case Nil
  then show ?thesis by (auto simp: is_succ_def succ_key_def filter_empty_conv)
next
  case (Cons y ys)
  have "sorted_wrt (<) (y # ys)" using assms Cons by (metis sorted_wrt_filter)
  moreover have mem: "x \<in> set ks \<and> k < x \<longleftrightarrow> x \<in> set (y # ys)" for x using arg_cong[OF Cons, of set] by auto
  ultimately have "\<forall>x\<in>set ks. k < x \<longrightarrow> y \<le> x" by (metis list.set_cases order_le_less set_ConsD sorted_wrt.simps(2))
  moreover have "y \<in> set ks" "k < y" using mem[of y] by auto
  ultimately show ?thesis using Cons by (auto simp: is_succ_def succ_key_def)
qed

lemma pred_key_is_pred:
  assumes "sorted_wrt (<) ks"
  shows "is_pred (set ks) k (pred_key k ks)"
proof (cases "filter (\<lambda>x. x < k) ks" rule: rev_cases)
  case Nil
  then show ?thesis by (auto simp: is_pred_def pred_key_def filter_empty_conv)
next
  case (snoc ys y)
  have "sorted_wrt (<) (ys @ [y])" using assms snoc by (metis sorted_wrt_filter)
  moreover have mem: "x \<in> set ks \<and> x < k \<longleftrightarrow> x \<in> set (ys @ [y])" for x using arg_cong[OF snoc, of set] by auto
  ultimately have "x \<le> y" if "x \<in> set ks" "x < k" for x
    using that mem[of x] by (auto simp: sorted_wrt_append less_imp_le)
  moreover have "y \<in> set ks" "y < k" using mem[of y] by auto
  ultimately show ?thesis using snoc by (auto simp: is_pred_def pred_key_def)
qed


lemma node_first_eq:
  assumes "wf_bitmaps n" "node_keys n \<noteq> []"
  shows "node_first n = hd (node_keys n)"
proof (cases "has_none n")
  case True
  then show ?thesis by (simp add: node_first_def node_keys_def)
next
  case False
  let ?gk = "group_keys (bit_list (upper n)) (lower n)"
  have len: "length (bit_list (upper n)) = length (lower n)" by (rule wf_lengths[OF assms(1)])
  have k: "node_keys n = ?gk" using False by (simp add: node_keys_def)
  have "bit_list (upper n) \<noteq> []" using assms(2) k by auto
  then have "node_first n = node_next n NONE"
    using False by (simp add: node_first_def node_next_def Let_def bits_first_eq bit_list_native8)
  also have "\<dots> = succ_key NONE (node_keys n)" by (rule node_next_eq[OF assms(1)]) (simp add: valid_key_def NONE_def)
  also have "filter (\<lambda>x. NONE < x) (node_keys n) = node_keys n"
    unfolding k filter_id_conv using NONE_notin_group[OF _ len] by blast
  then have "succ_key NONE (node_keys n) = hd (node_keys n)" using assms(2) by (simp add: succ_key_def)
  finally show ?thesis .
qed

text \<open>
  C22. \<open>next\<close> and \<open>prev\<close> return the smallest branch key above and the largest below the given
  key (\<open>OUT_OF_RANGE\<close> when there is none), \<open>first\<close> the smallest key of a node that has one, and
  \<open>for_each_branch\<close> visits all branches once, in ascending order, with the array index of
  their links.
\<close>

theorem node_scan_correct:
  assumes "wf_node T n" "valid_key k"
  shows "is_succ (dom (branches n)) k (node_next n k) \<and> is_pred (dom (branches n)) k (node_prev n k)
    \<and> (dom (branches n) \<noteq> {} \<longrightarrow> node_first n = Min (dom (branches n)))
    \<and> map fst (for_each_branch n) = sorted_list_of_set (dom (branches n))
    \<and> (\<forall>(x, i) \<in> set (for_each_branch n). branches n x = Some (array n ! i))"
proof -
  have wf: "wf_bitmaps n" using assms(1) by (simp add: wf_node_def)
  note d = dom_branches[OF wf] and s = sorted_node_keys[OF wf]
  have len: "length (node_keys n) = node_count n" "length (array n) = node_count n" using wf by (simp_all add: wf_bitmaps_def)
  have "node_first n = Min (set (node_keys n))" if "node_keys n \<noteq> []"
  proof -
    have "sorted (node_keys n)" using s by (simp add: strict_sorted_iff)
    then have "Min (set (node_keys n)) = hd (node_keys n)" using that by (cases "node_keys n") (auto intro: Min_eqI)
    then show ?thesis using node_first_eq[OF wf that] by simp
  qed
  moreover have "map fst (for_each_branch n) = node_keys n"
    using for_each_branch_eq[OF wf] len by simp
  moreover have "node_keys n = sorted_list_of_set (set (node_keys n))"
    using s by (simp add: strict_sorted_iff sorted_list_of_set.idem_if_sorted_distinct)
  moreover have "branches n x = Some (array n ! i)" if "(x, i) \<in> set (for_each_branch n)" for x i
  proof -
    from that obtain j where "j < node_count n" "x = node_keys n ! j" "i = j"
      using len by (auto simp: for_each_branch_eq[OF wf] in_set_zip)
    then show ?thesis using map_of_zip_nth[of "node_keys n" "array n" j] distinct_node_keys[OF wf] len
      by (simp add: branches_def)
  qed
  moreover have "is_succ (set (node_keys n)) k (node_next n k)"
    unfolding node_next_eq[OF wf assms(2)] by (rule succ_key_is_succ[OF s])
  moreover have "is_pred (set (node_keys n)) k (node_prev n k)"
    unfolding node_prev_eq[OF wf assms(2)] by (rule pred_key_is_pred[OF s])
  ultimately show ?thesis unfolding d by (auto simp: split_beta)
qed

theorem node_scan_correct_witness:
  "wf_node ex_traits ex_node \<and> valid_key 5 \<and> node_next ex_node 5 = 200 \<and> node_prev ex_node 5 = NONE
    \<and> map fst (for_each_branch ex_node) = [NONE, 5, 200]"
proof -
  have d: "dom (branches ex_node) = {NONE, 5, 200}"
    using ex_node_wf by (simp add: dom_branches wf_node_def)
  have v: "valid_key 5" by (simp add: valid_key_def)
  note t = node_scan_correct[OF ex_node_wf(2) v, unfolded d]
  have "node_next ex_node 5 = 200" "node_prev ex_node 5 = NONE"
    using t by (auto simp: is_succ_def is_pred_def NONE_def)
  moreover have "map fst (for_each_branch ex_node) = [NONE, 5, 200]"
    using t by (simp add: NONE_def)
  ultimately show ?thesis using ex_node_wf v by simp
qed

text \<open>
  C18. \<open>create(src, key)\<close> copies a node with one branch added: the result is well formed, its
  map is the map of \<open>src\<close> with the new key bound to an unset link, the prefix is kept and the
  size is the one \<open>increment_size\<close> announced, which never exceeds \<open>MAX_SIZE\<close>. The returned number
  is the index of the new link in the array of links, which is what the callers store as
  \<open>link_idx\<close>; the comment of the function promises a byte offset within the node instead.
\<close>

theorem create_add_correct:
  assumes "traits_ok T" "wf_node T src" "valid_key k" "k \<notin> dom (branches src)" "create_add T src k = (n, i)"
  shows "wf_node T n \<and> branches n = (branches src)(k \<mapsto> 0) \<and> array_index n k = int i
    \<and> compressed n = compressed src \<and> node_size n = increment_size T src k \<and> node_size n \<le> trie_MAX_SIZE T"
proof -
  have wf: "wf_bitmaps src" using assms(2) by (simp add: wf_node_def)
  have k: "k \<notin> set (node_keys src)" using assms(4) dom_branches[OF wf] by simp
  have w: "wf_node T n" and b: "branch_added k src n i 0"
    using create_add_wf[OF assms(1-3) k] assms(5) by simp_all
  note c = branch_added_counts[OF wf b assms(3) k] and sz = node_size_layout[OF assms(1) w]
  have f: "compressed_len n = compressed_len src" "compressed n = compressed src"
    "node_keys n = insert_key k (node_keys src)" "i = length (filter (\<lambda>y. y < k) (node_keys src))"
    using b unfolding branch_added_def by blast+
  have "node_size n = increment_size T src k"
    unfolding sz(1) increment_size_def Let_def f(1) c by simp
  moreover have "array_index n k = int i"
    using array_index_eq[of n k] w assms(3) f(3,4) by (simp add: wf_node_def insert_key_set filter_insert_key)
  ultimately show ?thesis using w branches_added[OF wf k b] f sz(2) by blast
qed

theorem create_add_correct_witness:
  "branches (fst (create_add ex_traits ex_node 6)) = [NONE \<mapsto> 0, 5 \<mapsto> 0, 200 \<mapsto> 0, 6 \<mapsto> 0]"
proof -
  have d: "branches ex_node = [NONE \<mapsto> 0, 5 \<mapsto> 0, 200 \<mapsto> 0]"
    by (auto simp: branches_def ex_node_wf NONE_def)
  obtain n i where r: "create_add ex_traits ex_node 6 = (n, i)" by force
  have "valid_key 6" "6 \<notin> dom (branches ex_node)" by (simp_all add: valid_key_def d NONE_def)
  from create_add_correct[OF ex_node_wf(1,2) this r] show ?thesis using r d by simp
qed

text \<open>
  C20. For nodes with fewer than 256 branches, which the assertion of \<open>insert_branch\<close> demands, the
  in-place \<open>insert_branch\<close> and the copying \<open>create(src, key)\<close> are interchangeable: they report the
  same array index and, once the link is stored at that index, leave the same node, bit for bit
  and offset for offset.
\<close>

theorem insert_branch_is_create:
  assumes "traits_ok T" "wf_node T src" "valid_key k" "k \<notin> dom (branches src)" "node_count src < MAX_BRANCH_COUNT - 1"
    and "insert_branch src k = (m, i)" "create_add T src k = (n, j)"
  shows "i = j \<and> m\<lparr>array := (array m)[i := x]\<rparr> = n\<lparr>array := (array n)[j := x]\<rparr>"
proof -
  have wf: "wf_bitmaps src" using assms(2) by (simp add: wf_node_def)
  have k: "k \<notin> set (node_keys src)" using assms(4) dom_branches[OF wf] by simp
  have w: "wf_layout T n" and b: "branch_added k src n j 0"
    using create_add_wf[OF assms(1-3) k] assms(7) by (simp_all add: wf_node_def)
  note lm = insert_branch_layout[OF assms(1-3) k assms(6)] and bm = insert_branch_fields[OF wf assms(3) k assms(6)]
  show ?thesis using branch_added_unique[OF bm b lm w] by blast
qed

theorem insert_branch_is_create_witness:
  "fst (insert_branch ex_node 6)\<lparr>array := (array (fst (insert_branch ex_node 6)))[2 := 9]\<rparr>
    = fst (create_add ex_traits ex_node 6)\<lparr>array := (array (fst (create_add ex_traits ex_node 6)))[2 := 9]\<rparr>"
proof -
  obtain m i where m: "insert_branch ex_node 6 = (m, i)" by force
  obtain n j where n: "create_add ex_traits ex_node 6 = (n, j)" by force
  have d: "branches ex_node = [NONE \<mapsto> 0, 5 \<mapsto> 0, 200 \<mapsto> 0]"
    by (auto simp: branches_def ex_node_wf NONE_def)
  have k: "valid_key 6" "6 \<notin> dom (branches ex_node)" by (simp_all add: valid_key_def d NONE_def)
  have c: "node_count ex_node < MAX_BRANCH_COUNT - 1"
    using ex_node_wf(2,4) by (auto simp: wf_node_def wf_bitmaps_def MAX_BRANCH_COUNT_def)
  note e = insert_branch_is_create[OF ex_node_wf(1,2) k c m n]
  have "j = 2"
    using create_add_wf(2)[OF ex_node_wf(1,2) k(1)] n by (simp add: branch_added_def ex_node_wf NONE_def)
  moreover have "i = j" using e by blast
  ultimately show ?thesis using conjunct2[OF e[of 9]] m n by simp
qed

lemma create_remove_wf:
  assumes "traits_ok T" "wf_node T src" "k \<in> set (node_keys src)"
  shows "wf_node T (create_remove T src k)" "branch_removed k src (create_remove T src k)" "node_size (create_remove T src k) = decrement_size T src k"
proof -
  let ?n = "create_remove T src k"
  have wf: "wf_bitmaps src" "length (compressed src) = unat (compressed_len src)"
    using assms(2) by (simp_all add: wf_node_def wf_layout_def)
  show b: "branch_removed k src ?n" by (rule create_remove_fields[OF wf assms(3)])
  have f: "compressed_len ?n = compressed_len src" "compressed ?n = compressed src" "wf_bitmaps ?n"
    using b unfolding branch_removed_def by blast+
  show w: "wf_node T ?n" using f create_remove_layout[OF assms(1) wf(2)] by (simp add: wf_node_def)
  show "node_size ?n = decrement_size T src k"
    unfolding node_size_layout(1)[OF assms(1) w] decrement_size_def Let_def f(1) branch_removed_counts[OF wf assms(3)] ..
qed

text \<open>
  C19. \<open>create_remove(src, key)\<close> copies a node without one of its branches: the result is well
  formed, its map is the map of \<open>src\<close> with the key deleted, the prefix is kept and the size
  is the one \<open>decrement_size\<close> announced.
\<close>

theorem create_remove_correct:
  assumes "traits_ok T" "wf_node T src" "k \<in> dom (branches src)"
  shows "wf_node T (create_remove T src k) \<and> branches (create_remove T src k) = (branches src)(k := None)
    \<and> compressed (create_remove T src k) = compressed src
    \<and> node_size (create_remove T src k) = decrement_size T src k"
proof -
  let ?n = "create_remove T src k"
  have wf: "wf_bitmaps src" using assms(2) by (simp add: wf_node_def)
  have k: "k \<in> set (node_keys src)" using assms(3) dom_branches[OF wf] by simp
  note c = create_remove_wf[OF assms(1,2) k]
  have "compressed ?n = compressed src" using c(2) unfolding branch_removed_def by blast
  then show ?thesis using c(1,3) branches_removed[OF wf k c(2)] by blast
qed

theorem create_remove_correct_witness:
  "branches (create_remove ex_traits ex_node NONE) = [5 \<mapsto> 0, 200 \<mapsto> 0]"
proof -
  have d: "branches ex_node = [NONE \<mapsto> 0, 5 \<mapsto> 0, 200 \<mapsto> 0]"
    by (auto simp: branches_def ex_node_wf NONE_def)
  have "NONE \<in> dom (branches ex_node)" by (simp add: d)
  from create_remove_correct[OF ex_node_wf(1,2) this] show ?thesis by (auto simp: d NONE_def fun_eq_iff)
qed

text \<open>
  C38. Building a node in bulk from a table of 257 links gives the node with exactly the
  non-zero links of the table, provided the precomputed group bitmap marks the groups that
  have one; the node \<open>create(prefix, key1, key2)\<close> builds has exactly the two keys, at the
  indices it reports and with the announced size, in whatever order they are given.
\<close>

theorem create_bulk_and_pair_correct:
  assumes "traits_ok T" "length pfx < 256"
    and "\<forall>g<8. bit up g \<longleftrightarrow> (\<exists>j<32. offsets (int (32 * g + j)) \<noteq> 0)"
    and "valid_key k1" "valid_key k2" "k1 \<noteq> k2"
    and "create_keys T pfx k1 k2 = (m :: ('o::zero) trie_node, i1, i2)"
  shows "wf_node T (create_bulk T pfx offsets up)
    \<and> branches (create_bulk T pfx offsets up) =
        (\<lambda>k. if valid_key k \<and> offsets k \<noteq> 0 then Some (offsets k) else None)
    \<and> wf_node T m \<and> branches m = [k1 \<mapsto> 0, k2 \<mapsto> 0] \<and> compressed m = pfx
    \<and> array_index m k1 = int i1 \<and> array_index m k2 = int i2
    \<and> node_size m = trie_size_keys T (length pfx) k1 k2"
proof -
  have up: "\<forall>g<8. bit up g \<longleftrightarrow> group_links offsets g \<noteq> []"
    using assms(3) by (auto simp: group_links_def filter_empty_conv mkkey_def)
  note b = create_bulk_eq[OF assms(1,2) up]
  have "map_of (zip ks (map offsets ks)) k = (if k \<in> set ks then Some (offsets k) else None)" for ks k
    by (simp add: map_of_zip_map)
  then have bb: "branches (create_bulk T pfx offsets up) =
      (\<lambda>k. if valid_key k \<and> offsets k \<noteq> 0 then Some (offsets k) else None)"
    unfolding branches_def b(2,3) by (auto simp: bulk_keys_def valid_key_def fun_eq_iff)
  note c = create_keys_eq[OF assms(1,2,4-6), where 'o = 'o, unfolded assms(7) fst_conv snd_conv]
  have "branches m = [k1 \<mapsto> 0, k2 \<mapsto> 0]"
    using assms(6) by (cases "k1 < k2") (auto simp: branches_def c(2,3) min_def max_def)
  moreover have "array_index m k1 = int i1" "array_index m k2 = int i2"
    using array_index_eq[of m] c(1,2,6) assms(4-6) by (auto simp: wf_node_def min_def max_def split: if_splits)
  moreover have "node_size m = trie_size_keys T (length pfx) k1 k2"
    using create_keys_size[OF assms(1,2,4-6), where 'o = 'o] assms(7) by simp
  ultimately show ?thesis using b(1) bb c by blast
qed

theorem create_bulk_and_pair_correct_witness:
  "branches (create_bulk ex_traits [1] (\<lambda>k. if k = 40 then 3 else 0 :: nat) 2) = [40 \<mapsto> 3]
    \<and> branches (fst (create_keys ex_traits [1] 40 NONE) :: nat trie_node) = [40 \<mapsto> 0, NONE \<mapsto> 0]"
proof -
  let ?o = "\<lambda>k. if k = 40 then 3 else 0 :: nat"
  obtain m i1 i2 where m: "create_keys ex_traits [1] 40 NONE = (m :: nat trie_node, i1, i2)" by (metis prod.exhaust)
  have "bit (2 :: uint8) g \<longleftrightarrow> (\<exists>j<32. ?o (int (32 * g + j)) \<noteq> 0)" for g
  proof -
    have "bit (2 :: uint8) g \<longleftrightarrow> g = 1" using bit_exp_iff[of 1 g, where 'a = uint8] by auto
    moreover have "(\<exists>j<32. ?o (int (32 * g + j)) \<noteq> 0) \<longleftrightarrow> (\<exists>j<32. 32 * g + j = 40)" by (auto split: if_splits)
    moreover have "(\<exists>j<32. 32 * g + j = 40) \<longleftrightarrow> g = 1" by presburger
    ultimately show ?thesis by simp
  qed
  then have "\<forall>g<8. bit (2 :: uint8) g \<longleftrightarrow> (\<exists>j<32. ?o (int (32 * g + j)) \<noteq> 0)" by blast
  note t = create_bulk_and_pair_correct[OF ex_node_wf(1) _ this, of "[1]" 40 NONE m i1 i2]
  show ?thesis using t m by (auto simp: valid_key_def NONE_def fun_eq_iff)
qed


section \<open>Leaf nodes\<close>

lemma BIG_VALUE_FLAG_eq: "BIG_VALUE_FLAG = NULL_MASK"
  by (simp add: BIG_VALUE_FLAG_def NULL_MASK_def)

lemma big_flag_iff: "w AND BIG_VALUE_FLAG = BIG_VALUE_FLAG \<longleftrightarrow> 32768 \<le> unat w"
proof -
  have "w AND NULL_MASK = NULL_MASK \<longleftrightarrow> bit w 15"
  proof
    assume "w AND NULL_MASK = NULL_MASK"
    then have "bit (w AND NULL_MASK) 15" using bit_NULL_MASK by simp
    then show "bit w 15" by (simp add: bit_and_iff)
  next
    assume "bit w 15"
    then show "w AND NULL_MASK = NULL_MASK" by (intro bit_word_eqI) (auto simp: bit_and_iff bit_NULL_MASK)
  qed
  also have "\<dots> \<longleftrightarrow> w AND NULL_MASK \<noteq> 0" unfolding NULL_MASK_exp and_exp_eq_0_iff_not_bit by simp
  finally show ?thesis unfolding BIG_VALUE_FLAG_eq flag_iff .
qed

lemma vsize_mod: "vsize l = unat (value_size l) mod 32768"
  using node_count_mod[of "\<lparr>array_len = value_size l, upper = 0, compressed_len = 0, lower_offset = 0,
      array_offset = 0, compressed = [], lower = [], array = []\<rparr>"]
  by (simp add: vsize_def node_count_def BIG_VALUE_FLAG_eq)

lemma leaf_is_big_iff: "leaf_is_big l \<longleftrightarrow> 32768 \<le> unat (value_size l)"
  by (simp add: leaf_is_big_def big_flag_iff)

lemma leaf_set_fields:
  assumes "length key < 256" "v < 32768"
  shows "unat (key_size (leaf_set l key v)) = length key" "vsize (leaf_set l key v) = v"
    "\<not> leaf_is_big (leaf_set l key v)"
  using assms by (simp_all add: leaf_set_def vsize_mod leaf_is_big_iff unsigned_of_nat take_bit_nat_eq_self)

text \<open>
  C39. A leaf that was set and written returns what was stored: \<open>key()\<close> the key,
  \<open>value()\<close> the value, with the size announced by \<open>size(key, value)\<close>; marking it big and
  clearing the mark changes neither, and \<open>is_big\<close> reads exactly the mark.
\<close>

theorem leaf_roundtrip:
  fixes l0 :: leaf_node
  assumes "length key < 256" "length value < 32768"
  defines "l \<equiv> leaf_write (leaf_set l0 key (length value)) value"
  shows "leaf_key l = key \<and> leaf_value l = value \<and> leaf_size T l = leaf_size_of T (length key) (length value)
    \<and> \<not> leaf_is_big l \<and> leaf_is_big (set_big l) \<and> leaf_key (set_big l) = key \<and> leaf_value (set_big l) = value
    \<and> clear_big (set_big l) = l"
proof -
  note f = leaf_set_fields[OF assms(1,2), of l0]
  have ks: "unat (key_size l) = length key" and vs: "vsize l = length value" and nb: "\<not> leaf_is_big l"
    using f by (simp_all add: l_def leaf_write_def vsize_def leaf_is_big_def)
  have d: "take (length key) (leaf_data l) = key" "take (length value) (drop (length key) (leaf_data l)) = value"
  proof -
    have dl: "leaf_data l = key @ value @ drop (length key + length value) (leaf_data (leaf_set l0 key (length value)))"
      using f(1) by (simp add: l_def leaf_write_def) (simp add: leaf_set_def)
    show "take (length key) (leaf_data l) = key" "take (length value) (drop (length key) (leaf_data l)) = value"
      unfolding dl by simp_all
  qed
  have kv: "leaf_key l = key" "leaf_value l = value" using d by (simp_all add: leaf_key_def leaf_value_def ks vs)
  have sb: "unat (key_size (set_big l)) = length key" "vsize (set_big l) = length value"
    using ks vs count_set_flag(1)[of "value_size l"] by (simp_all add: set_big_def vsize_mod BIG_VALUE_FLAG_eq)
  have "leaf_is_big (set_big l)"
    unfolding leaf_is_big_iff using count_set_flag(2) by (simp add: set_big_def BIG_VALUE_FLAG_eq)
  moreover have "leaf_key (set_big l) = key" "leaf_value (set_big l) = value"
    unfolding leaf_key_def leaf_value_def sb using d by (simp_all add: set_big_def)
  moreover have "clear_big (set_big l) = l"
  proof -
    have "unat (value_size l) < 32768" using nb by (simp add: leaf_is_big_iff)
    then have "\<not> bit (value_size l) 15"
      using flag_iff[of "value_size l"] unfolding NULL_MASK_exp and_exp_eq_0_iff_not_bit by simp
    then have "(value_size l OR NULL_MASK) AND NOT NULL_MASK = value_size l"
      by (intro bit_word_eqI) (auto simp: bit_and_iff bit_or_iff bit_not_iff bit_NULL_MASK)
    then show ?thesis by (simp add: clear_big_def set_big_def BIG_VALUE_FLAG_eq)
  qed
  ultimately show ?thesis using kv ks vs nb by (simp add: leaf_size_def leaf_size_of_def)
qed

theorem leaf_roundtrip_witness:
  "leaf_value (leaf_write (leaf_set \<lparr>value_size = 0, key_size = 0, leaf_data = replicate 8 0\<rparr> [1, 2] (length [7, 8, 9 :: uint8]))
      [7, 8, 9]) = [7, 8, 9]"
proof -
  have "length [1, 2 :: uint8] < 256" "length [7, 8, 9 :: uint8] < 32768" by simp_all
  then show ?thesis using leaf_roundtrip by blast
qed

end
