(* ===== verification/Leaves_Serial.thy ===== *)
theory Leaves_Serial
  imports Leaves_Prelude
begin

text \<open>
  Serial numbers with wrap-around (\<open>include/leaves/intern/core/_serial.hpp\<close>), at the width
  of the transaction identifiers, \<open>serial_number<uint32_t>\<close>. The value \<open>0\<close> is the
  uninitialised sentinel and never reached by counting.
\<close>

type_synonym tid = uint32

definition MAX_VALUE :: tid where
  "MAX_VALUE = - 1"

definition HALF_RANGE :: tid where
  "HALF_RANGE = push_bit 31 1"

definition serial_is_valid :: "tid \<Rightarrow> bool" where
  "serial_is_valid v \<longleftrightarrow> v \<noteq> 0"

definition serial_add :: "tid \<Rightarrow> uint32 \<Rightarrow> tid" where
  "serial_add v rhs =
     (if v = 0 then rhs
      else let sum = ucast v + ucast rhs :: uint64
           in ucast ((sum - 1) mod ucast MAX_VALUE) + 1)"

definition serial_inc :: "tid \<Rightarrow> tid" where
  "serial_inc v = (if v = MAX_VALUE then 1 else v + 1)"

definition serial_dec :: "tid \<Rightarrow> tid" where
  "serial_dec v = (if v \<le> 1 then MAX_VALUE else v - 1)"

definition serial_diff :: "tid \<Rightarrow> tid \<Rightarrow> int" where
  "serial_diff v rhs =
     (if v = 0 \<or> rhs = 0 then uint v - uint rhs
      else let diff = (if v \<ge> rhs then v - rhs else v + (MAX_VALUE - rhs) + 1)
           in if diff > HALF_RANGE then - uint (MAX_VALUE - diff + 1) else uint diff)"

definition serial_less :: "tid \<Rightarrow> tid \<Rightarrow> bool" where
  "serial_less v rhs =
     (if v = 0 \<or> rhs = 0 then v < rhs
      else if v < rhs then rhs - v < HALF_RANGE
      else if v > rhs then v - rhs > HALF_RANGE
      else False)"

definition serial_greater :: "tid \<Rightarrow> tid \<Rightarrow> bool" where
  "serial_greater v rhs = serial_less rhs v"

definition serial_le :: "tid \<Rightarrow> tid \<Rightarrow> bool" where
  "serial_le v rhs = (\<not> serial_greater v rhs)"

definition serial_ge :: "tid \<Rightarrow> tid \<Rightarrow> bool" where
  "serial_ge v rhs = (\<not> serial_less v rhs)"

section \<open>Reading the operations as numbers\<close>

lemma unat_MAX_VALUE [simp]: "unat MAX_VALUE = 4294967295"
  by (simp add: MAX_VALUE_def unsigned_minus_1_eq_mask mask_eq_exp_minus_1)

lemma unat_HALF_RANGE [simp]: "unat HALF_RANGE = 2147483648"
  by (simp add: HALF_RANGE_def)

lemma unat_tid_bound: "unat (v :: tid) < 4294967296"
  using unsigned_less[of v] by simp

lemma unat_pos: "(v :: tid) \<noteq> 0 \<Longrightarrow> 0 < unat v"
  by (simp add: unat_gt_0)

lemma unat_ucast64 [simp]: "unat (ucast (v :: tid) :: uint64) = unat v"
  using unat_tid_bound[of v] by (simp add: unsigned_ucast_eq take_bit_nat_eq_self)

lemma unat_serial_add:
  assumes "v \<noteq> 0"
  shows "unat (serial_add v n) = (unat v + unat n - 1) mod 4294967295 + 1"
proof -
  let ?s = "ucast v + ucast n :: uint64"
  have s: "unat ?s = unat v + unat n"
    using unat_tid_bound[of v] unat_tid_bound[of n] by (simp add: unat_word_ariths)
  then have s1: "unat (?s - 1) = unat v + unat n - 1"
    using unat_pos[OF assms] by (simp add: unat_sub_if' word_le_nat_alt)
  have m: "unat ((?s - 1) mod ucast MAX_VALUE) = (unat v + unat n - 1) mod 4294967295"
    using s1 by (simp add: unat_mod)
  have lt: "(unat v + unat n - 1) mod 4294967295 < 4294967295" by simp
  have u: "unat (ucast ((?s - 1) mod ucast MAX_VALUE) :: tid)
      = (unat v + unat n - 1) mod 4294967295"
    using m lt by (simp add: unsigned_ucast_eq take_bit_nat_eq_self)
  show ?thesis
    using assms lt u by (simp add: serial_add_def Let_def unat_word_ariths)
qed

lemma unat_serial_inc: "unat (serial_inc v) = (if unat v = 4294967295 then 1 else unat v + 1)"
proof (cases "v = MAX_VALUE")
  case False
  then have "unat v \<noteq> unat MAX_VALUE" by (metis word_unat_eq_iff)
  then have ne: "unat v \<noteq> 4294967295" by simp
  then have "unat v + 1 < 4294967296" using unat_tid_bound[of v] by linarith
  then show ?thesis using False ne by (simp add: serial_inc_def unat_word_ariths)
qed (simp add: serial_inc_def)

lemma serial_less_unat:
  assumes "v \<noteq> 0" "w \<noteq> 0"
  shows "serial_less v w \<longleftrightarrow>
    (unat v < unat w \<and> unat w - unat v < 2147483648) \<or>
    (unat w < unat v \<and> unat v - unat w > 2147483648)"
  using assms
  by (auto simp: serial_less_def word_less_nat_alt unat_sub_if' not_less)

section \<open>Counting\<close>

lemma mod_pred_step:
  "(m::nat) > 0 \<Longrightarrow> (if x mod m + 1 = m then 1 else x mod m + 1 + 1) = (x + 1) mod m + 1"
  by (simp add: mod_Suc)

lemma serial_add_counts:
  assumes "v \<noteq> 0"
  shows "serial_add v n = (serial_inc ^^ unat n) v \<and> serial_add v n \<noteq> 0"
proof -
  have "unat ((serial_inc ^^ k) v) = (unat v + k - 1) mod 4294967295 + 1" for k
  proof (induction k)
    case 0
    then show ?case
      using unat_pos[OF assms] unat_tid_bound[of v] by (simp add: mod_less)
  next
    case (Suc k)
    have "unat ((serial_inc ^^ Suc k) v)
        = (if (unat v + k - 1) mod 4294967295 + 1 = 4294967295 then 1
           else (unat v + k - 1) mod 4294967295 + 1 + 1)"
      using Suc.IH by (simp add: unat_serial_inc)
    also have "\<dots> = (unat v + k - 1 + 1) mod 4294967295 + 1"
      by (rule mod_pred_step) simp
    finally show ?case using unat_pos[OF assms] by simp
  qed
  then have eq: "serial_add v n = (serial_inc ^^ unat n) v"
    using unat_serial_add[OF assms] by (simp add: word_unat_eq_iff)
  moreover have "unat (serial_add v n) \<noteq> 0"
    using unat_serial_add[OF assms] by simp
  ultimately show ?thesis by force
qed

text \<open>
  C35. Addition is counting: for an initialised serial number, \<open>s + n\<close> is the number reached
  by \<open>n\<close> increments, across the wrap-around as well, and so it is never the sentinel \<open>0\<close>.
\<close>

theorem serial_add_is_counting:
  assumes "v \<noteq> 0"
  shows "serial_add v n = (serial_inc ^^ unat n) v \<and> serial_add v n \<noteq> 0"
  using assms by (rule serial_add_counts)

theorem serial_add_is_counting_witness:
  "serial_add 0xFFFFFFFE 3 = (serial_inc ^^ unat (3::uint32)) 0xFFFFFFFE \<and> serial_add 0xFFFFFFFE 3 \<noteq> 0"
  by (rule serial_add_is_counting) simp

section \<open>Ordering\<close>

lemma serial_less_asym: "v \<noteq> 0 \<Longrightarrow> serial_less v w \<Longrightarrow> \<not> serial_less w v"
proof (cases "w = 0")
  case False
  assume "v \<noteq> 0" "serial_less v w"
  then show ?thesis by (auto simp: serial_less_unat[OF \<open>v \<noteq> 0\<close> False] serial_less_unat[OF False \<open>v \<noteq> 0\<close>])
qed (simp add: serial_less_def)

lemma serial_less_add:
  assumes "v \<noteq> 0" and n: "0 < unat n" "unat n < 2147483647"
  shows "serial_less v (serial_add v n)"
proof -
  let ?w = "serial_add v n"
  have w0: "?w \<noteq> 0" using serial_add_counts[OF assms(1)] by blast
  have w: "unat ?w = (unat v + unat n - 1) mod 4294967295 + 1" by (rule unat_serial_add[OF assms(1)])
  have b: "0 < unat v" "unat v < 4294967296" using unat_pos[OF assms(1)] unat_tid_bound by auto
  show "serial_less v ?w"
  proof (cases "unat v + unat n - 1 < 4294967295")
    case True
    then have "unat ?w = unat v + unat n" using w b by simp
    then show ?thesis using n by (simp add: serial_less_unat[OF assms(1) w0])
  next
    case False
    have "unat v + unat n - 4294967296 < 4294967295" using b n by linarith
    with False have "unat ?w = unat v + unat n - 4294967295"
      using w by (simp add: le_mod_geq)
    moreover have "unat v + unat n \<ge> 4294967296" using False b by linarith
    ultimately have "unat ?w < unat v \<and> unat v - unat ?w > 2147483648"
      using n b by linarith
    then show ?thesis by (simp add: serial_less_unat[OF assms(1) w0])
  qed
qed

lemma serial_steps:
  assumes "v \<noteq> 0"
  shows "(serial_inc ^^ k) v \<noteq> 0"
    "0 < k \<Longrightarrow> k < 2147483647 \<Longrightarrow> serial_less v ((serial_inc ^^ k) v)"
    "k < 2147483647 \<Longrightarrow> \<not> serial_less ((serial_inc ^^ k) v) v"
proof -
  have nz: "(serial_inc ^^ k) u \<noteq> 0" if "u \<noteq> 0" for u k
  proof (induction k)
    case (Suc k)
    then show ?case using unat_serial_inc[of "(serial_inc ^^ k) u"] by (auto split: if_splits)
  qed (simp add: that)
  then show n0: "(serial_inc ^^ k) v \<noteq> 0" using assms .
  have eq: "(serial_inc ^^ k) v = serial_add v (word_of_nat k)" "unat (word_of_nat k :: uint32) = k" if "k < 2147483647"
    using serial_add_counts[OF assms, of "word_of_nat k"] that by (simp_all add: unat_of_nat take_bit_eq_mod)
  show less: "serial_less v ((serial_inc ^^ k) v)" if "0 < k" "k < 2147483647"
    using serial_less_add[OF assms, of "word_of_nat k"] eq that by simp
  show "\<not> serial_less ((serial_inc ^^ k) v) v" if "k < 2147483647"
  proof (cases "k = 0")
    case False
    then show ?thesis using serial_less_asym[OF assms less] that by simp
  qed (simp add: serial_less_def)
qed

text \<open>
  C36. The overflow-aware order: it is irreflexive and asymmetric, and a number reached from
  \<open>s\<close> by fewer than \<open>2^31 - 1\<close> steps is after \<open>s\<close>, also when the counter wrapped in between.
\<close>

theorem serial_order_window:
  assumes "v \<noteq> 0"
  shows "\<not> serial_less v v \<and> (\<forall>w. serial_less v w \<longrightarrow> \<not> serial_less w v) \<and>
    (0 < unat n \<and> unat n < 2147483647 \<longrightarrow> serial_less v (serial_add v n))"
  using serial_less_asym[OF assms] serial_less_add[OF assms, of n] by (auto simp: serial_less_def)

theorem serial_order_window_witness:
  "\<not> serial_less 0xFFFFFFFE 0xFFFFFFFE \<and>
   serial_less 0xFFFFFFFE (serial_add 0xFFFFFFFE 3)"
  using serial_order_window[of "0xFFFFFFFE" 3] by simp

text \<open>
  C37. The signed difference does not undo the addition across the wrap-around: it counts the
  skipped sentinel as a step. After \<open>n\<close> steps that wrap once, \<open>(s + n) - s\<close> is \<open>n + 1\<close>.
\<close>

theorem serial_diff_counts_sentinel:
  assumes "v \<noteq> 0" "unat v + unat n > 4294967295" "unat n < 2147483648"
  shows "serial_diff (serial_add v n) v = int (unat n) + 1"
proof -
  let ?w = "serial_add v n"
  have b: "0 < unat v" "unat v < 4294967296" using unat_pos[OF assms(1)] unat_tid_bound by auto
  have w: "unat ?w = unat v + unat n - 4294967295"
    using unat_serial_add[OF assms(1), of n] assms b by (simp add: le_mod_geq)
  then have lt: "\<not> v \<le> ?w" using assms b by (simp add: word_le_nat_alt)
  have w0: "?w \<noteq> 0" using w assms by (auto simp: word_unat_eq_iff)
  have "MAX_VALUE - v + 1 = - v" by (simp add: MAX_VALUE_def)
  then have d: "?w + (MAX_VALUE - v) + 1 = ?w - v" by (simp add: MAX_VALUE_def)
  have ud: "unat (?w - v) = unat n + 1"
  proof -
    have "unat (?w - v) = unat ?w + 4294967296 - unat v"
      using lt by (simp add: unat_sub_if' word_le_nat_alt)
    then show ?thesis using w b assms(2) by linarith
  qed
  then have "unat (?w - v) \<le> unat HALF_RANGE" using assms(3) by simp
  then have nh: "\<not> ?w - v > HALF_RANGE" by (simp add: word_less_nat_alt)
  have "serial_diff ?w v = uint (?w - v)"
    unfolding serial_diff_def Let_def if_not_P[OF lt] d if_not_P[OF nh]
    using assms(1) w0 by simp
  also have "\<dots> = int (unat (?w - v))" by simp
  finally show ?thesis using ud by simp
qed

theorem serial_diff_counts_sentinel_witness:
  "serial_diff (serial_add 0xFFFFFFFF 1) 0xFFFFFFFF = int (unat (1::uint32)) + 1"
  by (rule serial_diff_counts_sentinel) simp_all

end
