(* ===== verification/Leaves_Memory.thy ===== *)
theory Leaves_Memory
  imports Leaves_Node Leaves_Serial
begin

text \<open>
  Size classes of the memory manager (\<open>include/leaves/intern/memory/_memory.hpp\<close>): the binary
  search over the page sizes and the choice of a size class.
\<close>

section \<open>Size classes\<close>

function bsearch_loop :: "nat list \<Rightarrow> nat \<Rightarrow> nat \<Rightarrow> nat \<Rightarrow> nat" where
  "bsearch_loop xs v first lst =
     (if first < lst then
        let mid = first + (lst - first) div 2
        in if xs ! mid = v then mid
           else if xs ! mid < v then bsearch_loop xs v (mid + 1) lst
           else bsearch_loop xs v first mid
      else first)"
  by pat_completeness auto

termination bsearch_loop
  by (relation "measure (\<lambda>(xs, v, first, lst). lst - first)") auto

declare bsearch_loop.simps [simp del]

definition binary_search :: "nat list \<Rightarrow> nat \<Rightarrow> nat" where
  "binary_search xs v = bsearch_loop xs v 0 (length xs)"

definition assign_slot :: "traits \<Rightarrow> nat \<Rightarrow> nat" where
  "assign_slot T sz = binary_search (PAGE_SIZES T) sz"

section \<open>The search finds the lower bound\<close>

definition lower_bound :: "nat list \<Rightarrow> nat \<Rightarrow> nat \<Rightarrow> bool" where
  "lower_bound xs v r \<longleftrightarrow> r \<le> length xs \<and> (\<forall>i<r. xs ! i < v) \<and> (\<forall>i. r \<le> i \<and> i < length xs \<longrightarrow> v \<le> xs ! i)"

lemma bsearch_loop_lower_bound:
  assumes "sorted_wrt (<) xs" "first \<le> lst" "lst \<le> length xs"
    and "\<forall>i<first. xs ! i < v" "\<forall>i. lst \<le> i \<and> i < length xs \<longrightarrow> v \<le> xs ! i"
  shows "lower_bound xs v (bsearch_loop xs v first lst)"
  using assms
proof (induction xs v first lst rule: bsearch_loop.induct)
  case (1 xs v first lst)
  let ?m = "first + (lst - first) div 2"
  note IH = 1(1,2) and prems = 1(3-7)
  show ?case
  proof (cases "first < lst")
    case False
    then have "bsearch_loop xs v first lst = lst" using prems(2) by (subst bsearch_loop.simps) simp
    then show ?thesis using prems False by (simp add: lower_bound_def)
  next
    case True
    then have m: "first \<le> ?m" "?m < lst" "?m < length xs" using prems(3) by auto
    have mono: "i < j \<Longrightarrow> j < length xs \<Longrightarrow> xs ! i < xs ! j" for i j
      using prems(1) by (simp add: sorted_wrt_iff_nth_less)
    have above: "xs ! ?m \<le> xs ! i" if "?m \<le> i" "i < length xs" for i
      using mono[of ?m i] that by (cases "?m = i") auto
    have below: "xs ! i \<le> xs ! ?m" if "i \<le> ?m" for i
      using mono[OF _ m(3), of i] that by (cases "?m = i") auto
    consider (eq) "xs ! ?m = v" | (lt) "xs ! ?m < v" | (gt) "v < xs ! ?m" by linarith
    then show ?thesis
    proof cases
      case eq
      have "bsearch_loop xs v first lst = ?m" using True eq by (subst bsearch_loop.simps) (simp add: Let_def)
      moreover have "\<forall>i<?m. xs ! i < v" using mono[OF _ m(3)] eq by simp
      ultimately show ?thesis using above eq m(3) by (simp add: lower_bound_def)
    next
      case lt
      have "xs ! i < v" if "i < ?m + 1" for i using below[of i] lt that by linarith
      moreover have "bsearch_loop xs v first lst = bsearch_loop xs v (?m + 1) lst"
        using True lt by (subst bsearch_loop.simps) (simp add: Let_def)
      moreover have "?m + 1 \<le> lst" using m(2) by linarith
      moreover have "xs ! ?m \<noteq> v" using lt by simp
      ultimately show ?thesis using IH(1)[OF True refl _ lt prems(1)] prems(3,5) by presburger
    next
      case gt
      have "v \<le> xs ! i" if "?m \<le> i" "i < length xs" for i using above[OF that] gt by linarith
      moreover have "bsearch_loop xs v first lst = bsearch_loop xs v first ?m"
        using True gt by (subst bsearch_loop.simps) (simp add: Let_def)
      moreover have "?m \<le> length xs" "xs ! ?m \<noteq> v" "\<not> xs ! ?m < v" using m(3) gt by linarith+
      ultimately show ?thesis using IH(2)[OF True refl _ _ prems(1) m(1)] prems(4) by presburger
    qed
  qed
qed

lemma binary_search_lower_bound:
  assumes "sorted_wrt (<) xs"
  shows "binary_search xs v \<le> length xs" "i < binary_search xs v \<Longrightarrow> xs ! i < v"
    "binary_search xs v \<le> i \<Longrightarrow> i < length xs \<Longrightarrow> v \<le> xs ! i"
  using bsearch_loop_lower_bound[OF assms, of 0 "length xs" v] by (auto simp: binary_search_def lower_bound_def)

lemma assign_slot_less:
  assumes "sorted_wrt (<) (PAGE_SIZES T)" "PAGE_SIZES T \<noteq> []" "sz \<le> last (PAGE_SIZES T)"
  shows "assign_slot T sz < length (PAGE_SIZES T)"
proof (rule ccontr)
  assume "\<not> ?thesis"
  then have "length (PAGE_SIZES T) - 1 < binary_search (PAGE_SIZES T) sz"
    using assms(2) by (cases "PAGE_SIZES T") (simp_all add: assign_slot_def)
  from binary_search_lower_bound(2)[OF assms(1) this] show False
    using assms(2,3) by (simp add: last_conv_nth)
qed

lemma assign_slot_fits:
  assumes "sorted_wrt (<) (PAGE_SIZES T)" "assign_slot T sz < length (PAGE_SIZES T)"
  shows "sz \<le> PAGE_SIZES T ! assign_slot T sz"
  using binary_search_lower_bound(3)[OF assms(1), of sz "assign_slot T sz"] assms(2)
  by (simp add: assign_slot_def)

text \<open>
  C40. A size class is the smallest page size that fits: for a request no larger than the
  largest page, \<open>assign_slot\<close> returns a valid class whose pages are large enough, and every
  smaller class is too small.
\<close>

theorem assign_slot_best_fit:
  assumes "sorted_wrt (<) (PAGE_SIZES T)" "PAGE_SIZES T \<noteq> []" "sz \<le> last (PAGE_SIZES T)"
  shows "assign_slot T sz < length (PAGE_SIZES T) \<and> sz \<le> PAGE_SIZES T ! assign_slot T sz
    \<and> (\<forall>i<assign_slot T sz. PAGE_SIZES T ! i < sz)"
proof -
  have lt: "assign_slot T sz < length (PAGE_SIZES T)" by (rule assign_slot_less[OF assms])
  then show ?thesis
    using assign_slot_fits[OF assms(1) lt] binary_search_lower_bound(2)[OF assms(1), of _ sz]
    by (simp add: assign_slot_def)
qed

theorem assign_slot_best_fit_witness:
  "assign_slot \<lparr>HASH_SIZE = 0, PAGE_SIZES = [40, 48, 112, 4096], AREA_SIZE = 65536,
     PAGE_CONTAINER_SIZE = 4096, MAX_KEY_SIZE = 1024, PAGE_HEADER_SIZE = 8, LITTLE_ENDIAN = True,
     VECTOR_WIDTHS = []\<rparr> 49 = 2"
  (is "assign_slot ?T 49 = 2")
proof -
  have "assign_slot ?T 49 < 4 \<and> 49 \<le> PAGE_SIZES ?T ! assign_slot ?T 49
      \<and> (\<forall>i<assign_slot ?T 49. PAGE_SIZES ?T ! i < 49)"
    using assign_slot_best_fit[of ?T 49] by simp
  moreover have "assign_slot ?T 49 < 4 \<Longrightarrow> assign_slot ?T 49 = 0 \<or> assign_slot ?T 49 = 1
      \<or> assign_slot ?T 49 = 2 \<or> assign_slot ?T 49 = 3" by linarith
  ultimately show ?thesis by (auto simp: numeral_3_eq_3 numeral_2_eq_2 dest: spec[of _ "2"])
qed

end
