(* ===== verification/Leaves_Store.thy ===== *)
theory Leaves_Store
  imports Leaves_NodeMap Leaves_Memory "HOL-Library.Monad_Syntax"
begin

text \<open>
  The pages a cursor works on. Cursors, the inserter and the deleter are templates over a
  database that allocates, frees and resolves pages (\<open>_MemoryDB\<close> of \<open>_memstore.hpp\<close>, \<open>_DB\<close> of
  \<open>_db.hpp\<close>); here that database is a heap of pages plus the state of an allocator, whose
  operations are an argument. A link is the tagged offset of \<open>_util.hpp\<close> split into its node
  type and its address. Reading an address that holds no page of the wanted kind, and an
  allocation that fails, is the result \<open>None\<close>.
\<close>

section \<open>Links and pages\<close>

datatype link = Link (ltype: node_type) (laddr: nat)

instantiation link :: zero
begin

definition zero_link_def: "0 = Link TRIE 0"

instance ..

end

datatype node = Raw | TrieN "link trie_node" | LeafN leaf_node

record page =
  page_txn :: tid
  used :: nat
  slot_id :: nat
  body :: node

type_synonym heap = "nat \<Rightarrow> page option"

record 'm db =
  heap :: heap
  mem :: 'm
  root :: link
  active_txn :: tid

section \<open>The operations of the database\<close>

text \<open>
  \<open>op_alloc\<close> and \<open>op_free\<close> are \<open>_MemManager::alloc\<close> and \<open>_MemManager::free\<close>; \<open>op_cow\<close> says
  whether pages are versioned: \<open>needs_cow\<close> is constantly false in \<open>_MemoryDB\<close> and compares the
  page's transaction with the active one in the transactional stores.
\<close>

record 'm db_ops =
  op_alloc :: "nat \<Rightarrow> 'm \<Rightarrow> (nat \<times> 'm) option"
  op_free :: "nat \<Rightarrow> nat \<Rightarrow> 'm \<Rightarrow> 'm option"
  op_cow :: bool

definition needs_cow :: "'m db_ops \<Rightarrow> ('m, 'z) db_scheme \<Rightarrow> page \<Rightarrow> bool" where
  "needs_cow Ops s p \<longleftrightarrow> op_cow Ops \<and> page_txn p \<noteq> active_txn s"

definition alloc_slot :: "'m db_ops \<Rightarrow> nat \<Rightarrow> ('m, 'z) db_scheme \<Rightarrow> (nat \<times> ('m, 'z) db_scheme) option" where
  "alloc_slot Ops slot s =
     do { (a, m) \<leftarrow> op_alloc Ops slot (mem s);
          Some (a, s\<lparr>mem := m,
                     heap := (heap s)(a \<mapsto> \<lparr>page_txn = active_txn s, used = 0, slot_id = slot, body = Raw\<rparr>)\<rparr>) }"

definition set_page :: "nat \<Rightarrow> (page \<Rightarrow> page) \<Rightarrow> ('m, 'z) db_scheme \<Rightarrow> ('m, 'z) db_scheme option" where
  "set_page a f s = do { p \<leftarrow> heap s a; Some (s\<lparr>heap := (heap s)(a \<mapsto> f p)\<rparr>) }"

definition alloc_page ::
  "traits \<Rightarrow> 'm db_ops \<Rightarrow> nat \<Rightarrow> ('m, 'z) db_scheme \<Rightarrow> (nat \<times> ('m, 'z) db_scheme) option" where
  "alloc_page T Ops space s =
     (let slot = assign_slot T ((space + PAGE_HEADER_SIZE T) mod 65536)
      in if slot < length (PAGE_SIZES T) then
           do { (a, s) \<leftarrow> alloc_slot Ops slot s;
                s \<leftarrow> set_page a (\<lambda>p. p\<lparr>used := space\<rparr>) s;
                Some (a, s) }
         else None)"

text \<open>
  \<open>alloc_node\<close> returns the address behind the page header; nodes are named by their page. Sizes
  are passed as \<open>uint16_t\<close>.
\<close>

definition alloc_node ::
  "traits \<Rightarrow> 'm db_ops \<Rightarrow> nat \<Rightarrow> ('m, 'z) db_scheme \<Rightarrow> (nat \<times> ('m, 'z) db_scheme) option" where
  "alloc_node T Ops space s = alloc_page T Ops (space mod 65536) s"

definition free_node :: "'m db_ops \<Rightarrow> nat \<Rightarrow> ('m, 'z) db_scheme \<Rightarrow> ('m, 'z) db_scheme option" where
  "free_node Ops a s =
     do { p \<leftarrow> heap s a; m \<leftarrow> op_free Ops a (slot_id p) (mem s); Some (s\<lparr>mem := m\<rparr>) }"

definition trie_at :: "('m, 'z) db_scheme \<Rightarrow> nat \<Rightarrow> link trie_node option" where
  "trie_at s a = do { p \<leftarrow> heap s a; case body p of TrieN n \<Rightarrow> Some n | _ \<Rightarrow> None }"

definition leaf_at :: "('m, 'z) db_scheme \<Rightarrow> nat \<Rightarrow> leaf_node option" where
  "leaf_at s a = do { p \<leftarrow> heap s a; case body p of LeafN l \<Rightarrow> Some l | _ \<Rightarrow> None }"

definition put_trie :: "nat \<Rightarrow> link trie_node \<Rightarrow> ('m, 'z) db_scheme \<Rightarrow> ('m, 'z) db_scheme option" where
  "put_trie a n s = set_page a (\<lambda>p. p\<lparr>body := TrieN n\<rparr>) s"

definition put_leaf :: "nat \<Rightarrow> leaf_node \<Rightarrow> ('m, 'z) db_scheme \<Rightarrow> ('m, 'z) db_scheme option" where
  "put_leaf a l s = set_page a (\<lambda>p. p\<lparr>body := LeafN l\<rparr>) s"

section \<open>Link cells\<close>

text \<open>A cursor points at the cell that holds a link: the root field or a slot of a trie node.\<close>

datatype loc = LRoot | LSlot nat nat

fun read_loc :: "('m, 'z) db_scheme \<Rightarrow> loc \<Rightarrow> link option" where
  "read_loc s LRoot = Some (root s)"
| "read_loc s (LSlot a i) =
     do { n \<leftarrow> trie_at s a; if i < length (array n) then Some (array n ! i) else None }"

fun write_loc :: "loc \<Rightarrow> link \<Rightarrow> ('m, 'z) db_scheme \<Rightarrow> ('m, 'z) db_scheme option" where
  "write_loc LRoot l s = Some (s\<lparr>root := l\<rparr>)"
| "write_loc (LSlot a i) l s =
     do { n \<leftarrow> trie_at s a;
          if i < length (array n) then put_trie a (n\<lparr>array := (array n)[i := l]\<rparr>) s else None }"

section \<open>Branch keys\<close>

text \<open>The branch key of the sought key at the cursor: its next byte, or \<open>NONE\<close> at its end.\<close>

definition key_branch :: "bytes \<Rightarrow> int" where
  "key_branch k = (case k of [] \<Rightarrow> NONE | b # _ \<Rightarrow> uint b)"

end
