(* ===== verification/Leaves_Cursor.thy ===== *)
theory Leaves_Cursor
  imports Leaves_Store
begin

text \<open>
  Cursors (\<open>_Transition\<close>, \<open>_Stack\<close>, \<open>_CursorBase\<close> and \<open>_ICursor\<close> of
  \<open>include/leaves/intern/db/_cursor.hpp\<close>). The state of a cursor extends the state of its
  database: the stack of transitions from the root to the current node, the part of the sought
  key that is not consumed yet and the key of the current position. The vector behind the
  stack keeps the \<open>branch_key\<close> of popped transitions, which \<open>init\<close> does not reset: \<open>spare\<close>
  holds it by stack position.
\<close>

section \<open>State\<close>

record transition =
  t_node :: nat
  t_prefix :: nat
  t_keypos :: nat
  t_branch_key :: uint8
  t_cmp :: int
  t_offset :: loc
  t_link_idx :: nat

definition NOT_FOUND :: int where
  "NOT_FOUND = 2"

definition UNDEFINED :: int where
  "UNDEFINED = 3"

record 'm cursor = "'m db" +
  stack :: "transition list"
  spare :: "nat \<Rightarrow> uint8"
  rest_key :: bytes
  current_key :: bytes

datatype error = KeyTooBig | NoValidPosition

definition top_idx :: "('m, 'z) cursor_scheme \<Rightarrow> nat" where
  "top_idx s = length (stack s) - 1"

definition upd_tr :: "nat \<Rightarrow> (transition \<Rightarrow> transition) \<Rightarrow> ('m, 'z) cursor_scheme \<Rightarrow> ('m, 'z) cursor_scheme" where
  "upd_tr d f s = s\<lparr>stack := (stack s)[d := f (stack s ! d)]\<rparr>"

definition is_leaf :: "('m, 'z) cursor_scheme \<Rightarrow> nat \<Rightarrow> bool" where
  "is_leaf s d \<longleftrightarrow> (case read_loc s (t_offset (stack s ! d)) of Some l \<Rightarrow> ltype l = LEAF | None \<Rightarrow> False)"

definition success :: "('m, 'z) cursor_scheme \<Rightarrow> nat \<Rightarrow> bool" where
  "success s d \<longleftrightarrow> t_cmp (stack s ! d) = 0 \<and> is_leaf s d"

definition is_valid :: "('m, 'z) cursor_scheme \<Rightarrow> bool" where
  "is_valid s \<longleftrightarrow> stack s \<noteq> [] \<and> success s (top_idx s)"

section \<open>Keys and the stack\<close>

definition advance_key :: "nat \<Rightarrow> ('m, 'z) cursor_scheme \<Rightarrow> ('m, 'z) cursor_scheme" where
  "advance_key n s = s\<lparr>current_key := current_key s @ take n (rest_key s), rest_key := drop n (rest_key s)\<rparr>"

definition append_key :: "bytes \<Rightarrow> ('m, 'z) cursor_scheme \<Rightarrow> ('m, 'z) cursor_scheme" where
  "append_key bs s = s\<lparr>current_key := current_key s @ bs\<rparr>"

definition resize_key :: "nat \<Rightarrow> ('m, 'z) cursor_scheme \<Rightarrow> ('m, 'z) cursor_scheme" where
  "resize_key n s = s\<lparr>current_key := take n (current_key s @ replicate n 0)\<rparr>"

text \<open>\<open>_Transition::init\<close> and \<open>_Stack::push\<close> on the cell \<open>l\<close>.\<close>

definition push_loc :: "loc \<Rightarrow> ('m, 'z) cursor_scheme \<Rightarrow> ('m, 'z) cursor_scheme option" where
  "push_loc l s =
     do { lnk \<leftarrow> read_loc s l;
          Some (s\<lparr>stack := stack s @ [\<lparr>t_node = laddr lnk, t_prefix = 0, t_keypos = length (current_key s),
             t_branch_key = spare s (length (stack s)), t_cmp = UNDEFINED, t_offset = l, t_link_idx = 65535\<rparr>]\<rparr>) }"

definition link_of_tr :: "transition \<Rightarrow> loc" where
  "link_of_tr tr = LSlot (t_node tr) (t_link_idx tr)"

definition push :: "('m, 'z) cursor_scheme \<Rightarrow> ('m, 'z) cursor_scheme option" where
  "push s = push_loc (link_of_tr (stack s ! top_idx s)) s"

text \<open>The entries above the new size keep their branch key in the vector.\<close>

definition clear_stack :: "nat \<Rightarrow> ('m, 'z) cursor_scheme \<Rightarrow> ('m, 'z) cursor_scheme" where
  "clear_stack n s =
     s\<lparr>stack := take n (stack s),
       spare := (\<lambda>d. if n \<le> d \<and> d < length (stack s) then t_branch_key (stack s ! d) else spare s d)\<rparr>"

definition pop :: "('m, 'z) cursor_scheme \<Rightarrow> ('m, 'z) cursor_scheme" where
  "pop s = clear_stack (top_idx s) (resize_key (t_keypos (stack s ! top_idx s)) s)"

section \<open>Searching a key\<close>

definition prefix_of :: "traits \<Rightarrow> bytes \<Rightarrow> bytes \<Rightarrow> nat \<times> int" where
  "prefix_of T s t = get_prefix (LITTLE_ENDIAN T) (VECTOR_WIDTHS T) s t"

definition matched :: "nat \<Rightarrow> int \<Rightarrow> ('m, 'z) cursor_scheme \<Rightarrow> ('m, 'z) cursor_scheme" where
  "matched p c s = advance_key p (upd_tr (top_idx s) (\<lambda>tr. tr\<lparr>t_prefix := p, t_cmp := c\<rparr>) s)"

partial_function (option) find_tr :: "traits \<Rightarrow> ('m, 'z) cursor_scheme \<Rightarrow> ('m, 'z) cursor_scheme option" where
  "find_tr T s =
     (let d = top_idx s; a = t_node (stack s ! d)
      in if a = 0 then Some (upd_tr d (\<lambda>tr. tr\<lparr>t_cmp := NOT_FOUND\<rparr>) s)
         else if is_leaf s d then
           do { l \<leftarrow> leaf_at s a;
                let (p, c) = prefix_of T (rest_key s) (leaf_key l) in Some (matched p c s) }
         else
           do { n \<leftarrow> trie_at s a;
                let (p, c) = prefix_of T (rest_key s) (compressed n);
                    s1 = matched p c s
                in if p < unat (compressed_len n) then Some s1
                   else if rest_key s1 = [] then
                     (if has_none n
                      then Option.bind (push (upd_tr d (\<lambda>tr. tr\<lparr>t_link_idx := 0\<rparr>) s1)) (find_tr T)
                      else Some (upd_tr d (\<lambda>tr. tr\<lparr>t_cmp := -1\<rparr>) s1))
                   else
                     let bk = hd (rest_key s1); idx = array_index n (uint bk)
                     in if idx < 0
                        then Some (upd_tr d (\<lambda>tr. tr\<lparr>t_branch_key := bk, t_cmp := NOT_FOUND\<rparr>) s1)
                        else Option.bind
                               (push (upd_tr d (\<lambda>tr. tr\<lparr>t_branch_key := bk, t_cmp := 0, t_link_idx := nat idx\<rparr>) s1))
                               (find_tr T) })"

declare find_tr.simps [code]

section \<open>Stepping\<close>

definition leaf_step :: "nat \<Rightarrow> leaf_node \<Rightarrow> ('m, 'z) cursor_scheme \<Rightarrow> ('m, 'z) cursor_scheme" where
  "leaf_step d l s =
     upd_tr d (\<lambda>tr. tr\<lparr>t_prefix := unat (key_size l), t_cmp := 0\<rparr>)
       (append_key (leaf_key l) (resize_key (t_keypos (stack s ! d)) s))"

text \<open>Entering a trie node: its prefix joins the key and the link of index \<open>i\<close> is taken.\<close>

definition enter :: "nat \<Rightarrow> link trie_node \<Rightarrow> nat \<Rightarrow> ('m, 'z) cursor_scheme \<Rightarrow> ('m, 'z) cursor_scheme option" where
  "enter d n i s =
     push (upd_tr d (\<lambda>tr. tr\<lparr>t_prefix := unat (compressed_len n), t_cmp := 0, t_link_idx := i\<rparr>)
             (append_key (compressed n) s))"

text \<open>After the child was entered at key position \<open>kp\<close>, its first byte is the branch key.\<close>

definition set_branch :: "nat \<Rightarrow> nat \<Rightarrow> ('m, 'z) cursor_scheme \<Rightarrow> ('m, 'z) cursor_scheme" where
  "set_branch d kp s =
     (if kp < length (current_key s)
      then upd_tr d (\<lambda>tr. tr\<lparr>t_branch_key := current_key s ! kp\<rparr>) s else s)"

text \<open>
  \<open>next\<close> and \<open>last\<close> read that byte without the test; at the end of the key a \<open>std::string\<close> reads as 0.
\<close>

definition load_branch :: "nat \<Rightarrow> nat \<Rightarrow> ('m, 'z) cursor_scheme \<Rightarrow> ('m, 'z) cursor_scheme" where
  "load_branch d kp s =
     upd_tr d (\<lambda>tr. tr\<lparr>t_branch_key := (if kp < length (current_key s) then current_key s ! kp else 0)\<rparr>) s"

partial_function (option) first_tr :: "('m, 'z) cursor_scheme \<Rightarrow> ('m, 'z) cursor_scheme option" where
  "first_tr s =
     (let d = top_idx s; a = t_node (stack s ! d)
      in if is_leaf s d then do { l \<leftarrow> leaf_at s a; Some (leaf_step d l s) }
         else do { n \<leftarrow> trie_at s a;
                   s1 \<leftarrow> enter d n 0 s;
                   s2 \<leftarrow> first_tr s1;
                   Some (set_branch d (t_keypos (stack s1 ! Suc d)) s2) })"

partial_function (option) last_tr :: "('m, 'z) cursor_scheme \<Rightarrow> ('m, 'z) cursor_scheme option" where
  "last_tr s =
     (let d = top_idx s; a = t_node (stack s ! d)
      in if is_leaf s d then do { l \<leftarrow> leaf_at s a; Some (leaf_step d l s) }
         else do { n \<leftarrow> trie_at s a;
                   s1 \<leftarrow> enter d n (node_count n - 1) s;
                   s2 \<leftarrow> last_tr s1;
                   Some (load_branch d (t_keypos (stack s1 ! Suc d)) s2) })"

declare first_tr.simps [code] last_tr.simps [code]

text \<open>\<open>_Transition::next\<close> of the last transition; the flag is the returned value.\<close>

definition next_tr :: "('m, 'z) cursor_scheme \<Rightarrow> (bool \<times> ('m, 'z) cursor_scheme) option" where
  "next_tr s =
     (let d = top_idx s; tr = stack s ! d; a = t_node tr
      in if is_leaf s d then
           (if t_cmp tr < 0 then do { l \<leftarrow> leaf_at s a; Some (True, leaf_step d l s) }
            else Some (False, s))
         else
           do { n \<leftarrow> trie_at s a;
                if t_cmp tr = 0 then
                  (let i = t_link_idx tr + 1; s1 = upd_tr d (\<lambda>tr. tr\<lparr>t_link_idx := i\<rparr>) s
                   in if i \<ge> node_count n then Some (False, s1)
                      else do { s2 \<leftarrow> push s1;
                                s3 \<leftarrow> first_tr s2;
                                Some (True, load_branch d (t_keypos (stack s2 ! Suc d)) s3) })
                else
                  let s1 = resize_key (t_keypos tr) s
                  in if t_prefix tr < unat (compressed_len n) then
                       (if t_cmp tr > 0 then Some (False, s1)
                        else do { s2 \<leftarrow> first_tr s1; Some (True, s2) })
                     else
                       let s2 = append_key (compressed n) s1; nx = node_next n (uint (t_branch_key tr))
                       in if nx = OUT_OF_RANGE then Some (False, s2)
                          else do { s3 \<leftarrow> push (upd_tr d (\<lambda>tr. tr\<lparr>t_cmp := 0, t_branch_key := word_of_int nx,
                                            t_link_idx := nat (array_index n nx)\<rparr>) s2);
                                    s4 \<leftarrow> first_tr s3;
                                    Some (True, s4) } })"

definition prev_tr :: "('m, 'z) cursor_scheme \<Rightarrow> (bool \<times> ('m, 'z) cursor_scheme) option" where
  "prev_tr s =
     (let d = top_idx s; tr = stack s ! d; a = t_node tr
      in if is_leaf s d then
           (if t_cmp tr > 0 then do { l \<leftarrow> leaf_at s a; Some (True, leaf_step d l s) }
            else Some (False, s))
         else
           do { n \<leftarrow> trie_at s a;
                if t_cmp tr = 0 then
                  (if t_link_idx tr = 0 then Some (False, upd_tr d (\<lambda>tr. tr\<lparr>t_link_idx := 65535\<rparr>) s)
                   else do { s2 \<leftarrow> push (upd_tr d (\<lambda>tr. tr\<lparr>t_link_idx := t_link_idx tr - 1\<rparr>) s);
                             s3 \<leftarrow> last_tr s2;
                             Some (True, set_branch d (t_keypos (stack s2 ! Suc d)) s3) })
                else
                  let s1 = resize_key (t_keypos tr) s
                  in if t_prefix tr < unat (compressed_len n) then
                       (if t_cmp tr < 0 then Some (False, s1)
                        else do { s2 \<leftarrow> last_tr s1; Some (True, s2) })
                     else
                       let s2 = append_key (compressed n) s1; pv = node_prev n (uint (t_branch_key tr))
                       in if pv = OUT_OF_RANGE then Some (False, s2)
                          else do { s3 \<leftarrow> push (upd_tr d (\<lambda>tr. tr\<lparr>t_cmp := 0, t_branch_key := word_of_int pv,
                                            t_link_idx := nat (array_index n pv)\<rparr>) s2);
                                    s4 \<leftarrow> last_tr s3;
                                    Some (True, s4) } })"

section \<open>The cursor\<close>

text \<open>\<open>_ICursor::keep_stack\<close>; the flag is the returned value.\<close>

definition keep_depth :: "nat \<Rightarrow> transition list \<Rightarrow> nat" where
  "keep_depth same trs = length trs - length (takeWhile (\<lambda>tr. t_keypos tr \<ge> same) (rev trs))"

definition keep_stack :: "traits \<Rightarrow> ('m, 'z) cursor_scheme \<Rightarrow> bool \<times> ('m, 'z) cursor_scheme" where
  "keep_stack T s =
     (let same = fst (prefix_of T (rest_key s) (current_key s))
      in if same = length (rest_key s) \<and> same = length (current_key s)
         then (True, s\<lparr>rest_key := drop same (rest_key s)\<rparr>)
         else let s1 = clear_stack (keep_depth same (stack s)) s
              in if stack s1 = [] then (False, s1)
                 else let s2 = upd_tr (top_idx s1) (\<lambda>tr. tr\<lparr>t_prefix := 0, t_cmp := UNDEFINED\<rparr>) s1;
                          kp = t_keypos (stack s2 ! top_idx s2)
                      in (False, resize_key kp (s2\<lparr>rest_key := drop kp (rest_key s2)\<rparr>)))"

definition find_from :: "traits \<Rightarrow> ('m, 'z) cursor_scheme \<Rightarrow> ('m, 'z) cursor_scheme option" where
  "find_from T s =
     (if stack s = [] then
        (if root s = 0 then Some s
         else Option.bind (push_loc LRoot (s\<lparr>current_key := []\<rparr>)) (find_tr T))
      else find_tr T s)"

definition cursor_find ::
  "traits \<Rightarrow> bytes \<Rightarrow> ('m, 'z) cursor_scheme \<Rightarrow> (error + ('m, 'z) cursor_scheme) option" where
  "cursor_find T key s =
     (if length key > MAX_KEY_SIZE T then Some (Inl KeyTooBig)
      else let s1 = s\<lparr>rest_key := key\<rparr>
           in map_option Inr
                (if stack s1 = [] then find_from T s1
                 else case keep_stack T s1 of (True, s2) \<Rightarrow> Some s2 | (False, s2) \<Rightarrow> find_from T s2))"

text \<open>\<open>_ICursor::clear\<close>: true when the database is empty.\<close>

definition cursor_clear :: "('m, 'z) cursor_scheme \<Rightarrow> (bool \<times> ('m, 'z) cursor_scheme) option" where
  "cursor_clear s =
     (let s1 = (clear_stack 0 s)\<lparr>rest_key := [], current_key := []\<rparr>
      in if root s1 = 0 then Some (True, s1)
         else do { s2 \<leftarrow> push_loc LRoot s1; Some (False, s2) })"

definition cursor_first :: "('m, 'z) cursor_scheme \<Rightarrow> ('m, 'z) cursor_scheme option" where
  "cursor_first s = do { (e, s1) \<leftarrow> cursor_clear s; if e then Some s1 else first_tr s1 }"

definition cursor_last :: "('m, 'z) cursor_scheme \<Rightarrow> ('m, 'z) cursor_scheme option" where
  "cursor_last s = do { (e, s1) \<leftarrow> cursor_clear s; if e then Some s1 else last_tr s1 }"

text \<open>
  The loops of \<open>next\<close> and \<open>prev\<close>: every round that does not return pops one transition, so
  the size of the stack bounds the number of rounds.
\<close>

fun step_loop ::
  "(('m, 'z) cursor_scheme \<Rightarrow> (bool \<times> ('m, 'z) cursor_scheme) option) \<Rightarrow> nat
    \<Rightarrow> ('m, 'z) cursor_scheme \<Rightarrow> ('m, 'z) cursor_scheme option" where
  "step_loop f 0 s = Some s"
| "step_loop f (Suc k) s =
     do { (r, s1) \<leftarrow> f s; if r then Some s1 else step_loop f k (pop s1) }"

definition cursor_next :: "('m, 'z) cursor_scheme \<Rightarrow> ('m, 'z) cursor_scheme option" where
  "cursor_next s = step_loop next_tr (length (stack s)) (s\<lparr>rest_key := []\<rparr>)"

definition cursor_prev :: "('m, 'z) cursor_scheme \<Rightarrow> ('m, 'z) cursor_scheme option" where
  "cursor_prev s = step_loop prev_tr (length (stack s)) (s\<lparr>rest_key := []\<rparr>)"

text \<open>\<open>value()\<close> reads the last transition; with an empty stack there is none.\<close>

definition cursor_value :: "('m, 'z) cursor_scheme \<Rightarrow> bytes option" where
  "cursor_value s =
     (if stack s = [] then None
      else if success s (top_idx s) then map_option leaf_value (leaf_at s (t_node (stack s ! top_idx s)))
      else Some [])"

end
