(* ===== verification/Leaves_Trie.thy ===== *)
theory Leaves_Trie
  imports Leaves_Store
begin

text \<open>
  The abstract trie a heap of pages stands for: its nodes with their addresses, the entries it
  holds in order, looking up a key, and the shape invariant. A heap holds such a trie when every
  node is the page at its address.
\<close>

section \<open>Abstract tries\<close>

type_synonym entry = "bytes \<times> (bool \<times> bytes)"

datatype atree = ALeaf (addr: nat) (label: bytes) (aval: "bool \<times> bytes")
  | ANode (addr: nat) (label: bytes) (akeys: "int list") (achildren: "atree list")

fun tree_link :: "atree \<Rightarrow> link" where
  "tree_link (ALeaf a k v) = Link LEAF a"
| "tree_link (ANode a p ks cs) = Link TRIE a"

fun addrs :: "atree \<Rightarrow> nat list" where
  "addrs (ALeaf a k v) = [a]"
| "addrs (ANode a p ks cs) = a # concat (map addrs cs)"

fun entries :: "atree \<Rightarrow> entry list" where
  "entries (ALeaf a k v) = [(k, v)]"
| "entries (ANode a p ks cs) = map (apfst ((@) p)) (concat (map entries cs))"

text \<open>A child under \<open>NONE\<close> is a leaf with an empty key; another child starts with its branch key.\<close>

definition branch_ok :: "int \<Rightarrow> atree \<Rightarrow> bool" where
  "branch_ok k c \<longleftrightarrow>
     (if k = NONE then (\<exists>a v. c = ALeaf a [] v) else label c \<noteq> [] \<and> k = uint (hd (label c)))"

fun wf_tree :: "atree \<Rightarrow> bool" where
  "wf_tree (ALeaf a k v) \<longleftrightarrow> length k \<le> 255"
| "wf_tree (ANode a p ks cs) \<longleftrightarrow> length p \<le> 255 \<and> length ks = length cs \<and> ks \<noteq> [] \<and> sorted_wrt (<) ks
     \<and> (\<forall>i<length cs. branch_ok (ks ! i) (cs ! i)) \<and> (\<forall>c\<in>set cs. wf_tree c)"

fun lookup :: "atree \<Rightarrow> bytes \<Rightarrow> (bool \<times> bytes) option" where
  "lookup (ALeaf a k v) key = (if key = k then Some v else None)"
| "lookup (ANode a p ks cs) key =
     (if Sublist.prefix p key then
        let r = drop (length p) key
        in if key_branch r \<in> set ks
           then Option.bind (map_of (zip ks (map lookup cs)) (key_branch r)) (\<lambda>f. f r)
           else None
      else None)"

section \<open>Looking up is searching the entries\<close>

lemma map_of_prepend:
  "map_of (map (apfst ((@) p)) es) key =
    (if Sublist.prefix p key then map_of es (drop (length p) key) else None)"
proof (induction es)
  case (Cons e es)
  obtain k v where e: "e = (k, v)" by force
  have "p @ k = key \<longleftrightarrow> Sublist.prefix p key \<and> k = drop (length p) key"
    by (auto simp: Sublist.prefix_def)
  then show ?case using Cons e by auto
qed simp

lemma key_branch_append: "xs \<noteq> [] \<Longrightarrow> key_branch (xs @ ys) = uint (hd xs)"
  by (cases xs) (auto simp: key_branch_def)

lemma entries_branch:
  assumes "branch_ok k c" "(key, v) \<in> set (entries c)"
  shows "key_branch key = k"
proof (cases "k = NONE")
  case True
  then show ?thesis using assms by (auto simp: branch_ok_def key_branch_def)
next
  case False
  then have l: "label c \<noteq> []" "k = uint (hd (label c))" using assms(1) by (auto simp: branch_ok_def)
  obtain ys where "key = label c @ ys" using assms(2) by (cases c) auto
  then show ?thesis using l key_branch_append by simp
qed

lemma map_of_concat_branches:
  assumes "length ks = length cs" "distinct ks" "\<forall>i<length cs. branch_ok (ks ! i) (cs ! i)"
  shows "map_of (concat (map entries cs)) r =
    Option.bind (map_of (zip ks cs) (key_branch r)) (\<lambda>c. map_of (entries c) r)"
  using assms
proof (induction ks cs rule: list_induct2)
  case (Cons k ks c cs)
  have ok: "branch_ok k c" "\<forall>i<length cs. branch_ok (ks ! i) (cs ! i)"
    using Cons.prems(2) by (auto dest: spec[of _ 0] spec[of _ "Suc _"])
  note IH = Cons.IH[OF _ ok(2)]
  show ?case
  proof (cases "key_branch r = k")
    case True
    have "map_of (zip ks cs) k = None" using Cons.prems(1) Cons.hyps by (auto simp: map_of_eq_None_iff dest: set_zip_leftD)
    then have "map_of (concat (map entries cs)) r = None" using IH Cons.prems(1) True by simp
    then show ?thesis using True by (simp add: map_add_def split: option.splits)
  next
    case False
    have "map_of (entries c) r = None"
    proof (rule ccontr)
      assume "map_of (entries c) r \<noteq> None"
      then obtain v where "(r, v) \<in> set (entries c)" by (auto dest: map_of_SomeD)
      from entries_branch[OF ok(1) this] show False using False by simp
    qed
    then show ?thesis using IH Cons.prems(1) False by (simp add: map_add_def split: option.splits)
  qed
qed simp

lemma map_of_zip_map_fun:
  "length ks = length cs \<Longrightarrow> map_of (zip ks (map f cs)) k = map_option f (map_of (zip ks cs) k)"
  by (induction ks cs rule: list_induct2) auto

lemma map_of_zip_in_set: "map_of (zip ks cs) k = Some c \<Longrightarrow> c \<in> set cs"
  by (auto dest!: map_of_SomeD dest: set_zip_rightD)

lemma lookup_entries: "wf_tree t \<Longrightarrow> lookup t key = map_of (entries t) key"
proof (induction t arbitrary: key)
  case (ANode a p ks cs)
  then have w: "length ks = length cs" "distinct ks" "\<forall>i<length cs. branch_ok (ks ! i) (cs ! i)"
    by (auto simp: strict_sorted_iff)
  let ?r = "drop (length p) key"
  have "Option.bind (map_of (zip ks cs) (key_branch ?r)) (\<lambda>c. lookup c ?r)
      = Option.bind (map_of (zip ks cs) (key_branch ?r)) (\<lambda>c. map_of (entries c) ?r)"
  proof (cases "map_of (zip ks cs) (key_branch ?r)")
    case (Some c)
    then have "c \<in> set cs" by (rule map_of_zip_in_set)
    then show ?thesis using ANode.IH[of c ?r] ANode.prems Some by simp
  qed simp
  moreover have "key_branch ?r \<notin> set ks \<Longrightarrow> map_of (zip ks cs) (key_branch ?r) = None"
    by (auto simp: map_of_eq_None_iff dest: set_zip_leftD)
  ultimately show ?case
    using map_of_concat_branches[OF w, of ?r]
    by (auto simp: map_of_prepend map_of_zip_map_fun[OF w(1)] Let_def comp_def bind_map_option)
qed auto

section \<open>Entries are sorted by key\<close>

lemma key_branch_less:
  assumes "key_branch k < key_branch k'"
  shows "k < k'"
proof -
  have "\<not> uint (x :: uint8) < -1" for x by (smt (verit) uint_ge_0)
  then show ?thesis using assms by (auto simp: key_branch_def NONE_def word_less_def split: list.splits)
qed

lemma append_less_iff [simp]: "p @ x < p @ y \<longleftrightarrow> x < (y :: bytes)"
  by (induction p) auto

lemma sorted_entries: "wf_tree t \<Longrightarrow> sorted_wrt (<) (map fst (entries t))"
proof (induction t)
  case (ANode a p ks cs)
  have w: "length ks = length cs" "sorted_wrt (<) ks" "\<forall>i<length cs. branch_ok (ks ! i) (cs ! i)"
    using ANode.prems by auto
  have IH: "\<forall>c\<in>set cs. sorted_wrt (<) (map fst (entries c))" using ANode by auto
  have "sorted_wrt (<) (map fst (concat (map entries cs)))"
    using w IH
  proof (induction ks cs rule: list_induct2)
    case (Cons k ks c cs)
    have ok: "branch_ok k c" "\<forall>i<length cs. branch_ok (ks ! i) (cs ! i)"
      using Cons.prems(2) by (auto dest: spec[of _ 0] spec[of _ "Suc _"])
    have "x < y" if x: "x \<in> fst ` set (entries c)" and y: "y \<in> fst ` set (concat (map entries cs))" for x y
    proof -
      obtain i where i: "i < length cs" "y \<in> fst ` set (entries (cs ! i))"
        using y by (auto simp: set_conv_nth[of cs])
      have "key_branch x = k" "key_branch y = ks ! i"
        using entries_branch[OF ok(1)] entries_branch[of "ks ! i" "cs ! i"] ok(2) i x by force+
      moreover have "k < ks ! i" using Cons.prems(1) Cons.hyps i(1) by simp
      ultimately show ?thesis using key_branch_less by metis
    qed
    then show ?case using Cons ok by (auto simp: sorted_wrt_append)
  qed simp
  then show ?case
    by (simp add: comp_def sorted_wrt_map)
qed auto

section \<open>The heap holds a trie\<close>

lemma node_keys_array [simp]: "node_keys (n\<lparr>array := xs\<rparr>) = node_keys n"
  by (simp add: node_keys_def has_none_def)

lemma node_count_array [simp]: "node_count (n\<lparr>array := xs\<rparr>) = node_count n"
  by (simp add: node_count_def)

lemma wf_node_array: "wf_node T n \<Longrightarrow> length xs = length (array n) \<Longrightarrow> wf_node T (n\<lparr>array := xs\<rparr>)"
  by (simp add: wf_node_def wf_layout_def wf_bitmaps_def calc_lower_start_def calc_array_start_def
      lower_start_def array_start_def)

fun holds :: "traits \<Rightarrow> heap \<Rightarrow> atree \<Rightarrow> bool" where
  "holds T h (ALeaf a k v) \<longleftrightarrow> a \<noteq> 0 \<and> (\<exists>p l. h a = Some p \<and> body p = LeafN l
     \<and> length (leaf_data l) = unat (key_size l) + vsize l \<and> leaf_key l = k \<and> (leaf_is_big l, leaf_value l) = v)"
| "holds T h (ANode a p ks cs) \<longleftrightarrow> a \<noteq> 0 \<and> (\<exists>pg n. h a = Some pg \<and> body pg = TrieN n \<and> wf_node T n
     \<and> compressed n = p \<and> node_keys n = ks \<and> array n = map tree_link cs) \<and> (\<forall>c\<in>set cs. holds T h c)"

lemma holds_cong:
  "holds T h t \<Longrightarrow> (\<And>a. a \<in> set (addrs t) \<Longrightarrow> h' a = h a) \<Longrightarrow> holds T h' t"
  by (induction t) auto

lemma addr_in_addrs [simp]: "addr t \<in> set (addrs t)"
  by (cases t) auto

lemma laddr_tree_link [simp]: "laddr (tree_link t) = addr t"
  by (cases t) auto

lemma holds_addr: "holds T h t \<Longrightarrow> addr t \<noteq> 0 \<and> h (addr t) \<noteq> None"
  by (cases t) auto

lemma tree_link_inject_addr: "tree_link t = Link k a \<Longrightarrow> addr t = a"
  by (cases t) auto

end
