(* ===== verification/Leaves_Find.thy ===== *)
theory Leaves_Find
  imports Leaves_Cursor Leaves_Trie
begin

text \<open>
  Searching a key with a cursor: the stack after \<open>find\<close> is the path along which the key leads
  into the trie, and the cursor is valid exactly when the trie holds the key.
\<close>

section \<open>Where the search of a key ends\<close>

definition cursor_traits :: "traits \<Rightarrow> bool" where
  "cursor_traits T \<longleftrightarrow> traits_ok T \<and> LITTLE_ENDIAN T \<and> (\<forall>w\<in>set (VECTOR_WIDTHS T). w \<le> 64)"

abbreviation lcp :: "bytes \<Rightarrow> bytes \<Rightarrow> nat" where
  "lcp s t \<equiv> length (longest_common_prefix s t)"

definition on_tree :: "loc \<Rightarrow> nat \<Rightarrow> atree \<Rightarrow> transition \<Rightarrow> bool" where
  "on_tree l kp t tr \<longleftrightarrow> t_offset tr = l \<and> t_keypos tr = kp \<and> t_node tr = addr t"

text \<open>
  \<open>descent t l kp key trs r is c\<close>: searching \<open>key\<close> in \<open>t\<close>, whose link is in the cell \<open>l\<close>, passes
  the transitions \<open>trs\<close> and ends at the subtree \<open>c\<close> reached by the child indices \<open>is\<close>, with the
  rest \<open>r\<close> of the key not consumed.
\<close>

inductive descent :: "atree \<Rightarrow> loc \<Rightarrow> nat \<Rightarrow> bytes \<Rightarrow> transition list \<Rightarrow> bytes \<Rightarrow> nat list \<Rightarrow> atree \<Rightarrow> bool" where
  leaf: "on_tree l kp (ALeaf a lk v) tr \<Longrightarrow> t_prefix tr = lcp key lk \<Longrightarrow> t_cmp tr = key_cmp key lk \<Longrightarrow>
    descent (ALeaf a lk v) l kp key [tr] (drop (lcp key lk) key) [] (ALeaf a lk v)"
| split: "on_tree l kp (ANode a p ks cs) tr \<Longrightarrow> \<not> Sublist.prefix p key \<Longrightarrow> t_prefix tr = lcp key p \<Longrightarrow>
    t_cmp tr = key_cmp key p \<Longrightarrow>
    descent (ANode a p ks cs) l kp key [tr] (drop (lcp key p) key) [] (ANode a p ks cs)"
| missing: "on_tree l kp (ANode a p ks cs) tr \<Longrightarrow> t_prefix tr = length p \<Longrightarrow> key_branch r \<notin> set ks \<Longrightarrow>
    t_cmp tr = (if r = [] then -1 else NOT_FOUND) \<Longrightarrow> r \<noteq> [] \<longrightarrow> t_branch_key tr = hd r \<Longrightarrow>
    descent (ANode a p ks cs) l kp (p @ r) [tr] r [] (ANode a p ks cs)"
| down: "on_tree l kp (ANode a p ks cs) tr \<Longrightarrow> t_prefix tr = length p \<Longrightarrow> i < length cs \<Longrightarrow>
    ks ! i = key_branch key \<Longrightarrow> t_cmp tr = 0 \<or> key \<noteq> [] \<Longrightarrow> t_link_idx tr = i \<Longrightarrow> key \<noteq> [] \<longrightarrow> t_branch_key tr = hd key \<Longrightarrow>
    descent (cs ! i) (LSlot a i) (kp + length p) key trs r is c \<Longrightarrow>
    descent (ANode a p ks cs) l kp (p @ key) (tr # trs) r (i # is) c"

inductive_simps descent_ALeaf: "descent (ALeaf a lk v) l kp key trs r is c"

lemma descent_rest_length: "descent t l kp key trs r is c \<Longrightarrow> length r \<le> length key"
  by (induction rule: descent.induct) auto

section \<open>Elementary steps\<close>

lemma prefix_of_eq: "cursor_traits T \<Longrightarrow> prefix_of T s t = (lcp s t, key_cmp s t)"
  by (simp add: prefix_of_def cursor_traits_def get_prefix_eq)

lemma lcp_le: "lcp s t \<le> length s" "lcp s t \<le> length t"
  using longest_common_prefix_prefix1[of s t] longest_common_prefix_prefix2[of s t]
  by (auto dest: prefix_length_le)

lemma take_lcp: "take (lcp s t) s = take (lcp s t) t"
  using longest_common_prefix_prefix1[of s t] longest_common_prefix_prefix2[of s t]
  by (metis append_eq_conv_conj Sublist.prefix_def)

lemma lcp_prefix: "\<not> lcp key p < length p \<longleftrightarrow> Sublist.prefix p key"
proof
  assume "\<not> lcp key p < length p"
  then have "lcp key p = length p" using lcp_le(2)[of key p] by simp
  then show "Sublist.prefix p key" using take_lcp[of key p] by (metis take_all_iff order_refl take_is_prefix)
next
  assume "Sublist.prefix p key"
  then have "Sublist.prefix p (longest_common_prefix key p)"
    by (simp add: longest_common_prefix_max_prefix)
  then show "\<not> lcp key p < length p" using prefix_length_le by fastforce
qed

lemma lcp_append [simp]: "lcp (p @ key) p = length p"
  using lcp_prefix[of "p @ key" p] lcp_le(2)[of "p @ key" p] by simp

lemma key_cmp_eq_0 [simp]: "key_cmp s t = 0 \<longleftrightarrow> s = t"
  by (simp add: key_cmp_def)

lemma key_cmp_self [simp]: "key_cmp s s = 0"
  by (simp add: key_cmp_def)

lemma top_idx_snoc [simp]: "stack s = trs @ [tr] \<Longrightarrow> top_idx s = length trs"
  by (simp add: top_idx_def)

lemma upd_tr_snoc: "stack s = trs @ [tr] \<Longrightarrow> upd_tr (length trs) f s = s\<lparr>stack := trs @ [f tr]\<rparr>"
  by (simp add: upd_tr_def)

lemma matched_snoc:
  "stack s = trs @ [tr] \<Longrightarrow> matched p c s = s\<lparr>stack := trs @ [tr\<lparr>t_prefix := p, t_cmp := c\<rparr>],
     current_key := current_key s @ take p (rest_key s), rest_key := drop p (rest_key s)\<rparr>"
  by (simp add: matched_def upd_tr_snoc advance_key_def)

lemma read_loc_cong:
  assumes "heap s = heap s'" "root s = root s'"
  shows "read_loc s l = read_loc s' l"
  using assms by (cases l) (simp_all add: trie_at_def)

lemma is_leaf_snoc:
  "stack s = trs @ [tr] \<Longrightarrow> read_loc s (t_offset tr) = Some l \<Longrightarrow> is_leaf s (length trs) \<longleftrightarrow> ltype l = LEAF"
  by (simp add: is_leaf_def)

text \<open>The trie node a held branch node lives in.\<close>

lemma holds_trie:
  assumes "holds T (heap s) (ANode a p ks cs)"
  obtains n where "trie_at s a = Some n" "a \<noteq> 0" "wf_node T n" "compressed n = p" "node_keys n = ks"
    "array n = map tree_link cs" "unat (compressed_len n) = length p" "node_count n = length cs"
    "length ks = length cs"
proof -
  obtain pg n where n: "a \<noteq> 0" "heap s a = Some pg" "body pg = TrieN n" "wf_node T n"
    "compressed n = p" "node_keys n = ks" "array n = map tree_link cs" using assms by auto
  then have "trie_at s a = Some n" by (simp add: trie_at_def)
  moreover have "unat (compressed_len n) = length p" "node_count n = length cs" "length ks = length cs"
    using n(4-7) by (auto simp: wf_node_def wf_layout_def wf_bitmaps_def)
  ultimately show thesis using n that by blast
qed

lemma read_slot:
  assumes "holds T (heap s) (ANode a p ks cs)" "i < length cs"
  shows "read_loc s (LSlot a i) = Some (tree_link (cs ! i))"
proof -
  obtain n where "trie_at s a = Some n" "array n = map tree_link cs" using holds_trie[OF assms(1)] by metis
  then show ?thesis using assms(2) by simp
qed

definition child_tr :: "(nat \<Rightarrow> uint8) \<Rightarrow> nat \<Rightarrow> loc \<Rightarrow> nat \<Rightarrow> atree \<Rightarrow> transition" where
  "child_tr sp d l kp t = \<lparr>t_node = addr t, t_prefix = 0, t_keypos = kp, t_branch_key = sp d,
     t_cmp = UNDEFINED, t_offset = l, t_link_idx = 65535\<rparr>"

lemma on_child_tr [simp]: "on_tree l kp t (child_tr sp d l kp t)"
  by (simp add: on_tree_def child_tr_def)

lemma push_loc_eq:
  assumes "read_loc s l = Some (tree_link t)"
  shows "push_loc l s = Some (s\<lparr>stack := stack s @ [child_tr (spare s) (length (stack s)) l (length (current_key s)) t]\<rparr>)"
  using assms by (simp add: push_loc_def child_tr_def)

lemma push_down:
  assumes "stack s = trs @ [tr]" "t_node tr = a" "t_link_idx tr = i"
    and "holds T (heap s) (ANode a p ks cs)" "i < length cs"
  shows "push s = Some (s\<lparr>stack := (trs @ [tr]) @
      [child_tr (spare s) (Suc (length trs)) (LSlot a i) (length (current_key s)) (cs ! i)]\<rparr>)"
  using push_loc_eq[OF read_slot[OF assms(4,5)]] assms(1-3)
  by (simp add: push_def link_of_tr_def)

lemma index_of_key:
  assumes "wf_node T n" "valid_key k"
  shows "(k \<in> set (node_keys n) \<longleftrightarrow> 0 \<le> array_index n k)"
    "0 \<le> array_index n k \<Longrightarrow> nat (array_index n k) < length (node_keys n) \<and> node_keys n ! nat (array_index n k) = k"
proof -
  have wf: "wf_bitmaps n" using assms(1) by (simp add: wf_node_def)
  note ix = array_index_eq[OF wf assms(2)]
  show "k \<in> set (node_keys n) \<longleftrightarrow> 0 \<le> array_index n k" using ix by simp
  assume "0 \<le> array_index n k"
  then have k: "k \<in> set (node_keys n)" using ix by (auto split: if_splits)
  then obtain j where j: "j < length (node_keys n)" "node_keys n ! j = k" by (auto simp: in_set_conv_nth)
  then have "length (filter (\<lambda>x. x < k) (node_keys n)) = j"
    using length_filter_less_nth[of "node_keys n" j] sorted_node_keys[OF wf] by (simp add: strict_sorted_iff)
  then show "nat (array_index n k) < length (node_keys n) \<and> node_keys n ! nat (array_index n k) = k"
    using ix k j by simp
qed

lemma valid_uint: "valid_key (uint (b :: uint8))"
proof -
  have "0 \<le> uint b" "uint b < 256" using uint_lt2p[of b] by simp_all
  then show ?thesis unfolding valid_key_def by linarith
qed

lemma none_first:
  assumes "wf_node T n"
  shows "has_none n \<longleftrightarrow> NONE \<in> set (node_keys n)" "has_none n \<Longrightarrow> node_keys n ! 0 = NONE \<and> 0 < length (node_keys n)"
  using node_isset_iff[of n NONE] assms
  by (auto simp: wf_node_def node_isset_def valid_key_def NONE_def node_keys_def)

section \<open>The search\<close>

lemma find_tr_descent:
  assumes "cursor_traits T" "holds T (heap s) t" "stack s = trs @ [tr]" "on_tree l kp t tr"
    and "read_loc s l = Some (tree_link t)" "kp = length (current_key s)"
  shows "\<exists>new r is c. find_tr T s = Some (s\<lparr>stack := trs @ new, rest_key := r,
        current_key := current_key s @ take (length (rest_key s) - length r) (rest_key s)\<rparr>)
      \<and> descent t l kp (rest_key s) new r is c"
  using assms(2-6)
proof (induction t arbitrary: s trs tr l kp)
  case (ALeaf a lk v)
  note P = ALeaf.prems and pf = prefix_of_eq[OF assms(1)]
  obtain pg lf where lf: "a \<noteq> 0" "heap s a = Some pg" "body pg = LeafN lf" "leaf_key lf = lk" using P(1) by auto
  have tr: "t_node tr = a" "t_offset tr = l" using P(3) by (auto simp: on_tree_def)
  have isl: "is_leaf s (length trs)" using is_leaf_snoc[OF P(2)] tr P(4) by simp
  let ?tr = "tr\<lparr>t_prefix := lcp (rest_key s) lk, t_cmp := key_cmp (rest_key s) lk\<rparr>"
  have "find_tr T s = Some (matched (lcp (rest_key s) lk) (key_cmp (rest_key s) lk) s)"
    using isl lf P(2) tr pf by (subst find_tr.simps) (simp add: Let_def leaf_at_def)
  moreover have "descent (ALeaf a lk v) l kp (rest_key s) [?tr] (drop (lcp (rest_key s) lk) (rest_key s)) [] (ALeaf a lk v)"
    using P(3) by (intro descent.leaf) (simp_all add: on_tree_def)
  ultimately show ?case
    using matched_snoc[OF P(2)] lcp_le(1)[of "rest_key s" lk] by (intro exI conjI) (auto simp: min_def)
next
  case (ANode a p ks cs)
  note P = ANode.prems and pf = prefix_of_eq[OF assms(1)]
  obtain n where n: "trie_at s a = Some n" "a \<noteq> 0" "wf_node T n" "compressed n = p" "node_keys n = ks"
    "array n = map tree_link cs" "unat (compressed_len n) = length p" "node_count n = length cs" "length ks = length cs"
    using holds_trie[OF P(1)] by metis
  have tr: "t_node tr = a" "t_offset tr = l" "t_keypos tr = kp" using P(3) by (auto simp: on_tree_def)
  have nl: "\<not> is_leaf s (length trs)" using is_leaf_snoc[OF P(2)] tr P(4) by simp
  let ?key = "rest_key s" and ?k1 = "drop (length p) (rest_key s)"
  let ?m = "matched (lcp ?key p) (key_cmp ?key p) s"
  have unf: "find_tr T s = (if lcp ?key p < length p then Some ?m
      else if rest_key ?m = [] then
        (if has_none n then Option.bind (push (upd_tr (length trs) (\<lambda>tr. tr\<lparr>t_link_idx := 0\<rparr>) ?m)) (find_tr T)
         else Some (upd_tr (length trs) (\<lambda>tr. tr\<lparr>t_cmp := -1\<rparr>) ?m))
      else let bk = hd (rest_key ?m); idx = array_index n (uint bk)
           in if idx < 0 then Some (upd_tr (length trs) (\<lambda>tr. tr\<lparr>t_branch_key := bk, t_cmp := NOT_FOUND\<rparr>) ?m)
              else Option.bind (push (upd_tr (length trs) (\<lambda>tr. tr\<lparr>t_branch_key := bk, t_cmp := 0, t_link_idx := nat idx\<rparr>) ?m)) (find_tr T))"
    using nl n P(2) tr pf by (subst find_tr.simps) (simp add: Let_def)
  note m = matched_snoc[OF P(2), of "lcp ?key p" "key_cmp ?key p"]
  show ?case
  proof (cases "Sublist.prefix p ?key")
    case False
    let ?tr = "tr\<lparr>t_prefix := lcp ?key p, t_cmp := key_cmp ?key p\<rparr>"
    have "find_tr T s = Some ?m" using unf False lcp_prefix by simp
    moreover have "descent (ANode a p ks cs) l kp ?key [?tr] (drop (lcp ?key p) ?key) [] (ANode a p ks cs)"
      using P(3) False by (intro descent.split) (simp_all add: on_tree_def)
    ultimately show ?thesis
      using m lcp_le(1)[of ?key p] by (intro exI conjI) (auto simp: min_def)
  next
    case True
    then have key: "?key = p @ ?k1" by (metis append_eq_conv_conj Sublist.prefix_def)
    have lp: "lcp ?key p = length p" using key lcp_append by metis
    have cm: "?k1 = [] \<longleftrightarrow> key_cmp ?key p = 0" using key by (metis append_Nil2 append_self_conv key_cmp_eq_0)
    have rk: "rest_key ?m = ?k1" "current_key ?m = current_key s @ p"
      using m lp key by (auto, metis append_eq_conv_conj)
    show ?thesis
    proof (cases "key_branch ?k1 \<in> set ks")
      case miss: False
      let ?tr = "if ?k1 = [] then tr\<lparr>t_prefix := length p, t_cmp := -1\<rparr>
        else tr\<lparr>t_prefix := length p, t_branch_key := hd ?k1, t_cmp := NOT_FOUND\<rparr>"
      have "find_tr T s = Some (?m\<lparr>stack := trs @ [?tr]\<rparr>)"
      proof (cases "?k1 = []")
        case True
        then have "\<not> has_none n" using miss none_first(1)[OF n(3)] n(5) by (simp add: key_branch_def)
        then show ?thesis using unf True rk lp m by (simp add: upd_tr_snoc)
      next
        case False
        then have "key_branch ?k1 = uint (hd ?k1)" by (cases ?k1) (auto simp: key_branch_def)
        then have "array_index n (uint (hd ?k1)) < 0"
          using miss index_of_key(1)[OF n(3) valid_uint, of "hd ?k1"] n(5) by simp
        then show ?thesis using unf False rk lp m by (simp add: upd_tr_snoc)
      qed
      moreover have "descent (ANode a p ks cs) l kp (p @ ?k1) [?tr] ?k1 [] (ANode a p ks cs)"
        using P(3) miss by (intro descent.missing) (auto simp: on_tree_def)
      ultimately show ?thesis
        using m key lp by (intro exI[of _ "[?tr]"] exI[of _ ?k1] exI[of _ "[]"] exI[of _ "ANode a p ks cs"] conjI)
          (auto simp: cursor.defs)
    next
      case hit: True
      obtain i tr' where i: "i < length cs" "ks ! i = key_branch ?k1"
        and tr': "on_tree l kp (ANode a p ks cs) tr'" "t_prefix tr' = length p" "t_cmp tr' = 0" "t_link_idx tr' = i"
          "?k1 \<noteq> [] \<longrightarrow> t_branch_key tr' = hd ?k1"
        and go: "find_tr T s = Option.bind (push (?m\<lparr>stack := trs @ [tr']\<rparr>)) (find_tr T)"
      proof (cases "?k1 = []")
        case True
        then have hn: "has_none n" using hit none_first(1)[OF n(3)] n(5) by (simp add: key_branch_def)
        have "key_cmp ?key p = 0" using True cm by simp
        then show thesis
          using unf True rk lp m hn none_first(2)[OF n(3) hn] n(5,9) P(3)
          by (intro that[of 0 "tr\<lparr>t_prefix := length p, t_cmp := 0, t_link_idx := 0\<rparr>"])
            (auto simp: upd_tr_snoc key_branch_def on_tree_def)
      next
        case False
        then have kb: "key_branch ?k1 = uint (hd ?k1)" by (cases ?k1) (auto simp: key_branch_def)
        then have ge: "0 \<le> array_index n (uint (hd ?k1))"
          using hit index_of_key(1)[OF n(3) valid_uint, of "hd ?k1"] n(5) by simp
        let ?i = "nat (array_index n (uint (hd ?k1)))"
        show thesis
          using unf False rk lp m kb ge index_of_key(2)[OF n(3) valid_uint ge] n(5,9) P(3)
          by (intro that[of ?i "tr\<lparr>t_prefix := length p, t_branch_key := hd ?k1, t_cmp := 0, t_link_idx := ?i\<rparr>"])
            (auto simp: upd_tr_snoc Let_def on_tree_def)
      qed
      let ?s1 = "?m\<lparr>stack := trs @ [tr']\<rparr>"
      let ?ch = "child_tr (spare ?s1) (Suc (length trs)) (LSlot a i) (length (current_key ?s1)) (cs ! i)"
      let ?s2 = "?s1\<lparr>stack := (trs @ [tr']) @ [?ch]\<rparr>"
      have hp: "heap ?s1 = heap s" "root ?s1 = root s" "heap ?s2 = heap s" "root ?s2 = root s" using m by simp_all
      have "push ?s1 = Some ?s2"
        using push_down[of ?s1 trs tr' a i T p ks cs] tr' P(1) i(1) hp by (simp add: on_tree_def)
      then have step: "find_tr T s = find_tr T ?s2" using go by simp
      have kp: "length (current_key ?s2) = kp + length p" using rk P(5) by simp
      have ci: "cs ! i \<in> set cs" "holds T (heap ?s2) (cs ! i)" using i(1) P(1) hp by auto
      have rd: "read_loc ?s2 (LSlot a i) = Some (tree_link (cs ! i))"
        using read_slot[of T ?s2 a p ks cs i] P(1) i(1) hp by simp
      obtain new r "is" c where ih: "find_tr T ?s2 = Some (?s2\<lparr>stack := (trs @ [tr']) @ new, rest_key := r,
            current_key := current_key ?s2 @ take (length (rest_key ?s2) - length r) (rest_key ?s2)\<rparr>)"
        "descent (cs ! i) (LSlot a i) (kp + length p) (rest_key ?s2) new r is c"
        using ANode.IH[OF ci(1,2), of "trs @ [tr']" ?ch "LSlot a i" "kp + length p"] rd kp rk P(5) by auto
      have d: "descent (ANode a p ks cs) l kp (p @ ?k1) (tr' # new) r (i # is) c"
        by (rule descent.down[OF tr'(1,2) i disjI1[OF tr'(3)] tr'(4,5)]) (use ih(2) rk in simp)
      have tk: "p @ take (length ?k1 - length r) ?k1 = take (length ?key - length r) ?key" if "length r \<le> length ?k1"
      proof -
        have "length ?key - length r = length p + (length ?k1 - length r)" using that key by (metis Nat.diff_add_assoc length_append)
        then show ?thesis using key by (metis take_add take_append append_eq_conv_conj)
      qed
      have lr: "length r \<le> length ?k1" using descent_rest_length[OF ih(2)] rk by simp
      have ck: "current_key ?s2 @ take (length (rest_key ?s2) - length r) (rest_key ?s2)
          = current_key s @ take (length ?key - length r) ?key" using rk tk[OF lr] by simp
      have eq: "?s2\<lparr>stack := (trs @ [tr']) @ new, rest_key := r, current_key := X\<rparr>
          = s\<lparr>stack := trs @ tr' # new, rest_key := r, current_key := X\<rparr>" for X using m by simp
      have fin: "find_tr T s = Some (s\<lparr>stack := trs @ tr' # new, rest_key := r,
          current_key := current_key s @ take (length ?key - length r) ?key\<rparr>)"
        unfolding step ih(1) ck eq ..
      have "descent (ANode a p ks cs) l kp ?key (tr' # new) r (i # is) c" using d key by simp
      then show ?thesis using fin by blast
    qed
  qed
qed

end
