(* ===== verification/Leaves_Path.thy ===== *)
theory Leaves_Path
  imports Leaves_Find
begin

text \<open>
  The path of a cursor in the trie: the stack is a chain of transitions from the root to the
  current node, and \<open>find\<close>, from an empty stack or from a path it keeps in part, ends at the
  place of the key.
\<close>

section \<open>The path of a cursor\<close>

text \<open>
  \<open>spine ck t l kp trs is c l' kp'\<close>: the transitions \<open>trs\<close> lead from \<open>t\<close> along the key \<open>ck\<close> down
  the child indices \<open>is\<close> to the subtree \<open>c\<close>, whose link is in the cell \<open>l'\<close> and whose keys
  start at position \<open>kp'\<close> of \<open>ck\<close>.
\<close>

inductive spine :: "bytes \<Rightarrow> atree \<Rightarrow> loc \<Rightarrow> nat \<Rightarrow> transition list \<Rightarrow> nat list \<Rightarrow> atree \<Rightarrow> loc \<Rightarrow> nat \<Rightarrow> bool"
  for ck where
  here: "kp \<le> length ck \<Longrightarrow> spine ck t l kp [] [] t l kp"
| down: "on_tree l kp (ANode a p ks cs) tr \<Longrightarrow> t_prefix tr = length p \<Longrightarrow> t_link_idx tr = i \<Longrightarrow>
    i < length cs \<Longrightarrow> Sublist.prefix p (drop kp ck) \<Longrightarrow> ks ! i = key_branch (drop (kp + length p) ck) \<Longrightarrow>
    kp + length p < length ck \<longrightarrow> t_branch_key tr = ck ! (kp + length p) \<Longrightarrow>
    spine ck (cs ! i) (LSlot a i) (kp + length p) trs is c l' kp' \<Longrightarrow>
    spine ck (ANode a p ks cs) l kp (tr # trs) (i # is) c l' kp'"

inductive_simps spine_Nil: "spine ck t l kp [] is c l' kp'"

inductive_cases spine_ConsE: "spine ck t l kp (tr # trs) is c l' kp'"

lemma spine_le: "spine ck t l kp trs is c l' kp' \<Longrightarrow> kp \<le> kp' \<and> kp' \<le> length ck"
  by (induction rule: spine.induct) auto

lemma key_branch_drop: "n < length k \<Longrightarrow> key_branch (drop n k) = uint (k ! n)"
  by (simp add: key_branch_def Cons_nth_drop_Suc[symmetric])

lemma prefix_take_cong:
  fixes p :: bytes
  assumes "take m ck = take m key" "n + length p \<le> m"
  shows "Sublist.prefix p (drop n ck) \<longleftrightarrow> Sublist.prefix p (drop n key)"
proof -
  have pre: "Sublist.prefix p xs \<longleftrightarrow> take (length p) xs = p" for xs :: bytes
    by (metis append_eq_conv_conj Sublist.prefix_def)
  have "take (length p) (drop n xs) = drop n (take (n + length p) xs)" for xs :: bytes
    by (simp add: take_drop add.commute)
  moreover have "take (n + length p) (take m ck) = take (n + length p) (take m key)" using assms(1) by simp
  then have "take (n + length p) ck = take (n + length p) key" using assms(2) by (simp add: min_def)
  ultimately show ?thesis unfolding pre by simp
qed

lemma spine_key_cong:
  assumes "spine ck t l kp trs is c l' kp'" "take m ck = take m key" "m \<le> length ck" "m \<le> length key" "kp' < m"
  shows "spine key t l kp trs is c l' kp'"
  using assms
proof (induction rule: spine.induct)
  case (down l kp a p ks cs tr i trs "is" c l' kp')
  have lt: "kp + length p < m" using spine_le[OF down.hyps(8)] down.prems(4) by simp
  then have nth: "ck ! (kp + length p) = key ! (kp + length p)" using down.prems(1) by (metis nth_take)
  have "Sublist.prefix p (drop kp key)" using prefix_take_cong[OF down.prems(1), of kp p] down.hyps(5) lt by simp
  moreover have "ks ! i = key_branch (drop (kp + length p) key)"
    using down.hyps(6) nth lt down.prems by (simp add: key_branch_drop)
  ultimately show ?case using down nth lt by (intro spine.down) auto
qed (auto intro: spine.here)

lemma spine_descent:
  assumes "spine key t l kp trs is c l' kp'" "descent c l' kp' (drop kp' key) new r is' e" "trs = [] \<or> kp' < length key"
  shows "descent t l kp (drop kp key) (trs @ new) r (is @ is') e"
  using assms
proof (induction rule: spine.induct)
  case (down l kp a p ks cs tr i trs "is" c l' kp')
  have k: "drop kp key = p @ drop (kp + length p) key"
    using down.hyps(5) by (auto simp: Sublist.prefix_def) (metis append_eq_conv_conj drop_drop add.commute)
  have "drop (kp + length p) key \<noteq> [] \<longrightarrow> t_branch_key tr = hd (drop (kp + length p) key)"
    using down.hyps(7) by (auto simp: hd_drop_conv_nth)
  moreover have "drop (kp + length p) key \<noteq> []" using spine_le[OF down.hyps(8)] down.prems(2) by simp
  ultimately show ?case unfolding k append_Cons using down by (intro descent.down) auto
qed simp

lemma spine_split:
  assumes "spine ck t l kp (trs @ tr # trs') is c l' kp'"
  shows "\<exists>is1 c1 l1 kp1. spine ck t l kp trs is1 c1 l1 kp1 \<and> on_tree l1 kp1 c1 tr"
  using assms
proof (induction trs arbitrary: t l kp "is")
  case Nil
  have "spine ck t l kp [] [] t l kp" using spine_le[OF Nil] by (intro spine.here) simp
  moreover have "on_tree l kp t tr" using Nil by (auto elim: spine_ConsE)
  ultimately show ?case by blast
next
  case (Cons x xs)
  from Cons.prems obtain a p ks cs i js where t: "t = ANode a p ks cs" "is = i # js"
    and h: "on_tree l kp (ANode a p ks cs) x" "t_prefix x = length p" "t_link_idx x = i"
      "i < length cs" "Sublist.prefix p (drop kp ck)" "ks ! i = key_branch (drop (kp + length p) ck)"
      "kp + length p < length ck \<longrightarrow> t_branch_key x = ck ! (kp + length p)"
    and sp: "spine ck (cs ! i) (LSlot a i) (kp + length p) (xs @ tr # trs') js c l' kp'"
    by (auto elim: spine_ConsE)
  obtain is1 c1 l1 kp1 where "spine ck (cs ! i) (LSlot a i) (kp + length p) xs is1 c1 l1 kp1" "on_tree l1 kp1 c1 tr"
    using Cons.IH[OF sp] by auto
  then show ?case unfolding t using spine.down[OF h] by blast
qed

text \<open>The transition on top of a stack whose path ends at \<open>c\<close>: it is at \<open>c\<close>, and at a leaf whose
  key is consumed completely when its comparison is 0.\<close>

definition top_ok :: "bytes \<Rightarrow> loc \<Rightarrow> nat \<Rightarrow> atree \<Rightarrow> transition \<Rightarrow> bool" where
  "top_ok ck l kp c tr \<longleftrightarrow> on_tree l kp c tr \<and> (t_cmp tr = 0 \<longrightarrow> t_prefix tr = length ck - kp \<and> (\<exists>a v. c = ALeaf a (drop kp ck) v))"

definition stack_on :: "atree \<Rightarrow> ('m, 'z) cursor_scheme \<Rightarrow> bool" where
  "stack_on t s \<longleftrightarrow> (\<exists>trs tr is c l kp. stack s = trs @ [tr]
     \<and> spine (current_key s) t LRoot 0 trs is c l kp \<and> top_ok (current_key s) l kp c tr)"

text \<open>The database of the cursor holds the trie \<open>t\<close>, and its stack is empty or a path of \<open>t\<close>.\<close>

definition cursor_at :: "traits \<Rightarrow> atree \<Rightarrow> ('m, 'z) cursor_scheme \<Rightarrow> bool" where
  "cursor_at T t s \<longleftrightarrow> wf_tree t \<and> holds T (heap s) t \<and> root s = tree_link t \<and> (stack s = [] \<or> stack_on t s)"

lemma lcp_pos: "k \<noteq> [] \<Longrightarrow> p \<noteq> [] \<Longrightarrow> hd k = hd p \<Longrightarrow> 0 < lcp k p"
  by (cases k; cases p) auto

lemma descent_consumes:
  assumes "descent t l kp key trs r is c" "key \<noteq> []" "label t \<noteq> []" "hd key = hd (label t)"
  shows "length r < length key"
  using assms
proof (cases rule: descent.cases)
  case (down a p ks cs tr i key' trs')
  then have "0 < length p" using assms(3) by simp
  with descent_rest_length[OF down(12)] have "length r < length p + length key'" by linarith
  then show ?thesis using down(2) by simp
qed (use lcp_pos[of key "label t"] in auto)

lemma descent_spine:
  assumes "descent t l kp (drop kp key) trs r is c" "wf_tree t" "kp \<le> length key"
  shows "\<exists>ts tr l' kp'. trs = ts @ [tr] \<and> spine (take (length key - length r) key) t l kp ts is c l' kp'
    \<and> top_ok (take (length key - length r) key) l' kp' c tr"
  using assms
proof (induction t l kp "drop kp key" trs r "is" c rule: descent.induct)
  case (leaf l kp a lk v tr)
  let ?n = "lcp (drop kp key) lk"
  have le: "?n \<le> length key - kp" using lcp_le(1)[of "drop kp key" lk] by simp
  then have n: "length key - length (drop ?n (drop kp key)) = kp + ?n" using leaf.prems(2) by simp
  have "drop kp (take (kp + ?n) key) = take ?n (drop kp key)" by (simp add: drop_take)
  moreover have "t_cmp tr = 0 \<Longrightarrow> drop kp key = lk" using leaf.hyps by simp
  moreover have "t_prefix tr = length (take (kp + ?n) key) - kp" using leaf.hyps(2) le leaf.prems(2) by simp
  ultimately have "t_cmp tr = 0 \<Longrightarrow> drop kp (take (kp + ?n) key) = lk" by (metis lcp_append append_Nil2 take_all_iff order_refl)
  then show ?case unfolding n using leaf le
    by (intro exI[of _ "[]"] exI[of _ tr] exI[of _ l] exI[of _ kp]) (auto simp: top_ok_def intro!: spine.here)
next
  case (split l kp a p ks cs tr)
  have "drop kp key \<noteq> p" using split.hyps(2) by auto
  then show ?case using split lcp_le(1)[of "drop kp key" p]
    by (intro exI[of _ "[]"] exI[of _ tr] exI[of _ l] exI[of _ kp]) (auto simp: top_ok_def intro!: spine.here)
next
  case (missing l kp a p ks cs tr r)
  have "length p + length r = length key - kp" using arg_cong[OF missing.hyps(6), of length] by simp
  then have "length key = kp + length p + length r" using missing.prems(2) by linarith
  then show ?case using missing.hyps(1-5)
    by (intro exI[of _ "[]"] exI[of _ tr] exI[of _ l] exI[of _ kp]) (auto simp: top_ok_def NOT_FOUND_def intro!: spine.here)
next
  case (down l kp a p ks cs tr i key' trs r "is" c)
  have k': "key' = drop (kp + length p) key" using down.hyps(10)
    by (metis append_eq_conv_conj drop_drop add.commute)
  have "length p + length key' = length key - kp" using arg_cong[OF down.hyps(10), of length] by simp
  then have le: "kp + length p \<le> length key" using down.prems(2) by linarith
  have w: "wf_tree (cs ! i)" "branch_ok (ks ! i) (cs ! i)" using down.prems(1) down.hyps(3) by auto
  let ?ck = "take (length key - length r) key"
  have d: "descent (cs ! i) (LSlot a i) (kp + length p) (drop (kp + length p) key) trs r is c" using down.hyps(8) k' by simp
  obtain ts tr' l' kp' where sp: "trs = ts @ [tr']" "spine ?ck (cs ! i) (LSlot a i) (kp + length p) ts is c l' kp'"
    "top_ok ?ck l' kp' c tr'" using down.hyps(9)[OF k' w(1) le] by blast
  have lr: "length r \<le> length key - (kp + length p)" using descent_rest_length[OF d] by simp
  have lt: "length r < length key - (kp + length p)" if "key' \<noteq> []"
  proof -
    have "ks ! i = uint (hd key')" using down.hyps(4) that by (cases key') (auto simp: key_branch_def)
    moreover then have "ks ! i \<noteq> NONE" unfolding NONE_def by (metis uint_ge_0 not_one_le_zero neg_0_le_iff_le)
    ultimately have "label (cs ! i) \<noteq> []" "hd key' = hd (label (cs ! i))"
      using w(2) by (auto simp: branch_ok_def word_uint_eq_iff)
    from descent_consumes[OF down.hyps(8) that this] show ?thesis using k' by simp
  qed
  have pre: "Sublist.prefix p (drop kp ?ck)"
  proof -
    have "Sublist.prefix p (drop kp key)" using down.hyps(10) by (metis Sublist.prefixI)
    moreover have "take (kp + length p) ?ck = take (kp + length p) key" using lr le
      by (subst take_take) (simp add: min.absorb1)
    ultimately show ?thesis using prefix_take_cong[of "kp + length p" ?ck key kp p] by simp
  qed
  have kb: "ks ! i = key_branch (drop (kp + length p) ?ck)"
  proof (cases "key' = []")
    case True
    then show ?thesis using down.hyps(4) k' by simp
  next
    case False
    have "key_branch key' = uint (key ! (kp + length p))" using False k' by (simp add: key_branch_drop)
    then show ?thesis using down.hyps(4) lt[OF False] lr by (simp add: key_branch_drop)
  qed
  have bk: "kp + length p < length ?ck \<longrightarrow> t_branch_key tr = ?ck ! (kp + length p)"
    using down.hyps(7) k' by (auto simp: hd_drop_conv_nth)
  have "spine ?ck (ANode a p ks cs) l kp (tr # ts) (i # is) c l' kp'"
    using spine.down[OF down.hyps(1,2,6,3) pre kb bk sp(2)] .
  then show ?case using sp(1,3) by (metis append_Cons)
qed

section \<open>The search is a lookup\<close>

lemma map_of_zip_nth_fun:
  assumes "length ks = length cs" "distinct ks" "i < length cs"
  shows "map_of (zip ks (map f cs)) (ks ! i) = Some (f (cs ! i))"
  using assms by (auto simp: map_of_zip_nth)

lemma lookup_branch:
  assumes "length ks = length cs" "distinct ks" "i < length cs" "Sublist.prefix p key"
    and "ks ! i = key_branch (drop (length p) key)"
  shows "lookup (ANode a p ks cs) key = lookup (cs ! i) (drop (length p) key)"
proof -
  have "key_branch (drop (length p) key) \<in> set ks" using assms(1,3,5) nth_mem[of i ks] by simp
  then show ?thesis
    using map_of_zip_nth_fun[OF assms(1-3), of lookup] assms(4,5) by (simp add: Let_def)
qed

lemma descent_lookup:
  assumes "descent t l kp key trs r is c" "wf_tree t"
  shows "trs \<noteq> [] \<and> lookup t key = (if t_cmp (last trs) = 0 then Some (aval c) else None)
    \<and> (t_cmp (last trs) = 0 \<longrightarrow> tree_link c = Link LEAF (addr c) \<and> r = [])"
  using assms
proof (induction rule: descent.induct)
  case (leaf l kp a lk v tr key)
  then show ?case using lcp_append[of lk "[]"] by auto
next
  case (missing l kp a p ks cs tr r)
  then show ?case by (auto simp: NOT_FOUND_def)
next
  case (down l kp a p ks cs tr i key trs r "is" c)
  have w: "length ks = length cs" "distinct ks" "wf_tree (cs ! i)" using down by (auto simp: strict_sorted_iff)
  have "lookup (ANode a p ks cs) (p @ key) = lookup (cs ! i) key"
    using lookup_branch[OF w(1,2) down.hyps(3), of p "p @ key" a] down.hyps(4) by simp
  then show ?case using down.IH[OF w(3)] by auto
qed auto

section \<open>Searching from a kept path\<close>

lemma holds_spine:
  assumes "spine ck t l kp trs is c l' kp'" "holds T (heap s) t" "read_loc s l = Some (tree_link t)"
  shows "holds T (heap s) c \<and> read_loc s l' = Some (tree_link c)"
  using assms
proof (induction rule: spine.induct)
  case (down l kp a p ks cs tr i trs "is" c l' kp')
  have "holds T (heap s) (cs ! i)" using down.prems(1) down.hyps(4) by simp
  moreover have "read_loc s (LSlot a i) = Some (tree_link (cs ! i))" using read_slot[OF down.prems(1) down.hyps(4)] .
  ultimately show ?case using down.IH by blast
qed simp

text \<open>Moving a cursor changes its position only.\<close>

definition same_db :: "('m, 'z) cursor_scheme \<Rightarrow> ('m, 'z) cursor_scheme \<Rightarrow> bool" where
  "same_db s s' \<longleftrightarrow> heap s' = heap s \<and> mem s' = mem s \<and> root s' = root s \<and> active_txn s' = active_txn s"

definition found_at :: "atree \<Rightarrow> bytes \<Rightarrow> ('m, 'z) cursor_scheme \<Rightarrow> ('m, 'z) cursor_scheme \<Rightarrow> bool" where
  "found_at t key s s' \<longleftrightarrow> same_db s s' \<and> (\<exists>is c. descent t LRoot 0 key (stack s') (rest_key s') is c)
     \<and> current_key s' = take (length key - length (rest_key s')) key"

lemma find_from_top:
  assumes "cursor_traits T" "holds T (heap s) t" "root s = tree_link t"
    and "stack s = trs @ [tr]" "spine key t LRoot 0 trs is c l kp" "on_tree l kp c tr"
    and "current_key s = take kp key" "rest_key s = drop kp key" "trs = [] \<or> kp < length key"
  shows "\<exists>s'. find_tr T s = Some s' \<and> found_at t key s s'"
proof -
  have c: "holds T (heap s) c" "read_loc s l = Some (tree_link c)"
    using holds_spine[OF assms(5,2)] assms(3) by auto
  have kp: "kp \<le> length key" using spine_le[OF assms(5)] by simp
  obtain new r is' e where f: "find_tr T s = Some (s\<lparr>stack := trs @ new, rest_key := r,
      current_key := current_key s @ take (length (rest_key s) - length r) (rest_key s)\<rparr>)"
    "descent c l kp (rest_key s) new r is' e"
    using find_tr_descent[OF assms(1) c(1) assms(4,6) c(2)] assms(7) kp by auto
  have d: "descent t LRoot 0 key (trs @ new) r (is @ is') e"
    using spine_descent[OF assms(5), of new r is' e] f(2) assms(8,9) by simp
  have "length r \<le> length key - kp" using descent_rest_length[OF f(2)] assms(8) by simp
  then have "current_key s @ take (length (rest_key s) - length r) (rest_key s) = take (length key - length r) key"
    using assms(7,8) kp take_add[of kp "length key - kp - length r" key] by simp
  then show ?thesis using f(1) d unfolding found_at_def same_db_def by auto
qed

lemma path_at:
  assumes "stack s = trs @ [tr]" "spine ck t LRoot 0 trs is c l kp" "on_tree l kp c tr"
    and "stack s = trs1 @ tr1 # trs2"
  shows "\<exists>is1 c1 l1 kp1. spine ck t LRoot 0 trs1 is1 c1 l1 kp1 \<and> on_tree l1 kp1 c1 tr1"
proof (cases trs2 rule: rev_cases)
  case Nil
  then show ?thesis using assms by auto
next
  case (snoc xs x)
  then have "trs = trs1 @ tr1 # xs" using assms(1,4) by simp
  then show ?thesis using spine_split assms(2) by blast
qed

lemma keep_depth_split:
  fixes trs :: "transition list" and same :: nat
  defines "n \<equiv> keep_depth same trs"
  shows "n \<le> length trs" "n > 0 \<Longrightarrow> t_keypos (trs ! (n - 1)) < same"
proof -
  let ?d = "dropWhile (\<lambda>tr. t_keypos tr \<ge> same) (rev trs)"
  show "n \<le> length trs" by (simp add: n_def keep_depth_def)
  have "length (takeWhile (\<lambda>tr. t_keypos tr \<ge> same) (rev trs)) + length ?d = length trs"
    by (metis length_append length_rev takeWhile_dropWhile_id)
  then have n: "n = length ?d" by (simp add: n_def keep_depth_def)
  assume "n > 0"
  then have ne: "?d \<noteq> []" using n by simp
  have lt: "t_keypos (hd ?d) < same" using hd_dropWhile[of "\<lambda>tr. t_keypos tr \<ge> same" "rev trs"] ne by auto
  have "trs = rev ?d @ rev (takeWhile (\<lambda>tr. t_keypos tr \<ge> same) (rev trs))"
    by (metis rev_append rev_rev_ident takeWhile_dropWhile_id)
  then have "trs ! (n - 1) = rev ?d ! (n - 1)" using n \<open>n > 0\<close> by (metis diff_less length_rev nth_append zero_less_one)
  also have "\<dots> = hd ?d" using n ne by (simp add: rev_nth hd_conv_nth)
  finally show "t_keypos (trs ! (n - 1)) < same" using lt by simp
qed

lemma lcp_full: "lcp s t = length s \<Longrightarrow> lcp s t = length t \<Longrightarrow> s = t"
  using take_lcp[of s t] by auto

lemma keep_stack_eq:
  assumes "cursor_traits T" "rest_key s = key" "current_key s \<noteq> key"
    and "s1 = clear_stack (keep_depth (lcp key (current_key s)) (stack s)) s" "stack s1 = trs @ [tr]"
  shows "keep_stack T s = (False, resize_key (t_keypos tr)
    (s1\<lparr>stack := trs @ [tr\<lparr>t_prefix := 0, t_cmp := UNDEFINED\<rparr>], rest_key := drop (t_keypos tr) key\<rparr>))"
proof -
  have "rest_key s1 = key" using assms(2,4) by (simp add: clear_stack_def)
  moreover have "\<not> (lcp key (current_key s) = length key \<and> lcp key (current_key s) = length (current_key s))"
    using lcp_full assms(3) by metis
  ultimately show ?thesis
    using assms(2) unfolding keep_stack_def prefix_of_eq[OF assms(1)] Let_def fst_conv
    by (simp add: assms(4)[symmetric] assms(5) upd_tr_snoc[OF assms(5)])
qed

lemma kept_path:
  assumes "stack_on t s" "current_key s \<noteq> key" "cursor_traits T" and key: "rest_key s = key"
  shows "\<exists>s'. keep_stack T s = (False, s') \<and>
    (if stack s' = [] then rest_key s' = key else \<exists>trs tr is c l kp. stack s' = trs @ [tr]
       \<and> spine key t LRoot 0 trs is c l kp \<and> on_tree l kp c tr
       \<and> current_key s' = take kp key \<and> rest_key s' = drop kp key \<and> kp < length key)
    \<and> same_db s s'"
proof -
  let ?ck = "current_key s"
  let ?same = "lcp key ?ck" and ?n = "keep_depth (lcp key ?ck) (stack s)"
  have ne: "\<not> (?same = length key \<and> ?same = length ?ck)" using lcp_full[of key ?ck] assms(2) by metis
  obtain trs tr "is" c l kp where st: "stack s = trs @ [tr]" and sp: "spine ?ck t LRoot 0 trs is c l kp"
    and top: "on_tree l kp c tr" using assms(1) by (auto simp: stack_on_def top_ok_def)
  show ?thesis
  proof (cases "?n = 0")
    case True
    then show ?thesis using ne by (auto simp: key keep_stack_def prefix_of_eq[OF assms(3)] clear_stack_def Let_def same_db_def)
  next
    case False
    let ?tr = "stack s ! (?n - 1)" and ?trs = "take (?n - 1) (stack s)"
    have n: "?n \<le> length (stack s)" "0 < ?n" "t_keypos ?tr < ?same"
      using False keep_depth_split[of ?same "stack s"] by simp_all
    have lt: "?n - 1 < length (stack s)" "Suc (?n - 1) = ?n" using n by simp_all
    have "stack s = ?trs @ ?tr # drop ?n (stack s)" using id_take_nth_drop[OF lt(1)] lt(2) by simp
    then obtain is1 c1 l1 kp1 where sp1: "spine ?ck t LRoot 0 ?trs is1 c1 l1 kp1" "on_tree l1 kp1 c1 ?tr"
      using path_at[OF st sp top, of ?trs ?tr "drop ?n (stack s)"] by auto
    have kp: "kp1 < ?same" "t_keypos ?tr = kp1" using n(3) sp1(2) by (auto simp: on_tree_def)
    have sp2: "spine key t LRoot 0 ?trs is1 c1 l1 kp1"
      using spine_key_cong[OF sp1(1), of ?same key] take_lcp[of key ?ck] lcp_le[of key ?ck] kp by simp
    let ?tr' = "?tr\<lparr>t_prefix := 0, t_cmp := UNDEFINED\<rparr>"
    have tk: "take ?n (stack s) = ?trs @ [?tr]" using take_Suc_conv_app_nth[OF lt(1)] lt(2) by simp
    have ck: "take kp1 (?ck @ replicate kp1 0) = take kp1 key"
    proof -
      have "take kp1 (take ?same ?ck) = take kp1 (take ?same key)" using take_lcp[of key ?ck] by simp
      then show ?thesis using kp lcp_le[of key ?ck] by (simp add: min_def)
    qed
    let ?s1 = "clear_stack ?n s"
    have s1: "stack ?s1 = ?trs @ [?tr]" "rest_key ?s1 = key" "current_key ?s1 = ?ck" "same_db s ?s1"
      using tk key by (auto simp: clear_stack_def same_db_def)
    have "keep_stack T s = (False, resize_key kp1 (?s1\<lparr>stack := ?trs @ [?tr'], rest_key := drop kp1 key\<rparr>))"
      using keep_stack_eq[OF assms(3) key assms(2) refl s1(1)] kp(2) by simp
    moreover have "current_key (resize_key kp1 (?s1\<lparr>stack := ?trs @ [?tr'], rest_key := drop kp1 key\<rparr>)) = take kp1 key"
      using ck s1(3) by (simp add: resize_key_def)
    moreover have "kp1 < length key" using kp(1) lcp_le(1)[of key ?ck] by simp
    moreover have "on_tree l1 kp1 c1 ?tr'" using sp1(2) by (simp add: on_tree_def)
    ultimately show ?thesis using sp2 s1(4) by (auto simp: same_db_def resize_key_def)
  qed
qed

lemma cursor_find_found:
  assumes T: "cursor_traits T" and s: "cursor_at T t s" and key: "length key \<le> MAX_KEY_SIZE T"
    and new: "stack s = [] \<or> current_key s \<noteq> key"
  shows "\<exists>s'. cursor_find T key s = Some (Inr s') \<and> found_at t key s s'"
proof -
  have h: "holds T (heap s) t" "root s = tree_link t" "root s \<noteq> 0" "wf_tree t"
    using s holds_addr[of T "heap s" t] by (auto simp: cursor_at_def zero_link_def tree_link_inject_addr)
  have empty: "\<exists>s'. find_from T s1 = Some s' \<and> found_at t key s s'"
    if s1: "same_db s s1" "stack s1 = []" "rest_key s1 = key" for s1
  proof -
    let ?tr = "child_tr (spare s1) 0 LRoot 0 t"
    let ?s = "s1\<lparr>current_key := [], stack := [?tr]\<rparr>"
    have "find_from T s1 = find_tr T ?s"
      using h push_loc_eq[of "s1\<lparr>current_key := []\<rparr>" LRoot t] s1 by (simp add: find_from_def same_db_def)
    moreover have "\<exists>s'. find_tr T ?s = Some s' \<and> found_at t key ?s s'"
      using h s1 by (intro find_from_top[OF T, of ?s t "[]" ?tr key "[]" t LRoot 0])
        (auto simp: same_db_def intro!: spine.here)
    ultimately show ?thesis using s1(1) by (auto simp: found_at_def same_db_def)
  qed
  show ?thesis
  proof (cases "stack s = []")
    case True
    then show ?thesis using empty[of "s\<lparr>rest_key := key\<rparr>"] key by (auto simp: cursor_find_def Let_def same_db_def)
  next
    case False
    let ?s = "s\<lparr>rest_key := key\<rparr>"
    have on: "stack_on t ?s" using s False by (simp add: cursor_at_def stack_on_def)
    obtain s1 where k: "keep_stack T ?s = (False, s1)"
      "if stack s1 = [] then rest_key s1 = key else \<exists>trs tr is c l kp. stack s1 = trs @ [tr]
       \<and> spine key t LRoot 0 trs is c l kp \<and> on_tree l kp c tr
       \<and> current_key s1 = take kp key \<and> rest_key s1 = drop kp key \<and> kp < length key"
      "same_db ?s s1"
      using kept_path[OF on _ T, of key] new False by auto
    have db: "same_db s s1" using k(3) by (simp add: same_db_def)
    have "\<exists>s'. find_from T s1 = Some s' \<and> found_at t key s s'"
    proof (cases "stack s1 = []")
      case True
      then show ?thesis using empty[OF db] k(2) by simp
    next
      case False
      then obtain trs tr "is" c l kp where "stack s1 = trs @ [tr]" "spine key t LRoot 0 trs is c l kp"
        "on_tree l kp c tr" "current_key s1 = take kp key" "rest_key s1 = drop kp key" "kp < length key" using k(2) by auto
      from find_from_top[OF T _ _ this(1-5) disjI2[OF this(6)]] have "\<exists>s'. find_tr T s1 = Some s' \<and> found_at t key s1 s'"
        using h db by (simp add: same_db_def)
      then show ?thesis using False db by (auto simp: find_from_def found_at_def same_db_def)
    qed
    then show ?thesis using key k(1) False by (auto simp: cursor_find_def Let_def)
  qed
qed

section \<open>The state of a cursor\<close>

text \<open>
  The inner transitions were left by the steps below them with comparison 0, or by an insertion
  that split their node: then the link they took has a branch key.
\<close>

definition steady :: "('m, 'z) cursor_scheme \<Rightarrow> bool" where
  "steady s \<longleftrightarrow> (\<forall>tr\<in>set (butlast (stack s)). t_cmp tr = 0 \<or> t_keypos tr + t_prefix tr < length (current_key s))"

lemma descent_steady:
  assumes "descent t l kp (drop kp key) trs r is c" "wf_tree t" "kp \<le> length key"
  shows "\<forall>tr\<in>set (butlast trs). t_cmp tr = 0 \<or> t_keypos tr + t_prefix tr < length key - length r"
  using assms
proof (induction t l kp "drop kp key" trs r "is" c rule: descent.induct)
  case (down l kp a p ks cs tr i key' trs r "is" c)
  have k': "key' = drop (kp + length p) key" using down.hyps(10)
    by (metis append_eq_conv_conj drop_drop add.commute)
  have "length p + length key' = length key - kp" using arg_cong[OF down.hyps(10), of length] by simp
  then have le: "kp + length p \<le> length key" using down.prems(2) by linarith
  have w: "wf_tree (cs ! i)" "branch_ok (ks ! i) (cs ! i)" using down.prems(1) down.hyps(3) by auto
  have "t_cmp tr = 0 \<or> length r < length key'"
  proof (cases "key' = []")
    case False
    then have kb: "ks ! i = uint (hd key')" using down.hyps(4) by (cases key') (auto simp: key_branch_def)
    then have "ks ! i \<noteq> NONE" unfolding NONE_def by (metis uint_ge_0 not_one_le_zero neg_0_le_iff_le)
    then have "label (cs ! i) \<noteq> []" "hd key' = hd (label (cs ! i))"
      using w(2) kb by (auto simp: branch_ok_def word_uint_eq_iff)
    then show ?thesis using descent_consumes[OF down.hyps(8) False] by simp
  qed (use down.hyps(5) in simp)
  then have "t_cmp tr = 0 \<or> t_keypos tr + t_prefix tr < length key - length r"
    using down.hyps(1,2) k' le by (auto simp: on_tree_def)
  then show ?case using down.hyps(9)[OF k' w(1) le] by auto
qed auto

lemma found_cursor_at:
  assumes "found_at t key s s'" "cursor_at T t s"
  shows "cursor_at T t s'" "steady s'" "stack s' \<noteq> []"
proof -
  obtain "is" c where d: "descent t LRoot 0 (drop 0 key) (stack s') (rest_key s') is c"
    and s': "same_db s s'" "current_key s' = take (length key - length (rest_key s')) key"
    using assms(1) by (auto simp: found_at_def)
  have w: "wf_tree t" using assms(2) by (simp add: cursor_at_def)
  obtain ts tr l' kp' where "stack s' = ts @ [tr]" "spine (current_key s') t LRoot 0 ts is c l' kp'"
    "top_ok (current_key s') l' kp' c tr" using descent_spine[OF d w] s'(2) by auto
  then have "stack_on t s'" unfolding stack_on_def by blast
  then show "cursor_at T t s'" "stack s' \<noteq> []" using assms(2) s'(1) by (auto simp: cursor_at_def same_db_def stack_on_def)
  show "steady s'" using descent_steady[OF d w] s'(2) unfolding steady_def by (auto simp: min_def)
qed

lemma spine_lookup:
  assumes "spine ck t l kp trs is c l' kp'" "wf_tree t"
  shows "wf_tree c \<and> lookup t (drop kp ck) = lookup c (drop kp' ck)"
  using assms
proof (induction rule: spine.induct)
  case (down l kp a p ks cs tr i trs "is" c l' kp')
  have w: "length ks = length cs" "distinct ks" "wf_tree (cs ! i)" using down.prems down.hyps(4) by (auto simp: strict_sorted_iff)
  have k: "drop (length p) (drop kp ck) = drop (kp + length p) ck" by (simp add: add.commute)
  have "lookup (ANode a p ks cs) (drop kp ck) = lookup (cs ! i) (drop (kp + length p) ck)"
    using lookup_branch[OF w(1,2) down.hyps(4), of p "drop kp ck" a] down.hyps(5,6) k by simp
  then show ?case using down.IH[OF w(3)] by simp
qed simp

text \<open>Validity of a cursor on its trie, and what it reads there.\<close>

lemma cursor_valid_iff:
  assumes "cursor_at T t s" "stack s \<noteq> []"
  obtains trs tr "is" c l kp where "stack s = trs @ [tr]" "spine (current_key s) t LRoot 0 trs is c l kp"
    "top_ok (current_key s) l kp c tr" "holds T (heap s) c" "read_loc s l = Some (tree_link c)"
    "is_valid s \<longleftrightarrow> t_cmp tr = 0"
proof -
  obtain trs tr "is" c l kp where p: "stack s = trs @ [tr]" "spine (current_key s) t LRoot 0 trs is c l kp"
    "top_ok (current_key s) l kp c tr" using assms by (auto simp: cursor_at_def stack_on_def)
  have h: "holds T (heap s) c" "read_loc s l = Some (tree_link c)"
    using holds_spine[OF p(2), of T s] assms(1) by (simp_all add: cursor_at_def)
  have off: "t_offset tr = l" using p(3) by (simp add: top_ok_def on_tree_def)
  have "is_leaf s (length trs) \<longleftrightarrow> ltype (tree_link c) = LEAF" using is_leaf_snoc[OF p(1)] off h(2) by simp
  then have "is_valid s \<longleftrightarrow> t_cmp tr = 0 \<and> ltype (tree_link c) = LEAF"
    using p(1) by (simp add: is_valid_def success_def)
  moreover have "t_cmp tr = 0 \<Longrightarrow> ltype (tree_link c) = LEAF" using p(3) unfolding top_ok_def by force
  ultimately have "is_valid s \<longleftrightarrow> t_cmp tr = 0" by blast
  then show thesis using that p h by blast
qed

lemma valid_reads:
  assumes "cursor_at T t s" "is_valid s"
  shows "map_option snd (lookup t (current_key s)) = cursor_value s" "cursor_value s \<noteq> None"
proof -
  have ne: "stack s \<noteq> []" using assms(2) by (simp add: is_valid_def)
  obtain trs tr "is" c l kp where p: "stack s = trs @ [tr]" "spine (current_key s) t LRoot 0 trs is c l kp"
    "top_ok (current_key s) l kp c tr" "holds T (heap s) c" "is_valid s \<longleftrightarrow> t_cmp tr = 0"
    using cursor_valid_iff[OF assms(1) ne] by metis
  obtain a v where c: "c = ALeaf a (drop kp (current_key s)) v" "t_node tr = a"
    using p(3,5) assms(2) by (auto simp: top_ok_def on_tree_def)
  have "lookup t (drop 0 (current_key s)) = Some v"
    using spine_lookup[OF p(2)] assms(1) c by (simp add: cursor_at_def)
  moreover obtain pg lf where "heap s a = Some pg" "body pg = LeafN lf" "(leaf_is_big lf, leaf_value lf) = v"
    using p(4) c by auto
  ultimately show "map_option snd (lookup t (current_key s)) = cursor_value s" "cursor_value s \<noteq> None"
    using assms(2) p(1) c(2) ne by (auto simp: cursor_value_def leaf_at_def is_valid_def)
qed

section \<open>Finding a key\<close>

lemma keep_stack_same:
  assumes "cursor_traits T" "current_key s = rest_key s"
  shows "keep_stack T s = (True, s\<lparr>rest_key := []\<rparr>)"
  using assms lcp_append[of "rest_key s" "[]"] by (simp add: keep_stack_def prefix_of_eq)

lemma reads_same_db:
  assumes "same_db s s'" "stack s' = stack s"
  shows "is_valid s' = is_valid s" "cursor_value s' = cursor_value s"
proof -
  have r: "read_loc s' l = read_loc s l" for l using read_loc_cong[of s' s] assms(1) by (simp add: same_db_def)
  show "is_valid s' = is_valid s" using assms r by (simp add: is_valid_def success_def is_leaf_def top_idx_def)
  then show "cursor_value s' = cursor_value s"
    using assms r by (simp add: cursor_value_def success_def is_leaf_def top_idx_def leaf_at_def same_db_def)
qed

text \<open>A database is empty, its root link null, or holds a trie.\<close>

definition db_entries :: "atree option \<Rightarrow> entry list" where
  "db_entries ot = (case ot of None \<Rightarrow> [] | Some t \<Rightarrow> entries t)"

definition cursor_on :: "traits \<Rightarrow> atree option \<Rightarrow> ('m, 'z) cursor_scheme \<Rightarrow> bool" where
  "cursor_on T ot s \<longleftrightarrow> (case ot of None \<Rightarrow> root s = 0 \<and> stack s = [] | Some t \<Rightarrow> cursor_at T t s)"

lemma found_valid:
  assumes "found_at t key s s'" "cursor_at T t s"
  shows "is_valid s' \<longleftrightarrow> map_of (entries t) key \<noteq> None"
    "is_valid s' \<Longrightarrow> current_key s' = key \<and> cursor_value s' = map_option snd (map_of (entries t) key)"
proof -
  note c = found_cursor_at[OF assms]
  have w: "wf_tree t" using assms(2) by (simp add: cursor_at_def)
  obtain "is" e where d: "descent t LRoot 0 key (stack s') (rest_key s') is e"
    "current_key s' = take (length key - length (rest_key s')) key" using assms(1) by (auto simp: found_at_def)
  note l = descent_lookup[OF d(1) w]
  have v: "is_valid s' \<longleftrightarrow> t_cmp (last (stack s')) = 0" using cursor_valid_iff[OF c(1,3)] by (metis last_snoc)
  have le: "lookup t key = map_of (entries t) key" using lookup_entries[OF w] .
  show "is_valid s' \<longleftrightarrow> map_of (entries t) key \<noteq> None" using l v le by (simp split: if_splits)
  assume iv: "is_valid s'"
  then have ck: "current_key s' = key" using v l d(2) by simp
  then show "current_key s' = key \<and> cursor_value s' = map_option snd (map_of (entries t) key)"
    using valid_reads[OF c(1) iv] le by simp
qed


section \<open>A small database\<close>

definition ex_trie :: "link trie_node" where
  "ex_trie = (fst (create_keys ex_traits [1, 2] NONE 3))\<lparr>array := [Link LEAF 2, Link LEAF 3]\<rparr>"

definition ex_leaf :: "bytes \<Rightarrow> bytes \<Rightarrow> leaf_node" where
  "ex_leaf k v = \<lparr>value_size = word_of_nat (length v), key_size = word_of_nat (length k), leaf_data = k @ v\<rparr>"

definition ex_page :: "node \<Rightarrow> page" where
  "ex_page n = \<lparr>page_txn = 1, used = 64, slot_id = 0, body = n\<rparr>"

definition ex_cursor :: "nat cursor" where
  "ex_cursor = \<lparr>heap = [1 \<mapsto> ex_page (TrieN ex_trie), 2 \<mapsto> ex_page (LeafN (ex_leaf [] [9])),
      3 \<mapsto> ex_page (LeafN (ex_leaf [3] [8]))], mem = 3, root = Link TRIE 1, active_txn = 1,
    stack = [], spare = (\<lambda>_. 0), rest_key = [], current_key = []\<rparr>"

definition ex_tree :: atree where
  "ex_tree = ANode 1 [1, 2] [NONE, 3] [ALeaf 2 [] (False, [9]), ALeaf 3 [3] (False, [8])]"

lemma ex_traits_cursor: "cursor_traits ex_traits"
  using ex_node_wf(1) by (simp add: cursor_traits_def ex_traits_def)

lemma ex_trie_wf: "wf_node ex_traits ex_trie" "node_keys ex_trie = [NONE, 3]" "compressed ex_trie = [1, 2]"
proof -
  let ?m = "fst (create_keys ex_traits [1, 2] NONE 3) :: link trie_node"
  have m: "wf_node ex_traits ?m" "node_keys ?m = [NONE, 3]" "array ?m = [0, 0]" "compressed ?m = [1, 2]"
    using create_keys_eq[OF ex_node_wf(1), of "[1, 2]" NONE 3, where 'o = link] by (simp_all add: valid_key_def NONE_def)
  show "wf_node ex_traits ex_trie" unfolding ex_trie_def by (rule wf_node_array[OF m(1)]) (simp add: m(3))
  show "node_keys ex_trie = [NONE, 3]" "compressed ex_trie = [1, 2]" unfolding ex_trie_def using m(2,4) by simp_all
qed

lemma ex_leaf_reads:
  "leaf_key (ex_leaf [] [9]) = []" "leaf_value (ex_leaf [] [9]) = [9]" "leaf_is_big (ex_leaf [] [9]) = False"
  "leaf_key (ex_leaf [3] [8]) = [3]" "leaf_value (ex_leaf [3] [8]) = [8]" "leaf_is_big (ex_leaf [3] [8]) = False"
  "vsize (ex_leaf [] [9]) = 1" "vsize (ex_leaf [3] [8]) = 1" "unat (key_size (ex_leaf [3] [8])) = 1"
  "unat (key_size (ex_leaf [] [9])) = 0" "leaf_data (ex_leaf [] [9]) = [9]" "leaf_data (ex_leaf [3] [8]) = [3, 8]"
  by code_simp+

lemma ex_cursor_at: "cursor_at ex_traits ex_tree ex_cursor"
proof -
  have "wf_tree ex_tree" by (auto simp: ex_tree_def branch_ok_def NONE_def All_less_Suc)
  moreover have "holds ex_traits (heap ex_cursor) ex_tree"
    using ex_trie_wf ex_leaf_reads
    by (simp add: ex_tree_def ex_cursor_def ex_page_def) (simp add: ex_trie_def)
  ultimately show ?thesis by (simp add: cursor_at_def ex_cursor_def ex_tree_def)
qed

lemma ex_cursor_entries: "entries ex_tree = [([1, 2], (False, [9])), ([1, 2, 3], (False, [8]))]"
  by (simp add: ex_tree_def)


text \<open>
  C31. A cursor that stopped before the end of a missing key is not valid, and its key is the part
  of the sought key it could follow. Searching exactly that part then keeps the position instead
  of looking for it: the cursor stays invalid, whether or not the key is stored. In the small
  database the stored key \<open>[1, 2]\<close> is not found after a search for \<open>[1, 2, 4]\<close>.
\<close>

theorem find_keeps_invalid_position:
  assumes "cursor_traits T" "stack s \<noteq> []" "\<not> is_valid s" "length (current_key s) \<le> MAX_KEY_SIZE T"
  shows "\<exists>s'. cursor_find T (current_key s) s = Some (Inr s') \<and> stack s' = stack s \<and> \<not> is_valid s'"
proof -
  let ?s = "s\<lparr>rest_key := []\<rparr>"
  have "cursor_find T (current_key s) s = Some (Inr ?s)"
    using keep_stack_same[OF assms(1), of "s\<lparr>rest_key := current_key s\<rparr>"] assms(2,4)
    by (simp add: cursor_find_def Let_def)
  moreover have "\<not> is_valid ?s" using assms(3) reads_same_db(1)[of s ?s] by (simp add: same_db_def)
  ultimately show ?thesis by simp
qed

theorem find_keeps_invalid_position_witness:
  "\<exists>s s'. cursor_find ex_traits [1, 2, 4] ex_cursor = Some (Inr s)
    \<and> cursor_find ex_traits [1, 2] s = Some (Inr s') \<and> \<not> is_valid s'
    \<and> map_of (entries ex_tree) [1, 2] = Some (False, [9])"
proof -
  let ?key = "[1, 2, 4]"
  have st: "stack ex_cursor = []" "length ?key \<le> MAX_KEY_SIZE ex_traits" "MAX_KEY_SIZE ex_traits = 1024"
    by (simp_all add: ex_cursor_def ex_traits_def)
  obtain s where s: "cursor_find ex_traits ?key ex_cursor = Some (Inr s)" "found_at ex_tree ?key ex_cursor s"
    using cursor_find_found[OF ex_traits_cursor ex_cursor_at st(2) disjI1[OF st(1)]] by blast
  obtain "is" c where d: "descent ex_tree LRoot 0 ?key (stack s) (rest_key s) is c"
    "current_key s = take (length ?key - length (rest_key s)) ?key" using s(2) by (auto simp: found_at_def)
  have "rest_key s = [4]"
    using d(1) unfolding ex_tree_def
    by (cases rule: descent.cases) (auto simp: NONE_def key_branch_def less_Suc_eq)
  then have ck: "current_key s = [1, 2]" using d(2) by simp
  have "\<not> is_valid s" using found_valid(2)[OF s(2) ex_cursor_at] ck by auto
  from find_keeps_invalid_position[OF ex_traits_cursor found_cursor_at(3)[OF s(2) ex_cursor_at] this] ck st(3)
  show ?thesis using s(1) by (auto simp: ex_cursor_entries)
qed

end
