(* ===== verification/Leaves_Iterate.thy ===== *)
theory Leaves_Iterate
  imports Leaves_Path
begin

text \<open>
  Moving a cursor through a database: \<open>first\<close>, \<open>last\<close>, \<open>next\<close> and \<open>prev\<close> of \<open>_cursor.hpp\<close> walk over the
  entries of the trie in the order of their keys. A cursor on an entry is a zipper over the
  sorted list of entries: those before it, the entry, those after it.
\<close>

section \<open>A cursor on an entry\<close>

definition branch_set :: "transition \<Rightarrow> bytes \<Rightarrow> bool" where
  "branch_set tr k \<longleftrightarrow> k \<noteq> [] \<longrightarrow> t_branch_key tr = hd k"

text \<open>
  \<open>at_entry t l P trs B e R\<close>: in the subtree \<open>t\<close>, whose link is in the cell \<open>l\<close> and whose keys are
  prefixed with \<open>P\<close>, the transitions \<open>trs\<close> lead to the entry \<open>e\<close>; \<open>B\<close> are the entries before and \<open>R\<close>
  those after it.
\<close>

abbreviation keyed :: "bytes \<Rightarrow> atree list \<Rightarrow> entry list" where
  "keyed P cs \<equiv> map (apfst ((@) P)) (concat (map entries cs))"

inductive at_entry :: "atree \<Rightarrow> loc \<Rightarrow> bytes \<Rightarrow> transition list \<Rightarrow> entry list \<Rightarrow> entry \<Rightarrow> entry list \<Rightarrow> bool" where
  leaf: "on_tree l (length P) (ALeaf a k v) tr \<Longrightarrow> t_cmp tr = 0 \<Longrightarrow> t_prefix tr = length k \<Longrightarrow>
    at_entry (ALeaf a k v) l P [tr] [] (P @ k, v) []"
| node: "on_tree l (length P) (ANode a p ks cs) tr \<Longrightarrow> t_cmp tr = 0 \<Longrightarrow> t_link_idx tr = i \<Longrightarrow> i < length cs \<Longrightarrow>
    at_entry (cs ! i) (LSlot a i) (P @ p) trs B e R \<Longrightarrow> t_prefix tr = length p \<Longrightarrow> branch_set tr (drop (length (P @ p)) (fst e)) \<Longrightarrow>
    at_entry (ANode a p ks cs) l P (tr # trs) (keyed (P @ p) (take i cs) @ B) e (R @ keyed (P @ p) (drop (Suc i) cs))"

lemma prefixed_entries: "map (apfst ((@) P)) (entries (ANode a p ks cs)) = keyed (P @ p) cs"
  by (simp add: o_def apfst_def map_prod_def case_prod_unfold)

lemma keyed_split: "i < length cs \<Longrightarrow> keyed P cs = keyed P (take i cs) @ map (apfst ((@) P)) (entries (cs ! i)) @ keyed P (drop (Suc i) cs)"
  by (subst id_take_nth_drop[of i cs]) simp_all

lemma at_entry_entries: "at_entry t l P trs B e R \<Longrightarrow> map (apfst ((@) P)) (entries t) = B @ e # R"
proof (induction rule: at_entry.induct)
  case (node l P a p ks cs tr i trs B e R)
  show ?case unfolding prefixed_entries keyed_split[OF node.hyps(4)] node.IH by simp
qed simp

lemma at_entry_key: "at_entry t l P trs B e R \<Longrightarrow> \<exists>k. fst e = P @ k"
  by (induction rule: at_entry.induct) auto

lemma at_entry_ne: "at_entry t l P trs B e R \<Longrightarrow> trs \<noteq> []"
  by (induction rule: at_entry.induct) auto

text \<open>All keys of a subtree begin with the same byte.\<close>

lemma at_entry_in:
  assumes "at_entry t l P trs B e R"
  obtains k where "fst e = P @ k" "(k, snd e) \<in> set (entries t)"
proof -
  have "e \<in> set (map (apfst ((@) P)) (entries t))" unfolding at_entry_entries[OF assms] by simp
  then show ?thesis using that by (auto simp: apfst_def map_prod_def)
qed

lemma key_branch_eq:
  assumes "key_branch k = key_branch k'"
  shows "(k = [] \<longleftrightarrow> k' = []) \<and> (k \<noteq> [] \<longrightarrow> hd k = hd k')"
proof -
  have u: "uint (x :: uint8) \<noteq> -1" "-1 \<noteq> uint (x :: uint8)" for x by (smt (verit) uint_ge_0)+
  then show ?thesis using assms by (cases k; cases k') (auto simp: key_branch_def NONE_def word_uint_eq_iff)
qed

lemma at_entry_branch:
  assumes "at_entry c l P trs B e R" "at_entry c l P trs' B' e' R'" "branch_ok b c"
  shows "branch_set tr (drop (length P) (fst e)) \<longleftrightarrow> branch_set tr (drop (length P) (fst e'))"
proof -
  obtain k k' where k: "fst e = P @ k" "(k, snd e) \<in> set (entries c)" "fst e' = P @ k'" "(k', snd e') \<in> set (entries c)"
    using at_entry_in[OF assms(1)] at_entry_in[OF assms(2)] by metis
  have "key_branch k = key_branch k'" using entries_branch[OF assms(3) k(2)] entries_branch[OF assms(3) k(4)] by simp
  from key_branch_eq[OF this] have "k = [] \<longleftrightarrow> k' = []" "k \<noteq> [] \<Longrightarrow> hd k = hd k'" by blast+
  then show ?thesis using k(1,3) by (auto simp: branch_set_def)
qed

section \<open>Going to the first and the last entry of a subtree\<close>

text \<open>The state of a cursor after a move: same database, the stack and the key.\<close>

definition moved :: "('m, 'z) cursor_scheme \<Rightarrow> ('m, 'z) cursor_scheme \<Rightarrow> transition list \<Rightarrow> bytes \<Rightarrow> bool" where
  "moved s s' trs k \<longleftrightarrow> same_db s s' \<and> stack s' = trs \<and> current_key s' = k \<and> rest_key s' = rest_key s"

lemma set_branch_moved:
  assumes "moved s s' (pre @ tr # trs) (fst e)" "on_tree l (length P) (ANode a p ks cs) tr" "t_cmp tr = 0" "t_link_idx tr = i" "i < length cs"
    "at_entry (cs ! i) (LSlot a i) (P @ p) trs B e R" "t_prefix tr = length p" "kp = length (P @ p)"
    and f: "f = set_branch \<or> f = load_branch"
  shows "\<exists>tr'. moved s (f (length pre) kp s') (pre @ tr' # trs) (fst e)
    \<and> at_entry (ANode a p ks cs) l P (tr' # trs) (keyed (P @ p) (take i cs) @ B) e (R @ keyed (P @ p) (drop (Suc i) cs))"
proof -
  let ?b = "if kp < length (fst e) then fst e ! kp else 0"
  let ?tr = "if f = set_branch \<and> \<not> kp < length (fst e) then tr else tr\<lparr>t_branch_key := ?b\<rparr>"
  have "moved s (f (length pre) kp s') (pre @ ?tr # trs) (fst e)"
    using assms(1) f by (auto simp: moved_def set_branch_def load_branch_def upd_tr_def same_db_def)
  moreover have "branch_set ?tr (drop (length (P @ p)) (fst e))" using assms(8) by (simp add: branch_set_def hd_drop_conv_nth)
  then have "at_entry (ANode a p ks cs) l P (?tr # trs) (keyed (P @ p) (take i cs) @ B) e (R @ keyed (P @ p) (drop (Suc i) cs))"
    using assms(2-7) by (intro at_entry.node) (simp_all add: on_tree_def)
  ultimately show ?thesis by blast
qed

lemmas branch_moved = set_branch_moved[OF _ _ _ _ _ _ _ _ disjI1[OF refl]] set_branch_moved[OF _ _ _ _ _ _ _ _ disjI2[OF refl]]

lemma leaf_step_moved:
  assumes "stack s = pre @ [tr]" "on_tree l (length P) (ALeaf a k v) tr" "take (length P) (current_key s) = P" "leaf_at s a = Some lf" "leaf_key lf = k" "unat (key_size lf) = length k"
  shows "\<exists>tr'. moved s (leaf_step (length pre) lf s) (pre @ [tr']) (P @ k) \<and> at_entry (ALeaf a k v) l P [tr'] [] (P @ k, v) []"
proof -
  let ?tr = "tr\<lparr>t_prefix := unat (key_size lf), t_cmp := 0\<rparr>"
  have "length P \<le> length (current_key s)" using assms(3) by (metis length_take min.cobounded2 min.absorb_iff2 linorder_linear)
  then have "take (length P) (current_key s @ replicate (length P) 0) = P" using assms(3) by simp
  then have "moved s (leaf_step (length pre) lf s) (pre @ [?tr]) (P @ k)"
    using assms by (simp add: moved_def leaf_step_def upd_tr_def append_key_def resize_key_def same_db_def on_tree_def)
  moreover have "at_entry (ALeaf a k v) l P [?tr] [] (P @ k, v) []" using assms(2,6) by (intro at_entry.leaf) (auto simp: on_tree_def)
  ultimately show ?thesis by blast
qed

lemma holds_leaf:
  assumes "holds T (heap s) (ALeaf a k v)"
  obtains lf where "leaf_at s a = Some lf" "leaf_key lf = k" "unat (key_size lf) = length k"
proof -
  obtain p l where l: "heap s a = Some p" "body p = LeafN l" "length (leaf_data l) = unat (key_size l) + vsize l" "leaf_key l = k"
    using assms by auto
  have "unat (key_size l) = length (leaf_key l)" using l(3) by (simp add: leaf_key_def)
  then show ?thesis using that[of l] l by (simp add: leaf_at_def)
qed

text \<open>Entering the child of index \<open>i\<close>.\<close>

lemma enter_child:
  assumes "stack s = pre @ [tr]" "on_tree l (length P) (ANode a p ks cs) tr" "holds T (heap s) (ANode a p ks cs)" "i < length cs"
    "current_key s = P" "compressed n = p" "unat (compressed_len n) = length p"
  shows "\<exists>tr' s1. enter (length pre) n i s = Some s1 \<and> stack s1 = (pre @ [tr']) @ [child_tr (spare s) (Suc (length pre)) (LSlot a i) (length (P @ p)) (cs ! i)]
    \<and> on_tree l (length P) (ANode a p ks cs) tr' \<and> t_cmp tr' = 0 \<and> t_link_idx tr' = i \<and> t_prefix tr' = length p \<and> current_key s1 = P @ p \<and> same_db s s1 \<and> rest_key s1 = rest_key s"
proof -
  define s0 where "s0 = s\<lparr>current_key := P @ p, stack := pre @ [tr\<lparr>t_prefix := length p, t_cmp := 0, t_link_idx := i\<rparr>]\<rparr>"
  have e: "enter (length pre) n i s = push s0"
    using assms by (simp add: enter_def upd_tr_def append_key_def s0_def)
  have "push s0 = Some (s0\<lparr>stack := (pre @ [tr\<lparr>t_prefix := length p, t_cmp := 0, t_link_idx := i\<rparr>]) @
      [child_tr (spare s0) (Suc (length pre)) (LSlot a i) (length (current_key s0)) (cs ! i)]\<rparr>)"
    by (rule push_down[of s0 pre _ a i T p ks cs]) (use assms in \<open>auto simp: s0_def on_tree_def\<close>)
  then show ?thesis using e assms(2) by (auto simp: s0_def on_tree_def same_db_def)
qed

text \<open>The two descents, with the list of entries split at its first or its last element.\<close>

lemma wf_tree_nonempty: "wf_tree t \<Longrightarrow> entries t \<noteq> []"
proof (induction t)
  case (ANode a p ks cs)
  then obtain c where "c \<in> set cs" "entries c \<noteq> []" by (cases cs) auto
  then show ?case by auto
qed simp

lemma first_tr_entry:
  assumes "stack s = pre @ [tr]" "on_tree l (length P) t tr" "read_loc s l = Some (tree_link t)" "holds T (heap s) t" "wf_tree t"
    "current_key s = P"
  shows "\<exists>s' trs e R. first_tr s = Some s' \<and> moved s s' (pre @ trs) (fst e) \<and> at_entry t l P trs [] e R"
  using assms
proof (induction t arbitrary: s pre tr l P)
  case (ALeaf a k v)
  have "is_leaf s (length pre)" using is_leaf_snoc[OF ALeaf.prems(1)] ALeaf.prems(2,3) by (simp add: on_tree_def)
  moreover obtain lf where lf: "leaf_at s a = Some lf" "leaf_key lf = k" "unat (key_size lf) = length k" using holds_leaf[OF ALeaf.prems(4)] .
  ultimately have "first_tr s = Some (leaf_step (length pre) lf s)"
    using ALeaf.prems(1,2) by (subst first_tr.simps) (simp add: on_tree_def)
  moreover have "take (length P) (current_key s) = P" using ALeaf.prems(6) by simp
  then obtain tr' where "moved s (leaf_step (length pre) lf s) (pre @ [tr']) (fst (P @ k, v))" "at_entry (ALeaf a k v) l P [tr'] [] (P @ k, v) []"
    using leaf_step_moved[OF ALeaf.prems(1,2) _ lf] by auto
  ultimately show ?case by blast
next
  case (ANode a p ks cs)
  let ?t = "ANode a p ks cs"
  obtain n where n: "trie_at s a = Some n" "compressed n = p" "unat (compressed_len n) = length p" using holds_trie[OF ANode.prems(4)] by metis
  have nl: "\<not> is_leaf s (length pre)" using is_leaf_snoc[OF ANode.prems(1)] ANode.prems(2,3) by (simp add: on_tree_def)
  have c0: "0 < length cs" "cs ! 0 \<in> set cs" using ANode.prems(5) by (cases cs; auto)+
  obtain tr1 s1 where s1: "enter (length pre) n 0 s = Some s1"
    "stack s1 = (pre @ [tr1]) @ [child_tr (spare s) (Suc (length pre)) (LSlot a 0) (length (P @ p)) (cs ! 0)]"
    "on_tree l (length P) ?t tr1" "t_cmp tr1 = 0" "t_link_idx tr1 = 0" "t_prefix tr1 = length p" "current_key s1 = P @ p" "same_db s s1" "rest_key s1 = rest_key s"
    using enter_child[OF ANode.prems(1,2,4) c0(1) ANode.prems(6) n(2,3)] by blast
  have h1: "holds T (heap s1) ?t" using ANode.prems(4) s1(8) by (simp add: same_db_def)
  have "\<exists>s' trs e R. first_tr s1 = Some s' \<and> moved s1 s' ((pre @ [tr1]) @ trs) (fst e) \<and> at_entry (cs ! 0) (LSlot a 0) (P @ p) trs [] e R"
    by (rule ANode.IH[OF c0(2) s1(2) on_child_tr read_slot[OF h1 c0(1)]]) (use h1 c0 ANode.prems(5) s1(7) in auto)
  then obtain s2 trs e R where s2: "first_tr s1 = Some s2" "moved s1 s2 ((pre @ [tr1]) @ trs) (fst e)"
    "at_entry (cs ! 0) (LSlot a 0) (P @ p) trs [] e R" by blast
  let ?R = "R @ keyed (P @ p) (drop (Suc 0) cs)"
  have mv: "moved s s2 (pre @ tr1 # trs) (fst e)" using s2(2) s1(8,9) by (auto simp: moved_def same_db_def)
  have kp: "t_keypos (stack s1 ! Suc (length pre)) = length (P @ p)" using s1(2) by (simp add: nth_append child_tr_def)
  obtain tr2 where "moved s (set_branch (length pre) (t_keypos (stack s1 ! Suc (length pre))) s2) (pre @ tr2 # trs) (fst e)"
    "at_entry ?t l P (tr2 # trs) [] e ?R" using branch_moved(1)[OF mv s1(3,4,5) c0(1) s2(3) s1(6) kp] by auto
  moreover have "first_tr s = Some (set_branch (length pre) (t_keypos (stack s1 ! Suc (length pre))) s2)"
    using n(1) nl s1(1) s2(1) ANode.prems(1,2) by (subst first_tr.simps) (simp add: on_tree_def Let_def)
  ultimately show ?case by blast
qed

lemma last_tr_entry:
  assumes "stack s = pre @ [tr]" "on_tree l (length P) t tr" "read_loc s l = Some (tree_link t)" "holds T (heap s) t" "wf_tree t"
    "current_key s = P"
  shows "\<exists>s' trs e B. last_tr s = Some s' \<and> moved s s' (pre @ trs) (fst e) \<and> at_entry t l P trs B e []"
  using assms
proof (induction t arbitrary: s pre tr l P)
  case (ALeaf a k v)
  have "is_leaf s (length pre)" using is_leaf_snoc[OF ALeaf.prems(1)] ALeaf.prems(2,3) by (simp add: on_tree_def)
  moreover obtain lf where lf: "leaf_at s a = Some lf" "leaf_key lf = k" "unat (key_size lf) = length k" using holds_leaf[OF ALeaf.prems(4)] .
  ultimately have "last_tr s = Some (leaf_step (length pre) lf s)"
    using ALeaf.prems(1,2) by (subst last_tr.simps) (simp add: on_tree_def)
  moreover have "take (length P) (current_key s) = P" using ALeaf.prems(6) by simp
  then obtain tr' where "moved s (leaf_step (length pre) lf s) (pre @ [tr']) (fst (P @ k, v))" "at_entry (ALeaf a k v) l P [tr'] [] (P @ k, v) []"
    using leaf_step_moved[OF ALeaf.prems(1,2) _ lf] by auto
  ultimately show ?case by blast
next
  case (ANode a p ks cs)
  let ?t = "ANode a p ks cs"
  obtain n where n: "trie_at s a = Some n" "compressed n = p" "unat (compressed_len n) = length p" "node_count n = length cs"
    using holds_trie[OF ANode.prems(4)] by metis
  have nl: "\<not> is_leaf s (length pre)" using is_leaf_snoc[OF ANode.prems(1)] ANode.prems(2,3) by (simp add: on_tree_def)
  define i where "i = length cs - 1"
  have "cs \<noteq> []" using ANode.prems(5) by auto
  then have c0: "i < length cs" "cs ! i \<in> set cs" "drop (Suc i) cs = []" by (simp_all add: i_def)
  obtain tr1 s1 where s1: "enter (length pre) n i s = Some s1"
    "stack s1 = (pre @ [tr1]) @ [child_tr (spare s) (Suc (length pre)) (LSlot a i) (length (P @ p)) (cs ! i)]"
    "on_tree l (length P) ?t tr1" "t_cmp tr1 = 0" "t_link_idx tr1 = i" "t_prefix tr1 = length p" "current_key s1 = P @ p" "same_db s s1" "rest_key s1 = rest_key s"
    using enter_child[OF ANode.prems(1,2,4) c0(1) ANode.prems(6) n(2,3)] by blast
  have h1: "holds T (heap s1) ?t" using ANode.prems(4) s1(8) by (simp add: same_db_def)
  have "\<exists>s' trs e B. last_tr s1 = Some s' \<and> moved s1 s' ((pre @ [tr1]) @ trs) (fst e) \<and> at_entry (cs ! i) (LSlot a i) (P @ p) trs B e []"
    by (rule ANode.IH[OF c0(2) s1(2) on_child_tr read_slot[OF h1 c0(1)]]) (use h1 c0 ANode.prems(5) s1(7) in auto)
  then obtain s2 trs e B where s2: "last_tr s1 = Some s2" "moved s1 s2 ((pre @ [tr1]) @ trs) (fst e)"
    "at_entry (cs ! i) (LSlot a i) (P @ p) trs B e []" by blast
  let ?B = "keyed (P @ p) (take i cs) @ B"
  have mv: "moved s s2 (pre @ tr1 # trs) (fst e)" using s2(2) s1(8,9) by (auto simp: moved_def same_db_def)
  have kp: "t_keypos (stack s1 ! Suc (length pre)) = length (P @ p)" using s1(2) by (simp add: nth_append child_tr_def)
  obtain tr2 where "moved s (load_branch (length pre) (t_keypos (stack s1 ! Suc (length pre))) s2) (pre @ tr2 # trs) (fst e)"
    "at_entry ?t l P (tr2 # trs) ?B e []" using branch_moved(2)[OF mv s1(3,4,5) c0(1) s2(3) s1(6) kp] c0(3) by auto
  moreover have "last_tr s = Some (load_branch (length pre) (t_keypos (stack s1 ! Suc (length pre))) s2)"
    using n(1,4) nl s1(1)[unfolded i_def] s2(1) ANode.prems(1,2) by (subst last_tr.simps) (simp add: on_tree_def Let_def)
  ultimately show ?case by blast
qed

section \<open>Stepping\<close>

text \<open>Giving up a transition: the key is cut back to where it began.\<close>

lemma pop_moved:
  assumes "stack s = pre @ [tr]" "t_keypos tr = length P" "take (length P) (current_key s) = P"
  shows "moved s (pop s) pre P"
proof -
  have "length P \<le> length (current_key s)" using assms(3) by (metis length_take min.cobounded2 min.absorb_iff2 linorder_linear)
  then have "take (length P) (current_key s @ replicate (length P) 0) = P" using assms(3) by simp
  then show ?thesis using assms(1,2) by (simp add: moved_def pop_def clear_stack_def resize_key_def same_db_def)
qed

lemma moved_trans: "moved s s' xs k \<Longrightarrow> moved s' s'' ys k' \<Longrightarrow> moved s s'' ys k'"
  by (simp add: moved_def same_db_def)

text \<open>
  What a step of the loop of \<open>next\<close> or \<open>prev\<close> has to do at a node whose child of index \<open>i\<close> is done: go
  to the neighbour \<open>j\<close> of \<open>i\<close>, or report that there is none.
\<close>

lemma next_leaf:
  assumes "stack s = pre @ [tr]" "on_tree l (length P) (ALeaf a k v) tr" "read_loc s l = Some (Link LEAF a)" "t_cmp tr = 0"
  shows "next_tr s = Some (False, s)" "prev_tr s = Some (False, s)"
proof -
  have "is_leaf s (length pre)" using is_leaf_snoc[OF assms(1)] assms(2,3) by (simp add: on_tree_def)
  then show "next_tr s = Some (False, s)" "prev_tr s = Some (False, s)"
    using assms(1,4) by (simp_all add: next_tr_def prev_tr_def)
qed

lemma next_node:
  assumes "stack s = pre @ [tr]" "on_tree l (length P) (ANode a p ks cs) tr" "read_loc s l = Some (Link TRIE a)" "t_cmp tr = 0"
    "t_link_idx tr = i" "i < length cs" "holds T (heap s) (ANode a p ks cs)" "wf_tree (ANode a p ks cs)" "current_key s = P @ p"
    "t_prefix tr = length p"
  shows "Suc i = length cs \<Longrightarrow> \<exists>tr'. next_tr s = Some (False, s\<lparr>stack := pre @ [tr']\<rparr>) \<and> t_keypos tr' = length P"
    "Suc i < length cs \<Longrightarrow> \<exists>s' trs e R. next_tr s = Some (True, s') \<and> moved s s' (pre @ trs) (fst e)
      \<and> at_entry (ANode a p ks cs) l P trs (keyed (P @ p) (take (Suc i) cs)) e R"
proof -
  let ?t = "ANode a p ks cs" and ?tr = "tr\<lparr>t_link_idx := Suc i\<rparr>"
  obtain n where n: "trie_at s a = Some n" "node_count n = length cs" using holds_trie[OF assms(7)] by metis
  have nl: "\<not> is_leaf s (length pre)" using is_leaf_snoc[OF assms(1)] assms(2,3) by (simp add: on_tree_def)
  have a: "t_node tr = a" "t_keypos tr = length P" using assms(2) by (simp_all add: on_tree_def)
  show "\<exists>tr'. next_tr s = Some (False, s\<lparr>stack := pre @ [tr']\<rparr>) \<and> t_keypos tr' = length P" if "Suc i = length cs"
    using assms(1,4,5) nl n a that by (intro exI[of _ ?tr]) (simp add: next_tr_def upd_tr_def)
  assume j: "Suc i < length cs"
  let ?s = "s\<lparr>stack := pre @ [?tr]\<rparr>"
  define c where "c = child_tr (spare ?s) (Suc (length pre)) (LSlot a (Suc i)) (length (P @ p)) (cs ! Suc i)"
  define s2 where "s2 = ?s\<lparr>stack := (pre @ [?tr]) @ [c]\<rparr>"
  have s2: "push ?s = Some s2"
    using push_down[of ?s pre ?tr a "Suc i" T p ks cs] a assms(7,9) j by (simp add: s2_def c_def)
  have h2: "holds T (heap s2) ?t" using assms(7) by (simp add: s2_def)
  have "\<exists>s' trs e R. first_tr s2 = Some s' \<and> moved s2 s' ((pre @ [?tr]) @ trs) (fst e) \<and> at_entry (cs ! Suc i) (LSlot a (Suc i)) (P @ p) trs [] e R"
    by (rule first_tr_entry[OF _ _ read_slot[OF h2 j]]) (use h2 j assms(8,9) in \<open>auto simp: s2_def c_def\<close>)
  then obtain s3 trs e R where s3: "first_tr s2 = Some s3" "moved s2 s3 ((pre @ [?tr]) @ trs) (fst e)"
    "at_entry (cs ! Suc i) (LSlot a (Suc i)) (P @ p) trs [] e R" by blast
  let ?R = "R @ keyed (P @ p) (drop (Suc (Suc i)) cs)"
  have mv: "moved s s3 (pre @ ?tr # trs) (fst e)" using s3(2) by (simp add: moved_def same_db_def s2_def)
  have kp: "t_keypos (stack s2 ! Suc (length pre)) = length (P @ p)" by (simp add: s2_def c_def nth_append child_tr_def)
  have tr: "on_tree l (length P) ?t ?tr" "t_cmp ?tr = 0" "t_link_idx ?tr = Suc i" "t_prefix ?tr = length p" using assms(2,4,10) by (simp_all add: on_tree_def)
  obtain tr2 where t2: "moved s (load_branch (length pre) (t_keypos (stack s2 ! Suc (length pre))) s3) (pre @ tr2 # trs) (fst e)"
    "at_entry ?t l P (tr2 # trs) (keyed (P @ p) (take (Suc i) cs)) e ?R" using branch_moved(2)[OF mv tr(1-3) j s3(3) tr(4) kp] by auto
  have "next_tr s = Some (True, load_branch (length pre) (t_keypos (stack s2 ! Suc (length pre))) s3)"
    using assms(1,4,5) nl n a j s2 s3(1) by (simp add: next_tr_def upd_tr_def Let_def)
  then show "\<exists>s' trs e R. next_tr s = Some (True, s') \<and> moved s s' (pre @ trs) (fst e)
      \<and> at_entry ?t l P trs (keyed (P @ p) (take (Suc i) cs)) e R" using t2 by blast
qed

lemma prev_node:
  assumes "stack s = pre @ [tr]" "on_tree l (length P) (ANode a p ks cs) tr" "read_loc s l = Some (Link TRIE a)" "t_cmp tr = 0"
    "t_link_idx tr = i" "i < length cs" "holds T (heap s) (ANode a p ks cs)" "wf_tree (ANode a p ks cs)" "current_key s = P @ p"
    "t_prefix tr = length p"
  shows "i = 0 \<Longrightarrow> \<exists>tr'. prev_tr s = Some (False, s\<lparr>stack := pre @ [tr']\<rparr>) \<and> t_keypos tr' = length P"
    "i = Suc j \<Longrightarrow> \<exists>s' trs B e. prev_tr s = Some (True, s') \<and> moved s s' (pre @ trs) (fst e)
      \<and> at_entry (ANode a p ks cs) l P trs B e (keyed (P @ p) (drop i cs))"
proof -
  let ?t = "ANode a p ks cs" and ?tr = "tr\<lparr>t_link_idx := j\<rparr>"
  obtain n where n: "trie_at s a = Some n" "node_count n = length cs" using holds_trie[OF assms(7)] by metis
  have nl: "\<not> is_leaf s (length pre)" using is_leaf_snoc[OF assms(1)] assms(2,3) by (simp add: on_tree_def)
  have a: "t_node tr = a" "t_keypos tr = length P" using assms(2) by (simp_all add: on_tree_def)
  show "\<exists>tr'. prev_tr s = Some (False, s\<lparr>stack := pre @ [tr']\<rparr>) \<and> t_keypos tr' = length P" if "i = 0"
    using assms(1,4,5) nl n a that by (intro exI[of _ "tr\<lparr>t_link_idx := 65535\<rparr>"]) (simp add: prev_tr_def upd_tr_def)
  assume ij: "i = Suc j"
  then have j: "j < length cs" using assms(6) by simp
  let ?s = "s\<lparr>stack := pre @ [?tr]\<rparr>"
  define c where "c = child_tr (spare ?s) (Suc (length pre)) (LSlot a j) (length (P @ p)) (cs ! j)"
  define s2 where "s2 = ?s\<lparr>stack := (pre @ [?tr]) @ [c]\<rparr>"
  have s2: "push ?s = Some s2"
    using push_down[of ?s pre ?tr a j T p ks cs] a assms(7,9) j by (simp add: s2_def c_def)
  have h2: "holds T (heap s2) ?t" using assms(7) by (simp add: s2_def)
  have "\<exists>s' trs e B. last_tr s2 = Some s' \<and> moved s2 s' ((pre @ [?tr]) @ trs) (fst e) \<and> at_entry (cs ! j) (LSlot a j) (P @ p) trs B e []"
    by (rule last_tr_entry[OF _ _ read_slot[OF h2 j]]) (use h2 j assms(8,9) in \<open>auto simp: s2_def c_def\<close>)
  then obtain s3 trs e B where s3: "last_tr s2 = Some s3" "moved s2 s3 ((pre @ [?tr]) @ trs) (fst e)"
    "at_entry (cs ! j) (LSlot a j) (P @ p) trs B e []" by blast
  let ?B = "keyed (P @ p) (take j cs) @ B"
  have mv: "moved s s3 (pre @ ?tr # trs) (fst e)" using s3(2) by (simp add: moved_def same_db_def s2_def)
  have kp: "t_keypos (stack s2 ! Suc (length pre)) = length (P @ p)" by (simp add: s2_def c_def nth_append child_tr_def)
  have tr: "on_tree l (length P) ?t ?tr" "t_cmp ?tr = 0" "t_link_idx ?tr = j" "t_prefix ?tr = length p" using assms(2,4,10) by (simp_all add: on_tree_def)
  obtain tr2 where t2: "moved s (set_branch (length pre) (t_keypos (stack s2 ! Suc (length pre))) s3) (pre @ tr2 # trs) (fst e)"
    "at_entry ?t l P (tr2 # trs) ?B e (keyed (P @ p) (drop i cs))" using branch_moved(1)[OF mv tr(1-3) j s3(3) tr(4) kp] ij by auto
  have "prev_tr s = Some (True, set_branch (length pre) (t_keypos (stack s2 ! Suc (length pre))) s3)"
    using assms(1,4,5) nl n a ij s2 s3(1) by (simp add: prev_tr_def upd_tr_def Let_def)
  then show "\<exists>s' trs B e. prev_tr s = Some (True, s') \<and> moved s s' (pre @ trs) (fst e)
      \<and> at_entry ?t l P trs B e (keyed (P @ p) (drop i cs))" using t2 by blast
qed

lemma keyed_take_drop: "keyed P cs = keyed P (take j cs) @ keyed P (drop j cs)"
  by (simp flip: map_append concat_append)

lemma loop_False: "f s = Some (False, s') \<Longrightarrow> step_loop f (Suc m) s = step_loop f m (pop s')"
  by simp

lemma loop_True: "f s = Some (True, s') \<Longrightarrow> step_loop f (Suc m) s = Some s'"
  by simp

lemma read_same: "same_db s s' \<Longrightarrow> read_loc s' l = read_loc s l"
  by (rule read_loc_cong) (simp_all add: same_db_def)

lemma next_loop:
  assumes "at_entry t l P trs B e R" "stack s = pre @ trs" "current_key s = fst e" "read_loc s l = Some (tree_link t)"
    "holds T (heap s) t" "wf_tree t"
  shows "(R \<noteq> [] \<longrightarrow> (\<exists>s' trs'. step_loop next_tr (length trs + m) s = Some s' \<and> moved s s' (pre @ trs') (fst (hd R))
      \<and> at_entry t l P trs' (B @ [e]) (hd R) (tl R)))
    \<and> (R = [] \<longrightarrow> (\<exists>s'. step_loop next_tr (length trs + m) s = step_loop next_tr m s' \<and> moved s s' pre P))"
  using assms
proof (induction arbitrary: s pre m rule: at_entry.induct)
  case (leaf l P a k v tr)
  have "next_tr s = Some (False, s)" using next_leaf(1)[OF leaf.prems(1) leaf.hyps(1) _ leaf.hyps(2)] leaf.prems(3) by simp
  moreover have "moved s (pop s) pre P" using leaf by (intro pop_moved) (auto simp: on_tree_def)
  ultimately show ?case by auto
next
  case (node l P a p ks cs tr i trs B e R)
  let ?t = "ANode a p ks cs"
  have st: "stack s = (pre @ [tr]) @ trs" using node.prems(1) by simp
  have ch: "read_loc s (LSlot a i) = Some (tree_link (cs ! i))" "holds T (heap s) (cs ! i)" "wf_tree (cs ! i)"
    using read_slot[OF node.prems(4) node.hyps(4)] node.prems(4,5) node.hyps(4) by auto
  have bo: "branch_ok (ks ! i) (cs ! i)" using node.prems(5) node.hyps(4) by simp
  note IH = node.IH[OF st node.prems(2) ch, of "Suc m"]
  have len: "length (tr # trs) + m = length trs + Suc m" by simp
  show ?case
  proof (cases "R = []")
    case False
    then obtain s' trs' where s': "step_loop next_tr (length trs + Suc m) s = Some s'" "moved s s' ((pre @ [tr]) @ trs') (fst (hd R))"
      "at_entry (cs ! i) (LSlot a i) (P @ p) trs' (B @ [e]) (hd R) (tl R)" using IH by blast
    have "at_entry ?t l P (tr # trs') ((keyed (P @ p) (take i cs) @ B) @ [e]) (hd R) (tl R @ keyed (P @ p) (drop (Suc i) cs))"
      using at_entry.node[OF node.hyps(1-4) s'(3) node.hyps(6)] node.hyps(7) at_entry_branch[OF node.hyps(5) s'(3) bo] by simp
    then show ?thesis using s'(1,2) False unfolding len by auto
  next
    case True
    then obtain s1 where s1: "step_loop next_tr (length trs + Suc m) s = step_loop next_tr (Suc m) s1" "moved s s1 (pre @ [tr]) (P @ p)"
      using IH by blast
    have h1: "stack s1 = pre @ [tr]" "current_key s1 = P @ p" "holds T (heap s1) ?t" "read_loc s1 l = Some (Link TRIE a)"
      using s1(2) node.prems(3,4) read_same[of s s1 l] by (simp_all add: moved_def same_db_def)
    note nx = next_node[OF h1(1) node.hyps(1) h1(4) node.hyps(2-4) h1(3) node.prems(5) h1(2) node.hyps(6)]
    show ?thesis
    proof (cases "Suc i = length cs")
      case lst: True
      then obtain tr' where tr': "next_tr s1 = Some (False, s1\<lparr>stack := pre @ [tr']\<rparr>)" "t_keypos tr' = length P" using nx(1) by blast
      let ?s = "s1\<lparr>stack := pre @ [tr']\<rparr>"
      have "moved ?s (pop ?s) pre P" using h1(2) tr'(2) by (intro pop_moved) auto
      moreover have "same_db s ?s" "rest_key ?s = rest_key s" using s1(2) by (auto simp: moved_def same_db_def)
      ultimately have "moved s (pop ?s) pre P" by (auto simp: moved_def same_db_def)
      then show ?thesis using lst True s1(1) loop_False[of next_tr, OF tr'(1)] unfolding len by auto
    next
      case False
      then have "Suc i < length cs" using node.hyps(4) by simp
      then obtain s2 trs2 e2 R2 where s2: "next_tr s1 = Some (True, s2)" "moved s1 s2 (pre @ trs2) (fst e2)"
        "at_entry ?t l P trs2 (keyed (P @ p) (take (Suc i) cs)) e2 R2" using nx(2) by blast
      have "keyed (P @ p) (take (Suc i) cs) = (keyed (P @ p) (take i cs) @ B) @ [e]"
        using at_entry_entries[OF node.hyps(5)] True node.hyps(4) by (simp add: take_Suc_conv_app_nth)
      moreover have "keyed (P @ p) (drop (Suc i) cs) = e2 # R2"
        using at_entry_entries[OF s2(3)] keyed_take_drop[of "P @ p" cs "Suc i"] unfolding prefixed_entries by simp
      moreover have "moved s s2 (pre @ trs2) (fst e2)" using moved_trans[OF s1(2) s2(2)] .
      ultimately show ?thesis using s2(3) s1(1) loop_True[of next_tr, OF s2(1)] True unfolding len by auto
    qed
  qed
qed

lemma prev_loop:
  assumes "at_entry t l P trs B e R" "stack s = pre @ trs" "current_key s = fst e" "read_loc s l = Some (tree_link t)"
    "holds T (heap s) t" "wf_tree t"
  shows "(B \<noteq> [] \<longrightarrow> (\<exists>s' trs'. step_loop prev_tr (length trs + m) s = Some s' \<and> moved s s' (pre @ trs') (fst (last B))
      \<and> at_entry t l P trs' (butlast B) (last B) (e # R)))
    \<and> (B = [] \<longrightarrow> (\<exists>s'. step_loop prev_tr (length trs + m) s = step_loop prev_tr m s' \<and> moved s s' pre P))"
  using assms
proof (induction arbitrary: s pre m rule: at_entry.induct)
  case (leaf l P a k v tr)
  have "prev_tr s = Some (False, s)" using next_leaf(2)[OF leaf.prems(1) leaf.hyps(1) _ leaf.hyps(2)] leaf.prems(3) by simp
  moreover have "moved s (pop s) pre P" using leaf by (intro pop_moved) (auto simp: on_tree_def)
  ultimately show ?case by auto
next
  case (node l P a p ks cs tr i trs B e R)
  let ?t = "ANode a p ks cs"
  have st: "stack s = (pre @ [tr]) @ trs" using node.prems(1) by simp
  have ch: "read_loc s (LSlot a i) = Some (tree_link (cs ! i))" "holds T (heap s) (cs ! i)" "wf_tree (cs ! i)"
    using read_slot[OF node.prems(4) node.hyps(4)] node.prems(4,5) node.hyps(4) by auto
  have bo: "branch_ok (ks ! i) (cs ! i)" using node.prems(5) node.hyps(4) by simp
  note IH = node.IH[OF st node.prems(2) ch, of "Suc m"]
  have len: "length (tr # trs) + m = length trs + Suc m" by simp
  show ?case
  proof (cases "B = []")
    case False
    then obtain s' trs' where s': "step_loop prev_tr (length trs + Suc m) s = Some s'" "moved s s' ((pre @ [tr]) @ trs') (fst (last B))"
      "at_entry (cs ! i) (LSlot a i) (P @ p) trs' (butlast B) (last B) (e # R)" using IH by blast
    have "at_entry ?t l P (tr # trs') (keyed (P @ p) (take i cs) @ butlast B) (last B) (e # R @ keyed (P @ p) (drop (Suc i) cs))"
      using at_entry.node[OF node.hyps(1-4) s'(3) node.hyps(6)] node.hyps(7) at_entry_branch[OF node.hyps(5) s'(3) bo] by simp
    then show ?thesis using s'(1,2) False unfolding len by (auto simp: butlast_append)
  next
    case True
    then obtain s1 where s1: "step_loop prev_tr (length trs + Suc m) s = step_loop prev_tr (Suc m) s1" "moved s s1 (pre @ [tr]) (P @ p)"
      using IH by blast
    have h1: "stack s1 = pre @ [tr]" "current_key s1 = P @ p" "holds T (heap s1) ?t" "read_loc s1 l = Some (Link TRIE a)"
      using s1(2) node.prems(3,4) read_same[of s s1 l] by (simp_all add: moved_def same_db_def)
    note nx = prev_node[OF h1(1) node.hyps(1) h1(4) node.hyps(2-4) h1(3) node.prems(5) h1(2) node.hyps(6)]
    show ?thesis
    proof (cases i)
      case 0
      then obtain tr' where tr': "prev_tr s1 = Some (False, s1\<lparr>stack := pre @ [tr']\<rparr>)" "t_keypos tr' = length P" using nx(1) by blast
      let ?s = "s1\<lparr>stack := pre @ [tr']\<rparr>"
      have "moved ?s (pop ?s) pre P" using h1(2) tr'(2) by (intro pop_moved) auto
      moreover have "same_db s ?s" "rest_key ?s = rest_key s" using s1(2) by (auto simp: moved_def same_db_def)
      ultimately have "moved s (pop ?s) pre P" by (auto simp: moved_def same_db_def)
      then show ?thesis using 0 True s1(1) loop_False[of prev_tr, OF tr'(1)] unfolding len by auto
    next
      case (Suc j)
      then obtain s2 trs2 B2 e2 where s2: "prev_tr s1 = Some (True, s2)" "moved s1 s2 (pre @ trs2) (fst e2)"
        "at_entry ?t l P trs2 B2 e2 (keyed (P @ p) (drop i cs))" using nx(2) by blast
      have "keyed (P @ p) (drop i cs) = e # R @ keyed (P @ p) (drop (Suc i) cs)"
        using at_entry_entries[OF node.hyps(5)] True by (subst Cons_nth_drop_Suc[OF node.hyps(4), symmetric]) simp
      moreover have "keyed (P @ p) (take i cs) = B2 @ [e2]"
        using at_entry_entries[OF s2(3)] keyed_take_drop[of "P @ p" cs i] unfolding prefixed_entries by simp
      moreover have "moved s s2 (pre @ trs2) (fst e2)" using moved_trans[OF s1(2) s2(2)] .
      ultimately show ?thesis using s2(3) s1(1) loop_True[of prev_tr, OF s2(1)] True unfolding len by auto
    qed
  qed
qed

section \<open>The path of a cursor on an entry\<close>

lemma at_entry_spine:
  assumes "at_entry t l P trs B e R" "wf_tree t"
  shows "\<exists>ts tr is c l' kp. trs = ts @ [tr] \<and> spine (fst e) t l (length P) ts is c l' kp \<and> top_ok (fst e) l' kp c tr \<and> t_cmp tr = 0"
  using assms
proof (induction rule: at_entry.induct)
  case (leaf l P a k v tr)
  have "spine (fst (P @ k, v)) (ALeaf a k v) l (length P) [] [] (ALeaf a k v) l (length P)" by (intro spine.here) simp
  moreover have "top_ok (fst (P @ k, v)) l (length P) (ALeaf a k v) tr" using leaf.hyps by (simp add: top_ok_def)
  ultimately show ?case using leaf.hyps(2) by blast
next
  case (node l P a p ks cs tr i trs B e R)
  have w: "wf_tree (cs ! i)" "branch_ok (ks ! i) (cs ! i)" using node.prems node.hyps(4) by auto
  obtain ts tr' "is" c l' kp where sp: "trs = ts @ [tr']" "spine (fst e) (cs ! i) (LSlot a i) (length (P @ p)) ts is c l' kp"
    "top_ok (fst e) l' kp c tr'" "t_cmp tr' = 0" using node.IH[OF w(1)] by blast
  obtain k where k: "fst e = (P @ p) @ k" "(k, snd e) \<in> set (entries (cs ! i))" using at_entry_in[OF node.hyps(5)] by metis
  have "key_branch k = ks ! i" using entries_branch[OF w(2) k(2)] .
  moreover have "length P + length p < length (fst e) \<longrightarrow> t_branch_key tr = fst e ! (length P + length p)"
    using node.hyps(7) k(1) by (auto simp: branch_set_def nth_append hd_conv_nth)
  ultimately have "spine (fst e) (ANode a p ks cs) l (length P) (tr # ts) (i # is) c l' kp"
    using node.hyps(1,3,4,6) sp(2) k(1) by (intro spine.down) auto
  then show ?case using sp(1,3,4) by (metis append_Cons)
qed

section \<open>Walking through a database\<close>

definition on_entry :: "traits \<Rightarrow> atree \<Rightarrow> ('m, 'z) cursor_scheme \<Rightarrow> entry list \<Rightarrow> entry \<Rightarrow> entry list \<Rightarrow> bool" where
  "on_entry T t s B e R \<longleftrightarrow> wf_tree t \<and> holds T (heap s) t \<and> root s = tree_link t
     \<and> at_entry t LRoot [] (stack s) B e R \<and> current_key s = fst e"

lemma at_entry_leaf:
  assumes "at_entry t l P trs B e R" "holds T (heap s) t" "read_loc s l = Some (tree_link t)"
  shows "\<exists>a lf. trs \<noteq> [] \<and> t_cmp (last trs) = 0 \<and> t_node (last trs) = a \<and> leaf_at s a = Some lf \<and> leaf_value lf = snd (snd e)
    \<and> read_loc s (t_offset (last trs)) = Some (Link LEAF a)"
  using assms
proof (induction rule: at_entry.induct)
  case (leaf l P a k v tr)
  then show ?case by (auto simp: on_tree_def leaf_at_def)
next
  case (node l P a p ks cs tr i trs B e R)
  have "holds T (heap s) (cs ! i)" using node.prems(1) node.hyps(4) by simp
  then show ?case using node.IH read_slot[OF node.prems(1) node.hyps(4)] by auto
qed

lemma on_entry_reads:
  assumes "on_entry T t s B e R"
  shows "entries t = B @ e # R" "is_valid s" "current_key s = fst e" "cursor_value s = Some (snd (snd e))"
proof -
  have e: "wf_tree t" "holds T (heap s) t" "root s = tree_link t" "at_entry t LRoot [] (stack s) B e R"
    using assms by (simp_all add: on_entry_def)
  show "current_key s = fst e" using assms by (simp add: on_entry_def)
  show "entries t = B @ e # R" using at_entry_entries[OF e(4)] by (simp add: map_idI apfst_def map_prod_def case_prod_unfold)
  obtain a lf where l: "stack s \<noteq> []" "t_cmp (last (stack s)) = 0" "t_node (last (stack s)) = a" "leaf_at s a = Some lf"
    "leaf_value lf = snd (snd e)" "read_loc s (t_offset (last (stack s))) = Some (Link LEAF a)"
    using at_entry_leaf[OF e(4,2)] e(3) by auto
  have "stack s ! top_idx s = last (stack s)" using l(1) by (simp add: top_idx_def last_conv_nth)
  then show "is_valid s" "cursor_value s = Some (snd (snd e))"
    using l by (simp_all add: is_valid_def success_def is_leaf_def cursor_value_def)
qed

lemma on_entry_moved:
  assumes "on_entry T t s B e R" "moved (s\<lparr>rest_key := []\<rparr>) s' trs (fst e')" "at_entry t LRoot [] trs B' e' R'"
  shows "on_entry T t s' B' e' R'"
  using assms by (simp add: on_entry_def moved_def same_db_def)

text \<open>A step forward and a step back.\<close>

lemma cursor_next_entry:
  assumes "on_entry T t s B e R"
  shows "\<exists>s'. cursor_next s = Some s' \<and> same_db s s' \<and> (case R of [] \<Rightarrow> stack s' = [] | r # R' \<Rightarrow> on_entry T t s' (B @ [e]) r R')"
proof -
  let ?s = "s\<lparr>rest_key := []\<rparr>"
  have e: "wf_tree t" "holds T (heap ?s) t" "read_loc ?s LRoot = Some (tree_link t)" "at_entry t LRoot [] (stack s) B e R" "current_key ?s = fst e"
    "stack ?s = [] @ stack s"
    using assms by (simp_all add: on_entry_def)
  note lp = next_loop[OF e(4,6,5,3,2,1), of 0]
  have n: "cursor_next s = step_loop next_tr (length (stack s) + 0) ?s" by (simp add: cursor_next_def)
  show ?thesis
  proof (cases R)
    case Nil
    then obtain s' where "step_loop next_tr (length (stack s) + 0) ?s = Some s'" "moved ?s s' [] []" using lp by auto
    then show ?thesis using Nil unfolding n by (auto simp: moved_def same_db_def)
  next
    case (Cons r R')
    then obtain s' trs' where s': "step_loop next_tr (length (stack s) + 0) ?s = Some s'" "moved ?s s' trs' (fst r)"
      "at_entry t LRoot [] trs' (B @ [e]) r R'" using lp by auto
    then show ?thesis using on_entry_moved[OF assms s'(2,3)] Cons unfolding n by (auto simp: moved_def same_db_def)
  qed
qed

lemma cursor_prev_entry:
  assumes "on_entry T t s B e R"
  shows "\<exists>s'. cursor_prev s = Some s' \<and> same_db s s' \<and> (if B = [] then stack s' = [] else on_entry T t s' (butlast B) (last B) (e # R))"
proof -
  let ?s = "s\<lparr>rest_key := []\<rparr>"
  have e: "wf_tree t" "holds T (heap ?s) t" "read_loc ?s LRoot = Some (tree_link t)" "at_entry t LRoot [] (stack s) B e R" "current_key ?s = fst e"
    "stack ?s = [] @ stack s"
    using assms by (simp_all add: on_entry_def)
  note lp = prev_loop[OF e(4,6,5,3,2,1), of 0]
  have n: "cursor_prev s = step_loop prev_tr (length (stack s) + 0) ?s" by (simp add: cursor_prev_def)
  show ?thesis
  proof (cases "B = []")
    case True
    then obtain s' where "step_loop prev_tr (length (stack s) + 0) ?s = Some s'" "moved ?s s' [] []" using lp by auto
    then show ?thesis using True unfolding n by (auto simp: moved_def same_db_def)
  next
    case False
    then obtain s' trs' where s': "step_loop prev_tr (length (stack s) + 0) ?s = Some s'" "moved ?s s' trs' (fst (last B))"
      "at_entry t LRoot [] trs' (butlast B) (last B) (e # R)" using lp by auto
    then show ?thesis using on_entry_moved[OF assms s'(2,3)] False unfolding n by (auto simp: moved_def same_db_def)
  qed
qed

lemma cursor_first_last_entry:
  assumes "wf_tree t" "holds T (heap s) t" "root s = tree_link t"
  shows "\<exists>s' e R. cursor_first s = Some s' \<and> same_db s s' \<and> on_entry T t s' [] e R"
    "\<exists>s' e B. cursor_last s = Some s' \<and> same_db s s' \<and> on_entry T t s' B e []"
proof -
  let ?s1 = "(clear_stack 0 s)\<lparr>rest_key := [], current_key := []\<rparr>"
  define tr where "tr = child_tr (spare ?s1) 0 LRoot 0 t"
  let ?s2 = "?s1\<lparr>stack := [tr]\<rparr>"
  have nz: "root s \<noteq> 0" using assms(2,3) by (cases t) (auto simp: zero_link_def)
  have cl: "cursor_clear s = Some (False, ?s2)"
    using nz push_loc_eq[of ?s1 LRoot t] assms(3) by (simp add: cursor_clear_def clear_stack_def tr_def)
  have p: "stack ?s2 = [] @ [tr]" "on_tree LRoot (length []) t tr" "read_loc ?s2 LRoot = Some (tree_link t)"
    "holds T (heap ?s2) t" "current_key ?s2 = []"
    using assms by (simp_all add: tr_def clear_stack_def)
  obtain s' trs e R where f: "first_tr ?s2 = Some s'" "moved ?s2 s' ([] @ trs) (fst e)" "at_entry t LRoot [] trs [] e R"
    using first_tr_entry[OF p(1-4) assms(1) p(5)] by blast
  then have "on_entry T t s' [] e R" "same_db s s'" using assms by (simp_all add: on_entry_def moved_def same_db_def clear_stack_def)
  moreover have "cursor_first s = Some s'" using cl f(1) by (simp add: cursor_first_def)
  ultimately show "\<exists>s' e R. cursor_first s = Some s' \<and> same_db s s' \<and> on_entry T t s' [] e R" by blast
  obtain s' trs e B where g: "last_tr ?s2 = Some s'" "moved ?s2 s' ([] @ trs) (fst e)" "at_entry t LRoot [] trs B e []"
    using last_tr_entry[OF p(1-4) assms(1) p(5)] by blast
  then have "on_entry T t s' B e []" "same_db s s'" using assms by (simp_all add: on_entry_def moved_def same_db_def clear_stack_def)
  moreover have "cursor_last s = Some s'" using cl g(1) by (simp add: cursor_last_def)
  ultimately show "\<exists>s' e B. cursor_last s = Some s' \<and> same_db s s' \<and> on_entry T t s' B e []" by blast
qed

text \<open>Several steps.\<close>

fun steps :: "('s \<Rightarrow> 's option) \<Rightarrow> nat \<Rightarrow> 's \<Rightarrow> 's option" where
  "steps f 0 s = Some s"
| "steps f (Suc k) s = Option.bind (f s) (steps f k)"

lemma next_steps:
  assumes "on_entry T t s B e R"
  shows "k \<le> length R \<Longrightarrow> \<exists>s'. steps cursor_next k s = Some s' \<and> same_db s s'
      \<and> on_entry T t s' (B @ take k (e # R)) ((e # R) ! k) (drop k R)"
    "k = Suc (length R) \<Longrightarrow> \<exists>s'. steps cursor_next k s = Some s' \<and> same_db s s' \<and> stack s' = []"
proof -
  show "\<exists>s'. steps cursor_next k s = Some s' \<and> same_db s s' \<and> on_entry T t s' (B @ take k (e # R)) ((e # R) ! k) (drop k R)"
    if "k \<le> length R" for k
    using assms that
  proof (induction k arbitrary: s B e R)
    case 0
    then show ?case by (auto simp: same_db_def)
  next
    case (Suc k)
    then obtain r R' where R: "R = r # R'" by (cases R) auto
    obtain s1 where s1: "cursor_next s = Some s1" "same_db s s1" "on_entry T t s1 (B @ [e]) r R'"
      using cursor_next_entry[OF Suc.prems(1)] R by auto
    then show ?case using Suc.IH[OF s1(3)] Suc.prems(2) R by (auto simp: same_db_def)
  qed
  note ex = this
  assume "k = Suc (length R)"
  then show "\<exists>s'. steps cursor_next k s = Some s' \<and> same_db s s' \<and> stack s' = []"
    using assms
  proof (induction R arbitrary: k s B e)
    case Nil
    then show ?case using cursor_next_entry[OF Nil.prems(2)] by auto
  next
    case (Cons r R)
    obtain s1 where s1: "cursor_next s = Some s1" "same_db s s1" "on_entry T t s1 (B @ [e]) r R"
      using cursor_next_entry[OF Cons.prems(2)] by auto
    then show ?case using Cons.IH[OF _ s1(3), of "Suc (length R)"] Cons.prems(1) by (auto simp: same_db_def)
  qed
qed

lemma prev_steps:
  assumes "on_entry T t s B e R"
  shows "k \<le> length B \<Longrightarrow> \<exists>s' R'. steps cursor_prev k s = Some s' \<and> same_db s s'
      \<and> on_entry T t s' (take (length B - k) B) ((B @ [e]) ! (length B - k)) R'"
    "k = Suc (length B) \<Longrightarrow> \<exists>s'. steps cursor_prev k s = Some s' \<and> same_db s s' \<and> stack s' = []"
proof -
  show "\<exists>s' R'. steps cursor_prev k s = Some s' \<and> same_db s s' \<and> on_entry T t s' (take (length B - k) B) ((B @ [e]) ! (length B - k)) R'"
    if "k \<le> length B" for k
    using assms that
  proof (induction k arbitrary: s B e R)
    case 0
    then show ?case by (auto simp: same_db_def)
  next
    case (Suc k)
    then obtain B' b where B: "B = B' @ [b]" by (cases B rule: rev_cases) auto
    obtain s1 where s1: "cursor_prev s = Some s1" "same_db s s1" "on_entry T t s1 B' b (e # R)"
      using cursor_prev_entry[OF Suc.prems(1)] B by auto
    then obtain s2 R' where s2: "steps cursor_prev k s1 = Some s2" "same_db s1 s2" "on_entry T t s2 (take (length B' - k) B') ((B' @ [b]) ! (length B' - k)) R'"
      using Suc.IH[OF s1(3)] Suc.prems(2) B by auto
    moreover have "take (length B - Suc k) B = take (length B' - k) B'" "(B @ [e]) ! (length B - Suc k) = (B' @ [b]) ! (length B' - k)"
      using B Suc.prems(2) by (auto simp: nth_append)
    ultimately show ?case using s1 by (auto simp: same_db_def)
  qed
  assume "k = Suc (length B)"
  then show "\<exists>s'. steps cursor_prev k s = Some s' \<and> same_db s s' \<and> stack s' = []"
    using assms
  proof (induction B arbitrary: k s e R rule: rev_induct)
    case Nil
    then show ?case using cursor_prev_entry[OF Nil.prems(2)] by auto
  next
    case (snoc b B)
    obtain s1 where s1: "cursor_prev s = Some s1" "same_db s s1" "on_entry T t s1 B b (e # R)"
      using cursor_prev_entry[OF snoc.prems(2)] by auto
    then show ?case using snoc.IH[OF _ s1(3), of "Suc (length B)"] snoc.prems(1) by (auto simp: same_db_def)
  qed
qed



end
