(* ===== verification/Leaves_Inserter.thy ===== *)
theory Leaves_Inserter
  imports Leaves_Cursor
begin

text \<open>
  Changing the trie through a cursor: the copy-on-write propagation \<open>_Transition::update\<close> of
  \<open>_cursor.hpp\<close>, and \<open>_Inserter\<close> of \<open>include/leaves/intern/db/_inserter.hpp\<close> with the cursor
  operations \<open>reserve\<close> and \<open>value\<close> built on it.
\<close>

section \<open>Copy on write\<close>

text \<open>
  The first half of \<open>_Transition::update\<close>: the page of the trie node is copied to a fresh page
  of the same size class, the transition moves there and the old page is freed.
\<close>

definition cow_copy :: "'m db_ops \<Rightarrow> nat \<Rightarrow> ('m, 'z) cursor_scheme \<Rightarrow> ('m, 'z) cursor_scheme option" where
  "cow_copy Ops d s =
     (let old = t_node (stack s ! d)
      in do { p \<leftarrow> heap s old;
              (a, s1) \<leftarrow> alloc_slot Ops (slot_id p) s;
              s2 \<leftarrow> set_page a (\<lambda>q. q\<lparr>used := used p, body := body p\<rparr>) s1;
              free_node Ops old (upd_tr d (\<lambda>tr. tr\<lparr>t_node := a\<rparr>) s2) })"

text \<open>The second half: the cell that held the old link, in a parent that may be written, gets the new one.\<close>

definition relink :: "nat \<Rightarrow> loc \<Rightarrow> ('m, 'z) cursor_scheme \<Rightarrow> (loc \<times> ('m, 'z) cursor_scheme) option" where
  "relink d l s =
     do { s1 \<leftarrow> write_loc l (Link TRIE (t_node (stack s ! d))) (upd_tr d (\<lambda>tr. tr\<lparr>t_offset := l\<rparr>) s);
          Some (link_of_tr (stack s ! d), s1) }"

fun update_tr :: "'m db_ops \<Rightarrow> nat \<Rightarrow> ('m, 'z) cursor_scheme \<Rightarrow> (loc \<times> ('m, 'z) cursor_scheme) option" where
  "update_tr Ops 0 s =
     do { p \<leftarrow> heap s (t_node (stack s ! 0));
          if needs_cow Ops s p
          then do { s1 \<leftarrow> cow_copy Ops 0 s; relink 0 (t_offset (stack s1 ! 0)) s1 }
          else Some (link_of_tr (stack s ! 0), s) }"
| "update_tr Ops (Suc d) s =
     do { p \<leftarrow> heap s (t_node (stack s ! Suc d));
          if needs_cow Ops s p
          then do { s1 \<leftarrow> cow_copy Ops (Suc d) s; (l, s2) \<leftarrow> update_tr Ops d s1; relink (Suc d) l s2 }
          else Some (link_of_tr (stack s ! Suc d), s) }"

definition update_offset ::
  "'m db_ops \<Rightarrow> nat \<Rightarrow> link \<Rightarrow> ('m, 'z) cursor_scheme \<Rightarrow> ('m, 'z) cursor_scheme option" where
  "update_offset Ops d new_offset s =
     do { (l, s1) \<leftarrow> (case d of 0 \<Rightarrow> Some (t_offset (stack s ! 0), s) | Suc e \<Rightarrow> update_tr Ops e s);
          write_loc l new_offset (upd_tr d (\<lambda>tr. tr\<lparr>t_offset := l\<rparr>) s1) }"

section \<open>New leaves\<close>

text \<open>The bytes of a fresh page are taken as zero; they are written before they are read.\<close>

definition fresh_leaf :: "nat \<Rightarrow> leaf_node" where
  "fresh_leaf n = \<lparr>value_size = 0, key_size = 0, leaf_data = replicate n 0\<rparr>"

definition fill_leaf ::
  "traits \<Rightarrow> 'm db_ops \<Rightarrow> nat \<Rightarrow> bytes \<Rightarrow> ('m, 'z) cursor_scheme \<Rightarrow> (nat \<times> ('m, 'z) cursor_scheme) option" where
  "fill_leaf T Ops vsz key s =
     do { (a, s1) \<leftarrow> alloc_node T Ops (leaf_size_of T (length key) vsz) s;
          s2 \<leftarrow> put_leaf a (leaf_set (fresh_leaf (length key + vsz)) key vsz) s1;
          Some (a, s2) }"

definition fill_bigkey :: "traits \<Rightarrow> ('m, 'z) cursor_scheme \<Rightarrow> ('m, 'z) cursor_scheme option" where
  "fill_bigkey T s =
     (let d = top_idx s; pfx = take 255 (rest_key s); bk = rest_key s ! 255; (n, i) = create_key T pfx (uint bk)
      in do { s1 \<leftarrow> put_trie (t_node (stack s ! d)) n s;
              Some (advance_key 255
                (upd_tr d (\<lambda>tr. tr\<lparr>t_branch_key := bk, t_link_idx := i, t_prefix := length pfx, t_cmp := 0\<rparr>) s1)) })"

partial_function (option) create_bigkey ::
  "traits \<Rightarrow> 'm db_ops \<Rightarrow> ('m, 'z) cursor_scheme \<Rightarrow> ('m, 'z) cursor_scheme option" where
  "create_bigkey T Ops s =
     (if length (rest_key s) > 255 then
        do { (a, s1) \<leftarrow> alloc_node T Ops (trie_size_branches T 255 1) s;
             s2 \<leftarrow> write_loc (link_of_tr (stack s1 ! top_idx s1)) (Link TRIE a) s1;
             s3 \<leftarrow> push s2;
             s4 \<leftarrow> fill_bigkey T s3;
             create_bigkey T Ops s4 }
      else Some s)"

declare create_bigkey.simps [code]

definition create_leaf ::
  "traits \<Rightarrow> 'm db_ops \<Rightarrow> nat \<Rightarrow> ('m, 'z) cursor_scheme \<Rightarrow> ('m, 'z) cursor_scheme option" where
  "create_leaf T Ops vsz s =
     do { s1 \<leftarrow> create_bigkey T Ops s;
          (a, s2) \<leftarrow> fill_leaf T Ops vsz (rest_key s1) s1;
          s3 \<leftarrow> write_loc (link_of_tr (stack s2 ! top_idx s2)) (Link LEAF a) s2;
          s4 \<leftarrow> push s3;
          let k = length (rest_key s4)
          in Some (advance_key k (upd_tr (top_idx s4) (\<lambda>tr. tr\<lparr>t_cmp := 0, t_prefix := k\<rparr>) s4)) }"

definition first_exec ::
  "traits \<Rightarrow> 'm db_ops \<Rightarrow> nat \<Rightarrow> ('m, 'z) cursor_scheme \<Rightarrow> ('m, 'z) cursor_scheme option" where
  "first_exec T Ops vsz s =
     (let d = top_idx s; l = t_offset (stack s ! d); k = length (rest_key s)
      in if k > 255 then
           do { (a, s1) \<leftarrow> alloc_node T Ops (trie_size_branches T 255 1) s;
                s2 \<leftarrow> write_loc l (Link TRIE a) s1;
                s3 \<leftarrow> fill_bigkey T (upd_tr d (\<lambda>tr. tr\<lparr>t_node := a\<rparr>) s2);
                create_leaf T Ops vsz s3 }
         else
           do { (a, s1) \<leftarrow> fill_leaf T Ops vsz (rest_key s) s;
                s2 \<leftarrow> write_loc l (Link LEAF a) (upd_tr d (\<lambda>tr. tr\<lparr>t_node := a\<rparr>) s1);
                Some (advance_key k (upd_tr d (\<lambda>tr. tr\<lparr>t_cmp := 0, t_prefix := k\<rparr>) s2)) })"

section \<open>Splitting and extending nodes\<close>

definition set_link :: "nat \<Rightarrow> link \<Rightarrow> link trie_node \<Rightarrow> link trie_node" where
  "set_link i l n = n\<lparr>array := (array n)[i := l]\<rparr>"

definition split_compressed ::
  "traits \<Rightarrow> 'm db_ops \<Rightarrow> nat \<Rightarrow> ('m, 'z) cursor_scheme \<Rightarrow> ('m, 'z) cursor_scheme option" where
  "split_compressed T Ops vsz s =
     (let d = top_idx s; tr = stack s ! d; old = t_node tr; p = t_prefix tr
      in do { otrie \<leftarrow> trie_at s old;
              let suffix_len = unat (compressed_len otrie) - p;
                  child = create_prefix T otrie (take suffix_len (drop p (compressed otrie)))
              in do {
                (ca, s1) \<leftarrow> alloc_node T Ops (changed_len T otrie suffix_len) s;
                s2 \<leftarrow> put_trie ca child s1;
                let key = key_branch (rest_key s2);
                    okey = uint (compressed otrie ! p);
                    (n, (i, j)) = create_keys T (take p (compressed otrie)) okey key
                in do {
                  (a, s3) \<leftarrow> alloc_node T Ops (trie_size_keys T p okey key) s2;
                  s4 \<leftarrow> put_trie a (set_link i (Link TRIE ca) n) s3;
                  s5 \<leftarrow> free_node Ops old (upd_tr d (\<lambda>tr. tr\<lparr>t_node := a, t_link_idx := j,
                          t_branch_key := (if rest_key s2 = [] then t_branch_key tr else hd (rest_key s2))\<rparr>) s4);
                  s6 \<leftarrow> update_offset Ops d (Link TRIE a) s5;
                  create_leaf T Ops vsz s6 } } })"

definition add_to_array ::
  "traits \<Rightarrow> 'm db_ops \<Rightarrow> nat \<Rightarrow> ('m, 'z) cursor_scheme \<Rightarrow> ('m, 'z) cursor_scheme option" where
  "add_to_array T Ops vsz s =
     (let d = top_idx s; tr = stack s ! d; old = t_node tr;
          key = (if rest_key s = [] then NONE else uint (t_branch_key tr))
      in do { otrie \<leftarrow> trie_at s old;
              p \<leftarrow> heap s old;
              let needed = increment_size T otrie key;
                  slot_budget = PAGE_SIZES T ! slot_id p - PAGE_HEADER_SIZE T
              in if \<not> needs_cow Ops s p \<and> needed \<le> slot_budget then
                   let (n, i) = insert_branch otrie key
                   in do { s1 \<leftarrow> put_trie old n s;
                           s2 \<leftarrow> set_page old (\<lambda>p. p\<lparr>used := needed\<rparr>) s1;
                           create_leaf T Ops vsz (upd_tr d (\<lambda>tr. tr\<lparr>t_link_idx := i, t_cmp := 0\<rparr>) s2) }
                 else
                   let (n, i) = create_add T otrie key
                   in do { (a, s1) \<leftarrow> alloc_node T Ops needed s;
                           s2 \<leftarrow> put_trie a n s1;
                           s3 \<leftarrow> free_node Ops old (upd_tr d (\<lambda>tr. tr\<lparr>t_node := a, t_link_idx := i\<rparr>) s2);
                           s4 \<leftarrow> update_offset Ops d (Link TRIE a) s3;
                           create_leaf T Ops vsz (upd_tr d (\<lambda>tr. tr\<lparr>t_cmp := 0\<rparr>) s4) } })"

text \<open>
  \<open>copy_reduced_leaf\<close>. When the leaf refers to a big value, the flag of the old leaf is
  cleared in place.
\<close>

definition copy_reduced_leaf ::
  "traits \<Rightarrow> 'm db_ops \<Rightarrow> nat \<Rightarrow> nat \<Rightarrow> leaf_node \<Rightarrow> ('m, 'z) cursor_scheme
    \<Rightarrow> (nat \<times> leaf_node \<times> ('m, 'z) cursor_scheme) option" where
  "copy_reduced_leaf T Ops split_pos old oleaf s =
     do { (a, s1) \<leftarrow> alloc_node T Ops (leaf_size_of T (unat (key_size oleaf) - split_pos) (vsize oleaf)) s;
          let ks = key_size oleaf - word_of_nat split_pos;
              copy = \<lparr>value_size = value_size oleaf, key_size = ks,
                      leaf_data = take (unat ks + vsize oleaf) (drop split_pos (leaf_data oleaf))\<rparr>
          in do { s2 \<leftarrow> put_leaf a copy s1;
                  s3 \<leftarrow> (if leaf_is_big oleaf then put_leaf old (clear_big oleaf) s2 else Some s2);
                  Some (a, copy, s3) } }"

definition change_leaf ::
  "traits \<Rightarrow> 'm db_ops \<Rightarrow> nat \<Rightarrow> ('m, 'z) cursor_scheme \<Rightarrow> ('m, 'z) cursor_scheme option" where
  "change_leaf T Ops vsz s =
     (let d = top_idx s; tr = stack s ! d; old = t_node tr; p = t_prefix tr
      in do { oleaf \<leftarrow> leaf_at s old;
              if t_cmp tr = 0 then
                do { (a, s1) \<leftarrow> fill_leaf T Ops vsz (leaf_key oleaf) s;
                     s2 \<leftarrow> free_node Ops old (upd_tr d (\<lambda>tr. tr\<lparr>t_node := a\<rparr>) s1);
                     update_offset Ops d (Link LEAF a) s2 }
              else
                do { (ca, copy, s1) \<leftarrow> copy_reduced_leaf T Ops p old oleaf s;
                     let okey = (if key_size copy = 0 then NONE else uint (hd (leaf_data copy)));
                         nkey = key_branch (rest_key s1);
                         (n, (i, j)) = create_keys T (take p (leaf_data oleaf)) okey nkey
                     in do {
                       (a, s2) \<leftarrow> alloc_node T Ops (trie_size_keys T p okey nkey) s1;
                       s3 \<leftarrow> put_trie a (set_link i (Link LEAF ca) n) s2;
                       s4 \<leftarrow> free_node Ops old (upd_tr d (\<lambda>tr. tr\<lparr>t_node := a, t_link_idx := j,
                               t_branch_key := word_of_int nkey, t_cmp := 0\<rparr>) s3);
                       s5 \<leftarrow> update_offset Ops d (Link TRIE a) s4;
                       create_leaf T Ops vsz s5 } } })"

definition insert_exec ::
  "traits \<Rightarrow> 'm db_ops \<Rightarrow> nat \<Rightarrow> ('m, 'z) cursor_scheme \<Rightarrow> ('m, 'z) cursor_scheme option" where
  "insert_exec T Ops vsz s =
     (let d = top_idx s
      in if is_leaf s d then change_leaf T Ops vsz s
         else do { n \<leftarrow> trie_at s (t_node (stack s ! d));
                   if t_prefix (stack s ! d) = unat (compressed_len n)
                   then add_to_array T Ops vsz s
                   else split_compressed T Ops vsz s })"

section \<open>Writing through the cursor\<close>

definition cursor_reserve ::
  "traits \<Rightarrow> 'm db_ops \<Rightarrow> nat \<Rightarrow> ('m, 'z) cursor_scheme \<Rightarrow> (error + ('m, 'z) cursor_scheme) option" where
  "cursor_reserve T Ops vsz s =
     (if stack s = [] then
        (if root s = 0
         then map_option Inr (Option.bind (push_loc LRoot s) (first_exec T Ops vsz))
         else Some (Inl NoValidPosition))
      else map_option Inr (insert_exec T Ops vsz s))"

text \<open>\<open>value(const Slice&)\<close>: reserve the space and copy the bytes there.\<close>

definition cursor_put ::
  "traits \<Rightarrow> 'm db_ops \<Rightarrow> bytes \<Rightarrow> ('m, 'z) cursor_scheme \<Rightarrow> (error + ('m, 'z) cursor_scheme) option" where
  "cursor_put T Ops v s =
     do { r \<leftarrow> cursor_reserve T Ops (length v) s;
          case r of Inl e \<Rightarrow> Some (Inl e)
          | Inr s1 \<Rightarrow> (let a = t_node (stack s1 ! top_idx s1)
                      in do { l \<leftarrow> leaf_at s1 a; s2 \<leftarrow> put_leaf a (leaf_write l v) s1; Some (Inr s2) }) }"

end
