(* ===== verification/Leaves_Deleter.thy ===== *)
theory Leaves_Deleter
  imports Leaves_Inserter
begin

text \<open>
  Removing the entry under a cursor: \<open>_Deleter\<close> of \<open>include/leaves/intern/db/_deleter.hpp\<close> and
  \<open>_ICursor::remove\<close>.
\<close>

definition reduce_array ::
  "traits \<Rightarrow> 'm db_ops \<Rightarrow> nat \<Rightarrow> nat \<Rightarrow> ('m, 'z) cursor_scheme \<Rightarrow> ('m, 'z) cursor_scheme option" where
  "reduce_array T Ops d pfx s =
     (let tr = stack s ! d; old = t_node tr
      in do { otrie \<leftarrow> trie_at s old;
              let branch = (if pfx \<noteq> 0 then uint (t_branch_key tr) else NONE)
              in do {
                (a, s1) \<leftarrow> alloc_node T Ops (decrement_size T otrie branch) s;
                s2 \<leftarrow> put_trie a (create_remove T otrie branch) s1;
                s3 \<leftarrow> update_offset Ops d (Link TRIE a) (upd_tr d (\<lambda>tr. tr\<lparr>t_node := a\<rparr>) s2);
                s4 \<leftarrow> free_node Ops old s3;
                cursor_next (upd_tr d (\<lambda>tr. tr\<lparr>t_cmp := -1, t_prefix := (if pfx = 0 then 0 else t_prefix tr)\<rparr>) s4) } })"

text \<open>
  \<open>combine\<close>: the parent of the removed node has one more child, which takes over the parent's
  prefix unless the result would be too long. \<open>go_next\<close> says that the remaining child is
  before the removed one.
\<close>

definition combine ::
  "traits \<Rightarrow> 'm db_ops \<Rightarrow> nat \<Rightarrow> nat \<Rightarrow> ('m, 'z) cursor_scheme \<Rightarrow> ('m, 'z) cursor_scheme option" where
  "combine T Ops d pfx s =
     (let tr = stack s ! d; old = t_node tr; go_next = (t_link_idx tr \<noteq> 0)
      in do { otrie \<leftarrow> trie_at s old;
              let rest = array otrie ! (if go_next then 0 else 1); ca = laddr rest;
                  len = unat (compressed_len otrie);
                  finish = (\<lambda>s. do { s1 \<leftarrow> free_node Ops old (upd_tr d (\<lambda>tr. tr\<lparr>t_cmp := 1\<rparr>) s);
                                     if go_next then cursor_next s1 else first_tr (resize_key (t_keypos tr) s1) })
              in case ltype rest of
                TRIE \<Rightarrow>
                  do { child \<leftarrow> trie_at s ca;
                       if len + unat (compressed_len child) > 255 then reduce_array T Ops d pfx s
                       else
                         let buf = compressed otrie @ compressed child
                         in do { (a, s1) \<leftarrow> alloc_node T Ops (changed_len T child (length buf)) s;
                                 s2 \<leftarrow> put_trie a (create_prefix T child buf) s1;
                                 s3 \<leftarrow> update_offset Ops d (Link TRIE a) (upd_tr d (\<lambda>tr. tr\<lparr>t_node := a\<rparr>) s2);
                                 s4 \<leftarrow> free_node Ops ca s3;
                                 finish s4 } }
              | LEAF \<Rightarrow>
                  do { child \<leftarrow> leaf_at s ca;
                       if len + unat (key_size child) > 255 then reduce_array T Ops d pfx s
                       else
                         let buf = compressed otrie @ leaf_key child;
                             l = \<lparr>value_size = value_size child, key_size = word_of_nat (length buf),
                                  leaf_data = buf @ leaf_value child\<rparr>
                         in do { (a, s1) \<leftarrow> alloc_node T Ops (leaf_size_of T (length buf) (vsize child)) s;
                                 s2 \<leftarrow> put_leaf a l s1;
                                 s3 \<leftarrow> update_offset Ops d (Link LEAF a) (upd_tr d (\<lambda>tr. tr\<lparr>t_node := a\<rparr>) s2);
                                 s4 \<leftarrow> free_node Ops ca s3;
                                 finish s4 } } })"

fun remove_node ::
  "traits \<Rightarrow> 'm db_ops \<Rightarrow> nat \<Rightarrow> ('m, 'z) cursor_scheme \<Rightarrow> ('m, 'z) cursor_scheme option" where
  "remove_node T Ops 0 s =
     do { s1 \<leftarrow> write_loc (t_offset (stack s ! 0)) 0 s;
          s2 \<leftarrow> free_node Ops (t_node (stack s ! 0)) s1;
          Some (pop s2) }"
| "remove_node T Ops (Suc d) s =
     (let a = t_node (stack s ! Suc d); pfx = t_prefix (stack s ! Suc d); s1 = pop s
      in do { n \<leftarrow> trie_at s1 (t_node (stack s1 ! d));
              s2 \<leftarrow> (if node_count n = 0 then Some s1
                    else if node_count n = 1 then remove_node T Ops d s1
                    else if node_count n = 2 then combine T Ops d pfx s1
                    else reduce_array T Ops d pfx s1);
              free_node Ops a s2 })"

definition cursor_remove ::
  "traits \<Rightarrow> 'm db_ops \<Rightarrow> ('m, 'z) cursor_scheme \<Rightarrow> (error + ('m, 'z) cursor_scheme) option" where
  "cursor_remove T Ops s =
     (if \<not> is_valid s then Some (Inl NoValidPosition)
      else map_option Inr (remove_node T Ops (top_idx s) s))"

end
