(* ===== verification/Leaves_Areas.thy ===== *)
theory Leaves_Areas
  imports Leaves_Prelude
begin

text \<open>
  Areas (\<open>Area\<close>, \<open>AreaList\<close>, \<open>AreaPool\<close> and \<open>_recover_areas\<close> of
  \<open>include/leaves/intern/memory/_memory.hpp\<close>). The storage hands out its file in areas; free areas
  are chained through a header at their own offset. A list keeps two pairs of end pointers and a
  selector: a change prepares the pair that is not in use and then flips the selector. The
  headers are a function from offsets, since every offset of the file can be read as a header; sizes are stored in 32 bits.
\<close>

section \<open>Areas and lists of areas\<close>

record area =
  a_offset :: nat
  a_size :: nat
  a_next :: nat

type_synonym headers = "nat \<Rightarrow> area"

definition area_init :: "nat \<Rightarrow> nat \<Rightarrow> nat \<Rightarrow> area" where
  "area_init off sz nxt = \<lparr>a_offset = off, a_size = sz mod 2 ^ 32, a_next = nxt\<rparr>"

definition set_next :: "nat \<Rightarrow> nat \<Rightarrow> headers \<Rightarrow> headers" where
  "set_next a nxt H = H(a := (H a)\<lparr>a_next := nxt\<rparr>)"

definition set_size :: "nat \<Rightarrow> nat \<Rightarrow> headers \<Rightarrow> headers" where
  "set_size a sz H = H(a := (H a)\<lparr>a_size := sz mod 2 ^ 32\<rparr>)"

text \<open>\<open>Area::get_end\<close>: the last area of a chain.\<close>

partial_function (option) get_end_loop :: "headers \<Rightarrow> nat \<Rightarrow> nat option" where
  "get_end_loop H cur = (if a_next (H cur) = 0 then Some cur else get_end_loop H (a_next (H cur)))"

declare get_end_loop.simps [code]

definition get_end :: "headers \<Rightarrow> nat \<Rightarrow> nat option" where
  "get_end H cur = (if cur = 0 then Some 0 else get_end_loop H cur)"

record area_list =
  heads :: "bool \<Rightarrow> nat"
  tails :: "bool \<Rightarrow> nat"
  active :: bool

definition alist_init :: area_list where
  "alist_init = \<lparr>heads = (\<lambda>_. 0), tails = (\<lambda>_. 0), active = False\<rparr>"

definition get_head :: "area_list \<Rightarrow> nat" where
  "get_head l = heads l (active l)"

definition get_tail :: "area_list \<Rightarrow> nat" where
  "get_tail l = tails l (active l)"

text \<open>The two steps of \<open>atomic_switch\<close>: filling the inactive pair, then the switch.\<close>

definition prepare :: "nat \<Rightarrow> nat \<Rightarrow> area_list \<Rightarrow> area_list" where
  "prepare h t l = l\<lparr>heads := (heads l)(\<not> active l := h), tails := (tails l)(\<not> active l := t)\<rparr>"

definition flip :: "area_list \<Rightarrow> area_list" where
  "flip l = l\<lparr>active := \<not> active l\<rparr>"

definition atomic_switch :: "nat \<Rightarrow> nat \<Rightarrow> area_list \<Rightarrow> area_list" where
  "atomic_switch h t l = flip (prepare h t l)"

text \<open>The operations return the removed area, 0 for the null pointer.\<close>

definition alist_pop :: "headers \<Rightarrow> area_list \<Rightarrow> nat \<times> area_list" where
  "alist_pop H l =
     (if get_head l = 0 then (0, l)
      else let new_head = a_next (H (get_head l));
               new_tail = (if new_head \<noteq> 0 then get_tail l else 0)
           in (get_head l, atomic_switch new_head new_tail l))"

definition alist_push :: "nat \<Rightarrow> nat \<Rightarrow> headers \<Rightarrow> area_list \<Rightarrow> headers \<times> area_list" where
  "alist_push off sz H l =
     (let H = H(off := area_init off sz (get_head l));
          new_tail = (if get_tail l \<noteq> 0 then get_tail l else off)
      in (H, atomic_switch off new_tail l))"

text \<open>Removing the area \<open>cur\<close> behind \<open>prev\<close>; what exceeds the wanted size goes back to the front.\<close>

definition cut_area :: "nat \<Rightarrow> nat \<Rightarrow> nat \<Rightarrow> headers \<Rightarrow> area_list \<Rightarrow> headers \<times> area_list" where
  "cut_area sz prev cur H l =
     (let nxt = a_next (H cur);
          (H, new_head, new_tail) =
            (if prev \<noteq> 0
             then (set_next prev nxt H, get_head l, if cur = get_tail l then prev else get_tail l)
             else (H, nxt, if cur = get_tail l then 0 else get_tail l));
          (H, new_head) =
            (if a_size (H cur) > sz
             then let rest = a_offset (H cur) + sz;
                      H1 = H(rest := area_init rest (a_size (H cur) - sz) new_head)
                  in (set_size cur sz H1, rest)
             else (H, new_head));
          new_tail = (if new_tail = 0 \<and> new_head \<noteq> 0 then new_head else new_tail)
      in (H, atomic_switch new_head new_tail l))"

definition MAX_ITER :: nat where
  "MAX_ITER = 10"

fun find_loop :: "nat \<Rightarrow> nat \<Rightarrow> nat \<Rightarrow> nat \<Rightarrow> headers \<Rightarrow> area_list \<Rightarrow> nat \<times> headers \<times> area_list" where
  "find_loop 0 sz prev cur H l = (0, H, l)"
| "find_loop (Suc k) sz prev cur H l =
     (if cur = 0 then (0, H, l)
      else if a_size (H cur) \<ge> sz then (cur, cut_area sz prev cur H l)
      else find_loop k sz cur (a_next (H cur)) H l)"

definition find_and_remove :: "nat \<Rightarrow> headers \<Rightarrow> area_list \<Rightarrow> nat \<times> headers \<times> area_list" where
  "find_and_remove sz H l =
     (if get_head l = 0 then (0, H, l) else find_loop MAX_ITER sz 0 (get_head l) H l)"

definition alist_add :: "nat \<Rightarrow> nat \<Rightarrow> headers \<Rightarrow> area_list \<Rightarrow> headers \<times> area_list" where
  "alist_add other_head other_tail H l =
     (if other_head = 0 then (H, l)
      else if get_head l = 0 then (H, atomic_switch other_head other_tail l)
      else (set_next (get_tail l) other_head H, atomic_switch (get_head l) other_tail l))"

section \<open>The pool\<close>

record area_pool =
  single_areas :: area_list
  multi_areas :: area_list

definition pool_init :: area_pool where
  "pool_init = \<lparr>single_areas = alist_init, multi_areas = alist_init\<rparr>"

definition unlink :: "nat \<Rightarrow> headers \<Rightarrow> headers" where
  "unlink a H = (if a = 0 then H else set_next a 0 H)"

definition alloc_multi_area :: "nat \<Rightarrow> headers \<times> area_pool \<Rightarrow> nat \<times> headers \<times> area_pool" where
  "alloc_multi_area sz = (\<lambda>(H, p).
     let (a, H, l) = find_and_remove sz H (multi_areas p) in (a, unlink a H, p\<lparr>multi_areas := l\<rparr>))"

definition alloc_single_area :: "nat \<Rightarrow> headers \<times> area_pool \<Rightarrow> nat \<times> headers \<times> area_pool" where
  "alloc_single_area AREA_SIZE = (\<lambda>(H, p).
     case alist_pop H (single_areas p) of (a, l) \<Rightarrow>
       if a = 0 then alloc_multi_area AREA_SIZE (H, p\<lparr>single_areas := l\<rparr>)
       else (a, unlink a H, p\<lparr>single_areas := l\<rparr>))"

definition return_single_areas :: "nat \<Rightarrow> nat \<Rightarrow> headers \<times> area_pool \<Rightarrow> headers \<times> area_pool" where
  "return_single_areas h t = (\<lambda>(H, p).
     case alist_add h t H (single_areas p) of (H, l) \<Rightarrow> (H, p\<lparr>single_areas := l\<rparr>))"

definition return_multi_areas :: "nat \<Rightarrow> nat \<Rightarrow> headers \<times> area_pool \<Rightarrow> headers \<times> area_pool" where
  "return_multi_areas h t = (\<lambda>(H, p).
     case alist_add h t H (multi_areas p) of (H, l) \<Rightarrow> (H, p\<lparr>multi_areas := l\<rparr>))"

section \<open>Rebuilding the pool\<close>

text \<open>
  \<open>_recover_areas\<close>. The offsets of the chains of every database come from the storage. Phase 1
  walks them and marks their blocks; \<open>AREA_SIZE\<close> is a positive constant.
\<close>

function mark_range :: "nat \<Rightarrow> nat \<Rightarrow> nat \<Rightarrow> nat set \<Rightarrow> nat set" where
  "mark_range A cur remaining occ =
     (if remaining \<le> A \<or> A = 0 then insert cur occ
      else mark_range A (cur + A) (remaining - A) (insert cur occ))"
  by pat_completeness auto

termination mark_range
  by (relation "measure (\<lambda>(A, cur, remaining, occ). remaining)") auto

declare mark_range.simps [simp del]

definition mark_occupied_range :: "nat \<Rightarrow> nat \<Rightarrow> nat \<Rightarrow> nat set \<Rightarrow> nat set" where
  "mark_occupied_range A start sz occ = (if sz = 0 then occ else mark_range A start sz occ)"

partial_function (option) walk_areas ::
  "nat \<Rightarrow> nat \<Rightarrow> headers \<times> nat set \<Rightarrow> (headers \<times> nat set) option" where
  "walk_areas A cur s =
     (if cur = 0 \<or> cur \<in> snd s then Some s
      else let H = (fst s)(cur := (fst s cur)\<lparr>a_offset := cur\<rparr>)
           in walk_areas A (a_next (H cur)) (H, mark_occupied_range A cur (a_size (H cur)) (insert cur (snd s))))"

declare walk_areas.simps [code]

fun walk_dbs :: "nat \<Rightarrow> (nat \<times> nat) list \<Rightarrow> headers \<times> nat set \<Rightarrow> (headers \<times> nat set) option" where
  "walk_dbs A [] s = Some s"
| "walk_dbs A ((h1, h2) # dbs) s =
     Option.bind (walk_areas A h1 s) (\<lambda>s. Option.bind (walk_areas A h2 s) (walk_dbs A dbs))"

text \<open>Phase 2: the free blocks are collected in runs and linked into two chains.\<close>

record scan_state =
  sc_headers :: headers
  s_head :: nat
  s_tail :: nat
  m_head :: nat
  m_tail :: nat
  run_start :: nat
  run_blocks :: nat

definition link_area :: "nat \<Rightarrow> nat \<Rightarrow> nat \<Rightarrow> nat \<Rightarrow> headers \<Rightarrow> nat \<times> nat \<times> headers" where
  "link_area h t pos sz H =
     (let H = H(pos := area_init pos sz 0)
      in if h = 0 then (pos, pos, H) else (h, pos, set_next t pos H))"

definition flush_run :: "nat \<Rightarrow> scan_state \<Rightarrow> scan_state" where
  "flush_run A s =
     (if run_blocks s = 1 then
        let (h, t, H) = link_area (s_head s) (s_tail s) (run_start s) A (sc_headers s)
        in s\<lparr>sc_headers := H, s_head := h, s_tail := t, run_blocks := 0\<rparr>
      else if run_blocks s > 1 then
        let (h, t, H) = link_area (m_head s) (m_tail s) (run_start s) (run_blocks s * A) (sc_headers s)
        in s\<lparr>sc_headers := H, m_head := h, m_tail := t, run_blocks := 0\<rparr>
      else s\<lparr>run_blocks := 0\<rparr>)"

definition scan_block :: "nat \<Rightarrow> nat set \<Rightarrow> nat \<Rightarrow> scan_state \<Rightarrow> scan_state" where
  "scan_block A occ pos s =
     (if pos \<in> occ then flush_run A s
      else s\<lparr>run_start := (if run_blocks s = 0 then pos else run_start s), run_blocks := Suc (run_blocks s)\<rparr>)"

function scan_areas :: "nat \<Rightarrow> nat set \<Rightarrow> nat \<Rightarrow> nat \<Rightarrow> scan_state \<Rightarrow> scan_state" where
  "scan_areas A occ file_size pos s =
     (if pos + A \<le> file_size \<and> 0 < A then scan_areas A occ file_size (pos + A) (scan_block A occ pos s)
      else flush_run A s)"
  by pat_completeness auto

termination scan_areas
  by (relation "measure (\<lambda>(A, occ, file_size, pos, s). file_size - pos)") auto

declare scan_areas.simps [simp del]

definition recover_areas ::
  "nat \<Rightarrow> (nat \<times> nat) list \<Rightarrow> (nat set \<Rightarrow> nat set) \<Rightarrow> nat \<Rightarrow> nat \<Rightarrow> headers \<Rightarrow> (headers \<times> area_pool) option" where
  "recover_areas A dbs extra file_size first_area_pos H =
     Option.bind (walk_dbs A dbs (H, {})) (\<lambda>(H, occ).
       let s = scan_areas A (extra occ) file_size first_area_pos
                 \<lparr>sc_headers = H, s_head = 0, s_tail = 0, m_head = 0, m_tail = 0, run_start = 0, run_blocks = 0\<rparr>
       in Some (sc_headers s,
           \<lparr>single_areas = (if s_head s \<noteq> 0 then atomic_switch (s_head s) (s_tail s) alist_init else alist_init),
            multi_areas = (if m_head s \<noteq> 0 then atomic_switch (m_head s) (m_tail s) alist_init else alist_init)\<rparr>))"

section \<open>Chains of areas\<close>

fun path :: "headers \<Rightarrow> nat \<Rightarrow> nat list \<Rightarrow> nat \<Rightarrow> bool" where
  "path H x [] y \<longleftrightarrow> x = y"
| "path H x (a # as) y \<longleftrightarrow> x = a \<and> a \<noteq> 0 \<and> path H (a_next (H a)) as y"

lemma path_append [simp]: "path H x (as @ bs) y \<longleftrightarrow> (\<exists>z. path H x as z \<and> path H z bs y)"
  by (induction as arbitrary: x) auto

lemma path_cong: "(\<And>a. a \<in> set as \<Longrightarrow> a_next (H' a) = a_next (H a)) \<Longrightarrow> path H' x as y \<longleftrightarrow> path H x as y"
  by (induction as arbitrary: x) auto

lemma path_upd [simp]: "a \<notin> set as \<Longrightarrow> path (H(a := v)) x as y \<longleftrightarrow> path H x as y"
  by (rule path_cong) auto

lemma path_unique: "path H x as 0 \<Longrightarrow> path H x bs 0 \<Longrightarrow> as = bs"
proof (induction as arbitrary: x bs)
  case Nil
  then show ?case by (cases bs) auto
next
  case (Cons a as)
  then show ?case by (cases bs) auto
qed

lemma get_end_loop_last: "path H x (as @ [a]) 0 \<Longrightarrow> get_end_loop H x = Some a"
proof (induction as arbitrary: x)
  case Nil
  then show ?case by (simp add: get_end_loop.simps)
next
  case (Cons b as)
  then have "a_next (H b) \<noteq> 0" by (cases as) auto
  then show ?case using Cons by (subst get_end_loop.simps) simp
qed

lemma get_end_last: "path H x as 0 \<Longrightarrow> get_end H x = Some (if as = [] then 0 else last as)"
  using get_end_loop_last[of H x "butlast as" "last as"] by (cases "as = []") (auto simp: get_end_def, cases as, auto)

text \<open>An area of a list is its offset and its size.\<close>

type_synonym extent = "nat \<times> nat"

definition ends_ok :: "headers \<Rightarrow> nat \<Rightarrow> nat \<Rightarrow> extent list \<Rightarrow> bool" where
  "ends_ok H h t as \<longleftrightarrow> path H h (map fst as) 0 \<and> t = (if as = [] then 0 else fst (last as))"

definition sized :: "headers \<Rightarrow> extent list \<Rightarrow> bool" where
  "sized H as \<longleftrightarrow> (\<forall>b\<in>set as. a_offset (H (fst b)) = fst b \<and> a_size (H (fst b)) = snd b \<and> snd b < 2 ^ 32)"

definition alist_ok :: "headers \<Rightarrow> area_list \<Rightarrow> extent list \<Rightarrow> bool" where
  "alist_ok H l as \<longleftrightarrow> ends_ok H (get_head l) (get_tail l) as \<and> sized H as"

definition apart :: "extent \<Rightarrow> extent \<Rightarrow> bool" where
  "apart a b \<longleftrightarrow> fst a + snd a \<le> fst b \<or> fst b + snd b \<le> fst a"

definition separate :: "extent list \<Rightarrow> bool" where
  "separate as \<longleftrightarrow> sorted_wrt apart as \<and> (\<forall>a\<in>set as. 0 < fst a \<and> 0 < snd a)"

definition bytes_of :: "extent list \<Rightarrow> nat set" where
  "bytes_of as = (\<Union>(x, n)\<in>set as. {x..<x + n})"

lemma separate_Cons [simp]:
  "separate (a # as) \<longleftrightarrow> 0 < fst a \<and> 0 < snd a \<and> (\<forall>b\<in>set as. apart a b) \<and> separate as"
  by (auto simp: separate_def)

lemma separate_Nil [simp]: "separate []"
  by (simp add: separate_def)

lemma separate_append:
  "separate (as @ bs) \<longleftrightarrow> separate as \<and> separate bs \<and> (\<forall>a\<in>set as. \<forall>b\<in>set bs. apart a b)"
  by (auto simp: separate_def sorted_wrt_append)

lemma apart_sym: "apart a b \<longleftrightarrow> apart b a"
  by (auto simp: apart_def)

lemma separate_distinct: "separate as \<Longrightarrow> distinct (map fst as)"
  by (induction as) (fastforce simp: apart_def separate_def)+

lemma apart_bytes: "apart a b \<Longrightarrow> bytes_of [a] \<inter> bytes_of [b] = {}"
  by (auto simp: apart_def bytes_of_def)

lemma bytes_of_simps [simp]:
  "bytes_of [] = {}" "bytes_of (a # as) = {fst a..<fst a + snd a} \<union> bytes_of as"
  "bytes_of (as @ bs) = bytes_of as \<union> bytes_of bs"
  by (auto simp: bytes_of_def split: prod.splits)

lemma sized_simps [simp]:
  "sized H []" "sized H (a # as) \<longleftrightarrow> a_offset (H (fst a)) = fst a \<and> a_size (H (fst a)) = snd a \<and> snd a < 2 ^ 32 \<and> sized H as"
  "sized H (as @ bs) \<longleftrightarrow> sized H as \<and> sized H bs"
  by (auto simp: sized_def)

lemma sized_upd [simp]: "a \<notin> fst ` set as \<Longrightarrow> sized (H(a := v)) as \<longleftrightarrow> sized H as"
  by (induction as) auto

lemma sized_set_next [simp]: "sized (set_next a nxt H) as \<longleftrightarrow> sized H as"
  by (induction as) (auto simp: set_next_def)

lemma ends_ok_null:
  assumes "ends_ok H h t as"
  shows "h = 0 \<longleftrightarrow> as = []" "t = 0 \<longleftrightarrow> as = []"
proof -
  show "h = 0 \<longleftrightarrow> as = []" using assms by (cases as) (auto simp: ends_ok_def)
  show "t = 0 \<longleftrightarrow> as = []" using assms by (cases as rule: rev_cases) (auto simp: ends_ok_def)
qed

lemma alist_switch [simp]:
  "get_head (atomic_switch h t l) = h" "get_tail (atomic_switch h t l) = t"
  by (simp_all add: get_head_def get_tail_def atomic_switch_def flip_def prepare_def)

lemma alist_init_ok [simp]: "alist_ok H alist_init []"
  by (simp add: alist_ok_def ends_ok_def alist_init_def get_head_def get_tail_def)

lemma alist_head: "alist_ok H l as \<Longrightarrow> get_head l = (if as = [] then 0 else fst (hd as))"
  by (cases as) (auto simp: alist_ok_def ends_ok_def)

lemma alist_pop_eq:
  assumes "alist_ok H l as"
  shows "alist_pop H l = (if as = [] then (0, l) else (fst (hd as), snd (alist_pop H l)))"
    "alist_ok H (snd (alist_pop H l)) (tl as)"
  using assms by (cases as; cases "tl as"; auto simp: alist_ok_def ends_ok_def alist_pop_def Let_def)+

lemma alist_ok_frame:
  assumes "alist_ok H l as" "\<And>a. a \<in> set (map fst as) \<Longrightarrow> H' a = H a"
  shows "alist_ok H' l as"
proof -
  have "path H' (get_head l) (map fst as) 0"
    using assms path_cong[of "map fst as" H' H] by (simp add: alist_ok_def ends_ok_def)
  moreover have "sized H' as" using assms by (force simp: alist_ok_def sized_def)
  ultimately show ?thesis using assms(1) by (simp add: alist_ok_def ends_ok_def)
qed

section \<open>The list operations on their abstract lists\<close>

lemma alist_push_ok:
  assumes "alist_ok H l as" "off \<noteq> 0" "off \<notin> fst ` set as" "sz < 2 ^ 32" "alist_push off sz H l = (H', l')"
  shows "alist_ok H' l' ((off, sz) # as)"
proof -
  have H': "H' = H(off := area_init off sz (get_head l))"
    and l': "l' = atomic_switch off (if get_tail l \<noteq> 0 then get_tail l else off) l"
    using assms(5) by (auto simp: alist_push_def Let_def)
  have "alist_ok H' l as" using assms(1,3) by (simp add: H' alist_ok_def ends_ok_def)
  moreover have "get_tail l \<noteq> 0 \<longleftrightarrow> as \<noteq> []"
    using assms(1) by (cases as rule: rev_cases) (auto simp: alist_ok_def ends_ok_def)
  ultimately show ?thesis using assms(2,4) by (auto simp: alist_ok_def ends_ok_def l' H' area_init_def)
qed

lemma alist_add_ok:
  assumes "alist_ok H l as" "ends_ok H h t bs" "sized H bs" "distinct (map fst (as @ bs))"
    and "alist_add h t H l = (H', l')"
  shows "alist_ok H' l' (as @ bs)"
proof -
  consider "bs = []" | "bs \<noteq> []" "as = []" | us x n where "bs \<noteq> []" "as = us @ [(x, n)]"
    by (cases as rule: rev_cases) auto
  then show ?thesis
  proof cases
    case 3
    then have h: "h = fst (hd bs)" "h \<noteq> 0" using assms(2) by (cases bs; auto simp: ends_ok_def)+
    have l: "get_tail l = x" "get_head l \<noteq> 0" "path H (get_head l) (map fst us) x" "x \<noteq> 0" "a_next (H x) = 0"
      using assms(1) 3 by (auto simp: alist_ok_def ends_ok_def) (cases us; auto)+
    then have H': "H' = set_next x h H" "l' = atomic_switch (get_head l) t l"
      using assms(5) h by (auto simp: alist_add_def)
    have nin: "x \<notin> set (map fst us)" "x \<notin> set (map fst bs)" using assms(4) 3 by auto
    have "path H' (get_head l) (map fst us) x" using l(3) nin(1) by (simp add: H' set_next_def)
    moreover have "path H' h (map fst bs) 0" using assms(2) nin(2) by (simp add: H' set_next_def ends_ok_def)
    moreover have "sized H' (as @ bs)" using assms(1,3) by (auto simp: alist_ok_def sized_def H' set_next_def)
    ultimately show ?thesis using l(4) 3 assms(2) by (auto simp: alist_ok_def ends_ok_def H' set_next_def)
  next
    case 2
    then have "h \<noteq> 0" "get_head l = 0" using assms(1,2) by (cases bs; auto simp: alist_ok_def ends_ok_def)+
    then show ?thesis using assms 2 by (auto simp: alist_add_def alist_ok_def)
  qed (use assms in \<open>auto simp: alist_add_def ends_ok_def\<close>)
qed

text \<open>The first of the leading \<open>k\<close> areas that is large enough, and the other areas.\<close>

fun first_fit :: "nat \<Rightarrow> nat \<Rightarrow> extent list \<Rightarrow> (extent \<times> extent list) option" where
  "first_fit 0 sz as = None"
| "first_fit (Suc k) sz [] = None"
| "first_fit (Suc k) sz (a # as) =
     (if sz \<le> snd a then Some (a, as) else map_option (apsnd ((#) a)) (first_fit k sz as))"

definition leave_rest :: "nat \<Rightarrow> extent \<Rightarrow> extent list \<Rightarrow> extent list" where
  "leave_rest sz a as = (if sz < snd a then (fst a + sz, snd a - sz) # as else as)"

definition last_off :: "extent list \<Rightarrow> nat" where
  "last_off us = (if us = [] then 0 else fst (last us))"

lemma last_off_simps [simp]: "last_off [] = 0" "last_off (us @ [a]) = fst a"
  by (simp_all add: last_off_def)

lemma cut_area_ok:
  assumes as: "alist_ok H l (us @ a # vs)" and sep: "separate (us @ a # vs)" and sz: "0 < sz" "sz \<le> snd a"
    and cut: "cut_area sz (last_off us) (fst a) H l = (H', l')"
  shows "alist_ok H' l' (leave_rest sz a (us @ vs))" "a_size (H' (fst a)) = sz" "a_offset (H' (fst a)) = fst a"
    "\<And>b. b \<notin> fst ` set (us @ a # vs) \<Longrightarrow> sz < snd a \<longrightarrow> b \<noteq> fst a + sz \<Longrightarrow> H' b = H b"
proof -
  let ?x = "fst a" and ?rest = "fst a + sz"
  define prev where "prev = (if us = [] then 0 else fst (last us))"
  define H1 where "H1 = (if us = [] then H else set_next prev (a_next (H ?x)) H)"
  define h1 where "h1 = (if us = [] then a_next (H ?x) else get_head l)"
  define t1 where "t1 = (if vs = [] then prev else get_tail l)"
  have d: "distinct (map fst (us @ a # vs))" using separate_distinct[OF sep] .
  have pos: "0 < ?x" "\<forall>b\<in>set (us @ vs). 0 < fst b" "0 < snd a" using sep by (auto simp: separate_def)
  have l: "path H (get_head l) (map fst us) ?x" "path H (a_next (H ?x)) (map fst vs) 0"
    "get_tail l = fst (last (a # vs))" "sized H us" "sized H vs" "a_size (H ?x) = snd a" "a_offset (H ?x) = ?x"
    "snd a < 2 ^ 32"
    using as by (auto simp: alist_ok_def ends_ok_def)
  have prev0: "prev \<noteq> 0 \<longleftrightarrow> us \<noteq> []" using pos(2) by (auto simp: prev_def)
  have tail: "?x = get_tail l \<longleftrightarrow> vs = []" using d l(3) by (cases vs rule: rev_cases) auto
  have prev_in: "us \<noteq> [] \<Longrightarrow> prev \<in> fst ` set us" by (auto simp: prev_def)
  have d': "?x \<notin> fst ` set us" "?x \<notin> fst ` set vs" "fst ` set us \<inter> fst ` set vs = {}" using d by auto
  have prev_x: "us \<noteq> [] \<Longrightarrow> prev \<noteq> ?x" using prev_in d'(1) by metis
  have H1x: "H1 ?x = H ?x" using prev_x by (auto simp: H1_def set_next_def)
  have rest_new: "sz < snd a \<Longrightarrow> ?rest \<notin> fst ` set (us @ a # vs)"
  proof
    assume lt: "sz < snd a" and "?rest \<in> fst ` set (us @ a # vs)"
    then have "?rest \<in> fst ` set (us @ vs)" using sz(1) by auto
    then obtain b where b: "b \<in> set (us @ vs)" "?rest = fst b" by (rule imageE)
    then have "apart a b" "0 < snd b" using sep apart_sym[of a b] by (auto simp: separate_append separate_def sorted_wrt_append)
    then show False using b(2) lt sz(1) unfolding apart_def by linarith
  qed
  have ends1: "ends_ok H1 h1 t1 (us @ vs)" "sized H1 (us @ vs)"
  proof -
    have prev_v: "us \<noteq> [] \<Longrightarrow> prev \<notin> fst ` set vs" using prev_in d'(3) by blast
    have v: "path H1 (a_next (H ?x)) (map fst vs) 0"
      using l(2) prev_v by (simp add: H1_def set_next_def)
    show "ends_ok H1 h1 t1 (us @ vs)"
    proof (cases us rule: rev_cases)
      case Nil
      then show ?thesis using v l(3) by (auto simp: ends_ok_def h1_def t1_def prev_def)
    next
      case (snoc ws b)
      have p: "prev = fst b" "prev \<noteq> 0" using snoc prev0 by (auto simp: prev_def)
      have "path H (get_head l) (map fst ws) prev" "prev \<notin> set (map fst ws)" using l(1) snoc d p by auto
      then have "path H1 (get_head l) (map fst ws) prev"
        by (simp add: H1_def set_next_def snoc)
      moreover have "path H1 prev (prev # map fst vs) 0" using v p(2) by (simp add: H1_def set_next_def snoc)
      ultimately have "path H1 h1 (map fst (us @ vs)) 0" using snoc p(1) by (auto simp: h1_def)
      moreover have "t1 = fst (last (us @ vs))" using snoc p(1) l(3) by (simp add: t1_def)
      ultimately show ?thesis using snoc by (simp add: ends_ok_def)
    qed
    show "sized H1 (us @ vs)" using l(4,5) by (simp add: H1_def)
  qed
  have t10: "t1 = 0 \<longleftrightarrow> us @ vs = []" "h1 = 0 \<longleftrightarrow> us @ vs = []"
    using ends_ok_null[OF ends1(1)] by simp_all
  have cut': "(H', l') = (if sz < snd a
      then (set_size ?x sz (H1(?rest := area_init ?rest (snd a - sz) h1)),
            atomic_switch ?rest (if t1 = 0 then ?rest else t1) l)
      else (H1, atomic_switch h1 t1 l))"
    using cut prev0 tail H1x l(6,7) t10 pos(1)
    by (auto simp: cut_area_def Let_def last_off_def prev_def[symmetric] H1_def h1_def t1_def)
  show "a_size (H' ?x) = sz" "a_offset (H' ?x) = ?x"
    using cut' H1x l(6-8) sz by (auto simp: set_size_def split: if_splits)
  show "H' b = H b" if "b \<notin> fst ` set (us @ a # vs)" "sz < snd a \<longrightarrow> b \<noteq> ?rest" for b
    using cut' that prev_in by (auto simp: H1_def set_size_def set_next_def split: if_splits)
  show "alist_ok H' l' (leave_rest sz a (us @ vs))"
  proof (cases "sz < snd a")
    case True
    have new: "?rest \<notin> fst ` set us" "?rest \<notin> fst ` set vs" using rest_new[OF True] by auto
    have H': "H' = H1(?rest := area_init ?rest (snd a - sz) h1, ?x := (H1 ?x)\<lparr>a_size := sz\<rparr>)"
      using cut' True sz(1) l(8) by (simp add: set_size_def)
    have "path H' h1 (map fst (us @ vs)) 0"
      unfolding H' using ends1(1) new d'(1,2) by (subst path_upd, simp, subst path_upd) (simp_all add: ends_ok_def)
    moreover have "sized H' (us @ vs)"
      unfolding H' using ends1(2) new d'(1,2) by simp
    moreover have "H' ?rest = area_init ?rest (snd a - sz) h1" using cut' True sz by (auto simp: set_size_def)
    ultimately show ?thesis
      using cut' True pos(1) ends1(1) t10 l(8) by (auto simp: alist_ok_def ends_ok_def leave_rest_def area_init_def)
  next
    case False
    then show ?thesis using cut' ends1 by (simp add: alist_ok_def leave_rest_def)
  qed
qed

lemma find_loop_ok:
  assumes "alist_ok H l (us @ vs)" "cur = (if vs = [] then 0 else fst (hd vs))"
    and "find_loop k sz (last_off us) cur H l = (a, H', l')"
  shows "case first_fit k sz vs of None \<Rightarrow> a = 0 \<and> H' = H \<and> l' = l
    | Some (e, ws) \<Rightarrow> \<exists>v1 v2. vs = v1 @ e # v2 \<and> ws = v1 @ v2 \<and> sz \<le> snd e \<and> a = fst e
        \<and> cut_area sz (last_off (us @ v1)) (fst e) H l = (H', l')"
  using assms
proof (induction k arbitrary: us vs cur)
  case (Suc k)
  show ?case
  proof (cases vs)
    case Nil
    then show ?thesis using Suc.prems by simp
  next
    case (Cons e ws)
    have e: "fst e \<noteq> 0" "a_size (H (fst e)) = snd e" "a_next (H (fst e)) = (if ws = [] then 0 else fst (hd ws))"
      using Suc.prems(1) Cons by (auto simp: alist_ok_def ends_ok_def) (cases ws; auto)+
    show ?thesis
    proof (cases "sz \<le> snd e")
      case True
      then have "a = fst e" "cut_area sz (last_off us) (fst e) H l = (H', l')"
        using Suc.prems e Cons by auto
      then show ?thesis using True Cons by (simp, intro exI[of _ "[]"] exI[of _ ws]) simp
    next
      case False
      have "find_loop k sz (last_off (us @ [e])) (a_next (H (fst e))) H l = (a, H', l')"
        using Suc.prems e Cons False by simp
      from Suc.IH[OF _ e(3) this]
      have IH: "case first_fit k sz ws of None \<Rightarrow> a = 0 \<and> H' = H \<and> l' = l
        | Some (f, xs) \<Rightarrow> \<exists>v1 v2. ws = v1 @ f # v2 \<and> xs = v1 @ v2 \<and> sz \<le> snd f \<and> a = fst f
          \<and> cut_area sz (last_off (us @ e # v1)) (fst f) H l = (H', l')"
        using Suc.prems(1) unfolding Cons append_assoc append.simps by simp
      show ?thesis
      proof (cases "first_fit k sz ws")
        case None
        then show ?thesis using IH Cons False by simp
      next
        case (Some fx)
        obtain f xs where fx: "fx = (f, xs)" by (cases fx)
        then obtain v1 v2 where "ws = v1 @ f # v2" "xs = v1 @ v2" "sz \<le> snd f" "a = fst f"
          "cut_area sz (last_off (us @ e # v1)) (fst f) H l = (H', l')"
          using IH Some by auto
        then show ?thesis using Cons False Some fx by (simp, intro exI[of _ "e # v1"] exI[of _ v2]) simp
      qed
    qed
  qed
qed simp

definition fit_result :: "nat \<Rightarrow> extent list \<Rightarrow> (nat \<times> extent list) option" where
  "fit_result sz as = map_option (\<lambda>(e, ws). (fst e, leave_rest sz e ws)) (first_fit MAX_ITER sz as)"

lemma find_and_remove_ok:
  assumes as: "alist_ok H l as" and sep: "separate as" and sz: "0 < sz"
    and f: "find_and_remove sz H l = (a, H', l')"
  shows "case fit_result sz as of None \<Rightarrow> a = 0 \<and> H' = H \<and> l' = l
    | Some (x, bs) \<Rightarrow> a = x \<and> alist_ok H' l' bs \<and> a_size (H' a) = sz \<and> a_offset (H' a) = a
        \<and> (\<exists>v1 v2 n. as = v1 @ (a, n) # v2 \<and> sz \<le> n \<and> bs = leave_rest sz (a, n) (v1 @ v2)
          \<and> (\<forall>b. b \<notin> fst ` set as \<and> (sz < n \<longrightarrow> b \<noteq> a + sz) \<longrightarrow> H' b = H b))"
proof -
  have h: "get_head l = (if as = [] then 0 else fst (hd as))" using alist_head[OF as] .
  show ?thesis
  proof (cases "as = []")
    case True
    then show ?thesis using f h by (simp add: find_and_remove_def fit_result_def MAX_ITER_def eval_nat_numeral)
  next
    case False
    then have "get_head l \<noteq> 0" using as ends_ok_null by (auto simp: alist_ok_def)
    then have "find_loop MAX_ITER sz 0 (get_head l) H l = (a, H', l')" using f by (simp add: find_and_remove_def)
    then have r: "case first_fit MAX_ITER sz as of None \<Rightarrow> a = 0 \<and> H' = H \<and> l' = l
      | Some (e, ws) \<Rightarrow> \<exists>v1 v2. as = v1 @ e # v2 \<and> ws = v1 @ v2 \<and> sz \<le> snd e \<and> a = fst e
        \<and> cut_area sz (last_off (v1)) (fst e) H l = (H', l')"
      using find_loop_ok[of H l "[]" as "get_head l" MAX_ITER sz a H' l'] as h unfolding append_Nil by simp
    show ?thesis
    proof (cases "first_fit MAX_ITER sz as")
      case None
      then show ?thesis using r by (simp add: fit_result_def)
    next
      case (Some ew)
      obtain e ws where ew: "ew = (e, ws)" by (cases ew)
      then obtain v1 v2 where v: "as = v1 @ e # v2" "ws = v1 @ v2" "sz \<le> snd e" "a = fst e"
        "cut_area sz (last_off (v1)) (fst e) H l = (H', l')" using r Some by auto
      note c = cut_area_ok[OF as[unfolded v(1)] sep[unfolded v(1)] sz v(3,5)]
      have "\<exists>v1 v2 n. as = v1 @ (a, n) # v2 \<and> sz \<le> n \<and> leave_rest sz e ws = leave_rest sz (a, n) (v1 @ v2)
          \<and> (\<forall>b. b \<notin> fst ` set as \<and> (sz < n \<longrightarrow> b \<noteq> a + sz) \<longrightarrow> H' b = H b)"
        using v c(4) by (intro exI[of _ v1] exI[of _ v2] exI[of _ "snd e"]) simp
      then show ?thesis using Some ew v c by (auto simp: fit_result_def)
    qed
  qed
qed

section \<open>The pool hands out disjoint areas\<close>

text \<open>The contract of a source of areas: \<open>repr s X\<close> says that the free bytes are \<open>X\<close>, a request \<open>r\<close> is for \<open>sz r\<close> bytes.\<close>

locale area_source =
  fixes take_area :: "'r \<Rightarrow> 's \<Rightarrow> nat \<times> 's" and repr :: "'s \<Rightarrow> nat set \<Rightarrow> bool" and sz :: "'r \<Rightarrow> nat"
  assumes take_null: "repr s X \<Longrightarrow> 0 < sz r \<Longrightarrow> take_area r s = (0, s') \<Longrightarrow> repr s' X"
    and take_some: "repr s X \<Longrightarrow> 0 < sz r \<Longrightarrow> take_area r s = (a, s') \<Longrightarrow> a \<noteq> 0 \<Longrightarrow>
      {a..<a + sz r} \<subseteq> X \<and> repr s' (X - {a..<a + sz r})"

text \<open>A sequence of requests: the areas handed out, each with the size it was requested with.\<close>

fun take_seq :: "('r \<Rightarrow> 's \<Rightarrow> nat \<times> 's) \<Rightarrow> ('r \<Rightarrow> nat) \<Rightarrow> 'r list \<Rightarrow> 's \<Rightarrow> extent list \<times> 's" where
  "take_seq take_area sz [] s = ([], s)"
| "take_seq take_area sz (r # rs) s =
     (let (a, s) = take_area r s; (es, s) = take_seq take_area sz rs s in (if a = 0 then es else (a, sz r) # es, s))"

definition disjoint_extents :: "extent list \<Rightarrow> bool" where
  "disjoint_extents es \<longleftrightarrow> sorted_wrt (\<lambda>(a, n) (b, m). {a..<a + n} \<inter> {b..<b + m} = {}) es"

lemma disjoint_extents_Cons: "disjoint_extents ((a, n) # es) \<longleftrightarrow> {a..<a + n} \<inter> bytes_of es = {} \<and> disjoint_extents es"
proof -
  define P where "P = {a..<a + n}"
  have "(\<forall>(b, m)\<in>set es. P \<inter> {b..<b + m} = {}) \<longleftrightarrow> P \<inter> bytes_of es = {}" unfolding bytes_of_def by fast
  then show ?thesis by (simp add: disjoint_extents_def P_def)
qed

context area_source
begin

lemma seq_disjoint:
  assumes "repr s X" "\<forall>r\<in>set rs. 0 < sz r" "take_seq take_area sz rs s = (es, s')"
  shows "disjoint_extents es \<and> bytes_of es \<subseteq> X \<and> repr s' (X - bytes_of es)"
  using assms
proof (induction rs arbitrary: s X es)
  case (Cons r rs)
  obtain a s1 fs where a: "take_area r s = (a, s1)" "take_seq take_area sz rs s1 = (fs, s')" "es = (if a = 0 then fs else (a, sz r) # fs)"
    using Cons.prems(3) by (auto split: prod.splits)
  have r: "0 < sz r" "\<forall>r\<in>set rs. 0 < sz r" using Cons.prems(2) by auto
  show ?case
  proof (cases "a = 0")
    case True
    then show ?thesis using Cons.IH[OF take_null[OF Cons.prems(1) r(1)] r(2) a(2)] a by simp
  next
    case False
    note s1 = take_some[OF Cons.prems(1) r(1) a(1) False]
    note IH = Cons.IH[OF conjunct2[OF s1] r(2) a(2)]
    have "{a..<a + sz r} \<inter> bytes_of fs = {}" using IH by blast
    moreover have "X - {a..<a + sz r} - bytes_of fs = X - bytes_of es" "bytes_of es \<subseteq> X" using s1 IH a(3) False by auto
    ultimately show ?thesis using IH a(3) False by (simp add: disjoint_extents_Cons)
  qed
qed (simp add: disjoint_extents_def)

end

definition pool_ok :: "nat \<Rightarrow> headers \<times> area_pool \<Rightarrow> extent list \<Rightarrow> extent list \<Rightarrow> bool" where
  "pool_ok A s as bs \<longleftrightarrow> 0 < A \<and> alist_ok (fst s) (single_areas (snd s)) as \<and> alist_ok (fst s) (multi_areas (snd s)) bs
     \<and> separate (as @ bs) \<and> (\<forall>a\<in>set as. snd a = A)"

definition pool_repr :: "nat \<Rightarrow> headers \<times> area_pool \<Rightarrow> nat set \<Rightarrow> bool" where
  "pool_repr A s X \<longleftrightarrow> (\<exists>as bs. pool_ok A s as bs \<and> X = bytes_of (as @ bs))"

lemma alist_ok_upd: "a \<notin> fst ` set as \<Longrightarrow> alist_ok (H(a := v)) l as \<longleftrightarrow> alist_ok H l as"
  by (simp add: alist_ok_def ends_ok_def)

lemma alist_ok_unlink: "a \<notin> fst ` set as \<Longrightarrow> alist_ok (unlink a H) l as \<longleftrightarrow> alist_ok H l as"
  by (simp add: unlink_def set_next_def alist_ok_upd)

lemma bytes_apart: "\<forall>b\<in>set bs. apart (x, n) b \<Longrightarrow> {x..<x + n} \<inter> bytes_of bs = {}"
  by (induction bs) (auto simp: apart_def)

lemma leave_rest_bytes:
  assumes "separate (v1 @ (a, n) # v2)" "sz \<le> n" "0 < sz"
  shows "bytes_of (leave_rest sz (a, n) (v1 @ v2)) = bytes_of (v1 @ (a, n) # v2) - {a..<a + sz}"
    "{a..<a + sz} \<subseteq> bytes_of (v1 @ (a, n) # v2)" "separate (leave_rest sz (a, n) (v1 @ v2))"
proof -
  have ap: "\<forall>b\<in>set (v1 @ v2). apart (a, n) b" using assms(1) apart_sym by (auto simp: separate_append)
  have d: "{a..<a + n} \<inter> bytes_of (v1 @ v2) = {}" using bytes_apart[OF ap] .
  then have d': "{a..<a + sz} \<inter> bytes_of (v1 @ v2) = {}" using assms(2) by (auto simp: disjoint_iff)
  show "bytes_of (leave_rest sz (a, n) (v1 @ v2)) = bytes_of (v1 @ (a, n) # v2) - {a..<a + sz}"
    using d' assms(2,3) by (auto simp: leave_rest_def disjoint_iff)
  show "{a..<a + sz} \<subseteq> bytes_of (v1 @ (a, n) # v2)" using assms(2) by auto
  have "separate (v1 @ v2)" using assms(1) by (simp add: separate_append)
  moreover have "\<forall>b\<in>set (v1 @ v2). apart (a + sz, n - sz) b" if "sz < n" using ap that by (force simp: apart_def)
  ultimately show "separate (leave_rest sz (a, n) (v1 @ v2))" using assms(3) by (auto simp: leave_rest_def)
qed

lemma leave_rest_apart:
  assumes "b \<in> set (leave_rest sz (a, n) (v1 @ v2))" "\<forall>c\<in>set (v1 @ (a, n) # v2). apart x c" "sz \<le> n"
  shows "apart x b"
  using assms by (auto simp: leave_rest_def apart_def split: if_splits)

lemma alloc_multi_ok:
  assumes p: "pool_ok A s as bs" and sz: "0 < sz" and al: "alloc_multi_area sz s = (a, s')"
  shows "if a = 0 then s' = s \<and> fit_result sz bs = None
    else \<exists>cs. fit_result sz bs = Some (a, cs) \<and> pool_ok A s' as cs \<and> {a..<a + sz} \<subseteq> bytes_of bs
      \<and> bytes_of cs = bytes_of bs - {a..<a + sz} \<and> {a..<a + sz} \<inter> bytes_of as = {}"
proof -
  obtain H P where s: "s = (H, P)" by force
  obtain H1 l where f: "find_and_remove sz H (multi_areas P) = (a, H1, l)"
    and s': "s' = (unlink a H1, P\<lparr>multi_areas := l\<rparr>)"
    using al s by (auto simp: alloc_multi_area_def split: prod.splits)
  have ok: "alist_ok H (multi_areas P) bs" "alist_ok H (single_areas P) as" "separate (as @ bs)" "separate bs" "0 < A"
    using p s by (auto simp: pool_ok_def separate_append)
  note r = find_and_remove_ok[OF ok(1,4) sz f]
  show ?thesis
  proof (cases "fit_result sz bs")
    case None
    then have "a = 0" "H1 = H" "l = multi_areas P" using r by auto
    then show ?thesis using None s s' by (simp add: unlink_def)
  next
    case (Some xc)
    obtain cs v1 v2 n where xc: "xc = (a, cs)" "alist_ok H1 l cs"
      "bs = v1 @ (a, n) # v2" "sz \<le> n" "cs = leave_rest sz (a, n) (v1 @ v2)"
      "\<forall>b. b \<notin> fst ` set bs \<and> (sz < n \<longrightarrow> b \<noteq> a + sz) \<longrightarrow> H1 b = H b"
      using r unfolding Some option.case by (cases xc) (simp only: prod.case, blast)
    have a0: "a \<noteq> 0" using ok(4) xc(3) by (auto simp: separate_append)
    note lr = leave_rest_bytes[OF ok(4)[unfolded xc(3)] xc(4) sz, folded xc(3,5)]
    have ap: "\<forall>x\<in>set as. \<forall>c\<in>set bs. apart x c" using ok(3) by (simp add: separate_append)
    then have ap': "\<forall>x\<in>set as. \<forall>c\<in>set cs. apart x c" using leave_rest_apart[of _ sz a n v1 v2] xc(3-5) by blast
    have pos: "\<forall>x\<in>set as. 0 < snd x" using ok(3) by (simp add: separate_append separate_def)
    have as_new: "x \<notin> fst ` set bs \<and> (sz < n \<longrightarrow> x \<noteq> a + sz) \<and> x \<noteq> a" if x: "x \<in> fst ` set as" for x
    proof -
      obtain y where y: "y \<in> set as" "x = fst y" using x by blast
      have y0: "0 < snd y" "apart y (a, n)" using y ap pos xc(3) by auto
      have "fst c \<noteq> fst y" if "c \<in> set bs" for c
      proof -
        have "apart y c" "0 < snd c" using ap y(1) that ok(4) by (auto simp: separate_def)
        then show ?thesis using y0 by (auto simp: apart_def)
      qed
      then have "fst y \<notin> fst ` set bs" by (metis imageE)
      moreover have "sz < n \<Longrightarrow> apart y (a + sz, n - sz)" using ap' y(1) xc(5) by (auto simp: leave_rest_def)
      ultimately show ?thesis using y(2) y0 xc(3,4) sz by (auto simp: apart_def)
    qed
    have "alist_ok H1 (single_areas P) as" using alist_ok_frame[OF ok(2), of H1] as_new xc(6) by auto
    moreover have "a \<notin> fst ` set as" using as_new by metis
    moreover have "a \<notin> fst ` set cs"
      using separate_distinct[OF ok(4)] xc(3,5) sz by (auto simp: leave_rest_def split: if_splits)
    ultimately have "pool_ok A s' as cs"
      using xc(2) as_new lr(3) ap' p s s' by (auto simp: pool_ok_def alist_ok_unlink separate_append)
    moreover have "{a..<a + sz} \<inter> bytes_of as = {}"
    proof -
      have "\<forall>x\<in>set as. apart (a, n) x" using ap apart_sym xc(3) by auto
      from bytes_apart[OF this] show ?thesis using xc(4) by (auto simp: disjoint_iff)
    qed
    ultimately show ?thesis using Some xc(1) a0 lr by auto
  qed
qed

lemma alloc_single_ok:
  assumes p: "pool_ok A s as bs" and al: "alloc_single_area A s = (a, s')"
  shows "if a = 0 then as = [] \<and> fit_result A bs = None \<and> s' = s
    else \<exists>cs ds. pool_ok A s' cs ds \<and> {a..<a + A} \<subseteq> bytes_of (as @ bs)
      \<and> bytes_of (cs @ ds) = bytes_of (as @ bs) - {a..<a + A} \<and> (as \<noteq> [] \<longrightarrow> a = fst (hd as))"
proof -
  obtain H P where s: "s = (H, P)" by (cases s)
  have ok: "alist_ok H (single_areas P) as" "alist_ok H (multi_areas P) bs" "separate (as @ bs)" "0 < A"
    using p s by (auto simp: pool_ok_def)
  note pop = alist_pop_eq[OF ok(1)]
  show ?thesis
  proof (cases as)
    case Nil
    then have "alloc_multi_area A s = (a, s')" using al s pop(1) by (simp add: alloc_single_area_def)
    note m = alloc_multi_ok[OF p ok(4) this]
    show ?thesis
    proof (cases "a = 0")
      case False
      then obtain cs where "pool_ok A s' as cs" "{a..<a + A} \<subseteq> bytes_of bs" "bytes_of cs = bytes_of bs - {a..<a + A}"
        using m by auto
      then have "pool_ok A s' [] cs \<and> {a..<a + A} \<subseteq> bytes_of (as @ bs) \<and> bytes_of ([] @ cs) = bytes_of (as @ bs) - {a..<a + A}"
        using Nil by simp
      then show ?thesis using False Nil by fastforce
    qed (use m Nil in simp)
  next
    case (Cons x xs)
    obtain l where l: "alist_pop H (single_areas P) = (fst x, l)" "alist_ok H l xs" using pop Cons by (cases "alist_pop H (single_areas P)") auto
    have x: "fst x \<noteq> 0" "snd x = A" "\<forall>b\<in>set (xs @ bs). apart (fst x, A) b" "separate (xs @ bs)"
      using p s Cons by (auto simp: pool_ok_def)
    have a: "a = fst x" "s' = (unlink a H, P\<lparr>single_areas := l\<rparr>)"
      using al s l(1) x(1) by (auto simp: alloc_single_area_def)
    have "a \<notin> fst ` set xs" "a \<notin> fst ` set bs" using separate_distinct[OF ok(3)] Cons a(1) by auto
    then have "pool_ok A s' xs bs" using p s l(2) x(4) Cons a(2) by (auto simp: pool_ok_def alist_ok_unlink)
    moreover have "{a..<a + A} \<inter> bytes_of (xs @ bs) = {}" using bytes_apart[OF x(3)] a(1) by simp
    then have "bytes_of (xs @ bs) = bytes_of (as @ bs) - {a..<a + A}" "{a..<a + A} \<subseteq> bytes_of (as @ bs)"
      using Cons x(2) a(1) by auto
    ultimately have "pool_ok A s' xs bs \<and> {a..<a + A} \<subseteq> bytes_of (as @ bs)
        \<and> bytes_of (xs @ bs) = bytes_of (as @ bs) - {a..<a + A} \<and> (as \<noteq> [] \<longrightarrow> a = fst (hd as))"
      using Cons a(1) by simp
    then show ?thesis using x(1) a(1) by auto
  qed
qed

text \<open>Requests of single areas (\<open>None\<close>) and of multi areas of any size.\<close>

definition pool_take :: "nat \<Rightarrow> nat option \<Rightarrow> headers \<times> area_pool \<Rightarrow> nat \<times> headers \<times> area_pool" where
  "pool_take A r s = (case r of None \<Rightarrow> alloc_single_area A s | Some n \<Rightarrow> alloc_multi_area n s)"

definition request_size :: "nat \<Rightarrow> nat option \<Rightarrow> nat" where
  "request_size A r = (case r of None \<Rightarrow> A | Some n \<Rightarrow> n)"

lemma pool_take_ok:
  assumes "pool_repr A s X" "0 < request_size A r" "pool_take A r s = (a, s')"
  shows "if a = 0 then pool_repr A s' X
    else {a..<a + request_size A r} \<subseteq> X \<and> pool_repr A s' (X - {a..<a + request_size A r})"
proof -
  obtain as bs where p: "pool_ok A s as bs" "X = bytes_of (as @ bs)" using assms(1) by (auto simp: pool_repr_def)
  show ?thesis
  proof (cases r)
    case None
    then have al: "alloc_single_area A s = (a, s')" "request_size A r = A" using assms(3) by (simp_all add: pool_take_def request_size_def)
    note o = alloc_single_ok[OF p(1) al(1)]
    show ?thesis
    proof (cases "a = 0")
      case False
      then obtain cs ds where "pool_ok A s' cs ds" "{a..<a + A} \<subseteq> X" "bytes_of (cs @ ds) = X - {a..<a + A}" using o p(2) by auto
      then show ?thesis using False al(2) unfolding pool_repr_def by metis
    qed (use o assms(1) in simp)
  next
    case (Some n)
    then have al: "alloc_multi_area n s = (a, s')" "0 < n" "request_size A r = n"
      using assms(2,3) by (simp_all add: pool_take_def request_size_def)
    note m = alloc_multi_ok[OF p(1) al(2,1)]
    show ?thesis
    proof (cases "a = 0")
      case False
      then obtain cs where c: "pool_ok A s' as cs" "{a..<a + n} \<subseteq> bytes_of bs" "bytes_of cs = bytes_of bs - {a..<a + n}"
        "{a..<a + n} \<inter> bytes_of as = {}" using m by auto
      then have "bytes_of (as @ cs) = X - {a..<a + n}" using p(2) by auto
      then show ?thesis using c(1,2) p(2) False al(3) unfolding pool_repr_def by auto
    qed (use m assms(1) in simp)
  qed
qed

interpretation pool: area_source "pool_take A" "pool_repr A" "request_size A"
proof
  show "pool_repr A s' X" if "pool_repr A s X" "0 < request_size A r" "pool_take A r s = (0, s')" for s X r s'
    using pool_take_ok[OF that] by simp
  show "{a..<a + request_size A r} \<subseteq> X \<and> pool_repr A s' (X - {a..<a + request_size A r})"
    if "pool_repr A s X" "0 < request_size A r" "pool_take A r s = (a, s')" "a \<noteq> 0" for s X r a s'
    using pool_take_ok[OF that(1-3)] that(4) by simp
qed


definition ex_pool :: "headers \<times> area_pool" where
  "ex_pool = ((\<lambda>_. area_init 0 0 0)(16 := area_init 16 8 0, 32 := area_init 32 24 0),
     \<lparr>single_areas = atomic_switch 16 16 alist_init, multi_areas = atomic_switch 32 32 alist_init\<rparr>)"

lemma ex_pool_ok: "pool_ok 8 ex_pool [(16, 8)] [(32, 24)]"
  by (simp add: pool_ok_def ex_pool_def alist_ok_def ends_ok_def area_init_def apart_def)

lemma find_loop_start:
  "find_loop MAX_ITER sz p c H l = (if c = 0 then (0, H, l) else if a_size (H c) \<ge> sz then (c, cut_area sz p c H l)
    else find_loop 9 sz c (a_next (H c)) H l)"
  by (simp add: MAX_ITER_def eval_nat_numeral)




text \<open>
  C25. A list can be read at any point of a \<open>push\<close> or a \<open>pop\<close>: after the header of the new area is
  written and after the inactive pair of pointers is prepared the old list is intact, and after
  the selector is flipped the new one.
\<close>

theorem switch_is_atomic:
  assumes "alist_ok H l as" "off \<noteq> 0" "off \<notin> fst ` set as" "sz < 2 ^ 32"
    and H1_def: "H1 = H(off := area_init off sz (get_head l))"
  shows "alist_ok H1 l as \<and> (\<forall>h t. alist_ok H1 (prepare h t l) as \<and> alist_ok H (prepare h t l) as)
    \<and> alist_push off sz H l = (H1, flip (prepare off (if as = [] then off else get_tail l) l))
    \<and> alist_ok H1 (flip (prepare off (if as = [] then off else get_tail l) l)) ((off, sz) # as)"
proof -
  have t0: "get_tail l = 0 \<longleftrightarrow> as = []" using assms(1) ends_ok_null(2) by (auto simp: alist_ok_def)
  have "alist_ok H1 l as" using assms(1,3) by (simp add: H1_def alist_ok_upd)
  moreover have "alist_ok K (prepare h t l) as = alist_ok K l as" for K h t
    by (simp add: alist_ok_def prepare_def get_head_def get_tail_def)
  moreover have p: "alist_push off sz H l = (H1, flip (prepare off (if as = [] then off else get_tail l) l))"
    using t0 by (simp add: alist_push_def H1_def atomic_switch_def)
  ultimately show ?thesis using alist_push_ok[OF assms(1-4) p] assms(1) by simp
qed

theorem switch_is_atomic_witness:
  "alist_push 64 8 (fst ex_pool) (single_areas (snd ex_pool))
    = ((fst ex_pool)(64 := area_init 64 8 16), flip (prepare 64 16 (single_areas (snd ex_pool))))
    \<and> alist_ok (fst ex_pool) (prepare 64 16 (single_areas (snd ex_pool))) [(16, 8)]"
proof -
  have ok: "alist_ok (fst ex_pool) (single_areas (snd ex_pool)) [(16, 8)]" using ex_pool_ok by (simp add: pool_ok_def)
  have ht: "get_head (single_areas (snd ex_pool)) = 16" "get_tail (single_areas (snd ex_pool)) = 16"
    by (simp_all add: ex_pool_def)
  show ?thesis using switch_is_atomic[OF ok, of 64 8] ht by simp
qed

section \<open>The rebuilt pool\<close>

lemma link_area_ok:
  assumes "ends_ok H h t as" "sized H as" "pos \<noteq> 0" "pos \<notin> fst ` set as" "distinct (map fst as)" "sz < 2 ^ 32"
    and "link_area h t pos sz H = (h', t', H')"
  shows "ends_ok H' h' t' (as @ [(pos, sz)])" "sized H' (as @ [(pos, sz)])"
proof -
  let ?H = "H(pos := area_init pos sz 0)"
  have "alist_ok ?H \<lparr>heads = (\<lambda>_. h), tails = (\<lambda>_. t), active = False\<rparr> as" (is "alist_ok _ ?l _")
    using assms(1,2,4) by (simp add: alist_ok_def ends_ok_def get_head_def get_tail_def)
  moreover have "ends_ok ?H pos pos [(pos, sz)]" "sized ?H [(pos, sz)]"
    using assms(3,6) by (simp_all add: ends_ok_def area_init_def)
  moreover have "alist_add pos pos ?H ?l = (H', atomic_switch h' t' ?l)"
    using assms(3,7) by (auto simp: alist_add_def link_area_def get_head_def get_tail_def Let_def split: if_splits)
  moreover have "distinct (map fst (as @ [(pos, sz)]))" using assms(4,5) by simp
  ultimately have "alist_ok H' (atomic_switch h' t' ?l) (as @ [(pos, sz)])" by (metis alist_add_ok)
  then show "ends_ok H' h' t' (as @ [(pos, sz)])" "sized H' (as @ [(pos, sz)])" by (simp_all add: alist_ok_def)
qed

lemma link_area_frame:
  assumes "link_area h t pos sz H = (h', t', H')" "b \<noteq> pos" "h \<noteq> 0 \<longrightarrow> b \<noteq> t"
  shows "H' b = H b"
  using assms by (auto simp: link_area_def set_next_def Let_def split: if_splits)

definition free_blocks :: "nat \<Rightarrow> nat set \<Rightarrow> nat \<Rightarrow> nat \<Rightarrow> nat set" where
  "free_blocks A occ lo hi = {p. (\<exists>k. p = lo + k * A) \<and> p + A \<le> hi \<and> p \<notin> occ}"

definition block_bytes :: "nat \<Rightarrow> nat set \<Rightarrow> nat set" where
  "block_bytes A ps = (\<Union>p\<in>ps. {p..<p + A})"

lemma free_blocks_step:
  assumes "0 < A" "pos = lo + j * A"
  shows "free_blocks A occ lo (pos + A) = free_blocks A occ lo pos \<union> (if pos \<in> occ then {} else {pos})"
proof -
  have "lo + k * A + A \<le> pos + A \<longleftrightarrow> lo + k * A + A \<le> pos \<or> k = j" for k
  proof -
    have "lo + k * A + A \<le> pos + A \<longleftrightarrow> k \<le> j" "lo + k * A + A \<le> pos \<longleftrightarrow> Suc k \<le> j"
      using assms mult_le_cancel2[of k A j] mult_le_cancel2[of "Suc k" A j] by (auto simp: algebra_simps)
    then show ?thesis by auto
  qed
  then show ?thesis using assms(2) by (auto simp: free_blocks_def)
qed

text \<open>The state of the scan in front of block \<open>pos\<close>: two chains and a run of free blocks behind them.\<close>

definition run_bytes :: "nat \<Rightarrow> scan_state \<Rightarrow> nat set" where
  "run_bytes A s = {run_start s..<run_start s + run_blocks s * A}"

definition scan_inv :: "nat \<Rightarrow> nat \<Rightarrow> scan_state \<Rightarrow> extent list \<Rightarrow> extent list \<Rightarrow> bool" where
  "scan_inv A pos s as bs \<longleftrightarrow>
     ends_ok (sc_headers s) (s_head s) (s_tail s) as \<and> ends_ok (sc_headers s) (m_head s) (m_tail s) bs
     \<and> sized (sc_headers s) (as @ bs) \<and> separate (as @ bs) \<and> (\<forall>a\<in>set as. snd a = A)
     \<and> (\<forall>a\<in>set (as @ bs). fst a + snd a \<le> (if run_blocks s = 0 then pos else run_start s))
     \<and> (run_blocks s \<noteq> 0 \<longrightarrow> 0 < run_start s \<and> run_start s + run_blocks s * A = pos)"

lemma separate_snoc_above:
  "separate as \<Longrightarrow> \<forall>a\<in>set as. fst a + snd a \<le> x \<Longrightarrow> 0 < x \<Longrightarrow> 0 < n \<Longrightarrow> separate (as @ [(x, n)])"
  by (auto simp: separate_append apart_def)

lemma above_new:
  fixes as :: "extent list"
  shows "\<forall>a\<in>set as. fst a + snd a \<le> x \<Longrightarrow> \<forall>a\<in>set as. 0 < snd a \<Longrightarrow> x \<notin> fst ` set as"
  by (induction as) auto

lemma ends_ok_frame: "ends_ok H h t as \<Longrightarrow> (\<And>b. b \<in> fst ` set as \<Longrightarrow> H' b = H b) \<Longrightarrow> ends_ok H' h t as"
  using path_cong[of "map fst as" H' H h 0] by (auto simp: ends_ok_def)

lemma sized_frame: "sized H as \<Longrightarrow> (\<And>b. b \<in> fst ` set as \<Longrightarrow> H' b = H b) \<Longrightarrow> sized H' as"
  by (simp add: sized_def)

lemma link_both:
  assumes "ends_ok H h t as" "ends_ok H h2 t2 bs" "sized H (as @ bs)" "separate (as @ bs)"
    and below: "\<forall>a\<in>set (as @ bs). fst a + snd a \<le> x" and x: "0 < x" "n < 2 ^ 32"
    and link: "link_area h t x n H = (h', t', H')"
  shows "ends_ok H' h' t' (as @ [(x, n)])" "ends_ok H' h2 t2 bs" "sized H' (as @ [(x, n)])" "sized H' bs"
proof -
  have pos: "\<forall>a\<in>set (as @ bs). 0 < snd a" using assms(4) by (simp add: separate_def)
  have new: "x \<notin> fst ` set as" "x \<notin> fst ` set bs" using above_new[of _ x] below pos by auto
  have d: "distinct (map fst (as @ bs))" using separate_distinct[OF assms(4)] .
  then have d': "distinct (map fst as)" by simp
  show "ends_ok H' h' t' (as @ [(x, n)])" "sized H' (as @ [(x, n)])"
    using link_area_ok[OF assms(1) _ _ new(1) d' x(2) link] assms(3) x by simp_all
  have fr: "H' b = H b" if b: "b \<in> fst ` set bs" for b
  proof (rule link_area_frame[OF link])
    show "b \<noteq> x" using new(2) b by auto
    have "t \<in> fst ` set as" if "h \<noteq> 0" using assms(1) that ends_ok_null(1) by (auto simp: ends_ok_def split: if_splits)
    then show "h \<noteq> 0 \<longrightarrow> b \<noteq> t" using d b by auto
  qed
  show "ends_ok H' h2 t2 bs" using ends_ok_frame[OF assms(2) fr] .
  show "sized H' bs" using sized_frame[OF _ fr] assms(3) by simp
qed

lemma flush_run_ok:
  assumes "scan_inv A pos s as bs" "0 < A" "pos < 2 ^ 32"
  shows "\<exists>as' bs'. scan_inv A pos (flush_run A s) as' bs' \<and> bytes_of (as' @ bs') = bytes_of (as @ bs) \<union> run_bytes A s
    \<and> run_blocks (flush_run A s) = 0"
proof -
  let ?H = "sc_headers s" and ?x = "run_start s" and ?n = "run_blocks s * A"
  have ok: "ends_ok ?H (s_head s) (s_tail s) as" "ends_ok ?H (m_head s) (m_tail s) bs" "sized ?H (as @ bs)"
    "separate (as @ bs)" "\<forall>a\<in>set as. snd a = A"
    using assms(1) by (auto simp: scan_inv_def)
  have sw: "sized ?H (bs @ as)" "separate (bs @ as)" using ok(3,4) by (auto simp: separate_append apart_def)
  consider "run_blocks s = 0" | "run_blocks s = 1" | "run_blocks s > 1" by linarith
  then show ?thesis
  proof cases
    case 1
    have "scan_inv A pos (flush_run A s) as bs" using assms(1) 1 by (simp add: flush_run_def scan_inv_def)
    moreover have "run_blocks (flush_run A s) = 0" "run_bytes A s = {}" using 1 by (simp_all add: flush_run_def run_bytes_def)
    ultimately show ?thesis by (metis Un_empty_right)
  next
    case 2
    then have run: "\<forall>a\<in>set (as @ bs). fst a + snd a \<le> ?x" "0 < ?x" "?x + A = pos" using assms(1) by (auto simp: scan_inv_def)
    obtain h t H' where link: "link_area (s_head s) (s_tail s) ?x A ?H = (h, t, H')" by (cases "link_area (s_head s) (s_tail s) ?x A ?H")
    note lb = link_both[OF ok(1-4) run(1,2) _ link]
    have "separate ((as @ [(?x, A)]) @ bs)"
      using ok(4) run assms(2) by (auto simp: separate_append apart_def)
    moreover have "\<forall>a\<in>set (as @ bs). fst a + snd a \<le> pos" using run(1) unfolding run(3)[symmetric] by (simp add: trans_le_add1)
    then have "\<forall>a\<in>set ((as @ [(?x, A)]) @ bs). fst a + snd a \<le> pos" using run(3) by auto
    ultimately have "scan_inv A pos (flush_run A s) (as @ [(?x, A)]) bs"
      using lb ok(5) link 2 run(3) assms(3) by (simp add: flush_run_def scan_inv_def)
    moreover have "run_blocks (flush_run A s) = 0" using 2 link by (simp add: flush_run_def)
    moreover have "bytes_of ((as @ [(?x, A)]) @ bs) = bytes_of (as @ bs) \<union> run_bytes A s" using 2 by (auto simp: run_bytes_def)
    ultimately show ?thesis by blast
  next
    case 3
    then have run: "\<forall>a\<in>set (bs @ as). fst a + snd a \<le> ?x" "0 < ?x" "?x + ?n = pos" using assms(1) by (auto simp: scan_inv_def)
    obtain h t H' where link: "link_area (m_head s) (m_tail s) ?x ?n ?H = (h, t, H')" by (cases "link_area (m_head s) (m_tail s) ?x ?n ?H")
    note lb = link_both[OF ok(2,1) sw run(1,2) _ link]
    have "separate (as @ (bs @ [(?x, ?n)]))"
      using ok(4) run assms(2) 3 by (auto simp: separate_append apart_def)
    moreover have "\<forall>a\<in>set (bs @ as). fst a + snd a \<le> pos" using run(1) unfolding run(3)[symmetric] by (simp add: trans_le_add1)
    then have "\<forall>a\<in>set (as @ (bs @ [(?x, ?n)])). fst a + snd a \<le> pos" using run(3) by auto
    ultimately have "scan_inv A pos (flush_run A s) as (bs @ [(?x, ?n)])"
      using lb ok(5) link 3 run(3) assms(3) by (simp add: flush_run_def scan_inv_def)
    moreover have "run_blocks (flush_run A s) = 0" using 3 link by (simp add: flush_run_def)
    moreover have "bytes_of (as @ (bs @ [(?x, ?n)])) = bytes_of (as @ bs) \<union> run_bytes A s" using 3 by (auto simp: run_bytes_def)
    ultimately show ?thesis by blast
  qed
qed

lemma scan_block_ok:
  assumes "scan_inv A pos s as bs" "0 < A" "0 < pos" "pos < 2 ^ 32"
  shows "\<exists>as' bs'. scan_inv A (pos + A) (scan_block A occ pos s) as' bs' \<and>
    bytes_of (as' @ bs') \<union> run_bytes A (scan_block A occ pos s)
      = bytes_of (as @ bs) \<union> run_bytes A s \<union> (if pos \<in> occ then {} else {pos..<pos + A})"
proof (cases "pos \<in> occ")
  case True
  obtain as' bs' where f: "scan_inv A pos (flush_run A s) as' bs'"
    "bytes_of (as' @ bs') = bytes_of (as @ bs) \<union> run_bytes A s" "run_blocks (flush_run A s) = 0"
    using flush_run_ok[OF assms(1,2,4)] by blast
  have "scan_inv A (pos + A) (flush_run A s) as' bs'" using f(1,3) by (auto simp: scan_inv_def trans_le_add1)
  then show ?thesis using True f(2,3) by (auto simp: scan_block_def run_bytes_def)
next
  case False
  have "scan_inv A (pos + A) (scan_block A occ pos s) as bs"
    using assms(1,3) False by (auto simp: scan_inv_def scan_block_def)
  moreover have "run_bytes A (scan_block A occ pos s) = run_bytes A s \<union> {pos..<pos + A}"
    using assms(1) False by (auto simp: run_bytes_def scan_block_def scan_inv_def)
  ultimately show ?thesis using False by (metis Un_assoc)
qed

lemma scan_areas_ok:
  assumes "scan_inv A pos s as bs" "0 < A" "0 < lo" "pos = lo + j * A" "pos \<le> hi \<or> j = 0" "lo < 2 ^ 32" "hi < 2 ^ 32"
    and "bytes_of (as @ bs) \<union> run_bytes A s = block_bytes A (free_blocks A occ lo pos)"
  shows "\<exists>p as' bs'. scan_inv A p (scan_areas A occ hi pos s) as' bs' \<and> run_blocks (scan_areas A occ hi pos s) = 0
    \<and> bytes_of (as' @ bs') = block_bytes A (free_blocks A occ lo hi)"
  using assms
proof (induction A occ hi pos s arbitrary: as bs j rule: scan_areas.induct)
  case (1 A occ hi pos s)
  have pb: "pos < 2 ^ 32" using 1(5-8) by auto
  show ?case
  proof (cases "pos + A \<le> hi")
    case True
    have pos: "0 < pos" "pos + A = lo + Suc j * A" using 1(4,5) by auto
    obtain as' bs' where b: "scan_inv A (pos + A) (scan_block A occ pos s) as' bs'"
      "bytes_of (as' @ bs') \<union> run_bytes A (scan_block A occ pos s)
        = bytes_of (as @ bs) \<union> run_bytes A s \<union> (if pos \<in> occ then {} else {pos..<pos + A})"
      using scan_block_ok[OF 1(2,3) pos(1) pb] by blast
    have "bytes_of (as' @ bs') \<union> run_bytes A (scan_block A occ pos s) = block_bytes A (free_blocks A occ lo (pos + A))"
      unfolding b(2) 1(9) free_blocks_step[OF 1(3,5)] by (auto simp: block_bytes_def)
    from 1(1)[OF _ b(1) 1(3,4) pos(2) _ 1(7,8) this] True 1(3) show ?thesis by (subst (1 2) scan_areas.simps) simp
  next
    case False
    obtain as' bs' where f: "scan_inv A pos (flush_run A s) as' bs'"
      "bytes_of (as' @ bs') = bytes_of (as @ bs) \<union> run_bytes A s" "run_blocks (flush_run A s) = 0"
      using flush_run_ok[OF 1(2,3) pb] by blast
    have "free_blocks A occ lo pos = free_blocks A occ lo hi"
    proof -
      have "lo + k * A + A \<le> pos \<longleftrightarrow> lo + k * A + A \<le> hi" for k
      proof
        assume "lo + k * A + A \<le> pos"
        moreover from this have "j \<noteq> 0" using 1(3,5) by (cases j) auto
        ultimately show "lo + k * A + A \<le> hi" using 1(6) by simp
      next
        assume h: "lo + k * A + A \<le> hi"
        show "lo + k * A + A \<le> pos"
        proof (rule ccontr)
          assume "\<not> lo + k * A + A \<le> pos"
          then have "j * A < Suc k * A" using 1(5) by simp
          then have "j \<le> k" using 1(3) by (simp only: mult_less_cancel2) simp
          then have "j * A \<le> k * A" by (rule mult_le_mono1)
          then show False using False h 1(5) by linarith
        qed
      qed
      then show ?thesis by (auto simp: free_blocks_def)
    qed
    then have "bytes_of (as' @ bs') = block_bytes A (free_blocks A occ lo hi)" using f(2) 1(9) by simp
    then show ?thesis using f(1,3) False by (subst (1 2) scan_areas.simps) auto
  qed
qed

text \<open>The blocks of an owned area: its own offset and every further block it covers.\<close>

definition area_blocks :: "nat \<Rightarrow> headers \<Rightarrow> nat \<Rightarrow> nat set" where
  "area_blocks A H x = insert x {x + k * A |k. k * A < a_size (H x)}"

lemma mark_range_eq:
  assumes "0 < A" "0 < n"
  shows "mark_range A x n occ = occ \<union> {x + k * A |k. k * A < n}"
  using assms
proof (induction A x n occ rule: mark_range.induct)
  case (1 A x n occ)
  show ?case
  proof (cases "n \<le> A")
    case True
    have "{x + k * A |k. k * A < n} = {x}"
    proof -
      have "k * A < n \<longleftrightarrow> k = 0" for k using True 1(2,3) by (cases k) auto
      then show ?thesis by auto
    qed
    then show ?thesis using True by (subst mark_range.simps) simp
  next
    case False
    have "{x + k * A |k. k * A < n} = insert x {x + A + k * A |k. k * A < n - A}"
    proof (intro set_eqI iffI)
      fix y assume "y \<in> {x + k * A |k. k * A < n}"
      then obtain k where k: "y = x + k * A" "k * A < n" by auto
      show "y \<in> insert x {x + A + k * A |k. k * A < n - A}"
      proof (cases k)
        case (Suc m)
        then have "y = x + A + m * A" "m * A < n - A" using k by auto
        then show ?thesis by blast
      qed (use k in simp)
    next
      fix y assume "y \<in> insert x {x + A + k * A |k. k * A < n - A}"
      then consider "y = x" | k where "y = x + A + k * A" "k * A < n - A" by auto
      then show "y \<in> {x + k * A |k. k * A < n}"
      proof cases
        case 1
        then show ?thesis using \<open>0 < n\<close> by (auto intro!: exI[of _ 0])
      next
        case (2 k)
        then show ?thesis by (auto intro!: exI[of _ "Suc k"])
      qed
    qed
    then show ?thesis using 1(1) 1(2) False by (subst mark_range.simps) auto
  qed
qed

lemma mark_area:
  "0 < A \<Longrightarrow> mark_occupied_range A x (a_size (H x)) (insert x occ) = occ \<union> area_blocks A H x"
  by (auto simp: mark_occupied_range_def mark_range_eq area_blocks_def)

lemma walk_areas_ok:
  assumes "0 < A" "path H x as 0" "set as \<inter> occ = {}" "sorted_wrt (\<lambda>a b. b \<notin> area_blocks A H a) as"
  shows "\<exists>H'. walk_areas A x (H, occ) = Some (H', occ \<union> (\<Union>a\<in>set as. area_blocks A H a))
    \<and> (\<forall>b. a_next (H' b) = a_next (H b) \<and> a_size (H' b) = a_size (H b))"
  using assms(2-4)
proof (induction as arbitrary: x H occ)
  case Nil
  then show ?case by (subst walk_areas.simps) auto
next
  case (Cons a as)
  let ?H = "H(a := (H a)\<lparr>a_offset := a\<rparr>)"
  have eq: "area_blocks A ?H = area_blocks A H" by (auto simp: area_blocks_def fun_eq_iff)
  have step: "walk_areas A x (H, occ) = walk_areas A (a_next (H a)) (?H, occ \<union> area_blocks A H a)"
  proof -
    have "x = a" "x \<noteq> 0" "x \<notin> occ" using Cons.prems(1,2) by auto
    moreover have "mark_occupied_range A a (a_size (?H a)) (insert a occ) = occ \<union> area_blocks A H a"
      using mark_area[OF assms(1), of a ?H occ] eq by simp
    ultimately show ?thesis by (subst walk_areas.simps) (simp add: Let_def)
  qed
  have p: "path ?H (a_next (H a)) as 0" using Cons.prems(1) path_cong[of as ?H H "a_next (H a)" 0] by simp
  have d: "set as \<inter> (occ \<union> area_blocks A H a) = {}" using Cons.prems(2,3) by auto
  have so: "sorted_wrt (\<lambda>a b. b \<notin> area_blocks A ?H a) as" using Cons.prems(3) eq by simp
  obtain H' where "walk_areas A (a_next (H a)) (?H, occ \<union> area_blocks A H a)
      = Some (H', occ \<union> area_blocks A H a \<union> (\<Union>b\<in>set as. area_blocks A ?H b))"
    "\<forall>b. a_next (H' b) = a_next (?H b) \<and> a_size (H' b) = a_size (?H b)"
    using Cons.IH[OF p d so] by blast
  then show ?case using step eq by (auto simp: Un_assoc)
qed

text \<open>The areas owned by the databases, chain by chain.\<close>

fun owned :: "headers \<Rightarrow> (nat \<times> nat) list \<Rightarrow> nat list \<Rightarrow> bool" where
  "owned H [] zs \<longleftrightarrow> zs = []"
| "owned H ((h1, h2) # dbs) zs \<longleftrightarrow> (\<exists>xs ys ws. zs = xs @ ys @ ws \<and> path H h1 xs 0 \<and> path H h2 ys 0 \<and> owned H dbs ws)"

lemma owned_cong: "(\<And>b. a_next (H' b) = a_next (H b)) \<Longrightarrow> owned H' dbs zs \<longleftrightarrow> owned H dbs zs"
  using path_cong[of _ H' H] by (induction H dbs zs rule: owned.induct) simp_all

lemma area_blocks_cong: "(\<And>b. a_size (H' b) = a_size (H b)) \<Longrightarrow> area_blocks A H' = area_blocks A H"
  by (auto simp: area_blocks_def fun_eq_iff)

lemma walk_dbs_ok:
  assumes "0 < A" "owned H dbs zs" "set zs \<inter> occ = {}" "sorted_wrt (\<lambda>a b. b \<notin> area_blocks A H a) zs"
  shows "\<exists>H'. walk_dbs A dbs (H, occ) = Some (H', occ \<union> (\<Union>a\<in>set zs. area_blocks A H a))"
  using assms(2-4)
proof (induction dbs arbitrary: H zs occ)
  case (Cons d dbs)
  obtain h1 h2 where d: "d = (h1, h2)" by (cases d)
  then obtain xs ys ws where z: "zs = xs @ ys @ ws" "path H h1 xs 0" "path H h2 ys 0" "owned H dbs ws"
    using Cons.prems(1) by auto
  have so: "sorted_wrt (\<lambda>a b. b \<notin> area_blocks A H a) xs" "sorted_wrt (\<lambda>a b. b \<notin> area_blocks A H a) ys"
    "sorted_wrt (\<lambda>a b. b \<notin> area_blocks A H a) ws" "\<forall>a\<in>set xs. \<forall>b\<in>set ys \<union> set ws. b \<notin> area_blocks A H a"
    "\<forall>a\<in>set ys. \<forall>b\<in>set ws. b \<notin> area_blocks A H a"
    using Cons.prems(3) z(1) by (auto simp: sorted_wrt_append)
  let ?U = "\<lambda>as. \<Union>a\<in>set as. area_blocks A H a"
  obtain H1 where w1: "walk_areas A h1 (H, occ) = Some (H1, occ \<union> ?U xs)"
    and c1: "\<And>b. a_next (H1 b) = a_next (H b)" "\<And>b. a_size (H1 b) = a_size (H b)"
    using walk_areas_ok[OF assms(1) z(2) _ so(1), of occ] Cons.prems(2) z(1) by auto
  note e1 = area_blocks_cong[OF c1(2), of A]
  have "path H1 h2 ys 0" using z(3) path_cong[of ys H1 H] c1(1) by simp
  moreover have "set ys \<inter> (occ \<union> ?U xs) = {}" using Cons.prems(2) z(1) so(4) by auto
  ultimately obtain H2 where w2: "walk_areas A h2 (H1, occ \<union> ?U xs) = Some (H2, occ \<union> ?U xs \<union> ?U ys)"
    and c2: "\<And>b. a_next (H2 b) = a_next (H1 b)" "\<And>b. a_size (H2 b) = a_size (H1 b)"
    using walk_areas_ok[OF assms(1), of H1 h2 ys "occ \<union> ?U xs"] so(2) e1 by auto
  note e2 = area_blocks_cong[OF c2(2), of A, unfolded e1]
  have "owned H2 dbs ws" using z(4) owned_cong[of H2 H dbs ws] c1(1) c2(1) by simp
  moreover have "set ws \<inter> (occ \<union> ?U xs \<union> ?U ys) = {}" using Cons.prems(2) z(1) so(4,5) by auto
  ultimately obtain H3 where "walk_dbs A dbs (H2, occ \<union> ?U xs \<union> ?U ys) = Some (H3, occ \<union> ?U xs \<union> ?U ys \<union> ?U ws)"
    using Cons.IH[of H2 ws "occ \<union> ?U xs \<union> ?U ys"] so(3) e2 by auto
  then show ?case using d w1 w2 z(1) by (auto simp: Un_assoc)
qed simp

lemma long_run_truncated:
  "a_size (snd (snd (link_area 0 0 pos (2 ^ 32) H)) pos) = 0"
  by (simp add: link_area_def area_init_def)

text \<open>
  C13. Rebuilding the pool from a file smaller than 4 GiB returns, when the chains of the databases
  end and do not run into each other's blocks: the pool then holds exactly the blocks of the
  file that no database owns and that are not marked otherwise, single blocks in one list and
  longer runs in the other. (The size of an area is stored in 32 bits, so a longer run of free
  blocks in a larger file gets a truncated size.)
\<close>

theorem recover_areas_correct:
  assumes "0 < A" "0 < first_pos" "owned H dbs zs" "sorted_wrt (\<lambda>a b. b \<notin> area_blocks A H a) zs"
    and "first_pos < 2 ^ 32" "file_size < 2 ^ 32"
  shows "\<exists>H' p as bs. recover_areas A dbs extra file_size first_pos H = Some (H', p) \<and> pool_ok A (H', p) as bs
    \<and> bytes_of (as @ bs) = block_bytes A (free_blocks A (extra (\<Union>a\<in>set zs. area_blocks A H a)) first_pos file_size)"
proof -
  let ?occ = "\<Union>a\<in>set zs. area_blocks A H a"
  obtain H1 where w: "walk_dbs A dbs (H, {}) = Some (H1, ?occ)" using walk_dbs_ok[OF assms(1,3) _ assms(4), of "{}"] by auto
  let ?init = "\<lparr>sc_headers = H1, s_head = 0, s_tail = 0, m_head = 0, m_tail = 0, run_start = 0, run_blocks = 0\<rparr>"
  let ?s = "scan_areas A (extra ?occ) file_size first_pos ?init"
  have s0: "scan_inv A first_pos ?init [] []" by (simp add: scan_inv_def ends_ok_def)
  have b0: "bytes_of ([] @ []) \<union> run_bytes A ?init = block_bytes A (free_blocks A (extra ?occ) first_pos first_pos)"
    using assms(1) by (auto simp: run_bytes_def block_bytes_def free_blocks_def)
  have j0: "first_pos = first_pos + 0 * A" "first_pos \<le> file_size \<or> (0 :: nat) = 0" by simp_all
  obtain q as bs where s: "scan_inv A q ?s as bs"
    "bytes_of (as @ bs) = block_bytes A (free_blocks A (extra ?occ) first_pos file_size)"
    using scan_areas_ok[OF s0 assms(1,2) j0 assms(5,6) b0] by blast
  have sw: "alist_ok (sc_headers ?s) (if h \<noteq> 0 then atomic_switch h t alist_init else alist_init) cs"
    if "ends_ok (sc_headers ?s) h t cs" "sized (sc_headers ?s) cs" for h t cs
    using that ends_ok_null[OF that(1)] alist_init_ok[of "sc_headers ?s"] by (cases "h = 0") (simp_all add: alist_ok_def)
  let ?p = "\<lparr>single_areas = (if s_head ?s \<noteq> 0 then atomic_switch (s_head ?s) (s_tail ?s) alist_init else alist_init),
      multi_areas = (if m_head ?s \<noteq> 0 then atomic_switch (m_head ?s) (m_tail ?s) alist_init else alist_init)\<rparr>"
  have "pool_ok A (sc_headers ?s, ?p) as bs" using s(1) sw assms(1) by (simp add: scan_inv_def pool_ok_def)
  moreover have "recover_areas A dbs extra file_size first_pos H = Some (sc_headers ?s, ?p)"
    using w by (simp add: recover_areas_def Let_def)
  ultimately show ?thesis using s(2) by blast
qed

theorem recover_areas_correct_witness:
  "\<exists>H' p as bs. recover_areas 8 [(16, 0)] (\<lambda>occ. occ) 56 8 (fst ex_pool) = Some (H', p)
    \<and> pool_ok 8 (H', p) as bs \<and> bytes_of (as @ bs) = {8..<16} \<union> {24..<56}"
proof -
  have o: "owned (fst ex_pool) [(16, 0)] [16]"
    unfolding owned.simps
    by (rule exI[of _ "[16]"], rule exI[of _ "[]"], rule exI[of _ "[]"]) (simp add: ex_pool_def area_init_def)
  have b: "(\<Union>a\<in>set [16]. area_blocks 8 (fst ex_pool) a) = {16}"
    by (auto simp: area_blocks_def ex_pool_def area_init_def)
  have "p \<in> free_blocks 8 {16} 8 56 \<longleftrightarrow> p \<in> {8, 24, 32, 40, 48}" for p
  proof -
    have "(\<exists>k. p = 8 + k * 8) \<and> p + 8 \<le> 56 \<longleftrightarrow> p \<in> {8, 16, 24, 32, 40, 48}"
      unfolding insert_iff empty_iff by presburger
    then show ?thesis by (auto simp: free_blocks_def)
  qed
  then have "free_blocks 8 {16} 8 56 = {8, 24, 32, 40, 48}" by blast
  then have "block_bytes 8 (free_blocks 8 {16} 8 56) = {8..<16} \<union> {24..<56}" by (auto simp: block_bytes_def)
  then show ?thesis using recover_areas_correct[OF _ _ o, of 8 8 56 "\<lambda>occ. occ"] b by simp
qed

end
