(* ===== verification/Leaves_Wal.thy ===== *)
theory Leaves_Wal
  imports Leaves_Serial
begin

text \<open>
  The write-ahead log (\<open>include/leaves/intern/storage/_wal.hpp\<close>): the record format, the parser
  used by recovery and the writer with its two files. A file is the list of its bytes; opening
  or reading may fail, which is the value \<open>None\<close>, and a write may fail, which is an argument of the
  operations that throw then.
\<close>

unbundle bit_operations_syntax

section \<open>Records\<close>

definition TAG_BEGIN :: uint8 where "TAG_BEGIN = 1"
definition TAG_PUT :: uint8 where "TAG_PUT = 2"
definition TAG_DEL :: uint8 where "TAG_DEL = 3"
definition TAG_PREPARE :: uint8 where "TAG_PREPARE = 4"
definition TAG_COMMIT :: uint8 where "TAG_COMMIT = 5"

lemmas tag_defs = TAG_BEGIN_def TAG_PUT_def TAG_DEL_def TAG_PREPARE_def TAG_COMMIT_def

lemma tags_distinct:
  "TAG_PUT \<noteq> TAG_BEGIN" "TAG_DEL \<noteq> TAG_BEGIN" "TAG_PREPARE \<noteq> TAG_BEGIN" "TAG_COMMIT \<noteq> TAG_BEGIN"
  "TAG_DEL \<noteq> TAG_PUT" "TAG_PREPARE \<noteq> TAG_PUT" "TAG_COMMIT \<noteq> TAG_PUT"
  "TAG_PREPARE \<noteq> TAG_DEL" "TAG_COMMIT \<noteq> TAG_DEL" "TAG_COMMIT \<noteq> TAG_PREPARE"
  by (simp_all add: tag_defs)

definition WAL_MAGIC :: bytes where
  "WAL_MAGIC = [76, 86, 83, 87, 65, 76, 48, 49]"

definition WAL_HEADER_SIZE :: nat where
  "WAL_HEADER_SIZE = length WAL_MAGIC"

record wal_op =
  is_delete :: bool
  op_key :: bytes
  op_val :: bytes

record wal_txn =
  txn_id :: uint32
  txn_ops :: "wal_op list"

definition empty_txn :: wal_txn where
  "empty_txn = \<lparr>txn_id = 0, txn_ops = []\<rparr>"

definition put_u32 :: "uint32 \<Rightarrow> bytes" where
  "put_u32 v = [ucast (v AND 0xFF), ucast (drop_bit 8 v AND 0xFF), ucast (drop_bit 16 v AND 0xFF),
     ucast (drop_bit 24 v AND 0xFF)]"

definition read_u32 :: "bytes \<Rightarrow> nat \<Rightarrow> uint32" where
  "read_u32 d p = ucast (d ! p) OR push_bit 8 (ucast (d ! (p + 1))) OR push_bit 16 (ucast (d ! (p + 2)))
     OR push_bit 24 (ucast (d ! (p + 3)))"

section \<open>Parsing\<close>

record parse_state =
  p_pos :: nat
  in_txn :: bool
  p_prepared :: bool
  p_cur :: wal_txn
  p_result :: "wal_txn list"

text \<open>
  One round of the loop; \<open>None\<close> is \<open>break\<close>. The step over a record is computed in 32 bits, the
  test that the record is complete in 64 bits.
\<close>

definition parse_step :: "bytes \<Rightarrow> parse_state \<Rightarrow> parse_state option" where
  "parse_step d s =
     (let pos = p_pos s; n = length d; tag = d ! pos
      in if tag = TAG_BEGIN then
           (if pos + 5 \<le> n
            then Some (s\<lparr>p_cur := \<lparr>txn_id = read_u32 d (pos + 1), txn_ops = []\<rparr>, p_pos := pos + 5,
                         in_txn := True, p_prepared := False\<rparr>)
            else None)
         else if tag = TAG_PUT then
           (if in_txn s \<and> pos + 9 \<le> n then
              let ksz = read_u32 d (pos + 1); vsz = read_u32 d (pos + 5)
              in if pos + (9 + unat ksz + unat vsz) \<le> n
                 then Some (s\<lparr>p_cur := (p_cur s)\<lparr>txn_ops := txn_ops (p_cur s) @
                        [\<lparr>is_delete = False, op_key = take (unat ksz) (drop (pos + 9) d),
                          op_val = take (unat vsz) (drop (pos + 9 + unat ksz) d)\<rparr>]\<rparr>,
                      p_pos := pos + unat (1 + 8 + ksz + vsz)\<rparr>)
                 else None
            else None)
         else if tag = TAG_DEL then
           (if in_txn s \<and> pos + 5 \<le> n then
              let ksz = read_u32 d (pos + 1)
              in if pos + (5 + unat ksz) \<le> n
                 then Some (s\<lparr>p_cur := (p_cur s)\<lparr>txn_ops := txn_ops (p_cur s) @
                        [\<lparr>is_delete = True, op_key = take (unat ksz) (drop (pos + 5) d), op_val = []\<rparr>]\<rparr>,
                      p_pos := pos + unat (1 + 4 + ksz)\<rparr>)
                 else None
            else None)
         else if tag = TAG_PREPARE then
           (if in_txn s then Some (s\<lparr>p_prepared := True, p_pos := pos + 1\<rparr>) else None)
         else if tag = TAG_COMMIT then
           (if in_txn s
            then Some (s\<lparr>p_pos := pos + 1, in_txn := False, p_prepared := False,
                         p_result := p_result s @ (if p_prepared s then [p_cur s] else [])\<rparr>)
            else None)
         else None)"

partial_function (option) parse_loop :: "bytes \<Rightarrow> parse_state \<Rightarrow> parse_state option" where
  "parse_loop d s =
     (if p_pos s < length d
      then (case parse_step d s of None \<Rightarrow> Some s | Some s1 \<Rightarrow> parse_loop d s1)
      else Some s)"

declare parse_loop.simps [code]

text \<open>The result and the dangling transaction are passed in and returned.\<close>

definition wal_parse :: "bytes option \<Rightarrow> wal_txn list \<times> wal_txn \<Rightarrow> (wal_txn list \<times> wal_txn) option" where
  "wal_parse f acc =
     (case f of None \<Rightarrow> Some acc
      | Some d \<Rightarrow>
          if length d < WAL_HEADER_SIZE \<or> take WAL_HEADER_SIZE d \<noteq> WAL_MAGIC then Some acc
          else map_option (\<lambda>s. (p_result s, if in_txn s \<and> p_prepared s then p_cur s else snd acc))
                 (parse_loop d \<lparr>p_pos = WAL_HEADER_SIZE, in_txn = False, p_prepared = False,
                    p_cur = empty_txn, p_result = fst acc\<rparr>))"

text \<open>\<open>_WalWriter::parse\<close> sorts by transaction id.\<close>

fun insert_txn :: "wal_txn \<Rightarrow> wal_txn list \<Rightarrow> wal_txn list" where
  "insert_txn t [] = [t]"
| "insert_txn t (u # us) = (if serial_less (txn_id u) (txn_id t) then u # insert_txn t us else t # u # us)"

definition sort_txns :: "wal_txn list \<Rightarrow> wal_txn list" where
  "sort_txns ts = foldr insert_txn ts []"

definition wal_parse_all :: "bytes option \<Rightarrow> bytes option \<Rightarrow> (wal_txn list \<times> wal_txn) option" where
  "wal_parse_all f0 f1 =
     Option.bind (wal_parse f0 ([], empty_txn)) (\<lambda>acc.
       map_option (apfst sort_txns) (wal_parse f1 acc))"

section \<open>The writer\<close>

record wal =
  wal_files :: "bool \<Rightarrow> bytes"
  write_off :: "bool \<Rightarrow> nat"
  next_log :: bool
  active_log :: bool
  last_commit :: "bool \<Rightarrow> uint64"
  wal_is_open :: bool
  wal_buf :: bytes
  has_records :: bool
  wal_prepared :: bool

datatype wal_error = WalError | FileError

text \<open>
  What the file system answers in one operation: whether the file can be resized, how much of a
  write arrives (\<open>None\<close>: all of it) and whether the file can be synced.
\<close>

record io =
  resize_ok :: bool
  written :: "nat option"
  sync_ok :: bool

definition io_good :: io where
  "io_good = \<lparr>resize_ok = True, written = None, sync_ok = True\<rparr>"

definition arrived :: "io \<Rightarrow> bytes \<Rightarrow> bytes" where
  "arrived io bs = (case written io of None \<Rightarrow> bs | Some n \<Rightarrow> take n bs)"

definition pwrite :: "nat \<Rightarrow> bytes \<Rightarrow> bytes \<Rightarrow> bytes" where
  "pwrite off bs f = take off (f @ replicate off 0) @ bs @ drop (off + length bs) f"

definition put_file :: "bool \<Rightarrow> bytes \<Rightarrow> wal \<Rightarrow> wal" where
  "put_file i f w = w\<lparr>wal_files := (wal_files w)(i := f)\<rparr>"

definition set_off :: "bool \<Rightarrow> nat \<Rightarrow> wal \<Rightarrow> wal" where
  "set_off i n w = w\<lparr>write_off := (write_off w)(i := n)\<rparr>"

text \<open>Truncating and writing the magic are best effort: only a failing sync is reported.\<close>

definition wal_truncate :: "io \<Rightarrow> bool \<Rightarrow> wal \<Rightarrow> wal_error option \<times> wal" where
  "wal_truncate io i w =
     (let w = put_file i (if resize_ok io then [] else wal_files w i) w;
          w = put_file i (pwrite 0 (arrived io WAL_MAGIC) (wal_files w i)) w
      in if \<not> sync_ok io then (Some FileError, w) else (None, set_off i WAL_HEADER_SIZE w))"

definition init_file :: "io \<Rightarrow> bool \<Rightarrow> wal \<Rightarrow> wal_error option \<times> wal" where
  "init_file io i w =
     (if length (wal_files w i) < WAL_HEADER_SIZE then wal_truncate io i w
      else (None, set_off i (length (wal_files w i)) w))"

text \<open>\<open>ok0\<close> and \<open>ok1\<close> say whether the files can be opened.\<close>

definition wal_open :: "bool \<Rightarrow> bool \<Rightarrow> io \<Rightarrow> io \<Rightarrow> wal \<Rightarrow> (wal_error + bool) \<times> wal" where
  "wal_open ok0 ok1 io0 io1 w =
     (if \<not> ok0 then (Inr False, w)
      else case init_file io0 False w of
        (Some e, w) \<Rightarrow> (Inl e, w)
      | (None, w) \<Rightarrow>
          if \<not> ok1 then (Inr False, w)
          else case init_file io1 True w of
            (Some e, w) \<Rightarrow> (Inl e, w)
          | (None, w) \<Rightarrow>
              (Inr True, w\<lparr>next_log := False, active_log := False, last_commit := (\<lambda>_. 0), wal_is_open := True\<rparr>))"

definition active_data_size :: "wal \<Rightarrow> nat" where
  "active_data_size w = write_off w (active_log w) - WAL_HEADER_SIZE"

definition wal_begin :: "uint32 \<Rightarrow> wal \<Rightarrow> wal" where
  "wal_begin t w =
     w\<lparr>last_commit := (last_commit w)(next_log w := ucast t), active_log := next_log w,
       wal_buf := [TAG_BEGIN] @ put_u32 t, has_records := False, wal_prepared := False\<rparr>"

definition put_record :: "bytes \<Rightarrow> bytes \<Rightarrow> bytes" where
  "put_record k v = [TAG_PUT] @ put_u32 (word_of_nat (length k)) @ put_u32 (word_of_nat (length v)) @ k @ v"

definition del_record :: "bytes \<Rightarrow> bytes" where
  "del_record k = [TAG_DEL] @ put_u32 (word_of_nat (length k)) @ k"

definition wal_put :: "bytes \<Rightarrow> bytes \<Rightarrow> wal \<Rightarrow> wal" where
  "wal_put k v w = w\<lparr>has_records := True, wal_buf := wal_buf w @ put_record k v\<rparr>"

definition wal_del :: "bytes \<Rightarrow> wal \<Rightarrow> wal" where
  "wal_del k w = w\<lparr>has_records := True, wal_buf := wal_buf w @ del_record k\<rparr>"

text \<open>
  The write of \<open>prepare\<close> and \<open>commit\<close>: an incomplete write leaves the write offset, a failing sync
  comes after the offset has moved.
\<close>

definition append_active :: "io \<Rightarrow> bool \<Rightarrow> bytes \<Rightarrow> wal \<Rightarrow> wal_error option \<times> wal" where
  "append_active io skip_sync bs w =
     (let i = active_log w; off = write_off w i;
          w = put_file i (pwrite off (arrived io bs) (wal_files w i)) w
      in if written io \<noteq> None then (Some WalError, w)
         else if \<not> skip_sync \<and> \<not> sync_ok io then (Some FileError, set_off i (off + length bs) w)
         else (None, set_off i (off + length bs) w))"

definition wal_prepare :: "io \<Rightarrow> bool \<Rightarrow> wal \<Rightarrow> wal_error option \<times> wal" where
  "wal_prepare io skip_sync w =
     (if wal_prepared w then (None, w)
      else if \<not> has_records w then (None, w\<lparr>wal_buf := [], wal_prepared := True\<rparr>)
      else let w = w\<lparr>wal_buf := wal_buf w @ [TAG_PREPARE]\<rparr>
           in case append_active io skip_sync (wal_buf w) w of
                (Some e, w) \<Rightarrow> (Some e, w)
              | (None, w) \<Rightarrow> (None, w\<lparr>wal_buf := [], wal_prepared := True\<rparr>))"

definition wal_commit :: "io \<Rightarrow> wal \<Rightarrow> wal_error option \<times> wal" where
  "wal_commit io w =
     (if \<not> has_records w then (None, w\<lparr>wal_buf := []\<rparr>)
      else append_active io False [TAG_COMMIT] w)"

definition wal_abort :: "wal \<Rightarrow> wal" where
  "wal_abort w = w\<lparr>wal_buf := [], has_records := False, wal_prepared := False\<rparr>"

definition wal_close :: "wal \<Rightarrow> wal" where
  "wal_close w = (if wal_is_open w then w\<lparr>wal_is_open := False\<rparr> else w)"

definition wal_flushed :: "io \<Rightarrow> uint32 \<Rightarrow> wal \<Rightarrow> wal_error option \<times> wal" where
  "wal_flushed io t w =
     (let i = \<not> active_log w
      in if serial_le (ucast (last_commit w i)) t
         then (case wal_truncate io i w of
                 (Some e, w) \<Rightarrow> (Some e, w)
               | (None, w) \<Rightarrow> (None, w\<lparr>last_commit := (last_commit w)(i := 0), next_log := i\<rparr>))
         else (None, w))"

section \<open>Encoding\<close>

definition enc_op :: "wal_op \<Rightarrow> bytes" where
  "enc_op p = (if is_delete p then del_record (op_key p) else put_record (op_key p) (op_val p))"

definition enc_begin :: "uint32 \<Rightarrow> bytes" where
  "enc_begin t = [TAG_BEGIN] @ put_u32 t"

definition enc_ops :: "wal_op list \<Rightarrow> bytes" where
  "enc_ops ps = concat (map enc_op ps)"

definition enc_txn :: "wal_txn \<Rightarrow> bytes" where
  "enc_txn t = enc_begin (txn_id t) @ enc_ops (txn_ops t) @ [TAG_PREPARE, TAG_COMMIT]"

text \<open>A record the format can hold: its size fits the 32-bit arithmetic of the parser.\<close>

definition op_fits :: "wal_op \<Rightarrow> bool" where
  "op_fits p \<longleftrightarrow> 9 + length (op_key p) + length (op_val p) < 2 ^ 32 \<and> (is_delete p \<longrightarrow> op_val p = [])"

lemma length_put_u32 [simp]: "length (put_u32 v) = 4"
  by (simp add: put_u32_def)

definition byte_at :: "nat \<Rightarrow> uint32 \<Rightarrow> uint32" where
  "byte_at k v = ucast (ucast (drop_bit k v AND 0xFF) :: uint8)"

lemma bit_byte_at: "bit (byte_at k v) j \<longleftrightarrow> j < 8 \<and> bit v (k + j)"
proof -
  have "bit (0xFF :: uint32) j \<longleftrightarrow> j < 8"
    using bit_mask_iff[of 8 j, where 'a = "32 word"] by (auto simp: mask_eq_exp_minus_1)
  then show ?thesis by (auto simp: byte_at_def bit_simps dest: bit_imp_le_length)
qed

lemma bytes_of_word:
  "byte_at 0 v OR push_bit 8 (byte_at 8 v) OR push_bit 16 (byte_at 16 v) OR push_bit 24 (byte_at 24 v) = v"
proof (rule bit_word_eqI)
  fix n assume "n < LENGTH(32)"
  then have n: "n < 32" by simp
  have p: "bit (push_bit m (byte_at m v)) n \<longleftrightarrow> m \<le> n \<and> n - m < 8 \<and> bit v n" for m
    using n by (auto simp: bit_push_bit_iff bit_byte_at)
  have "n < 8 \<or> 8 \<le> n \<and> n - 8 < 8 \<or> 16 \<le> n \<and> n - 16 < 8 \<or> 24 \<le> n \<and> n - 24 < 8" using n by linarith
  then show "bit (byte_at 0 v OR push_bit 8 (byte_at 8 v) OR push_bit 16 (byte_at 16 v) OR push_bit 24 (byte_at 24 v)) n
      \<longleftrightarrow> bit v n"
    unfolding bit_or_iff p bit_byte_at by auto
qed

lemma read_put_u32: "read_u32 (pre @ put_u32 v @ rest) (length pre) = v"
proof -
  have "read_u32 (pre @ put_u32 v @ rest) (length pre)
      = byte_at 0 v OR push_bit 8 (byte_at 8 v) OR push_bit 16 (byte_at 16 v) OR push_bit 24 (byte_at 24 v)"
    by (simp add: read_u32_def put_u32_def nth_append byte_at_def)
  then show ?thesis using bytes_of_word by simp
qed

lemma read_put_u32_at: "p = length pre \<Longrightarrow> d = pre @ put_u32 v @ rest \<Longrightarrow> read_u32 d p = v"
  using read_put_u32 by simp

section \<open>Parsing encoded records\<close>

lemma parse_begin:
  assumes "p_pos s = length pre"
  shows "parse_step (pre @ enc_begin t @ rest) s = Some (s\<lparr>p_cur := \<lparr>txn_id = t, txn_ops = []\<rparr>,
    p_pos := length pre + 5, in_txn := True, p_prepared := False\<rparr>)"
proof -
  have "read_u32 (pre @ enc_begin t @ rest) (length pre + 1) = t"
    by (rule read_put_u32_at[where pre = "pre @ [TAG_BEGIN]"]) (simp_all add: enc_begin_def)
  then show ?thesis using assms by (simp add: parse_step_def enc_begin_def nth_append Let_def)
qed

lemma word_sizes:
  assumes "op_fits p"
  shows "unat (word_of_nat (length (op_key p)) :: uint32) = length (op_key p)"
    "unat (word_of_nat (length (op_val p)) :: uint32) = length (op_val p)"
    "unat (1 + 8 + word_of_nat (length (op_key p)) + word_of_nat (length (op_val p)) :: uint32)
      = 9 + length (op_key p) + length (op_val p)"
    "unat (1 + 4 + word_of_nat (length (op_key p)) :: uint32) = 5 + length (op_key p)"
proof -
  have lt: "9 + length (op_key p) + length (op_val p) < 2 ^ 32" using assms by (simp add: op_fits_def)
  have c: "unat (word_of_nat n :: uint32) = n" if "n < 2 ^ 32" for n using that by (simp add: unat_of_nat take_bit_eq_mod)
  show "unat (word_of_nat (length (op_key p)) :: uint32) = length (op_key p)"
    "unat (word_of_nat (length (op_val p)) :: uint32) = length (op_val p)" using c lt by simp_all
  have "(1 + 8 + word_of_nat (length (op_key p)) + word_of_nat (length (op_val p)) :: uint32)
      = word_of_nat (9 + length (op_key p) + length (op_val p))" by simp
  then show "unat (1 + 8 + word_of_nat (length (op_key p)) + word_of_nat (length (op_val p)) :: uint32)
      = 9 + length (op_key p) + length (op_val p)" using c[OF lt] by simp
  have "(1 + 4 + word_of_nat (length (op_key p)) :: uint32) = word_of_nat (5 + length (op_key p))" by simp
  then show "unat (1 + 4 + word_of_nat (length (op_key p)) :: uint32) = 5 + length (op_key p)"
    using c[of "5 + length (op_key p)"] lt by simp
qed

lemma take_drop_mid: "n = length a \<Longrightarrow> d = a @ b @ c \<Longrightarrow> take (length b) (drop n d) = b"
  by simp

lemma parse_op:
  assumes "p_pos s = length pre" "in_txn s" "op_fits p"
  shows "parse_step (pre @ enc_op p @ rest) s = Some (s\<lparr>p_cur := (p_cur s)\<lparr>txn_ops := txn_ops (p_cur s) @ [p]\<rparr>,
    p_pos := length pre + length (enc_op p)\<rparr>)"
proof (cases "is_delete p")
  case True
  let ?d = "pre @ enc_op p @ rest"
  have e: "enc_op p = [TAG_DEL] @ put_u32 (word_of_nat (length (op_key p))) @ op_key p"
    using True by (simp add: enc_op_def del_record_def)
  have r: "read_u32 ?d (length pre + 1) = word_of_nat (length (op_key p))"
    by (rule read_put_u32_at[where pre = "pre @ [TAG_DEL]"]) (simp_all add: e)
  have "\<lparr>is_delete = True, op_key = op_key p, op_val = []\<rparr> = p" using True assms(3) by (simp add: op_fits_def)
  moreover have "take (length (op_key p)) (drop (length pre + 5) ?d) = op_key p" by (simp add: e)
  moreover have "?d ! length pre = TAG_DEL" "length pre + 5 \<le> length ?d" "length pre + (5 + length (op_key p)) \<le> length ?d"
    "length (enc_op p) = 5 + length (op_key p)" by (simp_all add: e)
  ultimately show ?thesis unfolding parse_step_def Let_def assms(1) r
    using word_sizes[OF assms(3)] assms(2) by (simp add: tags_distinct)
next
  case False
  let ?d = "pre @ enc_op p @ rest" and ?k = "length (op_key p)" and ?v = "length (op_val p)"
  have e: "enc_op p = [TAG_PUT] @ put_u32 (word_of_nat ?k) @ put_u32 (word_of_nat ?v) @ op_key p @ op_val p"
    using False by (simp add: enc_op_def put_record_def)
  have r: "read_u32 ?d (length pre + 1) = word_of_nat ?k" "read_u32 ?d (length pre + 5) = word_of_nat ?v"
    by (rule read_put_u32_at[where pre = "pre @ [TAG_PUT]"], simp_all add: e,
        rule read_put_u32_at[where pre = "pre @ [TAG_PUT] @ put_u32 (word_of_nat ?k)"], simp_all)
  have "\<lparr>is_delete = False, op_key = op_key p, op_val = op_val p\<rparr> = p" using False by simp
  moreover have "take ?k (drop (length pre + 9) ?d) = op_key p"
    by (rule take_drop_mid[where a = "pre @ [TAG_PUT] @ put_u32 (word_of_nat ?k) @ put_u32 (word_of_nat ?v)"]) (simp_all add: e)
  moreover have "take ?v (drop (length pre + 9 + ?k) ?d) = op_val p"
    by (rule take_drop_mid[where a = "pre @ [TAG_PUT] @ put_u32 (word_of_nat ?k) @ put_u32 (word_of_nat ?v) @ op_key p"])
      (simp_all add: e)
  moreover have "?d ! length pre = TAG_PUT" "length pre + 9 \<le> length ?d" "length pre + (9 + ?k + ?v) \<le> length ?d"
    "length (enc_op p) = 9 + ?k + ?v" by (simp_all add: e)
  ultimately show ?thesis unfolding parse_step_def Let_def assms(1) r
    using word_sizes[OF assms(3)] assms(2) by (simp add: tags_distinct)
qed

lemma enc_op_Cons: "enc_op p \<noteq> []"
  by (simp add: enc_op_def del_record_def put_record_def)

lemma parse_loop_step:
  "p_pos s < length d \<Longrightarrow> parse_step d s = Some s1 \<Longrightarrow> parse_loop d s = parse_loop d s1"
  by (subst parse_loop.simps) simp

lemma parse_loop_stop: "length d \<le> p_pos s \<or> parse_step d s = None \<Longrightarrow> parse_loop d s = Some s"
  by (subst parse_loop.simps) auto

lemma parse_ops:
  assumes "p_pos s = length pre" "in_txn s" "\<forall>p\<in>set ps. op_fits p"
  shows "parse_loop (pre @ enc_ops ps @ rest) s = parse_loop (pre @ enc_ops ps @ rest)
    (s\<lparr>p_cur := (p_cur s)\<lparr>txn_ops := txn_ops (p_cur s) @ ps\<rparr>, p_pos := length pre + length (enc_ops ps)\<rparr>)"
  using assms
proof (induction ps arbitrary: pre s)
  case Nil
  then show ?case by (cases s) (simp add: enc_ops_def)
next
  case (Cons p ps)
  let ?s1 = "s\<lparr>p_cur := (p_cur s)\<lparr>txn_ops := txn_ops (p_cur s) @ [p]\<rparr>, p_pos := length pre + length (enc_op p)\<rparr>"
  have "parse_loop (pre @ enc_ops (p # ps) @ rest) s = parse_loop (pre @ enc_ops (p # ps) @ rest) ?s1"
    using parse_op[of s pre p "enc_ops ps @ rest"] Cons.prems enc_op_Cons[of p]
    by (intro parse_loop_step) (auto simp: enc_ops_def)
  also have "\<dots> = parse_loop ((pre @ enc_op p) @ enc_ops ps @ rest) ?s1" by (simp add: enc_ops_def)
  also have "\<dots> = parse_loop ((pre @ enc_op p) @ enc_ops ps @ rest)
      (?s1\<lparr>p_cur := (p_cur ?s1)\<lparr>txn_ops := txn_ops (p_cur ?s1) @ ps\<rparr>, p_pos := length (pre @ enc_op p) + length (enc_ops ps)\<rparr>)"
    by (rule Cons.IH) (use Cons.prems in auto)
  finally show ?case by (simp add: enc_ops_def add.assoc)
qed

lemma parse_sentinel:
  assumes "p_pos s = length pre" "in_txn s"
  shows "parse_step (pre @ TAG_PREPARE # rest) s = Some (s\<lparr>p_prepared := True, p_pos := length pre + 1\<rparr>)"
    "parse_step (pre @ TAG_COMMIT # rest) s = Some (s\<lparr>p_pos := length pre + 1, in_txn := False, p_prepared := False,
       p_result := p_result s @ (if p_prepared s then [p_cur s] else [])\<rparr>)"
  using assms by (simp_all add: parse_step_def nth_append tag_defs Let_def)

text \<open>The state after the operations of a transaction, and after it is prepared.\<close>

definition in_body :: "wal_txn \<Rightarrow> nat \<Rightarrow> parse_state \<Rightarrow> parse_state" where
  "in_body t pos s = s\<lparr>p_cur := t, p_pos := pos, in_txn := True, p_prepared := False\<rparr>"

definition txn_fits :: "wal_txn \<Rightarrow> bool" where
  "txn_fits t \<longleftrightarrow> (\<forall>p\<in>set (txn_ops t). op_fits p)"

lemma length_enc_begin [simp]: "length (enc_begin t) = 5"
  by (simp add: enc_begin_def)

lemma parse_body:
  assumes "p_pos s = length pre" "txn_fits t"
  shows "parse_loop (pre @ enc_begin (txn_id t) @ enc_ops (txn_ops t) @ rest) s
    = parse_loop (pre @ enc_begin (txn_id t) @ enc_ops (txn_ops t) @ rest)
        (in_body t (length pre + 5 + length (enc_ops (txn_ops t))) s)"
proof -
  let ?s1 = "s\<lparr>p_cur := \<lparr>txn_id = txn_id t, txn_ops = []\<rparr>, p_pos := length pre + 5, in_txn := True, p_prepared := False\<rparr>"
  let ?d = "pre @ enc_begin (txn_id t) @ enc_ops (txn_ops t) @ rest"
  have "parse_loop ?d s = parse_loop ?d ?s1"
    using parse_begin[OF assms(1)] assms(1) by (intro parse_loop_step) auto
  also have "\<dots> = parse_loop ((pre @ enc_begin (txn_id t)) @ enc_ops (txn_ops t) @ rest) ?s1" by simp
  also have "\<dots> = parse_loop ((pre @ enc_begin (txn_id t)) @ enc_ops (txn_ops t) @ rest)
      (?s1\<lparr>p_cur := (p_cur ?s1)\<lparr>txn_ops := txn_ops (p_cur ?s1) @ txn_ops t\<rparr>,
           p_pos := length (pre @ enc_begin (txn_id t)) + length (enc_ops (txn_ops t))\<rparr>)"
    by (rule parse_ops) (use assms(2) in \<open>auto simp: txn_fits_def\<close>)
  finally show ?thesis by (cases s, cases t) (simp add: in_body_def)
qed

lemma parse_txn:
  assumes "p_pos s = length pre" "txn_fits t"
  shows "parse_loop (pre @ enc_txn t @ rest) s = parse_loop (pre @ enc_txn t @ rest)
    (s\<lparr>p_cur := t, p_pos := length (pre @ enc_txn t), in_txn := False, p_prepared := False, p_result := p_result s @ [t]\<rparr>)"
proof -
  let ?b = "pre @ enc_begin (txn_id t) @ enc_ops (txn_ops t)" and ?d = "pre @ enc_txn t @ rest"
  let ?s1 = "in_body t (length ?b) s"
  let ?s2 = "?s1\<lparr>p_prepared := True, p_pos := length ?b + 1\<rparr>"
  have "parse_loop ?d s = parse_loop ?d ?s1"
    using parse_body[OF assms, of "TAG_PREPARE # TAG_COMMIT # rest"] by (simp add: enc_txn_def add.assoc)
  also have "\<dots> = parse_loop ?d ?s2"
    using parse_sentinel(1)[of ?s1 ?b "TAG_COMMIT # rest"] by (intro parse_loop_step) (auto simp: in_body_def enc_txn_def)
  also have "\<dots> = parse_loop ?d (?s2\<lparr>p_pos := length (?b @ [TAG_PREPARE]) + 1, in_txn := False, p_prepared := False,
       p_result := p_result ?s2 @ (if p_prepared ?s2 then [p_cur ?s2] else [])\<rparr>)"
    using parse_sentinel(2)[of ?s2 "?b @ [TAG_PREPARE]" rest] by (intro parse_loop_step) (auto simp: in_body_def enc_txn_def)
  finally show ?thesis by (simp add: in_body_def enc_txn_def add.assoc add.commute add.left_commute)
qed

definition enc_log :: "wal_txn list \<Rightarrow> bytes" where
  "enc_log ts = WAL_MAGIC @ concat (map enc_txn ts)"

lemma parse_log:
  assumes "\<forall>t\<in>set ts. txn_fits t" "p_pos s = length pre" "\<not> in_txn s" "\<not> p_prepared s"
  shows "\<exists>c. parse_loop (pre @ concat (map enc_txn ts) @ rest) s = parse_loop (pre @ concat (map enc_txn ts) @ rest)
    (s\<lparr>p_cur := c, p_pos := length (pre @ concat (map enc_txn ts)), p_result := p_result s @ ts\<rparr>)"
  using assms
proof (induction ts arbitrary: pre s)
  case Nil
  then show ?case by (intro exI[of _ "p_cur s"]) (cases s, simp)
next
  case (Cons t ts)
  let ?s1 = "s\<lparr>p_cur := t, p_pos := length (pre @ enc_txn t), in_txn := False, p_prepared := False, p_result := p_result s @ [t]\<rparr>"
  let ?r = "concat (map enc_txn ts) @ rest"
  have "parse_loop (pre @ enc_txn t @ ?r) s = parse_loop (pre @ enc_txn t @ ?r) ?s1"
    using parse_txn[of s pre t ?r] Cons.prems by simp
  moreover obtain c where "parse_loop ((pre @ enc_txn t) @ ?r) ?s1 = parse_loop ((pre @ enc_txn t) @ ?r)
      (?s1\<lparr>p_cur := c, p_pos := length ((pre @ enc_txn t) @ concat (map enc_txn ts)), p_result := p_result ?s1 @ ts\<rparr>)"
    using Cons.IH[of ?s1 "pre @ enc_txn t"] Cons.prems(1) by auto
  ultimately show ?case using Cons.prems(3,4) by (intro exI[of _ c]) (cases s, simp)
qed

section \<open>Cut records\<close>

lemma take_append_ge: "length xs \<le> j \<Longrightarrow> take j (xs @ ys) = xs @ take (j - length xs) ys"
  by simp

lemma parse_cut_op:
  assumes "p_pos s = length pre" "op_fits p" "j < length (enc_op p)"
  shows "parse_loop (pre @ take j (enc_op p)) s = Some s"
proof (cases "j = 0")
  case False
  let ?d = "pre @ take j (enc_op p)" and ?k = "length (op_key p)" and ?v = "length (op_val p)"
  have n: "length ?d = length pre + j" using assms(3) by simp
  have "parse_step ?d s = None"
  proof (cases "is_delete p")
    case True
    have e: "enc_op p = ([TAG_DEL] @ put_u32 (word_of_nat ?k)) @ op_key p"
      using True by (simp add: enc_op_def del_record_def)
    have tag: "?d ! length pre = TAG_DEL" using False by (simp add: e nth_append)
    have "read_u32 ?d (length pre + 1) = word_of_nat ?k" if "5 \<le> j"
      by (rule read_put_u32_at[where pre = "pre @ [TAG_DEL]" and rest = "take (j - 5) (op_key p)"])
        (use that take_append_ge[of "[TAG_DEL] @ put_u32 (word_of_nat ?k)" j "op_key p"] in \<open>simp_all add: e\<close>)
    moreover have "j < 5 + ?k" using assms(3) by (simp add: e)
    ultimately show ?thesis using tag n word_sizes(1)[OF assms(2)] assms(1) False
      by (cases "5 \<le> j") (simp_all add: parse_step_def tags_distinct Let_def)
  next
    case put: False
    have e: "enc_op p = ([TAG_PUT] @ put_u32 (word_of_nat ?k) @ put_u32 (word_of_nat ?v)) @ op_key p @ op_val p"
      using put by (simp add: enc_op_def put_record_def)
    have tag: "?d ! length pre = TAG_PUT" using False by (simp add: e nth_append)
    have r: "read_u32 ?d (length pre + 1) = word_of_nat ?k \<and> read_u32 ?d (length pre + 5) = word_of_nat ?v" if "9 \<le> j"
    proof -
      have d: "?d = pre @ ([TAG_PUT] @ put_u32 (word_of_nat ?k) @ put_u32 (word_of_nat ?v)) @ take (j - 9) (op_key p @ op_val p)"
        using that take_append_ge[of "[TAG_PUT] @ put_u32 (word_of_nat ?k) @ put_u32 (word_of_nat ?v)" j "op_key p @ op_val p"]
        by (simp add: e)
      show ?thesis unfolding d
        by (intro conjI read_put_u32_at[where pre = "pre @ [TAG_PUT]"]
            read_put_u32_at[where pre = "pre @ [TAG_PUT] @ put_u32 (word_of_nat ?k)"]) simp_all
    qed
    have "j < 9 + ?k + ?v" using assms(3) by (simp add: e)
    then show ?thesis using tag n word_sizes(1,2)[OF assms(2)] assms(1) False r
      by (cases "9 \<le> j") (simp_all add: parse_step_def tags_distinct Let_def)
  qed
  then show ?thesis by (intro parse_loop_stop) simp
qed (use assms(1) in \<open>auto intro: parse_loop_stop\<close>)

definition same_txn :: "parse_state \<Rightarrow> parse_state \<Rightarrow> bool" where
  "same_txn s s' \<longleftrightarrow> in_txn s' = in_txn s \<and> p_prepared s' = p_prepared s \<and> p_result s' = p_result s"

lemma parse_cut_ops:
  assumes "p_pos s = length pre" "in_txn s" "\<forall>p\<in>set ps. op_fits p"
  shows "\<exists>s'. parse_loop (pre @ take k (enc_ops ps)) s = Some s' \<and> same_txn s s'"
  using assms
proof (induction ps arbitrary: pre s k)
  case Nil
  then show ?case by (auto simp: enc_ops_def same_txn_def intro!: parse_loop_stop exI)
next
  case (Cons p ps)
  show ?case
  proof (cases "k < length (enc_op p)")
    case True
    then have "take k (enc_ops (p # ps)) = take k (enc_op p)" by (simp add: enc_ops_def)
    then show ?thesis using parse_cut_op[OF Cons.prems(1) _ True] Cons.prems(3) by (simp add: same_txn_def)
  next
    case False
    let ?k = "k - length (enc_op p)"
    let ?s1 = "s\<lparr>p_cur := (p_cur s)\<lparr>txn_ops := txn_ops (p_cur s) @ [p]\<rparr>, p_pos := length (pre @ enc_op p)\<rparr>"
    have tk: "pre @ take k (enc_ops (p # ps)) = pre @ enc_op p @ take ?k (enc_ops ps)" using False by (simp add: enc_ops_def)
    have "parse_loop (pre @ enc_op p @ take ?k (enc_ops ps)) s = parse_loop (pre @ enc_op p @ take ?k (enc_ops ps)) ?s1"
      using parse_op[of s pre p "take ?k (enc_ops ps)"] Cons.prems enc_op_Cons[of p] by (intro parse_loop_step) auto
    moreover obtain s' where "parse_loop ((pre @ enc_op p) @ take ?k (enc_ops ps)) ?s1 = Some s'" "same_txn ?s1 s'"
      using Cons.IH[of ?s1 "pre @ enc_op p" ?k] Cons.prems(2,3) by auto
    ultimately show ?thesis unfolding tk by (auto simp: same_txn_def)
  qed
qed

lemma parse_cut_begin:
  assumes "p_pos s = length pre" "j < 5"
  shows "parse_loop (pre @ take j (enc_begin t)) s = Some s"
proof (cases "j = 0")
  case False
  then have "(pre @ take j (enc_begin t)) ! length pre = TAG_BEGIN" by (simp add: enc_begin_def nth_append)
  then have "parse_step (pre @ take j (enc_begin t)) s = None" using assms by (simp add: parse_step_def Let_def)
  then show ?thesis by (intro parse_loop_stop) simp
qed (use assms(1) in \<open>auto intro: parse_loop_stop\<close>)

lemma parse_cut_txn:
  assumes "p_pos s = length pre" "txn_fits t" "\<not> in_txn s" "k < length (enc_txn t)"
  shows "\<exists>s'. parse_loop (pre @ take k (enc_txn t)) s = Some s' \<and> p_result s' = p_result s
    \<and> (in_txn s' \<and> p_prepared s' \<longleftrightarrow> Suc k = length (enc_txn t)) \<and> (in_txn s' \<and> p_prepared s' \<longrightarrow> p_cur s' = t)"
proof -
  let ?ops = "enc_ops (txn_ops t)" and ?b = "enc_begin (txn_id t)"
  have len: "length (enc_txn t) = 7 + length ?ops" by (simp add: enc_txn_def)
  consider "k < 5" | "5 \<le> k" "k \<le> 5 + length ?ops" | "k = 6 + length ?ops" using assms(4) len by linarith
  then show ?thesis
  proof cases
    case 1
    then have "take k (enc_txn t) = take k ?b" by (simp add: enc_txn_def)
    then show ?thesis using parse_cut_begin[OF assms(1) 1, of "txn_id t"] assms(3) 1 len by auto
  next
    case 2
    let ?s1 = "s\<lparr>p_cur := \<lparr>txn_id = txn_id t, txn_ops = []\<rparr>, p_pos := length pre + 5, in_txn := True, p_prepared := False\<rparr>"
    have tk: "take k (enc_txn t) = ?b @ take (k - 5) ?ops" using 2 by (simp add: enc_txn_def)
    have "parse_loop (pre @ ?b @ take (k - 5) ?ops) s = parse_loop (pre @ ?b @ take (k - 5) ?ops) ?s1"
      using parse_begin[OF assms(1)] assms(1) by (intro parse_loop_step) auto
    moreover obtain s' where "parse_loop ((pre @ ?b) @ take (k - 5) ?ops) ?s1 = Some s'" "same_txn ?s1 s'"
      using parse_cut_ops[of ?s1 "pre @ ?b" "txn_ops t" "k - 5"] assms(2) by (auto simp: txn_fits_def)
    ultimately show ?thesis unfolding tk using 2 len by (auto simp: same_txn_def)
  next
    case 3
    let ?p = "pre @ ?b @ ?ops"
    let ?s1 = "in_body t (length ?p) s"
    have tk: "take k (enc_txn t) = ?b @ ?ops @ [TAG_PREPARE]" using 3 by (simp add: enc_txn_def)
    have "parse_loop (pre @ ?b @ ?ops @ [TAG_PREPARE]) s = parse_loop (?p @ [TAG_PREPARE]) ?s1"
      using parse_body[OF assms(1,2), of "[TAG_PREPARE]"] by (simp add: add.assoc)
    also have "\<dots> = parse_loop (?p @ [TAG_PREPARE]) (?s1\<lparr>p_prepared := True, p_pos := length ?p + 1\<rparr>)"
      using parse_sentinel(1)[of ?s1 ?p "[]"] by (intro parse_loop_step) (auto simp: in_body_def)
    also have "\<dots> = Some (?s1\<lparr>p_prepared := True, p_pos := length ?p + 1\<rparr>)" by (intro parse_loop_stop) simp
    finally show ?thesis unfolding tk using 3 len by (auto simp: in_body_def)
  qed
qed

section \<open>Reading a log back\<close>

definition log_state :: "wal_txn list \<Rightarrow> parse_state" where
  "log_state ts = \<lparr>p_pos = WAL_HEADER_SIZE, in_txn = False, p_prepared = False, p_cur = empty_txn, p_result = ts\<rparr>"

definition parse_answer :: "wal_txn \<Rightarrow> parse_state \<Rightarrow> wal_txn list \<times> wal_txn" where
  "parse_answer dang s = (p_result s, if in_txn s \<and> p_prepared s then p_cur s else dang)"

lemma wal_parse_log:
  assumes "\<forall>t\<in>set ts. txn_fits t"
  obtains c where "wal_parse (Some (enc_log ts @ rest)) acc = map_option (parse_answer (snd acc))
    (parse_loop (enc_log ts @ rest) (log_state (fst acc @ ts)\<lparr>p_cur := c, p_pos := length (enc_log ts)\<rparr>))"
proof -
  have h: "WAL_HEADER_SIZE = length WAL_MAGIC" by (simp add: WAL_HEADER_SIZE_def)
  have p: "wal_parse (Some (enc_log ts @ rest)) acc
      = map_option (parse_answer (snd acc)) (parse_loop (enc_log ts @ rest) (log_state (fst acc)))"
    by (simp add: wal_parse_def enc_log_def h log_state_def parse_answer_def[abs_def])
  obtain c where "parse_loop (enc_log ts @ rest) (log_state (fst acc)) = parse_loop (enc_log ts @ rest)
      (log_state (fst acc)\<lparr>p_cur := c, p_pos := length (enc_log ts), p_result := fst acc @ ts\<rparr>)"
    using parse_log[OF assms, of "log_state (fst acc)" WAL_MAGIC rest]
    by (auto simp: log_state_def h enc_log_def)
  then show thesis using that[of c] p by (simp add: log_state_def)
qed

lemma parse_whole:
  assumes "\<forall>t\<in>set ts. txn_fits t"
  shows "wal_parse (Some (enc_log ts)) acc = Some (fst acc @ ts, snd acc)"
proof -
  obtain c where "wal_parse (Some (enc_log ts @ [])) acc = map_option (parse_answer (snd acc))
      (parse_loop (enc_log ts @ []) (log_state (fst acc @ ts)\<lparr>p_cur := c, p_pos := length (enc_log ts)\<rparr>))"
    using wal_parse_log[OF assms] .
  then show ?thesis by (simp add: parse_loop_stop parse_answer_def log_state_def)
qed

lemma parse_torn:
  assumes "\<forall>t\<in>set ts. txn_fits t" "txn_fits t" "k < length (enc_txn t)"
  shows "wal_parse (Some (enc_log ts @ take k (enc_txn t))) acc
    = Some (fst acc @ ts, if Suc k = length (enc_txn t) then t else snd acc)"
proof -
  obtain c where p: "wal_parse (Some (enc_log ts @ take k (enc_txn t))) acc = map_option (parse_answer (snd acc))
      (parse_loop (enc_log ts @ take k (enc_txn t)) (log_state (fst acc @ ts)\<lparr>p_cur := c, p_pos := length (enc_log ts)\<rparr>))"
    (is "_ = map_option _ (parse_loop _ ?s)") using wal_parse_log[OF assms(1)] .
  have "p_pos ?s = length (enc_log ts)" "\<not> in_txn ?s" by (simp_all add: log_state_def)
  from parse_cut_txn[OF this(1) assms(2) this(2) assms(3)] show ?thesis
    unfolding p by (auto simp: parse_answer_def log_state_def)
qed

text \<open>C26. What the writer encodes, recovery reads back: parsing a log file made of complete
  transactions returns exactly these transactions, operation by operation and in their order,
  after the ones already collected, and reports no dangling transaction of its own.\<close>

theorem wal_roundtrip:
  assumes "\<forall>t\<in>set ts. txn_fits t"
  shows "wal_parse (Some (enc_log ts)) acc = Some (fst acc @ ts, snd acc)"
  using assms by (rule parse_whole)

definition ex_txn :: wal_txn where
  "ex_txn = \<lparr>txn_id = 7, txn_ops = [\<lparr>is_delete = False, op_key = [1, 2], op_val = [9]\<rparr>,
     \<lparr>is_delete = True, op_key = [5], op_val = []\<rparr>]\<rparr>"

lemma ex_txn_fits: "txn_fits ex_txn"
  by (simp add: txn_fits_def op_fits_def ex_txn_def)

theorem wal_roundtrip_witness:
  "wal_parse (Some (enc_log [ex_txn, ex_txn])) ([], empty_txn) = Some ([ex_txn, ex_txn], empty_txn)"
  using wal_roundtrip[of "[ex_txn, ex_txn]" "([], empty_txn)"] ex_txn_fits by simp

text \<open>C27. A torn tail is harmless: a log followed by an incomplete transaction, cut at any byte, is
  read as the complete transactions alone; the incomplete one is reported, in full, as the dangling
  transaction exactly when only its \<open>COMMIT\<close> tag is missing.\<close>

theorem wal_torn_tail:
  assumes "\<forall>t\<in>set ts. txn_fits t" "txn_fits t" "k < length (enc_txn t)"
  shows "wal_parse (Some (enc_log ts @ take k (enc_txn t))) acc
    = Some (fst acc @ ts, if Suc k = length (enc_txn t) then t else snd acc)"
  using assms by (rule parse_torn)

lemma length_ex_txn: "length (enc_txn ex_txn) = 25"
  by (simp add: enc_txn_def enc_ops_def enc_op_def ex_txn_def put_record_def del_record_def)

theorem wal_torn_tail_witness:
  "wal_parse (Some (enc_log [ex_txn] @ take 24 (enc_txn ex_txn))) ([], empty_txn) = Some ([ex_txn], ex_txn)"
  using wal_torn_tail[of "[ex_txn]" ex_txn 24 "([], empty_txn)"] ex_txn_fits length_ex_txn by simp

section \<open>Termination of the parser\<close>

lemma unat_sum3:
  fixes a b c :: uint32
  assumes "unat a + unat b + unat c < 2 ^ 32"
  shows "unat (a + b + c) = unat a + unat b + unat c"
proof -
  have "unat (a + b) = unat a + unat b" using assms by (simp add: unat_word_ariths)
  then show ?thesis using assms by (simp add: unat_word_ariths)
qed

lemma parse_step_progress:
  assumes "parse_step d s = Some s1" "length d < 2 ^ 32"
  shows "p_pos s < p_pos s1"
proof -
  have put: "unat (1 + 8 + k + v :: uint32) = 9 + unat k + unat v"
    if "p_pos s + (9 + unat k + unat v) \<le> length d" for k v :: uint32
    using unat_sum3[of "1 + 8" k v] that assms(2) by simp
  have del: "unat (1 + 4 + k :: uint32) = 5 + unat k" if "p_pos s + (5 + unat k) \<le> length d" for k :: uint32
    using unat_sum3[of "1 + 4" k 0] that assms(2) by simp
  show ?thesis using assms(1) put del
    by (auto simp: parse_step_def Let_def split: if_splits)
qed

lemma parse_loop_returns:
  assumes "length d < 2 ^ 32"
  shows "\<exists>s'. parse_loop d s = Some s'"
proof (induction "length d - p_pos s" arbitrary: s rule: less_induct)
  case less
  show ?case
  proof (cases "p_pos s < length d \<and> parse_step d s \<noteq> None")
    case True
    then obtain s1 where s1: "parse_step d s = Some s1" by auto
    have "length d - p_pos s1 < length d - p_pos s" using parse_step_progress[OF s1 assms] True by linarith
    from less[OF this] show ?thesis using parse_loop_step[OF _ s1] True by simp
  next
    case False then show ?thesis using parse_loop_stop[of d s] by auto
  qed
qed

text \<open>C28. Recovery always ends: whatever the bytes of a log file of less than 4 GiB are, complete,
  truncated or corrupt, \<open>wal_parse\<close> returns. (The bound is needed: the parser advances by a sum it
  computes in 32 bits, which a record of 4 GiB or more can bring back to zero.)\<close>

theorem wal_parse_terminates:
  assumes "length d < 2 ^ 32"
  shows "\<exists>res. wal_parse (Some d) acc = Some res"
  using parse_loop_returns[OF assms] by (fastforce simp: wal_parse_def)

theorem wal_parse_terminates_witness:
  "\<exists>res. wal_parse (Some (WAL_MAGIC @ [2, 2, 2])) ([], empty_txn) = Some res"
  by (rule wal_parse_terminates) (simp add: WAL_MAGIC_def)

section \<open>A transaction and the failures of the file system\<close>

definition run_op :: "wal_op \<Rightarrow> wal \<Rightarrow> wal" where
  "run_op p = (if is_delete p then wal_del (op_key p) else wal_put (op_key p) (op_val p))"

text \<open>A transaction from its start to \<open>commit\<close>, which is called only when \<open>prepare\<close> did not throw.\<close>

definition log_txn :: "io \<Rightarrow> bool \<Rightarrow> io \<Rightarrow> wal_txn \<Rightarrow> wal \<Rightarrow> wal_error option \<times> wal" where
  "log_txn io1 skip_sync io2 t w =
     (case wal_prepare io1 skip_sync (fold run_op (txn_ops t) (wal_begin (txn_id t) w)) of
        (Some e, w) \<Rightarrow> (Some e, w)
      | (None, w) \<Rightarrow> wal_commit io2 w)"

lemma run_op_fields [simp]:
  "wal_buf (run_op p w) = wal_buf w @ enc_op p" "has_records (run_op p w)"
  "wal_files (run_op p w) = wal_files w" "write_off (run_op p w) = write_off w"
  "active_log (run_op p w) = active_log w" "next_log (run_op p w) = next_log w"
  "wal_prepared (run_op p w) = wal_prepared w" "last_commit (run_op p w) = last_commit w"
  by (simp_all add: run_op_def wal_put_def wal_del_def enc_op_def)

lemma run_ops_fields [simp]:
  "wal_buf (fold run_op ps w) = wal_buf w @ enc_ops ps"
  "has_records (fold run_op ps w) = (has_records w \<or> ps \<noteq> [])"
  "wal_files (fold run_op ps w) = wal_files w" "write_off (fold run_op ps w) = write_off w"
  "active_log (fold run_op ps w) = active_log w" "wal_prepared (fold run_op ps w) = wal_prepared w"
  by (induction ps arbitrary: w) (auto simp: enc_ops_def)

lemma begin_fields [simp]:
  "wal_buf (wal_begin t w) = enc_begin t" "\<not> has_records (wal_begin t w)" "\<not> wal_prepared (wal_begin t w)"
  "wal_files (wal_begin t w) = wal_files w" "write_off (wal_begin t w) = write_off w"
  "active_log (wal_begin t w) = next_log w"
  by (simp_all add: wal_begin_def enc_begin_def)

lemma pwrite_end: "pwrite (length f) bs f = f @ bs"
  by (simp add: pwrite_def)

definition enc_prep :: "wal_txn \<Rightarrow> bytes" where
  "enc_prep t = enc_begin (txn_id t) @ enc_ops (txn_ops t) @ [TAG_PREPARE]"

lemma enc_txn_prep: "enc_txn t = enc_prep t @ [TAG_COMMIT]"
  by (simp add: enc_txn_def enc_prep_def)

definition at_end :: "wal \<Rightarrow> bool \<Rightarrow> bytes \<Rightarrow> bool" where
  "at_end w i f \<longleftrightarrow> wal_files w i = f \<and> write_off w i = length f"

text \<open>What an append leaves: the bytes that arrived, and the moved offset if the write was complete.\<close>

lemma append_active_effect:
  assumes "at_end w (active_log w) f" "append_active io sk bs w = (e, w')"
  shows "wal_files w' = (wal_files w)(active_log w := f @ arrived io bs)"
    "e = None \<or> written io = None \<Longrightarrow> at_end w' (active_log w) (f @ bs)"
    "e = None \<longleftrightarrow> written io = None \<and> (sk \<or> sync_ok io)"
    "active_log w' = active_log w" "has_records w' = has_records w" "write_off w' (\<not> active_log w) = write_off w (\<not> active_log w)"
    "wal_buf w' = wal_buf w"
  using assms by (auto simp: append_active_def at_end_def pwrite_end put_file_def set_off_def Let_def arrived_def
      split: if_splits option.splits)

lemma prepare_effect:
  assumes "at_end w (active_log w) f" "\<not> wal_prepared w" "has_records w" "wal_prepare io sk w = (e, w')"
  shows "wal_files w' = (wal_files w)(active_log w := f @ arrived io (wal_buf w @ [TAG_PREPARE]))"
    "e = None \<Longrightarrow> at_end w' (active_log w) (f @ wal_buf w @ [TAG_PREPARE])"
    "e = None \<Longrightarrow> written io = None"
    "active_log w' = active_log w" "has_records w'" "write_off w' (\<not> active_log w) = write_off w (\<not> active_log w)"
proof -
  let ?w = "w\<lparr>wal_buf := wal_buf w @ [TAG_PREPARE]\<rparr>"
  obtain e1 w1 where a: "append_active io sk (wal_buf ?w) ?w = (e1, w1)" by fastforce
  have r: "e = e1" "wal_files w' = wal_files w1" "write_off w' = write_off w1" "active_log w' = active_log w1"
    "has_records w' = has_records w1"
    using assms(2-4) a by (auto simp: wal_prepare_def Let_def split: option.splits)
  have "at_end ?w (active_log ?w) f" using assms(1) by (simp add: at_end_def)
  from append_active_effect[OF this a] show
    "wal_files w' = (wal_files w)(active_log w := f @ arrived io (wal_buf w @ [TAG_PREPARE]))"
    "e = None \<Longrightarrow> at_end w' (active_log w) (f @ wal_buf w @ [TAG_PREPARE])"
    "e = None \<Longrightarrow> written io = None"
    "active_log w' = active_log w" "has_records w'" "write_off w' (\<not> active_log w) = write_off w (\<not> active_log w)"
    using r assms(3) by (auto simp: at_end_def)
qed

lemma arrived_take: "\<exists>k \<le> length bs. arrived io bs = take k bs"
  unfolding arrived_def
  by (cases "written io") (auto intro: exI[of _ "length bs"], metis min.cobounded1 take_all_iff nle_le take_all)

lemma log_txn_file:
  assumes f: "at_end w (next_log w) f" and ops: "txn_ops t \<noteq> []" and run: "log_txn io1 sk io2 t w = (e, w')"
  shows "\<exists>k \<le> length (enc_txn t). wal_files w' = (wal_files w)(next_log w := f @ take k (enc_txn t))
    \<and> (e = None \<longrightarrow> k = length (enc_txn t) \<and> at_end w' (next_log w) (f @ enc_txn t))"
proof -
  let ?i = "next_log w" and ?w1 = "fold run_op (txn_ops t) (wal_begin (txn_id t) w)"
  have buf: "wal_buf ?w1 @ [TAG_PREPARE] = enc_prep t" by (simp add: enc_prep_def)
  obtain e2 w2 where p: "wal_prepare io1 sk ?w1 = (e2, w2)" by fastforce
  have "at_end ?w1 (active_log ?w1) f" using f by (simp add: at_end_def)
  note pe = prepare_effect[OF this _ _ p, unfolded buf]
  show ?thesis
  proof (cases e2)
    case (Some err)
    obtain k where "k \<le> length (enc_prep t)" "arrived io1 (enc_prep t) = take k (enc_prep t)"
      using arrived_take by blast
    then show ?thesis using run p Some pe(1) ops by (intro exI[of _ k]) (auto simp: log_txn_def enc_txn_prep)
  next
    case None
    then have c: "wal_commit io2 w2 = (e, w')" using run p by (simp add: log_txn_def)
    have w2: "at_end w2 ?i (f @ enc_prep t)" "active_log w2 = ?i" "has_records w2"
      using pe(2,4,5) None ops buf by auto
    then have a: "append_active io2 False [TAG_COMMIT] w2 = (e, w')" using c by (simp add: wal_commit_def)
    have "at_end w2 (active_log w2) (f @ enc_prep t)" using w2 by simp
    note ae = append_active_effect[OF this a]
    obtain k where k: "k \<le> 1" "arrived io2 [TAG_COMMIT] = take k [TAG_COMMIT]" "written io2 = None \<longrightarrow> k = 1"
    proof (cases "written io2")
      case None then show thesis using that[of 1] by (simp add: arrived_def)
    next
      case (Some n) then show thesis using that[of "min n 1"] by (cases n) (auto simp: arrived_def)
    qed
    have "wal_files w2 = (wal_files w)(?i := f @ enc_prep t)"
      using pe(1,3) None ops by (simp add: arrived_def)
    then have "wal_files w' = (wal_files w)(?i := f @ take (length (enc_prep t) + k) (enc_txn t))"
      using ae(1) w2(2) k(1,2) by (simp add: enc_txn_prep)
    moreover have "at_end w' ?i (f @ enc_txn t)" if "e = None"
      using ae(2) that w2(2) by (simp add: enc_txn_prep)
    ultimately show ?thesis using k ae(3)
      by (intro exI[of _ "length (enc_prep t) + k"]) (auto simp: enc_txn_prep)
  qed
qed

text \<open>C8. Logging a transaction is atomic whatever the file system does. A log holding complete
  transactions, after a further transaction ran through \<open>begin\<close>, its operations, \<open>prepare\<close> and
  \<open>commit\<close> with any mixture of partial writes and failing syncs, is read by recovery as the old
  transactions, or these and the new one; the new one is never seen in part. If no error was
  thrown it is there; the other log file is untouched in every case.\<close>

theorem wal_crash_atomic:
  assumes "at_end w (next_log w) (enc_log ts)" "\<forall>u\<in>set ts. txn_fits u" "txn_fits t" "txn_ops t \<noteq> []"
    and run: "log_txn io1 sk io2 t w = (e, w')"
  shows "wal_files w' (\<not> next_log w) = wal_files w (\<not> next_log w)
    \<and> (\<exists>res. wal_parse (Some (wal_files w' (next_log w))) acc = Some res
        \<and> res \<in> {(fst acc @ ts, snd acc), (fst acc @ ts, t), (fst acc @ ts @ [t], snd acc)}
        \<and> (e = None \<longrightarrow> res = (fst acc @ ts @ [t], snd acc)))"
proof -
  obtain k where k: "k \<le> length (enc_txn t)" "wal_files w' = (wal_files w)(next_log w := enc_log ts @ take k (enc_txn t))"
    "e = None \<longrightarrow> k = length (enc_txn t)" using log_txn_file[OF assms(1,4) run] by blast
  show ?thesis
  proof (cases "k = length (enc_txn t)")
    case True
    then have "wal_files w' (next_log w) = enc_log (ts @ [t])" using k(2) by (simp add: enc_log_def)
    then show ?thesis using k(2) parse_whole[of "ts @ [t]" acc] assms(2,3) by auto
  next
    case False
    then show ?thesis using k parse_torn[OF assms(2,3), of k acc] by auto
  qed
qed

definition fresh_wal :: wal where
  "fresh_wal = \<lparr>wal_files = (\<lambda>_. WAL_MAGIC), write_off = (\<lambda>_. 8), next_log = False, active_log = False,
     last_commit = (\<lambda>_. 0), wal_is_open = True, wal_buf = [], has_records = False, wal_prepared = False\<rparr>"

theorem wal_crash_atomic_witness:
  "wal_files (snd (log_txn io_good False io_good ex_txn fresh_wal)) True = WAL_MAGIC
   \<and> wal_parse (Some (wal_files (snd (log_txn io_good False io_good ex_txn fresh_wal)) False)) ([], empty_txn)
      = Some ([ex_txn], empty_txn)"
proof -
  let ?r = "log_txn io_good False io_good ex_txn fresh_wal"
  have r: "?r = (None, snd ?r)"
    by (simp add: log_txn_def wal_prepare_def wal_commit_def append_active_def io_good_def ex_txn_def fresh_wal_def
        wal_begin_def run_op_def wal_put_def wal_del_def Let_def put_file_def set_off_def)
  have "at_end fresh_wal (next_log fresh_wal) (enc_log [])" "txn_ops ex_txn \<noteq> []"
    by (simp_all add: at_end_def fresh_wal_def enc_log_def WAL_MAGIC_def ex_txn_def)
  from wal_crash_atomic[OF this(1) _ ex_txn_fits this(2) r, of "([], empty_txn)"] show ?thesis
    by (simp add: fresh_wal_def)
qed

text \<open>
  The condition that the file ends at the write offset matters. After a failed \<open>prepare\<close> the bytes
  that arrived stay behind the offset; a later, shorter transaction overwrites only their beginning,
  and the rest is read as records. Here the value of a failed transaction contains the image of a
  transaction that deletes a key, and recovery replays that deletion, which nobody made.
\<close>

definition long_txn :: wal_txn where
  "long_txn = \<lparr>txn_id = 1, txn_ops = [\<lparr>is_delete = False, op_key = [7],
     op_val = [0, 0] @ enc_txn \<lparr>txn_id = 9, txn_ops = [\<lparr>is_delete = True, op_key = [3], op_val = []\<rparr>]\<rparr>\<rparr>]\<rparr>"

definition short_txn :: wal_txn where
  "short_txn = \<lparr>txn_id = 2, txn_ops = [\<lparr>is_delete = False, op_key = [8], op_val = []\<rparr>]\<rparr>"

definition no_space :: io where
  "no_space = \<lparr>resize_ok = True, written = Some 30, sync_ok = True\<rparr>"

lemma stale_tail_replayed:
  "wal_parse (Some (wal_files (snd (log_txn io_good False io_good short_txn (wal_abort
      (snd (log_txn no_space False io_good long_txn fresh_wal))))) False)) ([], empty_txn)
    = Some ([short_txn, \<lparr>txn_id = 9, txn_ops = [\<lparr>is_delete = True, op_key = [3], op_val = []\<rparr>]\<rparr>], empty_txn)"
  by code_simp

section \<open>The two files as lists of transactions\<close>

text \<open>
  A file is a list of blocks: prepared transactions, with the mark whether they were committed.
  An aborted transaction that had been prepared stays in the file as an uncommitted block.
\<close>

type_synonym block = "wal_txn \<times> bool"

definition enc_block :: "block \<Rightarrow> bytes" where
  "enc_block b = enc_prep (fst b) @ (if snd b then [TAG_COMMIT] else [])"

definition enc_blocks :: "block list \<Rightarrow> bytes" where
  "enc_blocks bs = WAL_MAGIC @ concat (map enc_block bs)"

definition committed :: "block list \<Rightarrow> wal_txn list" where
  "committed bs = map fst (filter snd bs)"

definition dangling_txn :: "wal_txn \<Rightarrow> block list \<Rightarrow> wal_txn" where
  "dangling_txn d bs = (if bs \<noteq> [] \<and> \<not> snd (last bs) then fst (last bs) else d)"

lemma parse_prep:
  assumes "p_pos s = length pre" "txn_fits t"
  shows "parse_loop (pre @ enc_prep t @ rest) s = parse_loop (pre @ enc_prep t @ rest)
    (s\<lparr>p_cur := t, p_pos := length (pre @ enc_prep t), in_txn := True, p_prepared := True\<rparr>)"
proof -
  let ?b = "pre @ enc_begin (txn_id t) @ enc_ops (txn_ops t)" and ?d = "pre @ enc_prep t @ rest"
  let ?s1 = "in_body t (length ?b) s"
  have "parse_loop ?d s = parse_loop ?d ?s1"
    using parse_body[OF assms, of "TAG_PREPARE # rest"] by (simp add: enc_prep_def add.assoc)
  also have "\<dots> = parse_loop ?d (?s1\<lparr>p_prepared := True, p_pos := length ?b + 1\<rparr>)"
    using parse_sentinel(1)[of ?s1 ?b rest] by (intro parse_loop_step) (auto simp: in_body_def enc_prep_def)
  finally show ?thesis by (cases s) (simp add: in_body_def enc_prep_def add.assoc add.commute add.left_commute)
qed

lemma parse_block:
  assumes "p_pos s = length pre" "txn_fits (fst b)"
  shows "parse_loop (pre @ enc_block b @ rest) s = parse_loop (pre @ enc_block b @ rest)
    (s\<lparr>p_cur := fst b, p_pos := length (pre @ enc_block b), in_txn := \<not> snd b, p_prepared := \<not> snd b,
       p_result := p_result s @ committed [b]\<rparr>)"
proof (cases "snd b")
  case True
  then show ?thesis using parse_txn[OF assms, of rest] by (simp add: enc_block_def enc_txn_prep committed_def)
next
  case False
  then show ?thesis using parse_prep[OF assms, of rest] by (cases s) (simp add: enc_block_def committed_def)
qed

lemma parse_blocks:
  assumes "p_pos s = length pre" "\<forall>b\<in>set bs. txn_fits (fst b)"
  shows "\<exists>s'. parse_loop (pre @ concat (map enc_block bs)) s = Some s'
    \<and> parse_answer d s' = (p_result s @ committed bs, if bs = [] then snd (parse_answer d s) else dangling_txn d bs)"
  using assms
proof (induction bs arbitrary: pre s)
  case Nil
  then show ?case by (auto simp: parse_loop_stop parse_answer_def committed_def)
next
  case (Cons b bs)
  let ?s1 = "s\<lparr>p_cur := fst b, p_pos := length (pre @ enc_block b), in_txn := \<not> snd b, p_prepared := \<not> snd b,
       p_result := p_result s @ committed [b]\<rparr>"
  have "parse_loop (pre @ concat (map enc_block (b # bs))) s = parse_loop ((pre @ enc_block b) @ concat (map enc_block bs)) ?s1"
    using parse_block[of s pre b "concat (map enc_block bs)"] Cons.prems by simp
  moreover obtain s' where "parse_loop ((pre @ enc_block b) @ concat (map enc_block bs)) ?s1 = Some s'"
    "parse_answer d s' = (p_result ?s1 @ committed bs, if bs = [] then snd (parse_answer d ?s1) else dangling_txn d bs)"
    using Cons.IH[of ?s1 "pre @ enc_block b"] Cons.prems(2) by auto
  ultimately show ?case by (auto simp: committed_def dangling_txn_def parse_answer_def)
qed

lemma parse_enc_blocks:
  assumes "\<forall>b\<in>set bs. txn_fits (fst b)"
  shows "wal_parse (Some (enc_blocks bs)) acc = Some (fst acc @ committed bs, dangling_txn (snd acc) bs)"
proof -
  have "wal_parse (Some (enc_blocks bs)) acc
      = map_option (parse_answer (snd acc)) (parse_loop (WAL_MAGIC @ concat (map enc_block bs)) (log_state (fst acc)))"
    by (simp add: wal_parse_def enc_blocks_def WAL_HEADER_SIZE_def log_state_def parse_answer_def[abs_def])
  moreover have "p_pos (log_state (fst acc)) = length WAL_MAGIC" by (simp add: log_state_def WAL_HEADER_SIZE_def)
  from parse_blocks[OF this assms, of "snd acc"] obtain s' where
    "parse_loop (WAL_MAGIC @ concat (map enc_block bs)) (log_state (fst acc)) = Some s'"
    "parse_answer (snd acc) s' = (fst acc @ committed bs, dangling_txn (snd acc) bs)"
    by (auto simp: log_state_def parse_answer_def dangling_txn_def)
  ultimately show ?thesis by simp
qed

text \<open>
  Runs of the writer. Beside the writer's state a run has the blocks of the files and the current
  transaction with the mark whether it is prepared; \<open>flushed\<close> may come at any moment, a transaction
  can be aborted before and after \<open>prepare\<close>, and the files can be closed, or their process can die,
  and be opened again at any moment. A \<open>prepare\<close> or \<open>commit\<close> may fail: the write fails without a byte
  arriving, or all bytes arrive and the sync fails; the transaction is then aborted. A write that fails
  after a part of its bytes arrived is not a step, because of \<open>stale_tail_replayed\<close>. Opening and
  truncating files succeed.
\<close>

definition io_whole :: "io \<Rightarrow> bool" where
  "io_whole io \<longleftrightarrow> written io = None \<or> written io = Some 0"

inductive wal_reach :: "wal \<Rightarrow> (bool \<Rightarrow> block list) \<Rightarrow> (wal_txn \<times> bool) option \<Rightarrow> bool" where
  opened: "wal_open True True io_good io_good w0 = (Inr True, w) \<Longrightarrow> wal_files w0 = (\<lambda>_. []) \<Longrightarrow>
    wal_reach w (\<lambda>_. []) None"
| begun: "wal_reach w L None \<Longrightarrow> wal_reach (wal_begin t w) L (Some (\<lparr>txn_id = t, txn_ops = []\<rparr>, False))"
| op: "wal_reach w L (Some (c, False)) \<Longrightarrow> op_fits p \<Longrightarrow>
    wal_reach (run_op p w) L (Some (c\<lparr>txn_ops := txn_ops c @ [p]\<rparr>, False))"
| prepared: "wal_reach w L (Some (c, False)) \<Longrightarrow> wal_prepare io_good sk w = (e, w') \<Longrightarrow>
    wal_reach w' (if txn_ops c = [] then L else L(active_log w := L (active_log w) @ [(c, False)])) (Some (c, True))"
| committed: "wal_reach w L (Some (c, True)) \<Longrightarrow> wal_commit io_good w = (e, w') \<Longrightarrow>
    wal_reach w' (if txn_ops c = [] then L else L(active_log w := butlast (L (active_log w)) @ [(c, True)])) None"
| prepare_failed: "wal_reach w L (Some (c, False)) \<Longrightarrow> io_whole io \<Longrightarrow> wal_prepare io sk w = (Some e, w') \<Longrightarrow>
    wal_reach (wal_abort w') (if written io = None then L(active_log w := L (active_log w) @ [(c, False)]) else L) None"
| commit_failed: "wal_reach w L (Some (c, True)) \<Longrightarrow> io_whole io \<Longrightarrow> wal_commit io w = (Some e, w') \<Longrightarrow>
    wal_reach (wal_abort w') (if written io = None then L(active_log w := butlast (L (active_log w)) @ [(c, True)]) else L) None"
| aborted: "wal_reach w L c \<Longrightarrow> wal_reach (wal_abort w) L None"
| reopened: "wal_reach w L c \<Longrightarrow> wal_open True True io0 io1 (wal_abort w) = (Inr True, w') \<Longrightarrow> wal_reach w' L None"
| flushed: "wal_reach w L c \<Longrightarrow> wal_flushed io_good t w = (e, w') \<Longrightarrow>
    wal_reach w' (if serial_le (ucast (last_commit w (\<not> active_log w))) t then L((\<not> active_log w) := []) else L) c"

definition cur_ok :: "wal \<Rightarrow> (bool \<Rightarrow> block list) \<Rightarrow> (wal_txn \<times> bool) option \<Rightarrow> bool" where
  "cur_ok w L cur \<longleftrightarrow>
     (case cur of None \<Rightarrow> True
      | Some (c, prep) \<Rightarrow> txn_fits c \<and> (has_records w \<longleftrightarrow> txn_ops c \<noteq> [])
          \<and> (if prep then txn_ops c \<noteq> [] \<longrightarrow> L (active_log w) \<noteq> [] \<and> last (L (active_log w)) = (c, False)
             else \<not> wal_prepared w \<and> wal_buf w = enc_begin (txn_id c) @ enc_ops (txn_ops c)))"

definition wal_repr :: "wal \<Rightarrow> (bool \<Rightarrow> block list) \<Rightarrow> bool" where
  "wal_repr w L \<longleftrightarrow> (\<forall>i. at_end w i (enc_blocks (L i)) \<and> (\<forall>b\<in>set (L i). txn_fits (fst b)))"

lemma enc_blocks_snoc: "enc_blocks (bs @ [b]) = enc_blocks bs @ enc_block b"
  by (simp add: enc_blocks_def)

lemma truncate_good:
  "wal_truncate io_good i w = (None, w\<lparr>wal_files := (wal_files w)(i := WAL_MAGIC), write_off := (write_off w)(i := length WAL_MAGIC)\<rparr>)"
  by (simp add: wal_truncate_def io_good_def put_file_def set_off_def pwrite_def arrived_def WAL_HEADER_SIZE_def)

lemma at_end_other:
  "at_end w i f \<Longrightarrow> wal_files w' i = wal_files w i \<Longrightarrow> write_off w' i = write_off w i \<Longrightarrow> at_end w' i f"
  by (simp add: at_end_def)

lemma repr_append:
  assumes "wal_repr w L" "at_end w' i (enc_blocks bs)" "\<forall>b\<in>set bs. txn_fits (fst b)"
    "wal_files w' (\<not> i) = wal_files w (\<not> i)" "write_off w' (\<not> i) = write_off w (\<not> i)"
  shows "wal_repr w' (L(i := bs))"
  unfolding wal_repr_def
proof
  fix j show "at_end w' j (enc_blocks ((L(i := bs)) j)) \<and> (\<forall>b\<in>set ((L(i := bs)) j). txn_fits (fst b))"
  proof (cases "j = i")
    case False
    then have "j = (\<not> i)" by auto
    then show ?thesis using assms(1,4,5) by (auto simp: wal_repr_def intro: at_end_other)
  qed (use assms(2,3) in simp)
qed

lemma prepare_none: "\<not> has_records w \<Longrightarrow> \<not> wal_prepared w \<Longrightarrow> wal_prepare io sk w = (None, w\<lparr>wal_buf := [], wal_prepared := True\<rparr>)"
  by (simp add: wal_prepare_def)

lemma prepare_records: "wal_prepare io sk w = (Some e, w') \<Longrightarrow> has_records w \<and> \<not> wal_prepared w"
  by (simp add: wal_prepare_def split: if_splits)

text \<open>A \<open>prepare\<close> whose write is complete appends the transaction, one that writes nothing leaves the files.\<close>

lemma prepare_blocks:
  assumes r: "wal_repr w L" and c: "cur_ok w L (Some (c, False))" and n: "txn_ops c \<noteq> []" and io: "io_whole io"
    and p: "wal_prepare io sk w = (e, w')"
  defines "L' \<equiv> if written io = None then L(active_log w := L (active_log w) @ [(c, False)]) else L"
  shows "wal_repr w' L' \<and> active_log w' = active_log w \<and> has_records w' \<and> (e = None \<longleftrightarrow> written io = None \<and> (sk \<or> sync_ok io))"
proof -
  let ?i = "active_log w" and ?w = "w\<lparr>wal_buf := wal_buf w @ [TAG_PREPARE]\<rparr>"
  have f: "at_end ?w (active_log ?w) (enc_blocks (L ?i))" "\<not> wal_prepared w" "has_records w"
    using r c n by (auto simp: wal_repr_def cur_ok_def at_end_def)
  obtain e1 w1 where a: "append_active io sk (wal_buf ?w) ?w = (e1, w1)" by fastforce
  note ae = append_active_effect[OF f(1) a]
  have w': "e = e1" "wal_files w' = wal_files w1" "write_off w' = write_off w1" "active_log w' = active_log w1" "has_records w' = has_records w1"
    using p f(2,3) a by (auto simp: wal_prepare_def Let_def split: option.splits)
  have b: "wal_buf w @ [TAG_PREPARE] = enc_block (c, False)" using c by (simp add: cur_ok_def enc_block_def enc_prep_def)
  have "wal_repr w' L'"
  proof (cases "written io = None")
    case True
    then have "at_end w' ?i (enc_blocks (L ?i @ [(c, False)]))" using ae(2) b w'(2,3) by (simp add: at_end_def enc_blocks_snoc)
    then have "wal_repr w' (L(?i := L ?i @ [(c, False)]))"
      using r c ae(1,6) w'(2,3) by (intro repr_append) (auto simp: wal_repr_def cur_ok_def)
    then show ?thesis using True by (simp add: L'_def)
  next
    case False
    then have "written io = Some 0" using io by (auto simp: io_whole_def)
    then have "wal_files w' = wal_files w" "write_off w' = write_off w"
      using a w'(2,3) r by (auto simp: append_active_def arrived_def pwrite_def Let_def put_file_def wal_repr_def at_end_def split: if_splits)
    then show ?thesis using r False unfolding L'_def if_not_P[OF False] by (simp add: wal_repr_def at_end_def)
  qed
  then show ?thesis using w' ae(3,4,5) f(3) by simp
qed

lemma step_prepare:
  assumes r: "wal_repr w L" and c: "cur_ok w L (Some (c, False))" and p: "wal_prepare io_good sk w = (e, w')"
  shows "let L' = (if txn_ops c = [] then L else L(active_log w := L (active_log w) @ [(c, False)]))
    in wal_repr w' L' \<and> cur_ok w' L' (Some (c, True))"
proof (cases "txn_ops c = []")
  case True
  then have "w' = w\<lparr>wal_buf := [], wal_prepared := True\<rparr>" using c p prepare_none by (simp add: cur_ok_def)
  then show ?thesis using True r c by (simp add: wal_repr_def at_end_def cur_ok_def)
next
  case False
  from prepare_blocks[OF r c False _ p] False c show ?thesis by (simp add: io_whole_def io_good_def cur_ok_def)
qed

text \<open>The same for \<open>commit\<close>, which marks the last transaction of the active file.\<close>

lemma commit_blocks:
  assumes r: "wal_repr w L" and c: "cur_ok w L (Some (c, True))" and n: "txn_ops c \<noteq> []" and io: "io_whole io"
    and p: "wal_commit io w = (e, w')"
  shows "wal_repr w' (if written io = None then L(active_log w := butlast (L (active_log w)) @ [(c, True)]) else L)"
proof -
  let ?i = "active_log w"
  have l: "L ?i \<noteq> []" "last (L ?i) = (c, False)" "has_records w" using c n by (auto simp: cur_ok_def)
  then have L: "L ?i = butlast (L ?i) @ [(c, False)]" by (metis append_butlast_last_id)
  have f: "at_end w ?i (enc_blocks (L ?i))" using r by (simp add: wal_repr_def)
  have a: "append_active io False [TAG_COMMIT] w = (e, w')" using p l(3) by (simp add: wal_commit_def)
  note ae = append_active_effect[OF f a]
  show ?thesis
  proof (cases "written io = None")
    case True
    have "enc_blocks (L ?i) @ [TAG_COMMIT] = enc_blocks (butlast (L ?i) @ [(c, True)])"
      by (subst L) (simp add: enc_blocks_snoc enc_block_def)
    then have "at_end w' ?i (enc_blocks (butlast (L ?i) @ [(c, True)]))" using ae(2) True by simp
    moreover have "\<forall>b\<in>set (butlast (L ?i) @ [(c, True)]). txn_fits (fst b)"
      using r c by (auto simp: wal_repr_def cur_ok_def dest: in_set_butlastD)
    ultimately show ?thesis using repr_append[OF r] ae(1,6) True by auto
  next
    case False
    then have "written io = Some 0" using io by (auto simp: io_whole_def)
    then have "wal_files w' = wal_files w" "write_off w' = write_off w"
      using a f by (auto simp: append_active_def arrived_def pwrite_def Let_def put_file_def at_end_def split: if_splits)
    then show ?thesis using r unfolding if_not_P[OF False] by (simp add: wal_repr_def at_end_def)
  qed
qed

lemma step_commit:
  assumes r: "wal_repr w L" and c: "cur_ok w L (Some (c, True))" and p: "wal_commit io_good w = (e, w')"
  shows "wal_repr w' (if txn_ops c = [] then L else L(active_log w := butlast (L (active_log w)) @ [(c, True)]))"
proof (cases "txn_ops c = []")
  case True
  then show ?thesis using r c p by (auto simp: wal_commit_def wal_repr_def at_end_def cur_ok_def)
next
  case False
  from commit_blocks[OF r c False _ p] False show ?thesis by (simp add: io_whole_def io_good_def)
qed

lemma open_repr:
  assumes r: "wal_repr w L" and o: "wal_open True True io0 io1 w = (Inr True, w')"
  shows "wal_repr w' L"
proof -
  have "\<not> length (wal_files w i) < WAL_HEADER_SIZE" for i
    using r by (simp add: wal_repr_def at_end_def enc_blocks_def WAL_HEADER_SIZE_def WAL_MAGIC_def)
  then have w': "wal_files w' = wal_files w" "write_off w' i = length (wal_files w i)" for i
    using o by (cases i; auto simp: wal_open_def init_file_def set_off_def)+
  then show ?thesis using r by (simp add: wal_repr_def at_end_def)
qed

lemma abort_repr: "wal_repr w L \<Longrightarrow> wal_repr (wal_abort w) L"
  by (simp add: wal_repr_def at_end_def wal_abort_def)

lemma step_flushed:
  assumes r: "wal_repr w L" and c: "cur_ok w L cur" and p: "wal_flushed io_good t w = (e, w')"
  shows "let L' = (if serial_le (ucast (last_commit w (\<not> active_log w))) t then L((\<not> active_log w) := []) else L)
    in wal_repr w' L' \<and> cur_ok w' L' cur"
proof (cases "serial_le (ucast (last_commit w (\<not> active_log w))) t")
  case True
  let ?i = "\<not> active_log w"
  have w': "w' = w\<lparr>wal_files := (wal_files w)(?i := WAL_MAGIC), write_off := (write_off w)(?i := length WAL_MAGIC),
      last_commit := (last_commit w)(?i := 0), next_log := ?i\<rparr>"
    using p True by (simp add: wal_flushed_def truncate_good Let_def)
  have "wal_repr w' (L(?i := []))"
    using w' by (intro repr_append[OF r]) (auto simp: at_end_def enc_blocks_def)
  moreover have "cur_ok w' (L(?i := [])) cur" using c w' by (auto simp: cur_ok_def split: option.splits)
  ultimately show ?thesis using True by simp
next
  case False then show ?thesis using p r c by (simp add: wal_flushed_def)
qed

lemma wal_reach_repr: "wal_reach w L cur \<Longrightarrow> wal_repr w L \<and> cur_ok w L cur"
proof (induction rule: wal_reach.induct)
  case (opened w0 w)
  then have "w = w0\<lparr>wal_files := (\<lambda>_. WAL_MAGIC), write_off := (\<lambda>_. length WAL_MAGIC), next_log := False,
      active_log := False, last_commit := (\<lambda>_. 0), wal_is_open := True\<rparr>"
    by (auto simp: wal_open_def init_file_def truncate_good WAL_HEADER_SIZE_def WAL_MAGIC_def fun_eq_iff)
  then show ?case by (simp add: wal_repr_def at_end_def enc_blocks_def cur_ok_def)
next
  case (op w L c p)
  then show ?case by (auto simp: wal_repr_def at_end_def cur_ok_def txn_fits_def enc_ops_def)
next
  case (prepared w L c sk e w')
  then show ?case using step_prepare[of w L c sk e w'] by (simp add: Let_def)
next
  case (committed w L c e w')
  then show ?case using step_commit[of w L c e w'] by (simp add: cur_ok_def)
next
  case (prepare_failed w L c io sk e w')
  then have "txn_ops c \<noteq> []" using prepare_records[of io sk w e w'] by (simp add: cur_ok_def)
  then show ?case using prepare_blocks[of w L c io sk "Some e" w'] prepare_failed abort_repr by (auto simp: cur_ok_def)
next
  case (commit_failed w L c io e w')
  then have "txn_ops c \<noteq> []" by (auto simp: wal_commit_def cur_ok_def split: if_splits)
  then show ?case using commit_blocks[of w L c io "Some e" w'] commit_failed abort_repr by (auto simp: cur_ok_def)
next
  case (reopened w L c io0 io1 w')
  then show ?case using open_repr[OF abort_repr] by (auto simp: cur_ok_def)
next
  case (flushed w L c t e w')
  then show ?case using step_flushed[of w L c t e w'] by (simp add: Let_def)
qed (auto simp: wal_repr_def at_end_def cur_ok_def wal_abort_def txn_fits_def enc_ops_def)

text \<open>C9. In every run of the log writer that starts with empty files and in which no write of
  \<open>prepare\<close> or \<open>commit\<close> breaks off in the middle and every truncation succeeds (writes may fail without
  a byte written, syncs may fail, transactions are committed or aborted before or after \<open>prepare\<close>,
  \<open>flushed\<close> comes and the files are opened again at any moment), recovery reads from each of the two files exactly the
  transactions whose commit was written to it since it was last truncated, in that order; and the dangling transaction it reports
  is the last block of the file if that block was prepared and not committed, which includes a
  transaction aborted after \<open>prepare\<close>.\<close>

theorem wal_reach_recovers:
  assumes "wal_reach w L cur"
  shows "wal_parse (Some (wal_files w i)) acc = Some (fst acc @ committed (L i), dangling_txn (snd acc) (L i))"
  using wal_reach_repr[OF assms] parse_enc_blocks[of "L i" acc] by (simp add: wal_repr_def at_end_def)

definition no_sync :: io where
  "no_sync = \<lparr>resize_ok = True, written = None, sync_ok = False\<rparr>"

definition ex_run :: wal where
  "ex_run = wal_abort (snd (wal_prepare no_sync False (run_op \<lparr>is_delete = True, op_key = [4], op_val = []\<rparr>
     (wal_begin 3 (snd (wal_open True True io_good io_good (fresh_wal\<lparr>wal_files := \<lambda>_. []\<rparr>)))))))"

lemma ex_run_reach:
  "wal_reach ex_run ((\<lambda>_. [])(False := [(\<lparr>txn_id = 3, txn_ops = [\<lparr>is_delete = True, op_key = [4], op_val = []\<rparr>]\<rparr>, False)])) None"
proof -
  let ?w0 = "fresh_wal\<lparr>wal_files := \<lambda>_. []\<rparr>"
  let ?w1 = "snd (wal_open True True io_good io_good ?w0)"
  let ?w2 = "run_op \<lparr>is_delete = True, op_key = [4], op_val = []\<rparr> (wal_begin 3 ?w1)"
  have o: "wal_open True True io_good io_good ?w0 = (Inr True, ?w1)" and n: "next_log ?w1 = False"
    by (simp_all add: wal_open_def init_file_def truncate_good fresh_wal_def WAL_HEADER_SIZE_def WAL_MAGIC_def)
  have "wal_reach ?w1 (\<lambda>_. []) None" using o by (rule wal_reach.opened) simp
  then have r: "wal_reach ?w2 (\<lambda>_. []) (Some (\<lparr>txn_id = 3, txn_ops = [\<lparr>is_delete = True, op_key = [4], op_val = []\<rparr>]\<rparr>, False))"
    using wal_reach.op[OF wal_reach.begun, of ?w1 "\<lambda>_. []" "\<lparr>is_delete = True, op_key = [4], op_val = []\<rparr>" 3]
    by (simp add: op_fits_def)
  obtain e w' where p: "wal_prepare no_sync False ?w2 = (Some e, w')"
    by (auto simp: wal_prepare_def append_active_def no_sync_def wal_begin_def run_op_def wal_del_def Let_def)
  have "io_whole no_sync" by (simp add: io_whole_def no_sync_def)
  from wal_reach.prepare_failed[OF r this p] show ?thesis
    using n p by (simp add: ex_run_def no_sync_def)
qed

theorem wal_reach_recovers_witness:
  "wal_parse (Some (wal_files ex_run False)) ([], empty_txn)
    = Some ([], \<lparr>txn_id = 3, txn_ops = [\<lparr>is_delete = True, op_key = [4], op_val = []\<rparr>]\<rparr>)"
  using wal_reach_recovers[OF ex_run_reach, of False "([], empty_txn)"]
  by (simp add: committed_def dangling_txn_def)

end
