(* ===== verification/Leaves_Pool.thy ===== *)
theory Leaves_Pool
  imports Leaves_Prelude
begin

text \<open>
  The object pool and the intrusive list of the page cache
  (\<open>include/leaves/intern/memory/_twoquecache.hpp\<close>, \<open>ObjectPool\<close>, \<open>CacheEntry\<close>, \<open>IntrusiveList\<close>).
  Memory is a function from addresses to slots; a slot is the union of the code, an object or the
  link to the next free slot. The pool is related to the set of its live objects, a list to the
  sequence of its nodes.
\<close>

section \<open>The object pool\<close>

type_synonym addr = nat

record ('k, 'v) entry =
  ekey :: 'k
  evalue :: 'v
  eprev :: "addr option"
  enext :: "addr option"

datatype ('k, 'v) slot = Storage (ent: "('k, 'v) entry") | NextFree (next_free: "addr option")

type_synonym ('k, 'v) memory = "addr \<Rightarrow> ('k, 'v) slot"

record ('k, 'v) pool =
  pmem :: "('k, 'v) memory"
  chunk_count :: nat
  free_list :: "addr option"

definition CHUNK_SIZE :: nat where
  "CHUNK_SIZE = 64"

definition empty_pool :: "('k, 'v) pool" where
  "empty_pool = \<lparr>pmem = (\<lambda>_. NextFree None), chunk_count = 0, free_list = None\<rparr>"

definition link_free :: "addr \<Rightarrow> ('k, 'v) pool \<Rightarrow> ('k, 'v) pool" where
  "link_free a p = p\<lparr>pmem := (pmem p)(a := NextFree (free_list p)), free_list := Some a\<rparr>"

text \<open>The slots of the chunk number \<open>n\<close> have the addresses from \<open>64 n\<close> on.\<close>

definition add_chunk :: "('k, 'v) pool \<Rightarrow> ('k, 'v) pool" where
  "add_chunk p =
     (let base = CHUNK_SIZE * chunk_count p
      in fold link_free [base..<base + CHUNK_SIZE] (p\<lparr>chunk_count := chunk_count p + 1\<rparr>))"

definition pool_alloc :: "'k \<Rightarrow> 'v \<Rightarrow> ('k, 'v) pool \<Rightarrow> addr \<times> ('k, 'v) pool" where
  "pool_alloc k v p =
     (let p = (if free_list p = None then add_chunk p else p);
          a = the (free_list p);
          p = p\<lparr>free_list := next_free (pmem p a)\<rparr>
      in (a, p\<lparr>pmem := (pmem p)(a := Storage \<lparr>ekey = k, evalue = v, eprev = None, enext = None\<rparr>)\<rparr>))"

definition pool_free :: "addr \<Rightarrow> ('k, 'v) pool \<Rightarrow> ('k, 'v) pool" where
  "pool_free a p = link_free a p"

fun free_path :: "('k, 'v) memory \<Rightarrow> addr option \<Rightarrow> addr list \<Rightarrow> bool" where
  "free_path m p [] \<longleftrightarrow> p = None"
| "free_path m p (a # as) \<longleftrightarrow> p = Some a \<and> (\<exists>n. m a = NextFree n \<and> free_path m n as)"

definition is_object :: "('k, 'v) slot \<Rightarrow> bool" where
  "is_object s \<longleftrightarrow> (case s of Storage e \<Rightarrow> True | NextFree n \<Rightarrow> False)"

lemma is_object_simps [simp]: "is_object (Storage e)" "\<not> is_object (NextFree n)"
  by (simp_all add: is_object_def)

lemma is_object_ent: "is_object s \<longleftrightarrow> s = Storage (ent s)"
  by (cases s) auto

definition pool_inv :: "('k, 'v) pool \<Rightarrow> addr set \<Rightarrow> bool" where
  "pool_inv p live \<longleftrightarrow>
     (\<exists>fs. free_path (pmem p) (free_list p) fs \<and> distinct fs \<and> set fs \<inter> live = {}
       \<and> set fs \<union> live = {..<CHUNK_SIZE * chunk_count p}) \<and> (\<forall>a\<in>live. is_object (pmem p a))"

lemma free_path_frame: "\<forall>a\<in>set as. m' a = m a \<Longrightarrow> free_path m' p as = free_path m p as"
  by (induction as arbitrary: p) auto

lemma free_path_upd [simp]: "a \<notin> set as \<Longrightarrow> free_path (m(a := x)) p as = free_path m p as"
  by (rule free_path_frame) auto

lemma link_free_fields [simp]:
  "pmem (link_free a p) = (pmem p)(a := NextFree (free_list p))" "free_list (link_free a p) = Some a"
  "chunk_count (link_free a p) = chunk_count p"
  by (simp_all add: link_free_def)

lemma fold_link_free:
  assumes "free_path (pmem p) (free_list p) fs" "distinct (as @ fs)"
  shows "free_path (pmem (fold link_free as p)) (free_list (fold link_free as p)) (rev as @ fs)
    \<and> chunk_count (fold link_free as p) = chunk_count p
    \<and> (\<forall>b. b \<notin> set as \<longrightarrow> pmem (fold link_free as p) b = pmem p b)"
  using assms
proof (induction as arbitrary: p fs)
  case Nil then show ?case by simp
next
  case (Cons a as)
  have "free_path (pmem (link_free a p)) (free_list (link_free a p)) (a # fs)"
    using Cons.prems free_path_frame[of fs "pmem (link_free a p)" "pmem p"] by auto
  from Cons.IH[OF this] Cons.prems(2) show ?case by simp
qed

lemma add_chunk_inv:
  assumes "pool_inv p live" "free_list p = None"
  shows "pool_inv (add_chunk p) live \<and> free_list (add_chunk p) \<noteq> None \<and> (\<forall>a\<in>live. pmem (add_chunk p) a = pmem p a)"
proof -
  let ?b = "CHUNK_SIZE * chunk_count p" and ?p = "p\<lparr>chunk_count := chunk_count p + 1\<rparr>"
  let ?as = "[?b..<?b + CHUNK_SIZE]"
  obtain fs where fs: "free_path (pmem p) None fs" "set fs \<inter> live = {}" "set fs \<union> live = {..<?b}"
    using assms by (auto simp: pool_inv_def)
  then have "fs = []" by (cases fs) auto
  have r: "free_path (pmem (fold link_free ?as ?p)) (free_list (fold link_free ?as ?p)) (rev ?as @ [])
    \<and> chunk_count (fold link_free ?as ?p) = chunk_count ?p
    \<and> (\<forall>b. b \<notin> set ?as \<longrightarrow> pmem (fold link_free ?as ?p) b = pmem ?p b)"
    using assms(2) by (intro fold_link_free) auto
  have ch: "add_chunk p = fold link_free ?as ?p" by (simp add: add_chunk_def Let_def)
  have live: "live = {..<?b}" using fs(3) \<open>fs = []\<close> by simp
  have same: "pmem (add_chunk p) a = pmem p a" if "a \<in> live" for a using r ch live that by simp
  have path: "free_path (pmem (add_chunk p)) (free_list (add_chunk p)) (rev ?as)" using r ch by simp
  have "set ?as \<inter> live = {}" "set ?as \<union> live = {..<?b + CHUNK_SIZE}" using live by auto
  then have "pool_inv (add_chunk p) live"
    unfolding pool_inv_def using path r ch same assms(1)
    by (intro conjI exI[of _ "rev ?as"]) (auto simp: pool_inv_def add.commute)
  moreover have "free_list (add_chunk p) \<noteq> None"
    using path by (cases "rev ?as") (auto simp: CHUNK_SIZE_def)
  ultimately show ?thesis using same by blast
qed

lemma pool_alloc_inv:
  assumes inv: "pool_inv p live" and a: "pool_alloc k v p = (a, p')"
  shows "a \<notin> live \<and> pool_inv p' (insert a live) \<and> (\<forall>b\<in>live. pmem p' b = pmem p b)
    \<and> pmem p' a = Storage \<lparr>ekey = k, evalue = v, eprev = None, enext = None\<rparr>"
proof -
  define q where "q = (if free_list p = None then add_chunk p else p)"
  have q: "pool_inv q live" "free_list q \<noteq> None" "\<forall>b\<in>live. pmem q b = pmem p b"
    using add_chunk_inv[OF inv] inv by (auto simp: q_def)
  obtain fs where fs: "free_path (pmem q) (free_list q) fs" "distinct fs" "set fs \<inter> live = {}"
    "set fs \<union> live = {..<CHUNK_SIZE * chunk_count q}" using q(1) by (auto simp: pool_inv_def)
  obtain b bs where "fs = b # bs" using fs(1) q(2) by (cases fs) auto
  then obtain n where n: "free_list q = Some b" "pmem q b = NextFree n" "free_path (pmem q) n bs" using fs(1) by auto
  have p': "a = b" "p' = q\<lparr>free_list := n, pmem := (pmem q)(b := Storage \<lparr>ekey = k, evalue = v, eprev = None, enext = None\<rparr>)\<rparr>"
    using a n(1,2) by (auto simp: pool_alloc_def q_def[symmetric] Let_def)
  have "free_path (pmem p') n bs"
    using n(3) p' fs(2) \<open>fs = b # bs\<close> free_path_frame[of bs "pmem p'" "pmem q"] by auto
  then have "pool_inv p' (insert b live)"
    unfolding pool_inv_def using p' fs \<open>fs = b # bs\<close> q(1)
    by (intro conjI exI[of _ bs]) (auto simp: pool_inv_def)
  then show ?thesis using p' q(3) fs(3) \<open>fs = b # bs\<close> by auto
qed

lemma pool_free_inv:
  assumes inv: "pool_inv p live" and a: "a \<in> live"
  shows "pool_inv (pool_free a p) (live - {a})"
proof -
  obtain fs where fs: "free_path (pmem p) (free_list p) fs" "distinct fs" "set fs \<inter> live = {}"
    "set fs \<union> live = {..<CHUNK_SIZE * chunk_count p}" using inv by (auto simp: pool_inv_def)
  have "free_path (pmem (pool_free a p)) (free_list (pool_free a p)) (a # fs)"
    using fs(1,3) a by (subgoal_tac "a \<notin> set fs") (auto simp: pool_free_def)
  then show ?thesis unfolding pool_inv_def using fs a inv
    by (intro conjI exI[of _ "a # fs"]) (auto simp: pool_inv_def pool_free_def)
qed

lemma pool_inv_objects:
  assumes "pool_inv p live" "\<forall>a. a \<notin> live \<longrightarrow> m a = pmem p a" "\<forall>a\<in>live. is_object (m a)"
  shows "pool_inv (p\<lparr>pmem := m\<rparr>) live"
proof -
  obtain fs where fs: "free_path (pmem p) (free_list p) fs" "distinct fs" "set fs \<inter> live = {}"
    "set fs \<union> live = {..<CHUNK_SIZE * chunk_count p}" using assms(1) by (auto simp: pool_inv_def)
  have "free_path m (free_list p) fs" using fs(1,3) assms(2) free_path_frame[of fs m "pmem p"] by blast
  then show ?thesis unfolding pool_inv_def using fs assms(3) by auto
qed

section \<open>The intrusive list\<close>

record ilist =
  l_head :: "addr option"
  l_tail :: "addr option"
  l_size :: nat

definition empty_list :: ilist where
  "empty_list = \<lparr>l_head = None, l_tail = None, l_size = 0\<rparr>"

definition set_eprev :: "addr \<Rightarrow> addr option \<Rightarrow> ('k, 'v) memory \<Rightarrow> ('k, 'v) memory" where
  "set_eprev a v m = m(a := Storage ((ent (m a))\<lparr>eprev := v\<rparr>))"

definition set_enext :: "addr \<Rightarrow> addr option \<Rightarrow> ('k, 'v) memory \<Rightarrow> ('k, 'v) memory" where
  "set_enext a v m = m(a := Storage ((ent (m a))\<lparr>enext := v\<rparr>))"

definition push_back :: "addr \<Rightarrow> ('k, 'v) memory \<times> ilist \<Rightarrow> ('k, 'v) memory \<times> ilist" where
  "push_back a = (\<lambda>(m, l).
     let m = set_enext a None (set_eprev a (l_tail l) m);
         (m, l) = (case l_tail l of Some t \<Rightarrow> (set_enext t (Some a) m, l) | None \<Rightarrow> (m, l\<lparr>l_head := Some a\<rparr>))
     in (m, l\<lparr>l_tail := Some a, l_size := l_size l + 1\<rparr>))"

definition list_unlink :: "addr \<Rightarrow> ('k, 'v) memory \<times> ilist \<Rightarrow> ('k, 'v) memory \<times> ilist" where
  "list_unlink a = (\<lambda>(m, l).
     let (m, l) = (case eprev (ent (m a)) of
                     Some q \<Rightarrow> (set_enext q (enext (ent (m a))) m, l)
                   | None \<Rightarrow> (m, l\<lparr>l_head := enext (ent (m a))\<rparr>));
         (m, l) = (case enext (ent (m a)) of
                     Some q \<Rightarrow> (set_eprev q (eprev (ent (m a))) m, l)
                   | None \<Rightarrow> (m, l\<lparr>l_tail := eprev (ent (m a))\<rparr>))
     in (set_eprev a None (set_enext a None m), l\<lparr>l_size := l_size l - 1\<rparr>))"

definition move_to_back :: "addr \<Rightarrow> ('k, 'v) memory \<times> ilist \<Rightarrow> ('k, 'v) memory \<times> ilist" where
  "move_to_back a ml = (if Some a = l_tail (snd ml) then ml else push_back a (list_unlink a ml))"

text \<open>\<open>splice_back\<close> of the list \<open>to\<close>, taking the node from the list \<open>src\<close>.\<close>

definition splice_back :: "addr \<Rightarrow> ('k, 'v) memory \<times> ilist \<times> ilist \<Rightarrow> ('k, 'v) memory \<times> ilist \<times> ilist" where
  "splice_back a = (\<lambda>(m, src, dst).
     let (m, src) = list_unlink a (m, src); (m, dst) = push_back a (m, dst) in (m, src, dst))"

text \<open>The nodes a loop over \<open>next\<close> meets; the size of the list bounds it.\<close>

fun nodes_from :: "nat \<Rightarrow> ('k, 'v) memory \<Rightarrow> addr option \<Rightarrow> addr list" where
  "nodes_from 0 m p = []"
| "nodes_from (Suc n) m p = (case p of None \<Rightarrow> [] | Some a \<Rightarrow> a # nodes_from n m (enext (ent (m a))))"

subsection \<open>Segments\<close>

definition first_of :: "addr list \<Rightarrow> addr option \<Rightarrow> addr option" where
  "first_of xs q = (case xs of [] \<Rightarrow> q | x # _ \<Rightarrow> Some x)"

definition last_of :: "addr option \<Rightarrow> addr list \<Rightarrow> addr option" where
  "last_of p xs = (if xs = [] then p else Some (last xs))"

lemma first_of_simps [simp]: "first_of [] q = q" "first_of (x # xs) q = Some x"
  "first_of (xs @ ys) q = first_of xs (first_of ys q)"
  by (simp_all add: first_of_def split: list.splits)

lemma last_of_simps [simp]: "last_of p [] = p" "last_of p (xs @ ys) = last_of (last_of p xs) ys" "last_of p (x # xs) = last_of (Some x) xs"
  by (simp_all add: last_of_def)

fun lseg :: "('k, 'v) memory \<Rightarrow> addr option \<Rightarrow> addr list \<Rightarrow> addr option \<Rightarrow> bool" where
  "lseg m p [] q \<longleftrightarrow> True"
| "lseg m p (a # as) q \<longleftrightarrow>
     (\<exists>e. m a = Storage e \<and> eprev e = p \<and> enext e = first_of as q) \<and> lseg m (Some a) as q"

lemma lseg_append: "lseg m p (xs @ ys) q \<longleftrightarrow> lseg m p xs (first_of ys q) \<and> lseg m (last_of p xs) ys q"
  by (induction xs arbitrary: p) auto

lemma lseg_frame: "\<forall>a\<in>set xs. m' a = m a \<Longrightarrow> lseg m' p xs q = lseg m p xs q"
  by (induction xs arbitrary: p) auto

lemma lseg_upd [simp]: "a \<notin> set xs \<Longrightarrow> lseg (m(a := x)) p xs q = lseg m p xs q"
  by (rule lseg_frame) auto

lemma lseg_set_other [simp]:
  "a \<notin> set xs \<Longrightarrow> lseg (set_eprev a v m) p xs q = lseg m p xs q"
  "a \<notin> set xs \<Longrightarrow> lseg (set_enext a v m) p xs q = lseg m p xs q"
  by (simp_all add: set_eprev_def set_enext_def)

lemma lseg_set_end:
  assumes "lseg m p (xs @ [x]) q" "x \<notin> set xs"
  shows "lseg (set_enext x q' m) p (xs @ [x]) q'"
  using assms by (auto simp: lseg_append set_enext_def)

lemma lseg_set_start:
  assumes "lseg m p (x # xs) q" "x \<notin> set xs"
  shows "lseg (set_eprev x p' m) p' (x # xs) q"
  using assms by (auto simp: set_eprev_def)

lemma lseg_objects: "lseg m p xs q \<Longrightarrow> a \<in> set xs \<Longrightarrow> is_object (m a)"
  by (induction xs arbitrary: p) auto

text \<open>Links change neither the keys and values nor the kind of the slots.\<close>

definition content :: "('k, 'v) memory \<Rightarrow> addr \<Rightarrow> 'k \<times> 'v" where
  "content m a = (ekey (ent (m a)), evalue (ent (m a)))"

lemma content_set_links [simp]:
  "content (set_eprev a v m) = content m" "content (set_enext a v m) = content m"
  by (auto simp: content_def set_eprev_def set_enext_def fun_eq_iff)

lemma set_links_other [simp]:
  "b \<noteq> a \<Longrightarrow> set_eprev a v m b = m b" "b \<noteq> a \<Longrightarrow> set_enext a v m b = m b"
  by (simp_all add: set_eprev_def set_enext_def)

lemma set_links_object [simp]:
  "is_object (set_eprev a v m b) \<longleftrightarrow> b = a \<or> is_object (m b)"
  "is_object (set_enext a v m b) \<longleftrightarrow> b = a \<or> is_object (m b)"
  by (simp_all add: set_eprev_def set_enext_def)

section \<open>Lists of nodes\<close>

definition list_of :: "addr list \<Rightarrow> ilist" where
  "list_of xs = \<lparr>l_head = first_of xs None, l_tail = last_of None xs, l_size = length xs\<rparr>"

definition dll :: "('k, 'v) memory \<Rightarrow> ilist \<Rightarrow> addr list \<Rightarrow> bool" where
  "dll m l xs \<longleftrightarrow> lseg m None xs None \<and> distinct xs \<and> l = list_of xs"

lemma dll_frame: "dll m l xs \<Longrightarrow> \<forall>a\<in>set xs. m' a = m a \<Longrightarrow> dll m' l xs"
  using lseg_frame[of xs m' m None None] by (simp add: dll_def)

lemma dll_nodes: "dll m l xs \<Longrightarrow> nodes_from (l_size l) m (l_head l) = xs"
proof -
  have "lseg m p xs None \<Longrightarrow> nodes_from (length xs) m (first_of xs None) = xs" for p
    by (induction xs arbitrary: p) auto
  then show "dll m l xs \<Longrightarrow> ?thesis" by (auto simp: dll_def list_of_def)
qed

text \<open>What both modifications leave alone.\<close>

definition keeps :: "addr set \<Rightarrow> ('k, 'v) memory \<Rightarrow> ('k, 'v) memory \<Rightarrow> bool" where
  "keeps A m m' \<longleftrightarrow> content m' = content m \<and> (\<forall>b. b \<notin> A \<longrightarrow> m' b = m b) \<and> (\<forall>b\<in>A. is_object (m b) \<longrightarrow> is_object (m' b))"

lemma keepsD:
  assumes "keeps A m m'"
  shows "content m' = content m" "b \<notin> A \<Longrightarrow> m' b = m b" "is_object (m b) \<Longrightarrow> is_object (m' b)"
  using assms by (auto simp: keeps_def)

lemma keeps_trans: "keeps A m m' \<Longrightarrow> keeps B m' m'' \<Longrightarrow> A \<union> B \<subseteq> C \<Longrightarrow> keeps C m m''"
  unfolding keeps_def by (metis (no_types, lifting) UnCI subsetD)

lemma push_back_dll:
  assumes "dll m l xs" "a \<notin> set xs" "push_back a (m, l) = (m', l')"
  shows "dll m' l' (xs @ [a]) \<and> keeps (insert a (set xs)) m m'"
proof (cases xs rule: rev_cases)
  case Nil
  then have r: "m' = set_enext a None (set_eprev a None m)" "l' = list_of [a]"
    using assms by (auto simp: push_back_def dll_def list_of_def)
  have "lseg m' None [a] None" by (simp add: r set_enext_def set_eprev_def)
  then show ?thesis using Nil r by (simp add: dll_def keeps_def)
next
  case (snoc ys y)
  let ?m = "set_enext a None (set_eprev a (Some y) m)"
  have l: "l = list_of xs" and seg: "lseg m None (ys @ [y]) None" and d: "distinct xs" "a \<noteq> y" "y \<notin> set ys" "a \<notin> set ys"
    using assms snoc by (auto simp: dll_def)
  have r: "m' = set_enext y (Some a) ?m" "l' = list_of (xs @ [a])"
    using assms(3) l snoc by (auto simp: push_back_def list_of_def Let_def)
  have "lseg ?m None (ys @ [y]) None" using seg d by simp
  then have "lseg m' None (ys @ [y]) (Some a)" using lseg_set_end d(3) r(1) by blast
  moreover have "lseg m' (Some y) [a] None" using d by (auto simp: r(1) set_enext_def set_eprev_def)
  ultimately have "lseg m' None (xs @ [a]) None" using snoc lseg_append[of m' None xs "[a]" None] by simp
  then show ?thesis using r d assms(2) snoc by (auto simp: dll_def keeps_def)
qed

lemma list_unlink_dll:
  assumes "dll m l (xs @ a # ys)" "list_unlink a (m, l) = (m', l')"
  shows "dll m' l' (xs @ ys) \<and> keeps (set (xs @ a # ys)) m m'"
proof -
  define m1 where "m1 = (case last_of None xs of Some u \<Rightarrow> set_enext u (first_of ys None) m | None \<Rightarrow> m)"
  define m2 where "m2 = (case first_of ys None of Some w \<Rightarrow> set_eprev w (last_of None xs) m1 | None \<Rightarrow> m1)"
  have l: "l = list_of (xs @ a # ys)" and d: "distinct (xs @ a # ys)"
    and sx: "lseg m None xs (Some a)" and sy: "lseg m (Some a) ys None"
    and e: "eprev (ent (m a)) = last_of None xs" "enext (ent (m a)) = first_of ys None"
    using assms(1) by (auto simp: dll_def lseg_append)
  have ux: "last_of None xs = Some u \<Longrightarrow> u \<in> set xs" for u by (auto simp: last_of_def split: if_splits)
  have uy: "first_of ys None = Some u \<Longrightarrow> u \<in> set ys" for u by (cases ys) auto
  have nx: "last_of None xs = Some u \<Longrightarrow> u \<notin> set ys" for u using ux[of u] d by auto
  have ny: "first_of ys None = Some u \<Longrightarrow> u \<notin> set xs" for u using uy[of u] d by auto
  have "last_of None xs = Some u \<Longrightarrow> a \<noteq> u" for u using ux d by auto
  then have m1a: "m1 a = m a" by (simp add: m1_def split: option.splits)
  have r: "m' = set_eprev a None (set_enext a None m2)" "l' = list_of (xs @ ys)"
    using assms(2) l e m1a
    by (cases xs rule: rev_cases; cases ys; simp add: list_unlink_def m1_def m2_def list_of_def Let_def)+
  have x1: "lseg m1 None xs (first_of ys None)"
  proof (cases xs rule: rev_cases)
    case (snoc us u)
    then show ?thesis using lseg_set_end[of m None us u "Some a" "first_of ys None"] sx d by (simp add: m1_def)
  qed simp
  have y1: "lseg m1 (Some a) ys None" using sy nx by (simp add: m1_def split: option.splits)
  have x2: "lseg m2 None xs (first_of ys None)" using x1 ny by (cases "first_of ys None") (simp_all add: m2_def)
  have y2: "lseg m2 (last_of None xs) ys None"
  proof (cases ys)
    case (Cons w ws)
    then show ?thesis using lseg_set_start[of m1 "Some a" w ws None "last_of None xs"] y1 d by (simp add: m2_def)
  qed simp
  have "lseg m' None (xs @ ys) None" using x2 y2 d by (simp add: r(1) lseg_append)
  moreover have "content m' = content m" by (simp add: r(1) m1_def m2_def split: option.splits)
  moreover have "m' b = m b" if "b \<notin> set (xs @ a # ys)" for b
  proof -
    have "last_of None xs = Some u \<Longrightarrow> b \<noteq> u" "first_of ys None = Some u \<Longrightarrow> b \<noteq> u" for u using that ux uy by auto
    then show ?thesis using that by (simp add: r(1) m1_def m2_def split: option.splits)
  qed
  moreover have "is_object (m b) \<Longrightarrow> is_object (m' b)" for b
    by (simp add: r(1) m1_def m2_def split: option.splits)
  ultimately show ?thesis using r(2) d by (simp add: dll_def keeps_def)
qed

lemma move_to_back_dll:
  assumes "dll m l (xs @ a # ys)" "move_to_back a (m, l) = (m', l')"
  shows "dll m' l' (xs @ ys @ [a]) \<and> keeps (set (xs @ a # ys)) m m'"
proof (cases "ys = []")
  case True
  then have "l_tail l = Some a" using assms(1) by (simp add: dll_def list_of_def)
  then show ?thesis using assms True by (simp add: move_to_back_def keeps_def)
next
  case False
  have d: "distinct (xs @ a # ys)" using assms(1) by (simp add: dll_def)
  have "l_tail l = Some (last ys)" using assms(1) False by (simp add: dll_def list_of_def last_of_def)
  moreover have "last ys \<noteq> a" using d False by auto
  ultimately have p: "push_back a (list_unlink a (m, l)) = (m', l')" using assms(2) by (simp add: move_to_back_def)
  obtain m1 l1 where u: "list_unlink a (m, l) = (m1, l1)" by fastforce
  have 1: "dll m1 l1 (xs @ ys) \<and> keeps (set (xs @ a # ys)) m m1" using list_unlink_dll[OF assms(1) u] .
  have "dll m' l' ((xs @ ys) @ [a]) \<and> keeps (insert a (set (xs @ ys))) m1 m'"
    using 1 d p u by (intro push_back_dll[of m1 l1]) auto
  then show ?thesis using 1 keeps_trans[of "set (xs @ a # ys)" m m1 "insert a (set (xs @ ys))" m' "set (xs @ a # ys)"] by simp
qed

lemma splice_back_dll:
  assumes "dll m src (xs @ a # ys)" "dll m dst zs" "set (xs @ a # ys) \<inter> set zs = {}"
    "splice_back a (m, src, dst) = (m', src', dst')"
  shows "dll m' src' (xs @ ys) \<and> dll m' dst' (zs @ [a]) \<and> keeps (set (xs @ a # ys) \<union> set zs) m m'"
proof -
  obtain m1 src1 where u: "list_unlink a (m, src) = (m1, src1)" by fastforce
  then have p: "push_back a (m1, dst) = (m', dst')" "src' = src1"
    using assms(4) by (auto simp: splice_back_def Let_def split: prod.splits)
  have 1: "dll m1 src1 (xs @ ys)" "keeps (set (xs @ a # ys)) m m1" using list_unlink_dll[OF assms(1) u] by auto
  have "\<forall>b\<in>set zs. m1 b = m b" using keepsD(2)[OF 1(2)] assms(3) by blast
  then have "dll m1 dst zs" by (rule dll_frame[OF assms(2)])
  then have 2: "dll m' dst' (zs @ [a])" "keeps (insert a (set zs)) m1 m'"
    using push_back_dll[OF _ _ p(1)] assms(3) by auto
  have d: "distinct (xs @ a # ys)" using assms(1) by (simp add: dll_def)
  have "b \<notin> insert a (set zs)" if "b \<in> set (xs @ ys)" for b using that assms(3) d by auto
  then have "\<forall>b\<in>set (xs @ ys). m' b = m1 b" using keepsD(2)[OF 2(2)] by blast
  then have "dll m' src' (xs @ ys)" unfolding p(2) by (rule dll_frame[OF 1(1)])
  moreover have "keeps (set (xs @ a # ys) \<union> set zs) m m'" by (rule keeps_trans[OF 1(2) 2(2)]) auto
  ultimately show ?thesis using 2 by simp
qed

text \<open>C23. The intrusive list is a list: on memory where two disjoint lists are linked, \<open>push_back\<close>
  appends a node, \<open>unlink\<close> removes one, \<open>move_to_back\<close> moves one to the end and \<open>splice_back\<close> moves one to
  the end of the other list, with heads, tails, sizes and all \<open>prev\<close> and \<open>next\<close> links right; keys and
  values of all nodes and every slot outside the two lists stay as they were.\<close>

theorem intrusive_list_correct:
  assumes src: "dll m src (xs @ a # ys)" and dst: "dll m dst zs" and dj: "set (xs @ a # ys) \<inter> set zs = {}"
    and b: "b \<notin> set zs"
  shows "(case push_back b (m, dst) of (m', l') \<Rightarrow> dll m' l' (zs @ [b]) \<and> keeps (insert b (set zs)) m m')
    \<and> (case list_unlink a (m, src) of (m', l') \<Rightarrow> dll m' l' (xs @ ys) \<and> keeps (set (xs @ a # ys)) m m')
    \<and> (case move_to_back a (m, src) of (m', l') \<Rightarrow> dll m' l' (xs @ ys @ [a]) \<and> keeps (set (xs @ a # ys)) m m')
    \<and> (case splice_back a (m, src, dst) of (m', src', dst') \<Rightarrow>
        dll m' src' (xs @ ys) \<and> dll m' dst' (zs @ [a]) \<and> keeps (set (xs @ a # ys) \<union> set zs) m m')"
  using push_back_dll[OF dst b] list_unlink_dll[OF src] move_to_back_dll[OF src] splice_back_dll[OF src dst dj]
  by (simp split: prod.splits)

definition ex_memory :: "(nat, nat) memory" where
  "ex_memory = (\<lambda>_. NextFree None)(
     0 := Storage \<lparr>ekey = 10, evalue = 20, eprev = None, enext = Some 1\<rparr>,
     1 := Storage \<lparr>ekey = 11, evalue = 21, eprev = Some 0, enext = None\<rparr>,
     2 := Storage \<lparr>ekey = 12, evalue = 22, eprev = None, enext = None\<rparr>)"

theorem intrusive_list_correct_witness:
  "case splice_back 0 (ex_memory, list_of [0, 1], list_of [2]) of
     (m', src', dst') \<Rightarrow> dll m' src' [1] \<and> dll m' dst' [2, 0]"
proof -
  have 1: "dll ex_memory (list_of [0, 1]) ([] @ 0 # [1])" "dll ex_memory (list_of [2]) [2]"
    by (simp_all add: dll_def ex_memory_def)
  show ?thesis using intrusive_list_correct[OF 1, of 3] by (simp split: prod.splits)
qed

end
