(* ===== verification/Leaves_TwoQ.thy ===== *)
theory Leaves_TwoQ
  imports Leaves_Pool
begin

text \<open>
  The 2Q page cache (\<open>include/leaves/intern/memory/_twoquecache.hpp\<close>, \<open>TwoQCache\<close>): three intrusive
  lists with a hash map each, over two object pools, and the byte counters. The sizes of the
  cached areas are given by a function \<open>sz\<close>; their reference counts change outside the cache and are
  an argument \<open>refs\<close> of every operation that looks at them.
\<close>

section \<open>The cache\<close>

record cvalue =
  v_ok :: bool
  v_area :: "nat option"

record cache =
  capacity :: uint64
  csize :: uint64
  a1in_current :: uint64
  a1in_limit :: uint64
  a1out_limit :: nat
  a1in_list :: ilist
  a1in_map :: "uint64 \<rightharpoonup> addr"
  a1out_list :: ilist
  a1out_map :: "uint64 \<rightharpoonup> addr"
  am_list :: ilist
  am_map :: "uint64 \<rightharpoonup> addr"
  entry_pool :: "(uint64, cvalue) pool"
  ghost_pool :: "(uint64, uint8) pool"

text \<open>The limits are computed from ratios in floating point; here they are arguments.\<close>

definition cache_init :: "uint64 \<Rightarrow> uint64 \<Rightarrow> nat \<Rightarrow> cache" where
  "cache_init cap lim_in lim_out =
     \<lparr>capacity = cap, csize = 0, a1in_current = 0, a1in_limit = lim_in, a1out_limit = max lim_out 1,
      a1in_list = empty_list, a1in_map = Map.empty, a1out_list = empty_list, a1out_map = Map.empty,
      am_list = empty_list, am_map = Map.empty, entry_pool = empty_pool, ghost_pool = empty_pool\<rparr>"

definition get_item_size :: "(nat \<Rightarrow> uint64) \<Rightarrow> cvalue \<Rightarrow> uint64" where
  "get_item_size sz v = (case v_area v of None \<Rightarrow> 0 | Some s \<Rightarrow> sz s)"

definition can_evict :: "(nat \<Rightarrow> nat) \<Rightarrow> cvalue \<Rightarrow> bool" where
  "can_evict refs v \<longleftrightarrow> v_ok v \<and> (case v_area v of None \<Rightarrow> False | Some s \<Rightarrow> refs s = 1)"

abbreviation emem :: "cache \<Rightarrow> (uint64, cvalue) memory" where
  "emem c \<equiv> pmem (entry_pool c)"

abbreviation gmem :: "cache \<Rightarrow> (uint64, uint8) memory" where
  "gmem c \<equiv> pmem (ghost_pool c)"

definition value_at :: "(uint64, cvalue) memory \<Rightarrow> addr \<Rightarrow> cvalue" where
  "value_at m a = evalue (ent (m a))"

definition key_at :: "(uint64, 'v) memory \<Rightarrow> addr \<Rightarrow> uint64" where
  "key_at m a = ekey (ent (m a))"

definition set_emem :: "(uint64, cvalue) memory \<Rightarrow> cache \<Rightarrow> cache" where
  "set_emem m c = c\<lparr>entry_pool := (entry_pool c)\<lparr>pmem := m\<rparr>\<rparr>"

definition set_gmem :: "(uint64, uint8) memory \<Rightarrow> cache \<Rightarrow> cache" where
  "set_gmem m c = c\<lparr>ghost_pool := (ghost_pool c)\<lparr>pmem := m\<rparr>\<rparr>"

definition cache_get :: "(nat \<Rightarrow> uint64) \<Rightarrow> uint64 \<Rightarrow> cache \<Rightarrow> cvalue option \<times> cache" where
  "cache_get sz key c =
     (case a1in_map c key of
        Some e \<Rightarrow>
          (let v = value_at (emem c) e;
               c = c\<lparr>a1in_current := a1in_current c - get_item_size sz v\<rparr>;
               (m, src, dst) = splice_back e (emem c, a1in_list c, am_list c);
               c = set_emem m (c\<lparr>a1in_list := src, am_list := dst\<rparr>)
           in (Some v, c\<lparr>am_map := (am_map c)(key \<mapsto> e), a1in_map := (a1in_map c)(key := None)\<rparr>))
      | None \<Rightarrow>
          (case am_map c key of
             Some e \<Rightarrow>
               (let (m, l) = move_to_back e (emem c, am_list c)
                in (Some (value_at (emem c) e), set_emem m (c\<lparr>am_list := l\<rparr>)))
           | None \<Rightarrow> (None, c)))"

text \<open>The two loops of \<open>maintain_a1in_size\<close>: choosing the entries, and moving them to the ghosts.\<close>

fun collect :: "(nat \<Rightarrow> uint64) \<Rightarrow> (nat \<Rightarrow> nat) \<Rightarrow> (uint64, cvalue) memory \<Rightarrow> uint64 \<Rightarrow> addr list \<Rightarrow> uint64 \<Rightarrow> uint64 \<times> uint64
    \<Rightarrow> addr list \<times> uint64 \<times> uint64" where
  "collect sz refs m lim [] target sizes = ([], sizes)"
| "collect sz refs m lim (e # es) target sizes =
     (if target > lim then
        if can_evict refs (value_at m e) then
          let n = get_item_size sz (value_at m e);
              (ev, sizes) = collect sz refs m lim es (target - n) (fst sizes - n, snd sizes - n)
          in (e # ev, sizes)
        else collect sz refs m lim es target sizes
      else ([], sizes))"

definition drop_entry :: "addr \<Rightarrow> cache \<Rightarrow> cache" where
  "drop_entry e c = c\<lparr>entry_pool := pool_free e (entry_pool c)\<rparr>"

definition drop_ghost :: "addr \<Rightarrow> cache \<Rightarrow> cache" where
  "drop_ghost e c = c\<lparr>ghost_pool := pool_free e (ghost_pool c)\<rparr>"

definition evict_a1in :: "addr \<Rightarrow> cache \<Rightarrow> cache" where
  "evict_a1in e c =
     (let key = key_at (emem c) e;
          (g, gp) = pool_alloc key 0 (ghost_pool c);
          (gm, gl) = push_back g (pmem gp, a1out_list c);
          c = c\<lparr>ghost_pool := gp\<lparr>pmem := gm\<rparr>, a1out_list := gl, a1out_map := (a1out_map c)(key \<mapsto> g)\<rparr>;
          c = c\<lparr>a1in_map := (a1in_map c)(key := None)\<rparr>;
          (m, l) = list_unlink e (emem c, a1in_list c)
      in drop_entry e (set_emem m (c\<lparr>a1in_list := l\<rparr>)))"

definition maintain_a1in_size :: "(nat \<Rightarrow> uint64) \<Rightarrow> (nat \<Rightarrow> nat) \<Rightarrow> cache \<Rightarrow> cache" where
  "maintain_a1in_size sz refs c =
     (if a1in_current c \<le> a1in_limit c then c
      else let nodes = nodes_from (l_size (a1in_list c)) (emem c) (l_head (a1in_list c));
               (ev, size, cur) = collect sz refs (emem c) (a1in_limit c) nodes (a1in_current c) (csize c, a1in_current c)
           in fold evict_a1in ev (c\<lparr>csize := size, a1in_current := cur\<rparr>))"

definition unlink_ghost :: "addr \<Rightarrow> cache \<Rightarrow> cache" where
  "unlink_ghost g c =
     (let (m, l) = list_unlink g (gmem c, a1out_list c)
      in drop_ghost g (set_gmem m (c\<lparr>a1out_list := l\<rparr>)))"

function maintain_a1out_size :: "cache \<Rightarrow> cache" where
  "maintain_a1out_size c =
     (if l_size (a1out_list c) > a1out_limit c \<and> l_size (a1out_list c) \<noteq> 0 then
        let g = the (l_head (a1out_list c));
            c = c\<lparr>a1out_map := (a1out_map c)(key_at (gmem c) g := None)\<rparr>
        in maintain_a1out_size (unlink_ghost g c)
      else c)"
  by pat_completeness auto

lemma list_unlink_size: "l_size (snd (list_unlink a (m, l))) = l_size l - 1"
  by (simp add: list_unlink_def Let_def split: option.splits)

termination maintain_a1out_size
proof (relation "measure (\<lambda>c. l_size (a1out_list c))", simp)
  fix c :: cache and g c1
  assume a: "a1out_limit c < l_size (a1out_list c) \<and> l_size (a1out_list c) \<noteq> 0"
    and c1: "c1 = c\<lparr>a1out_map := (a1out_map c)(key_at (gmem c) g := None)\<rparr>"
  show "(unlink_ghost g c1, c) \<in> measure (\<lambda>c. l_size (a1out_list c))"
    using a c1 list_unlink_size[of g "gmem c" "a1out_list c"]
    by (auto simp: unlink_ghost_def drop_ghost_def set_gmem_def split: prod.splits)
qed

definition evict_am :: "(nat \<Rightarrow> uint64) \<Rightarrow> addr \<Rightarrow> cache \<Rightarrow> cache" where
  "evict_am sz e c =
     (let c = c\<lparr>csize := csize c - get_item_size sz (value_at (emem c) e),
                am_map := (am_map c)(key_at (emem c) e := None)\<rparr>;
          (m, l) = list_unlink e (emem c, am_list c)
      in drop_entry e (set_emem m (c\<lparr>am_list := l\<rparr>)))"

function prune_am :: "(nat \<Rightarrow> uint64) \<Rightarrow> (nat \<Rightarrow> nat) \<Rightarrow> cache \<Rightarrow> cache" where
  "prune_am sz refs c =
     (if csize c > capacity c \<and> l_size (am_list c) \<noteq> 0 then
        (case find (\<lambda>e. can_evict refs (value_at (emem c) e))
                (nodes_from (l_size (am_list c)) (emem c) (l_head (am_list c))) of
           Some e \<Rightarrow> prune_am sz refs (evict_am sz e c)
         | None \<Rightarrow> c)
      else c)"
  by pat_completeness auto

termination prune_am
proof (relation "measure (\<lambda>(sz, refs, c). l_size (am_list c))", simp)
  fix sz refs and c :: cache and e
  assume "capacity c < csize c \<and> l_size (am_list c) \<noteq> 0"
  then show "((sz, refs, evict_am sz e c), sz, refs, c) \<in> measure (\<lambda>(sz, refs, c). l_size (am_list c))"
    using list_unlink_size[of e "emem c" "am_list c"]
    by (auto simp: evict_am_def drop_entry_def set_emem_def split: prod.splits)
qed

declare maintain_a1out_size.simps [simp del] prune_am.simps [simp del]

definition prune :: "(nat \<Rightarrow> uint64) \<Rightarrow> (nat \<Rightarrow> nat) \<Rightarrow> cache \<Rightarrow> cache" where
  "prune sz refs c = prune_am sz refs (maintain_a1out_size (maintain_a1in_size sz refs c))"

definition cache_put :: "(nat \<Rightarrow> uint64) \<Rightarrow> (nat \<Rightarrow> nat) \<Rightarrow> uint64 \<Rightarrow> cvalue \<Rightarrow> cache \<Rightarrow> cache" where
  "cache_put sz refs key v c =
     (if a1in_map c key \<noteq> None \<or> am_map c key \<noteq> None then c
      else let c = c\<lparr>csize := csize c + get_item_size sz v\<rparr>
           in prune sz refs
                (case a1out_map c key of
                   Some g \<Rightarrow>
                     (let c = unlink_ghost g c;
                          c = c\<lparr>a1out_map := (a1out_map c)(key := None)\<rparr>;
                          (e, p) = pool_alloc key v (entry_pool c);
                          (m, l) = push_back e (pmem p, am_list c)
                      in c\<lparr>entry_pool := p\<lparr>pmem := m\<rparr>, am_list := l, am_map := (am_map c)(key \<mapsto> e)\<rparr>)
                 | None \<Rightarrow>
                     (let (e, p) = pool_alloc key v (entry_pool c);
                          (m, l) = push_back e (pmem p, a1in_list c)
                      in c\<lparr>entry_pool := p\<lparr>pmem := m\<rparr>, a1in_list := l, a1in_map := (a1in_map c)(key \<mapsto> e),
                           a1in_current := a1in_current c + get_item_size sz v\<rparr>)))"

definition cache_count :: "cache \<Rightarrow> nat" where
  "cache_count c = card (dom (am_map c)) + card (dom (a1in_map c))"

section \<open>The abstract 2Q cache\<close>

text \<open>
  Three lists, the oldest element first: the entries seen once, the entries seen again and the keys
  of recently dropped entries.
\<close>

record twoq =
  q_in :: "(uint64 \<times> cvalue) list"
  q_am :: "(uint64 \<times> cvalue) list"
  q_out :: "uint64 list"

definition total :: "(nat \<Rightarrow> uint64) \<Rightarrow> (uint64 \<times> cvalue) list \<Rightarrow> uint64" where
  "total sz es = sum_list (map (\<lambda>e. get_item_size sz (snd e)) es)"

lemma total_simps [simp]: "total sz [] = 0" "total sz (e # es) = get_item_size sz (snd e) + total sz es"
  "total sz (es @ fs) = total sz es + total sz fs"
  by (simp_all add: total_def)

text \<open>Evicting from the front what can be evicted until the limit is met: the evicted and the kept.\<close>

fun split_evict :: "(nat \<Rightarrow> uint64) \<Rightarrow> (nat \<Rightarrow> nat) \<Rightarrow> uint64 \<Rightarrow> uint64 \<Rightarrow> (uint64 \<times> cvalue) list
    \<Rightarrow> (uint64 \<times> cvalue) list \<times> (uint64 \<times> cvalue) list" where
  "split_evict sz refs lim n [] = ([], [])"
| "split_evict sz refs lim n (e # es) =
     (if n > lim then
        if can_evict refs (snd e)
        then apfst ((#) e) (split_evict sz refs lim (n - get_item_size sz (snd e)) es)
        else apsnd ((#) e) (split_evict sz refs lim n es)
      else ([], e # es))"

definition remove_entry :: "uint64 \<Rightarrow> (uint64 \<times> cvalue) list \<Rightarrow> (uint64 \<times> cvalue) list" where
  "remove_entry k es = filter (\<lambda>e. fst e \<noteq> k) es"

definition spec_get :: "uint64 \<Rightarrow> twoq \<Rightarrow> cvalue option \<times> twoq" where
  "spec_get k q =
     (case map_of (q_in q) k of
        Some v \<Rightarrow> (Some v, q\<lparr>q_in := remove_entry k (q_in q), q_am := q_am q @ [(k, v)]\<rparr>)
      | None \<Rightarrow> (case map_of (q_am q) k of
          Some v \<Rightarrow> (Some v, q\<lparr>q_am := remove_entry k (q_am q) @ [(k, v)]\<rparr>)
        | None \<Rightarrow> (None, q)))"

definition spec_prune :: "(nat \<Rightarrow> uint64) \<Rightarrow> (nat \<Rightarrow> nat) \<Rightarrow> uint64 \<Rightarrow> uint64 \<Rightarrow> nat \<Rightarrow> twoq \<Rightarrow> twoq" where
  "spec_prune sz refs cap lim_in lim_out q =
     (let (dropped, kept) = split_evict sz refs lim_in (total sz (q_in q)) (q_in q);
          out = q_out q @ map fst dropped
      in \<lparr>q_in = kept, q_am = snd (split_evict sz refs cap (total sz kept + total sz (q_am q)) (q_am q)),
          q_out = drop (length out - lim_out) out\<rparr>)"

definition spec_put :: "(nat \<Rightarrow> uint64) \<Rightarrow> (nat \<Rightarrow> nat) \<Rightarrow> uint64 \<Rightarrow> uint64 \<Rightarrow> nat \<Rightarrow> uint64 \<Rightarrow> cvalue \<Rightarrow> twoq \<Rightarrow> twoq" where
  "spec_put sz refs cap lim_in lim_out k v q =
     (if k \<in> fst ` set (q_in q @ q_am q) then q
      else spec_prune sz refs cap lim_in lim_out
             (if k \<in> set (q_out q) then q\<lparr>q_out := filter (\<lambda>j. j \<noteq> k) (q_out q), q_am := q_am q @ [(k, v)]\<rparr>
              else q\<lparr>q_in := q_in q @ [(k, v)]\<rparr>))"

section \<open>Representation\<close>

definition idx :: "(uint64 \<rightharpoonup> addr) \<Rightarrow> (addr \<Rightarrow> uint64) \<Rightarrow> addr list \<Rightarrow> bool" where
  "idx m f xs \<longleftrightarrow> (\<forall>k a. m k = Some a \<longleftrightarrow> a \<in> set xs \<and> f a = k)"

lemma idx_insert: "idx m f xs \<Longrightarrow> f a \<notin> f ` set xs \<Longrightarrow> idx (m(f a \<mapsto> a)) f (xs @ [a])"
  by (auto simp: idx_def) (metis image_eqI)

lemma idx_inj: "idx m f xs \<Longrightarrow> inj_on f (set xs)"
  by (auto simp: idx_def inj_on_def) (metis option.inject)

lemma idx_remove: "idx m f (xs @ a # ys) \<Longrightarrow> distinct (xs @ a # ys) \<Longrightarrow> idx (m(f a := None)) f (xs @ ys)"
  using idx_inj[of m f "xs @ a # ys"] by (auto simp: idx_def inj_on_def)

lemma idx_cong: "idx m f xs \<Longrightarrow> \<forall>a\<in>set xs. g a = f a \<Longrightarrow> idx m g xs"
  by (auto simp: idx_def)

definition shape :: "cache \<Rightarrow> addr list \<Rightarrow> addr list \<Rightarrow> addr list \<Rightarrow> bool" where
  "shape c xs ys zs \<longleftrightarrow>
     dll (emem c) (a1in_list c) xs \<and> dll (emem c) (am_list c) ys \<and> dll (gmem c) (a1out_list c) zs
     \<and> set xs \<inter> set ys = {} \<and> pool_inv (entry_pool c) (set xs \<union> set ys) \<and> pool_inv (ghost_pool c) (set zs)
     \<and> idx (a1in_map c) (key_at (emem c)) xs \<and> idx (am_map c) (key_at (emem c)) ys
     \<and> idx (a1out_map c) (key_at (gmem c)) zs"

definition abs_q :: "cache \<Rightarrow> addr list \<Rightarrow> addr list \<Rightarrow> addr list \<Rightarrow> twoq" where
  "abs_q c xs ys zs = \<lparr>q_in = map (content (emem c)) xs, q_am = map (content (emem c)) ys,
     q_out = map (key_at (gmem c)) zs\<rparr>"

definition keys_ok :: "twoq \<Rightarrow> bool" where
  "keys_ok q \<longleftrightarrow> distinct (map fst (q_in q) @ map fst (q_am q) @ q_out q)"

definition cache_repr :: "(nat \<Rightarrow> uint64) \<Rightarrow> cache \<Rightarrow> twoq \<Rightarrow> bool" where
  "cache_repr sz c q \<longleftrightarrow> (\<exists>xs ys zs. shape c xs ys zs \<and> q = abs_q c xs ys zs) \<and> keys_ok q
     \<and> csize c = total sz (q_in q) + total sz (q_am q) \<and> a1in_current c = total sz (q_in q)"

lemma content_key_value: "content m a = (key_at m a, value_at m a)" "fst (content m' a) = key_at m' a"
  by (simp_all add: content_def key_at_def value_at_def)

lemma key_at_content: "content m' = content m \<Longrightarrow> key_at m' = key_at m"
  by (metis content_key_value(2) ext)

lemma content_upd_links: "\<forall>a. fst (content m a) = key_at m a" by (simp add: content_key_value)

text \<open>Freeing a node and appending a new one.\<close>

lemma pool_free_other: "b \<noteq> a \<Longrightarrow> pmem (pool_free a p) b = pmem p b"
  by (simp add: pool_free_def)

lemma dll_free: "dll m l xs \<Longrightarrow> a \<notin> set xs \<Longrightarrow> m = pmem p \<Longrightarrow> dll (pmem (pool_free a p)) l xs"
  by (rule dll_frame) (auto simp: pool_free_def)

lemma remove_node:
  assumes d: "dll (pmem p) l (us @ e # ws)" and live: "pool_inv p live" "set (us @ e # ws) \<subseteq> live"
    and u: "list_unlink e (pmem p, l) = (m, l')" and p': "p' = pool_free e (p\<lparr>pmem := m\<rparr>)"
  shows "dll (pmem p') l' (us @ ws)" "pool_inv p' (live - {e})"
    "\<And>b. b \<noteq> e \<Longrightarrow> content (pmem p') b = content (pmem p) b"
    "\<And>b. b \<notin> set (us @ e # ws) \<Longrightarrow> pmem p' b = pmem p b"
proof -
  have r: "dll m l' (us @ ws)" and k: "keeps (set (us @ e # ws)) (pmem p) m" using list_unlink_dll[OF d u] by auto
  have dist: "distinct (us @ e # ws)" using d by (simp add: dll_def)
  have "\<forall>a\<in>live. is_object (m a)" using live(1) keepsD(3)[OF k] by (auto simp: pool_inv_def)
  moreover have "m b = pmem p b" if "b \<notin> live" for b using keepsD(2)[OF k, of b] live(2) that by blast
  ultimately have "pool_inv (p\<lparr>pmem := m\<rparr>) live" using live(1) by (intro pool_inv_objects) auto
  then show "pool_inv p' (live - {e})" using pool_free_inv live(2) p' by auto
  show "dll (pmem p') l' (us @ ws)" using dll_free[OF r, of e "p\<lparr>pmem := m\<rparr>"] dist p' by simp
  show "content (pmem p') b = content (pmem p) b" if "b \<noteq> e" for b
    using that keepsD(1)[OF k] p' by (simp add: content_def pool_free_def fun_eq_iff)
  show "pmem p' b = pmem p b" if "b \<notin> set (us @ e # ws)" for b
    using that keepsD(2)[OF k that] p' by (simp add: pool_free_def)
qed

lemma append_node:
  assumes d: "dll (pmem p) l xs" and live: "pool_inv p live" "set xs \<subseteq> live"
    and a: "pool_alloc k v p = (e, p1)" and b: "push_back e (pmem p1, l) = (m, l')" and p': "p' = p1\<lparr>pmem := m\<rparr>"
  shows "e \<notin> live" "dll (pmem p') l' (xs @ [e])" "pool_inv p' (insert e live)"
    "\<And>b. b \<in> live \<Longrightarrow> content (pmem p') b = content (pmem p) b" "content (pmem p') e = (k, v)"
    "\<And>b. b \<in> live \<Longrightarrow> b \<notin> set xs \<Longrightarrow> pmem p' b = pmem p b"
proof -
  have al: "e \<notin> live" "pool_inv p1 (insert e live)" "\<forall>b\<in>live. pmem p1 b = pmem p b"
    "pmem p1 e = Storage \<lparr>ekey = k, evalue = v, eprev = None, enext = None\<rparr>" using pool_alloc_inv[OF live(1) a] by auto
  then show "e \<notin> live" by simp
  have "dll (pmem p1) l xs" using dll_frame[OF d] al(3) live(2) by blast
  then have r: "dll m l' (xs @ [e])" and k: "keeps (insert e (set xs)) (pmem p1) m"
    using push_back_dll[OF _ _ b] al(1) live(2) by auto
  show "dll (pmem p') l' (xs @ [e])" using r p' by simp
  have "\<forall>a\<in>insert e live. is_object (m a)" using al(2) keepsD(3)[OF k] by (auto simp: pool_inv_def)
  moreover have "m b = pmem p1 b" if "b \<notin> insert e live" for b using keepsD(2)[OF k, of b] live(2) that by blast
  ultimately show "pool_inv p' (insert e live)" unfolding p' using al(2) by (intro pool_inv_objects) auto
  show "content (pmem p') b = content (pmem p) b" if "b \<in> live" for b
    using keepsD(1)[OF k] al(3) that p' by (simp add: content_def fun_eq_iff)
  show "content (pmem p') e = (k, v)" using keepsD(1)[OF k] al(4) p' by (simp add: content_def)
  show "pmem p' b = pmem p b" if "b \<in> live" "b \<notin> set xs" for b
    using keepsD(2)[OF k, of b] al(1,3) that p' by auto
qed

definition counters :: "cache \<Rightarrow> uint64 \<times> uint64 \<times> uint64 \<times> uint64 \<times> nat" where
  "counters c = (csize c, a1in_current c, capacity c, a1in_limit c, a1out_limit c)"

lemma idx_content:
  "idx m (key_at h) xs \<Longrightarrow> (\<And>a. a \<in> set xs \<Longrightarrow> content h' a = content h a) \<Longrightarrow> idx m (key_at h') xs"
  by (rule idx_cong) (auto simp: content_key_value(2)[symmetric])

lemma map_content:
  "(\<And>a. a \<in> set xs \<Longrightarrow> content h' a = content h a) \<Longrightarrow> map (content h') xs = map (content h) xs
    \<and> map (key_at h') xs = map (key_at h) xs"
  by (auto simp: content_key_value(2)[symmetric])

lemma shapeD:
  assumes "shape c xs ys zs"
  shows "distinct xs" "distinct ys" "distinct zs" "set xs \<inter> set ys = {}"
  using assms by (auto simp: shape_def dll_def)

lemma dll_keep:
  assumes "dll m l xs" "\<And>a. a \<in> set xs \<Longrightarrow> m' a = m a" shows "dll m' l xs"
  using assms dll_frame by blast

lemma evict_a1in_shape:
  assumes s: "shape c (us @ e # ws) ys zs" and k: "key_at (emem c) e \<notin> key_at (gmem c) ` set zs"
  obtains g where "shape (evict_a1in e c) (us @ ws) ys (zs @ [g])" "counters (evict_a1in e c) = counters c"
    "abs_q (evict_a1in e c) (us @ ws) ys (zs @ [g])
      = \<lparr>q_in = map (content (emem c)) (us @ ws), q_am = map (content (emem c)) ys,
         q_out = map (key_at (gmem c)) zs @ [key_at (emem c) e]\<rparr>"
    "\<And>b. b \<noteq> e \<Longrightarrow> content (emem (evict_a1in e c)) b = content (emem c) b"
proof -
  let ?k = "key_at (emem c) e" and ?c' = "evict_a1in e c"
  obtain g gp where a: "pool_alloc ?k 0 (ghost_pool c) = (g, gp)" by fastforce
  obtain gm gl where b: "push_back g (pmem gp, a1out_list c) = (gm, gl)" by fastforce
  obtain m l where u: "list_unlink e (emem c, a1in_list c) = (m, l)" by fastforce
  define G where "G = gp\<lparr>pmem := gm\<rparr>"
  define E where "E = pool_free e ((entry_pool c)\<lparr>pmem := m\<rparr>)"
  have c': "?c' = c\<lparr>ghost_pool := G, a1out_list := gl, a1out_map := (a1out_map c)(?k \<mapsto> g),
      a1in_map := (a1in_map c)(?k := None), a1in_list := l, entry_pool := E\<rparr>"
    using a b u by (simp add: evict_a1in_def drop_entry_def set_emem_def Let_def G_def E_def)
  have d: "distinct (us @ e # ws)" "e \<notin> set ys" "set (us @ e # ws) \<inter> set ys = {}" using shapeD[OF s] by auto
  have l0: "dll (emem c) (a1in_list c) (us @ e # ws)" "pool_inv (entry_pool c) (set (us @ e # ws) \<union> set ys)"
    "set (us @ e # ws) \<subseteq> set (us @ e # ws) \<union> set ys" using s by (auto simp: shape_def)
  note E = remove_node[OF l0 u E_def]
  have live: "set (us @ e # ws) \<union> set ys - {e} = set (us @ ws) \<union> set ys" using d by auto
  have ym: "pmem E b = emem c b" if "b \<in> set ys" for b using E(4)[of b] d(3) that by auto
  have ec: "content (pmem E) b = content (emem c) b" if "b \<in> set us \<or> b \<in> set ws \<or> b \<in> set ys" for b
    using E(3)[of b] d that by auto
  have z0: "dll (gmem c) (a1out_list c) zs" "pool_inv (ghost_pool c) (set zs)" "set zs \<subseteq> set zs"
    using s by (auto simp: shape_def)
  note G = append_node[OF z0 a b G_def]
  have kg: "key_at (pmem G) g = ?k" using G(5) by (simp add: content_key_value(2)[symmetric])
  have "idx ((a1in_map c)(?k := None)) (key_at (emem c)) (us @ ws)"
    using idx_remove[of "a1in_map c" "key_at (emem c)" us e ws] s d(1) by (simp add: shape_def)
  then have i1: "idx ((a1in_map c)(?k := None)) (key_at (pmem E)) (us @ ws)"
    by (rule idx_content) (use ec in auto)
  have i2: "idx (am_map c) (key_at (pmem E)) ys"
    by (rule idx_content[where h = "emem c"]) (use s ec in \<open>auto simp: shape_def\<close>)
  have i3: "idx (a1out_map c) (key_at (pmem G)) zs"
    by (rule idx_content[where h = "gmem c"]) (use s G(4) in \<open>auto simp: shape_def\<close>)
  have gz: "map (key_at (pmem G)) zs = map (key_at (gmem c)) zs" using map_content[of zs "pmem G" "gmem c"] G(4) by simp
  then have "?k \<notin> key_at (pmem G) ` set zs" using k by (metis list.set_map)
  then have i4: "idx ((a1out_map c)(?k \<mapsto> g)) (key_at (pmem G)) (zs @ [g])" using idx_insert[OF i3, of g] kg by simp
  have "dll (pmem E) (am_list c) ys" by (rule dll_keep[where m = "emem c"]) (use s ym in \<open>auto simp: shape_def\<close>)
  then have "shape ?c' (us @ ws) ys (zs @ [g])" using E(1) E(2)[unfolded live] G(2,3) i1 i2 i4 d(3) by (auto simp: shape_def c')
  moreover have "counters ?c' = counters c" by (simp add: counters_def c')
  moreover have "map (content (pmem E)) (us @ ws) = map (content (emem c)) (us @ ws)"
    "map (content (pmem E)) ys = map (content (emem c)) ys" using ec by auto
  ultimately show thesis using that[of g] E(3) gz kg by (simp add: abs_q_def c')
qed

lemma keys_apart:
  assumes "shape c (us @ e # ws) ys zs"
  shows "key_at (emem c) e \<notin> key_at (emem c) ` set (us @ ws)"
proof -
  have "inj_on (key_at (emem c)) (set (us @ e # ws))" using assms idx_inj unfolding shape_def by blast
  moreover have "distinct (us @ e # ws)" using shapeD(1)[OF assms] .
  ultimately show ?thesis by (auto simp: inj_on_def)
qed

lemma fold_evict_shape:
  assumes "shape c xs ys zs" "set ev \<subseteq> set xs" "distinct ev"
    "key_at (emem c) ` set xs \<inter> key_at (gmem c) ` set zs = {}"
  shows "\<exists>gs. shape (fold evict_a1in ev c) (filter (\<lambda>a. a \<notin> set ev) xs) ys (zs @ gs)
    \<and> counters (fold evict_a1in ev c) = counters c
    \<and> abs_q (fold evict_a1in ev c) (filter (\<lambda>a. a \<notin> set ev) xs) ys (zs @ gs)
      = \<lparr>q_in = map (content (emem c)) (filter (\<lambda>a. a \<notin> set ev) xs), q_am = map (content (emem c)) ys,
         q_out = map (key_at (gmem c)) zs @ map (key_at (emem c)) ev\<rparr>"
  using assms
proof (induction ev arbitrary: c xs zs)
  case Nil
  then show ?case by (intro exI[of _ "[]"]) (simp add: abs_q_def)
next
  case (Cons e ev)
  obtain us ws where xs: "xs = us @ e # ws" using Cons.prems(2) by (auto dest: split_list)
  have d: "distinct (us @ e # ws)" using shapeD(1) Cons.prems(1) xs by blast
  let ?c = "evict_a1in e c"
  have "key_at (emem c) e \<notin> key_at (gmem c) ` set zs" using Cons.prems(4) xs by auto
  from evict_a1in_shape[OF Cons.prems(1)[unfolded xs] this] obtain g where
    g: "shape ?c (us @ ws) ys (zs @ [g])" "counters ?c = counters c"
      "abs_q ?c (us @ ws) ys (zs @ [g]) = \<lparr>q_in = map (content (emem c)) (us @ ws), q_am = map (content (emem c)) ys,
         q_out = map (key_at (gmem c)) zs @ [key_at (emem c) e]\<rparr>"
      "\<And>b. b \<noteq> e \<Longrightarrow> content (emem ?c) b = content (emem c) b" by metis
  have ko: "map (key_at (gmem ?c)) (zs @ [g]) = map (key_at (gmem c)) zs @ [key_at (emem c) e]"
    and am: "map (content (emem ?c)) ys = map (content (emem c)) ys"
    using g(3) by (auto simp: abs_q_def)
  have ce: "content (emem ?c) b = content (emem c) b" if "b \<in> set (us @ ws) \<or> b \<in> set ev" for b
    using g(4)[of b] that d Cons.prems(3) by auto
  then have kk: "key_at (emem ?c) b = key_at (emem c) b" if "b \<in> set (us @ ws) \<or> b \<in> set ev" for b
    using that by (simp add: content_key_value(2)[symmetric])
  have "key_at (gmem ?c) ` set (zs @ [g]) = insert (key_at (emem c) e) (key_at (gmem c) ` set zs)"
    using arg_cong[OF ko, of set] by simp
  moreover have "key_at (emem ?c) ` set (us @ ws) = key_at (emem c) ` set (us @ ws)" using kk by (intro image_cong) auto
  ultimately have "key_at (emem ?c) ` set (us @ ws) \<inter> key_at (gmem ?c) ` set (zs @ [g]) = {}"
    using Cons.prems(4) keys_apart[OF Cons.prems(1)[unfolded xs]] unfolding xs by auto
  moreover have "set ev \<subseteq> set (us @ ws)" using Cons.prems(2,3) xs by auto
  ultimately obtain gs where gs:
    "shape (fold evict_a1in ev ?c) (filter (\<lambda>a. a \<notin> set ev) (us @ ws)) ys ((zs @ [g]) @ gs)"
    "counters (fold evict_a1in ev ?c) = counters ?c"
    "abs_q (fold evict_a1in ev ?c) (filter (\<lambda>a. a \<notin> set ev) (us @ ws)) ys ((zs @ [g]) @ gs)
      = \<lparr>q_in = map (content (emem ?c)) (filter (\<lambda>a. a \<notin> set ev) (us @ ws)), q_am = map (content (emem ?c)) ys,
         q_out = map (key_at (gmem ?c)) (zs @ [g]) @ map (key_at (emem ?c)) ev\<rparr>"
    using Cons.IH[OF g(1)] Cons.prems(3) by force
  have f: "filter (\<lambda>a. a \<notin> set (e # ev)) xs = filter (\<lambda>a. a \<notin> set ev) (us @ ws)"
    unfolding xs using d by (auto intro!: arg_cong2[where f = append] filter_cong)
  have "map (content (emem ?c)) (filter (\<lambda>a. a \<notin> set ev) (us @ ws)) = map (content (emem c)) (filter (\<lambda>a. a \<notin> set ev) (us @ ws))"
    using ce by auto
  moreover have "map (key_at (emem ?c)) ev = map (key_at (emem c)) ev" using kk by auto
  ultimately show ?case unfolding f using gs g(2) am ko
    by (intro exI[of _ "g # gs"]) simp
qed

lemma collect_split:
  assumes "collect sz refs m lim es n sizes = (ev, sizes')" "distinct es"
  shows "map (content m) ev = fst (split_evict sz refs lim n (map (content m) es))"
    "map (content m) (filter (\<lambda>a. a \<notin> set ev) es) = snd (split_evict sz refs lim n (map (content m) es))"
    "set ev \<subseteq> set es" "distinct ev"
    "sizes' = (fst sizes - total sz (map (content m) ev), snd sizes - total sz (map (content m) ev))"
proof -
  have "map (content m) ev = fst (split_evict sz refs lim n (map (content m) es))
    \<and> map (content m) (filter (\<lambda>a. a \<notin> set ev) es) = snd (split_evict sz refs lim n (map (content m) es))
    \<and> set ev \<subseteq> set es \<and> distinct ev
    \<and> sizes' = (fst sizes - total sz (map (content m) ev), snd sizes - total sz (map (content m) ev))"
    using assms
  proof (induction es arbitrary: n sizes ev sizes')
    case Nil then show ?case by simp
  next
    case (Cons e es)
    have v: "snd (content m e) = value_at m e" by (simp add: content_key_value)
    consider "n \<le> lim" | "n > lim" "\<not> can_evict refs (value_at m e)" | "n > lim" "can_evict refs (value_at m e)"
      by force
    then show ?case
    proof cases
      case 1 then show ?thesis using Cons.prems by auto
    next
      case 2
      then have "collect sz refs m lim es n sizes = (ev, sizes')" using Cons.prems(1) by simp
      from Cons.IH[OF this] show ?thesis using 2 v Cons.prems(2) by auto
    next
      case 3
      let ?n = "get_item_size sz (value_at m e)"
      obtain ev1 s1 where r: "collect sz refs m lim es (n - ?n) (fst sizes - ?n, snd sizes - ?n) = (ev1, s1)" by (metis surj_pair)
      then have ev: "ev = e # ev1" "sizes' = s1" using Cons.prems(1) 3 by (auto simp: Let_def)
      have "filter (\<lambda>a. a \<notin> set ev) (e # es) = filter (\<lambda>a. a \<notin> set ev1) es"
        unfolding ev(1) using Cons.prems(2) by (auto intro!: filter_cong)
      then show ?thesis using Cons.IH[OF r] 3 v Cons.prems(2) ev by (auto simp: diff_diff_eq)
    qed
  qed
  then show "map (content m) ev = fst (split_evict sz refs lim n (map (content m) es))"
    "map (content m) (filter (\<lambda>a. a \<notin> set ev) es) = snd (split_evict sz refs lim n (map (content m) es))"
    "set ev \<subseteq> set es" "distinct ev"
    "sizes' = (fst sizes - total sz (map (content m) ev), snd sizes - total sz (map (content m) ev))" by blast+
qed

lemma split_evict_total: "total sz (fst (split_evict sz refs lim n es)) + total sz (snd (split_evict sz refs lim n es)) = total sz es"
  by (induction es arbitrary: n) (auto simp: algebra_simps)

lemma split_evict_none: "n \<le> lim \<Longrightarrow> split_evict sz refs lim n es = ([], es)"
  by (cases es) auto

definition lists :: "cache \<Rightarrow> twoq \<Rightarrow> bool" where
  "lists c q \<longleftrightarrow> (\<exists>xs ys zs. shape c xs ys zs \<and> q = abs_q c xs ys zs)"

lemma listsI: "shape c xs ys zs \<Longrightarrow> q = abs_q c xs ys zs \<Longrightarrow> lists c q"
  by (auto simp: lists_def)

lemma shape_counters [simp]:
  "shape (c\<lparr>csize := a, a1in_current := b\<rparr>) xs ys zs = shape c xs ys zs"
  "shape (c\<lparr>csize := a\<rparr>) xs ys zs = shape c xs ys zs"
  "abs_q (c\<lparr>csize := a, a1in_current := b\<rparr>) xs ys zs = abs_q c xs ys zs"
  "abs_q (c\<lparr>csize := a\<rparr>) xs ys zs = abs_q c xs ys zs"
  by (simp_all add: shape_def abs_q_def)

lemma maintain_a1in_lists:
  assumes "lists c q" "keys_ok q" "a1in_current c = total sz (q_in q)"
    and sp: "split_evict sz refs (a1in_limit c) (total sz (q_in q)) (q_in q) = (dropped, kept)"
  shows "lists (maintain_a1in_size sz refs c) (q\<lparr>q_in := kept, q_out := q_out q @ map fst dropped\<rparr>)
    \<and> counters (maintain_a1in_size sz refs c)
      = (csize c - total sz dropped, a1in_current c - total sz dropped, capacity c, a1in_limit c, a1out_limit c)"
proof -
  obtain xs ys zs where s: "shape c xs ys zs" and q: "q = abs_q c xs ys zs" using assms(1) by (auto simp: lists_def)
  let ?m = "emem c" and ?c' = "maintain_a1in_size sz refs c"
  have qi: "q_in q = map (content ?m) xs" "q_am q = map (content ?m) ys" "q_out q = map (key_at (gmem c)) zs"
    by (simp_all add: q abs_q_def)
  show ?thesis
  proof (cases "a1in_current c \<le> a1in_limit c")
    case True
    then have "dropped = []" "kept = q_in q" using sp split_evict_none unfolding assms(3) by auto
    moreover have "?c' = c" using True by (simp add: maintain_a1in_size_def)
    ultimately show ?thesis using assms(1) by (cases q) (simp add: counters_def)
  next
    case False
    have nodes: "nodes_from (l_size (a1in_list c)) ?m (l_head (a1in_list c)) = xs"
      using s dll_nodes by (auto simp: shape_def)
    obtain ev sizes' where col: "collect sz refs ?m (a1in_limit c) xs (a1in_current c) (csize c, a1in_current c) = (ev, sizes')"
      by (metis surj_pair)
    note cs = collect_split[OF col shapeD(1)[OF s]]
    have dk: "map (content ?m) ev = dropped" "map (content ?m) (filter (\<lambda>a. a \<notin> set ev) xs) = kept"
      using cs(1,2) sp assms(3) qi by auto
    have c': "?c' = fold evict_a1in ev (c\<lparr>csize := csize c - total sz dropped, a1in_current := a1in_current c - total sz dropped\<rparr>)"
      using False nodes col cs(5) dk by (simp add: maintain_a1in_size_def)
    have "key_at ?m ` set xs \<inter> key_at (gmem c) ` set zs = {}"
      using assms(2) by (auto simp: keys_ok_def qi content_key_value o_def)
    then obtain gs where gs: "shape ?c' (filter (\<lambda>a. a \<notin> set ev) xs) ys (zs @ gs)"
      "counters ?c' = (csize c - total sz dropped, a1in_current c - total sz dropped, capacity c, a1in_limit c, a1out_limit c)"
      "abs_q ?c' (filter (\<lambda>a. a \<notin> set ev) xs) ys (zs @ gs)
        = \<lparr>q_in = map (content ?m) (filter (\<lambda>a. a \<notin> set ev) xs), q_am = map (content ?m) ys,
           q_out = map (key_at (gmem c)) zs @ map (key_at ?m) ev\<rparr>"
      using fold_evict_shape[of "c\<lparr>csize := csize c - total sz dropped, a1in_current := a1in_current c - total sz dropped\<rparr>" xs ys zs ev]
        s cs(3,4) unfolding c' by (auto simp: counters_def)
    have "map (key_at ?m) ev = map fst dropped" by (simp add: dk(1)[symmetric] content_key_value o_def)
    then have "abs_q ?c' (filter (\<lambda>a. a \<notin> set ev) xs) ys (zs @ gs) = q\<lparr>q_in := kept, q_out := q_out q @ map fst dropped\<rparr>"
      unfolding gs(3) using dk(2) by (simp add: q abs_q_def)
    then show ?thesis using gs(2) listsI[OF gs(1)] by simp
  qed
qed

text \<open>Dropping a ghost.\<close>

lemma unlink_ghost_shape:
  assumes s: "shape c xs ys (us @ g # ws)" and c': "c' = (unlink_ghost g c)\<lparr>a1out_map := (a1out_map c)(key_at (gmem c) g := None)\<rparr>"
  shows "shape c' xs ys (us @ ws)" "counters c' = counters c"
    "abs_q c' xs ys (us @ ws) = (abs_q c xs ys zs)\<lparr>q_out := map (key_at (gmem c)) (us @ ws)\<rparr>"
proof -
  obtain m l where u: "list_unlink g (gmem c, a1out_list c) = (m, l)" by fastforce
  define G where "G = pool_free g ((ghost_pool c)\<lparr>pmem := m\<rparr>)"
  have f: "c' = c\<lparr>ghost_pool := G, a1out_list := l, a1out_map := (a1out_map c)(key_at (gmem c) g := None)\<rparr>"
    unfolding c' using u by (simp add: unlink_ghost_def drop_ghost_def set_gmem_def G_def)
  have z0: "dll (gmem c) (a1out_list c) (us @ g # ws)" "pool_inv (ghost_pool c) (set (us @ g # ws))"
    "set (us @ g # ws) \<subseteq> set (us @ g # ws)" using s by (auto simp: shape_def)
  note G = remove_node[OF z0 u G_def]
  have d: "distinct (us @ g # ws)" using shapeD(3)[OF s] .
  have live: "set (us @ g # ws) - {g} = set (us @ ws)" using d by auto
  have ec: "content (pmem G) b = content (gmem c) b" if "b \<in> set us \<or> b \<in> set ws" for b
    using G(3)[of b] d that by auto
  have "idx ((a1out_map c)(key_at (gmem c) g := None)) (key_at (gmem c)) (us @ ws)"
    using idx_remove[of "a1out_map c" "key_at (gmem c)" us g ws] s d by (simp add: shape_def)
  then have "idx ((a1out_map c)(key_at (gmem c) g := None)) (key_at (pmem G)) (us @ ws)"
    by (rule idx_content) (use ec in auto)
  then show "shape c' xs ys (us @ ws)" using s G(1) G(2)[unfolded live] by (simp add: shape_def f)
  show "counters c' = counters c" by (simp add: counters_def f)
  have "map (key_at (pmem G)) (us @ ws) = map (key_at (gmem c)) (us @ ws)"
    using map_content[of "us @ ws" "pmem G" "gmem c"] ec by auto
  then show "abs_q c' xs ys (us @ ws) = (abs_q c xs ys zs)\<lparr>q_out := map (key_at (gmem c)) (us @ ws)\<rparr>"
    by (simp add: abs_q_def f)
qed

lemma evict_am_shape:
  assumes s: "shape c xs (us @ e # ws) zs"
  shows "shape (evict_am sz e c) xs (us @ ws) zs"
    "counters (evict_am sz e c) = (csize c - get_item_size sz (value_at (emem c) e), a1in_current c, capacity c, a1in_limit c, a1out_limit c)"
    "abs_q (evict_am sz e c) xs (us @ ws) zs = (abs_q c xs ys zs)\<lparr>q_am := map (content (emem c)) (us @ ws)\<rparr>"
proof -
  let ?c' = "evict_am sz e c"
  obtain m l where u: "list_unlink e (emem c, am_list c) = (m, l)" by fastforce
  define E where "E = pool_free e ((entry_pool c)\<lparr>pmem := m\<rparr>)"
  have f: "?c' = c\<lparr>csize := csize c - get_item_size sz (value_at (emem c) e),
      am_map := (am_map c)(key_at (emem c) e := None), am_list := l, entry_pool := E\<rparr>"
    using u by (simp add: evict_am_def drop_entry_def set_emem_def E_def Let_def)
  have d: "distinct (us @ e # ws)" "e \<notin> set xs" "set (us @ e # ws) \<inter> set xs = {}" using shapeD[OF s] by auto
  have l0: "dll (emem c) (am_list c) (us @ e # ws)" "pool_inv (entry_pool c) (set xs \<union> set (us @ e # ws))"
    "set (us @ e # ws) \<subseteq> set xs \<union> set (us @ e # ws)" using s by (auto simp: shape_def)
  note E = remove_node[OF l0 u E_def]
  have live: "set xs \<union> set (us @ e # ws) - {e} = set xs \<union> set (us @ ws)" using d by auto
  have ym: "pmem E b = emem c b" if "b \<in> set xs" for b using E(4)[of b] d(3) that by auto
  have ec: "content (pmem E) b = content (emem c) b" if "b \<in> set us \<or> b \<in> set ws \<or> b \<in> set xs" for b
    using E(3)[of b] d that by auto
  have "idx ((am_map c)(key_at (emem c) e := None)) (key_at (emem c)) (us @ ws)"
    using idx_remove[of "am_map c" "key_at (emem c)" us e ws] s d(1) by (simp add: shape_def)
  then have i1: "idx ((am_map c)(key_at (emem c) e := None)) (key_at (pmem E)) (us @ ws)"
    by (rule idx_content) (use ec in auto)
  have i2: "idx (a1in_map c) (key_at (pmem E)) xs"
    by (rule idx_content[where h = "emem c"]) (use s ec in \<open>auto simp: shape_def\<close>)
  have "dll (pmem E) (a1in_list c) xs" by (rule dll_keep[where m = "emem c"]) (use s ym in \<open>auto simp: shape_def\<close>)
  then show "shape ?c' xs (us @ ws) zs" using s E(1) E(2)[unfolded live] i1 i2 d(3) by (auto simp: shape_def f)
  show "counters ?c' = (csize c - get_item_size sz (value_at (emem c) e), a1in_current c, capacity c, a1in_limit c, a1out_limit c)"
    by (simp add: counters_def f)
  show "abs_q ?c' xs (us @ ws) zs = (abs_q c xs ys zs)\<lparr>q_am := map (content (emem c)) (us @ ws)\<rparr>"
    using ec by (simp add: abs_q_def f)
qed

lemma maintain_a1out_shape:
  assumes "shape c xs ys zs"
  shows "shape (maintain_a1out_size c) xs ys (drop (length zs - a1out_limit c) zs)
    \<and> counters (maintain_a1out_size c) = counters c
    \<and> abs_q (maintain_a1out_size c) xs ys (drop (length zs - a1out_limit c) zs)
      = (abs_q c xs ys zs)\<lparr>q_out := map (key_at (gmem c)) (drop (length zs - a1out_limit c) zs)\<rparr>"
  using assms
proof (induction zs arbitrary: c)
  case Nil
  then have "l_size (a1out_list c) = 0" by (simp add: shape_def dll_def list_of_def)
  then have "maintain_a1out_size c = c" by (simp add: maintain_a1out_size.simps)
  then show ?case using Nil by (simp add: abs_q_def)
next
  case (Cons g ws)
  have l: "l_size (a1out_list c) = Suc (length ws)" "l_head (a1out_list c) = Some g"
    using Cons.prems by (auto simp: shape_def dll_def list_of_def)
  show ?case
  proof (cases "a1out_limit c < Suc (length ws)")
    case False
    then have "maintain_a1out_size c = c" using l by (simp add: maintain_a1out_size.simps)
    then show ?thesis using False Cons.prems by (simp add: abs_q_def not_less)
  next
    case True
    define c1 where "c1 = (unlink_ghost g c)\<lparr>a1out_map := (a1out_map c)(key_at (gmem c) g := None)\<rparr>"
    have "unlink_ghost g (c\<lparr>a1out_map := (a1out_map c)(key_at (gmem c) g := None)\<rparr>) = c1"
      by (simp add: c1_def unlink_ghost_def drop_ghost_def set_gmem_def split: prod.splits)
    then have step: "maintain_a1out_size c = maintain_a1out_size c1"
      using True l by (subst maintain_a1out_size.simps) (simp add: Let_def)
    have "shape c xs ys ([] @ g # ws)" using Cons.prems by simp
    note u0 = unlink_ghost_shape[OF this c1_def]
    have u: "shape c1 xs ys ws" "counters c1 = counters c"
      "abs_q c1 xs ys ws = (abs_q c xs ys (g # ws))\<lparr>q_out := map (key_at (gmem c)) ws\<rparr>"
      using u0(1,2) u0(3)[of "g # ws"] by simp_all
    have lim: "a1out_limit c1 = a1out_limit c" using u(2) by (simp add: counters_def)
    have k: "map (key_at (gmem c1)) ws = map (key_at (gmem c)) ws" using u(3) by (simp add: abs_q_def)
    then have "map (key_at (gmem c1)) (drop n ws) = map (key_at (gmem c)) (drop n ws)" for n
      by (metis drop_map)
    then show ?thesis unfolding step using Cons.IH[OF u(1)] u(2,3) True
      by (simp add: lim Suc_diff_le abs_q_def)
  qed
qed

lemma skip_pinned:
  "\<forall>e\<in>set us. \<not> can_evict refs (snd e) \<Longrightarrow>
    snd (split_evict sz refs lim n (us @ ws)) = us @ snd (split_evict sz refs lim n ws)"
proof (cases "n \<le> lim")
  case True then show ?thesis by (simp add: split_evict_none)
next
  case False
  then show "\<forall>e\<in>set us. \<not> can_evict refs (snd e) \<Longrightarrow> ?thesis" by (induction us) auto
qed

lemma find_first:
  "find P xs = Some x \<Longrightarrow> \<exists>us ws. xs = us @ x # ws \<and> P x \<and> (\<forall>y\<in>set us. \<not> P y)"
proof (induction xs)
  case (Cons y xs)
  show ?case
  proof (cases "P y")
    case True then show ?thesis using Cons.prems by (intro exI[of _ "[]"] exI[of _ xs]) auto
  next
    case False
    then obtain us ws where "xs = us @ x # ws" "P x" "\<forall>z\<in>set us. \<not> P z" using Cons by auto
    then show ?thesis using False by (intro exI[of _ "y # us"] exI[of _ ws]) auto
  qed
qed simp

lemma prune_am_shape:
  assumes "shape c xs ys zs"
  shows "\<exists>ys'. shape (prune_am sz refs c) xs ys' zs
    \<and> abs_q (prune_am sz refs c) xs ys' zs
      = (abs_q c xs ys zs)\<lparr>q_am := snd (split_evict sz refs (capacity c) (csize c) (map (content (emem c)) ys))\<rparr>
    \<and> counters (prune_am sz refs c)
      = (csize c - total sz (fst (split_evict sz refs (capacity c) (csize c) (map (content (emem c)) ys))),
         a1in_current c, capacity c, a1in_limit c, a1out_limit c)"
  using assms
proof (induction "length ys" arbitrary: c ys rule: less_induct)
  case less
  let ?P = "\<lambda>e. can_evict refs (value_at (emem c) e)" and ?f = "\<lambda>e. can_evict refs (snd (content (emem c) e))"
  let ?sp = "split_evict sz refs (capacity c) (csize c) (map (content (emem c)) ys)"
  have l: "l_size (am_list c) = length ys" "nodes_from (length ys) (emem c) (l_head (am_list c)) = ys"
    using less.prems dll_nodes[of "emem c" "am_list c" ys] by (auto simp: shape_def dll_def list_of_def)
  show ?case
  proof (cases "csize c > capacity c \<and> find ?P ys \<noteq> None")
    case False
    have "snd ?sp = map (content (emem c)) ys \<and> fst ?sp = []"
    proof (cases "csize c > capacity c")
      case True
      then have "\<forall>e\<in>set ys. \<not> ?P e" using False by (simp add: find_None_iff)
      then show ?thesis
      proof (induction ys)
        case (Cons y ys)
        then show ?case using True by (simp add: content_key_value)
      qed simp
    qed (simp add: split_evict_none)
    moreover have "prune_am sz refs c = c"
      using False l by (subst prune_am.simps) (auto split: option.splits)
    ultimately show ?thesis using less.prems by (intro exI[of _ ys]) (simp add: abs_q_def counters_def)
  next
    case True
    then obtain e where e: "find ?P ys = Some e" by auto
    then obtain us ws where ys: "ys = us @ e # ws" "?P e" "\<forall>y\<in>set us. \<not> ?P y" using find_first by metis
    let ?c = "evict_am sz e c" and ?n = "get_item_size sz (value_at (emem c) e)"
    have step: "prune_am sz refs c = prune_am sz refs ?c"
      using True e l ys(1) by (subst prune_am.simps) simp
    note ev = evict_am_shape[OF less.prems[unfolded ys(1)], of sz]
    have k: "map (content (emem ?c)) (us @ ws) = map (content (emem c)) (us @ ws)"
      and o: "abs_q ?c xs (us @ ws) zs = (abs_q c xs ys zs)\<lparr>q_am := map (content (emem c)) (us @ ws)\<rparr>"
      using ev(3)[of ys] by (auto simp: abs_q_def)
    have cnt: "csize ?c = csize c - ?n" "capacity ?c = capacity c" "a1in_current ?c = a1in_current c"
      "a1in_limit ?c = a1in_limit c" "a1out_limit ?c = a1out_limit c" using ev(2) by (auto simp: counters_def)
    have pin: "\<forall>x\<in>set (map (content (emem c)) us). \<not> can_evict refs (snd x)" using ys(3) by (simp add: content_key_value)
    let ?U = "map (content (emem c)) us" and ?W = "map (content (emem c)) ws"
    let ?sp1 = "split_evict sz refs (capacity c) (csize c - ?n) (?U @ ?W)"
    have snd_eq: "snd ?sp = snd ?sp1"
      using True ys(2) skip_pinned[OF pin] by (simp add: ys(1) content_key_value)
    have "total sz (fst ?sp) + total sz (snd ?sp) = total sz ?U + ?n + total sz ?W"
      "total sz (fst ?sp1) + total sz (snd ?sp1) = total sz ?U + total sz ?W"
      unfolding split_evict_total by (simp_all add: ys(1) content_key_value)
    then have "total sz (fst ?sp) + total sz (snd ?sp1) = (?n + total sz (fst ?sp1)) + total sz (snd ?sp1)"
      unfolding snd_eq by (simp add: ac_simps)
    then have "total sz (fst ?sp) = ?n + total sz (fst ?sp1)" by (rule add_right_imp_eq)
    then have fst_eq: "csize c - ?n - total sz (fst ?sp1) = csize c - total sz (fst ?sp)"
      by (simp add: diff_diff_eq)
    have "length (us @ ws) < length ys" using ys(1) by simp
    from less.hyps[OF this ev(1)] obtain ys' where
      "shape (prune_am sz refs ?c) xs ys' zs"
      "abs_q (prune_am sz refs ?c) xs ys' zs = (abs_q ?c xs (us @ ws) zs)\<lparr>q_am := snd ?sp1\<rparr>"
      "counters (prune_am sz refs ?c) = (csize c - ?n - total sz (fst ?sp1), a1in_current c, capacity c, a1in_limit c, a1out_limit c)"
      unfolding k cnt by auto
    then show ?thesis unfolding step snd_eq using o fst_eq by (intro exI[of _ ys']) (simp add: abs_q_def)
  qed
qed

section \<open>Refinement\<close>

lemma lists_distinct:
  assumes "lists c q"
  shows "distinct (map fst (q_in q))" "distinct (map fst (q_am q))" "distinct (q_out q)"
proof -
  obtain xs ys zs where s: "shape c xs ys zs" and q: "q = abs_q c xs ys zs" using assms by (auto simp: lists_def)
  have f: "map fst (map (content m) as) = map (key_at m) as" for as and m :: "(uint64, cvalue) memory"
    by (simp add: content_key_value)
  have "inj_on (key_at (emem c)) (set xs)" "inj_on (key_at (emem c)) (set ys)" "inj_on (key_at (gmem c)) (set zs)"
    using s unfolding shape_def by (auto intro: idx_inj)
  then show "distinct (map fst (q_in q))" "distinct (map fst (q_am q))" "distinct (q_out q)"
    using shapeD[OF s] f by (simp_all add: q abs_q_def distinct_map del: map_map)
qed

definition keys_disjoint :: "twoq \<Rightarrow> bool" where
  "keys_disjoint q \<longleftrightarrow> fst ` set (q_in q) \<inter> fst ` set (q_am q) = {}
     \<and> (fst ` set (q_in q) \<union> fst ` set (q_am q)) \<inter> set (q_out q) = {}"

lemma keys_okI: "lists c q \<Longrightarrow> keys_disjoint q \<Longrightarrow> keys_ok q"
  using lists_distinct[of c q] by (auto simp: keys_ok_def keys_disjoint_def)

lemma keys_okD: "keys_ok q \<Longrightarrow> keys_disjoint q"
  by (auto simp: keys_ok_def keys_disjoint_def)

lemma split_evict_set:
  "set (fst (split_evict sz refs lim n es)) \<union> set (snd (split_evict sz refs lim n es)) = set es"
  by (induction es arbitrary: n) auto

lemma split_evict_apart:
  "distinct (map fst es) \<Longrightarrow>
    fst ` set (fst (split_evict sz refs lim n es)) \<inter> fst ` set (snd (split_evict sz refs lim n es)) = {}"
proof (induction es arbitrary: n)
  case (Cons e es)
  have sub: "fst e \<notin> fst ` set (fst (split_evict sz refs lim j es))" "fst e \<notin> fst ` set (snd (split_evict sz refs lim j es))" for j
  proof -
    have "fst e \<notin> fst ` set es" using Cons.prems by auto
    moreover have "set (fst (split_evict sz refs lim j es)) \<subseteq> set es" "set (snd (split_evict sz refs lim j es)) \<subseteq> set es"
      using split_evict_set[of sz refs lim j es] by auto
    ultimately show "fst e \<notin> fst ` set (fst (split_evict sz refs lim j es))" "fst e \<notin> fst ` set (snd (split_evict sz refs lim j es))"
      by blast+
  qed
  show ?case using Cons.IH[of n] Cons.IH[of "n - get_item_size sz (snd e)"] Cons.prems sub by auto
qed simp

lemma spec_prune_disjoint:
  assumes "keys_disjoint q" "distinct (map fst (q_in q))"
  shows "keys_disjoint (spec_prune sz refs cap li lo q)"
proof -
  obtain dr kp where sp: "split_evict sz refs li (total sz (q_in q)) (q_in q) = (dr, kp)" by fastforce
  obtain da ka where sa: "split_evict sz refs cap (total sz kp + total sz (q_am q)) (q_am q) = (da, ka)" by fastforce
  have s: "set dr \<union> set kp = set (q_in q)" "fst ` set dr \<inter> fst ` set kp = {}" "set da \<union> set ka = set (q_am q)"
    using split_evict_set[of sz refs li "total sz (q_in q)" "q_in q"] split_evict_apart[OF assms(2), of sz refs li "total sz (q_in q)"]
      split_evict_set[of sz refs cap "total sz kp + total sz (q_am q)" "q_am q"] by (simp_all add: sp sa)
  have i: "fst ` set kp \<subseteq> fst ` set (q_in q)" "fst ` set dr \<subseteq> fst ` set (q_in q)" "fst ` set ka \<subseteq> fst ` set (q_am q)"
    using s by auto
  let ?out = "q_out q @ map fst dr"
  have o: "set (drop (length ?out - lo) ?out) \<subseteq> set (q_out q) \<union> fst ` set dr"
    using set_drop_subset[of "length ?out - lo" ?out] by auto
  have q': "spec_prune sz refs cap li lo q = \<lparr>q_in = kp, q_am = ka, q_out = drop (length ?out - lo) ?out\<rparr>"
    by (simp add: spec_prune_def sp sa)
  have a: "fst ` set (q_in q) \<inter> fst ` set (q_am q) = {}" "(fst ` set (q_in q) \<union> fst ` set (q_am q)) \<inter> set (q_out q) = {}"
    using assms(1) by (auto simp: keys_disjoint_def)
  have sets: "K \<subseteq> I \<Longrightarrow> D \<subseteq> I \<Longrightarrow> L \<subseteq> A \<Longrightarrow> I \<inter> A = {} \<Longrightarrow> (I \<union> A) \<inter> Q = {} \<Longrightarrow> D \<inter> K = {} \<Longrightarrow>
      K \<inter> L = {} \<and> (K \<union> L) \<inter> (Q \<union> D) = {}" for K I D L A Q :: "uint64 set" by blast
  have d: "fst ` set kp \<inter> fst ` set ka = {} \<and> (fst ` set kp \<union> fst ` set ka) \<inter> (set (q_out q) \<union> fst ` set dr) = {}"
    by (rule sets[OF i(1,2,3) a s(2)])
  have "X \<inter> Y = {} \<Longrightarrow> Z \<subseteq> Y \<Longrightarrow> X \<inter> Z = {}" for X Y Z :: "uint64 set" by blast
  from this[OF conjunct2[OF d] o] show ?thesis unfolding keys_disjoint_def q' using d by simp
qed

lemma prune_refines:
  assumes "cache_repr sz c q"
  shows "cache_repr sz (prune sz refs c) (spec_prune sz refs (capacity c) (a1in_limit c) (a1out_limit c) q)
    \<and> capacity (prune sz refs c) = capacity c \<and> a1in_limit (prune sz refs c) = a1in_limit c
    \<and> a1out_limit (prune sz refs c) = a1out_limit c"
proof -
  have l: "lists c q" and k: "keys_ok q" and n: "csize c = total sz (q_in q) + total sz (q_am q)" "a1in_current c = total sz (q_in q)"
    using assms by (auto simp: cache_repr_def lists_def)
  obtain dr kp where sp: "split_evict sz refs (a1in_limit c) (total sz (q_in q)) (q_in q) = (dr, kp)" by fastforce
  have tot: "total sz dr + total sz kp = total sz (q_in q)"
    using split_evict_total[of sz refs "a1in_limit c" "total sz (q_in q)" "q_in q"] by (simp add: sp)
  define c1 where "c1 = maintain_a1in_size sz refs c"
  define c2 where "c2 = maintain_a1out_size c1"
  let ?q1 = "q\<lparr>q_in := kp, q_out := q_out q @ map fst dr\<rparr>"
  have m1: "lists c1 ?q1" "counters c1 = (csize c - total sz dr, a1in_current c - total sz dr, capacity c, a1in_limit c, a1out_limit c)"
    using maintain_a1in_lists[OF l k n(2) sp] by (simp_all add: c1_def)
  then obtain xs ys zs where s1: "shape c1 xs ys zs" and q1: "?q1 = abs_q c1 xs ys zs" by (auto simp: lists_def)
  let ?zs = "drop (length zs - a1out_limit c1) zs"
  have m2: "shape c2 xs ys ?zs" "counters c2 = counters c1"
    "abs_q c2 xs ys ?zs = (abs_q c1 xs ys zs)\<lparr>q_out := map (key_at (gmem c1)) ?zs\<rparr>"
    using maintain_a1out_shape[OF s1] by (simp_all add: c2_def)
  let ?am = "split_evict sz refs (capacity c2) (csize c2) (map (content (emem c2)) ys)"
  obtain ys' where m3: "shape (prune sz refs c) xs ys' ?zs"
    "abs_q (prune sz refs c) xs ys' ?zs = (abs_q c2 xs ys ?zs)\<lparr>q_am := snd ?am\<rparr>"
    "counters (prune sz refs c) = (csize c2 - total sz (fst ?am), a1in_current c2, capacity c2, a1in_limit c2, a1out_limit c2)"
    using prune_am_shape[OF m2(1), of sz refs] by (auto simp: prune_def c1_def c2_def)
  have cnt: "csize c2 = total sz kp + total sz (q_am q)" "a1in_current c2 = total sz kp" "capacity c2 = capacity c"
    "a1in_limit c2 = a1in_limit c" "a1out_limit c2 = a1out_limit c" "a1out_limit c1 = a1out_limit c"
  proof -
    have "csize c - total sz dr = total sz kp + total sz (q_am q)" "a1in_current c - total sz dr = total sz kp"
      unfolding n tot[symmetric] by simp_all
    then show "csize c2 = total sz kp + total sz (q_am q)" "a1in_current c2 = total sz kp" "capacity c2 = capacity c"
      "a1in_limit c2 = a1in_limit c" "a1out_limit c2 = a1out_limit c" "a1out_limit c1 = a1out_limit c"
      using m1(2) m2(2) by (auto simp: counters_def)
  qed
  have am: "map (content (emem c2)) ys = q_am q" "map (content (emem c2)) xs = kp"
    and out: "map (key_at (gmem c1)) zs = q_out q @ map fst dr" "length zs = length (q_out q @ map fst dr)"
  proof -
    have i: "kp = map (content (emem c1)) xs" "q_am q = map (content (emem c1)) ys" "q_out q @ map fst dr = map (key_at (gmem c1)) zs"
      using arg_cong[OF q1, of q_in] arg_cong[OF q1, of q_am] arg_cong[OF q1, of q_out] by (simp_all add: abs_q_def)
    then show "map (key_at (gmem c1)) zs = q_out q @ map fst dr" "length zs = length (q_out q @ map fst dr)" by (metis length_map)+
    show "map (content (emem c2)) ys = q_am q" "map (content (emem c2)) xs = kp"
      using arg_cong[OF m2(3), of q_in] arg_cong[OF m2(3), of q_am] i by (simp_all add: abs_q_def)
  qed
  have "map (key_at (gmem c1)) ?zs = drop (length (q_out q @ map fst dr) - a1out_limit c) (q_out q @ map fst dr)"
    by (simp add: drop_map[symmetric] out cnt(6))
  then have q3: "abs_q (prune sz refs c) xs ys' ?zs = spec_prune sz refs (capacity c) (a1in_limit c) (a1out_limit c) q"
    (is "_ = ?Q") unfolding m3(2) m2(3) q1[symmetric] by (simp add: spec_prune_def sp am cnt)
  then have l3: "lists (prune sz refs c) ?Q" using listsI[OF m3(1)] by simp
  have "keys_disjoint ?Q" using spec_prune_disjoint[OF keys_okD[OF k] lists_distinct(1)[OF l]] .
  then have "keys_ok ?Q" using keys_okI[OF l3] by simp
  moreover have "q_in ?Q = kp" "q_am ?Q = snd ?am" by (simp_all add: spec_prune_def sp am cnt)
  moreover have "csize c2 - total sz (fst ?am) = total sz kp + total sz (snd ?am)"
    using split_evict_total[of sz refs "capacity c2" "csize c2" "q_am q"] unfolding am cnt(1)
    by (simp add: algebra_simps)
  ultimately show ?thesis using l3 m3(3) cnt unfolding cache_repr_def lists_def by (simp add: counters_def)
qed

lemma add_am_shape:
  assumes s: "shape c xs ys zs" and k: "k \<notin> key_at (emem c) ` set ys"
    and a: "pool_alloc k v (entry_pool c) = (e, p)" and b: "push_back e (pmem p, am_list c) = (m, l)"
    and c': "c' = c\<lparr>entry_pool := p\<lparr>pmem := m\<rparr>, am_list := l, am_map := (am_map c)(k \<mapsto> e)\<rparr>"
  shows "shape c' xs (ys @ [e]) zs" "counters c' = counters c"
    "abs_q c' xs (ys @ [e]) zs = (abs_q c xs ys zs)\<lparr>q_am := map (content (emem c)) ys @ [(k, v)]\<rparr>"
proof -
  define E where "E = p\<lparr>pmem := m\<rparr>"
  have l0: "dll (emem c) (am_list c) ys" "pool_inv (entry_pool c) (set xs \<union> set ys)" "set ys \<subseteq> set xs \<union> set ys"
    using s by (auto simp: shape_def)
  note E = append_node[OF l0 a b E_def]
  have ec: "content (pmem E) b = content (emem c) b" if "b \<in> set xs \<or> b \<in> set ys" for b using E(4)[of b] that by auto
  have ke: "key_at (pmem E) e = k" using E(5) by (simp add: content_key_value(2)[symmetric])
  have i1: "idx (am_map c) (key_at (pmem E)) ys"
    by (rule idx_content[where h = "emem c"]) (use s ec in \<open>auto simp: shape_def\<close>)
  have "map (key_at (pmem E)) ys = map (key_at (emem c)) ys" using map_content[of ys "pmem E" "emem c"] ec by auto
  then have "key_at (pmem E) e \<notin> key_at (pmem E) ` set ys" using k ke by (metis list.set_map)
  then have i2: "idx ((am_map c)(k \<mapsto> e)) (key_at (pmem E)) (ys @ [e])" using idx_insert[OF i1, of e] ke by simp
  have i3: "idx (a1in_map c) (key_at (pmem E)) xs"
    by (rule idx_content[where h = "emem c"]) (use s ec in \<open>auto simp: shape_def\<close>)
  have xm: "pmem E b = emem c b" if "b \<in> set xs" for b using E(6)[of b] shapeD(4)[OF s] that by auto
  have "dll (pmem E) (a1in_list c) xs" by (rule dll_keep[where m = "emem c"]) (use s xm in \<open>auto simp: shape_def\<close>)
  moreover have "pool_inv E (set xs \<union> set (ys @ [e]))" using E(3) by simp
  moreover have "set xs \<inter> set (ys @ [e]) = {}" using E(1) shapeD(4)[OF s] by auto
  ultimately have "dll (pmem E) (a1in_list c) xs \<and> dll (pmem E) l (ys @ [e]) \<and> set xs \<inter> set (ys @ [e]) = {}
      \<and> pool_inv E (set xs \<union> set (ys @ [e])) \<and> idx (a1in_map c) (key_at (pmem E)) xs
      \<and> idx ((am_map c)(k \<mapsto> e)) (key_at (pmem E)) (ys @ [e])" using E(2) i2 i3 by blast
  then show "shape c' xs (ys @ [e]) zs"
    using s unfolding shape_def c' E_def[symmetric] by simp
  show "counters c' = counters c" by (simp add: counters_def c')
  show "abs_q c' xs (ys @ [e]) zs = (abs_q c xs ys zs)\<lparr>q_am := map (content (emem c)) ys @ [(k, v)]\<rparr>"
    using ec E(5) by (simp add: abs_q_def c' E_def[symmetric])
qed

lemma add_a1in_shape:
  assumes s: "shape c xs ys zs" and k: "k \<notin> key_at (emem c) ` set xs"
    and a: "pool_alloc k v (entry_pool c) = (e, p)" and b: "push_back e (pmem p, a1in_list c) = (m, l)"
    and c': "c' = c\<lparr>entry_pool := p\<lparr>pmem := m\<rparr>, a1in_list := l, a1in_map := (a1in_map c)(k \<mapsto> e), a1in_current := n\<rparr>"
  shows "shape c' (xs @ [e]) ys zs"
    "abs_q c' (xs @ [e]) ys zs = (abs_q c xs ys zs)\<lparr>q_in := map (content (emem c)) xs @ [(k, v)]\<rparr>"
proof -
  define E where "E = p\<lparr>pmem := m\<rparr>"
  have l0: "dll (emem c) (a1in_list c) xs" "pool_inv (entry_pool c) (set xs \<union> set ys)" "set xs \<subseteq> set xs \<union> set ys"
    using s by (auto simp: shape_def)
  note E = append_node[OF l0 a b E_def]
  have ec: "content (pmem E) b = content (emem c) b" if "b \<in> set xs \<or> b \<in> set ys" for b using E(4)[of b] that by auto
  have ke: "key_at (pmem E) e = k" using E(5) by (simp add: content_key_value(2)[symmetric])
  have i1: "idx (a1in_map c) (key_at (pmem E)) xs"
    by (rule idx_content[where h = "emem c"]) (use s ec in \<open>auto simp: shape_def\<close>)
  have "map (key_at (pmem E)) xs = map (key_at (emem c)) xs" using map_content[of xs "pmem E" "emem c"] ec by auto
  then have "key_at (pmem E) e \<notin> key_at (pmem E) ` set xs" using k ke by (metis list.set_map)
  then have i2: "idx ((a1in_map c)(k \<mapsto> e)) (key_at (pmem E)) (xs @ [e])" using idx_insert[OF i1, of e] ke by simp
  have i3: "idx (am_map c) (key_at (pmem E)) ys"
    by (rule idx_content[where h = "emem c"]) (use s ec in \<open>auto simp: shape_def\<close>)
  have xm: "pmem E b = emem c b" if "b \<in> set ys" for b using E(6)[of b] shapeD(4)[OF s] that by auto
  have "dll (pmem E) (am_list c) ys" by (rule dll_keep[where m = "emem c"]) (use s xm in \<open>auto simp: shape_def\<close>)
  moreover have "pool_inv E (set (xs @ [e]) \<union> set ys)" using E(3) by simp
  moreover have "set (xs @ [e]) \<inter> set ys = {}" using E(1) shapeD(4)[OF s] by auto
  ultimately have "dll (pmem E) l (xs @ [e]) \<and> dll (pmem E) (am_list c) ys \<and> set (xs @ [e]) \<inter> set ys = {}
      \<and> pool_inv E (set (xs @ [e]) \<union> set ys) \<and> idx ((a1in_map c)(k \<mapsto> e)) (key_at (pmem E)) (xs @ [e])
      \<and> idx (am_map c) (key_at (pmem E)) ys" using E(2) i2 i3 by blast
  then show "shape c' (xs @ [e]) ys zs"
    using s unfolding shape_def c' E_def[symmetric] by simp
  show "abs_q c' (xs @ [e]) ys zs = (abs_q c xs ys zs)\<lparr>q_in := map (content (emem c)) xs @ [(k, v)]\<rparr>"
    using ec E(5) by (simp add: abs_q_def c' E_def[symmetric])
qed

lemma idx_dom: "idx m f xs \<Longrightarrow> m k \<noteq> None \<longleftrightarrow> k \<in> f ` set xs"
  by (auto simp: idx_def)

lemma map_keys:
  assumes "shape c xs ys zs"
  shows "a1in_map c k \<noteq> None \<longleftrightarrow> k \<in> fst ` set (q_in (abs_q c xs ys zs))"
    "am_map c k \<noteq> None \<longleftrightarrow> k \<in> fst ` set (q_am (abs_q c xs ys zs))"
    "a1out_map c k \<noteq> None \<longleftrightarrow> k \<in> set (q_out (abs_q c xs ys zs))"
proof -
  have i: "idx (a1in_map c) (key_at (emem c)) xs" "idx (am_map c) (key_at (emem c)) ys" "idx (a1out_map c) (key_at (gmem c)) zs"
    using assms by (simp_all add: shape_def)
  show "a1in_map c k \<noteq> None \<longleftrightarrow> k \<in> fst ` set (q_in (abs_q c xs ys zs))"
    using idx_dom[OF i(1), of k] by (simp add: abs_q_def image_image content_key_value)
  show "am_map c k \<noteq> None \<longleftrightarrow> k \<in> fst ` set (q_am (abs_q c xs ys zs))"
    using idx_dom[OF i(2), of k] by (simp add: abs_q_def image_image content_key_value)
  show "a1out_map c k \<noteq> None \<longleftrightarrow> k \<in> set (q_out (abs_q c xs ys zs))"
    using idx_dom[OF i(3), of k] by (simp add: abs_q_def)
qed

definition same_limits :: "cache \<Rightarrow> cache \<Rightarrow> bool" where
  "same_limits c c' \<longleftrightarrow> capacity c' = capacity c \<and> a1in_limit c' = a1in_limit c \<and> a1out_limit c' = a1out_limit c"

lemma put_again:
  assumes s: "shape c xs ys zs" and g: "a1out_map c k = Some g" and k: "k \<notin> key_at (emem c) ` set ys"
    and a: "pool_alloc k v (entry_pool c) = (e, p)" and b: "push_back e (pmem p, am_list c) = (m, l)"
    and c': "c' = ((unlink_ghost g c)\<lparr>a1out_map := (a1out_map c)(k := None)\<rparr>)
      \<lparr>entry_pool := p\<lparr>pmem := m\<rparr>, am_list := l, am_map := (am_map c)(k \<mapsto> e)\<rparr>"
  shows "lists c' ((abs_q c xs ys zs)\<lparr>q_out := filter (\<lambda>j. j \<noteq> k) (map (key_at (gmem c)) zs),
      q_am := map (content (emem c)) ys @ [(k, v)]\<rparr>) \<and> counters c' = counters c"
proof -
  have "g \<in> set zs" "key_at (gmem c) g = k" using s g by (auto simp: shape_def idx_def)
  then obtain us ws where zs: "zs = us @ g # ws" by (auto dest: split_list)
  define c1 where "c1 = (unlink_ghost g c)\<lparr>a1out_map := (a1out_map c)(key_at (gmem c) g := None)\<rparr>"
  note u = unlink_ghost_shape[OF s[unfolded zs] c1_def]
  have same: "entry_pool c1 = entry_pool c" "am_list c1 = am_list c" "am_map c1 = am_map c"
    by (simp_all add: c1_def unlink_ghost_def drop_ghost_def set_gmem_def split: prod.splits)
  have c'': "c' = c1\<lparr>entry_pool := p\<lparr>pmem := m\<rparr>, am_list := l, am_map := (am_map c1)(k \<mapsto> e)\<rparr>"
    unfolding c' c1_def using \<open>key_at (gmem c) g = k\<close> same(3) by (simp add: c1_def)
  have "k \<notin> key_at (emem c1) ` set ys" "pool_alloc k v (entry_pool c1) = (e, p)"
    "push_back e (pmem p, am_list c1) = (m, l)" using same k a b by simp_all
  note r = add_am_shape[OF u(1) this c'']
  have inj: "inj_on (key_at (gmem c)) (set zs)" using s unfolding shape_def by (auto intro: idx_inj)
  have "key_at (gmem c) a \<noteq> k" if "a \<in> set us \<or> a \<in> set ws" for a
    using inj shapeD(3)[OF s] that \<open>key_at (gmem c) g = k\<close> unfolding zs by (auto simp: inj_on_def)
  then have "filter (\<lambda>j. j \<noteq> k) (map (key_at (gmem c)) zs) = map (key_at (gmem c)) (us @ ws)"
    using \<open>key_at (gmem c) g = k\<close> by (simp add: zs filter_map o_def)
  then have "abs_q c' xs (ys @ [e]) (us @ ws) = (abs_q c xs ys zs)\<lparr>q_out := filter (\<lambda>j. j \<noteq> k) (map (key_at (gmem c)) zs),
      q_am := map (content (emem c)) ys @ [(k, v)]\<rparr>"
    unfolding r(3) using u(3)[of zs] same by simp
  then show ?thesis using listsI[OF r(1)] r(2) u(2) by simp
qed

lemma put_refines:
  assumes "cache_repr sz c q"
  shows "cache_repr sz (cache_put sz refs k v c) (spec_put sz refs (capacity c) (a1in_limit c) (a1out_limit c) k v q)
    \<and> same_limits c (cache_put sz refs k v c)"
proof -
  obtain xs ys zs where s: "shape c xs ys zs" and q: "q = abs_q c xs ys zs" using assms by (auto simp: cache_repr_def)
  have n: "keys_ok q" "csize c = total sz (q_in q) + total sz (q_am q)" "a1in_current c = total sz (q_in q)"
    using assms by (auto simp: cache_repr_def)
  have kd: "keys_disjoint q" using n(1) by (rule keys_okD)
  have mk: "a1in_map c k \<noteq> None \<longleftrightarrow> k \<in> fst ` set (q_in q)" "am_map c k \<noteq> None \<longleftrightarrow> k \<in> fst ` set (q_am q)"
    "a1out_map c k \<noteq> None \<longleftrightarrow> k \<in> set (q_out q)" using map_keys[OF s] by (simp_all add: q)
  have qs: "q_in q = map (content (emem c)) xs" "q_am q = map (content (emem c)) ys" "q_out q = map (key_at (gmem c)) zs"
    by (simp_all add: q abs_q_def)
  show ?thesis
  proof (cases "a1in_map c k \<noteq> None \<or> am_map c k \<noteq> None")
    case True
    then have "k \<in> fst ` set (q_in q @ q_am q)" using mk by auto
    then show ?thesis using True assms by (simp add: cache_put_def spec_put_def same_limits_def)
  next
    case False
    then have res: "k \<notin> fst ` set (q_in q @ q_am q)" using mk by auto
    have ky: "k \<notin> key_at (emem c) ` set ys" "k \<notin> key_at (emem c) ` set xs"
      using res by (simp_all add: qs content_key_value image_image image_Un)
    let ?sz = "get_item_size sz v"
    define c0 where "c0 = c\<lparr>csize := csize c + ?sz\<rparr>"
    have s0: "shape c0 xs ys zs" "abs_q c0 xs ys zs = q" using s q by (simp_all add: c0_def)
    obtain e p where a: "pool_alloc k v (entry_pool c) = (e, p)" by fastforce
    define q1 where "q1 = (if k \<in> set (q_out q) then q\<lparr>q_out := filter (\<lambda>j. j \<noteq> k) (q_out q), q_am := q_am q @ [(k, v)]\<rparr>
              else q\<lparr>q_in := q_in q @ [(k, v)]\<rparr>)"
    have "\<exists>c1. cache_put sz refs k v c = prune sz refs c1 \<and> lists c1 q1 \<and> csize c1 = csize c + ?sz
        \<and> a1in_current c1 = total sz (q_in q1) \<and> capacity c1 = capacity c \<and> a1in_limit c1 = a1in_limit c
        \<and> a1out_limit c1 = a1out_limit c"
    proof (cases "a1out_map c k")
      case (Some g)
      obtain m l where b: "push_back e (pmem p, am_list c) = (m, l)" by fastforce
      define c1 where "c1 = ((unlink_ghost g c0)\<lparr>a1out_map := (a1out_map c0)(k := None)\<rparr>)
        \<lparr>entry_pool := p\<lparr>pmem := m\<rparr>, am_list := l, am_map := (am_map c0)(k \<mapsto> e)\<rparr>"
      have "a1out_map c0 k = Some g" "k \<notin> key_at (emem c0) ` set ys" "pool_alloc k v (entry_pool c0) = (e, p)"
        "push_back e (pmem p, am_list c0) = (m, l)" using Some ky a b by (simp_all add: c0_def)
      note r = put_again[OF s0(1) this c1_def]
      have "k \<in> set (q_out q)" using Some mk(3) by auto
      moreover have "key_at (gmem c0) = key_at (gmem c)" "content (emem c0) = content (emem c)" by (simp_all add: c0_def)
      ultimately have "lists c1 q1" using r s0(2) by (simp add: q1_def qs)
      moreover have "cache_put sz refs k v c = prune sz refs c1"
        using False Some a b by (simp add: cache_put_def Let_def c1_def c0_def unlink_ghost_def drop_ghost_def set_gmem_def
            split: prod.splits)
      ultimately show ?thesis using r n(3) \<open>k \<in> set (q_out q)\<close>
        by (intro exI[of _ c1]) (auto simp: counters_def c0_def q1_def)
    next
      case None
      obtain m l where b: "push_back e (pmem p, a1in_list c) = (m, l)" by fastforce
      define c1 where "c1 = c0\<lparr>entry_pool := p\<lparr>pmem := m\<rparr>, a1in_list := l, a1in_map := (a1in_map c0)(k \<mapsto> e),
        a1in_current := a1in_current c + ?sz\<rparr>"
      have "k \<notin> key_at (emem c0) ` set xs" "pool_alloc k v (entry_pool c0) = (e, p)"
        "push_back e (pmem p, a1in_list c0) = (m, l)" using ky a b by (simp_all add: c0_def)
      note r = add_a1in_shape[OF s0(1) this c1_def]
      have nk: "k \<notin> set (q_out q)" using None mk(3) by auto
      have "abs_q c1 (xs @ [e]) ys zs = q1" unfolding r(2) s0(2) using nk by (simp add: q1_def qs c0_def)
      then have "lists c1 q1" using listsI[OF r(1)] by simp
      moreover have "cache_put sz refs k v c = prune sz refs c1"
        using False None a b by (simp add: cache_put_def Let_def c1_def c0_def)
      ultimately show ?thesis using n(3) nk by (intro exI[of _ c1]) (auto simp: c1_def c0_def q1_def)
    qed
    then obtain c1 where c1: "cache_put sz refs k v c = prune sz refs c1" "lists c1 q1" "csize c1 = csize c + ?sz"
      "a1in_current c1 = total sz (q_in q1)" "capacity c1 = capacity c" "a1in_limit c1 = a1in_limit c"
      "a1out_limit c1 = a1out_limit c" by blast
    have "keys_disjoint q1" using kd res by (auto simp: q1_def keys_disjoint_def)
    then have "keys_ok q1" using keys_okI[OF c1(2)] by simp
    moreover have "csize c1 = total sz (q_in q1) + total sz (q_am q1)"
      using c1(3) n(2) by (simp add: q1_def algebra_simps)
    ultimately have "cache_repr sz c1 q1" using c1(2,4) by (simp add: cache_repr_def lists_def)
    moreover have "spec_put sz refs (capacity c) (a1in_limit c) (a1out_limit c) k v q
        = spec_prune sz refs (capacity c) (a1in_limit c) (a1out_limit c) q1"
      unfolding spec_put_def q1_def using res by presburger
    ultimately show ?thesis using prune_refines[of sz c1 q1 refs] c1 by (simp add: same_limits_def)
  qed
qed

lemma remove_entry_mid:
  assumes "distinct (map fst (us @ e # ws))" "fst e = k"
  shows "remove_entry k (us @ e # ws) = us @ ws \<and> map_of (us @ e # ws) k = Some (snd e)"
proof -
  have n: "k \<notin> fst ` set us" "k \<notin> fst ` set ws" using assms by auto
  then have "\<forall>x\<in>set us. fst x \<noteq> k" "\<forall>x\<in>set ws. fst x \<noteq> k" by auto
  then have "remove_entry k (us @ e # ws) = us @ ws" using assms(2) by (simp add: remove_entry_def)
  moreover have "map_of us k = None" using n(1) by (simp add: map_of_eq_None_iff)
  ultimately show ?thesis using assms(2) by (cases e) (auto simp: map_add_def)
qed

text \<open>Relinking nodes that stay alive keeps the pool.\<close>

lemma pool_relink:
  assumes "pool_inv p live" "keeps A (pmem p) m" "A \<subseteq> live"
  shows "pool_inv (p\<lparr>pmem := m\<rparr>) live"
proof (rule pool_inv_objects[OF assms(1)])
  show "\<forall>a. a \<notin> live \<longrightarrow> m a = pmem p a" using keepsD(2)[OF assms(2)] assms(3) by blast
  show "\<forall>a\<in>live. is_object (m a)" using assms(1) keepsD(3)[OF assms(2)] by (auto simp: pool_inv_def)
qed

lemma promote_shape:
  assumes s: "shape c (us @ e # ws) ys zs" and k: "key_at (emem c) e = k" "k \<notin> key_at (emem c) ` set ys"
    and sp: "splice_back e (emem c, a1in_list c, am_list c) = (m, src, dst)"
    and c': "c' = c\<lparr>a1in_current := n, a1in_list := src, am_list := dst, entry_pool := (entry_pool c)\<lparr>pmem := m\<rparr>,
      am_map := (am_map c)(k \<mapsto> e), a1in_map := (a1in_map c)(k := None)\<rparr>"
  shows "shape c' (us @ ws) (ys @ [e]) zs" "content (emem c') = content (emem c)"
proof -
  have d: "dll (emem c) (a1in_list c) (us @ e # ws)" "dll (emem c) (am_list c) ys" "set (us @ e # ws) \<inter> set ys = {}"
    using s by (auto simp: shape_def)
  have r: "dll m src (us @ ws)" "dll m dst (ys @ [e])" "keeps (set (us @ e # ws) \<union> set ys) (emem c) m"
    using splice_back_dll[OF d sp] by auto
  have km: "key_at m = key_at (emem c)" using keepsD(1)[OF r(3)] key_at_content by blast
  have eq: "set (us @ ws) \<union> set (ys @ [e]) = set (us @ e # ws) \<union> set ys" by auto
  have "pool_inv ((entry_pool c)\<lparr>pmem := m\<rparr>) (set (us @ ws) \<union> set (ys @ [e]))"
    unfolding eq by (rule pool_relink[OF _ r(3)]) (use s in \<open>auto simp: shape_def\<close>)
  moreover have "set (us @ ws) \<inter> set (ys @ [e]) = {}" using shapeD[OF s] by auto
  moreover have "idx ((a1in_map c)(k := None)) (key_at m) (us @ ws)"
    using idx_remove[of "a1in_map c" "key_at (emem c)" us e ws] s shapeD(1)[OF s] k(1) by (simp add: shape_def km)
  moreover have "idx ((am_map c)(k \<mapsto> e)) (key_at m) (ys @ [e])"
    using idx_insert[of "am_map c" "key_at (emem c)" ys e] s k by (simp add: shape_def km)
  ultimately show "shape c' (us @ ws) (ys @ [e]) zs" using s r(1,2) by (simp add: shape_def c')
  show "content (emem c') = content (emem c)" using keepsD(1)[OF r(3)] by (simp add: c')
qed

lemma touch_shape:
  assumes s: "shape c xs (us @ e # ws) zs" and mv: "move_to_back e (emem c, am_list c) = (m, l)"
    and c': "c' = c\<lparr>am_list := l, entry_pool := (entry_pool c)\<lparr>pmem := m\<rparr>\<rparr>"
  shows "shape c' xs (us @ ws @ [e]) zs" "content (emem c') = content (emem c)"
proof -
  have d: "dll (emem c) (am_list c) (us @ e # ws)" using s by (auto simp: shape_def)
  have r: "dll m l (us @ ws @ [e])" "keeps (set (us @ e # ws)) (emem c) m" using move_to_back_dll[OF d mv] by auto
  have km: "key_at m = key_at (emem c)" using keepsD(1)[OF r(2)] key_at_content by blast
  have dj: "set xs \<inter> set (us @ e # ws) = {}" using shapeD(4)[OF s] .
  have xm: "m b = emem c b" if "b \<in> set xs" for b by (rule keepsD(2)[OF r(2)]) (use that dj in blast)
  have "dll m (a1in_list c) xs" by (rule dll_keep[where m = "emem c"]) (use s xm in \<open>auto simp: shape_def\<close>)
  moreover have eq: "set (us @ ws @ [e]) = set (us @ e # ws)" by auto
  moreover have "pool_inv ((entry_pool c)\<lparr>pmem := m\<rparr>) (set xs \<union> set (us @ e # ws))"
    by (rule pool_relink[OF _ r(2)]) (use s in \<open>auto simp: shape_def\<close>)
  moreover have "idx (am_map c) (key_at m) (us @ ws @ [e])" using s unfolding km idx_def shape_def eq by simp
  ultimately show "shape c' xs (us @ ws @ [e]) zs" using s r(1) dj unfolding shape_def c' km eq by (simp add: km)
  show "content (emem c') = content (emem c)" using keepsD(1)[OF r(2)] by (simp add: c')
qed

lemma get_a1in_refines:
  assumes r: "cache_repr sz c q" and s: "shape c xs ys zs" "q = abs_q c xs ys zs" and e: "a1in_map c k = Some e"
  shows "fst (cache_get sz k c) = fst (spec_get k q) \<and> cache_repr sz (snd (cache_get sz k c)) (snd (spec_get k q))
    \<and> same_limits c (snd (cache_get sz k c))"
proof -
  let ?m = "emem c" and ?v = "value_at (emem c) e"
  have ke: "e \<in> set xs" "key_at ?m e = k" using s e by (auto simp: shape_def idx_def)
  then obtain us ws where xs: "xs = us @ e # ws" by (auto dest: split_list)
  obtain m src dst where sp: "splice_back e (?m, a1in_list c, am_list c) = (m, src, dst)" by (metis prod_cases3)
  have n: "keys_ok q" "csize c = total sz (q_in q) + total sz (q_am q)" "a1in_current c = total sz (q_in q)"
    using r by (auto simp: cache_repr_def)
  have qs: "q_in q = map (content ?m) us @ (k, ?v) # map (content ?m) ws" "q_am q = map (content ?m) ys"
    using ke(2) by (simp_all add: s(2) abs_q_def xs content_key_value)
  have dm: "distinct (map fst (q_in q))" using lists_distinct(1)[OF listsI[OF s]] .
  have kd: "keys_disjoint q" using n(1) by (rule keys_okD)
  have ky: "k \<notin> key_at ?m ` set ys" using kd by (auto simp: keys_disjoint_def qs image_image content_key_value)
  define c' where "c' = c\<lparr>a1in_current := a1in_current c - get_item_size sz ?v, a1in_list := src, am_list := dst,
      entry_pool := (entry_pool c)\<lparr>pmem := m\<rparr>, am_map := (am_map c)(k \<mapsto> e), a1in_map := (a1in_map c)(k := None)\<rparr>"
  have g: "cache_get sz k c = (Some ?v, c')"
    using e sp by (simp add: c'_def cache_get_def set_emem_def Let_def)
  note p = promote_shape[OF s(1)[unfolded xs] ke(2) ky sp c'_def]
  let ?q = "q\<lparr>q_in := map (content ?m) us @ map (content ?m) ws, q_am := q_am q @ [(k, ?v)]\<rparr>"
  have l': "lists c' ?q"
  proof (rule listsI[OF p(1)])
    have "gmem c' = gmem c" by (simp add: c'_def)
    then show "?q = abs_q c' (us @ ws) (ys @ [e]) zs"
      using ke(2) p(2) by (simp add: abs_q_def qs s(2) content_key_value)
  qed
  have sg: "spec_get k q = (Some ?v, ?q)"
    using remove_entry_mid[OF dm[unfolded qs(1)]] by (simp add: spec_get_def qs)
  have "keys_disjoint ?q" using kd dm by (auto simp: keys_disjoint_def qs)
  then have "cache_repr sz c' ?q" using keys_okI[OF l'] l' n(2,3)
    by (simp add: cache_repr_def lists_def c'_def qs algebra_simps)
  then show ?thesis by (simp add: g sg c'_def same_limits_def)
qed

lemma get_am_refines:
  assumes r: "cache_repr sz c q" and s: "shape c xs ys zs" "q = abs_q c xs ys zs"
    and e: "a1in_map c k = None" "am_map c k = Some e"
  shows "fst (cache_get sz k c) = fst (spec_get k q) \<and> cache_repr sz (snd (cache_get sz k c)) (snd (spec_get k q))
    \<and> same_limits c (snd (cache_get sz k c))"
proof -
  let ?m = "emem c" and ?v = "value_at (emem c) e"
  have ke: "e \<in> set ys" "key_at ?m e = k" using s e by (auto simp: shape_def idx_def)
  then obtain us ws where ys: "ys = us @ e # ws" by (auto dest: split_list)
  obtain m l where mv: "move_to_back e (?m, am_list c) = (m, l)" by fastforce
  have n: "keys_ok q" "csize c = total sz (q_in q) + total sz (q_am q)" "a1in_current c = total sz (q_in q)"
    using r by (auto simp: cache_repr_def)
  have qs: "q_am q = map (content ?m) us @ (k, ?v) # map (content ?m) ws" "q_in q = map (content ?m) xs"
    using ke(2) by (simp_all add: s(2) abs_q_def ys content_key_value)
  have dm: "distinct (map fst (q_am q))" using lists_distinct(2)[OF listsI[OF s]] .
  define c' where "c' = c\<lparr>am_list := l, entry_pool := (entry_pool c)\<lparr>pmem := m\<rparr>\<rparr>"
  have g: "cache_get sz k c = (Some ?v, c')" using e mv by (simp add: c'_def cache_get_def set_emem_def Let_def)
  note p = touch_shape[OF s(1)[unfolded ys] mv c'_def]
  let ?q = "q\<lparr>q_am := (map (content ?m) us @ map (content ?m) ws) @ [(k, ?v)]\<rparr>"
  have l': "lists c' ?q"
  proof (rule listsI[OF p(1)])
    have "gmem c' = gmem c" by (simp add: c'_def)
    then show "?q = abs_q c' xs (us @ ws @ [e]) zs"
      using ke(2) p(2) by (simp add: abs_q_def s(2) content_key_value)
  qed
  have "map_of (q_in q) k = None" using map_keys(1)[OF s(1), of k] e(1) s(2) by (simp add: map_of_eq_None_iff)
  then have sg: "spec_get k q = (Some ?v, ?q)"
    using remove_entry_mid[OF dm[unfolded qs(1)]] by (simp add: spec_get_def qs)
  have "keys_disjoint ?q" using keys_okD[OF n(1)] by (auto simp: keys_disjoint_def qs)
  then have "cache_repr sz c' ?q" using keys_okI[OF l'] l' n(2,3)
    by (simp add: cache_repr_def lists_def c'_def qs algebra_simps)
  then show ?thesis by (simp add: g sg c'_def same_limits_def)
qed

lemma get_refines:
  assumes "cache_repr sz c q"
  shows "fst (cache_get sz k c) = fst (spec_get k q) \<and> cache_repr sz (snd (cache_get sz k c)) (snd (spec_get k q))
    \<and> same_limits c (snd (cache_get sz k c))"
proof -
  obtain xs ys zs where s: "shape c xs ys zs" "q = abs_q c xs ys zs" using assms by (auto simp: cache_repr_def)
  consider e where "a1in_map c k = Some e" | e where "a1in_map c k = None" "am_map c k = Some e"
    | "a1in_map c k = None" "am_map c k = None" by (cases "a1in_map c k"; cases "am_map c k") auto
  then show ?thesis
  proof cases
    case 1 then show ?thesis by (rule get_a1in_refines[OF assms s])
  next
    case 2 then show ?thesis by (rule get_am_refines[OF assms s])
  next
    case 3
    then have "map_of (q_in q) k = None" "map_of (q_am q) k = None"
      using map_keys(1,2)[OF s(1), of k] s(2) by (simp_all add: map_of_eq_None_iff)
    then show ?thesis using 3 assms by (simp add: cache_get_def spec_get_def same_limits_def)
  qed
qed

section \<open>Runs of the cache\<close>

datatype cache_op = CGet uint64 | CPut "nat \<Rightarrow> nat" uint64 cvalue

fun cache_run :: "(nat \<Rightarrow> uint64) \<Rightarrow> cache_op list \<Rightarrow> cache \<Rightarrow> cvalue option list \<times> cache" where
  "cache_run sz [] c = ([], c)"
| "cache_run sz (CGet k # ops) c = (let (r, c) = cache_get sz k c in apfst ((#) r) (cache_run sz ops c))"
| "cache_run sz (CPut refs k v # ops) c = cache_run sz ops (cache_put sz refs k v c)"

fun spec_run :: "(nat \<Rightarrow> uint64) \<Rightarrow> uint64 \<Rightarrow> uint64 \<Rightarrow> nat \<Rightarrow> cache_op list \<Rightarrow> twoq \<Rightarrow> cvalue option list \<times> twoq" where
  "spec_run sz cap li lo [] q = ([], q)"
| "spec_run sz cap li lo (CGet k # ops) q = (let (r, q) = spec_get k q in apfst ((#) r) (spec_run sz cap li lo ops q))"
| "spec_run sz cap li lo (CPut refs k v # ops) q = spec_run sz cap li lo ops (spec_put sz refs cap li lo k v q)"

definition empty_q :: twoq where
  "empty_q = \<lparr>q_in = [], q_am = [], q_out = []\<rparr>"

lemma empty_pool_inv: "pool_inv empty_pool {}"
  unfolding pool_inv_def by (intro conjI exI[of _ "[]"]) (auto simp: empty_pool_def CHUNK_SIZE_def)

lemma init_repr: "cache_repr sz (cache_init cap li lo) empty_q"
proof -
  have "shape (cache_init cap li lo) [] [] []"
    by (simp add: shape_def cache_init_def dll_def list_of_def empty_list_def empty_pool_inv idx_def)
  then show ?thesis unfolding cache_repr_def
    by (auto intro!: exI[of _ "[]"] simp: abs_q_def empty_q_def keys_ok_def cache_init_def)
qed

lemma run_refines:
  assumes "cache_repr sz c q" "capacity c = cap" "a1in_limit c = li" "a1out_limit c = lo"
  shows "fst (cache_run sz ops c) = fst (spec_run sz cap li lo ops q)
    \<and> cache_repr sz (snd (cache_run sz ops c)) (snd (spec_run sz cap li lo ops q))
    \<and> same_limits c (snd (cache_run sz ops c))"
  using assms
proof (induction ops arbitrary: c q)
  case Nil then show ?case by (simp add: same_limits_def)
next
  case (Cons p ops)
  show ?case
  proof (cases p)
    case (CGet k)
    obtain r c1 where c1: "cache_get sz k c = (r, c1)" by fastforce
    obtain r' q1 where q1: "spec_get k q = (r', q1)" by fastforce
    have g: "r = r'" "cache_repr sz c1 q1" "same_limits c c1" using get_refines[OF Cons.prems(1), of k] c1 q1 by auto
    then show ?thesis using Cons.IH[OF g(2)] Cons.prems CGet c1 q1 by (simp add: same_limits_def)
  next
    case (CPut refs k v)
    have g: "cache_repr sz (cache_put sz refs k v c) (spec_put sz refs cap li lo k v q)"
      "same_limits c (cache_put sz refs k v c)" using put_refines[OF Cons.prems(1), of refs k v] Cons.prems(2-4) by auto
    then show ?thesis using Cons.IH[OF g(1)] Cons.prems CPut by (simp add: same_limits_def)
  qed
qed

text \<open>C10. The cache implements the abstract 2Q cache: for every sequence of \<open>get\<close> and \<open>put\<close> calls on a
  new cache, with reference counts that may change between the calls, the answers are those of the
  specification on three plain lists, and at the end the pointer structure (three linked lists, three
  hash maps, two object pools, byte counters) represents the lists of the specification.\<close>

theorem twoq_refines:
  "fst (cache_run sz ops (cache_init cap li lo)) = fst (spec_run sz cap li (max lo 1) ops empty_q)
   \<and> cache_repr sz (snd (cache_run sz ops (cache_init cap li lo))) (snd (spec_run sz cap li (max lo 1) ops empty_q))"
proof -
  have "capacity (cache_init cap li lo) = cap" "a1in_limit (cache_init cap li lo) = li"
    "a1out_limit (cache_init cap li lo) = max lo 1" by (simp_all add: cache_init_def)
  from run_refines[OF init_repr this, of sz ops] show ?thesis by blast
qed

subsection \<open>Bounds\<close>

lemma split_evict_bound:
  "n - total sz (fst (split_evict sz refs lim n es)) \<le> lim \<or> (\<forall>e\<in>set (snd (split_evict sz refs lim n es)). \<not> can_evict refs (snd e))"
  by (induction es arbitrary: n) (auto simp: diff_diff_eq[symmetric])

lemma spec_prune_bounds:
  assumes "q' = spec_prune sz refs cap li lo q"
  shows "total sz (q_in q') \<le> li \<or> (\<forall>e\<in>set (q_in q'). \<not> can_evict refs (snd e))"
    "total sz (q_in q') + total sz (q_am q') \<le> cap \<or> (\<forall>e\<in>set (q_am q'). \<not> can_evict refs (snd e))"
    "length (q_out q') \<le> lo"
proof -
  obtain dr kp where sp: "split_evict sz refs li (total sz (q_in q)) (q_in q) = (dr, kp)" by fastforce
  let ?n = "total sz kp + total sz (q_am q)"
  obtain da ka where sa: "split_evict sz refs cap ?n (q_am q) = (da, ka)" by fastforce
  have q': "q_in q' = kp" "q_am q' = ka" "q_out q' = drop (length (q_out q @ map fst dr) - lo) (q_out q @ map fst dr)"
    using assms by (simp_all add: spec_prune_def sp sa)
  have "total sz (q_in q) - total sz dr = total sz kp"
    using split_evict_total[of sz refs li "total sz (q_in q)" "q_in q"] by (simp add: sp algebra_simps)
  then show "total sz (q_in q') \<le> li \<or> (\<forall>e\<in>set (q_in q'). \<not> can_evict refs (snd e))"
    using split_evict_bound[of "total sz (q_in q)" sz refs li "q_in q"] by (simp add: sp q')
  have "total sz (q_am q) = total sz da + total sz ka"
    using split_evict_total[of sz refs cap ?n "q_am q"] by (simp add: sa)
  then have n: "?n - total sz da = total sz kp + total sz ka" by simp
  show "total sz (q_in q') + total sz (q_am q') \<le> cap \<or> (\<forall>e\<in>set (q_am q'). \<not> can_evict refs (snd e))"
    using split_evict_bound[of ?n sz refs cap "q_am q"] unfolding sa fst_conv snd_conv n q' by simp
  show "length (q_out q') \<le> lo" by (simp add: q')
qed

text \<open>
  The eviction for the capacity takes pages from \<open>Am\<close> only. When they are pinned the cache stays above its
  capacity, even with pages in \<open>A1in\<close> that could go.
\<close>

definition ex_value :: "nat \<Rightarrow> cvalue" where
  "ex_value a = \<lparr>v_ok = True, v_area = Some a\<rparr>"

definition ex_refs :: "nat \<Rightarrow> nat" where
  "ex_refs a = (if a = 1 then 2 else 1)"

lemma repr_a1in:
  assumes "cache_repr sz c q" "(k, v) \<in> set (q_in q)"
  shows "\<exists>a. a1in_map c k = Some a \<and> value_at (emem c) a = v"
proof -
  obtain xs ys zs where s: "shape c xs ys zs" "q = abs_q c xs ys zs" using assms(1) by (auto simp: cache_repr_def)
  obtain a where a: "a \<in> set xs" "content (emem c) a = (k, v)" using assms(2) s(2) by (auto simp: abs_q_def)
  then show ?thesis using s(1) by (auto simp: shape_def idx_def content_key_value)
qed

lemma capacity_needs_am:
  "\<exists>c a. c = snd (cache_run (\<lambda>_. 4) [CPut ex_refs 1 (ex_value 1), CGet 1, CPut ex_refs 2 (ex_value 2), CPut ex_refs 3 (ex_value 3)]
       (cache_init 10 8 5))
   \<and> csize c = 12 \<and> capacity c = 10 \<and> a1in_map c 2 = Some a \<and> can_evict ex_refs (value_at (emem c) a)"
proof -
  let ?ops = "[CPut ex_refs 1 (ex_value 1), CGet 1, CPut ex_refs 2 (ex_value 2), CPut ex_refs 3 (ex_value 3)]"
  let ?c = "snd (cache_run (\<lambda>_. 4) ?ops (cache_init 10 8 5))"
  let ?q = "\<lparr>q_in = [(2, ex_value 2), (3, ex_value 3)], q_am = [(1, ex_value 1)], q_out = []\<rparr>"
  have "snd (spec_run (\<lambda>_. 4) 10 8 5 ?ops empty_q) = ?q"
    by (simp add: spec_put_def spec_prune_def spec_get_def empty_q_def ex_value_def ex_refs_def can_evict_def get_item_size_def
        remove_entry_def Let_def)
  then have r: "cache_repr (\<lambda>_. 4) ?c ?q" "capacity ?c = 10"
    using run_refines[OF init_repr, of 10 8 5 10 8 5 "\<lambda>_. 4" ?ops] by (simp_all add: cache_init_def same_limits_def)
  obtain a where "a1in_map ?c 2 = Some a" "value_at (emem ?c) a = ex_value 2" using repr_a1in[OF r(1)] by force
  moreover have "csize ?c = 12" using r(1) by (simp add: cache_repr_def ex_value_def get_item_size_def)
  ultimately show ?thesis using r(2) by (intro exI[of _ ?c] exI[of _ a]) (simp add: can_evict_def ex_refs_def ex_value_def)
qed

text \<open>C32. After \<open>put\<close> of a key that is not resident, in any reachable cache: the bytes in total are within
  the capacity or every entry of \<open>Am\<close> is pinned, the bytes of \<open>A1in\<close> are within their limit or every
  entry of \<open>A1in\<close> is pinned, and the number of ghosts is within its limit. With all of \<open>Am\<close> pinned the total
  can stay above the capacity although a page of \<open>A1in\<close> could be evicted (\<open>capacity_needs_am\<close>).\<close>

theorem twoq_bounds:
  assumes c: "c = snd (cache_run sz ops (cache_init cap li lo))" and k: "fst (cache_get sz k c) = None"
    and c': "c' = cache_put sz refs k v c"
  shows "(csize c' \<le> cap \<or> (\<forall>j a. am_map c' j = Some a \<longrightarrow> \<not> can_evict refs (value_at (emem c') a)))
    \<and> (a1in_current c' \<le> li \<or> (\<forall>j a. a1in_map c' j = Some a \<longrightarrow> \<not> can_evict refs (value_at (emem c') a)))
    \<and> l_size (a1out_list c') \<le> max lo 1"
proof -
  have lim: "capacity (cache_init cap li lo) = cap" "a1in_limit (cache_init cap li lo) = li"
    "a1out_limit (cache_init cap li lo) = max lo 1" by (simp_all add: cache_init_def)
  obtain q where q: "cache_repr sz c q" "capacity c = cap" "a1in_limit c = li" "a1out_limit c = max lo 1"
    using run_refines[OF init_repr lim, of sz ops] lim c by (auto simp: same_limits_def)
  define q' where "q' = spec_put sz refs cap li (max lo 1) k v q"
  have r: "cache_repr sz c' q'" using put_refines[OF q(1), of refs k v] q c' by (simp add: q'_def)
  have "fst (spec_get k q) = None" using get_refines[OF q(1), of k] k by simp
  then have "k \<notin> fst ` set (q_in q @ q_am q)"
    by (auto simp: spec_get_def map_of_eq_None_iff split: option.splits)
  then obtain p where p: "q' = spec_prune sz refs cap li (max lo 1) p" by (auto simp: q'_def spec_put_def)
  note b = spec_prune_bounds[OF p]
  obtain xs ys zs where s: "shape c' xs ys zs" and a: "q' = abs_q c' xs ys zs"
    and n: "csize c' = total sz (q_in q') + total sz (q_am q')" "a1in_current c' = total sz (q_in q')"
    using r by (auto simp: cache_repr_def)
  have "l_size (a1out_list c') = length (q_out q')" using s a by (simp add: shape_def dll_def list_of_def abs_q_def)
  moreover have "value_at (emem c') e \<in> snd ` set (q_am q')" if "am_map c' j = Some e" for j e
    using s that a by (auto simp: shape_def idx_def abs_q_def content_key_value image_image)
  moreover have "value_at (emem c') e \<in> snd ` set (q_in q')" if "a1in_map c' j = Some e" for j e
    using s that a by (auto simp: shape_def idx_def abs_q_def content_key_value image_image)
  ultimately show ?thesis using b n by fastforce
qed

definition ex_cache :: cache where
  "ex_cache = snd (cache_run (\<lambda>_. 4) [CPut (\<lambda>_. 1) 1 (ex_value 1), CPut (\<lambda>_. 2) 3 (ex_value 3)] (cache_init 10 2 5))"

lemma ex_cache_misses: "fst (cache_get (\<lambda>_. 4) 2 ex_cache) = None"
proof -
  let ?ops = "[CPut (\<lambda>_. 1) 1 (ex_value 1), CPut (\<lambda>_. 2) 3 (ex_value 3)]"
  have "cache_repr (\<lambda>_. 4) ex_cache (snd (spec_run (\<lambda>_. 4) 10 2 5 ?ops empty_q))"
    using run_refines[OF init_repr, of 10 2 5 10 2 5 "\<lambda>_. 4" ?ops] unfolding ex_cache_def by (simp add: cache_init_def)
  from get_refines[OF this, of 2] show ?thesis
    by (simp add: spec_put_def spec_prune_def spec_get_def empty_q_def ex_value_def can_evict_def get_item_size_def)
qed

theorem twoq_bounds_witness:
  "let c' = cache_put (\<lambda>_. 4) (\<lambda>_. 1) 2 (ex_value 2) ex_cache
   in (csize c' \<le> 10 \<or> (\<forall>j a. am_map c' j = Some a \<longrightarrow> \<not> can_evict (\<lambda>_. 1) (value_at (emem c') a)))
      \<and> l_size (a1out_list c') \<le> 5"
  using twoq_bounds[OF ex_cache_def ex_cache_misses refl, of "\<lambda>_. 1" "ex_value 2"] by (simp add: Let_def)

section \<open>Destruction\<close>

text \<open>The loop of \<open>clear_list\<close> and \<open>clear_ghost_list\<close> reads the next entry before it frees one.\<close>

fun clear_nodes :: "nat \<Rightarrow> addr option \<Rightarrow> ('k, 'v) pool \<Rightarrow> ('k, 'v) pool" where
  "clear_nodes 0 e p = p"
| "clear_nodes (Suc n) e p =
     (case e of None \<Rightarrow> p
      | Some a \<Rightarrow> let nx = enext (ent (pmem p a)) in clear_nodes n nx (pool_free a p))"

definition clear_list :: "ilist \<Rightarrow> ('k, 'v) pool \<Rightarrow> ilist \<times> ('k, 'v) pool" where
  "clear_list l p = (empty_list, clear_nodes (l_size l) (l_head l) p)"

definition cache_destroy :: "cache \<Rightarrow> cache" where
  "cache_destroy c =
     (let (l1, p) = clear_list (a1in_list c) (entry_pool c);
          (l2, p) = clear_list (am_list c) p;
          (l3, g) = clear_list (a1out_list c) (ghost_pool c)
      in c\<lparr>a1in_list := l1, am_list := l2, a1out_list := l3, entry_pool := p, ghost_pool := g\<rparr>)"

lemma nodes_from_frame: "\<forall>b\<in>set (nodes_from n m e). m' b = m b \<Longrightarrow> nodes_from n m' e = nodes_from n m e"
  by (induction n arbitrary: e) (auto split: option.splits)

lemma clear_nodes_fold:
  "distinct (nodes_from n (pmem p) e) \<Longrightarrow> clear_nodes n e p = fold pool_free (nodes_from n (pmem p) e) p"
proof (induction n arbitrary: e p)
  case (Suc n)
  show ?case
  proof (cases e)
    case (Some a)
    let ?nx = "enext (ent (pmem p a))" and ?p = "pool_free a p"
    have d: "a \<notin> set (nodes_from n (pmem p) ?nx)" "distinct (nodes_from n (pmem p) ?nx)" using Suc.prems Some by auto
    have "nodes_from n (pmem ?p) ?nx = nodes_from n (pmem p) ?nx"
      by (rule nodes_from_frame) (use d(1) pool_free_other in metis)
    then show ?thesis using Suc.IH[of ?p ?nx] d(2) Some by (simp add: Let_def)
  qed simp
qed simp

lemma fold_free_inv:
  assumes "pool_inv p live" "set xs \<subseteq> live" "distinct xs"
  shows "pool_inv (fold pool_free xs p) (live - set xs) \<and> (\<forall>b. b \<notin> set xs \<longrightarrow> pmem (fold pool_free xs p) b = pmem p b)"
  using assms
proof (induction xs arbitrary: p live)
  case (Cons a xs)
  have f: "pool_inv (pool_free a p) (live - {a})" using pool_free_inv[OF Cons.prems(1)] Cons.prems(2) by simp
  have i: "pool_inv (fold pool_free xs (pool_free a p)) (live - {a} - set xs)"
    "\<forall>b. b \<notin> set xs \<longrightarrow> pmem (fold pool_free xs (pool_free a p)) b = pmem (pool_free a p) b"
    using Cons.IH[OF f] Cons.prems(2,3) by auto
  have e: "live - {a} - set xs = live - set (a # xs)" by auto
  have "pmem (fold pool_free xs (pool_free a p)) b = pmem p b" if "b \<notin> set (a # xs)" for b
    using i(2) pool_free_other[of b a p] that by simp
  then show ?case using i(1) unfolding e by simp
qed simp

lemma clear_list_inv:
  assumes d: "dll (pmem p) l xs" and live: "pool_inv p live" "set xs \<subseteq> live" and c: "clear_list l p = (l', p')"
  shows "l' = empty_list" "pool_inv p' (live - set xs)" "\<And>b. b \<notin> set xs \<Longrightarrow> pmem p' b = pmem p b"
proof -
  have n: "nodes_from (l_size l) (pmem p) (l_head l) = xs" "distinct xs" using d dll_nodes by (auto simp: dll_def)
  have p': "l' = empty_list" "p' = fold pool_free xs p" using c clear_nodes_fold[of "l_size l" p "l_head l"] n by (auto simp: clear_list_def)
  show "l' = empty_list" "pool_inv p' (live - set xs)" "\<And>b. b \<notin> set xs \<Longrightarrow> pmem p' b = pmem p b"
    using fold_free_inv[OF live n(2)] p' by simp_all
qed

text \<open>The destructor gives every entry and every ghost back to its pool once, in any reachable cache.\<close>

lemma cache_destroy_frees:
  assumes "cache_repr sz c q"
  shows "pool_inv (entry_pool (cache_destroy c)) {} \<and> pool_inv (ghost_pool (cache_destroy c)) {}
    \<and> a1in_list (cache_destroy c) = empty_list \<and> am_list (cache_destroy c) = empty_list \<and> a1out_list (cache_destroy c) = empty_list"
proof -
  obtain xs ys zs where s: "shape c xs ys zs" using assms by (auto simp: cache_repr_def)
  obtain l1 p1 where c1: "clear_list (a1in_list c) (entry_pool c) = (l1, p1)" by fastforce
  obtain l2 p2 where c2: "clear_list (am_list c) p1 = (l2, p2)" by fastforce
  obtain l3 g where c3: "clear_list (a1out_list c) (ghost_pool c) = (l3, g)" by fastforce
  have d: "dll (emem c) (a1in_list c) xs" "dll (emem c) (am_list c) ys" "dll (gmem c) (a1out_list c) zs"
    "pool_inv (entry_pool c) (set xs \<union> set ys)" "pool_inv (ghost_pool c) (set zs)" "set xs \<inter> set ys = {}"
    using s by (simp_all add: shape_def)
  note i1 = clear_list_inv[OF d(1,4) Un_upper1 c1]
  have p1: "dll (pmem p1) (am_list c) ys" by (rule dll_keep[OF d(2)]) (use i1(3) d(6) in blast)
  have e: "set xs \<union> set ys - set xs = set ys" using d(6) by blast
  have i2: "l2 = empty_list" "pool_inv p2 {}" using clear_list_inv[OF p1 i1(2)[unfolded e] subset_refl c2] by simp_all
  have i3: "l3 = empty_list" "pool_inv g {}" using clear_list_inv[OF d(3,5) subset_refl c3] by auto
  show ?thesis using i1(1) i2 i3 by (simp add: cache_destroy_def c1 c2 c3)
qed

end
