(* ===== verification/Leaves_MemManager.thy ===== *)
theory Leaves_MemManager
  imports Leaves_Memory
begin

text \<open>
  The page allocator of a transaction (\<open>include/leaves/intern/memory/_memory.hpp\<close>): \<open>_GarbageSlot\<close>, a
  queue of freed pages kept in page containers, and \<open>_MemManager\<close>, which serves a size class from its
  queue, from the left-over space or from the current area. The four operations call each other
  (an exhausted container is itself freed, a full queue allocates a container); they are one
  recursive function over the calls, with the resolver's part of the work, recycling rule and new
  areas, in its arguments and state. Offset 0 is the null pointer.
\<close>

section \<open>State\<close>

record garbage_slot =
  ostart :: nat
  oend :: nat
  gcount :: nat
  istart :: nat
  iend :: nat

record page_container =
  c_next :: nat
  c_blocks :: "nat \<Rightarrow> nat \<times> tid"

text \<open>
  The manager, the memory it works on (containers and the \<open>slot_id\<close> of the page headers) and the
  areas the resolver will hand out, as pairs of content offset and end.
\<close>

record mm =
  allocation_start :: nat
  allocation_end :: nat
  left_over_start :: nat
  left_over_end :: nat
  slots :: "garbage_slot list"
  containers :: "nat \<Rightarrow> page_container"
  page_slot :: "nat \<Rightarrow> nat"
  new_areas :: "(nat \<times> nat) list"

text \<open>\<open>PAGE_SIZES\<close>, \<open>PageContainer::SLOT_ID\<close> and \<open>PageContainer::COUNT\<close>.\<close>

record mm_traits =
  mm_sizes :: "nat list"
  mm_SLOT_ID :: nat
  mm_COUNT :: nat

definition empty_slot :: garbage_slot where
  "empty_slot = \<lparr>ostart = 0, oend = 0, gcount = 0, istart = 0, iend = 0\<rparr>"

definition mm_init :: "mm_traits \<Rightarrow> nat \<Rightarrow> nat \<Rightarrow> mm \<Rightarrow> mm" where
  "mm_init C a b s =
     s\<lparr>slots := replicate (length (mm_sizes C)) empty_slot, allocation_start := a, allocation_end := b,
       left_over_end := 0, left_over_start := 0\<rparr>"

definition set_slot :: "nat \<Rightarrow> garbage_slot \<Rightarrow> mm \<Rightarrow> mm" where
  "set_slot i g s = s\<lparr>slots := (slots s)[i := g]\<rparr>"

definition set_container_next :: "nat \<Rightarrow> nat \<Rightarrow> mm \<Rightarrow> mm" where
  "set_container_next a n s = s\<lparr>containers := (containers s)(a := (containers s a)\<lparr>c_next := n\<rparr>)\<rparr>"

definition set_block :: "nat \<Rightarrow> nat \<Rightarrow> nat \<times> tid \<Rightarrow> mm \<Rightarrow> mm" where
  "set_block a i b s =
     s\<lparr>containers := (containers s)(a := (containers s a)\<lparr>c_blocks := (c_blocks (containers s a))(i := b)\<rparr>)\<rparr>"

section \<open>Operations\<close>

text \<open>The part of \<open>alloc\<close> after the garbage queue had nothing to offer.\<close>

definition bump_alloc :: "mm_traits \<Rightarrow> nat \<Rightarrow> mm \<Rightarrow> nat \<times> mm" where
  "bump_alloc C sidx s =
     (let bsize = mm_sizes C ! sidx
      in if left_over_start s + bsize \<le> left_over_end s then
           (left_over_start s, s\<lparr>left_over_start := left_over_start s + bsize,
              page_slot := (page_slot s)(left_over_start s := sidx)\<rparr>)
         else if allocation_start s + bsize > allocation_end s then
           let s = (if allocation_end s - allocation_start s > left_over_end s - left_over_start s
                    then s\<lparr>left_over_start := allocation_start s, left_over_end := allocation_end s\<rparr> else s)
           in case new_areas s of
                [] \<Rightarrow> (0, s)
              | (a, b) # as \<Rightarrow>
                  (a, s\<lparr>new_areas := as, allocation_start := a + bsize, allocation_end := b,
                        page_slot := (page_slot s)(a := sidx)\<rparr>)
         else
           (allocation_start s, s\<lparr>allocation_start := allocation_start s + bsize,
              page_slot := (page_slot s)(allocation_start s := sidx)\<rparr>))"

datatype mm_call = MAlloc nat | MFree nat | MPop nat | MPush nat nat

fun call_rank :: "mm_call \<Rightarrow> nat" where
  "call_rank (MFree b) = 3"
| "call_rank (MPush b i) = 2"
| "call_rank (MAlloc i) = 1"
| "call_rank (MPop i) = 0"

definition total_count :: "mm \<Rightarrow> nat" where
  "total_count s = sum_list (map gcount (slots s))"

text \<open>
  \<open>None\<close> is an access the code does not guard: a size class that does not exist, or the null
  container of a \<open>push\<close> for which no area could be allocated.
\<close>

function mm_exec :: "mm_traits \<Rightarrow> (tid \<Rightarrow> bool) \<Rightarrow> tid \<Rightarrow> mm_call \<Rightarrow> mm \<Rightarrow> (nat \<times> mm) option" where
  "mm_exec C recyc cur (MAlloc sidx) s =
     (case mm_exec C recyc cur (MPop sidx) s of
        None \<Rightarrow> None
      | Some (res, s) \<Rightarrow>
          if res \<noteq> 0 then Some (res, s\<lparr>page_slot := (page_slot s)(res := sidx)\<rparr>)
          else Some (bump_alloc C sidx s))"
| "mm_exec C recyc cur (MFree b) s = mm_exec C recyc cur (MPush b (page_slot s b)) s"
| "mm_exec C recyc cur (MPop i) s =
     (if i < length (slots s) then
        let g = slots s ! i
        in if gcount g = 0 then Some (0, s)
           else let front = ostart g;
                    blk = c_blocks (containers s front) (istart g)
                in if \<not> recyc (snd blk) then Some (0, s)
                   else let res = fst blk;
                            h = g\<lparr>gcount := gcount g - 1, istart := istart g + 1\<rparr>
                        in if istart h \<ge> mm_COUNT C then
                             if page_slot s res = mm_SLOT_ID C \<and> gcount h = 0 then Some (0, s)
                             else let h = h\<lparr>ostart := c_next (containers s front)\<rparr>;
                                      h = (if ostart h = 0 then h\<lparr>oend := 0, iend := 0\<rparr> else h);
                                      h = h\<lparr>istart := 0\<rparr>
                                  in (case mm_exec C recyc cur (MFree front) (set_slot i h s) of
                                        None \<Rightarrow> None
                                      | Some (x, s) \<Rightarrow> Some (res, s))
                           else Some (res, set_slot i h s)
      else None)"
| "mm_exec C recyc cur (MPush b i) s =
     (if i < length (slots s) then
        let g = slots s ! i; back = oend g
        in case (if back = 0 then
                   (case mm_exec C recyc cur (MAlloc (mm_SLOT_ID C)) s of
                      None \<Rightarrow> None
                    | Some (nb, s) \<Rightarrow>
                        if nb = 0 then None
                        else Some (nb, set_slot i ((slots s ! i)\<lparr>oend := nb, ostart := nb\<rparr>) (set_container_next nb 0 s)))
                 else if iend g \<ge> mm_COUNT C then
                   (case mm_exec C recyc cur (MAlloc (mm_SLOT_ID C)) s of
                      None \<Rightarrow> None
                    | Some (nb, s) \<Rightarrow>
                        if nb = 0 then None
                        else Some (nb, set_slot i ((slots s ! i)\<lparr>oend := nb, iend := 0\<rparr>)
                                         (set_container_next back nb (set_container_next nb 0 s))))
                 else Some (back, s)) of
             None \<Rightarrow> None
           | Some (back, s) \<Rightarrow>
               let g = slots s ! i
               in Some (0, set_slot i (g\<lparr>iend := iend g + 1, gcount := gcount g + 1\<rparr>) (set_block back (iend g) (b, cur) s))
      else None)"
  by pat_completeness auto

lemma total_count_update:
  assumes "i < length (slots s)" "gcount (slots s ! i) \<noteq> 0" "gcount h = gcount (slots s ! i) - 1"
  shows "total_count (set_slot i h s) < total_count s"
proof -
  let ?xs = "map gcount (slots s)"
  have "gcount (slots s ! i) \<le> sum_list ?xs" using assms(1) elem_le_sum_list[of i ?xs] by simp
  then show ?thesis using assms by (simp add: total_count_def set_slot_def map_update sum_list_update)
qed

termination mm_exec
proof (relation "measure (\<lambda>(C, recyc, cur, c, s). 4 * total_count s + call_rank c)", goal_cases)
  case (4 C recyc cur i s g front blk res h h1 h2 h3)
  have "total_count (set_slot i h3 s) < total_count s"
    using 4 by (intro total_count_update) (auto simp: Let_def)
  then show ?case by simp
qed auto

declare mm_exec.simps [simp del]

section \<open>Pages from free space are disjoint\<close>

fun areas_set :: "(nat \<times> nat) list \<Rightarrow> nat set" where
  "areas_set [] = {}"
| "areas_set ((a, b) # as) = {a..<b} \<union> areas_set as"

definition alloc_space :: "mm \<Rightarrow> nat set" where
  "alloc_space s = {allocation_start s..<allocation_end s}"

definition left_space :: "mm \<Rightarrow> nat set" where
  "left_space s = {left_over_start s..<left_over_end s}"

definition space :: "mm \<Rightarrow> nat set" where
  "space s = alloc_space s \<union> left_space s \<union> areas_set (new_areas s)"

fun areas_ok :: "nat \<Rightarrow> nat set \<Rightarrow> (nat \<times> nat) list \<Rightarrow> bool" where
  "areas_ok n A [] = True"
| "areas_ok n A ((a, b) # as) = (0 < a \<and> a + n \<le> b \<and> A \<inter> {a..<b} = {} \<and> areas_ok n (A \<union> {a..<b}) as)"

definition sizes_ok :: "mm_traits \<Rightarrow> bool" where
  "sizes_ok C \<longleftrightarrow> (\<forall>n\<in>set (mm_sizes C). 0 < n) \<and> mm_SLOT_ID C < length (mm_sizes C)"

definition space_ok :: "mm_traits \<Rightarrow> mm \<Rightarrow> bool" where
  "space_ok C s \<longleftrightarrow> 0 < allocation_start s \<and> (left_space s \<noteq> {} \<longrightarrow> 0 < left_over_start s)
     \<and> alloc_space s \<inter> left_space s = {}
     \<and> areas_ok (Max (set (mm_sizes C))) (alloc_space s \<union> left_space s) (new_areas s)"

lemma areas_ok_mono: "areas_ok n A as \<Longrightarrow> B \<subseteq> A \<Longrightarrow> areas_ok n B as"
proof (induction as arbitrary: A B)
  case (Cons ab as)
  obtain a b where ab: "ab = (a, b)" by fastforce
  define S where "S = {a..<b}"
  have "areas_ok n (A \<union> S) as" "A \<inter> S = {}" "0 < a" "a + n \<le> b" using Cons.prems(1) by (simp_all add: ab S_def)
  moreover have "B \<union> S \<subseteq> A \<union> S" "B \<inter> S \<subseteq> A \<inter> S" using Cons.prems(2) by blast+
  ultimately show ?case using Cons.IH[of "A \<union> S" "B \<union> S"] by (simp add: ab S_def[symmetric])
qed simp

lemma areas_ok_disjoint: "areas_ok n A as \<Longrightarrow> A \<inter> areas_set as = {}"
proof (induction as arbitrary: A)
  case (Cons ab as)
  obtain a b where ab: "ab = (a, b)" by fastforce
  define S where "S = {a..<b}"
  have "(A \<union> S) \<inter> areas_set as = {}" "A \<inter> S = {}" using Cons by (simp_all add: ab S_def)
  then have "A \<inter> (S \<union> areas_set as) = {}" by blast
  then show ?case by (simp add: ab S_def)
qed simp

definition page_at :: "mm_traits \<Rightarrow> nat \<Rightarrow> nat \<Rightarrow> nat set" where
  "page_at C i p = {p..<p + mm_sizes C ! i}"

text \<open>What an allocation takes from the free space.\<close>

definition takes :: "nat set \<Rightarrow> mm \<Rightarrow> mm \<Rightarrow> bool" where
  "takes P s s' \<longleftrightarrow> P \<subseteq> space s \<and> space s' \<subseteq> space s \<and> P \<inter> space s' = {}"

lemma bump_left:
  assumes ok: "space_ok C s" and n: "0 < mm_sizes C ! i" and le: "left_over_start s + mm_sizes C ! i \<le> left_over_end s"
    and s': "s' = s\<lparr>left_over_start := left_over_start s + mm_sizes C ! i, page_slot := ps\<rparr>"
  shows "space_ok C s' \<and> takes (page_at C i (left_over_start s)) s s'"
proof -
  let ?P = "page_at C i (left_over_start s)"
  have P: "?P \<subseteq> left_space s" "left_space s' \<subseteq> left_space s" "?P \<inter> left_space s' = {}" "left_over_start s' > 0"
    using le by (auto simp: page_at_def left_space_def s' n)
  have same: "alloc_space s' = alloc_space s" "new_areas s' = new_areas s" "allocation_start s' = allocation_start s"
    by (simp_all add: s' alloc_space_def)
  have d: "alloc_space s \<inter> left_space s = {}" "areas_ok (Max (set (mm_sizes C))) (alloc_space s \<union> left_space s) (new_areas s)"
    using ok by (auto simp: space_ok_def)
  have r: "(alloc_space s \<union> left_space s) \<inter> areas_set (new_areas s) = {}" by (rule areas_ok_disjoint[OF d(2)])
  have "takes ?P s s'" unfolding takes_def space_def same using P d(1) r by blast
  moreover have "areas_ok (Max (set (mm_sizes C))) (alloc_space s \<union> left_space s') (new_areas s)"
    by (rule areas_ok_mono[OF d(2)]) (use P in blast)
  moreover have "alloc_space s \<inter> left_space s' = {}" using P(2) d(1) by blast
  ultimately show ?thesis using ok P(4) by (simp add: space_ok_def same)
qed

lemma bump_current:
  assumes ok: "space_ok C s" and le: "allocation_start s + mm_sizes C ! i \<le> allocation_end s"
    and s': "s' = s\<lparr>allocation_start := allocation_start s + mm_sizes C ! i, page_slot := ps\<rparr>"
  shows "space_ok C s' \<and> takes (page_at C i (allocation_start s)) s s'"
proof -
  let ?P = "page_at C i (allocation_start s)"
  have P: "?P \<subseteq> alloc_space s" "alloc_space s' \<subseteq> alloc_space s" "?P \<inter> alloc_space s' = {}"
    using le by (auto simp: page_at_def alloc_space_def s')
  have same: "left_space s' = left_space s" "new_areas s' = new_areas s" "left_over_start s' = left_over_start s"
    by (simp_all add: s' left_space_def)
  have pos: "0 < allocation_start s'" using ok by (simp add: space_ok_def s')
  have d: "alloc_space s \<inter> left_space s = {}" "areas_ok (Max (set (mm_sizes C))) (alloc_space s \<union> left_space s) (new_areas s)"
    using ok by (auto simp: space_ok_def)
  have r: "(alloc_space s \<union> left_space s) \<inter> areas_set (new_areas s) = {}" by (rule areas_ok_disjoint[OF d(2)])
  have "takes ?P s s'" unfolding takes_def space_def same using P d(1) r by blast
  moreover have "areas_ok (Max (set (mm_sizes C))) (alloc_space s' \<union> left_space s) (new_areas s)"
    by (rule areas_ok_mono[OF d(2)]) (use P in blast)
  moreover have "alloc_space s' \<inter> left_space s = {}" using P(2) d(1) by blast
  ultimately show ?thesis using ok pos by (simp add: space_ok_def same)
qed

text \<open>
  The old area is left behind, or its rest becomes the left-over space. The new state: \<open>L\<close> is the new
  left-over space.
\<close>

lemma bump_area:
  assumes ok: "space_ok C s" and n: "mm_sizes C ! i \<le> Max (set (mm_sizes C))" and a: "new_areas s = (a, b) # as"
    and L: "left_space s' = left_space s \<and> left_over_start s' = left_over_start s
        \<or> left_space s' = alloc_space s \<and> left_over_start s' = allocation_start s"
    and s': "allocation_start s' = a + mm_sizes C ! i" "allocation_end s' = b" "new_areas s' = as"
  shows "space_ok C s' \<and> takes (page_at C i a) s s'"
proof -
  let ?M = "Max (set (mm_sizes C))"
  define S where "S = {a..<b}"
  have d: "areas_ok ?M (alloc_space s \<union> left_space s) (new_areas s)" using ok by (auto simp: space_ok_def)
  have ab: "0 < a" "a + ?M \<le> b" "(alloc_space s \<union> left_space s) \<inter> S = {}" "areas_ok ?M (alloc_space s \<union> left_space s \<union> S) as"
    using d by (auto simp: a S_def)
  have P: "page_at C i a \<subseteq> S" "alloc_space s' \<subseteq> S" "page_at C i a \<inter> alloc_space s' = {}"
    using ab(2) n by (auto simp: page_at_def alloc_space_def s' S_def)
  have Ls: "left_space s' \<subseteq> alloc_space s \<union> left_space s" using L by auto
  have r: "(alloc_space s \<union> left_space s \<union> S) \<inter> areas_set as = {}" by (rule areas_ok_disjoint[OF ab(4)])
  have "takes (page_at C i a) s s'"
    unfolding takes_def space_def a s'(3) areas_set.simps S_def[symmetric] using P Ls ab(3) r by blast
  moreover have "areas_ok ?M (alloc_space s' \<union> left_space s') as"
    by (rule areas_ok_mono[OF ab(4)]) (use P Ls in blast)
  moreover have "alloc_space s' \<inter> left_space s' = {}" using P(2) Ls ab(3) by blast
  moreover have "left_space s' \<noteq> {} \<longrightarrow> 0 < left_over_start s'" using L ok by (auto simp: space_ok_def)
  ultimately show ?thesis using ab(1) s' by (simp add: space_ok_def)
qed

lemma bump_alloc_space:
  assumes ok: "space_ok C s" "sizes_ok C" and i: "i < length (mm_sizes C)" and b: "bump_alloc C i s = (p, s')" and p: "p \<noteq> 0"
  shows "space_ok C s' \<and> takes (page_at C i p) s s'"
proof -
  let ?n = "mm_sizes C ! i"
  have n: "0 < ?n" "?n \<le> Max (set (mm_sizes C))" using ok(2) i by (auto simp: sizes_ok_def)
  consider (left) "left_over_start s + ?n \<le> left_over_end s"
    | (bump) "\<not> left_over_start s + ?n \<le> left_over_end s" "allocation_start s + ?n \<le> allocation_end s"
    | (area) "\<not> left_over_start s + ?n \<le> left_over_end s" "\<not> allocation_start s + ?n \<le> allocation_end s" by blast
  then show ?thesis
  proof cases
    case left
    then show ?thesis using bump_left[OF ok(1) n(1) left, of s' "(page_slot s)(left_over_start s := i)"] b
      by (auto simp: bump_alloc_def Let_def)
  next
    case bump
    then show ?thesis using bump_current[OF ok(1) bump(2), of s' "(page_slot s)(allocation_start s := i)"] b
      by (auto simp: bump_alloc_def Let_def)
  next
    case area
    define s1 where "s1 = (if allocation_end s - allocation_start s > left_over_end s - left_over_start s
                    then s\<lparr>left_over_start := allocation_start s, left_over_end := allocation_end s\<rparr> else s)"
    have s1: "new_areas s1 = new_areas s" "left_space s1 = left_space s \<and> left_over_start s1 = left_over_start s
        \<or> left_space s1 = alloc_space s \<and> left_over_start s1 = allocation_start s"
      by (auto simp: s1_def left_space_def alloc_space_def)
    have "bump_alloc C i s = (case new_areas s1 of [] \<Rightarrow> (0, s1) | (a, b) # as \<Rightarrow>
        (a, s1\<lparr>new_areas := as, allocation_start := a + ?n, allocation_end := b, page_slot := (page_slot s1)(a := i)\<rparr>))"
      using area unfolding bump_alloc_def Let_def s1_def[symmetric] by simp
    then obtain a b' as where new: "new_areas s = (a, b') # as" "p = a"
      and s': "s' = s1\<lparr>new_areas := as, allocation_start := a + ?n, allocation_end := b', page_slot := (page_slot s1)(a := i)\<rparr>"
      using b p s1(1) by (auto split: list.splits prod.splits)
    have "left_space s' = left_space s1" "left_over_start s' = left_over_start s1" by (simp_all add: s' left_space_def)
    then show ?thesis unfolding new(2)
      using bump_area[OF ok(1) n(2) new(1), of s'] s1(2) by (simp add: s')
  qed
qed

section \<open>Runs without recycling\<close>

lemma pop_protected: "i < length (slots s) \<Longrightarrow> mm_exec C (\<lambda>_. False) cur (MPop i) s = Some (0, s)"
  by (subst mm_exec.simps) (simp add: Let_def)

lemma alloc_protected:
  "i < length (slots s) \<Longrightarrow> mm_exec C (\<lambda>_. False) cur (MAlloc i) s = Some (bump_alloc C i s)"
  by (subst mm_exec.simps) (simp add: pop_protected)

lemma bump_alloc_slots [simp]: "slots (snd (bump_alloc C i s)) = slots s"
  by (simp add: bump_alloc_def Let_def split: list.splits prod.splits)

lemma space_updates [simp]:
  "space (set_slot i g s) = space s" "space_ok C (set_slot i g s) = space_ok C s"
  "space (set_container_next a n s) = space s" "space_ok C (set_container_next a n s) = space_ok C s"
  "space (set_block a j b s) = space s" "space_ok C (set_block a j b s) = space_ok C s"
  by (simp_all add: space_def space_ok_def alloc_space_def left_space_def set_slot_def set_container_next_def set_block_def)

lemma slots_updates [simp]:
  "length (slots (set_slot i g s)) = length (slots s)"
  "slots (set_container_next a n s) = slots s" "slots (set_block a j b s) = slots s"
  by (simp_all add: set_slot_def set_container_next_def set_block_def)

lemma free_protected:
  assumes ok: "space_ok C s" "sizes_ok C" "length (slots s) = length (mm_sizes C)"
    and x: "mm_exec C (\<lambda>_. False) cur (MFree b) s = Some (r, s')"
  shows "space_ok C s' \<and> space s' \<subseteq> space s \<and> length (slots s') = length (slots s)"
proof -
  let ?i = "page_slot s b" and ?c = "mm_SLOT_ID C"
  have c: "?c < length (slots s)" using ok by (simp add: sizes_ok_def)
  have p: "mm_exec C (\<lambda>_. False) cur (MPush b ?i) s = Some (r, s')" using x by (simp add: mm_exec.simps(2))
  have i: "?i < length (slots s)" using p by (subst (asm) mm_exec.simps(4)) (simp split: if_splits)
  obtain nb s1 where al: "bump_alloc C ?c s = (nb, s1)" by fastforce
  have s1: "length (slots s1) = length (slots s)" "nb \<noteq> 0 \<Longrightarrow> space_ok C s1 \<and> takes (page_at C ?c nb) s s1"
    using bump_alloc_slots[of C ?c s] al bump_alloc_space[OF ok(1,2) _ al] ok(2) by (auto simp: sizes_ok_def)
  have "s' = s' \<and> (\<exists>t. (t = s \<or> nb \<noteq> 0 \<and> space t = space s1 \<and> space_ok C t = space_ok C s1 \<and> length (slots t) = length (slots s1))
      \<and> space s' = space t \<and> space_ok C s' = space_ok C t \<and> length (slots s') = length (slots t))"
    using p i by (subst (asm) mm_exec.simps(4)) (auto simp: Let_def alloc_protected[OF c] al split: if_splits option.splits)
  then obtain t where "t = s \<or> nb \<noteq> 0 \<and> space t = space s1 \<and> space_ok C t = space_ok C s1 \<and> length (slots t) = length (slots s1)"
    "space s' = space t" "space_ok C s' = space_ok C t" "length (slots s') = length (slots t)" by blast
  then show ?thesis using ok(1) s1 by (auto simp: takes_def)
qed

section \<open>Queues whose front is held\<close>

text \<open>
  \<open>pop\<close> looks at the oldest page of a queue only. While that page may not be recycled the queue hands out nothing,
  and pages the transaction \<open>cur\<close> frees join the queue behind it, or become its front, which may
  not be recycled either as long as \<open>may_recycle\<close> refuses \<open>cur\<close> itself.
\<close>

definition slot_held :: "mm_traits \<Rightarrow> (tid \<Rightarrow> bool) \<Rightarrow> (nat \<Rightarrow> page_container) \<Rightarrow> garbage_slot \<Rightarrow> bool" where
  "slot_held C recyc cs g \<longleftrightarrow>
     (if gcount g = 0 then istart g = iend g \<and> (oend g \<noteq> 0 \<longrightarrow> ostart g = oend g \<and> iend g < mm_COUNT C)
      else oend g \<noteq> 0 \<and> \<not> recyc (snd (c_blocks (cs (ostart g)) (istart g))))"

definition queues_held :: "mm_traits \<Rightarrow> (tid \<Rightarrow> bool) \<Rightarrow> mm \<Rightarrow> bool" where
  "queues_held C recyc s \<longleftrightarrow> (\<forall>g\<in>set (slots s). slot_held C recyc (containers s) g)"

lemma pop_held:
  assumes "queues_held C recyc s" "i < length (slots s)"
  shows "mm_exec C recyc cur (MPop i) s = Some (0, s)"
proof -
  have "slot_held C recyc (containers s) (slots s ! i)" using assms by (simp add: queues_held_def)
  then show ?thesis using assms(2) by (subst mm_exec.simps) (simp add: slot_held_def Let_def split: if_splits)
qed

lemma alloc_held:
  assumes "queues_held C recyc s"
  shows "mm_exec C recyc cur (MAlloc i) s = mm_exec C (\<lambda>_. False) cur (MAlloc i) s"
proof (cases "i < length (slots s)")
  case True
  then show ?thesis using pop_held[OF assms] by (simp add: mm_exec.simps(1) pop_protected)
next
  case False
  then show ?thesis by (simp add: mm_exec.simps(1,3))
qed

lemma free_held:
  assumes "queues_held C recyc s"
  shows "mm_exec C recyc cur (MFree b) s = mm_exec C (\<lambda>_. False) cur (MFree b) s"
  by (simp only: mm_exec.simps(2,4) alloc_held[OF assms])

lemma bump_alloc_same:
  assumes "bump_alloc C i s = (p, s')"
  shows "slots s' = slots s" "containers s' = containers s"
  using assms by (auto simp: bump_alloc_def Let_def split: list.splits prod.splits if_splits)

lemma held_same: "queues_held C recyc s \<Longrightarrow> slots s' = slots s \<Longrightarrow> containers s' = containers s \<Longrightarrow> queues_held C recyc s'"
  by (simp add: queues_held_def)

text \<open>Writing a block of \<open>cur\<close> keeps the fronts, wherever it is written.\<close>

lemma slot_held_block:
  assumes "slot_held C recyc cs g" "\<not> recyc (snd b)"
    and "\<And>a j. c_blocks (cs' a) j = c_blocks (cs a) j \<or> c_blocks (cs' a) j = b"
  shows "slot_held C recyc cs' g"
  using assms(1,2) assms(3)[of "ostart g" "istart g"] by (auto simp: slot_held_def split: if_splits)

lemma push_held:
  assumes q: "queues_held C recyc s" and c: "\<not> recyc cur" and cs: "mm_SLOT_ID C < length (slots s)"
    and x: "mm_exec C (\<lambda>_. False) cur (MPush b i) s = Some (r, s')"
  shows "queues_held C recyc s'"
proof -
  have i: "i < length (slots s)" using x by (subst (asm) mm_exec.simps(4)) (simp split: if_splits)
  let ?g = "slots s ! i"
  have g: "slot_held C recyc (containers s) ?g" using q i by (simp add: queues_held_def)
  obtain nb s1 where al: "bump_alloc C (mm_SLOT_ID C) s = (nb, s1)" by fastforce
  note same = bump_alloc_same[OF al]
  define grown where "grown \<longleftrightarrow> oend ?g = 0 \<or> iend ?g \<ge> mm_COUNT C"
  define last_c where "last_c = (if grown then nb else oend ?g)"
  define g' where "g' = (if oend ?g = 0 then ?g\<lparr>oend := nb, ostart := nb\<rparr> else if grown then ?g\<lparr>oend := nb, iend := 0\<rparr> else ?g)"
  define h where "h = g'\<lparr>iend := iend g' + 1, gcount := gcount g' + 1\<rparr>"
  have nb: "grown \<longrightarrow> nb \<noteq> 0"
    using x i by (subst (asm) mm_exec.simps(4)) (auto simp: Let_def alloc_protected[OF cs] al grown_def split: if_splits)
  have s': "slots s' = (slots s)[i := h] \<and> c_blocks (containers s' last_c) (iend g') = (b, cur)
    \<and> (\<forall>a j. c_blocks (containers s' a) j = c_blocks (containers s a) j \<or> c_blocks (containers s' a) j = (b, cur))"
    using x i nb by (subst (asm) mm_exec.simps(4))
      (auto simp: Let_def alloc_protected[OF cs] al same grown_def last_c_def g'_def h_def set_slot_def set_container_next_def set_block_def split: if_splits)
  have old: "slot_held C recyc (containers s') g" if "slot_held C recyc (containers s) g" for g
    by (rule slot_held_block[OF that, of "(b, cur)"]) (use c s' in auto)
  have "slot_held C recyc (containers s') h"
  proof (cases "gcount ?g = 0")
    case True
    then have st: "istart ?g = iend ?g" "oend ?g \<noteq> 0 \<longrightarrow> ostart ?g = oend ?g \<and> iend ?g < mm_COUNT C" using g by (simp_all add: slot_held_def)
    then have "ostart h = last_c \<and> istart h = iend g' \<and> oend h \<noteq> 0 \<and> gcount h \<noteq> 0"
      using nb by (auto simp: h_def g'_def last_c_def grown_def)
    then show ?thesis using s' c by (simp add: slot_held_def)
  next
    case False
    then have "oend ?g \<noteq> 0" using g by (simp add: slot_held_def)
    then have "ostart h = ostart ?g \<and> istart h = istart ?g \<and> oend h \<noteq> 0 \<and> gcount h \<noteq> 0"
      using nb by (auto simp: h_def g'_def grown_def)
    then show ?thesis using old[OF g] False by (simp add: slot_held_def)
  qed
  moreover have "\<forall>g\<in>set (slots s). slot_held C recyc (containers s') g" using old q by (simp add: queues_held_def)
  ultimately show ?thesis using s' set_update_subset_insert[of "slots s" i h] by (auto simp: queues_held_def)
qed

text \<open>Requests of the database: pages of a size class, and pages given back by the transaction \<open>cur\<close>.\<close>

datatype mm_request = RAlloc nat | RFree tid nat

fun mm_run :: "mm_traits \<Rightarrow> (tid \<Rightarrow> bool) \<Rightarrow> mm_request list \<Rightarrow> mm \<Rightarrow> ((nat \<times> nat) list \<times> mm) option" where
  "mm_run C recyc [] s = Some ([], s)"
| "mm_run C recyc (RAlloc i # rs) s =
     (case mm_exec C recyc 0 (MAlloc i) s of
        None \<Rightarrow> None
      | Some (p, s) \<Rightarrow> if p = 0 then None else map_option (apfst ((#) (i, p))) (mm_run C recyc rs s))"
| "mm_run C recyc (RFree cur b # rs) s =
     (case mm_exec C recyc cur (MFree b) s of None \<Rightarrow> None | Some (x, s) \<Rightarrow> mm_run C recyc rs s)"

definition pages_apart :: "mm_traits \<Rightarrow> (nat \<times> nat) list \<Rightarrow> bool" where
  "pages_apart C ps \<longleftrightarrow> sorted_wrt (\<lambda>(i, p) (j, q). page_at C i p \<inter> page_at C j q = {}) ps"

lemma run_protected:
  assumes "space_ok C s" "sizes_ok C" "length (slots s) = length (mm_sizes C)"
    and "mm_run C (\<lambda>_. False) rs s = Some (ps, s')"
  shows "pages_apart C ps \<and> (\<forall>(i, p)\<in>set ps. page_at C i p \<subseteq> space s - space s') \<and> space s' \<subseteq> space s \<and> space_ok C s'"
  using assms
proof (induction rs arbitrary: s ps)
  case Nil then show ?case by (simp add: pages_apart_def)
next
  case (Cons r rs)
  show ?case
  proof (cases r)
    case (RAlloc i)
    obtain p s1 where x: "mm_exec C (\<lambda>_. False) 0 (MAlloc i) s = Some (p, s1)" "p \<noteq> 0"
      using Cons.prems(4) RAlloc by (auto split: option.splits if_splits)
    then obtain qs where qs: "mm_run C (\<lambda>_. False) rs s1 = Some (qs, s')" "ps = (i, p) # qs"
      using Cons.prems(4) RAlloc by auto
    have i: "i < length (slots s)"
    proof (rule ccontr)
      assume "\<not> i < length (slots s)"
      then show False using x(1) by (simp add: mm_exec.simps(1,3))
    qed
    have b: "bump_alloc C i s = (p, s1)" using x(1) alloc_protected[OF i] by simp
    have s1: "space_ok C s1" "takes (page_at C i p) s s1" "length (slots s1) = length (mm_sizes C)"
      using bump_alloc_space[OF Cons.prems(1,2) _ b x(2)] i Cons.prems(3) bump_alloc_slots[of C i s] b by auto
    have IH: "pages_apart C qs" "\<forall>(j, q)\<in>set qs. page_at C j q \<subseteq> space s1 - space s'" "space s' \<subseteq> space s1" "space_ok C s'"
      using Cons.IH[OF s1(1) Cons.prems(2) s1(3) qs(1)] by auto
    have t: "page_at C i p \<subseteq> space s" "space s1 \<subseteq> space s" "page_at C i p \<inter> space s1 = {}" using s1(2) by (auto simp: takes_def)
    have "\<forall>(j, q)\<in>set qs. page_at C i p \<inter> page_at C j q = {}" using IH(2) t(3) by fast
    then have "pages_apart C ps" using IH(1) by (simp add: pages_apart_def qs(2))
    moreover have "page_at C i p \<subseteq> space s - space s'" using t IH(3) by blast
    moreover have "\<forall>(j, q)\<in>set qs. page_at C j q \<subseteq> space s - space s'" using IH(2) t(2) by fast
    ultimately show ?thesis using IH(3,4) t(2) qs(2) by auto
  next
    case (RFree cur b)
    obtain x s1 where f: "mm_exec C (\<lambda>_. False) cur (MFree b) s = Some (x, s1)" "mm_run C (\<lambda>_. False) rs s1 = Some (ps, s')"
      using Cons.prems(4) RFree by (auto split: option.splits)
    have s1: "space_ok C s1" "space s1 \<subseteq> space s" "length (slots s1) = length (mm_sizes C)"
      using free_protected[OF Cons.prems(1-3) f(1)] Cons.prems(3) by auto
    show ?thesis using Cons.IH[OF s1(1) Cons.prems(2) s1(3) f(2)] s1(2) by fast
  qed
qed

text \<open>C15. Pages never overlap while nothing may be recycled: for every sequence of allocations and
  frees during which a reader forbids recycling, all pages handed out lie in the free space the
  manager started with (left-over space, current area, new areas), are pairwise disjoint, and are
  disjoint from the space that is still free, however many page containers the frees had to
  allocate in between. (A failed area allocation ends the sequence.)\<close>

theorem protected_pages_disjoint:
  assumes "space_ok C s" "sizes_ok C" "length (slots s) = length (mm_sizes C)"
    and "mm_run C (\<lambda>_. False) rs s = Some (ps, s')"
  shows "pages_apart C ps \<and> (\<forall>(i, p)\<in>set ps. page_at C i p \<subseteq> space s - space s')"
  using run_protected[OF assms] by simp

definition ex_mm_traits :: mm_traits where
  "ex_mm_traits = \<lparr>mm_sizes = [10, 100], mm_SLOT_ID = 1, mm_COUNT = 2\<rparr>"

definition ex_mm :: "nat \<Rightarrow> nat \<Rightarrow> (nat \<times> nat) list \<Rightarrow> mm" where
  "ex_mm a b as = mm_init ex_mm_traits a b \<lparr>allocation_start = 0, allocation_end = 0, left_over_start = 0, left_over_end = 0,
     slots = [], containers = (\<lambda>_. \<lparr>c_next = 0, c_blocks = (\<lambda>_. (0, 0))\<rparr>), page_slot = (\<lambda>_. 0), new_areas = as\<rparr>"

lemma ex_mm_run:
  "\<exists>s'. mm_run ex_mm_traits (\<lambda>_. False) [RAlloc 0, RAlloc 1, RFree 3 1000, RAlloc 0] (ex_mm 1000 1150 [(2000, 2500)])
    = Some ([(0, 1000), (1, 1010), (0, 1110)], s')"
  by (simp add: ex_mm_def mm_init_def ex_mm_traits_def alloc_protected mm_exec.simps(2,4) bump_alloc_def empty_slot_def Let_def
      set_slot_def set_container_next_def set_block_def)

theorem protected_pages_disjoint_witness:
  "pages_apart ex_mm_traits [(0, 1000), (1, 1010), (0, 1110)]"
proof -
  obtain s' where run: "mm_run ex_mm_traits (\<lambda>_. False) [RAlloc 0, RAlloc 1, RFree 3 1000, RAlloc 0] (ex_mm 1000 1150 [(2000, 2500)])
      = Some ([(0, 1000), (1, 1010), (0, 1110)], s')" using ex_mm_run by blast
  have "space_ok ex_mm_traits (ex_mm 1000 1150 [(2000, 2500)])" "sizes_ok ex_mm_traits"
    "length (slots (ex_mm 1000 1150 [(2000, 2500)])) = length (mm_sizes ex_mm_traits)"
    by (auto simp: ex_mm_def mm_init_def ex_mm_traits_def space_ok_def sizes_ok_def alloc_space_def left_space_def)
  from protected_pages_disjoint[OF this run] show ?thesis by blast
qed

section \<open>Two defects\<close>

text \<open>
  When no area can be allocated, the rest of the current area has already become the left-over space
  and is still the current area: later, smaller requests are served twice from the same memory.
\<close>

lemma failed_area_duplicates_pages:
  "map_option fst (mm_run ex_mm_traits (\<lambda>_. False) [RAlloc 0, RAlloc 0, RAlloc 0]
     (snd (the (mm_exec ex_mm_traits (\<lambda>_. False) 0 (MAlloc 1) (ex_mm 1000 1020 [])))))
   = Some [(0, 1000), (0, 1010), (0, 1000)]"
  by code_simp

text \<open>
  A \<open>push\<close> to the queue of container pages that needs a new container pops one from the same queue; if
  that empties the first container, the nested \<open>push\<close> of that container links a new last container,
  which the outer \<open>push\<close> then overwrites. The queue counts three pages and has two.
\<close>

definition full_queue :: mm where
  "full_queue = \<lparr>allocation_start = 1700, allocation_end = 9000, left_over_start = 0, left_over_end = 0,
     slots = [empty_slot, \<lparr>ostart = 1500, oend = 1600, gcount = 3, istart = 1, iend = 2\<rparr>],
     containers = (\<lambda>a. if a = 1500 then \<lparr>c_next = 1600, c_blocks = (\<lambda>i. if i = 0 then (1000, 3) else (1100, 3))\<rparr>
                      else \<lparr>c_next = 0, c_blocks = (\<lambda>i. if i = 0 then (1200, 3) else (1300, 3))\<rparr>),
     page_slot = (\<lambda>_. 1), new_areas = []\<rparr>"

lemma nested_push_loses_pages:
  "case mm_exec ex_mm_traits (\<lambda>t. t < 9) 3 (MFree 1400) full_queue of
     None \<Rightarrow> False
   | Some (x, s) \<Rightarrow>
       slots s ! 1 = \<lparr>ostart = 1600, oend = 1100, gcount = 3, istart = 1, iend = 1\<rparr> \<and> c_next (containers s 1600) = 1100"
  by (simp add: full_queue_def ex_mm_traits_def mm_exec.simps Let_def set_slot_def set_container_next_def set_block_def)

end
