(* ===== verification/Leaves_Frames.thy ===== *)
theory Leaves_Frames
  imports Leaves_Path "HOL-Library.Multiset"
begin

text \<open>
  Changing a trie at one place: the path to the place as a list of frames, the trie that is obtained by
  putting a subtree at its end, what the heap holds along a path whose last link may still be
  unset, and the effect of a change at the end of the path on the finite map of the trie.
\<close>

section \<open>Frames\<close>

text \<open>A node on the path: its address, prefix, branch keys, children and the index of the child taken.\<close>

record frame =
  f_addr :: nat
  f_prefix :: bytes
  f_keys :: "int list"
  f_children :: "atree list"
  f_idx :: nat

fun plug :: "frame list \<Rightarrow> atree \<Rightarrow> atree" where
  "plug [] c = c"
| "plug (f # fs) c = ANode (f_addr f) (f_prefix f) (f_keys f) ((f_children f)[f_idx f := plug fs c])"

lemma plug_append [simp]: "plug (fs @ gs) c = plug fs (plug gs c)"
  by (induction fs) auto

text \<open>The link that leads to the path, and the one at its end.\<close>

definition path_link :: "frame list \<Rightarrow> link \<Rightarrow> link" where
  "path_link fs lk = (case fs of [] \<Rightarrow> lk | f # _ \<Rightarrow> Link TRIE (f_addr f))"

lemma path_link_simps [simp]: "path_link [] lk = lk" "path_link (f # fs) lk = Link TRIE (f_addr f)"
  by (simp_all add: path_link_def)

lemma tree_link_plug: "tree_link (plug fs c) = path_link fs (tree_link c)"
  by (cases fs) auto

definition siblings :: "frame \<Rightarrow> atree list" where
  "siblings f = take (f_idx f) (f_children f) @ drop (Suc (f_idx f)) (f_children f)"

definition frame_at :: "traits \<Rightarrow> heap \<Rightarrow> frame \<Rightarrow> link \<Rightarrow> bool" where
  "frame_at T h f lk \<longleftrightarrow> f_addr f \<noteq> 0 \<and> f_idx f < length (f_children f) \<and> length (f_keys f) = length (f_children f)
     \<and> (\<exists>pg n. h (f_addr f) = Some pg \<and> body pg = TrieN n \<and> wf_node T n \<and> compressed n = f_prefix f
          \<and> node_keys n = f_keys f \<and> array n = (map tree_link (f_children f))[f_idx f := lk])
     \<and> (\<forall>c\<in>set (siblings f). holds T h c)"

fun frames_hold :: "traits \<Rightarrow> heap \<Rightarrow> frame list \<Rightarrow> link \<Rightarrow> bool" where
  "frames_hold T h [] lk \<longleftrightarrow> True"
| "frames_hold T h (f # fs) lk \<longleftrightarrow> frame_at T h f (path_link fs lk) \<and> frames_hold T h fs lk"

lemma path_link_append [simp]: "path_link (fs @ gs) lk = path_link fs (path_link gs lk)"
  by (cases fs) auto

lemma frames_hold_append [simp]:
  "frames_hold T h (fs @ gs) lk \<longleftrightarrow> frames_hold T h fs (path_link gs lk) \<and> frames_hold T h gs lk"
  by (induction fs) auto

lemma set_update_siblings: "i < length xs \<Longrightarrow> set (xs[i := x]) = insert x (set (take i xs @ drop (Suc i) xs))"
  by (simp add: upd_conv_take_nth_drop)

lemma holds_plug: "frames_hold T h fs (tree_link c) \<Longrightarrow> holds T h c \<Longrightarrow> holds T h (plug fs c)"
proof (induction fs)
  case (Cons f fs)
  have i: "f_idx f < length (f_children f)" using Cons.prems by (simp add: frame_at_def)
  obtain pg n where n: "h (f_addr f) = Some pg" "body pg = TrieN n" "wf_node T n" "compressed n = f_prefix f"
    "node_keys n = f_keys f" "array n = (map tree_link (f_children f))[f_idx f := path_link fs (tree_link c)]"
    using Cons.prems by (auto simp: frame_at_def)
  have "array n = map tree_link ((f_children f)[f_idx f := plug fs c])" using n(6) by (simp add: map_update tree_link_plug)
  moreover have "\<forall>x\<in>set ((f_children f)[f_idx f := plug fs c]). holds T h x"
    using Cons i by (auto simp: set_update_siblings siblings_def frame_at_def)
  ultimately show ?case using n(1-5) Cons.prems by (auto simp: frame_at_def)
qed simp

section \<open>The path of a cursor\<close>

definition on_frame :: "bytes \<Rightarrow> frame \<Rightarrow> loc \<Rightarrow> nat \<Rightarrow> transition \<Rightarrow> bool" where
  "on_frame key f l kp tr \<longleftrightarrow> t_offset tr = l \<and> t_keypos tr = kp \<and> t_node tr = f_addr f
     \<and> t_prefix tr = length (f_prefix f) \<and> t_link_idx tr = f_idx f
     \<and> Sublist.prefix (f_prefix f) (drop kp key) \<and> f_keys f ! f_idx f = key_branch (drop (kp + length (f_prefix f)) key)
     \<and> (kp + length (f_prefix f) < length key \<longrightarrow> t_branch_key tr = key ! (kp + length (f_prefix f)))"

fun rail :: "bytes \<Rightarrow> frame list \<Rightarrow> loc \<Rightarrow> nat \<Rightarrow> transition list \<Rightarrow> bool" where
  "rail key [] l kp trs \<longleftrightarrow> trs = []"
| "rail key (f # fs) l kp trs \<longleftrightarrow> (\<exists>tr trs'. trs = tr # trs' \<and> on_frame key f l kp tr
     \<and> rail key fs (LSlot (f_addr f) (f_idx f)) (kp + length (f_prefix f)) trs')"

fun end_loc :: "loc \<Rightarrow> frame list \<Rightarrow> loc" where
  "end_loc l [] = l"
| "end_loc l (f # fs) = end_loc (LSlot (f_addr f) (f_idx f)) fs"

definition end_pos :: "nat \<Rightarrow> frame list \<Rightarrow> nat" where
  "end_pos kp fs = kp + sum_list (map (\<lambda>f. length (f_prefix f)) fs)"

lemma end_loc_snoc [simp]: "end_loc l (fs @ [f]) = LSlot (f_addr f) (f_idx f)"
  by (induction fs arbitrary: l) auto

lemma end_pos_simps [simp]: "end_pos kp [] = kp" "end_pos kp (f # fs) = end_pos (kp + length (f_prefix f)) fs"
  "end_pos kp (fs @ gs) = end_pos (end_pos kp fs) gs"
  by (simp_all add: end_pos_def)

lemma rail_length: "rail key fs l kp trs \<Longrightarrow> length trs = length fs"
  by (induction fs arbitrary: l kp trs) auto

lemma rail_append:
  "rail key (fs @ gs) l kp trs \<longleftrightarrow> (\<exists>ts us. trs = ts @ us \<and> rail key fs l kp ts \<and> rail key gs (end_loc l fs) (end_pos kp fs) us)"
proof (induction fs arbitrary: l kp trs)
  case (Cons f fs)
  then show ?case by (auto simp: Cons_eq_append_conv; metis append_Cons)
qed auto

lemma rail_snoc:
  "rail key (fs @ [f]) l kp trs \<longleftrightarrow> (\<exists>ts tr. trs = ts @ [tr] \<and> rail key fs l kp ts \<and> on_frame key f (end_loc l fs) (end_pos kp fs) tr)"
  unfolding rail_append by auto

lemma on_frame_moved [simp]:
  "on_frame key (f\<lparr>f_addr := a\<rparr>) l kp (tr\<lparr>t_node := a\<rparr>) \<longleftrightarrow> on_frame key f l kp (tr\<lparr>t_node := f_addr f\<rparr>)"
  by (simp add: on_frame_def)

lemma rail_spine:
  assumes "rail key fs l kp trs" "kp \<le> length key" "\<forall>f\<in>set fs. f_idx f < length (f_children f)"
  shows "\<exists>is. spine key (plug fs c) l kp trs is c (end_loc l fs) (end_pos kp fs)"
  using assms
proof (induction fs arbitrary: l kp trs)
  case (Cons f fs)
  obtain tr trs' where r: "trs = tr # trs'" "t_offset tr = l" "t_keypos tr = kp" "t_node tr = f_addr f"
    "t_prefix tr = length (f_prefix f)" "t_link_idx tr = f_idx f"
    "Sublist.prefix (f_prefix f) (drop kp key)" "f_keys f ! f_idx f = key_branch (drop (kp + length (f_prefix f)) key)"
    "kp + length (f_prefix f) < length key \<longrightarrow> t_branch_key tr = key ! (kp + length (f_prefix f))"
    "rail key fs (LSlot (f_addr f) (f_idx f)) (kp + length (f_prefix f)) trs'" using Cons.prems(1) by (auto simp: on_frame_def)
  have i: "f_idx f < length (f_children f)" using Cons.prems(3) by simp
  have "length (f_prefix f) \<le> length (drop kp key)" using r(7) by (rule prefix_length_le)
  then have "kp + length (f_prefix f) \<le> length key" using Cons.prems(2) by simp
  then obtain "is" where "spine key (plug fs c) (LSlot (f_addr f) (f_idx f)) (kp + length (f_prefix f)) trs' is c
      (end_loc (LSlot (f_addr f) (f_idx f)) fs) (end_pos (kp + length (f_prefix f)) fs)"
    using Cons.IH[OF r(10)] Cons.prems(3) by auto
  then have "spine key (plug (f # fs) c) l kp (tr # trs') (f_idx f # is) c (end_loc l (f # fs)) (end_pos kp (f # fs))"
    unfolding plug.simps end_loc.simps end_pos_simps using r i
    by (intro spine.down) (auto simp: on_tree_def)
  then show ?case using r(1) by blast
qed (auto intro: spine.here)

lemma spine_rail:
  assumes "spine key t l kp trs is c l' kp'" "holds T h t"
  shows "\<exists>fs. t = plug fs c \<and> rail key fs l kp trs \<and> l' = end_loc l fs \<and> kp' = end_pos kp fs
    \<and> frames_hold T h fs (tree_link c) \<and> holds T h c"
  using assms
proof (induction rule: spine.induct)
  case (here kp t l)
  then show ?case by (intro exI[of _ "[]"]) simp
next
  case (down l kp a p ks cs tr i trs "is" c l' kp')
  have "holds T h (cs ! i)" using down.prems down.hyps(4) by simp
  then obtain fs where fs: "cs ! i = plug fs c" "rail key fs (LSlot a i) (kp + length p) trs" "l' = end_loc (LSlot a i) fs"
    "kp' = end_pos (kp + length p) fs" "frames_hold T h fs (tree_link c)" "holds T h c" using down.IH by blast
  let ?f = "\<lparr>f_addr = a, f_prefix = p, f_keys = ks, f_children = cs, f_idx = i\<rparr>"
  obtain pg n where n: "a \<noteq> 0" "h a = Some pg" "body pg = TrieN n" "wf_node T n" "compressed n = p" "node_keys n = ks" "array n = map tree_link cs"
    using down.prems by auto
  have "length ks = length cs" using n(4,6,7) by (metis length_map wf_bitmaps_def wf_node_def)
  moreover have "(map tree_link cs)[i := path_link fs (tree_link c)] = map tree_link cs"
    using down.hyps(4) fs(1) by (metis list_update_id nth_map tree_link_plug)
  moreover have "\<forall>x\<in>set (siblings ?f). holds T h x" using down.prems by (auto simp: siblings_def dest: in_set_takeD in_set_dropD)
  ultimately have "frame_at T h ?f (path_link fs (tree_link c))" using n down.hyps(4) by (auto simp: frame_at_def)
  moreover have "cs[i := plug fs c] = cs" using fs(1) by (metis list_update_id)
  ultimately show ?case using fs down.hyps(1-7)
    by (intro exI[of _ "?f # fs"]) (auto simp: on_tree_def on_frame_def)
qed

section \<open>The map of a changed trie\<close>

lemma lookup_node:
  assumes "length ks = length cs" "distinct ks" "i < length cs"
  shows "lookup (ANode a p ks (cs[i := x])) key =
    (if Sublist.prefix p key \<and> key_branch (drop (length p) key) = ks ! i then lookup x (drop (length p) key)
     else lookup (ANode a p ks cs) key)"
proof (cases "Sublist.prefix p key")
  case True
  let ?k = "key_branch (drop (length p) key)"
  have z: "zip ks (map lookup (cs[i := x])) = (zip ks (map lookup cs))[i := (ks ! i, lookup x)]"
    using assms by (simp add: map_update zip_update[symmetric] list_update_id)
  have "map_of (zip ks (map lookup (cs[i := x]))) ?k = (if ?k = ks ! i then Some (lookup x) else map_of (zip ks (map lookup cs)) ?k)"
  proof (cases "?k \<in> set ks")
    case k: True
    then obtain j where j: "j < length ks" "ks ! j = ?k" by (auto simp: in_set_conv_nth)
    have m: "map_of (zip ks (map lookup ys)) (ks ! j) = Some (lookup (ys ! j))" if "length ys = length cs" for ys
      using map_of_zip_nth[of ks "map lookup ys" j] that assms j(1) by simp
    have "?k = ks ! i \<longleftrightarrow> j = i" using j assms by (metis nth_eq_iff_index_eq)
    then show ?thesis using m[of "cs[i := x]"] m[of cs] j assms by (auto simp: nth_list_update)
  next
    case False
    then have "?k \<noteq> ks ! i" using assms by (metis nth_mem)
    moreover have "map_of (zip ks (map lookup ys)) ?k = None" for ys using False by (auto simp: map_of_eq_None_iff dest: set_zip_leftD)
    ultimately show ?thesis by simp
  qed
  then show ?thesis using True assms by (auto simp: Let_def)
qed simp

lemma wf_plug_frame:
  assumes "wf_tree (plug (f # fs) c)" "f_idx f < length (f_children f)"
  shows "length (f_keys f) = length (f_children f)" "distinct (f_keys f)" "branch_ok (f_keys f ! f_idx f) (plug fs c)" "wf_tree (plug fs c)"
proof -
  show "length (f_keys f) = length (f_children f)" "distinct (f_keys f)" using assms(1) by (auto simp: strict_sorted_iff)
  have "\<forall>j<length (f_children f). branch_ok (f_keys f ! j) ((f_children f)[f_idx f := plug fs c] ! j)" using assms(1) by simp
  then have "branch_ok (f_keys f ! f_idx f) ((f_children f)[f_idx f := plug fs c] ! f_idx f)" using assms(2) by blast
  then show "branch_ok (f_keys f ! f_idx f) (plug fs c)" using assms(2) by simp
  have "plug fs c \<in> set ((f_children f)[f_idx f := plug fs c])" using assms(2) by (simp add: set_update_memI)
  then show "wf_tree (plug fs c)" using assms(1) by simp
qed

lemma wf_plug_end: "wf_tree (plug fs c) \<Longrightarrow> \<forall>f\<in>set fs. f_idx f < length (f_children f) \<Longrightarrow> wf_tree c"
proof (induction fs)
  case (Cons f fs)
  then show ?case using wf_plug_frame(4)[of f fs c] by simp
qed simp

lemma lookup_plug:
  assumes "rail key fs l kp trs" "wf_tree (plug fs c)" "\<forall>f\<in>set fs. f_idx f < length (f_children f)"
    "lookup c' = (lookup c)(drop (end_pos kp fs) key := v)"
  shows "lookup (plug fs c') = (lookup (plug fs c))(drop kp key := v)"
  using assms
proof (induction fs arbitrary: l kp trs)
  case (Cons f fs)
  obtain trs' where r: "Sublist.prefix (f_prefix f) (drop kp key)" "f_keys f ! f_idx f = key_branch (drop (kp + length (f_prefix f)) key)"
    "rail key fs (LSlot (f_addr f) (f_idx f)) (kp + length (f_prefix f)) trs'" using Cons.prems(1) by (auto simp: on_frame_def)
  have i: "f_idx f < length (f_children f)" using Cons.prems(3) by simp
  note w = wf_plug_frame[OF Cons.prems(2) i]
  have d: "drop kp key = f_prefix f @ drop (kp + length (f_prefix f)) key"
    using r(1) by (auto simp: Sublist.prefix_def) (metis append_eq_conv_conj drop_drop add.commute)
  have IH: "lookup (plug fs c') = (lookup (plug fs c))(drop (kp + length (f_prefix f)) key := v)"
    by (rule Cons.IH[OF r(3) w(4)]) (use Cons.prems(3) Cons.prems(4)[unfolded end_pos_simps] in auto)
  show ?case
  proof
    fix x
    let ?t = "ANode (f_addr f) (f_prefix f) (f_keys f) (f_children f)" and ?m = "length (f_prefix f)"
    have e: "x = drop kp key \<longleftrightarrow> Sublist.prefix (f_prefix f) x \<and> drop ?m x = drop (kp + ?m) key"
      unfolding d by (auto simp: Sublist.prefix_def)
    have n: "lookup (plug (f # fs) y) x = (if Sublist.prefix (f_prefix f) x \<and> key_branch (drop ?m x) = f_keys f ! f_idx f
        then lookup (plug fs y) (drop ?m x) else lookup ?t x)" for y
      using lookup_node[OF w(1,2) i, of "f_addr f" "f_prefix f" "plug fs y" x] by simp
    show "lookup (plug (f # fs) c') x = ((lookup (plug (f # fs) c))(drop kp key := v)) x"
    proof (cases "x = drop kp key")
      case True
      then have p: "Sublist.prefix (f_prefix f) x" "drop ?m x = drop (kp + ?m) key" using e by blast+
      then have b: "key_branch (drop ?m x) = f_keys f ! f_idx f" using r(2) by simp
      have "lookup (plug (f # fs) c') x = lookup (plug fs c') (drop ?m x)" using n[of c'] p(1) b by presburger
      then show ?thesis using True p(2) IH by simp
    next
      case False
      then have "\<not> (Sublist.prefix (f_prefix f) x \<and> drop ?m x = drop (kp + ?m) key)" using e by blast
      then have "lookup (plug (f # fs) c') x = lookup (plug (f # fs) c) x" unfolding n IH by auto
      then show ?thesis using False by simp
    qed
  qed
qed simp

lemma wf_plug:
  assumes "wf_tree (plug fs c)" "wf_tree c'" "\<forall>f\<in>set fs. f_idx f < length (f_children f)"
    "\<And>k. branch_ok k c \<Longrightarrow> branch_ok k c'"
  shows "wf_tree (plug fs c')"
proof -
  have "wf_tree (plug fs c') \<and> (\<forall>k. branch_ok k (plug fs c) \<longrightarrow> branch_ok k (plug fs c'))"
    using assms
  proof (induction fs)
    case (Cons f fs)
    have i: "f_idx f < length (f_children f)" using Cons.prems(3) by simp
    note w = wf_plug_frame[OF Cons.prems(1) i]
    have IH: "wf_tree (plug fs c')" "\<forall>k. branch_ok k (plug fs c) \<longrightarrow> branch_ok k (plug fs c')" using Cons.IH[OF w(4)] Cons.prems by auto
    have b: "\<forall>j<length (f_children f). branch_ok (f_keys f ! j) ((f_children f)[f_idx f := plug fs c'] ! j)"
    proof (intro allI impI)
      fix j assume j: "j < length (f_children f)"
      have "branch_ok (f_keys f ! j) ((f_children f)[f_idx f := plug fs c] ! j)" using Cons.prems(1) j by simp
      then show "branch_ok (f_keys f ! j) ((f_children f)[f_idx f := plug fs c'] ! j)"
        using IH(2) i j by (cases "j = f_idx f") auto
    qed
    have "\<forall>x\<in>set ((f_children f)[f_idx f := plug fs c']). wf_tree x"
      using Cons.prems(1) IH(1) i by (auto simp: set_update_siblings)
    moreover have "branch_ok k (plug (f # fs) c')" if "branch_ok k (plug (f # fs) c)" for k
      using that by (auto simp: branch_ok_def split: if_splits)
    ultimately show ?case using Cons.prems(1) b by auto
  qed auto
  then show ?thesis by blast
qed

text \<open>Frames that differ in their addresses only.\<close>

definition same_frames :: "frame list \<Rightarrow> frame list \<Rightarrow> bool" where
  "same_frames fs gs \<longleftrightarrow> list_all2 (\<lambda>f g. g = f\<lparr>f_addr := f_addr g\<rparr>) fs gs"

lemma same_frames_refl [simp]: "same_frames fs fs"
  by (simp add: same_frames_def list_all2_refl)

lemma same_frames_append: "same_frames fs gs \<Longrightarrow> same_frames fs' gs' \<Longrightarrow> same_frames (fs @ fs') (gs @ gs')"
  by (simp add: same_frames_def list_all2_appendI)

lemma same_frames_snoc: "same_frames fs gs \<Longrightarrow> same_frames (fs @ [f]) (gs @ [f\<lparr>f_addr := a\<rparr>])"
  by (rule same_frames_append) (simp_all add: same_frames_def)

lemma same_frames_lookup: "same_frames fs gs \<Longrightarrow> lookup (plug gs c) = lookup (plug fs c)"
  unfolding same_frames_def
proof (induction rule: list_all2_induct)
  case (Cons f fs g gs)
  obtain a where g: "g = f\<lparr>f_addr := a\<rparr>" using Cons.hyps by metis
  have "map lookup ((f_children f)[f_idx f := plug gs c]) = map lookup ((f_children f)[f_idx f := plug fs c])"
    using Cons.IH by (metis map_update)
  moreover have "f_prefix g = f_prefix f" "f_keys g = f_keys f" "f_children g = f_children f" "f_idx g = f_idx f" by (simp_all add: g)
  ultimately show ?case by (intro ext) (simp only: plug.simps lookup.simps)
qed simp

lemma same_frames_wf: "same_frames fs gs \<Longrightarrow> wf_tree (plug gs c) = wf_tree (plug fs c) \<and> (\<forall>k. branch_ok k (plug gs c) = branch_ok k (plug fs c))"
  unfolding same_frames_def
proof (induction rule: list_all2_induct)
  case (Cons f fs g gs)
  obtain a where g: "g = f\<lparr>f_addr := a\<rparr>" using Cons.hyps by metis
  let ?c = "f_children f" and ?i = "f_idx f"
  have b: "(\<forall>j<length ?c. branch_ok (f_keys f ! j) (?c[?i := plug gs c] ! j)) \<longleftrightarrow> (\<forall>j<length ?c. branch_ok (f_keys f ! j) (?c[?i := plug fs c] ! j))"
  proof -
    have "branch_ok (f_keys f ! j) (?c[?i := plug gs c] ! j) = branch_ok (f_keys f ! j) (?c[?i := plug fs c] ! j)" if "j < length ?c" for j
      by (cases "j = ?i") (use Cons.IH that in auto)
    then show ?thesis by blast
  qed
  have "(\<forall>x\<in>set (?c[?i := plug gs c]). wf_tree x) \<longleftrightarrow> (\<forall>x\<in>set (?c[?i := plug fs c]). wf_tree x)"
    using Cons.IH by (cases "?i < length ?c") (auto simp: set_update_siblings list_update_beyond)
  then show ?case using b by (simp add: g branch_ok_def)
qed simp

lemma same_frames_pos: "same_frames fs gs \<Longrightarrow> end_pos kp gs = end_pos kp fs"
  unfolding same_frames_def
proof (induction arbitrary: kp rule: list_all2_induct)
  case (Cons f fs g gs)
  obtain a where "g = f\<lparr>f_addr := a\<rparr>" using Cons.hyps by metis
  then show ?case using Cons.IH by simp
qed simp

section \<open>The addresses along a path\<close>

abbreviation nodes :: "frame list \<Rightarrow> nat list" where
  "nodes fs \<equiv> map f_addr fs"

definition sibs :: "frame list \<Rightarrow> nat list" where
  "sibs fs = concat (map (\<lambda>f. concat (map addrs (siblings f))) fs)"

definition separate_path :: "frame list \<Rightarrow> bool" where
  "separate_path fs \<longleftrightarrow> distinct (nodes fs) \<and> distinct (sibs fs) \<and> set (nodes fs) \<inter> set (sibs fs) = {}"

lemma sibs_simps [simp]: "sibs [] = []" "sibs (f # fs) = concat (map addrs (siblings f)) @ sibs fs" "sibs (fs @ gs) = sibs fs @ sibs gs"
  by (simp_all add: sibs_def)

lemma same_frames_sibs: "same_frames fs gs \<Longrightarrow> sibs gs = sibs fs"
  unfolding same_frames_def
proof (induction rule: list_all2_induct)
  case (Cons f fs g gs)
  obtain a where "g = f\<lparr>f_addr := a\<rparr>" using Cons.hyps by metis
  then show ?case using Cons.IH by (simp add: siblings_def)
qed simp

lemma addrs_plug:
  assumes "\<forall>f\<in>set fs. f_idx f < length (f_children f)"
  shows "mset (addrs (plug fs c)) = mset (nodes fs @ sibs fs @ addrs c)"
  using assms
proof (induction fs)
  case (Cons f fs)
  let ?c = "f_children f" and ?i = "f_idx f"
  have "mset (concat (map addrs (?c[?i := x]))) = mset (concat (map addrs (siblings f))) + mset (addrs x)" for x
    using Cons.prems by (simp add: siblings_def upd_conv_take_nth_drop)
  then show ?case using Cons by simp
qed simp

lemma distinct_plug:
  assumes "\<forall>f\<in>set fs. f_idx f < length (f_children f)"
  shows "distinct (addrs (plug fs c)) \<longleftrightarrow> separate_path fs \<and> distinct (addrs c) \<and> (set (nodes fs) \<union> set (sibs fs)) \<inter> set (addrs c) = {}"
    "set (addrs (plug fs c)) = set (nodes fs) \<union> set (sibs fs) \<union> set (addrs c)"
proof -
  note m = addrs_plug[OF assms, of c]
  show "set (addrs (plug fs c)) = set (nodes fs) \<union> set (sibs fs) \<union> set (addrs c)"
    using mset_eq_setD[OF m] by auto
  show "distinct (addrs (plug fs c)) \<longleftrightarrow> separate_path fs \<and> distinct (addrs c) \<and> (set (nodes fs) \<union> set (sibs fs)) \<inter> set (addrs c) = {}"
    unfolding mset_eq_imp_distinct_iff[OF m] by (auto simp: separate_path_def)
qed

lemma frames_idx: "frames_hold T h fs lk \<Longrightarrow> \<forall>f\<in>set fs. f_idx f < length (f_children f)"
  by (induction fs) (auto simp: frame_at_def)

lemma frame_at_cong:
  assumes "frame_at T h f lk" "h' (f_addr f) = h (f_addr f)" "\<And>x. x \<in> set (concat (map addrs (siblings f))) \<Longrightarrow> h' x = h x"
  shows "frame_at T h' f lk"
proof -
  have "holds T h' c" if "c \<in> set (siblings f)" for c
    using assms(1,3) that by (intro holds_cong[of T h c h']) (auto simp: frame_at_def)
  then show ?thesis using assms(1,2) by (simp add: frame_at_def)
qed

lemma frames_hold_cong:
  assumes "frames_hold T h fs lk" "\<forall>x\<in>set (nodes fs) \<union> set (sibs fs). h' x = h x"
  shows "frames_hold T h' fs lk"
  using assms
proof (induction fs)
  case (Cons f fs)
  have f: "frame_at T h f (path_link fs lk)" "frames_hold T h fs lk" using Cons.prems(1) by simp_all
  have "h' (f_addr f) = h (f_addr f)" using Cons.prems(2) by simp
  moreover have "h' x = h x" if "x \<in> set (concat (map addrs (siblings f)))" for x
  proof -
    have "x \<in> set (sibs (f # fs))" using that by simp
    then show ?thesis using Cons.prems(2) by blast
  qed
  ultimately have "frame_at T h' f (path_link fs lk)" by (rule frame_at_cong[OF f(1)])
  moreover have "set (nodes fs) \<union> set (sibs fs) \<subseteq> set (nodes (f # fs)) \<union> set (sibs (f # fs))" by auto
  then have "frames_hold T h' fs lk" using Cons.IH[OF f(2)] Cons.prems(2) by blast
  ultimately show ?case by simp
qed simp

text \<open>Writing the link at the end of a path.\<close>

lemma write_end:
  assumes "frames_hold T (heap s) (fs @ [f]) lk" "separate_path (fs @ [f])"
  shows "\<exists>pg n. heap s (f_addr f) = Some pg
    \<and> write_loc (LSlot (f_addr f) (f_idx f)) lk' s = Some (s\<lparr>heap := (heap s)(f_addr f \<mapsto> pg\<lparr>body := TrieN n\<rparr>)\<rparr>)
    \<and> frames_hold T ((heap s)(f_addr f \<mapsto> pg\<lparr>body := TrieN n\<rparr>)) (fs @ [f]) lk'"
proof -
  let ?a = "f_addr f"
  have f: "frame_at T (heap s) f lk" using assms(1) by simp
  obtain pg n where n: "heap s ?a = Some pg" "body pg = TrieN n" "wf_node T n" "compressed n = f_prefix f"
    "node_keys n = f_keys f" "array n = (map tree_link (f_children f))[f_idx f := lk]"
    using f by (auto simp: frame_at_def)
  let ?n = "n\<lparr>array := (array n)[f_idx f := lk']\<rparr>"
  let ?h = "(heap s)(?a \<mapsto> pg\<lparr>body := TrieN ?n\<rparr>)"
  have i: "f_idx f < length (array n)" using f n(6) by (simp add: frame_at_def)
  have w: "write_loc (LSlot ?a (f_idx f)) lk' s = Some (s\<lparr>heap := ?h\<rparr>)"
    using n(1,2) i by (simp add: trie_at_def put_trie_def set_page_def)
  have nd: "?a \<notin> set (nodes fs)" "?a \<notin> set (sibs (fs @ [f]))" using assms(2) by (auto simp: separate_path_def)
  have "frames_hold T ?h fs (Link TRIE ?a)"
    by (rule frames_hold_cong[of T "heap s"]) (use assms(1) nd in auto)
  moreover have "wf_node T ?n" using wf_node_array[OF n(3)] by simp
  moreover have "holds T ?h c" if "c \<in> set (siblings f)" for c
    using f nd(2) that by (intro holds_cong[of T "heap s" c ?h]) (auto simp: frame_at_def)
  ultimately have "frames_hold T ?h (fs @ [f]) lk'" using f n by (auto simp: frame_at_def)
  then show ?thesis using n(1) w by blast
qed

end
