(* ===== verification/Leaves_Update.thy ===== *)
theory Leaves_Update
  imports Leaves_Frames Leaves_Inserter
begin

text \<open>
  Copy on write along the path of a cursor: with a page allocator that hands out unused pages, moving
  the nodes of the path to fresh pages and writing the link at its end keeps the trie, and
  frees the old pages.
\<close>

section \<open>The page allocator\<close>

definition page_traits :: "traits \<Rightarrow> bool" where
  "page_traits T \<longleftrightarrow> cursor_traits T \<and> sorted_wrt (<) (PAGE_SIZES T) \<and> PAGE_SIZES T \<noteq> []
     \<and> last (PAGE_SIZES T) < 65536 \<and> trie_MAX_SIZE T + PAGE_HEADER_SIZE T \<le> last (PAGE_SIZES T)"

text \<open>
  What the inserter relies on. \<open>live n m L\<close>: the allocator's state \<open>m\<close> has handed out the pages \<open>L\<close> and
  can serve \<open>n\<close> more requests.
\<close>

locale page_allocator =
  fixes T :: traits and Ops :: "'m db_ops" and live :: "nat \<Rightarrow> 'm \<Rightarrow> nat set \<Rightarrow> bool"
  assumes alloc_fresh: "live (Suc n) m L \<Longrightarrow> slot < length (PAGE_SIZES T) \<Longrightarrow>
      \<exists>a m'. op_alloc Ops slot m = Some (a, m') \<and> a \<noteq> 0 \<and> a \<notin> L \<and> live n m' (insert a L)"
    and free_live: "live (Suc n) m L \<Longrightarrow> a \<in> L \<Longrightarrow> slot < length (PAGE_SIZES T) \<Longrightarrow>
      \<exists>m'. op_free Ops a slot m = Some m' \<and> live n m' (L - {a})"
    and live_Suc: "live (Suc n) m L \<Longrightarrow> live n m L"

definition leaf_fits :: "traits \<Rightarrow> nat \<Rightarrow> nat \<Rightarrow> bool" where
  "leaf_fits T k v \<longleftrightarrow> leaf_size_of T k v + PAGE_HEADER_SIZE T \<le> last (PAGE_SIZES T)"

lemma leaf_fits_mono: "leaf_fits T k v \<Longrightarrow> j \<le> k \<Longrightarrow> leaf_fits T j v"
  by (simp add: leaf_fits_def leaf_size_of_def)

text \<open>A leaf leaves room for a key part of any length, since splitting and merging change it.\<close>

definition page_ok :: "traits \<Rightarrow> page \<Rightarrow> bool" where
  "page_ok T p \<longleftrightarrow> slot_id p < length (PAGE_SIZES T)
     \<and> (\<forall>l. body p = LeafN l \<longrightarrow> leaf_fits T 255 (vsize l))"

definition owns :: "traits \<Rightarrow> (nat \<Rightarrow> 'm \<Rightarrow> nat set \<Rightarrow> bool) \<Rightarrow> nat \<Rightarrow> nat set \<Rightarrow> ('m, 'z) cursor_scheme \<Rightarrow> bool" where
  "owns T live n L s \<longleftrightarrow> live n (mem s) L \<and> 0 \<notin> L \<and> (\<forall>a\<in>L. \<exists>p. heap s a = Some p \<and> page_ok T p)"

text \<open>The key part of the cursor, which a change of the trie keeps.\<close>

definition keys_kept :: "('m, 'z) cursor_scheme \<Rightarrow> ('m, 'z) cursor_scheme \<Rightarrow> bool" where
  "keys_kept s s' \<longleftrightarrow> rest_key s' = rest_key s \<and> current_key s' = current_key s"

lemma keys_kept_refl [simp]: "keys_kept s s"
  by (simp add: keys_kept_def)

lemma keys_kept_trans: "keys_kept s s' \<Longrightarrow> keys_kept s' s'' \<Longrightarrow> keys_kept s s''"
  by (simp add: keys_kept_def)

text \<open>A change within the pages \<open>A\<close>.\<close>

definition unchanged :: "nat set \<Rightarrow> ('m, 'z) cursor_scheme \<Rightarrow> ('m, 'z) cursor_scheme \<Rightarrow> bool" where
  "unchanged A s s' \<longleftrightarrow> (\<forall>x\<in>A. heap s' x = heap s x)"

lemma owns_page: "owns T live n L s \<Longrightarrow> a \<in> L \<Longrightarrow> \<exists>p. heap s a = Some p \<and> page_ok T p"
  by (simp add: owns_def)

lemma owns_set:
  "owns T live n L s \<Longrightarrow> mem s' = mem s \<Longrightarrow> heap s' = (heap s)(a \<mapsto> p) \<Longrightarrow> page_ok T p \<Longrightarrow> owns T live n L s'"
  by (auto simp: owns_def)

lemma owns_same: "owns T live n L s \<Longrightarrow> mem s' = mem s \<Longrightarrow> heap s' = heap s \<Longrightarrow> owns T live n L s'"
  by (simp add: owns_def)

lemma page_ok_trie [simp]: "page_ok T (p\<lparr>body := TrieN n\<rparr>) \<longleftrightarrow> slot_id p < length (PAGE_SIZES T)"
  by (simp add: page_ok_def)

context page_allocator
begin

lemma owns_less: "owns T live n L s \<Longrightarrow> k \<le> n \<Longrightarrow> owns T live k L s"
proof (induction n)
  case (Suc n)
  show ?case
  proof (cases "k = Suc n")
    case False
    have "owns T live n L s" using Suc.prems(1) live_Suc by (auto simp: owns_def)
    then show ?thesis using Suc.IH Suc.prems(2) False by simp
  qed (use Suc.prems in simp)
qed simp

lemma alloc_slot_ok:
  assumes "owns T live (Suc n) L s" "slot < length (PAGE_SIZES T)"
  shows "\<exists>a s' p. alloc_slot Ops slot s = Some (a, s') \<and> a \<noteq> 0 \<and> a \<notin> L \<and> owns T live n (insert a L) s'
    \<and> heap s' = (heap s)(a \<mapsto> p) \<and> slot_id p = slot \<and> body p = Raw \<and> root s' = root s \<and> stack s' = stack s \<and> keys_kept s s'"
proof -
  obtain a m' where a: "op_alloc Ops slot (mem s) = Some (a, m')" "a \<noteq> 0" "a \<notin> L" "live n m' (insert a L)"
    using alloc_fresh[of n "mem s" L slot] assms by (auto simp: owns_def)
  then show ?thesis using assms by (auto simp: alloc_slot_def owns_def keys_kept_def page_ok_def)
qed

lemma alloc_node_ok:
  assumes "owns T live (Suc n) L s" "page_traits T" "space + PAGE_HEADER_SIZE T \<le> last (PAGE_SIZES T)"
  shows "\<exists>a s' p. alloc_node T Ops space s = Some (a, s') \<and> a \<noteq> 0 \<and> a \<notin> L \<and> owns T live n (insert a L) s'
    \<and> heap s' = (heap s)(a \<mapsto> p) \<and> slot_id p < length (PAGE_SIZES T) \<and> root s' = root s \<and> stack s' = stack s \<and> keys_kept s s'"
proof -
  have sz: "space mod 65536 = space" "(space + PAGE_HEADER_SIZE T) mod 65536 = space + PAGE_HEADER_SIZE T"
    using assms(2,3) by (simp_all add: page_traits_def)
  let ?slot = "assign_slot T (space + PAGE_HEADER_SIZE T)"
  have sl: "?slot < length (PAGE_SIZES T)" using assms(2,3) by (intro assign_slot_less) (simp_all add: page_traits_def)
  obtain a s1 p where a: "alloc_slot Ops ?slot s = Some (a, s1)" "a \<noteq> 0" "a \<notin> L" "owns T live n (insert a L) s1"
    "heap s1 = (heap s)(a \<mapsto> p)" "slot_id p = ?slot" "body p = Raw" "root s1 = root s" "stack s1 = stack s" "keys_kept s s1"
    using alloc_slot_ok[OF assms(1) sl] by blast
  let ?s = "s1\<lparr>heap := (heap s1)(a \<mapsto> p\<lparr>used := space\<rparr>)\<rparr>"
  have "alloc_node T Ops space s = Some (a, ?s)"
    using sz sl a(1,5) by (simp add: alloc_node_def alloc_page_def Let_def set_page_def)
  moreover have "page_ok T (p\<lparr>used := space\<rparr>)" using a(6,7) sl by (simp add: page_ok_def)
  then have "owns T live n (insert a L) ?s" by (intro owns_set[OF a(4)]) simp_all
  ultimately show ?thesis using a sl
    by (intro exI[of _ a] exI[of _ ?s] exI[of _ "p\<lparr>used := space\<rparr>"]) (auto simp: keys_kept_def)
qed

lemma free_node_ok:
  assumes "owns T live (Suc n) L s" "a \<in> L"
  shows "\<exists>s'. free_node Ops a s = Some s' \<and> owns T live n (L - {a}) s' \<and> heap s' = heap s
    \<and> root s' = root s \<and> stack s' = stack s \<and> keys_kept s s'"
proof -
  obtain p where p: "heap s a = Some p" "page_ok T p" using owns_page[OF assms] by blast
  then obtain m' where "op_free Ops a (slot_id p) (mem s) = Some m'" "live n m' (L - {a})"
    using free_live[of n "mem s" L a "slot_id p"] assms by (auto simp: owns_def page_ok_def)
  then show ?thesis using assms(1) p by (auto simp: free_node_def owns_def keys_kept_def)
qed

end

section \<open>A path in the heap\<close>

definition on_path :: "traits \<Rightarrow> bytes \<Rightarrow> frame list \<Rightarrow> link \<Rightarrow> nat set \<Rightarrow> ('m, 'z) cursor_scheme \<Rightarrow> bool" where
  "on_path T key fs lk L s \<longleftrightarrow> frames_hold T (heap s) fs lk \<and> separate_path fs \<and> set (nodes fs) \<union> set (sibs fs) \<subseteq> L
     \<and> root s = path_link fs lk \<and> rail key fs LRoot 0 (take (length fs) (stack s)) \<and> length fs \<le> length (stack s)"

lemma write_path_end:
  assumes "on_path T key fs lk L s" "owns T live n L s"
  shows "\<exists>s'. write_loc (end_loc LRoot fs) lk' s = Some s' \<and> on_path T key fs lk' L s' \<and> owns T live n L s'
    \<and> stack s' = stack s \<and> keys_kept s s' \<and> unchanged (- set (nodes fs)) s s'"
proof (cases fs rule: rev_cases)
  case Nil
  then show ?thesis using assms by (auto simp: on_path_def keys_kept_def unchanged_def owns_def separate_path_def)
next
  case (snoc gs f)
  have o: "frames_hold T (heap s) (gs @ [f]) lk" "separate_path (gs @ [f])" using assms(1) snoc by (simp_all add: on_path_def)
  from write_end[OF this, of lk'] obtain pg nd where w: "heap s (f_addr f) = Some pg"
    "write_loc (LSlot (f_addr f) (f_idx f)) lk' s = Some (s\<lparr>heap := (heap s)(f_addr f \<mapsto> pg\<lparr>body := TrieN nd\<rparr>)\<rparr>)"
    "frames_hold T ((heap s)(f_addr f \<mapsto> pg\<lparr>body := TrieN nd\<rparr>)) (gs @ [f]) lk'" by blast
  let ?s = "s\<lparr>heap := (heap s)(f_addr f \<mapsto> pg\<lparr>body := TrieN nd\<rparr>)\<rparr>"
  have "f_addr f \<in> L" using assms(1) snoc by (simp add: on_path_def)
  then have "page_ok T pg" using owns_page[OF assms(2)] w(1) by fastforce
  then have "owns T live n L ?s" using owns_set[OF assms(2), of ?s "f_addr f" "pg\<lparr>body := TrieN nd\<rparr>"] by (simp add: page_ok_def)
  moreover have "path_link fs lk = path_link fs lk'" using snoc by (cases gs) auto
  then have "on_path T key fs lk' L ?s" using assms(1) w(3) snoc by (simp add: on_path_def)
  ultimately show ?thesis using w(2) snoc by (auto simp: keys_kept_def unchanged_def)
qed

lemma upd_tr_fields [simp]:
  "heap (upd_tr d f s) = heap s" "mem (upd_tr d f s) = mem s" "root (upd_tr d f s) = root s"
  "rest_key (upd_tr d f s) = rest_key s" "current_key (upd_tr d f s) = current_key s"
  "stack (upd_tr d f s) = (stack s)[d := f (stack s ! d)]"
  by (simp_all add: upd_tr_def)

lemma owns_upd_tr [simp]: "owns T live n L (upd_tr d f s) = owns T live n L s"
  by (simp add: owns_def)

lemma rail_take_snoc:
  assumes "d < length st" "length fs = d"
  shows "rail key (fs @ [f]) l kp (take (Suc d) st) \<longleftrightarrow>
    rail key fs l kp (take d st) \<and> on_frame key f (end_loc l fs) (end_pos kp fs) (st ! d)"
  using take_Suc_conv_app_nth[OF assms(1)] by (auto simp: rail_snoc)

lemma on_path_heap:
  assumes "on_path T key fs lk L s" "\<forall>x\<in>set (nodes fs) \<union> set (sibs fs). heap s' x = heap s x" "root s' = root s"
    "take (length fs) (stack s') = take (length fs) (stack s)" "length (stack s) \<le> length (stack s')"
    "set (nodes fs) \<union> set (sibs fs) \<subseteq> L'"
  shows "on_path T key fs lk L' s'"
  using assms frames_hold_cong[of T "heap s" fs lk "heap s'"] unfolding on_path_def by (metis order_trans)

lemma on_path_mono:
  assumes "on_path T key fs lk L s" "\<forall>x\<in>L. heap s' x = heap s x" "root s' = root s" "stack s' = stack s" "L \<subseteq> L'"
  shows "on_path T key fs lk L' s'"
proof -
  have "set (nodes fs) \<union> set (sibs fs) \<subseteq> L" using assms(1) by (simp add: on_path_def)
  then have "\<forall>x\<in>set (nodes fs) \<union> set (sibs fs). heap s' x = heap s x" "set (nodes fs) \<union> set (sibs fs) \<subseteq> L'" using assms(2,5) by blast+
  from on_path_heap[OF assms(1) this(1) assms(3) _ _ this(2)] show ?thesis using assms(4) by simp
qed

lemma extend_path:
  assumes "on_path T key fs (Link TRIE (f_addr e)) L s" "frame_at T (heap s') e lk" "insert (f_addr e) (set (sibs [e])) \<subseteq> L"
    and "f_addr e \<notin> set (nodes fs) \<union> set (sibs fs)" "distinct (sibs fs @ sibs [e])" "set (sibs [e]) \<inter> insert (f_addr e) (set (nodes fs)) = {}"
    and "\<forall>x\<in>L - {f_addr e}. heap s' x = heap s x" "root s' = root s" "take (length fs) (stack s') = take (length fs) (stack s)"
    and "length fs < length (stack s')" "on_frame key e (end_loc LRoot fs) (end_pos 0 fs) (stack s' ! length fs)"
  shows "on_path T key (fs @ [e]) lk L s'"
proof -
  note P = assms(1)[unfolded on_path_def]
  have "set (nodes fs) \<union> set (sibs fs) \<subseteq> L - {f_addr e}" using P assms(4) by blast
  then have ag: "\<forall>x\<in>set (nodes fs) \<union> set (sibs fs). heap s' x = heap s x" using assms(7) by (meson subsetD)
  have "frames_hold T (heap s) fs (Link TRIE (f_addr e))" using P by simp
  from frames_hold_cong[OF this ag] have "frames_hold T (heap s') fs (Link TRIE (f_addr e))" .
  moreover have "separate_path (fs @ [e])"
  proof -
    have q: "distinct (nodes fs)" "set (nodes fs) \<inter> set (sibs fs) = {}" using P by (simp_all add: separate_path_def)
    have "distinct (nodes (fs @ [e]))" using q(1) assms(4) by simp
    moreover have "distinct (sibs (fs @ [e]))" using assms(5) by simp
    moreover have eq: "set (nodes (fs @ [e])) = insert (f_addr e) (set (nodes fs))" "set (sibs (fs @ [e])) = set (sibs fs) \<union> set (sibs [e])" by auto
    have "a \<notin> N \<union> S \<Longrightarrow> N \<inter> S = {} \<Longrightarrow> S' \<inter> insert a N = {} \<Longrightarrow> insert a N \<inter> (S \<union> S') = {}" for a :: nat and N S S' by blast
    from this[OF assms(4) q(2) assms(6)] have "set (nodes (fs @ [e])) \<inter> set (sibs (fs @ [e])) = {}" unfolding eq .
    ultimately show ?thesis unfolding separate_path_def by blast
  qed
  moreover have "rail key (fs @ [e]) LRoot 0 (take (Suc (length fs)) (stack s'))"
    using rail_take_snoc[OF assms(10) refl, of key e LRoot 0] P assms(9,11) by simp
  moreover have "set (nodes (fs @ [e])) \<union> set (sibs (fs @ [e])) \<subseteq> L" using P assms(3) by simp
  ultimately show ?thesis using P assms(2,8,10) unfolding on_path_def by simp
qed

lemma on_path_top:
  assumes "on_path T key (fs @ [f]) lk L s"
  shows "on_frame key f (end_loc LRoot fs) (end_pos 0 fs) (stack s ! length fs)"
proof -
  have "length fs < length (stack s)" using assms by (simp add: on_path_def)
  from rail_take_snoc[OF this refl, of key f LRoot 0] show ?thesis using assms unfolding on_path_def by simp
qed

lemma frames_snoc_notin:
  assumes "separate_path (fs @ [f])"
  shows "f_addr f \<notin> set (nodes fs) \<union> set (sibs fs)" "separate_path fs"
  using assms by (auto simp: separate_path_def)

context page_allocator
begin

text \<open>The copy of a page: the frame moves to a fresh page, the old page is freed.\<close>

lemma cow_copy_ok:
  assumes "on_path T key (fs @ [f]) lk L s" "owns T live (Suc (Suc n)) L s" "length fs = d"
  defines "old \<equiv> f_addr f"
  shows "\<exists>a s'. cow_copy Ops d s = Some s' \<and> a \<noteq> 0 \<and> a \<notin> L \<and> owns T live n (insert a L - {old}) s'
    \<and> on_path T key fs (Link TRIE old) (insert a L - {old}) s' \<and> frame_at T (heap s') (f\<lparr>f_addr := a\<rparr>) lk
    \<and> stack s' = (stack s)[d := (stack s ! d)\<lparr>t_node := a\<rparr>] \<and> keys_kept s s' \<and> unchanged (L - {old}) s s'"
proof -
  note P = assms(1)[unfolded on_path_def]
  have d: "d < length (stack s)" using P assms(3) by simp
  have r: "rail key fs LRoot 0 (take d (stack s))" "on_frame key f (end_loc LRoot fs) (end_pos 0 fs) (stack s ! d)"
    using P assms(3) rail_take_snoc[OF d assms(3), of key f LRoot 0] by simp_all
  have f: "frame_at T (heap s) f lk" "old \<in> L" using P by (simp_all add: old_def)
  obtain p where p: "heap s old = Some p" "page_ok T p" using owns_page[OF assms(2) f(2)] by blast
  have nd: "t_node (stack s ! d) = old" using r(2) by (simp add: on_frame_def old_def)
  obtain a s1 q where a: "alloc_slot Ops (slot_id p) s = Some (a, s1)" "a \<noteq> 0" "a \<notin> L" "owns T live (Suc n) (insert a L) s1"
    "heap s1 = (heap s)(a \<mapsto> q)" "slot_id q = slot_id p" "root s1 = root s" "stack s1 = stack s" "keys_kept s s1"
    using alloc_slot_ok[OF assms(2), of "slot_id p"] p(2) by (auto simp: page_ok_def)
  let ?q = "q\<lparr>used := used p, body := body p\<rparr>"
  let ?s2 = "s1\<lparr>heap := (heap s1)(a \<mapsto> ?q)\<rparr>"
  let ?s3 = "upd_tr d (\<lambda>tr. tr\<lparr>t_node := a\<rparr>) ?s2"
  have "page_ok T ?q" using p(2) a(6) by (simp add: page_ok_def)
  then have "owns T live (Suc n) (insert a L) ?s2" using owns_set[OF a(4), of ?s2 a ?q] by simp
  then have "owns T live (Suc n) (insert a L) ?s3" by simp
  then obtain s4 where s4: "free_node Ops old ?s3 = Some s4" "owns T live n (insert a L - {old}) s4" "heap s4 = heap ?s3"
    "root s4 = root ?s3" "stack s4 = stack ?s3" "keys_kept ?s3 s4" using free_node_ok[of n "insert a L" ?s3 old] f(2) by auto
  have c: "cow_copy Ops d s = Some s4" using nd p(1) a(1,5) s4(1) by (simp add: cow_copy_def Let_def set_page_def)
  have h: "heap s4 = (heap s)(a \<mapsto> ?q)" using s4(3) a(5) by simp
  have sub: "set (nodes (fs @ [f])) \<union> set (sibs (fs @ [f])) \<subseteq> L" using P by simp
  have op0: "on_path T key fs (Link TRIE old) L s" using P r(1) d assms(3) frames_snoc_notin(2)[of fs f] by (auto simp: on_path_def old_def)
  have "set (nodes fs) \<union> set (sibs fs) \<subseteq> L" using sub by simp
  then have sub': "set (nodes fs) \<union> set (sibs fs) \<subseteq> insert a L - {old}" using frames_snoc_notin(1)[of fs f] P unfolding old_def by blast
  have "\<forall>x\<in>set (nodes fs) \<union> set (sibs fs). heap s4 x = heap s x" using h sub a(3) by auto
  from on_path_heap[OF op0 this _ _ _ sub'] have op: "on_path T key fs (Link TRIE old) (insert a L - {old}) s4"
    using s4(4,5) a(7,8) assms(3) by simp
  have "holds T (heap s4) c" if "c \<in> set (siblings f)" for c
  proof -
    have "set (addrs c) \<subseteq> L" using sub that by auto
    then show ?thesis using f(1) that a(3) h by (intro holds_cong[of T "heap s" c "heap s4"]) (auto simp: frame_at_def)
  qed
  moreover have "siblings (f\<lparr>f_addr := a\<rparr>) = siblings f" by (simp add: siblings_def)
  ultimately have "frame_at T (heap s4) (f\<lparr>f_addr := a\<rparr>) lk" using f(1) h p(1) a(2) by (auto simp: frame_at_def old_def)
  moreover have "unchanged (L - {old}) s s4" using h a(3) by (auto simp: unchanged_def)
  moreover have "keys_kept s s4" using a(9) s4(6) by (simp add: keys_kept_def)
  ultimately show ?thesis using c a s4 op by auto
qed

lemma relink_ok:
  assumes "on_path T key gs lk0 L s" "owns T live n L s" "length gs = d" "d < length (stack s)"
    and "frame_at T (heap s) f lk" "insert (f_addr f) (set (sibs [f])) \<subseteq> L" "separate_path (gs @ [f])"
    and "on_frame key f l0 (end_pos 0 gs) (stack s ! d)" "l = end_loc LRoot gs"
  shows "\<exists>s'. relink d l s = Some (LSlot (f_addr f) (f_idx f), s') \<and> owns T live n L s' \<and> on_path T key (gs @ [f]) lk L s'
    \<and> stack s' = (stack s)[d := (stack s ! d)\<lparr>t_offset := l\<rparr>] \<and> keys_kept s s' \<and> unchanged (- set (nodes gs)) s s'"
proof -
  let ?s = "upd_tr d (\<lambda>tr. tr\<lparr>t_offset := l\<rparr>) s"
  have "on_path T key gs lk0 L ?s" using assms(1,3) by (intro on_path_heap[OF assms(1)]) (auto simp: on_path_def)
  from write_path_end[OF this, of live n "Link TRIE (f_addr f)"] assms(2,9)
  obtain s' where s': "write_loc l (Link TRIE (f_addr f)) ?s = Some s'" "on_path T key gs (Link TRIE (f_addr f)) L s'" "owns T live n L s'"
    "stack s' = stack ?s" "keys_kept ?s s'" "unchanged (- set (nodes gs)) ?s s'" by auto
  have t: "t_node (stack s ! d) = f_addr f" "t_link_idx (stack s ! d) = f_idx f" using assms(8) by (simp_all add: on_frame_def)
  have "relink d l s = Some (LSlot (f_addr f) (f_idx f), s')" using s'(1) t by (simp add: relink_def link_of_tr_def)
  moreover have "on_path T key (gs @ [f]) lk L s'"
  proof -
    note n = frames_snoc_notin(1)[OF assms(7)]
    have "set (sibs [f]) \<inter> set (nodes gs) = {}" using assms(7) by (auto simp: separate_path_def)
    then have "frame_at T (heap s') f lk" using s'(6) n by (intro frame_at_cong[OF assms(5)]) (auto simp: unchanged_def)
    moreover have "on_frame key f (end_loc LRoot gs) (end_pos 0 gs) (stack s' ! d)" using assms(4,8,9) s'(4) by (simp add: on_frame_def)
    ultimately show ?thesis using s'(2,4) assms(3,4,6,7) rail_take_snoc[of d "stack s'" gs key f LRoot 0] by (auto simp: on_path_def)
  qed
  ultimately show ?thesis using s' by (auto simp: keys_kept_def unchanged_def)
qed

end

text \<open>The nodes of a path moved to other pages.\<close>

definition moved_path ::
  "traits \<Rightarrow> (nat \<Rightarrow> 'm \<Rightarrow> nat set \<Rightarrow> bool) \<Rightarrow> bytes \<Rightarrow> link \<Rightarrow> frame list \<Rightarrow> nat set \<Rightarrow> ('m, 'z) cursor_scheme
    \<Rightarrow> nat \<Rightarrow> frame list \<Rightarrow> nat set \<Rightarrow> ('m, 'z) cursor_scheme \<Rightarrow> bool" where
  "moved_path T live key lk fs L s n gs L' s' \<longleftrightarrow> same_frames fs gs \<and> on_path T key gs lk L' s' \<and> owns T live n L' s'
     \<and> keys_kept s s' \<and> length (stack s') = length (stack s) \<and> drop (length fs) (stack s') = drop (length fs) (stack s)
     \<and> L - set (nodes fs) \<subseteq> L' \<and> unchanged (L - set (nodes fs)) s s' \<and> set (nodes gs) \<inter> (L - set (nodes fs)) = {}"

lemma drop_Suc_cong: "drop d xs = drop d ys \<Longrightarrow> drop (Suc d) xs = drop (Suc d) ys"
  by (metis drop_Suc tl_drop)

lemma nth_drop_cong: "drop d xs = drop d ys \<Longrightarrow> d < length xs \<Longrightarrow> d < length ys \<Longrightarrow> xs ! d = ys ! d"
  by (metis hd_drop_conv_nth)

lemma same_frames_length: "same_frames fs gs \<Longrightarrow> length gs = length fs"
  by (simp add: same_frames_def list_all2_lengthD)

lemma moved_path_refl:
  "on_path T key fs lk L s \<Longrightarrow> owns T live n L s \<Longrightarrow> moved_path T live key lk fs L s n fs L s"
  by (auto simp: moved_path_def unchanged_def)

context page_allocator
begin

lemma update_finish:
  assumes s: "on_path T key (fs @ [f]) lk L s" "length fs = d" "old = f_addr f"
    and a: "a \<notin> L" "frame_at T (heap s1) (f\<lparr>f_addr := a\<rparr>) lk" "stack s1 = (stack s)[d := (stack s ! d)\<lparr>t_node := a\<rparr>]"
      "keys_kept s s1" "unchanged (L - {old}) s s1"
    and m: "moved_path T live key (Link TRIE old) fs (insert a L - {old}) s1 n gs L2 s2"
  shows "\<exists>s'. relink d (end_loc LRoot gs) s2 = Some (end_loc LRoot (gs @ [f\<lparr>f_addr := a\<rparr>]), s')
    \<and> moved_path T live key lk (fs @ [f]) L s n (gs @ [f\<lparr>f_addr := a\<rparr>]) L2 s'"
proof -
  note P = s(1)[unfolded on_path_def] and M = m[unfolded moved_path_def]
  let ?f = "f\<lparr>f_addr := a\<rparr>"
  have d: "d < length (stack s)" "length gs = d" using P M s(2) same_frames_length[of fs gs] by auto
  have r: "on_frame key f (end_loc LRoot fs) (end_pos 0 fs) (stack s ! d)"
    using P s(2) rail_take_snoc[OF d(1) s(2), of key f LRoot 0] by simp
  have st: "stack s2 ! d = (stack s ! d)\<lparr>t_node := a\<rparr>" "length (stack s2) = length (stack s)"
  proof -
    show "stack s2 ! d = (stack s ! d)\<lparr>t_node := a\<rparr>" "length (stack s2) = length (stack s)"
      using d(1) M a(3) s(2) nth_drop_cong[of d "stack s2" "stack s1"] by simp_all
  qed
  have sep: "old \<notin> set (nodes fs)" "set (sibs [f]) \<inter> set (nodes fs) = {}" "old \<notin> set (sibs [f])" "distinct (sibs fs @ sibs [f])"
    "set (sibs [f]) \<subseteq> L" "set (nodes fs) \<union> set (sibs fs) \<subseteq> L" "old \<in> L"
    using P s(3) unfolding separate_path_def by auto
  have keep: "insert a (set (sibs [f])) \<subseteq> insert a L - {old} - set (nodes fs)" using sep a(1) by auto
  have fr: "frame_at T (heap s2) ?f lk"
  proof (rule frame_at_cong[OF a(2)])
    show "heap s2 (f_addr ?f) = heap s1 (f_addr ?f)" using M keep by (auto simp: unchanged_def)
    fix x assume "x \<in> set (concat (map addrs (siblings ?f)))"
    then have "x \<in> set (sibs [f])" by (simp add: siblings_def)
    then show "heap s2 x = heap s1 x" using M keep unfolding unchanged_def by blast
  qed
  have sib: "sibs gs = sibs fs" "sibs [?f] = sibs [f]" using same_frames_sibs[of fs gs] M by (simp_all add: siblings_def)
  have sp: "separate_path (gs @ [?f])"
  proof -
    have g: "separate_path gs" "set (nodes gs) \<inter> (insert a L - {old} - set (nodes fs)) = {}" using M by (simp_all add: on_path_def)
    then have "a \<notin> set (nodes gs)" "set (sibs [f]) \<inter> set (nodes gs) = {}" using keep by blast+
    moreover have "a \<notin> set (sibs fs)" "a \<notin> set (sibs [f])" using sep(5,6) a(1) by blast+
    ultimately show ?thesis using g(1) sep(4) sib by (auto simp: separate_path_def)
  qed
  have onf: "on_frame key ?f (end_loc LRoot fs) (end_pos 0 gs) (stack s2 ! d)"
    using r st(1) same_frames_pos[of fs gs 0] M by (simp add: on_frame_def)
  have g: "on_path T key gs (Link TRIE old) L2 s2" "owns T live n L2 s2" "d < length (stack s2)"
    "insert (f_addr ?f) (set (sibs [?f])) \<subseteq> L2" using M keep sib(2) d(1) st(2) by auto
  obtain s' where s': "relink d (end_loc LRoot gs) s2 = Some (LSlot a (f_idx f), s')" "owns T live n L2 s'"
    "on_path T key (gs @ [?f]) lk L2 s'" "stack s' = (stack s2)[d := (stack s2 ! d)\<lparr>t_offset := end_loc LRoot gs\<rparr>]"
    "keys_kept s2 s'" "unchanged (- set (nodes gs)) s2 s'"
    using relink_ok[OF g(1,2) d(2) g(3) fr g(4) sp onf refl] by auto
  have sub: "L - set (nodes (fs @ [f])) \<subseteq> insert a L - {old} - set (nodes fs)" using s(3) by auto
  have "unchanged (L - set (nodes (fs @ [f]))) s s'"
    unfolding unchanged_def
  proof
    fix x assume x: "x \<in> L - set (nodes (fs @ [f]))"
    then have "x \<in> insert a L - {old} - set (nodes fs)" "x \<in> L - {old}" using sub s(3) by auto
    moreover then have "x \<notin> set (nodes gs)" using M by blast
    ultimately show "heap s' x = heap s x" using a(5) M s'(6) unfolding unchanged_def by (metis ComplI)
  qed
  moreover have "same_frames (fs @ [f]) (gs @ [?f])" using M by (intro same_frames_snoc) simp
  moreover have "drop (Suc d) (stack s2) = drop (Suc d) (stack s1)"
    using M s(2) drop_Suc_cong[of d "stack s2" "stack s1"] by simp
  then have "drop (Suc d) (stack s') = drop (Suc d) (stack s)" using s'(4) a(3) by simp
  moreover have "L - set (nodes (fs @ [f])) \<subseteq> L2" "set (nodes (gs @ [?f])) \<inter> (L - set (nodes (fs @ [f]))) = {}"
  proof -
    have i: "insert a L - {old} - set (nodes fs) \<subseteq> L2" "set (nodes gs) \<inter> (insert a L - {old} - set (nodes fs)) = {}" using M by blast+
    show "L - set (nodes (fs @ [f])) \<subseteq> L2" using sub i(1) by blast
    have "set (nodes gs) \<inter> (L - set (nodes (fs @ [f]))) = {}" using sub i(2) by blast
    then show "set (nodes (gs @ [?f])) \<inter> (L - set (nodes (fs @ [f]))) = {}" using a(1) by simp
  qed
  ultimately have "moved_path T live key lk (fs @ [f]) L s n (gs @ [?f]) L2 s'"
    unfolding moved_path_def using s'(2,3,4,5) a(3,4) M s(2) by (simp add: keys_kept_def)
  then show ?thesis using s'(1) by simp
qed

text \<open>\<open>_Transition::update\<close>: the nodes of the path move to fresh pages, as far up as they belong to older transactions.\<close>

lemma update_tr_ok:
  assumes "on_path T key (fs @ [f]) lk L s" "owns T live (n + 2 * length (fs @ [f])) L s" "length fs = d"
  shows "\<exists>s' gs L'. update_tr Ops d s = Some (end_loc LRoot gs, s') \<and> moved_path T live key lk (fs @ [f]) L s n gs L' s'"
  using assms
proof (induction fs arbitrary: f lk L s n d rule: rev_induct)
  case Nil
  note P = Nil.prems(1)[unfolded on_path_def]
  have d: "d = 0" "0 < length (stack s)" using Nil.prems(3) P by auto
  have r: "on_frame key f LRoot 0 (stack s ! 0)" using P rail_take_snoc[OF d(2), of "[]" key f LRoot 0] by simp
  then have t: "t_node (stack s ! 0) = f_addr f" "t_link_idx (stack s ! 0) = f_idx f" "t_offset (stack s ! 0) = LRoot"
    by (simp_all add: on_frame_def)
  obtain p where p: "heap s (f_addr f) = Some p" using P by (auto simp: frame_at_def)
  show ?case
  proof (cases "needs_cow Ops s p")
    case False
    then show ?thesis using t p d moved_path_refl[OF Nil.prems(1) owns_less[OF Nil.prems(2), of n]]
      by (intro exI[of _ s] exI[of _ "[f]"] exI[of _ L]) (simp add: link_of_tr_def)
  next
    case True
    obtain a s1 where a: "cow_copy Ops 0 s = Some s1" "a \<notin> L" "owns T live n (insert a L - {f_addr f}) s1"
      "on_path T key [] (Link TRIE (f_addr f)) (insert a L - {f_addr f}) s1" "frame_at T (heap s1) (f\<lparr>f_addr := a\<rparr>) lk"
      "stack s1 = (stack s)[0 := (stack s ! 0)\<lparr>t_node := a\<rparr>]" "keys_kept s s1" "unchanged (L - {f_addr f}) s s1"
      using cow_copy_ok[OF Nil.prems(1), of n 0] Nil.prems(2) by auto
    note u = update_finish[OF Nil.prems(1) _ refl a(2,5,6,7,8) moved_path_refl[OF a(4,3)]]
    have "t_offset (stack s1 ! 0) = LRoot" using t(3) a(6) d(2) by simp
    then have "t_offset (stack s1 ! 0) = end_loc LRoot []" by simp
    then show ?thesis using u True p t(1) a(1) d(1) by (force simp: Let_def intro!: exI[of _ "[f\<lparr>f_addr := a\<rparr>]"])
  qed
next
  case (snoc g fs)
  note P = snoc.prems(1)[unfolded on_path_def]
  let ?e = "length fs"
  have d: "d = Suc ?e" "d < length (stack s)" "length (fs @ [g]) = d" using snoc.prems(3) P by simp_all
  have r: "on_frame key f (end_loc LRoot (fs @ [g])) (end_pos 0 (fs @ [g])) (stack s ! d)"
    using P d rail_take_snoc[OF d(2,3), of key f LRoot 0] by simp
  then have t: "t_node (stack s ! d) = f_addr f" "t_link_idx (stack s ! d) = f_idx f" by (simp_all add: on_frame_def)
  obtain p where p: "heap s (f_addr f) = Some p" using P by (auto simp: frame_at_def)
  show ?case
  proof (cases "needs_cow Ops s p")
    case False
    then show ?thesis using t p d moved_path_refl[OF snoc.prems(1) owns_less[OF snoc.prems(2), of n]]
      by (intro exI[of _ s] exI[of _ "(fs @ [g]) @ [f]"] exI[of _ L]) (simp add: link_of_tr_def del: append_assoc)
  next
    case True
    let ?L = "insert (a :: nat) L - {f_addr f}"
    have "owns T live (Suc (Suc (n + 2 * length (fs @ [g])))) L s" using snoc.prems(2) by (simp add: algebra_simps)
    from cow_copy_ok[OF snoc.prems(1) this d(3)] obtain a s1 where a: "cow_copy Ops d s = Some s1" "a \<notin> L"
      "owns T live (n + 2 * length (fs @ [g])) (insert a L - {f_addr f}) s1"
      "on_path T key (fs @ [g]) (Link TRIE (f_addr f)) (insert a L - {f_addr f}) s1" "frame_at T (heap s1) (f\<lparr>f_addr := a\<rparr>) lk"
      "stack s1 = (stack s)[d := (stack s ! d)\<lparr>t_node := a\<rparr>]" "keys_kept s s1" "unchanged (L - {f_addr f}) s s1" by auto
    from snoc.IH[OF a(4,3) refl] obtain s2 gs L2 where u: "update_tr Ops ?e s1 = Some (end_loc LRoot gs, s2)"
      "moved_path T live key (Link TRIE (f_addr f)) (fs @ [g]) (insert a L - {f_addr f}) s1 n gs L2 s2" by auto
    let ?gs = "gs @ [f\<lparr>f_addr := a\<rparr>]"
    from update_finish[OF snoc.prems(1) d(3) refl a(2,5,6,7,8) u(2)] obtain s'
      where s': "relink d (end_loc LRoot gs) s2 = Some (end_loc LRoot ?gs, s')" "moved_path T live key lk ((fs @ [g]) @ [f]) L s n ?gs L2 s'" by blast
    then have "update_tr Ops d s = Some (end_loc LRoot ?gs, s')" using True p t(1) a(1) d(1) u(1) by (simp add: Let_def)
    then show ?thesis using s'(2) by blast
  qed
qed

text \<open>\<open>_Transition::update_offset\<close>: the link at the end of the path is replaced.\<close>

lemma update_offset_ok:
  assumes "on_path T key fs lk L s" "owns T live (n + 2 * length fs) L s" "length fs = d" "d < length (stack s)"
    and "t_offset (stack s ! d) = end_loc LRoot fs"
  shows "\<exists>s' gs L'. update_offset Ops d new s = Some s' \<and> same_frames fs gs \<and> on_path T key gs new L' s' \<and> owns T live n L' s'
    \<and> keys_kept s s' \<and> stack s' = take d (stack s') @ (stack s ! d)\<lparr>t_offset := end_loc LRoot gs\<rparr> # drop (Suc d) (stack s)
    \<and> L - set (nodes fs) \<subseteq> L' \<and> unchanged (L - set (nodes fs)) s s' \<and> set (nodes gs) \<inter> (L - set (nodes fs)) = {}"
proof -
  have "\<exists>s1 gs L'. (case d of 0 \<Rightarrow> Some (t_offset (stack s ! 0), s) | Suc e \<Rightarrow> update_tr Ops e s) = Some (end_loc LRoot gs, s1)
      \<and> moved_path T live key lk fs L s n gs L' s1"
  proof (cases fs rule: rev_cases)
    case Nil
    then show ?thesis using moved_path_refl[OF assms(1) owns_less[OF assms(2), of n]] assms(3,5)
      by (intro exI[of _ s] exI[of _ "[]"] exI[of _ L]) simp
  next
    case (snoc es f)
    then have "\<exists>s' gs L'. update_tr Ops (length es) s = Some (end_loc LRoot gs, s') \<and> moved_path T live key lk fs L s n gs L' s'"
      using update_tr_ok[of key es f lk L s n "length es"] assms(1,2) by simp
    moreover have "d = Suc (length es)" using snoc assms(3) by simp
    ultimately show ?thesis by auto
  qed
  then obtain s1 gs L' where u: "(case d of 0 \<Rightarrow> Some (t_offset (stack s ! 0), s) | Suc e \<Rightarrow> update_tr Ops e s) = Some (end_loc LRoot gs, s1)"
    "moved_path T live key lk fs L s n gs L' s1" by blast
  note M = u(2)[unfolded moved_path_def]
  let ?l = "end_loc LRoot gs"
  let ?s = "upd_tr d (\<lambda>tr. tr\<lparr>t_offset := ?l\<rparr>) s1"
  have lg: "length gs = d" using M same_frames_length assms(3) by auto
  have st: "stack s1 ! d = stack s ! d" "length (stack s1) = length (stack s)" "drop (Suc d) (stack s1) = drop (Suc d) (stack s)"
    using M assms(3,4) drop_Suc_cong[of d "stack s1" "stack s"] nth_drop_cong[of d "stack s1" "stack s"] by auto
  have gl: "on_path T key gs lk L' s1" using M by simp
  then have "set (nodes gs) \<union> set (sibs gs) \<subseteq> L'" unfolding on_path_def by blast
  then have "on_path T key gs lk L' ?s" using on_path_heap[OF gl, of ?s L'] lg by simp
  from write_path_end[OF this, of live n new] M obtain s' where s': "write_loc ?l new ?s = Some s'" "on_path T key gs new L' s'"
    "owns T live n L' s'" "stack s' = stack ?s" "keys_kept ?s s'" "unchanged (- set (nodes gs)) ?s s'" by auto
  have "update_offset Ops d new s = Some s'" using u(1) s'(1) by (simp add: update_offset_def)
  moreover have "stack s' = take d (stack s') @ (stack s ! d)\<lparr>t_offset := ?l\<rparr> # drop (Suc d) (stack s)"
    using s'(4) st assms(4) id_take_nth_drop[of d "stack s'"] by simp
  moreover have "unchanged (L - set (nodes fs)) s s'"
    unfolding unchanged_def
  proof
    fix x assume x: "x \<in> L - set (nodes fs)"
    then have "x \<notin> set (nodes gs)" using M by blast
    then show "heap s' x = heap s x" using x M s'(6) unfolding unchanged_def by (metis ComplI upd_tr_fields(1))
  qed
  ultimately show ?thesis using M s'(2,3,5) by (auto simp: keys_kept_def)
qed

end

end
