(* ===== verification/Leaves_Insert.thy ===== *)
theory Leaves_Insert
  imports Leaves_Update
begin

text \<open>
  Inserting through a cursor: the inserter builds the missing part of the trie at the end of the path that
  the search took, and the heap then holds a trie whose finite map has the new entry.
\<close>

section \<open>The frames of a long key\<close>

fun key_frames :: "bytes \<Rightarrow> frame list \<Rightarrow> bool" where
  "key_frames r [] \<longleftrightarrow> length r \<le> 255"
| "key_frames r (e # es) \<longleftrightarrow> 255 < length r \<and> f_prefix e = take 255 r \<and> f_keys e = [uint (r ! 255)]
     \<and> length (f_children e) = 1 \<and> f_idx e = 0 \<and> key_frames (drop 255 r) es"

lemma uint_not_NONE [simp]: "uint (x :: uint8) \<noteq> NONE"
  unfolding NONE_def by (metis uint_ge_0 not_one_le_zero neg_0_le_iff_le)

lemma key_frames_end: "key_frames r es \<Longrightarrow> end_pos 0 es \<le> length r \<and> length (drop (end_pos 0 es) r) \<le> 255 \<and> (r \<noteq> [] \<longrightarrow> drop (end_pos 0 es) r \<noteq> [])"
proof (induction es arbitrary: r)
  case (Cons e es)
  have p: "end_pos 0 (e # es) = 255 + end_pos 0 es" using Cons.prems by (simp add: end_pos_def)
  have "drop (end_pos 0 es) (drop 255 r) = drop (end_pos 0 (e # es)) r" unfolding p by (simp add: add.commute)
  moreover have "drop 255 r \<noteq> []" "255 < length r" using Cons.prems by auto
  ultimately show ?case using Cons.IH[of "drop 255 r"] Cons.prems p by auto
qed auto

lemma plug_key_frames:
  fixes v :: "bool \<times> bytes" and a :: nat
  assumes "key_frames r es"
  defines "c \<equiv> plug es (ALeaf a (drop (end_pos 0 es) r) v)"
  shows "wf_tree c" "lookup c = [r \<mapsto> v]" "branch_ok (key_branch r) c"
proof -
  have "wf_tree c \<and> lookup c = [r \<mapsto> v] \<and> branch_ok (key_branch r) c"
    using assms(1) unfolding c_def
  proof (induction es arbitrary: r)
    case Nil
    then show ?case by (cases r) (auto simp: branch_ok_def key_branch_def)
  next
    case (Cons e es)
    let ?r = "drop 255 r"
    let ?c = "plug es (ALeaf a (drop (end_pos 0 es) ?r) v)"
    have len: "255 < length r" "length (f_children e) = 1" using Cons.prems by auto
    have IH: "wf_tree ?c" "lookup ?c = [?r \<mapsto> v]" "branch_ok (key_branch ?r) ?c" using Cons.IH[of ?r] Cons.prems by auto
    have kb: "key_branch ?r = uint (r ! 255)" using len(1) by (simp add: key_branch_drop)
    have "end_pos 0 (e # es) = 255 + end_pos 0 es" using Cons.prems by (simp add: end_pos_def)
    then have e: "drop (end_pos 0 (e # es)) r = drop (end_pos 0 es) ?r" by (simp add: add.commute)
    have c1: "(f_children e)[0 := ?c] = [?c]" using len(2) by (cases "f_children e") auto
    have pl: "plug (e # es) (ALeaf a (drop (end_pos 0 es) ?r) v) = ANode (f_addr e) (take 255 r) [uint (r ! 255)] [?c]"
      using Cons.prems c1 by simp
    have w: "wf_tree (ANode (f_addr e) (take 255 r) [uint (r ! 255)] [?c])" using IH kb by simp
    have "lookup (ANode (f_addr e) (take 255 r) [uint (r ! 255)] [?c]) x = [r \<mapsto> v] x" for x
    proof (cases "Sublist.prefix (take 255 r) x")
      case True
      then obtain y where x: "x = take 255 r @ y" by (auto simp: Sublist.prefix_def)
      have "x = r \<longleftrightarrow> y = ?r" using x by (metis append_take_drop_id same_append_eq)
      then show ?thesis using x IH(2) kb len(1) by (auto simp: Let_def)
    next
      case False
      then have "x \<noteq> r" using take_is_prefix by blast
      then show ?thesis using False by simp
    qed
    moreover have "branch_ok (key_branch r) (ANode (f_addr e) (take 255 r) [uint (r ! 255)] [?c])"
      using len(1) by (cases r) (auto simp: branch_ok_def key_branch_def)
    ultimately show ?case unfolding e pl using w by blast
  qed
  then show "wf_tree c" "lookup c = [r \<mapsto> v]" "branch_ok (key_branch r) c" by blast+
qed

section \<open>New leaves\<close>

definition new_leaf :: "bytes \<Rightarrow> nat \<Rightarrow> leaf_node \<Rightarrow> bool" where
  "new_leaf k vsz l \<longleftrightarrow> leaf_key l = k \<and> unat (key_size l) = length k \<and> vsize l = vsz \<and> \<not> leaf_is_big l \<and> length (leaf_data l) = length k + vsz"

lemma new_leaf_set: "length k < 256 \<Longrightarrow> vsz < 32768 \<Longrightarrow> new_leaf k vsz (leaf_set (fresh_leaf (length k + vsz)) k vsz)"
  using leaf_set_fields[of k vsz "fresh_leaf (length k + vsz)"]
  by (auto simp: new_leaf_def leaf_key_def) (simp_all add: leaf_set_def fresh_leaf_def)

lemma new_leaf_write:
  assumes "new_leaf k (length v) l"
  shows "leaf_key (leaf_write l v) = k" "leaf_value (leaf_write l v) = v" "\<not> leaf_is_big (leaf_write l v)"
    "length (leaf_data (leaf_write l v)) = unat (key_size (leaf_write l v)) + vsize (leaf_write l v)"
    "vsize (leaf_write l v) = length v" "key_size (leaf_write l v) = key_size l"
proof -
  have A: "take (unat (key_size l)) (leaf_data l) = k" "unat (key_size l) = length k" "vsize l = length v" "\<not> leaf_is_big l"
    "length (leaf_data l) = length k + length v" using assms unfolding new_leaf_def leaf_key_def by blast+
  have k: "unat (key_size l) = length k" "take (length k) (leaf_data l) = k" "length (leaf_data l) = length k + length v"
    using A(1)[unfolded A(2)] A(2,5) by blast+
  have d: "leaf_data (leaf_write l v) = k @ v" unfolding leaf_write_def using k by simp
  have f: "key_size (leaf_write l v) = key_size l" "value_size (leaf_write l v) = value_size l" by (simp_all add: leaf_write_def)
  then show "key_size (leaf_write l v) = key_size l" by simp
  show vs: "vsize (leaf_write l v) = length v" using A(3) f(2) by (simp add: vsize_def)
  show "leaf_key (leaf_write l v) = k" unfolding leaf_key_def d f(1) k(1) by simp
  show "leaf_value (leaf_write l v) = v" unfolding leaf_value_def d f(1) k(1) vs by simp
  show "\<not> leaf_is_big (leaf_write l v)" using A(4) f(2) by (simp add: leaf_is_big_def)
  show "length (leaf_data (leaf_write l v)) = unat (key_size (leaf_write l v)) + vsize (leaf_write l v)" unfolding d f(1) k(1) vs by simp
qed

definition value_ok :: "traits \<Rightarrow> nat \<Rightarrow> bool" where
  "value_ok T vsz \<longleftrightarrow> vsz < 32768 \<and> leaf_fits T 255 vsz"

lemma value_ok_fits: "value_ok T vsz \<Longrightarrow> k \<le> 255 \<Longrightarrow> leaf_fits T k vsz"
  using leaf_fits_mono by (auto simp: value_ok_def)

context page_allocator
begin

lemma fill_leaf_ok:
  assumes "owns T live (Suc n) L s" "page_traits T" "value_ok T vsz" "length k \<le> 255"
  shows "\<exists>a s' p l. fill_leaf T Ops vsz k s = Some (a, s') \<and> a \<noteq> 0 \<and> a \<notin> L \<and> owns T live n (insert a L) s'
    \<and> heap s' = (heap s)(a \<mapsto> p) \<and> body p = LeafN l \<and> new_leaf k vsz l \<and> root s' = root s \<and> stack s' = stack s \<and> keys_kept s s'"
proof -
  have fit: "leaf_fits T (length k) vsz" using value_ok_fits[OF assms(3,4)] .
  obtain a s1 q where a: "alloc_node T Ops (leaf_size_of T (length k) vsz) s = Some (a, s1)" "a \<noteq> 0" "a \<notin> L" "owns T live n (insert a L) s1"
    "heap s1 = (heap s)(a \<mapsto> q)" "slot_id q < length (PAGE_SIZES T)" "root s1 = root s" "stack s1 = stack s" "keys_kept s s1"
    using alloc_node_ok[OF assms(1,2), of "leaf_size_of T (length k) vsz"] fit by (auto simp: leaf_fits_def)
  let ?l = "leaf_set (fresh_leaf (length k + vsz)) k vsz"
  let ?p = "q\<lparr>body := LeafN ?l\<rparr>" and ?s = "s1\<lparr>heap := (heap s1)(a \<mapsto> q\<lparr>body := LeafN (leaf_set (fresh_leaf (length k + vsz)) k vsz)\<rparr>)\<rparr>"
  have l: "new_leaf k vsz ?l" using assms(3,4) by (intro new_leaf_set) (auto simp: value_ok_def)
  have f: "fill_leaf T Ops vsz k s = Some (a, ?s)" using a(1,5) by (simp add: fill_leaf_def put_leaf_def set_page_def)
  have "page_ok T ?p" using a(6) assms(3) l by (auto simp: page_ok_def new_leaf_def value_ok_def)
  then have "owns T live n (insert a L) ?s" using owns_set[OF a(4), of ?s a ?p] by simp
  moreover have "heap ?s = (heap s)(a \<mapsto> ?p)" using a(5) by simp
  moreover have "body ?p = LeafN ?l" by simp
  moreover have "root ?s = root s" "stack ?s = stack s" "keys_kept s ?s" using a(7,8,9) by (simp_all add: keys_kept_def)
  ultimately show ?thesis using f l a(2,3) by blast
qed

end

section \<open>Building the end of a path\<close>

text \<open>The cursor is at the end of a path whose last link is to be set.\<close>

definition at_hole :: "traits \<Rightarrow> bytes \<Rightarrow> frame list \<Rightarrow> link \<Rightarrow> nat set \<Rightarrow> ('m, 'z) cursor_scheme \<Rightarrow> bool" where
  "at_hole T key fs lk L s \<longleftrightarrow> on_path T key fs lk L s \<and> fs \<noteq> [] \<and> length (stack s) = length fs
     \<and> end_pos 0 fs \<le> length key \<and> current_key s = take (end_pos 0 fs) key \<and> rest_key s = drop (end_pos 0 fs) key"

lemma read_path_end:
  assumes "on_path T key fs lk L s"
  shows "read_loc s (end_loc LRoot fs) = Some lk"
proof (cases fs rule: rev_cases)
  case Nil
  then show ?thesis using assms by (simp add: on_path_def)
next
  case (snoc gs f)
  then have "frame_at T (heap s) f lk" using assms by (simp add: on_path_def)
  then show ?thesis using snoc by (auto simp: frame_at_def trie_at_def)
qed

lemma hole_top:
  assumes "at_hole T key fs lk L s"
  shows "link_of_tr (stack s ! top_idx s) = end_loc LRoot fs" "top_idx s = length fs - 1"
proof -
  note A = assms[unfolded at_hole_def on_path_def]
  show t: "top_idx s = length fs - 1" using A by (simp add: top_idx_def)
  obtain gs f where f: "fs = gs @ [f]" using A by (metis rev_exhaust)
  have "on_frame key f (end_loc LRoot gs) (end_pos 0 gs) (stack s ! length gs)"
    using on_path_top[of T key gs f lk L s] assms f by (simp add: at_hole_def)
  then show "link_of_tr (stack s ! top_idx s) = end_loc LRoot fs" using t f by (simp add: link_of_tr_def on_frame_def)
qed

lemma trie_size_branches_max: "traits_ok T \<Longrightarrow> trie_size_branches T 255 1 \<le> trie_MAX_SIZE T"
proof -
  let ?p = "padding (trie_HEADER_SIZE T + 255) sizeof_uint32_e"
  assume "traits_ok T"
  from lower_fits(2)[OF this refl, of 255] have "?p \<le> 330" by simp
  then have "align_size (?p + 12) = ((?p + 12 + 7) div 8) * 8" "align_size (?p + 32) = ((?p + 32 + 7) div 8) * 8"
    by (intro align_size_eq; simp)+
  moreover have "(?p + 12 + 7) div 8 \<le> (?p + 32 + 7) div 8" by (intro div_le_mono) simp
  ultimately show ?thesis
    by (simp add: trie_size_branches_def trie_MAX_SIZE_def Let_def sizeof_uint32_e_def sizeof_offset_e_def MAX_BRANCH_COUNT_def add.assoc)
qed

context page_allocator
begin

lemma write_hole:
  assumes "at_hole T key fs lk L s" "owns T live n L s"
  shows "\<exists>s'. write_loc (link_of_tr (stack s ! top_idx s)) lk' s = Some s' \<and> at_hole T key fs lk' L s' \<and> owns T live n L s'
    \<and> stack s' = stack s \<and> unchanged (- set (nodes fs)) s s'"
  using write_path_end[of T key fs lk L s live n lk'] assms hole_top(1)[OF assms(1)]
  by (auto simp: at_hole_def keys_kept_def)

lemma push_hole:
  assumes "at_hole T key fs (Link k a) L s"
  shows "push s = Some (s\<lparr>stack := stack s @ [\<lparr>t_node = a, t_prefix = 0, t_keypos = end_pos 0 fs,
      t_branch_key = spare s (length fs), t_cmp = UNDEFINED, t_offset = end_loc LRoot fs, t_link_idx = 65535\<rparr>]\<rparr>)"
  using read_path_end[of T key fs "Link k a" L s] assms hole_top(1)[OF assms]
  by (simp add: push_def push_loc_def at_hole_def)

lemma fill_bigkey_ok:
  assumes on: "on_path T key fs (Link TRIE a) L s" and o: "owns T live n L s" and T: "page_traits T" and r: "255 < length (rest_key s)"
    and st: "stack s = ts @ [tr]" "length ts = length fs" "t_node tr = a" "t_offset tr = end_loc LRoot fs" "t_keypos tr = end_pos 0 fs"
    and k: "current_key s = take (end_pos 0 fs) key" "rest_key s = drop (end_pos 0 fs) key" "end_pos 0 fs \<le> length key"
    and a: "a \<in> L" "a \<noteq> 0" "a \<notin> set (nodes fs) \<union> set (sibs fs)"
  shows "\<exists>s' e. fill_bigkey T s = Some s' \<and> at_hole T key (fs @ [e]) 0 L s' \<and> owns T live n L s' \<and> f_addr e = a
    \<and> unchanged (- {a}) s s' \<and> f_prefix e = take 255 (rest_key s) \<and> f_keys e = [uint (rest_key s ! 255)]
    \<and> length (f_children e) = 1 \<and> f_idx e = 0"
proof -
  have T': "traits_ok T" using T by (simp add: page_traits_def cursor_traits_def)
  let ?r = "rest_key s" and ?d = "length fs"
  obtain n1 i where ni: "create_key T (take 255 ?r) (uint (?r ! 255)) = (n1 :: link trie_node, i)" by force
  have i0: "i = 0" using ni by (auto simp: create_key_def Let_def)
  have len: "length (take 255 ?r) = 255" using r by simp
  have nf: "wf_node T n1" "node_keys n1 = [uint (?r ! 255)]" "array n1 = [0]" "compressed n1 = take 255 ?r"
    using create_key_eq[OF T' _ valid_uint, of "take 255 ?r" "?r ! 255", where 'o = link] ni len by simp_all
  obtain q where q: "heap s a = Some q" "page_ok T q" using owns_page[OF o a(1)] by blast
  let ?e = "\<lparr>f_addr = a, f_prefix = take 255 ?r, f_keys = [uint (?r ! 255)], f_children = [ALeaf 0 [] (False, [])], f_idx = 0\<rparr>"
  let ?tr = "tr\<lparr>t_branch_key := ?r ! 255, t_link_idx := 0, t_prefix := 255, t_cmp := 0\<rparr>"
  define s' where "s' = s\<lparr>heap := (heap s)(a \<mapsto> q\<lparr>body := TrieN n1\<rparr>), stack := ts @ [?tr],
    current_key := current_key s @ take 255 ?r, rest_key := drop 255 ?r\<rparr>"
  have f: "fill_bigkey T s = Some s'"
  proof -
    have "stack s ! ?d = tr" "top_idx s = ?d" "(stack s)[?d := x] = ts @ [x]" for x
      using st(1,2) by (simp_all add: nth_append top_idx_def list_update_append)
    then show ?thesis using q(1) ni i0 len st(3)
      unfolding fill_bigkey_def Let_def put_trie_def set_page_def advance_key_def upd_tr_def s'_def by simp
  qed
  have hs: "heap s' = (heap s)(a \<mapsto> q\<lparr>body := TrieN n1\<rparr>)" "stack s' = ts @ [?tr]" by (simp_all add: s'_def)
  have "page_ok T (q\<lparr>body := TrieN n1\<rparr>)" using q(2) by (simp add: page_ok_def)
  then have ow: "owns T live n L s'" using owns_set[OF o, of s' a "q\<lparr>body := TrieN n1\<rparr>"] hs by (simp add: s'_def)
  have r255: "end_pos 0 fs + 255 < length key" using r k(2) by simp
  have "on_frame key ?e (end_loc LRoot fs) (end_pos 0 fs) ?tr"
    using r255 k(2) st(3-5) by (simp add: on_frame_def key_branch_drop take_is_prefix add.commute)
  then have onf: "on_frame key ?e (end_loc LRoot fs) (end_pos 0 fs) (stack s' ! length fs)" using st(2) hs(2) by (simp add: nth_append)
  have fr: "frame_at T (heap s') ?e 0" using hs(1) nf a(2) by (simp add: frame_at_def siblings_def)
  have on': "on_path T key fs (Link TRIE (f_addr ?e)) L s" using on by simp
  have sb: "siblings ?e = []" "f_addr ?e = a" by (simp_all add: siblings_def)
  have ds: "distinct (sibs fs)" using on by (simp add: on_path_def separate_path_def)
  have on4: "on_path T key (fs @ [?e]) 0 L s'"
    by (rule extend_path[OF on' fr]) (use sb a ds hs onf st in \<open>simp_all add: s'_def\<close>)
  have "end_pos 0 (fs @ [?e]) = end_pos 0 fs + 255" using len by (simp add: end_pos_def)
  then have "at_hole T key (fs @ [?e]) 0 L s'"
    using on4 k r st by (auto simp: at_hole_def s'_def take_add add.commute)
  moreover have "unchanged (- {a}) s s'" using hs(1) by (simp add: unchanged_def)
  ultimately show ?thesis using f ow by (intro exI[of _ s'] exI[of _ ?e]) simp
qed

lemma bigkey_step:
  assumes "at_hole T key fs lk L s" "owns T live (Suc n) L s" "page_traits T" "255 < length (rest_key s)"
  shows "\<exists>a s1 s2 s3 s4 e. alloc_node T Ops (trie_size_branches T 255 1) s = Some (a, s1)
    \<and> write_loc (link_of_tr (stack s1 ! top_idx s1)) (Link TRIE a) s1 = Some s2 \<and> push s2 = Some s3 \<and> fill_bigkey T s3 = Some s4
    \<and> at_hole T key (fs @ [e]) 0 (insert a L) s4 \<and> owns T live n (insert a L) s4 \<and> a \<notin> L \<and> f_addr e = a
    \<and> unchanged (L - set (nodes fs)) s s4 \<and> f_prefix e = take 255 (rest_key s) \<and> f_keys e = [uint (rest_key s ! 255)]
    \<and> length (f_children e) = 1 \<and> f_idx e = 0"
proof -
  have T: "traits_ok T" using assms(3) by (simp add: page_traits_def cursor_traits_def)
  have "trie_size_branches T 255 1 + PAGE_HEADER_SIZE T \<le> last (PAGE_SIZES T)"
    using trie_size_branches_max[OF T] assms(3) by (simp add: page_traits_def)
  from alloc_node_ok[OF assms(2,3) this] obtain a s1 q where a: "alloc_node T Ops (trie_size_branches T 255 1) s = Some (a, s1)"
    "a \<noteq> 0" "a \<notin> L" "owns T live n (insert a L) s1" "heap s1 = (heap s)(a \<mapsto> q)" "slot_id q < length (PAGE_SIZES T)"
    "root s1 = root s" "stack s1 = stack s" "keys_kept s s1" by blast
  note A = assms(1)[unfolded at_hole_def]
  have onp: "on_path T key fs lk L s" using A by simp
  have sub: "set (nodes fs) \<union> set (sibs fs) \<subseteq> L" using onp unfolding on_path_def by blast
  then have aL: "a \<notin> set (nodes fs) \<union> set (sibs fs)" using a(3) by blast
  have "\<forall>x\<in>L. heap s1 x = heap s x" using a(3,5) by auto
  from on_path_mono[OF onp this a(7,8) subset_insertI] have "on_path T key fs lk (insert a L) s1" .
  then have h1: "at_hole T key fs lk (insert a L) s1" using A a(8,9) by (simp add: at_hole_def keys_kept_def)
  from write_hole[OF this a(4), of "Link TRIE a"] obtain s2 where s2:
    "write_loc (link_of_tr (stack s1 ! top_idx s1)) (Link TRIE a) s1 = Some s2" "at_hole T key fs (Link TRIE a) (insert a L) s2"
    "owns T live n (insert a L) s2" "stack s2 = stack s1" "unchanged (- set (nodes fs)) s1 s2" by blast
  define tr where "tr = \<lparr>t_node = a, t_prefix = 0, t_keypos = end_pos 0 fs,
      t_branch_key = spare s2 (length fs), t_cmp = UNDEFINED, t_offset = end_loc LRoot fs, t_link_idx = 65535\<rparr>"
  define s3 where "s3 = s2\<lparr>stack := stack s2 @ [tr]\<rparr>"
  have p3: "push s2 = Some s3" using push_hole[OF s2(2)] by (simp add: s3_def tr_def)
  note H = s2(2)[unfolded at_hole_def]
  have on2: "on_path T key fs (Link TRIE a) (insert a L) s2" using H by simp
  have r3: "rest_key s3 = rest_key s" "current_key s3 = take (end_pos 0 fs) key" "rest_key s3 = drop (end_pos 0 fs) key" "end_pos 0 fs \<le> length key"
    using H A by (simp_all add: s3_def)
  have "set (nodes fs) \<union> set (sibs fs) \<subseteq> insert a L" using sub by blast
  then have on3: "on_path T key fs (Link TRIE a) (insert a L) s3" using on_path_heap[OF on2, of s3 "insert a L"] H by (simp add: s3_def)
  have o3: "owns T live n (insert a L) s3" by (rule owns_same[OF s2(3)]) (simp_all add: s3_def)
  have st: "stack s3 = stack s2 @ [tr]" "length (stack s2) = length fs" "t_node tr = a" "t_offset tr = end_loc LRoot fs" "t_keypos tr = end_pos 0 fs"
    using H by (simp_all add: s3_def tr_def)
  from fill_bigkey_ok[OF on3 o3 assms(3) _ st r3(2-4) insertI1 a(2) aL, unfolded r3(1)] assms(4)
  obtain s4 e where f: "fill_bigkey T s3 = Some s4" "at_hole T key (fs @ [e]) 0 (insert a L) s4" "owns T live n (insert a L) s4" "f_addr e = a"
    "unchanged (- {a}) s3 s4" "f_prefix e = take 255 (rest_key s)" "f_keys e = [uint (rest_key s ! 255)]" "length (f_children e) = 1" "f_idx e = 0" by blast
  have "heap s4 x = heap s x" if "x \<in> L - set (nodes fs)" for x
  proof -
    have ne: "x \<noteq> a" "x \<notin> set (nodes fs)" using that a(3) by auto
    have "heap s4 x = heap s3 x" using f(5) ne(1) by (simp add: unchanged_def)
    also have "\<dots> = heap s1 x" using s2(5) ne(2) by (simp add: s3_def unchanged_def)
    finally show ?thesis using a(5) ne(1) by simp
  qed
  then have "unchanged (L - set (nodes fs)) s s4" by (simp add: unchanged_def)
  then show ?thesis using a(1,3) s2(1) p3 f by blast
qed

lemma create_bigkey_ok:
  assumes "at_hole T key fs lk L s" "owns T live (n + length (rest_key s)) L s" "page_traits T"
  shows "\<exists>s' es lk' L'. create_bigkey T Ops s = Some s' \<and> at_hole T key (fs @ es) lk' L' s' \<and> owns T live n L' s'
    \<and> key_frames (rest_key s) es \<and> L \<subseteq> L' \<and> unchanged (L - set (nodes fs)) s s' \<and> set (nodes es) \<inter> L = {}"
  using assms(1,2)
proof (induction "length (rest_key s)" arbitrary: fs lk L s rule: less_induct)
  case less
  show ?case
  proof (cases "255 < length (rest_key s)")
    case False
    then have "create_bigkey T Ops s = Some s" by (subst create_bigkey.simps) simp
    then show ?thesis using less.prems owns_less[OF less.prems(2), of n] False
      by (intro exI[of _ s] exI[of _ "[]"] exI[of _ lk] exI[of _ L]) (simp add: unchanged_def)
  next
    case True
    have sc: "Suc (n + length (rest_key s) - 1) = n + length (rest_key s)" using True by linarith
    have "owns T live (Suc (n + length (rest_key s) - 1)) L s" unfolding sc by (rule less.prems(2))
    from bigkey_step[OF less.prems(1) this assms(3) True] obtain a s1 s2 s3 s4 e where
      b: "alloc_node T Ops (trie_size_branches T 255 1) s = Some (a, s1)"
      "write_loc (link_of_tr (stack s1 ! top_idx s1)) (Link TRIE a) s1 = Some s2" "push s2 = Some s3" "fill_bigkey T s3 = Some s4"
      and h: "at_hole T key (fs @ [e]) 0 (insert a L) s4" "owns T live (n + length (rest_key s) - 1) (insert a L) s4" "a \<notin> L"
      "f_addr e = a" "unchanged (L - set (nodes fs)) s s4"
      and e: "f_prefix e = take 255 (rest_key s)" "f_keys e = [uint (rest_key s ! 255)]" "length (f_children e) = 1" "f_idx e = 0" by blast
    have c: "create_bigkey T Ops s = create_bigkey T Ops s4" using True b by (subst create_bigkey.simps) simp
    have r4: "rest_key s4 = drop 255 (rest_key s)"
      using h(1) less.prems(1) e(1) True by (simp add: at_hole_def add.commute)
    then have lt: "length (rest_key s4) < length (rest_key s)" "n + length (rest_key s4) \<le> n + length (rest_key s) - 1" using True by simp_all
    obtain s' es lk' L' where IH: "create_bigkey T Ops s4 = Some s'" "at_hole T key ((fs @ [e]) @ es) lk' L' s'" "owns T live n L' s'"
      "key_frames (rest_key s4) es" "insert a L \<subseteq> L'" "unchanged (insert a L - set (nodes (fs @ [e]))) s4 s'" "set (nodes es) \<inter> insert a L = {}"
      using less.hyps[OF lt(1) h(1) owns_less[OF h(2) lt(2)]] by blast
    have "key_frames (rest_key s) (e # es)" using IH(4) r4 e True by simp
    moreover have "L - set (nodes fs) \<subseteq> insert a L - set (nodes (fs @ [e]))" using h(3,4) by auto
    then have "unchanged (L - set (nodes fs)) s s'" using IH(6) h(5) unfolding unchanged_def by (metis subsetD)
    moreover have "at_hole T key (fs @ (e # es)) lk' L' s'" using IH(2) by simp
    moreover have "set (nodes (e # es)) \<inter> L = {}" using IH(7) h(3,4) by auto
    ultimately show ?thesis using IH(1,3,5) c by (metis insert_subset)
  qed
qed

end

text \<open>The new leaf is at the end of the path, and the cursor on it; its value is still to be written.\<close>

definition placed ::
  "traits \<Rightarrow> (nat \<Rightarrow> 'm \<Rightarrow> nat set \<Rightarrow> bool) \<Rightarrow> bytes \<Rightarrow> nat \<Rightarrow> nat \<Rightarrow> frame list \<Rightarrow> nat \<Rightarrow> nat set \<Rightarrow> ('m, 'z) cursor_scheme \<Rightarrow> bool" where
  "placed T live key vsz n fs a L s \<longleftrightarrow> on_path T key fs (Link LEAF a) L s \<and> owns T live n L s \<and> length (stack s) = Suc (length fs)
     \<and> on_tree (end_loc LRoot fs) (end_pos 0 fs) (ALeaf a [] (False, [])) (last (stack s)) \<and> t_cmp (last (stack s)) = 0
     \<and> t_prefix (last (stack s)) = length key - end_pos 0 fs
     \<and> a \<in> L \<and> a \<notin> set (nodes fs) \<union> set (sibs fs) \<and> (\<exists>p l. heap s a = Some p \<and> body p = LeafN l \<and> new_leaf (drop (end_pos 0 fs) key) vsz l)
     \<and> current_key s = key \<and> rest_key s = [] \<and> end_pos 0 fs \<le> length key"

context page_allocator
begin

lemma create_leaf_ok:
  assumes "at_hole T key fs lk L s" "owns T live (Suc (n + length (rest_key s))) L s" "page_traits T" "value_ok T vsz"
  shows "\<exists>s' es a L'. create_leaf T Ops vsz s = Some s' \<and> placed T live key vsz n (fs @ es) a L' s'
    \<and> key_frames (rest_key s) es \<and> L \<subseteq> L' \<and> unchanged (L - set (nodes fs)) s s' \<and> insert a (set (nodes es)) \<inter> L = {}"
proof -
  have "owns T live (Suc n + length (rest_key s)) L s" using assms(2) by simp
  from create_bigkey_ok[OF assms(1) this assms(3)] obtain s1 es lk1 L1 where b: "create_bigkey T Ops s = Some s1"
    "at_hole T key (fs @ es) lk1 L1 s1" "owns T live (Suc n) L1 s1" "key_frames (rest_key s) es" "L \<subseteq> L1"
    "unchanged (L - set (nodes fs)) s s1" "set (nodes es) \<inter> L = {}" by blast
  let ?f = "fs @ es"
  note A = b(2)[unfolded at_hole_def]
  have onp: "on_path T key ?f lk1 L1 s1" using A by simp
  have rk: "rest_key s1 = drop (end_pos 0 ?f) key" "rest_key s = drop (end_pos 0 fs) key" using A assms(1) by (simp_all add: at_hole_def)
  have "end_pos 0 ?f = end_pos 0 fs + end_pos 0 es" by (simp add: end_pos_def)
  then have "rest_key s1 = drop (end_pos 0 es) (rest_key s)" using rk by (simp add: add.commute)
  then have "length (rest_key s1) \<le> 255" using key_frames_end[OF b(4)] by simp
  from fill_leaf_ok[OF b(3) assms(3,4) this] obtain a s2 p l where f: "fill_leaf T Ops vsz (rest_key s1) s1 = Some (a, s2)" "a \<noteq> 0" "a \<notin> L1"
    "owns T live n (insert a L1) s2" "heap s2 = (heap s1)(a \<mapsto> p)" "body p = LeafN l" "new_leaf (rest_key s1) vsz l"
    "root s2 = root s1" "stack s2 = stack s1" "keys_kept s1 s2" by blast
  have "\<forall>x\<in>L1. heap s2 x = heap s1 x" using f(3,5) by auto
  from on_path_mono[OF onp this f(8,9) subset_insertI] have on2: "on_path T key ?f lk1 (insert a L1) s2" .
  then have "at_hole T key ?f lk1 (insert a L1) s2" using A f(9,10) by (simp add: at_hole_def keys_kept_def)
  from write_hole[OF this f(4), of "Link LEAF a"] obtain s3 where s3:
    "write_loc (link_of_tr (stack s2 ! top_idx s2)) (Link LEAF a) s2 = Some s3" "at_hole T key ?f (Link LEAF a) (insert a L1) s3"
    "owns T live n (insert a L1) s3" "stack s3 = stack s2" "unchanged (- set (nodes ?f)) s2 s3" by blast
  have sub: "set (nodes ?f) \<union> set (sibs ?f) \<subseteq> L1" using onp unfolding on_path_def by blast
  then have aN: "a \<notin> set (nodes ?f) \<union> set (sibs ?f)" using f(3) by blast
  define tr where "tr = \<lparr>t_node = a, t_prefix = 0, t_keypos = end_pos 0 ?f,
      t_branch_key = spare s3 (length ?f), t_cmp = UNDEFINED, t_offset = end_loc LRoot ?f, t_link_idx = 65535\<rparr>"
  define s4 where "s4 = s3\<lparr>stack := stack s3 @ [tr]\<rparr>"
  have p4: "push s3 = Some s4" using push_hole[OF s3(2)] by (simp add: s4_def tr_def)
  let ?k = "length (rest_key s4)"
  define s5 where "s5 = advance_key ?k (upd_tr (top_idx s4) (\<lambda>tr. tr\<lparr>t_cmp := 0, t_prefix := ?k\<rparr>) s4)"
  have c: "create_leaf T Ops vsz s = Some s5" using b(1) f(1) s3(1) p4 unfolding create_leaf_def Let_def s5_def by simp
  note H = s3(2)[unfolded at_hole_def]
  have st5: "stack s5 = stack s3 @ [tr\<lparr>t_cmp := 0, t_prefix := ?k\<rparr>]"
    using upd_tr_snoc[of s4 "stack s3" tr] by (simp add: s5_def advance_key_def s4_def top_idx_def)
  have f5: "heap s5 = heap s3" "root s5 = root s3" "mem s5 = mem s3" "rest_key s5 = []" by (simp_all add: s5_def advance_key_def s4_def)
  have "current_key s5 = current_key s3 @ rest_key s3" by (simp add: s5_def advance_key_def s4_def)
  then have ck: "current_key s5 = key" using H by simp
  have on3: "on_path T key ?f (Link LEAF a) (insert a L1) s3" and l3: "length (stack s3) = length ?f" using H by blast+
  have "set (nodes ?f) \<union> set (sibs ?f) \<subseteq> insert a L1" using sub by blast
  from on_path_heap[OF on3 _ f5(2) _ _ this] have on5: "on_path T key ?f (Link LEAF a) (insert a L1) s5"
    using f5(1) st5 l3 by simp
  have "placed T live key vsz n ?f a (insert a L1) s5"
    unfolding placed_def
  proof (intro conjI)
    show "owns T live n (insert a L1) s5" by (rule owns_same[OF s3(3)]) (simp_all add: f5)
    show "on_tree (end_loc LRoot ?f) (end_pos 0 ?f) (ALeaf a [] (False, [])) (last (stack s5))" using st5 by (simp add: on_tree_def tr_def)
    have "heap s5 a = Some p" using s3(5) aN f(5) f5(1) by (simp add: unchanged_def)
    then show "\<exists>p l. heap s5 a = Some p \<and> body p = LeafN l \<and> new_leaf (drop (end_pos 0 ?f) key) vsz l" using f(6,7) rk(1) by auto
    have "length (rest_key s3) = length key - end_pos 0 ?f" using H by simp
    then show "t_prefix (last (stack s5)) = length key - end_pos 0 ?f" using st5 by (simp add: s4_def)
  qed (use on5 st5 H aN ck f5 in simp_all)
  moreover have "L \<subseteq> insert a L1" using b(5) by blast
  moreover have "unchanged (L - set (nodes fs)) s s5"
    unfolding unchanged_def
  proof
    fix x assume x: "x \<in> L - set (nodes fs)"
    then have "x \<notin> set (nodes ?f)" using b(7) by auto
    then have "heap s5 x = heap s2 x" using s3(5) f5(1) by (simp add: unchanged_def)
    also have "\<dots> = heap s1 x" using x b(5) f(3,5) by auto
    finally show "heap s5 x = heap s x" using b(6) x by (simp add: unchanged_def)
  qed
  moreover have "insert a (set (nodes es)) \<inter> L = {}" using b(5,7) f(3) by blast
  ultimately show ?thesis using c b(4) by blast
qed

end

section \<open>A new node at the end of the path\<close>

text \<open>The node \<open>g\<close> is written and the transition on it, but the path still leads to the node it replaces.\<close>

definition grafted :: "traits \<Rightarrow> bytes \<Rightarrow> frame list \<Rightarrow> frame \<Rightarrow> link \<Rightarrow> nat set \<Rightarrow> ('m, 'z) cursor_scheme \<Rightarrow> bool" where
  "grafted T key fs g h L s \<longleftrightarrow> frame_at T (heap s) g h \<and> insert (f_addr g) (set (sibs [g])) \<subseteq> L - (set (nodes fs) \<union> set (sibs fs))
     \<and> distinct (f_addr g # sibs [g]) \<and> length (stack s) = Suc (length fs)
     \<and> on_frame key g (end_loc LRoot fs) (end_pos 0 fs) (stack s ! length fs)
     \<and> end_pos 0 (fs @ [g]) \<le> length key \<and> rest_key s = drop (end_pos 0 (fs @ [g])) key \<and> current_key s = take (end_pos 0 (fs @ [g])) key"

context page_allocator
begin

lemma graft_ok:
  assumes "on_path T key fs lk L s" "owns T live (n + 2 * length fs) L s" "grafted T key fs g h L s"
  shows "\<exists>s' gs L'. update_offset Ops (length fs) (Link TRIE (f_addr g)) s = Some s' \<and> same_frames fs gs
    \<and> at_hole T key (gs @ [g]) h L' s' \<and> owns T live n L' s' \<and> rest_key s' = rest_key s"
proof -
  note G = assms(3)[unfolded grafted_def]
  have d: "length fs < length (stack s)" "t_offset (stack s ! length fs) = end_loc LRoot fs" using G by (simp_all add: on_frame_def)
  obtain s' gs L' where u: "update_offset Ops (length fs) (Link TRIE (f_addr g)) s = Some s'" "same_frames fs gs"
    "on_path T key gs (Link TRIE (f_addr g)) L' s'" "owns T live n L' s'" "keys_kept s s'"
    "stack s' = take (length fs) (stack s') @ (stack s ! length fs)\<lparr>t_offset := end_loc LRoot gs\<rparr> # drop (Suc (length fs)) (stack s)"
    "L - set (nodes fs) \<subseteq> L'" "unchanged (L - set (nodes fs)) s s'" "set (nodes gs) \<inter> (L - set (nodes fs)) = {}"
    using update_offset_ok[OF assms(1,2) refl d, of "Link TRIE (f_addr g)"] by blast
  let ?A = "insert (f_addr g) (set (sibs [g]))"
  have A: "?A \<subseteq> L - set (nodes fs)" "?A \<inter> set (sibs fs) = {}" using G by blast+
  have sib: "sibs gs = sibs fs" and pos: "end_pos k gs = end_pos k fs" and len: "length gs = length fs" for k
    using same_frames_sibs[OF u(2)] same_frames_pos[OF u(2)] same_frames_length[OF u(2)] by blast+
  have dn: "?A \<inter> set (nodes gs) = {}" using A(1) u(9) by blast
  have fr: "frame_at T (heap s') g h"
  proof (rule frame_at_cong)
    show "frame_at T (heap s) g h" using G by simp
    show "heap s' (f_addr g) = heap s (f_addr g)" using A(1) u(8) by (simp add: unchanged_def)
    show "heap s' x = heap s x" if "x \<in> set (concat (map addrs (siblings g)))" for x
    proof -
      have "x \<in> set (sibs [g])" using that by simp
      then have "x \<in> L - set (nodes fs)" using A(1) by blast
      then show ?thesis using u(8) by (simp add: unchanged_def)
    qed
  qed
  have st: "stack s' ! length gs = (stack s ! length fs)\<lparr>t_offset := end_loc LRoot gs\<rparr>" "length (stack s') = Suc (length gs)"
  proof -
    have le: "length fs \<le> length (stack s')" using u(3) len by (simp add: on_path_def)
    have "stack s' ! length fs = (take (length fs) (stack s') @ (stack s ! length fs)\<lparr>t_offset := end_loc LRoot gs\<rparr> # drop (Suc (length fs)) (stack s)) ! length fs"
      using u(6) by metis
    then show "stack s' ! length gs = (stack s ! length fs)\<lparr>t_offset := end_loc LRoot gs\<rparr>" using le len by (simp add: nth_append)
    have "length (stack s') = length (take (length fs) (stack s')) + Suc (length (drop (Suc (length fs)) (stack s)))"
      using arg_cong[OF u(6), of length] by simp
    then show "length (stack s') = Suc (length gs)" using le len G by simp
  qed
  have onf: "on_frame key g (end_loc LRoot gs) (end_pos 0 gs) (stack s' ! length gs)" using G pos[of 0] st(1) by (simp add: on_frame_def)
  have ds: "distinct (sibs gs @ sibs [g])"
  proof -
    have "distinct (sibs gs)" using u(3) by (simp add: on_path_def separate_path_def)
    moreover have "distinct (sibs [g])" using G by (simp del: sibs_simps)
    moreover have "set (sibs gs) \<inter> set (sibs [g]) = {}" unfolding sib using A(2) by blast
    ultimately show ?thesis by (simp del: sibs_simps)
  qed
  have ng: "f_addr g \<notin> set (nodes gs) \<union> set (sibs gs)" unfolding sib using dn A(2) by blast
  have "f_addr g \<notin> set (sibs [g])" using G by (simp del: sibs_simps)
  then have sn: "set (sibs [g]) \<inter> insert (f_addr g) (set (nodes gs)) = {}" using dn by blast
  have sub: "?A \<subseteq> L'" using A(1) u(7) by (rule subset_trans)
  have on: "on_path T key (gs @ [g]) h L' s'"
    by (rule extend_path[OF u(3) fr sub ng ds sn _ refl refl _ onf]) (simp_all add: st(2))
  then have "at_hole T key (gs @ [g]) h L' s'"
    using G pos st(2) u(5) by (simp add: at_hole_def keys_kept_def)
  then show ?thesis using u(1,2,4,5) by (auto simp: keys_kept_def)
qed

lemma graft_leaf_ok:
  assumes "on_path T key fs lk L s" "owns T live (Suc (n + length (rest_key s) + 2 * length fs)) L s" "grafted T key fs g h L s"
    and "page_traits T" "value_ok T vsz" "\<And>tr. t_node (u tr) = t_node tr \<and> t_prefix (u tr) = t_prefix tr \<and> t_keypos (u tr) = t_keypos tr
      \<and> t_branch_key (u tr) = t_branch_key tr \<and> t_offset (u tr) = t_offset tr \<and> t_link_idx (u tr) = t_link_idx tr"
  shows "\<exists>s1 s' gs es a L'. update_offset Ops (length fs) (Link TRIE (f_addr g)) s = Some s1
    \<and> create_leaf T Ops vsz (upd_tr (length fs) u s1) = Some s' \<and> same_frames fs gs \<and> placed T live key vsz n (gs @ [g] @ es) a L' s'
    \<and> key_frames (rest_key s) es"
proof -
  have "owns T live (Suc (n + length (rest_key s)) + 2 * length fs) L s" using assms(2) by simp
  from graft_ok[OF assms(1) this assms(3)] obtain s1 gs L1 where g: "update_offset Ops (length fs) (Link TRIE (f_addr g)) s = Some s1"
    "same_frames fs gs" "at_hole T key (gs @ [g]) h L1 s1" "owns T live (Suc (n + length (rest_key s))) L1 s1" "rest_key s1 = rest_key s" by blast
  let ?s = "upd_tr (length fs) u s1"
  note H = g(3)[unfolded at_hole_def]
  have len: "length gs = length fs" "length (stack s1) = Suc (length fs)" using same_frames_length[OF g(2)] H by simp_all
  have "on_frame key g (end_loc LRoot gs) (end_pos 0 gs) (stack s1 ! length gs)" using on_path_top H by blast
  then have onf: "on_frame key g (end_loc LRoot gs) (end_pos 0 gs) (stack ?s ! length gs)" using assms(6) len by (simp add: on_frame_def)
  have r: "rail key gs LRoot 0 (take (length gs) (stack s1))" using rail_take_snoc[of "length gs" "stack s1" gs key g LRoot 0] H len by (simp add: on_path_def)
  then have "rail key (gs @ [g]) LRoot 0 (take (Suc (length gs)) (stack ?s))"
    using rail_take_snoc[of "length gs" "stack ?s" gs key g LRoot 0] onf len by simp
  then have "on_path T key (gs @ [g]) h L1 ?s" using H len by (simp add: on_path_def)
  then have h: "at_hole T key (gs @ [g]) h L1 ?s" using H by (simp add: at_hole_def)
  have "owns T live (Suc (n + length (rest_key ?s))) L1 ?s" using g(4,5) by simp
  from create_leaf_ok[OF h this assms(4,5)] obtain s' es a L' where "create_leaf T Ops vsz ?s = Some s'"
    "placed T live key vsz n ((gs @ [g]) @ es) a L' s'" "key_frames (rest_key s) es" using g(5) by auto
  then show ?thesis using g(1,2) unfolding append_assoc by blast
qed

end

end
