(* ===== verification/Leaves_Grow.thy ===== *)
theory Leaves_Grow
  imports Leaves_Frames
begin

text \<open>
  The trie-level content of an insertion: a node of two branches above an old subtree and a new one,
  a node with one more branch, and the trie obtained by putting the grown subtree at the end of
  its path.
\<close>

section \<open>Lookup and branches\<close>

lemma lookup_other_branch:
  assumes "wf_tree x" "branch_ok k x" "key_branch r \<noteq> k"
  shows "lookup x r = None"
proof (rule ccontr)
  assume "lookup x r \<noteq> None"
  then obtain v where "map_of (entries x) r = Some v" using lookup_entries[OF assms(1), of r] by auto
  then have "(r, v) \<in> set (entries x)" by (rule map_of_SomeD)
  from entries_branch[OF assms(2) this] show False using assms(3) by simp
qed

lemma lookup_ANode_map:
  assumes "length ks = length cs"
  shows "lookup (ANode a p ks cs) key = (if Sublist.prefix p key
    then Option.bind (map_of (zip ks (map lookup cs)) (key_branch (drop (length p) key))) (\<lambda>f. f (drop (length p) key)) else None)"
proof -
  have "k \<notin> set ks \<Longrightarrow> map_of (zip ks (map lookup cs)) k = None" for k by (auto simp: map_of_eq_None_iff dest: set_zip_leftD)
  then show ?thesis by (auto simp: Let_def)
qed

section \<open>A node of two branches\<close>

text \<open>Both growths by a new node: the old subtree \<open>x\<close> under \<open>kx\<close> and the new one \<open>y\<close> under \<open>ky\<close>.\<close>

definition pair_keys :: "int \<Rightarrow> int \<Rightarrow> int list" where
  "pair_keys kx ky = [min kx ky, max kx ky]"

definition pair_children :: "int \<Rightarrow> int \<Rightarrow> atree \<Rightarrow> atree \<Rightarrow> atree list" where
  "pair_children kx ky x y = (if ky < kx then [y, x] else [x, y])"

lemma pair_map:
  "kx \<noteq> ky \<Longrightarrow> map_of (zip (pair_keys kx ky) (map f (pair_children kx ky x y))) = [kx \<mapsto> f x, ky \<mapsto> f y]"
  by (auto simp: pair_keys_def pair_children_def fun_eq_iff)

lemma pair_node:
  fixes a :: nat
  assumes "kx \<noteq> ky" "length p \<le> 255" "wf_tree x" "branch_ok kx x" "wf_tree y" "branch_ok ky y" "lookup y = [r \<mapsto> v]" "key_branch r = ky"
  defines "n \<equiv> ANode a p (pair_keys kx ky) (pair_children kx ky x y)"
  shows "wf_tree n" "lookup n = (\<lambda>key. if Sublist.prefix p key then lookup x (drop (length p) key) else None)(p @ r \<mapsto> v)"
proof -
  show "wf_tree n" using assms by (auto simp: n_def pair_keys_def pair_children_def All_less_Suc)
  show "lookup n = (\<lambda>key. if Sublist.prefix p key then lookup x (drop (length p) key) else None)(p @ r \<mapsto> v)"
  proof
    fix key :: bytes
    let ?r = "drop (length p) key"
    have e: "key = p @ r \<longleftrightarrow> Sublist.prefix p key \<and> ?r = r" by (auto simp: Sublist.prefix_def)
    have l: "lookup n key = (if Sublist.prefix p key then Option.bind ([kx \<mapsto> lookup x, ky \<mapsto> lookup y] (key_branch ?r)) (\<lambda>f. f ?r) else None)"
      unfolding n_def using pair_map[OF assms(1), of lookup x y] lookup_ANode_map[of "pair_keys kx ky" "pair_children kx ky x y" a p key]
      by (simp add: pair_keys_def pair_children_def)
    have "key_branch ?r \<noteq> kx \<Longrightarrow> lookup x ?r = None" by (rule lookup_other_branch[OF assms(3,4)])
    then show "lookup n key = ((\<lambda>key. if Sublist.prefix p key then lookup x (drop (length p) key) else None)(p @ r \<mapsto> v)) key"
      unfolding l using e assms(1,7,8) by auto
  qed
qed

section \<open>A node with one more branch\<close>

definition insert_child :: "nat \<Rightarrow> 'a \<Rightarrow> 'a list \<Rightarrow> 'a list" where
  "insert_child i y cs = take i cs @ [y] @ drop i cs"

lemma insert_child_simps [simp]:
  "length (insert_child i y cs) = Suc (length cs)" "i \<le> length cs \<Longrightarrow> insert_child i y cs ! i = y"
  "i \<le> length cs \<Longrightarrow> (insert_child i y cs)[i := z] = insert_child i z cs" "map f (insert_child i y cs) = insert_child i (f y) (map f cs)"
  "set (insert_child i y cs) = insert y (set cs)"
proof -
  have "set (take i cs) \<union> set (drop i cs) = set cs" by (metis append_take_drop_id set_append)
  then show "set (insert_child i y cs) = insert y (set cs)" by (auto simp: insert_child_def)
qed (auto simp: insert_child_def nth_append list_update_append take_map drop_map)

lemma insert_key_child:
  assumes "sorted_wrt (<) ks" "k \<notin> set ks"
  shows "insert_key k ks = insert_child (length (filter (\<lambda>x. x < k) ks)) k ks"
  using sorted_keys_split[OF assms(1), of k] assms(2) by (simp add: insert_key_def insert_child_def)

lemma insert_map:
  assumes "length ks = length xs" "i \<le> length ks" "k \<notin> set ks"
  shows "map_of (zip (insert_child i k ks) (insert_child i x xs)) = (map_of (zip ks xs))(k \<mapsto> x)"
proof -
  have "map_of (zip (take i ks) (take i xs)) k = None"
    using assms(3) by (auto simp: map_of_eq_None_iff) (metis set_zip_leftD in_set_takeD)
  then show ?thesis using map_middle(1)[of "map_of (zip (take i ks) (take i xs))" k "map_of (zip (drop i ks) (drop i xs))" x]
      map_of_zip_split[OF assms(2,1)] assms by (simp add: insert_child_def)
qed

lemma add_node:
  fixes a' :: nat
  assumes w: "wf_tree (ANode a p ks cs)" and k: "k \<notin> set ks" and y: "wf_tree y" "branch_ok k y" "lookup y = [r \<mapsto> v]" "key_branch r = k"
  defines "i \<equiv> length (filter (\<lambda>x. x < k) ks)"
  defines "n \<equiv> ANode a' p (insert_key k ks) (insert_child i y cs)"
  shows "wf_tree n" "lookup n = (lookup (ANode a p ks cs))(p @ r \<mapsto> v)"
proof -
  have s: "length ks = length cs" "sorted_wrt (<) ks" "\<forall>j<length cs. branch_ok (ks ! j) (cs ! j)" "length p \<le> 255" "\<forall>c\<in>set cs. wf_tree c"
    using w by auto
  have i: "i \<le> length ks" by (simp add: i_def)
  have ik: "insert_key k ks = insert_child i k ks" using insert_key_child[OF s(2) k] by (simp add: i_def)
  have srt: "sorted_wrt (<) (insert_key k ks)"
    using s(2) by (auto simp: insert_key_def sorted_wrt_append sorted_wrt_filter)
  have "branch_ok (insert_child i k ks ! j) (insert_child i y cs ! j)" if "j < Suc (length cs)" for j
  proof (cases "j < i")
    case True
    then show ?thesis using s(1,3) i by (simp add: insert_child_def nth_append)
  next
    case False
    show ?thesis
    proof (cases "j = i")
      case False
      then obtain m where m: "j = Suc m" "i \<le> m" using \<open>\<not> j < i\<close> by (cases j) auto
      then have "insert_child i k ks ! j = ks ! m" "insert_child i y cs ! j = cs ! m"
        using i s(1) that by (simp_all add: insert_child_def nth_append Suc_diff_le)
      then show ?thesis using s(3) m that by simp
    qed (use i s(1) y(2) in simp)
  qed
  moreover have "insert_child i k ks \<noteq> []" by (simp add: insert_child_def)
  ultimately show "wf_tree n" using s y(1) srt unfolding ik n_def by auto
  show "lookup n = (lookup (ANode a p ks cs))(p @ r \<mapsto> v)"
  proof
    fix key :: bytes
    let ?r = "drop (length p) key"
    have e: "key = p @ r \<longleftrightarrow> Sublist.prefix p key \<and> ?r = r" by (auto simp: Sublist.prefix_def)
    have m: "map_of (zip (insert_key k ks) (map lookup (insert_child i y cs))) = (map_of (zip ks (map lookup cs)))(k \<mapsto> lookup y)"
      using insert_map[of ks "map lookup cs" i k "lookup y"] s(1) i k ik by simp
    have nk: "map_of (zip ks (map lookup cs)) k = None" using k by (auto simp: map_of_eq_None_iff dest: set_zip_leftD)
    define M where "M = map_of (zip ks (map lookup cs))"
    have n: "lookup n key = (if Sublist.prefix p key then Option.bind ((M(k \<mapsto> lookup y)) (key_branch ?r)) (\<lambda>f. f ?r) else None)"
      using lookup_ANode_map[of "insert_key k ks" "insert_child i y cs" a' p key] s(1) ik unfolding n_def m M_def by simp
    have o: "lookup (ANode a p ks cs) key = (if Sublist.prefix p key then Option.bind (M (key_branch ?r)) (\<lambda>f. f ?r) else None)"
      using lookup_ANode_map[OF s(1), of a p key] unfolding M_def .
    have "M k = None" using nk by (simp add: M_def)
    then show "lookup n key = ((lookup (ANode a p ks cs))(p @ r \<mapsto> v)) key"
      unfolding fun_upd_def n o y(3) using e y(4) by auto
  qed
qed

section \<open>Growing at the end of a path\<close>

lemma end_branch:
  assumes "rail key (fs @ [f]) l kp trs" "wf_tree (plug (fs @ [f]) c)" "\<forall>f\<in>set (fs @ [f]). f_idx f < length (f_children f)"
  shows "branch_ok (key_branch (drop (end_pos kp (fs @ [f])) key)) c"
  using assms
proof (induction fs arbitrary: l kp trs)
  case Nil
  have "branch_ok (f_keys f ! f_idx f) (plug [] c)" using wf_plug_frame(3)[of f "[]" c] Nil by simp
  then show ?case using Nil.prems(1) by (auto simp: on_frame_def)
next
  case (Cons g fs)
  obtain trs' where "rail key (fs @ [f]) (LSlot (f_addr g) (f_idx g)) (kp + length (f_prefix g)) trs'" using Cons.prems(1) by auto
  moreover have "wf_tree (plug (fs @ [f]) c)" using wf_plug_frame(4)[of g "fs @ [f]" c] Cons.prems(2,3) by simp
  ultimately show ?case using Cons.IH Cons.prems(3) by simp
qed

lemma grow_plug:
  assumes "rail key fs LRoot 0 trs" "wf_tree (plug fs c)" "\<forall>f\<in>set fs. f_idx f < length (f_children f)" "same_frames fs gs"
    and "wf_tree c'" "lookup c' = (lookup c)(drop (end_pos 0 fs) key := v)" "fs = [] \<or> (\<forall>k. branch_ok k c \<longrightarrow> branch_ok k c')"
  shows "wf_tree (plug gs c') \<and> map_of (entries (plug gs c')) = (map_of (entries (plug fs c)))(key := v)"
proof -
  have w: "wf_tree (plug fs c')"
  proof (cases "fs = []")
    case False
    then show ?thesis using wf_plug[OF assms(2,5,3)] assms(7) by blast
  qed (use assms(5) in simp)
  then have wg: "wf_tree (plug gs c')" using same_frames_wf[OF assms(4)] by blast
  have "lookup (plug gs c') = (lookup (plug fs c))(key := v)"
    using lookup_plug[OF assms(1-3,6)] same_frames_lookup[OF assms(4), of c'] by simp
  moreover have "lookup (plug gs c') = map_of (entries (plug gs c'))" "lookup (plug fs c) = map_of (entries (plug fs c))"
    using lookup_entries wg assms(2) by blast+
  ultimately show ?thesis using wg by simp
qed

end
