(* ===== verification/Leaves_Put.thy ===== *)
theory Leaves_Put
  imports Leaves_Insert Leaves_Grow
begin

text \<open>
  The four ways the inserter changes the trie, by where the search of the key ended: the leaf of the key
  gets a new page, another leaf or the prefix of a node is split, or a node gets one more branch.
\<close>

section \<open>Before and after\<close>

text \<open>The search of \<open>key\<close> took the path \<open>fs\<close> and stopped at the subtree \<open>c\<close>.\<close>

definition ready ::
  "traits \<Rightarrow> (nat \<Rightarrow> 'm \<Rightarrow> nat set \<Rightarrow> bool) \<Rightarrow> bytes \<Rightarrow> frame list \<Rightarrow> atree \<Rightarrow> nat \<Rightarrow> nat set \<Rightarrow> ('m, 'z) cursor_scheme \<Rightarrow> bool" where
  "ready T live key fs c n L s \<longleftrightarrow> on_path T key fs (tree_link c) L s \<and> holds T (heap s) c \<and> owns T live n L s \<and> distinct (addrs c)
     \<and> set (addrs c) \<subseteq> L - (set (nodes fs) \<union> set (sibs fs)) \<and> length (stack s) = Suc (length fs)
     \<and> on_tree (end_loc LRoot fs) (end_pos 0 fs) c (stack s ! length fs) \<and> end_pos 0 fs \<le> length key
     \<and> current_key s = take (length key - length (rest_key s)) key \<and> wf_tree (plug fs c)"

text \<open>The new leaf is in place, and with any value in it the subtree at the end of the path has the new entry.\<close>

definition grows :: "bytes \<Rightarrow> frame list \<Rightarrow> atree \<Rightarrow> frame list \<Rightarrow> nat \<Rightarrow> bool" where
  "grows key fs c hs a \<longleftrightarrow> (\<forall>v. let c' = plug hs (ALeaf a (drop (end_pos 0 (fs @ hs)) key) v)
     in wf_tree c' \<and> lookup c' = (lookup c)(drop (end_pos 0 fs) key \<mapsto> v) \<and> (fs = [] \<or> (\<forall>k. branch_ok k c \<longrightarrow> branch_ok k c')))"

definition grown ::
  "traits \<Rightarrow> (nat \<Rightarrow> 'm \<Rightarrow> nat set \<Rightarrow> bool) \<Rightarrow> bytes \<Rightarrow> nat \<Rightarrow> nat \<Rightarrow> frame list \<Rightarrow> atree \<Rightarrow> ('m, 'z) cursor_scheme \<Rightarrow> bool" where
  "grown T live key vsz n fs c s \<longleftrightarrow>
     (\<exists>gs hs a L. same_frames fs gs \<and> placed T live key vsz n (gs @ hs) a L s \<and> grows key fs c hs a)"

lemma readyD:
  assumes "ready T live key fs c n L s"
  shows "on_path T key fs (tree_link c) L s" "holds T (heap s) c" "owns T live n L s" "distinct (addrs c)"
    "set (addrs c) \<subseteq> L" "set (addrs c) \<inter> (set (nodes fs) \<union> set (sibs fs)) = {}" "length (stack s) = Suc (length fs)"
    "t_offset (stack s ! length fs) = end_loc LRoot fs" "t_keypos (stack s ! length fs) = end_pos 0 fs" "t_node (stack s ! length fs) = addr c"
    "end_pos 0 fs \<le> length key" "current_key s = take (length key - length (rest_key s)) key" "wf_tree (plug fs c)"
    "set (nodes fs) \<union> set (sibs fs) \<subseteq> L" "top_idx s = length fs" "read_loc s (end_loc LRoot fs) = Some (tree_link c)"
  using assms read_path_end[of T key fs "tree_link c" L s] unfolding ready_def on_tree_def on_path_def top_idx_def by auto

lemma ready_wf: "ready T live key fs c n L s \<Longrightarrow> wf_tree c"
  using wf_plug_end[of fs c] frames_idx[of T "heap s" fs "tree_link c"] by (simp add: ready_def on_path_def)

lemma ready_leaf:
  assumes "ready T live key fs c n L s"
  shows "is_leaf s (length fs) \<longleftrightarrow> ltype (tree_link c) = LEAF"
  using readyD(8,16)[OF assms] by (simp add: is_leaf_def)

lemma take_snoc_last:
  assumes "xs = take d xs @ [y]" "d \<le> length xs"
  shows "last xs = y" "length xs = Suc d"
proof -
  show "last xs = y" by (subst assms(1)) simp
  show "length xs = Suc d" by (subst assms(1)) (use assms(2) in simp)
qed

context page_allocator
begin

section \<open>Replacing a leaf\<close>

lemma replace_leaf_ok:
  assumes r: "ready T live key fs (ALeaf old k v0) (Suc (Suc (n + 2 * length fs))) L s"
    and T: "page_traits T" "value_ok T vsz" and k: "k = drop (end_pos 0 fs) key"
    and tr: "t_cmp (stack s ! length fs) = 0" "rest_key s = []" "t_prefix (stack s ! length fs) = length k"
  shows "\<exists>s'. change_leaf T Ops vsz s = Some s' \<and> grown T live key vsz n fs (ALeaf old k v0) s'"
proof -
  note R = readyD[OF r]
  let ?d = "length fs"
  have k255: "length k \<le> 255" using ready_wf[OF r] by simp
  obtain pg lf where lf: "heap s old = Some pg" "body pg = LeafN lf" "leaf_key lf = k" using R(2) by auto
  have la: "leaf_at s old = Some lf" using lf by (simp add: leaf_at_def)
  obtain a s1 p l where f: "fill_leaf T Ops vsz k s = Some (a, s1)" "a \<noteq> 0" "a \<notin> L"
    "owns T live (Suc (n + 2 * length fs)) (insert a L) s1" "heap s1 = (heap s)(a \<mapsto> p)" "body p = LeafN l" "new_leaf k vsz l"
    "root s1 = root s" "stack s1 = stack s" "keys_kept s s1"
    using fill_leaf_ok[OF R(3) T k255] by blast
  let ?s1 = "upd_tr ?d (\<lambda>tr. tr\<lparr>t_node := a\<rparr>) s1"
  have old: "old \<in> L" "old \<notin> set (nodes fs) \<union> set (sibs fs)" using R(5,6) by auto
  have "owns T live (Suc (n + 2 * length fs)) (insert a L) ?s1" using f(4) by simp
  from free_node_ok[OF this, of old] old(1) obtain s2 where s2: "free_node Ops old ?s1 = Some s2"
    "owns T live (n + 2 * length fs) (insert a L - {old}) s2" "heap s2 = heap ?s1" "root s2 = root ?s1" "stack s2 = stack ?s1" "keys_kept ?s1 s2" by auto
  let ?L = "insert a L - {old}"
  have sub: "set (nodes fs) \<union> set (sibs fs) \<subseteq> ?L" using R(14) old(2) by blast
  have aN: "a \<notin> set (nodes fs) \<union> set (sibs fs)" using R(14) f(3) by blast
  have hp: "\<forall>x\<in>set (nodes fs) \<union> set (sibs fs). heap s2 x = heap s x" using s2(3) f(5) aN by auto
  have on2: "on_path T key fs (tree_link (ALeaf old k v0)) ?L s2"
    by (rule on_path_heap[OF R(1) hp _ _ _ sub]) (use s2(4,5) f(8,9) in simp_all)
  have d2: "length fs < length (stack s2)" "t_offset (stack s2 ! length fs) = end_loc LRoot fs"
    using s2(5) f(9) R(7,8) by simp_all
  obtain s3 gs L3 where u: "update_offset Ops ?d (Link LEAF a) s2 = Some s3" "same_frames fs gs" "on_path T key gs (Link LEAF a) L3 s3"
    "owns T live n L3 s3" "keys_kept s2 s3" "stack s3 = take ?d (stack s3) @ (stack s2 ! ?d)\<lparr>t_offset := end_loc LRoot gs\<rparr> # drop (Suc ?d) (stack s2)"
    "?L - set (nodes fs) \<subseteq> L3" "unchanged (?L - set (nodes fs)) s2 s3" "set (nodes gs) \<inter> (?L - set (nodes fs)) = {}"
    using update_offset_ok[OF on2 s2(2) refl d2, of "Link LEAF a"] by blast
  have a3: "a \<in> ?L - set (nodes fs)" using f(3) old(1) aN by blast
  then have ha: "heap s3 a = Some p" using u(8) s2(3) f(5) by (simp add: unchanged_def)
  have dl: "drop (Suc ?d) (stack s2) = []" using s2(5) f(9) R(7) by simp
  have st: "last (stack s3) = (stack s ! ?d)\<lparr>t_node := a, t_offset := end_loc LRoot gs\<rparr>" "length (stack s3) = Suc (length gs)"
  proof -
    have e: "stack s3 = take ?d (stack s3) @ [(stack s2 ! ?d)\<lparr>t_offset := end_loc LRoot gs\<rparr>]" using u(6) dl by simp
    have "?d \<le> length (stack s3)" using u(3) same_frames_length[OF u(2)] by (simp add: on_path_def)
    note t = take_snoc_last[OF e this]
    show "last (stack s3) = (stack s ! ?d)\<lparr>t_node := a, t_offset := end_loc LRoot gs\<rparr>" unfolding t(1) using s2(5) f(9) R(7) by simp
    show "length (stack s3) = Suc (length gs)" using t(2) same_frames_length[OF u(2)] by simp
  qed
  have ck: "current_key s3 = key" "rest_key s3 = []"
    using u(5) s2(6) f(10) R(12) tr(2) by (simp_all add: keys_kept_def)
  have pos: "end_pos 0 gs = end_pos 0 fs" and sib: "sibs gs = sibs fs" using same_frames_pos[OF u(2)] same_frames_sibs[OF u(2)] by simp_all
  have an: "a \<notin> set (nodes gs) \<union> set (sibs gs)" unfolding sib using u(9) a3 aN by blast
  have "placed T live key vsz n gs a L3 s3"
    unfolding placed_def pos
    using u(3,4) st(2) an ck R(11) ha f(6,7) k u(7) a3 by (auto simp: st(1) on_tree_def R(9) tr(1,3) k)
  moreover have "grows key fs (ALeaf old k v0) [] a"
    using k255 by (auto simp: grows_def k branch_ok_def fun_eq_iff)
  moreover have "change_leaf T Ops vsz s = Some s3"
    using la R(10,15) tr(1) lf(3) f(1) s2(1) u(1) by (simp add: change_leaf_def Let_def)
  ultimately show ?thesis using u(2) unfolding grown_def by (metis append_Nil2)
qed

end

section \<open>One more branch\<close>

lemma increment_size_max:
  fixes src :: "link trie_node"
  assumes T: "traits_ok T" and n: "wf_node T src" "valid_key k" "k \<notin> set (node_keys src)"
  shows "increment_size T src k \<le> trie_MAX_SIZE T"
proof -
  let ?n = "fst (create_add T src k)"
  note a = create_add_wf[OF T n]
  have wf: "wf_bitmaps src" using n(1) by (simp add: wf_node_def)
  have "compressed_len ?n = compressed_len src" using a(2) by (simp add: branch_added_def)
  then have "node_size ?n = increment_size T src k"
    using node_size_layout(1)[OF T a(1)] branch_added_counts[OF wf a(2) n(2,3)] by (simp add: increment_size_def Let_def)
  then show ?thesis using node_size_layout(2)[OF T a(1)] by simp
qed

abbreviation hole :: atree where
  "hole \<equiv> ALeaf 0 [] (False, [])"

text \<open>The frame of a node to which the branch \<open>k\<close> was added.\<close>

definition add_frame :: "nat \<Rightarrow> bytes \<Rightarrow> int list \<Rightarrow> atree list \<Rightarrow> int \<Rightarrow> frame" where
  "add_frame a p ks cs k = (let i = length (filter (\<lambda>x. x < k) ks)
     in \<lparr>f_addr = a, f_prefix = p, f_keys = insert_key k ks, f_children = insert_child i hole cs, f_idx = i\<rparr>)"

lemma add_frame_fields [simp]:
  "f_addr (add_frame a p ks cs k) = a" "f_prefix (add_frame a p ks cs k) = p" "f_keys (add_frame a p ks cs k) = insert_key k ks"
  "f_idx (add_frame a p ks cs k) = length (filter (\<lambda>x. x < k) ks)"
  "f_children (add_frame a p ks cs k) = insert_child (length (filter (\<lambda>x. x < k) ks)) hole cs"
  by (simp_all add: add_frame_def Let_def)

lemma add_frame_siblings: "length ks = length cs \<Longrightarrow> siblings (add_frame a p ks cs k) = cs"
proof -
  assume "length ks = length cs"
  then have "length (filter (\<lambda>x. x < k) ks) \<le> length cs" using length_filter_le[of "\<lambda>x. x < k" ks] by simp
  then show ?thesis by (simp add: siblings_def insert_child_def)
qed

lemma add_frame_at:
  assumes "h a = Some pg" "body pg = TrieN n" "a \<noteq> 0" "wf_node T n" "branch_added k src n i x" "length ks = length cs"
    and "compressed src = p" "node_keys src = ks" "array src = map tree_link cs" "\<forall>c\<in>set cs. holds T h c" "k \<notin> set ks"
  shows "frame_at T h (add_frame a p ks cs k) x"
proof -
  have b: "node_keys n = insert_key k ks" "i = length (filter (\<lambda>x. x < k) ks)" "array n = insert_child i x (map tree_link cs)" "compressed n = p"
    using assms(5)[unfolded branch_added_def assms(7-9)] unfolding insert_child_def by blast+
  have i: "i \<le> length cs" using b(2) assms(6) length_filter_le[of "\<lambda>x. x < k" ks] by simp
  have "array n = (map tree_link (insert_child i hole cs))[i := x]" using b(3) i by simp
  moreover have "length (insert_key k ks) = Suc (length cs)" using length_insert_key[OF assms(11)] assms(6) by simp
  ultimately show ?thesis
    unfolding frame_at_def add_frame_siblings[OF assms(6)] using assms(1-4,10) b i by simp
qed

lemma grows_graft:
  assumes "key_frames r es" "drop (end_pos 0 fs) key = f_prefix g @ r"
    and "\<And>y v. wf_tree y \<Longrightarrow> branch_ok (key_branch r) y \<Longrightarrow> lookup y = [r \<mapsto> v] \<Longrightarrow> wf_tree (plug [g] y)
      \<and> lookup (plug [g] y) = (lookup c)(f_prefix g @ r \<mapsto> v) \<and> (fs = [] \<or> (\<forall>k. branch_ok k c \<longrightarrow> branch_ok k (plug [g] y)))"
  shows "grows key fs c ([g] @ es) a"
proof -
  have "drop (end_pos 0 (fs @ [g] @ es)) key = drop (end_pos 0 es) r"
  proof -
    have e: "end_pos 0 (fs @ [g] @ es) = end_pos 0 es + (length (f_prefix g) + end_pos 0 fs)" by (simp add: end_pos_def)
    have "drop (length (f_prefix g)) (drop (end_pos 0 fs) key) = r" unfolding assms(2) by simp
    then show ?thesis unfolding e by (metis drop_drop)
  qed
  then show ?thesis
    unfolding grows_def Let_def plug_append assms(2) using assms(3)[OF plug_key_frames(1,3,2)[OF assms(1)]] by simp
qed

lemma grows_add:
  assumes "wf_tree (ANode old p ks cs)" "key_branch r \<notin> set ks" "key_frames r es" "drop (end_pos 0 fs) key = p @ r"
  shows "grows key fs (ANode old p ks cs) ([add_frame a p ks cs (key_branch r)] @ es) b"
proof (rule grows_graft[OF assms(3)])
  let ?k = "key_branch r" and ?i = "length (filter (\<lambda>x. x < key_branch r) ks)"
  show "drop (end_pos 0 fs) key = f_prefix (add_frame a p ks cs ?k) @ r" using assms(4) by simp
  fix y v assume y: "wf_tree y" "branch_ok ?k y" "lookup y = [r \<mapsto> v]"
  have "?i \<le> length cs" using assms(1) length_filter_le[of "\<lambda>x. x < ?k" ks] by simp
  then have "plug [add_frame a p ks cs ?k] y = ANode a p (insert_key ?k ks) (insert_child ?i y cs)" by simp
  then show "wf_tree (plug [add_frame a p ks cs ?k] y) \<and> lookup (plug [add_frame a p ks cs ?k] y)
      = (lookup (ANode old p ks cs))(f_prefix (add_frame a p ks cs ?k) @ r \<mapsto> v)
      \<and> (fs = [] \<or> (\<forall>k. branch_ok k (ANode old p ks cs) \<longrightarrow> branch_ok k (plug [add_frame a p ks cs ?k] y)))"
    using add_node[OF assms(1,2) y refl, of a] by (auto simp: branch_ok_def simp del: lookup.simps wf_tree.simps plug.simps)
qed

lemma on_frame_add:
  assumes "drop kp key = p @ r" "t_offset tr = l" "t_keypos tr = kp" "t_node tr = a" "t_prefix tr = length p"
    and "t_link_idx tr = length (filter (\<lambda>x. x < key_branch r) ks)" "r \<noteq> [] \<longrightarrow> t_branch_key tr = hd r" "length ks = length cs"
    and "sorted_wrt (<) ks" "key_branch r \<notin> set ks"
  shows "on_frame key (add_frame a p ks cs (key_branch r)) l kp tr"
proof -
  let ?i = "length (filter (\<lambda>x. x < key_branch r) ks)"
  have d: "drop (kp + length p) key = r" using arg_cong[OF assms(1), of "drop (length p)"] by (simp add: add.commute)
  have "kp + length p < length key \<longrightarrow> t_branch_key tr = key ! (kp + length p)"
    using assms(7) d by (auto simp: hd_drop_conv_nth[symmetric])
  moreover have "insert_key (key_branch r) ks ! ?i = key_branch r"
    unfolding insert_key_child[OF assms(9,10)] by (rule insert_child_simps(2)) simp
  ultimately show ?thesis using assms d by (simp add: on_frame_def)
qed

definition inert :: "(transition \<Rightarrow> transition) \<Rightarrow> bool" where
  "inert u \<longleftrightarrow> (\<forall>tr. t_node (u tr) = t_node tr \<and> t_prefix (u tr) = t_prefix tr \<and> t_keypos (u tr) = t_keypos tr
     \<and> t_branch_key (u tr) = t_branch_key tr \<and> t_offset (u tr) = t_offset tr \<and> t_link_idx (u tr) = t_link_idx tr)"

lemma upd_tr_id [simp]: "upd_tr d (\<lambda>tr. tr) s = s"
  by (simp add: upd_tr_def)

context page_allocator
begin

text \<open>The node \<open>g\<close> takes the place of the root of \<open>c\<close>, whose page is freed.\<close>

lemma regraft_ok:
  assumes r: "ready T live key fs c n0 L s" and ow: "owns T live (Suc (Suc (n + length (rest_key s) + 2 * length fs))) L1 s1"
    and T: "page_traits T" "value_ok T vsz" and L: "L \<subseteq> L1" and hp: "\<forall>x\<in>set (nodes fs) \<union> set (sibs fs). heap s1 x = heap s x"
    and s1: "root s1 = root s" "stack s1 = (stack s)[length fs := tr']" "keys_kept s s1"
    and g: "frame_at T (heap s1) g h" "insert (f_addr g) (set (sibs [g])) \<subseteq> L1 - {addr c} - (set (nodes fs) \<union> set (sibs fs))"
      "distinct (f_addr g # sibs [g])" "on_frame key g (end_loc LRoot fs) (end_pos 0 fs) tr'" "drop (end_pos 0 fs) key = f_prefix g @ rest_key s"
    and u: "inert u"
  shows "\<exists>s2 s3 s' gs es a L'. free_node Ops (addr c) s1 = Some s2 \<and> update_offset Ops (length fs) (Link TRIE (f_addr g)) s2 = Some s3
    \<and> create_leaf T Ops vsz (upd_tr (length fs) u s3) = Some s' \<and> same_frames fs gs \<and> placed T live key vsz n (gs @ [g] @ es) a L' s'
    \<and> key_frames (rest_key s) es"
proof -
  note R = readyD[OF r]
  have c: "addr c \<in> L1" "addr c \<notin> set (nodes fs) \<union> set (sibs fs)"
    using R(5,6) L addr_in_addrs[of c] by blast+
  obtain s2 where s2: "free_node Ops (addr c) s1 = Some s2" "owns T live (Suc (n + length (rest_key s) + 2 * length fs)) (L1 - {addr c}) s2"
    "heap s2 = heap s1" "root s2 = root s1" "stack s2 = stack s1" "keys_kept s1 s2" using free_node_ok[OF ow c(1)] by blast
  have sub: "set (nodes fs) \<union> set (sibs fs) \<subseteq> L1 - {addr c}" using R(14) L c(2) by blast
  have on: "on_path T key fs (tree_link c) (L1 - {addr c}) s2"
    by (rule on_path_heap[OF R(1) _ _ _ _ sub]) (use hp s2(3-5) s1 in simp_all)
  have rk: "rest_key s2 = rest_key s" "current_key s2 = current_key s" using s2(6) s1(3) by (simp_all add: keys_kept_def)
  have len: "length key = end_pos 0 fs + length (f_prefix g) + length (rest_key s)" using arg_cong[OF g(5), of length] R(11) by simp
  have rd: "drop (end_pos 0 fs + length (f_prefix g)) key = rest_key s"
    using arg_cong[OF g(5), of "drop (length (f_prefix g))"] by (simp add: add.commute)
  have gr: "grafted T key fs g h (L1 - {addr c}) s2"
    unfolding grafted_def using g(1-4) s2(3,5) s1(2) R(7,12) rk rd len by (simp del: sibs_simps)
  have "owns T live (Suc (n + length (rest_key s2) + 2 * length fs)) (L1 - {addr c}) s2" using s2(2) rk(1) by simp
  from graft_leaf_ok[OF on this gr T, of u] u s2(1) rk(1) show ?thesis unfolding inert_def by metis
qed

end

text \<open>Growing a node in place: the path already leads to it.\<close>

context page_allocator
begin

lemma add_to_array_ok:
  assumes r: "ready T live key fs (ANode old p ks cs) (Suc (Suc (Suc (n + length (rest_key s) + 2 * length fs)))) L s"
    and T: "page_traits T" "value_ok T vsz" and k: "drop (end_pos 0 fs) key = p @ rest_key s" "key_branch (rest_key s) \<notin> set ks"
    and tr: "t_prefix (stack s ! length fs) = length p" "rest_key s \<noteq> [] \<longrightarrow> t_branch_key (stack s ! length fs) = hd (rest_key s)"
  shows "\<exists>s'. add_to_array T Ops vsz s = Some s' \<and> grown T live key vsz n fs (ANode old p ks cs) s'"
proof -
  note R = readyD[OF r]
  have T': "traits_ok T" using T(1) by (simp add: page_traits_def cursor_traits_def)
  let ?d = "length fs" and ?r = "rest_key s" and ?tr = "stack s ! length fs"
  let ?k = "key_branch ?r" and ?g = "\<lambda>a. add_frame a p ks cs (key_branch (rest_key s))"
  have kk: "(if ?r = [] then NONE else uint (t_branch_key ?tr)) = ?k" using tr(2) by (cases ?r) (auto simp: key_branch_def)
  have vk: "valid_key ?k" using valid_uint by (cases ?r) (auto simp: key_branch_def valid_key_def NONE_def)
  obtain pg m where o: "heap s old = Some pg" "body pg = TrieN m" "old \<noteq> 0" "wf_node T m" "compressed m = p" "node_keys m = ks" "array m = map tree_link cs"
    using R(2) by auto
  have w: "wf_tree (ANode old p ks cs)" by (rule ready_wf[OF r])
  have lk: "length ks = length cs" "sorted_wrt (<) ks" using w by simp_all
  have oa: "trie_at s old = Some m" using o(1,2) by (simp add: trie_at_def)
  have pk: "end_pos 0 (fs @ [?g a]) = end_pos 0 fs + length p" for a by simp
  have len: "length key = end_pos 0 fs + length p + length ?r" using arg_cong[OF k(1), of length] R(11) by simp
  have rk: "rest_key s = drop (end_pos 0 (fs @ [?g a])) key" "current_key s = take (end_pos 0 (fs @ [?g a])) key" "end_pos 0 (fs @ [?g a]) \<le> length key" for a
    using arg_cong[OF k(1), of "drop (length p)"] R(12) len unfolding pk by (simp_all add: add.commute)
  have cs: "set (sibs [?g a]) = set (concat (map addrs cs))" "distinct (sibs [?g a])" "\<forall>c\<in>set cs. holds T (heap s) c" for a
    using R(2,4) add_frame_siblings[OF lk(1), of a p ?k] by simp_all
  have oc: "old \<in> L" "old \<notin> set (nodes fs) \<union> set (sibs fs)" "old \<notin> set (concat (map addrs cs))"
    "set (concat (map addrs cs)) \<subseteq> L" "set (concat (map addrs cs)) \<inter> (set (nodes fs) \<union> set (sibs fs)) = {}"
    using R(4-6) by auto
  have hc: "\<forall>c\<in>set cs. holds T h c" if "\<forall>x\<in>set (concat (map addrs cs)). h x = heap s x" for h
  proof
    fix c assume "c \<in> set cs"
    then show "holds T h c" using cs(3) that by (intro holds_cong[of T "heap s" c h]) auto
  qed
  have onf: "on_frame key (?g a) (end_loc LRoot fs) (end_pos 0 fs) x"
    if "t_offset x = end_loc LRoot fs" "t_keypos x = end_pos 0 fs" "t_node x = a" "t_prefix x = length p" "t_branch_key x = t_branch_key ?tr"
      "t_link_idx x = length (filter (\<lambda>x. x < ?k) ks)" for a x
    using that tr(2) lk k(2) by (intro on_frame_add[OF k(1)]) simp_all
  let ?inplace = "\<not> needs_cow Ops s pg \<and> increment_size T m ?k \<le> PAGE_SIZES T ! slot_id pg - PAGE_HEADER_SIZE T"
  show ?thesis
  proof (cases ?inplace)
    case True
    obtain n' i where ni: "insert_branch m ?k = (n', i)" by force
    obtain x where b: "branch_added ?k m n' i x" using insert_branch_fields[OF _ vk _ ni] o(4,6) k(2) by (auto simp: wf_node_def)
    have wn: "wf_node T n'" using insert_branch_layout[OF T' o(4) vk _ ni] b o(6) k(2) by (simp add: wf_node_def branch_added_def)
    define pg' where "pg' = pg\<lparr>body := TrieN n', used := increment_size T m ?k\<rparr>"
    define s2 where "s2 = s\<lparr>heap := (heap s)(old \<mapsto> pg')\<rparr>"
    let ?s = "upd_tr ?d (\<lambda>tr. tr\<lparr>t_link_idx := i, t_cmp := 0\<rparr>) s2"
    have run: "add_to_array T Ops vsz s = create_leaf T Ops vsz ?s"
      using True R(10,15) oa o(1) kk ni
      by (simp add: add_to_array_def Let_def put_trie_def set_page_def s2_def pg'_def)
    have "page_ok T pg'" using owns_page[OF R(3) oc(1)] o(1) by (auto simp: page_ok_def pg'_def)
    then have ow: "owns T live (Suc (n + length (rest_key ?s))) L ?s"
      using owns_set[OF owns_less[OF R(3), of "Suc (n + length ?r)"], of s2 old pg'] by (simp add: s2_def)
    have fr: "frame_at T (heap ?s) (?g old) x"
      by (rule add_frame_at[OF _ _ o(3) wn b lk(1) o(5,6,7) hc k(2)]) (use oc(3) in \<open>auto simp: s2_def pg'_def\<close>)
    have i: "i = length (filter (\<lambda>x. x < ?k) ks)" using b o(6) by (simp add: branch_added_def)
    have on: "on_path T key fs (Link TRIE (f_addr (?g old))) L s" using R(1) by simp
    have hp: "\<forall>y\<in>L - {f_addr (?g old)}. heap ?s y = heap s y" by (simp add: s2_def)
    have sub: "insert (f_addr (?g old)) (set (sibs [?g old])) \<subseteq> L" unfolding cs(1) using oc(1,4) by simp
    have ds: "distinct (sibs fs @ sibs [?g old])"
    proof -
      have "distinct (sibs fs)" using R(1) by (simp add: on_path_def separate_path_def)
      moreover have "set (sibs fs) \<inter> set (sibs [?g old]) = {}" unfolding cs(1) using oc(5) by blast
      ultimately show ?thesis using cs(2) unfolding distinct_append by blast
    qed
    have sn: "set (sibs [?g old]) \<inter> insert (f_addr (?g old)) (set (nodes fs)) = {}"
      unfolding cs(1) add_frame_fields(1) using oc(3,5) by blast
    have nt: "f_addr (?g old) \<notin> set (nodes fs) \<union> set (sibs fs)" using oc(2) by simp
    have of: "on_frame key (?g old) (end_loc LRoot fs) (end_pos 0 fs) (stack ?s ! ?d)"
      using R(7-10) tr(1) i by (intro onf) (simp_all add: s2_def)
    have onp: "on_path T key (fs @ [?g old]) x L ?s"
      by (rule extend_path[OF on fr sub nt ds sn hp _ _ _ of]) (use R(7) in \<open>simp_all add: s2_def\<close>)
    have "at_hole T key (fs @ [?g old]) x L ?s"
      unfolding at_hole_def using onp rk[of old] R(7) by (simp add: s2_def)
    from create_leaf_ok[OF this ow T] obtain s' es a L' where c: "create_leaf T Ops vsz ?s = Some s'"
      "placed T live key vsz n ((fs @ [?g old]) @ es) a L' s'" "key_frames (rest_key ?s) es" by blast
    have "key_frames ?r es" using c(3) by (simp add: s2_def)
    from grows_add[OF w k(2) this k(1), of old a] have "grown T live key vsz n fs (ANode old p ks cs) s'"
      unfolding grown_def using c(2)[unfolded append_assoc] same_frames_refl by blast
    then show ?thesis using run c(1) by simp
  next
    case False
    obtain n' i where ni: "create_add T m ?k = (n', i)" by force
    have km: "?k \<notin> set (node_keys m)" using k(2) o(6) by simp
    have b: "branch_added ?k m n' i 0" and wn: "wf_node T n'" using create_add_wf[OF T' o(4) vk km] ni by simp_all
    have "increment_size T m ?k + PAGE_HEADER_SIZE T \<le> last (PAGE_SIZES T)"
      using increment_size_max[OF T' o(4) vk km] T(1) by (simp add: page_traits_def)
    from alloc_node_ok[OF R(3) T(1) this] obtain a s1 q where a: "alloc_node T Ops (increment_size T m ?k) s = Some (a, s1)"
      "a \<noteq> 0" "a \<notin> L" "owns T live (Suc (Suc (n + length ?r + 2 * length fs))) (insert a L) s1" "heap s1 = (heap s)(a \<mapsto> q)"
      "slot_id q < length (PAGE_SIZES T)" "root s1 = root s" "stack s1 = stack s" "keys_kept s s1" by blast
    define s2 where "s2 = s1\<lparr>heap := (heap s)(a \<mapsto> q\<lparr>body := TrieN n'\<rparr>)\<rparr>"
    let ?s = "upd_tr ?d (\<lambda>tr. tr\<lparr>t_node := a, t_link_idx := i\<rparr>) s2"
    have p2: "put_trie a n' s1 = Some s2" using a(5) by (simp add: put_trie_def set_page_def s2_def)
    have ow: "owns T live (Suc (Suc (n + length ?r + 2 * length fs))) (insert a L) ?s"
      using owns_set[OF a(4), of s2 a "q\<lparr>body := TrieN n'\<rparr>"] a(5,6) by (simp add: s2_def)
    have i: "i = length (filter (\<lambda>x. x < ?k) ks)" using b o(6) by (simp add: branch_added_def)
    have aN: "a \<notin> set (nodes fs) \<union> set (sibs fs)" "a \<notin> set (concat (map addrs cs))" using a(3) R(14) oc(4) by blast+
    have fr: "frame_at T (heap ?s) (?g a) 0"
      by (rule add_frame_at[OF _ _ a(2) wn b lk(1) o(5,6,7) hc k(2)]) (use aN(2) in \<open>auto simp: s2_def\<close>)
    have sub: "insert (f_addr (?g a)) (set (sibs [?g a])) \<subseteq> insert a L - {addr (ANode old p ks cs)} - (set (nodes fs) \<union> set (sibs fs))"
      unfolding cs(1) add_frame_fields(1) atree.sel using a(3) aN(1) oc by blast
    have ds: "distinct (f_addr (?g a) # sibs [?g a])" unfolding distinct.simps cs(1) add_frame_fields(1) using aN(2) cs(2) by blast
    let ?t = "?tr\<lparr>t_node := a, t_link_idx := i\<rparr>"
    have of: "on_frame key (?g a) (end_loc LRoot fs) (end_pos 0 fs) ?t" using R(8,9) tr(1) i by (intro onf) simp_all
    have k1: "drop (end_pos 0 fs) key = f_prefix (?g a) @ ?r" using k(1) by simp
    have hp: "\<forall>x\<in>set (nodes fs) \<union> set (sibs fs). heap ?s x = heap s x" using aN(1) by (auto simp: s2_def)
    have s2': "root ?s = root s" "stack ?s = (stack s)[?d := ?t]" "keys_kept s ?s" using a(7-9) by (simp_all add: s2_def keys_kept_def)
    have iu: "inert (\<lambda>tr. tr\<lparr>t_cmp := 0\<rparr>)" by (simp add: inert_def)
    obtain s3 s4 s' gs es b' L' where f: "free_node Ops old ?s = Some s3" "update_offset Ops ?d (Link TRIE a) s3 = Some s4"
      "create_leaf T Ops vsz (upd_tr ?d (\<lambda>tr. tr\<lparr>t_cmp := 0\<rparr>) s4) = Some s'" "same_frames fs gs"
      "placed T live key vsz n (gs @ [?g a] @ es) b' L' s'" "key_frames ?r es"
      using regraft_ok[OF r ow T subset_insertI hp s2' fr sub ds of k1 iu] unfolding add_frame_fields(1) atree.sel by blast
    have "add_to_array T Ops vsz s = Some s'"
      using False R(10,15) oa o(1) kk ni a(1) p2 f(1-3) by (auto simp: add_to_array_def Let_def)
    moreover have "grown T live key vsz n fs (ANode old p ks cs) s'"
      unfolding grown_def using f(4,5) grows_add[OF w k(2) f(6) k(1), of a b'] by blast
    ultimately show ?thesis by blast
  qed
qed

end

section \<open>Splitting a node or a leaf\<close>

definition pair_frame :: "nat \<Rightarrow> bytes \<Rightarrow> int \<Rightarrow> int \<Rightarrow> atree \<Rightarrow> frame" where
  "pair_frame a p kx ky x = \<lparr>f_addr = a, f_prefix = p, f_keys = pair_keys kx ky, f_children = pair_children kx ky x hole,
     f_idx = (if ky < kx then 0 else 1)\<rparr>"

lemma pair_frame_fields [simp]:
  "f_addr (pair_frame a p kx ky x) = a" "f_prefix (pair_frame a p kx ky x) = p" "f_idx (pair_frame a p kx ky x) = (if ky < kx then 0 else 1)"
  "f_keys (pair_frame a p kx ky x) = pair_keys kx ky" "siblings (pair_frame a p kx ky x) = [x]"
  "plug [pair_frame a p kx ky x] y = ANode a p (pair_keys kx ky) (pair_children kx ky x y)"
  by (simp_all add: pair_frame_def siblings_def pair_children_def)

lemma pair_frame_at:
  assumes "h a = Some pg" "body pg = TrieN (set_link i (tree_link x) m)" "a \<noteq> 0" "holds T h x"
    and "create_keys T p kx ky = (m, (i, j))" "traits_ok T" "length p \<le> 255" "valid_key kx" "valid_key ky" "kx \<noteq> ky"
  shows "frame_at T h (pair_frame a p kx ky x) 0" "j = (if ky < kx then 0 else 1)"
proof -
  have l: "length p < 256" using assms(7) by simp
  note c = create_keys_eq[OF assms(6) l assms(8-10), where 'o = link, unfolded assms(5) fst_conv snd_conv]
  show "j = (if ky < kx then 0 else 1)" using c(6) by (simp split: if_splits)
  have "wf_node T (set_link i (tree_link x) m)" unfolding set_link_def by (rule wf_node_array[OF c(1)]) simp
  moreover have "array (set_link i (tree_link x) m) = (map tree_link (pair_children kx ky x hole))[(if ky < kx then 0 else 1) := 0]"
    using c(3,6) by (auto simp: set_link_def pair_children_def split: if_splits)
  moreover have "node_keys (set_link i (tree_link x) m) = pair_keys kx ky" "compressed (set_link i (tree_link x) m) = p"
    using c(2,4) by (simp_all add: set_link_def pair_keys_def)
  ultimately show "frame_at T h (pair_frame a p kx ky x) 0"
    unfolding frame_at_def pair_frame_fields using assms(1-4) by (auto simp: pair_frame_def pair_keys_def pair_children_def)
qed

lemma on_frame_pair:
  assumes "drop kp key = p @ r" "t_offset tr = l" "t_keypos tr = kp" "t_node tr = a" "t_prefix tr = length p"
    and "t_link_idx tr = (if key_branch r < kx then 0 else 1)" "r \<noteq> [] \<longrightarrow> t_branch_key tr = hd r"
  shows "on_frame key (pair_frame a p kx (key_branch r) x) l kp tr"
proof -
  have d: "drop (kp + length p) key = r" using arg_cong[OF assms(1), of "drop (length p)"] by (simp add: add.commute)
  have "kp + length p < length key \<longrightarrow> t_branch_key tr = key ! (kp + length p)"
    using assms(7) d by (auto simp: hd_drop_conv_nth[symmetric])
  then show ?thesis using assms d by (simp add: on_frame_def pair_keys_def min_def max_def)
qed

lemma grows_pair:
  assumes "key_frames r es" "drop (end_pos 0 fs) key = p @ r" "kx \<noteq> key_branch r" "length p \<le> 255" "wf_tree x" "branch_ok kx x"
    and "lookup c = (\<lambda>k. if Sublist.prefix p k then lookup x (drop (length p) k) else None)" "label c = p @ z" "fs = [] \<or> p \<noteq> []"
  shows "grows key fs c ([pair_frame a p kx (key_branch r) x] @ es) b"
proof (rule grows_graft[OF assms(1)])
  show "drop (end_pos 0 fs) key = f_prefix (pair_frame a p kx (key_branch r) x) @ r" using assms(2) by simp
  fix y v assume y: "wf_tree y" "branch_ok (key_branch r) y" "lookup y = [r \<mapsto> v]"
  let ?n = "ANode a p (pair_keys kx (key_branch r)) (pair_children kx (key_branch r) x y)"
  note n = pair_node[OF assms(3-6) y refl, of a]
  have "branch_ok k ?n" if "p \<noteq> []" "branch_ok k c" for k
    using that assms(8) by (cases p) (auto simp: branch_ok_def split: if_splits)
  then show "wf_tree (plug [pair_frame a p kx (key_branch r) x] y) \<and> lookup (plug [pair_frame a p kx (key_branch r) x] y)
      = (lookup c)(f_prefix (pair_frame a p kx (key_branch r) x) @ r \<mapsto> v)
      \<and> (fs = [] \<or> (\<forall>k. branch_ok k c \<longrightarrow> branch_ok k (plug [pair_frame a p kx (key_branch r) x] y)))"
    unfolding pair_frame_fields using n assms(7,9) by auto
qed

lemma trie_size_keys_max:
  fixes p :: bytes
  assumes "traits_ok T" "length p \<le> 255" "valid_key k1" "valid_key k2" "k1 \<noteq> k2"
  shows "trie_size_keys T (length p) k1 k2 \<le> trie_MAX_SIZE T"
proof -
  have l: "length p < 256" using assms(2) by simp
  show ?thesis using node_size_layout(2)[OF assms(1) create_keys_eq(1)[OF assms(1) l assms(3-5), where 'o = link]]
      create_keys_size[OF assms(1) l assms(3-5), where 'o = link] by simp
qed

text \<open>The transition the inserter leaves on the new node.\<close>

definition retarget :: "bytes \<Rightarrow> transition \<Rightarrow> (nat \<Rightarrow> nat \<Rightarrow> transition \<Rightarrow> transition) \<Rightarrow> bool" where
  "retarget r tr w \<longleftrightarrow> (\<forall>a j. t_node (w a j tr) = a \<and> t_link_idx (w a j tr) = j \<and> t_offset (w a j tr) = t_offset tr
     \<and> t_keypos (w a j tr) = t_keypos tr \<and> t_prefix (w a j tr) = t_prefix tr \<and> (r \<noteq> [] \<longrightarrow> t_branch_key (w a j tr) = hd r))"

context page_allocator
begin

lemma pair_graft_ok:
  assumes r: "ready T live key fs c n0 L s" and ow: "owns T live (Suc (Suc (Suc (n + length (rest_key s) + 2 * length fs)))) L1 s1"
    and T: "page_traits T" "value_ok T vsz" and L: "L \<subseteq> L1" and hp: "\<forall>y\<in>set (nodes fs) \<union> set (sibs fs). heap s1 y = heap s y"
    and s1: "root s1 = root s" "stack s1 = stack s" "keys_kept s s1"
    and x: "holds T (heap s1) x" "set (addrs x) \<subseteq> L1 - {addr c} - (set (nodes fs) \<union> set (sibs fs))" "distinct (addrs x)"
    and p: "drop (end_pos 0 fs) key = p @ rest_key s" "length p \<le> 255" "t_prefix (stack s ! length fs) = length p"
    and k: "valid_key kx" "kx \<noteq> key_branch (rest_key s)" "create_keys T p kx (key_branch (rest_key s)) = (m, (i, j))"
    and w: "retarget (rest_key s) (stack s ! length fs) w"
  shows "\<exists>a s2 s3 s4 s5 s' gs es b L'. alloc_node T Ops (trie_size_keys T (length p) kx (key_branch (rest_key s))) s1 = Some (a, s2)
    \<and> put_trie a (set_link i (tree_link x) m) s2 = Some s3 \<and> free_node Ops (addr c) (upd_tr (length fs) (w a j) s3) = Some s4
    \<and> update_offset Ops (length fs) (Link TRIE a) s4 = Some s5 \<and> create_leaf T Ops vsz s5 = Some s' \<and> same_frames fs gs
    \<and> placed T live key vsz n (gs @ [pair_frame a p kx (key_branch (rest_key s)) x] @ es) b L' s' \<and> key_frames (rest_key s) es"
proof -
  note R = readyD[OF r]
  have T': "traits_ok T" using T(1) by (simp add: page_traits_def cursor_traits_def)
  let ?d = "length fs" and ?ky = "key_branch (rest_key s)"
  let ?g = "\<lambda>a. pair_frame a p kx ?ky x"
  have vk: "valid_key ?ky" using valid_uint by (cases "rest_key s") (auto simp: key_branch_def valid_key_def NONE_def)
  have "trie_size_keys T (length p) kx ?ky + PAGE_HEADER_SIZE T \<le> last (PAGE_SIZES T)"
    using trie_size_keys_max[OF T' p(2) k(1) vk k(2)] T(1) by (simp add: page_traits_def)
  from alloc_node_ok[OF ow T(1) this] obtain a s2 q where a: "alloc_node T Ops (trie_size_keys T (length p) kx ?ky) s1 = Some (a, s2)"
    "a \<noteq> 0" "a \<notin> L1" "owns T live (Suc (Suc (n + length (rest_key s) + 2 * length fs))) (insert a L1) s2" "heap s2 = (heap s1)(a \<mapsto> q)"
    "slot_id q < length (PAGE_SIZES T)" "root s2 = root s1" "stack s2 = stack s1" "keys_kept s1 s2" by blast
  let ?n = "set_link i (tree_link x) m"
  define s3 where "s3 = s2\<lparr>heap := (heap s1)(a \<mapsto> q\<lparr>body := TrieN ?n\<rparr>)\<rparr>"
  have p3: "put_trie a ?n s2 = Some s3" using a(5) by (simp add: put_trie_def set_page_def s3_def)
  let ?s = "upd_tr ?d (w a j) s3"
  have ow3: "owns T live (Suc (Suc (n + length (rest_key s) + 2 * length fs))) (insert a L1) ?s"
    using owns_set[OF a(4), of s3 a "q\<lparr>body := TrieN ?n\<rparr>"] a(5,6) by (simp add: s3_def)
  have ax: "a \<notin> set (addrs x)" using a(3) x(2) by blast
  have hx: "holds T (heap ?s) x" by (rule holds_cong[OF x(1)]) (use ax in \<open>auto simp: s3_def\<close>)
  have pf: "frame_at T (heap ?s) (?g a) 0" "j = (if ?ky < kx then 0 else 1)"
    using pair_frame_at[OF _ _ a(2) hx k(3) T' p(2) k(1) vk k(2), of "q\<lparr>body := TrieN ?n\<rparr>"] by (simp_all add: s3_def)
  have aN: "a \<notin> set (nodes fs) \<union> set (sibs fs)" "a \<noteq> addr c" using a(3) R(5,14) L addr_in_addrs[of c] by blast+
  have sb: "sibs [?g a] = addrs x" by simp
  have sub: "insert (f_addr (?g a)) (set (sibs [?g a])) \<subseteq> insert a L1 - {addr c} - (set (nodes fs) \<union> set (sibs fs))"
    unfolding sb pair_frame_fields(1) using aN x(2) by blast
  have ds: "distinct (f_addr (?g a) # sibs [?g a])" unfolding sb pair_frame_fields(1) using ax x(3) by simp
  let ?t = "w a j (stack s ! ?d)"
  have W: "t_node ?t = a" "t_link_idx ?t = j" "t_offset ?t = end_loc LRoot fs" "t_keypos ?t = end_pos 0 fs" "t_prefix ?t = length p"
    "rest_key s \<noteq> [] \<longrightarrow> t_branch_key ?t = hd (rest_key s)" using w R(8,9) p(3) by (simp_all add: retarget_def)
  have of: "on_frame key (?g a) (end_loc LRoot fs) (end_pos 0 fs) ?t"
    by (rule on_frame_pair[OF p(1) W(3,4,1,5) trans[OF W(2) pf(2)] W(6)])
  have k1: "drop (end_pos 0 fs) key = f_prefix (?g a) @ rest_key s" using p(1) by simp
  have hp3: "\<forall>y\<in>set (nodes fs) \<union> set (sibs fs). heap ?s y = heap s y" using hp aN(1) by (auto simp: s3_def)
  have s3: "root ?s = root s" "stack ?s = (stack s)[?d := ?t]" "keys_kept s ?s" using a(7-9) s1 by (simp_all add: s3_def keys_kept_def)
  have iu: "inert (\<lambda>tr. tr)" by (simp add: inert_def)
  from regraft_ok[OF r ow3 T subset_trans[OF L subset_insertI] hp3 s3 pf(1) sub ds of k1 iu]
  show ?thesis using a(1) p3 unfolding pair_frame_fields(1) upd_tr_id by blast
qed

end

subsection \<open>Splitting the prefix of a node\<close>

lemma lcp_branches: "s \<noteq> t \<Longrightarrow> key_branch (drop (lcp s t) t) \<noteq> key_branch (drop (lcp s t) s)"
proof (induction s t rule: longest_common_prefix.induct)
  case (1 x xs y ys)
  then show ?case by (auto simp: key_branch_def word_uint_eq_iff)
next
  case "2_1"
  then show ?case by (auto simp: key_branch_def split: list.splits)
next
  case "2_2"
  then show ?case by (auto simp: key_branch_def split: list.splits) (metis uint_not_NONE)
qed

lemma lookup_split_node:
  "lookup (ANode a (p @ z) ks cs) key = (if Sublist.prefix p key then lookup (ANode b z ks cs) (drop (length p) key) else None)"
proof (cases "Sublist.prefix p key")
  case True
  then obtain y where "key = p @ y" by (auto simp: Sublist.prefix_def)
  then show ?thesis by (simp add: Let_def)
next
  case False
  then have "\<not> Sublist.prefix (p @ z) key" by (meson append_prefixD)
  then show ?thesis using False by simp
qed

lemma ready_common:
  assumes "ready T live key fs c n L s" "fs \<noteq> []" "drop (end_pos 0 fs) key \<noteq> label c \<or> (\<exists>a p ks cs. c = ANode a p ks cs)"
  shows "take (lcp (drop (end_pos 0 fs) key) (label c)) (label c) \<noteq> []"
proof -
  note R = readyD[OF assms(1)]
  let ?k = "drop (end_pos 0 fs) key"
  obtain gs f where f: "fs = gs @ [f]" using assms(2) by (metis rev_exhaust)
  have "rail key (gs @ [f]) LRoot 0 (take (length fs) (stack s))" using R(1) f by (simp add: on_path_def)
  moreover have "\<forall>x\<in>set (gs @ [f]). f_idx x < length (f_children x)" using R(1) f frames_idx[of T "heap s" fs "tree_link c"] by (simp add: on_path_def)
  ultimately have b: "branch_ok (key_branch ?k) c" using end_branch[of key gs f LRoot 0 _ c] R(13) f by simp
  have ne: "?k \<noteq> []"
  proof
    assume "?k = []"
    then have "\<exists>a v. c = ALeaf a [] v" using b by (simp add: branch_ok_def key_branch_def)
    then show False using assms(3) \<open>?k = []\<close> by auto
  qed
  then obtain y ys where y: "?k = y # ys" by (meson list.exhaust)
  then have "label c \<noteq> []" "hd (label c) = y" using b by (auto simp: branch_ok_def key_branch_def word_uint_eq_iff split: if_splits)
  then show ?thesis using lcp_pos[of ?k "label c"] y by simp
qed

context page_allocator
begin

lemma split_compressed_ok:
  assumes r: "ready T live key fs (ANode old p0 ks cs) (Suc (Suc (Suc (Suc (n + length (rest_key s) + 2 * length fs))))) L s"
    and T: "page_traits T" "value_ok T vsz" and q: "q = lcp (drop (end_pos 0 fs) key) p0" "q < length p0"
    and k: "rest_key s = drop q (drop (end_pos 0 fs) key)" and tr: "t_prefix (stack s ! length fs) = q"
  shows "\<exists>s'. split_compressed T Ops vsz s = Some s' \<and> grown T live key vsz n fs (ANode old p0 ks cs) s'"
proof -
  note R = readyD[OF r]
  have T': "traits_ok T" using T(1) by (simp add: page_traits_def cursor_traits_def)
  let ?d = "length fs" and ?c = "ANode old p0 ks cs" and ?key = "drop (end_pos 0 fs) key" and ?p = "take q p0" and ?z = "drop q p0"
  let ?ky = "key_branch (rest_key s)" and ?kx = "uint (p0 ! q)"
  have w: "wf_tree ?c" by (rule ready_wf[OF r])
  obtain pg m where o: "heap s old = Some pg" "body pg = TrieN m" "old \<noteq> 0" "wf_node T m" "compressed m = p0" "node_keys m = ks" "array m = map tree_link cs"
    using R(2) by auto
  have oa: "trie_at s old = Some m" using o(1,2) by (simp add: trie_at_def)
  have cl: "unat (compressed_len m) = length p0" using o(4,5) by (simp add: wf_node_def wf_layout_def)
  have z: "take (length p0 - q) ?z = ?z" "length ?z < 256" "length ?p \<le> 255" "length ?p = q" using w q(2) by auto
  have wm: "wf_bitmaps m" using o(4) by (simp add: wf_node_def)
  note cp = create_prefix_eq[OF T' z(2) wm]
  have lz: "length ?z = length p0 - q" by simp
  have "changed_len T m (length p0 - q) + PAGE_HEADER_SIZE T \<le> last (PAGE_SIZES T)"
    using node_size_layout(2)[OF T' cp(1)] cp(5)[unfolded lz] T(1) by (simp add: page_traits_def)
  from alloc_node_ok[OF R(3) T(1) this] obtain a s1 g where a: "alloc_node T Ops (changed_len T m (length p0 - q)) s = Some (a, s1)"
    "a \<noteq> 0" "a \<notin> L" "owns T live (Suc (Suc (Suc (n + length (rest_key s) + 2 * length fs)))) (insert a L) s1" "heap s1 = (heap s)(a \<mapsto> g)"
    "slot_id g < length (PAGE_SIZES T)" "root s1 = root s" "stack s1 = stack s" "keys_kept s s1" by blast
  let ?m = "create_prefix T m ?z"
  define s2 where "s2 = s1\<lparr>heap := (heap s)(a \<mapsto> g\<lparr>body := TrieN ?m\<rparr>)\<rparr>"
  have p2: "put_trie a ?m s1 = Some s2" using a(5) by (simp add: put_trie_def set_page_def s2_def)
  have ow: "owns T live (Suc (Suc (Suc (n + length (rest_key s) + 2 * length fs)))) (insert a L) s2"
    using owns_set[OF a(4), of s2 a "g\<lparr>body := TrieN ?m\<rparr>"] a(5,6) by (simp add: s2_def)
  let ?x = "ANode a ?z ks cs"
  have ac: "set (concat (map addrs cs)) \<subseteq> L - {old}" "set (concat (map addrs cs)) \<inter> (set (nodes fs) \<union> set (sibs fs)) = {}"
    using R(4-6) by auto
  have hc: "holds T (heap s2) c" if "c \<in> set cs" for c
    by (rule holds_cong[of T "heap s"]) (use R(2) that ac(1) a(3) in \<open>auto simp: s2_def\<close>)
  have hx: "holds T (heap s2) ?x" using cp(1-4) o(6,7) a(2) hc by (simp add: s2_def)
  have aN: "a \<notin> set (nodes fs) \<union> set (sibs fs)" "a \<noteq> old" using a(3) R(5,14) by auto
  have ax: "set (addrs ?x) = insert a (set (concat (map addrs cs)))" "distinct (addrs ?x)" using R(4) ac(1) a(3) by auto
  have sx: "set (addrs ?x) \<subseteq> insert a L - {addr ?c} - (set (nodes fs) \<union> set (sibs fs))"
    unfolding ax(1) atree.sel using ac aN by blast
  have p: "?key = ?p @ rest_key s" using take_lcp[of ?key p0] k q(1) by (metis append_take_drop_id)
  have nk: "?kx \<noteq> ?ky"
  proof -
    have "?key \<noteq> p0" using q lcp_append[of p0 "[]"] by auto
    then show ?thesis using lcp_branches[of ?key p0] q k by (simp add: key_branch_drop)
  qed
  obtain n1 i j where ck: "create_keys T ?p ?kx ?ky = (n1 :: link trie_node, (i, j))" by (metis prod.exhaust)
  have hp: "\<forall>y\<in>set (nodes fs) \<union> set (sibs fs). heap s2 y = heap s y" using aN(1) by (auto simp: s2_def)
  have s2': "root s2 = root s" "stack s2 = stack s" "keys_kept s s2" using a(7-9) by (simp_all add: s2_def keys_kept_def)
  let ?w = "\<lambda>a j tr. tr\<lparr>t_node := a, t_link_idx := j, t_branch_key := (if rest_key s2 = [] then t_branch_key tr else hd (rest_key s2))\<rparr>"
  have rk: "rest_key s2 = rest_key s" using s2'(3) by (simp add: keys_kept_def)
  have rt: "retarget (rest_key s) (stack s ! ?d) ?w" by (simp add: retarget_def rk)
  have tp: "t_prefix (stack s ! ?d) = length ?p" using tr z(4) by simp
  obtain b s3 s4 s5 s6 s' gs es e L' where f: "alloc_node T Ops (trie_size_keys T q ?kx ?ky) s2 = Some (b, s3)"
    "put_trie b (set_link i (Link TRIE a) n1) s3 = Some s4" "free_node Ops old (upd_tr ?d (?w b j) s4) = Some s5"
    "update_offset Ops ?d (Link TRIE b) s5 = Some s6" "create_leaf T Ops vsz s6 = Some s'" "same_frames fs gs"
    "placed T live key vsz n (gs @ [pair_frame b ?p ?kx ?ky ?x] @ es) e L' s'" "key_frames (rest_key s) es"
    using pair_graft_ok[OF r ow T subset_insertI hp s2' hx sx ax(2) p z(3) tp valid_uint nk ck rt]
    unfolding z(4) tree_link.simps atree.sel by blast
  have "split_compressed T Ops vsz s = Some s'"
    using R(10,15) oa tr cl z(1) o(5) a(1) p2 ck f(1-5) rk by (simp add: split_compressed_def Let_def)
  moreover have "grows key fs ?c ([pair_frame b ?p ?kx ?ky ?x] @ es) e"
  proof (rule grows_pair[OF f(8) p nk z(3)])
    show "wf_tree ?x" "branch_ok ?kx ?x" using w q(2) by (auto simp: branch_ok_def hd_drop_conv_nth)
    show "lookup ?c = (\<lambda>k. if Sublist.prefix ?p k then lookup ?x (drop (length ?p) k) else None)"
      using lookup_split_node[of old ?p ?z ks cs _ a] by (simp only: append_take_drop_id fun_eq_iff) blast
    show "label ?c = ?p @ ?z" by simp
    show "fs = [] \<or> ?p \<noteq> []" using ready_common[OF r] q(1) by auto
  qed
  ultimately show ?thesis using f(6,7) unfolding grown_def by blast
qed

end

subsection \<open>Splitting a leaf\<close>

definition reduced_leaf :: "nat \<Rightarrow> leaf_node \<Rightarrow> leaf_node" where
  "reduced_leaf q l = (let ks = key_size l - word_of_nat q
     in \<lparr>value_size = value_size l, key_size = ks, leaf_data = take (unat ks + vsize l) (drop q (leaf_data l))\<rparr>)"

lemma reduced_leaf_reads:
  assumes "q \<le> unat (key_size l)" "length (leaf_data l) = unat (key_size l) + vsize l"
  shows "unat (key_size (reduced_leaf q l)) = unat (key_size l) - q" "leaf_key (reduced_leaf q l) = drop q (leaf_key l)"
    "leaf_value (reduced_leaf q l) = leaf_value l" "leaf_is_big (reduced_leaf q l) = leaf_is_big l" "vsize (reduced_leaf q l) = vsize l"
    "length (leaf_data (reduced_leaf q l)) = unat (key_size (reduced_leaf q l)) + vsize (reduced_leaf q l)"
proof -
  let ?r = "reduced_leaf q l"
  have "unat (key_size l) < 256" using unsigned_less[of "key_size l", where 'a = nat] by simp
  then have wq: "unat (word_of_nat q :: uint8) = q" using assms(1) by (simp add: unsigned_of_nat take_bit_nat_eq_self)
  then have "(word_of_nat q :: uint8) \<le> key_size l" using assms(1) by (simp add: word_le_nat_alt)
  then show ks: "unat (key_size ?r) = unat (key_size l) - q" using wq by (simp add: reduced_leaf_def Let_def unat_sub)
  show vs: "vsize ?r = vsize l" and "leaf_is_big ?r = leaf_is_big l" by (simp_all add: reduced_leaf_def Let_def vsize_def leaf_is_big_def)
  have "leaf_data ?r = take (unat (key_size ?r) + vsize l) (drop q (leaf_data l))" by (simp add: reduced_leaf_def Let_def)
  then have d: "leaf_data ?r = drop q (leaf_data l)" using ks assms by simp
  show "leaf_key ?r = drop q (leaf_key l)" unfolding leaf_key_def d ks by (simp add: drop_take)
  have "unat (key_size l) - q + q = unat (key_size l)" using assms(1) by simp
  then show "leaf_value ?r = leaf_value l" unfolding leaf_value_def d ks vs by simp
  show "length (leaf_data ?r) = unat (key_size ?r) + vsize ?r" unfolding d ks vs using assms by simp
qed

lemma vsize_clear_big: "vsize (clear_big l) = vsize l" "key_size (clear_big l) = key_size l"
  by (simp_all add: vsize_def clear_big_def and.assoc)

context page_allocator
begin

lemma copy_reduced_leaf_ok:
  assumes "owns T live (Suc n) L s" "page_traits T" "heap s old = Some pg" "body pg = LeafN l" "old \<in> L"
    and "q \<le> unat (key_size l)" "length (leaf_data l) = unat (key_size l) + vsize l"
  shows "\<exists>a s' p. copy_reduced_leaf T Ops q old l s = Some (a, reduced_leaf q l, s') \<and> a \<noteq> 0 \<and> a \<notin> L \<and> owns T live n (insert a L) s'
    \<and> heap s' a = Some p \<and> body p = LeafN (reduced_leaf q l) \<and> (\<forall>x. x \<noteq> a \<longrightarrow> x \<noteq> old \<longrightarrow> heap s' x = heap s x)
    \<and> root s' = root s \<and> stack s' = stack s \<and> keys_kept s s'"
proof -
  note rl = reduced_leaf_reads[OF assms(6,7)]
  have po: "page_ok T pg" using owns_page[OF assms(1,5)] assms(3) by auto
  then have fit: "leaf_fits T 255 (vsize l)" using assms(4) by (simp add: page_ok_def)
  have "unat (key_size l) < 256" using unsigned_less[of "key_size l", where ?'a = nat] by simp
  then have "leaf_fits T (unat (key_size l) - q) (vsize l)" by (intro leaf_fits_mono[OF fit]) simp
  then have "leaf_size_of T (unat (key_size l) - q) (vsize l) + PAGE_HEADER_SIZE T \<le> last (PAGE_SIZES T)" by (simp add: leaf_fits_def)
  from alloc_node_ok[OF assms(1,2) this] obtain a s1 g where a: "alloc_node T Ops (leaf_size_of T (unat (key_size l) - q) (vsize l)) s = Some (a, s1)"
    "a \<noteq> 0" "a \<notin> L" "owns T live n (insert a L) s1" "heap s1 = (heap s)(a \<mapsto> g)" "slot_id g < length (PAGE_SIZES T)" "root s1 = root s"
    "stack s1 = stack s" "keys_kept s s1" by blast
  define p where "p = g\<lparr>body := LeafN (reduced_leaf q l)\<rparr>"
  define s2 where "s2 = s1\<lparr>heap := (heap s1)(a \<mapsto> p)\<rparr>"
  define s3 where "s3 = (if leaf_is_big l then s2\<lparr>heap := (heap s2)(old \<mapsto> pg\<lparr>body := LeafN (clear_big l)\<rparr>)\<rparr> else s2)"
  have ne: "a \<noteq> old" using a(3) assms(5) by auto
  have "page_ok T p" using a(6) fit rl(1,5) by (simp add: page_ok_def p_def)
  then have o2: "owns T live n (insert a L) s2" using owns_set[OF a(4), of s2 a p] by (simp add: s2_def)
  have "page_ok T (pg\<lparr>body := LeafN (clear_big l)\<rparr>)" using po assms(4) vsize_clear_big[of l] by (simp add: page_ok_def)
  then have "owns T live n (insert a L) s3"
    using o2 owns_set[OF o2, of s3 old "pg\<lparr>body := LeafN (clear_big l)\<rparr>"] by (cases "leaf_is_big l") (simp_all add: s3_def)
  moreover have "heap s3 a = Some p" "body p = LeafN (reduced_leaf q l)" using ne by (simp_all add: s3_def s2_def p_def)
  moreover have "\<forall>x. x \<noteq> a \<longrightarrow> x \<noteq> old \<longrightarrow> heap s3 x = heap s x" using a(5) by (simp add: s3_def s2_def)
  moreover have "root s3 = root s" "stack s3 = stack s" "keys_kept s s3" using a(7-9) by (simp_all add: s3_def s2_def keys_kept_def)
  moreover have "copy_reduced_leaf T Ops q old l s = Some (a, reduced_leaf q l, s3)"
    using a(1,5) assms(3) ne
    by (simp add: copy_reduced_leaf_def Let_def put_leaf_def set_page_def s3_def s2_def p_def reduced_leaf_def)
  ultimately show ?thesis using a(2,3) by blast
qed

lemma split_leaf_ok:
  assumes r: "ready T live key fs (ALeaf old lk v0) (Suc (Suc (Suc (Suc (n + length (rest_key s) + 2 * length fs))))) L s"
    and T: "page_traits T" "value_ok T vsz" and q: "q = lcp (drop (end_pos 0 fs) key) lk" "drop (end_pos 0 fs) key \<noteq> lk"
    and k: "rest_key s = drop q (drop (end_pos 0 fs) key)" and tr: "t_prefix (stack s ! length fs) = q" "t_cmp (stack s ! length fs) \<noteq> 0"
  shows "\<exists>s'. change_leaf T Ops vsz s = Some s' \<and> grown T live key vsz n fs (ALeaf old lk v0) s'"
proof -
  note R = readyD[OF r]
  let ?d = "length fs" and ?c = "ALeaf old lk v0" and ?key = "drop (end_pos 0 fs) key" and ?p = "take q lk" and ?z = "drop q lk"
  let ?ky = "key_branch (rest_key s)" and ?kx = "key_branch (drop q lk)"
  have w: "wf_tree ?c" by (rule ready_wf[OF r])
  obtain pg l where l: "heap s old = Some pg" "body pg = LeafN l" "leaf_key l = lk" "length (leaf_data l) = unat (key_size l) + vsize l"
    "(leaf_is_big l, leaf_value l) = v0" using R(2) by auto
  have la: "leaf_at s old = Some l" using l(1,2) by (simp add: leaf_at_def)
  have ll: "unat (key_size l) = length lk" using l(3,4) by (auto simp: leaf_key_def)
  have ql: "q \<le> unat (key_size l)" using lcp_le(2)[of ?key lk] q(1) ll by simp
  have old: "old \<in> L" "old \<notin> set (nodes fs) \<union> set (sibs fs)" using R(5,6) by auto
  obtain a s1 pa where a: "copy_reduced_leaf T Ops q old l s = Some (a, reduced_leaf q l, s1)" "a \<noteq> 0" "a \<notin> L"
    "owns T live (Suc (Suc (Suc (n + length (rest_key s) + 2 * length fs)))) (insert a L) s1" "heap s1 a = Some pa" "body pa = LeafN (reduced_leaf q l)"
    "\<forall>x. x \<noteq> a \<longrightarrow> x \<noteq> old \<longrightarrow> heap s1 x = heap s x" "root s1 = root s" "stack s1 = stack s" "keys_kept s s1"
    using copy_reduced_leaf_ok[OF R(3) T(1) l(1,2) old(1) ql l(4)] by blast
  note rl = reduced_leaf_reads[OF ql l(4), unfolded l(3) ll]
  let ?x = "ALeaf a ?z v0"
  have hx: "holds T (heap s1) ?x" using a(2,5,6) rl l(5) by auto
  have aN: "a \<notin> set (nodes fs) \<union> set (sibs fs)" "a \<noteq> old" using a(3) R(14) old(1) by blast+
  have sx: "set (addrs ?x) \<subseteq> insert a L - {addr ?c} - (set (nodes fs) \<union> set (sibs fs))" "distinct (addrs ?x)" using aN by simp_all
  have p: "?key = ?p @ rest_key s" using take_lcp[of ?key lk] k q(1) by (metis append_take_drop_id)
  have z: "length ?p \<le> 255" "length ?p = q" using w ql ll by auto
  have nk: "?kx \<noteq> ?ky" using lcp_branches[OF q(2)] q(1) k by simp
  have vk: "valid_key ?kx" using valid_uint by (cases ?z) (auto simp: key_branch_def valid_key_def NONE_def)
  have okey: "(if key_size (reduced_leaf q l) = 0 then NONE else uint (hd (leaf_data (reduced_leaf q l)))) = ?kx"
  proof (cases "?z = []")
    case True
    then have "unat (key_size (reduced_leaf q l)) = 0" using rl(1) by simp
    then show ?thesis using True by (simp add: key_branch_def unat_eq_0)
  next
    case False
    have "unat (key_size (reduced_leaf q l)) \<noteq> 0" using rl(1) False by simp
    moreover have "hd (leaf_data (reduced_leaf q l)) = hd ?z" using rl(2) False unfolding leaf_key_def by (metis hd_take take_eq_Nil neq0_conv)
    ultimately show ?thesis using False by (cases ?z) (auto simp: key_branch_def)
  qed
  obtain n1 i j where ck: "create_keys T ?p ?kx ?ky = (n1 :: link trie_node, (i, j))" by (metis prod.exhaust)
  have hp: "\<forall>y\<in>set (nodes fs) \<union> set (sibs fs). heap s1 y = heap s y" using a(7) aN(1) old(2) by metis
  let ?w = "\<lambda>a j tr. tr\<lparr>t_node := a, t_link_idx := j, t_branch_key := word_of_int ?ky, t_cmp := 0\<rparr>"
  have rt: "retarget (rest_key s) (stack s ! ?d) ?w" by (cases "rest_key s") (auto simp: retarget_def key_branch_def)
  have tp: "t_prefix (stack s ! ?d) = length ?p" using tr(1) z(2) by simp
  obtain b s3 s4 s5 s6 s' gs es e L' where f: "alloc_node T Ops (trie_size_keys T q ?kx ?ky) s1 = Some (b, s3)"
    "put_trie b (set_link i (Link LEAF a) n1) s3 = Some s4" "free_node Ops old (upd_tr ?d (?w b j) s4) = Some s5"
    "update_offset Ops ?d (Link TRIE b) s5 = Some s6" "create_leaf T Ops vsz s6 = Some s'" "same_frames fs gs"
    "placed T live key vsz n (gs @ [pair_frame b ?p ?kx ?ky ?x] @ es) e L' s'" "key_frames (rest_key s) es"
    using pair_graft_ok[OF r a(4) T subset_insertI hp a(8-10) hx sx p z(1) tp vk nk ck rt]
    unfolding z(2) tree_link.simps atree.sel by blast
  have rk: "rest_key s1 = rest_key s" using a(10) by (simp add: keys_kept_def)
  have tk: "take q (leaf_data l) = ?p" using l(3) ql by (auto simp: leaf_key_def)
  have "change_leaf T Ops vsz s = Some s'"
    using R(10,15) la tr a(1) okey ck f(1-5) rk tk by (simp add: change_leaf_def Let_def)
  moreover have "grows key fs ?c ([pair_frame b ?p ?kx ?ky ?x] @ es) e"
  proof (rule grows_pair[OF f(8) p nk z(1)])
    show "wf_tree ?x" using w by simp
    show "branch_ok ?kx ?x" by (cases ?z) (auto simp: branch_ok_def key_branch_def)
    have "k = x @ y \<longleftrightarrow> Sublist.prefix x k \<and> drop (length x) k = y" for k x y :: bytes by (auto simp: Sublist.prefix_def)
    from this[of _ ?p ?z] have "k = lk \<longleftrightarrow> Sublist.prefix ?p k \<and> drop (length ?p) k = ?z" for k unfolding append_take_drop_id .
    then show "lookup ?c = (\<lambda>k. if Sublist.prefix ?p k then lookup ?x (drop (length ?p) k) else None)" by (auto simp: fun_eq_iff)
    show "label ?c = ?p @ ?z" by simp
    show "fs = [] \<or> ?p \<noteq> []" using ready_common[OF r] q by auto
  qed
  ultimately show ?thesis using f(6,7) unfolding grown_def by blast
qed

end

end
