(* ===== verification/Leaves_Write.thy ===== *)
theory Leaves_Write
  imports Leaves_Put
begin

text \<open>
  Writing through a cursor is updating a finite map: after a search, the value that is put is in the trie of
  the heap under the sought key, all other entries are kept, and the cursor stands at it.
\<close>

section \<open>From a search to the place of the change\<close>

lemma descent_end_here:
  assumes "descent t l kp (drop kp key) [tr] r [] t" "kp \<le> length key"
  shows "\<exists>ts tr' is' l' kp'. [tr] = ts @ [tr'] \<and> spine key t l kp ts is' t l' kp' \<and> descent t l' kp' (drop kp' key) [tr'] r [] t"
  using assms by (intro exI[of _ "[]"] exI[of _ tr] exI[of _ l] exI[of _ kp]) (simp add: spine.here)

lemma descent_end:
  assumes "descent t l kp (drop kp key) trs r is c" "kp \<le> length key"
  shows "\<exists>ts tr is' l' kp'. trs = ts @ [tr] \<and> spine key t l kp ts is' c l' kp' \<and> descent c l' kp' (drop kp' key) [tr] r [] c"
  using assms
proof (induction t l kp "drop kp key" trs r "is" c rule: descent.induct)
  case (leaf l kp a lk v tr)
  show ?case by (rule descent_end_here[OF descent.leaf[OF leaf.hyps(1-3)] leaf.prems])
next
  case (split l kp a p ks cs tr)
  show ?case by (rule descent_end_here[OF descent.split[OF split.hyps(1-4)] split.prems])
next
  case (missing l kp a p ks cs tr r)
  have "descent (ANode a p ks cs) l kp (drop kp key) [tr] r [] (ANode a p ks cs)"
    unfolding missing.hyps(6)[symmetric] using missing.hyps(1-5) by (rule descent.missing)
  from descent_end_here[OF this missing.prems] show ?case .
next
  case (down l kp a p ks cs tr i key' trs r "is" c)
  have k': "key' = drop (kp + length p) key" using down.hyps(10) by (metis append_eq_conv_conj drop_drop add.commute)
  have "length p + length key' = length key - kp" using arg_cong[OF down.hyps(10), of length] by simp
  then have le: "kp + length p \<le> length key" using down.prems by linarith
  obtain ts tr' is' l' kp' where sp: "trs = ts @ [tr']" "spine key (cs ! i) (LSlot a i) (kp + length p) ts is' c l' kp'"
    "descent c l' kp' (drop kp' key) [tr'] r [] c" using down.hyps(9)[OF k' le] by blast
  have pre: "Sublist.prefix p (drop kp key)" using down.hyps(10) by (metis Sublist.prefixI)
  have bk: "kp + length p < length key \<longrightarrow> t_branch_key tr = key ! (kp + length p)"
    using down.hyps(7) k' by (auto simp: hd_drop_conv_nth)
  have "ks ! i = key_branch (drop (kp + length p) key)" using down.hyps(4) k' by simp
  from spine.down[OF down.hyps(1,2,6,3) pre this bk sp(2)] have "spine key (ANode a p ks cs) l kp (tr # ts) (i # is') c l' kp'" .
  then show ?case using sp(1,3) by (metis append_Cons)
qed

definition db_owned ::
  "traits \<Rightarrow> (nat \<Rightarrow> 'm \<Rightarrow> nat set \<Rightarrow> bool) \<Rightarrow> nat \<Rightarrow> nat set \<Rightarrow> atree option \<Rightarrow> ('m, 'z) cursor_scheme \<Rightarrow> bool" where
  "db_owned T live n L ot s \<longleftrightarrow> owns T live n L s
     \<and> (case ot of None \<Rightarrow> True | Some t \<Rightarrow> distinct (addrs t) \<and> set (addrs t) \<subseteq> L)"

lemma ready_from_spine:
  assumes "spine key t LRoot 0 ts is c l kp" "stack s = ts @ [tr]" "on_tree l kp c tr" "cursor_at T t s" "db_owned T live n L (Some t) s"
    and "current_key s = take (length key - length (rest_key s)) key"
  shows "\<exists>fs. t = plug fs c \<and> kp = end_pos 0 fs \<and> length ts = length fs \<and> ready T live key fs c n L s"
proof -
  have t: "holds T (heap s) t" "root s = tree_link t" "wf_tree t" "distinct (addrs t)" "set (addrs t) \<subseteq> L" "owns T live n L s"
    using assms(4,5) by (simp_all add: cursor_at_def db_owned_def)
  obtain fs where fs: "t = plug fs c" "rail key fs LRoot 0 ts" "l = end_loc LRoot fs" "kp = end_pos 0 fs"
    "frames_hold T (heap s) fs (tree_link c)" "holds T (heap s) c" using spine_rail[OF assms(1) t(1)] by blast
  have len: "length ts = length fs" by (rule rail_length[OF fs(2)])
  note ix = frames_idx[OF fs(5)]
  have d: "separate_path fs" "distinct (addrs c)" "(set (nodes fs) \<union> set (sibs fs)) \<inter> set (addrs c) = {}"
    "set (nodes fs) \<union> set (sibs fs) \<union> set (addrs c) \<subseteq> L"
    using distinct_plug[OF ix, of c] t(4,5) fs(1) by blast+
  have "root s = path_link fs (tree_link c)" using t(2) fs(1) tree_link_plug by simp
  then have "on_path T key fs (tree_link c) L s"
    using fs(2,5) d(1,4) len assms(2) by (simp add: on_path_def)
  moreover have "set (addrs c) \<subseteq> L - (set (nodes fs) \<union> set (sibs fs))" using d(3,4) by blast
  moreover have "end_pos 0 fs \<le> length key" using spine_le[OF assms(1)] fs(4) by simp
  ultimately have "ready T live key fs c n L s"
    using fs d(2) t(3,6) assms(2,3,6) len by (simp add: ready_def nth_append)
  then show ?thesis using fs len by blast
qed

context page_allocator
begin

lemma insert_exec_ok:
  assumes r: "ready T live key fs c (Suc (Suc (Suc (Suc (n + length (rest_key s) + 2 * length fs))))) L s" and T: "page_traits T" "value_ok T vsz"
    and d: "descent c l (end_pos 0 fs) (drop (end_pos 0 fs) key) [stack s ! length fs] (rest_key s) [] c"
  shows "\<exists>s'. insert_exec T Ops vsz s = Some s' \<and> grown T live key vsz n fs c s'"
proof -
  note R = readyD[OF r] and isl = ready_leaf[OF r]
  let ?tr = "stack s ! length fs" and ?key = "drop (end_pos 0 fs) key"
  have less: "ready T live key fs c m L s" if "m \<le> Suc (Suc (Suc (Suc (n + length (rest_key s) + 2 * length fs))))" for m
    using r owns_less[OF R(3) that] by (simp add: ready_def)
  from d show ?thesis
  proof (cases rule: descent.cases)
    case (leaf a lk v)
    have ex: "insert_exec T Ops vsz s = change_leaf T Ops vsz s" using isl leaf(1) R(15) by (simp add: insert_exec_def)
    show ?thesis
    proof (cases "?key = lk")
      case True
      have "lcp ?key lk = length lk" using True lcp_append[of lk "[]"] by simp
      then have rk: "rest_key s = []" "t_cmp ?tr = 0" "t_prefix ?tr = length lk" using leaf True by auto
      have "ready T live key fs (ALeaf a lk v) (Suc (Suc (n + 2 * length fs))) L s" using less leaf(1) by simp
      from replace_leaf_ok[OF this T True[symmetric] rk(2,1,3)] show ?thesis using ex leaf(1) by simp
    next
      case False
      have "t_cmp ?tr \<noteq> 0" "t_prefix ?tr = lcp ?key lk" "rest_key s = drop (lcp ?key lk) ?key" using leaf False by auto
      from split_leaf_ok[OF r[unfolded leaf(1)] T refl False this(3,2,1)] show ?thesis using ex leaf(1) by simp
    qed
  next
    case (split a p ks cs)
    obtain m where m: "trie_at s a = Some m" "unat (compressed_len m) = length p" using holds_trie R(2) split(1) by metis
    have lt: "lcp ?key p < length p" using lcp_prefix[of ?key p] split by auto
    have tp: "t_prefix ?tr = lcp ?key p" using split by simp
    have "insert_exec T Ops vsz s = split_compressed T Ops vsz s"
      using isl split(1) R(10,15) m lt tp by (simp add: insert_exec_def)
    then show ?thesis using split_compressed_ok[OF r[unfolded split(1)] T refl lt _ tp] split by simp
  next
    case (missing a p ks cs)
    obtain m where m: "trie_at s a = Some m" "unat (compressed_len m) = length p" using holds_trie R(2) missing(1) by metis
    have "insert_exec T Ops vsz s = add_to_array T Ops vsz s"
      using isl missing R(10,15) m by (simp add: insert_exec_def)
    moreover have "ready T live key fs (ANode a p ks cs) (Suc (Suc (Suc (n + length (rest_key s) + 2 * length fs)))) L s" using less missing(1) by simp
    ultimately show ?thesis using add_to_array_ok[OF _ T] missing by simp
  qed
qed

end

section \<open>The value\<close>

definition write_value :: "bytes \<Rightarrow> ('m, 'z) cursor_scheme \<Rightarrow> ('m, 'z) cursor_scheme option" where
  "write_value v s = (let a = t_node (stack s ! top_idx s) in do { l \<leftarrow> leaf_at s a; put_leaf a (leaf_write l v) s })"

lemma cursor_put_eq:
  "cursor_reserve T Ops (length v) s = Some (Inr s1) \<Longrightarrow> write_value v s1 = Some s2 \<Longrightarrow> cursor_put T Ops v s = Some (Inr s2)"
  unfolding cursor_put_def write_value_def Let_def by (cases "leaf_at s1 (t_node (stack s1 ! top_idx s1))") auto

lemma write_value_ok:
  assumes p: "placed T live key (length v) n fs a L s" and t: "t = plug fs (ALeaf a (drop (end_pos 0 fs) key) (False, v))" "wf_tree t"
  shows "\<exists>s'. write_value v s = Some s' \<and> cursor_at T t s' \<and> is_valid s' \<and> current_key s' = key \<and> rest_key s' = []
    \<and> db_owned T live n L (Some t) s'"
proof -
  let ?k = "drop (end_pos 0 fs) key"
  note P = p[unfolded placed_def]
  have on: "on_path T key fs (Link LEAF a) L s" and ow: "owns T live n L s" and aL: "a \<in> L" and aN: "a \<notin> set (nodes fs) \<union> set (sibs fs)" using P by blast+
  obtain pg l where l: "heap s a = Some pg" "body pg = LeafN l" "new_leaf ?k (length v) l" using P by blast
  note lw = new_leaf_write[OF l(3)]
  define pg' where "pg' = pg\<lparr>body := LeafN (leaf_write l v)\<rparr>"
  define s' where "s' = s\<lparr>heap := (heap s)(a \<mapsto> pg')\<rparr>"
  obtain ts tr where st: "stack s = ts @ [tr]" using P by (metis length_Suc_conv_rev)
  have tr: "length ts = length fs" "on_tree (end_loc LRoot fs) (end_pos 0 fs) (ALeaf a [] (False, [])) tr" "t_cmp tr = 0" "t_prefix tr = length key - end_pos 0 fs" using P st by simp_all
  have "stack s ! top_idx s = tr" using st by simp
  then have nt: "t_node (stack s ! top_idx s) = a" using tr(2) by (simp add: on_tree_def)
  have w: "write_value v s = Some s'" using l(1,2) by (simp add: write_value_def nt Let_def leaf_at_def put_leaf_def set_page_def s'_def pg'_def)
  have "page_ok T pg" using owns_page[OF ow aL] l(1) by auto
  moreover have "vsize l = length v" using l(3) by (simp add: new_leaf_def)
  ultimately have "page_ok T pg'" using l(2) lw(5,6) by (simp add: page_ok_def pg'_def)
  then have ow': "owns T live n L s'" using owns_set[OF ow, of s' a pg'] by (simp add: s'_def)
  have a0: "a \<noteq> 0" using ow aL unfolding owns_def by metis
  let ?c = "ALeaf a ?k (False, v)"
  have hl: "holds T (heap s') ?c" using a0 lw(1-4) by (simp add: s'_def pg'_def)
  have "\<forall>x\<in>set (nodes fs) \<union> set (sibs fs). heap s' x = heap s x" using aN by (auto simp: s'_def)
  moreover have "frames_hold T (heap s) fs (Link LEAF a)" using on by (simp add: on_path_def)
  ultimately have fh: "frames_hold T (heap s') fs (tree_link ?c)" using frames_hold_cong by simp
  have ht: "holds T (heap s') t" unfolding t(1) by (rule holds_plug[OF fh hl])
  have "root s' = tree_link t" using on unfolding t(1) tree_link_plug by (simp add: on_path_def s'_def)
  moreover have "stack_on t s'"
  proof -
    have "rail key fs LRoot 0 ts" using on st tr(1) by (simp add: on_path_def)
    from rail_spine[OF this _ frames_idx[OF fh], of ?c] obtain "is" where "spine key t LRoot 0 ts is ?c (end_loc LRoot fs) (end_pos 0 fs)"
      unfolding t(1) by auto
    moreover have "on_tree (end_loc LRoot fs) (end_pos 0 fs) ?c tr" using tr(2) by (simp add: on_tree_def)
    then have "top_ok key (end_loc LRoot fs) (end_pos 0 fs) ?c tr" using tr(4) unfolding top_ok_def by blast
    moreover have "stack s' = ts @ [tr]" "current_key s' = key" using st P by (simp_all add: s'_def)
    ultimately show ?thesis unfolding stack_on_def by metis
  qed
  ultimately have at: "cursor_at T t s'" using ht t(2) by (simp add: cursor_at_def)
  have ne: "stack s' \<noteq> []" using st by (simp add: s'_def)
  obtain ts' tr' where "stack s' = ts' @ [tr']" "is_valid s' \<longleftrightarrow> t_cmp tr' = 0" using cursor_valid_iff[OF at ne] by metis
  then have "is_valid s'" using st tr(3) by (simp add: s'_def)
  moreover have "db_owned T live n L (Some t) s'"
  proof -
    have "set (nodes fs) \<union> set (sibs fs) \<subseteq> L" "separate_path fs" using on unfolding on_path_def by blast+
    then show ?thesis using distinct_plug[OF frames_idx[OF fh], of ?c] ow' aL aN unfolding db_owned_def t(1) by auto
  qed
  moreover have "current_key s' = key" "rest_key s' = []" using P by (simp_all add: s'_def)
  ultimately show ?thesis using w at by blast
qed

section \<open>The first entry\<close>

context page_allocator
begin

lemma first_exec_ok:
  assumes s: "root s = 0" "stack s = []" "current_key s = []" "rest_key s = key"
    and ow: "owns T live (Suc (Suc (n + length key))) L s" and T: "page_traits T" "value_ok T vsz"
  shows "\<exists>s1 s' es a L'. push_loc LRoot s = Some s1 \<and> first_exec T Ops vsz s1 = Some s' \<and> placed T live key vsz n es a L' s' \<and> key_frames key es"
proof -
  define tr where "tr = \<lparr>t_node = 0, t_prefix = 0, t_keypos = 0, t_branch_key = spare s 0, t_cmp = UNDEFINED, t_offset = LRoot, t_link_idx = 65535\<rparr>"
  define s1 where "s1 = s\<lparr>stack := [tr]\<rparr>"
  have push: "push_loc LRoot s = Some s1" using s by (simp add: push_loc_def s1_def tr_def zero_link_def)
  have ow1: "owns T live (Suc (Suc (n + length key))) L s1" by (rule owns_same[OF ow]) (simp_all add: s1_def)
  have f1: "top_idx s1 = 0" "stack s1 = [tr]" "rest_key s1 = key" "current_key s1 = []" using s by (simp_all add: s1_def top_idx_def)
  show ?thesis
  proof (cases "255 < length key")
    case True
    have T': "traits_ok T" using T(1) by (simp add: page_traits_def cursor_traits_def)
    have "trie_size_branches T 255 1 + PAGE_HEADER_SIZE T \<le> last (PAGE_SIZES T)"
      using trie_size_branches_max[OF T'] T(1) by (simp add: page_traits_def)
    from alloc_node_ok[OF ow1 T(1) this] obtain a s2 q where a: "alloc_node T Ops (trie_size_branches T 255 1) s1 = Some (a, s2)"
      "a \<noteq> 0" "a \<notin> L" "owns T live (Suc (n + length key)) (insert a L) s2" "heap s2 = (heap s1)(a \<mapsto> q)" "slot_id q < length (PAGE_SIZES T)"
      "root s2 = root s1" "stack s2 = stack s1" "keys_kept s1 s2" by blast
    define s3 where "s3 = upd_tr 0 (\<lambda>tr. tr\<lparr>t_node := a\<rparr>) (s2\<lparr>root := Link TRIE a\<rparr>)"
    have st3: "stack s3 = [] @ [tr\<lparr>t_node := a\<rparr>]" using a(8) f1(2) by (simp add: s3_def)
    have k3: "rest_key s3 = key" "current_key s3 = []" using a(9) f1(3,4) by (simp_all add: s3_def keys_kept_def)
    have on3: "on_path T key [] (Link TRIE a) (insert a L) s3" by (simp add: on_path_def separate_path_def s3_def)
    have ow3: "owns T live (Suc (n + length key)) (insert a L) s3" using owns_same[OF a(4), of "s2\<lparr>root := Link TRIE a\<rparr>"] by (simp add: s3_def)
    obtain s4 e where e: "fill_bigkey T s3 = Some s4" "at_hole T key ([] @ [e]) 0 (insert a L) s4" "owns T live (Suc (n + length key)) (insert a L) s4"
      "f_prefix e = take 255 key" "f_keys e = [uint (key ! 255)]" "length (f_children e) = 1" "f_idx e = 0"
      using fill_bigkey_ok[OF on3 ow3 T(1) _ st3, unfolded k3] True a(2) by (auto simp: tr_def)
    have r4: "rest_key s4 = drop 255 key" using e(2,4) True by (simp add: at_hole_def)
    have "owns T live (Suc (n + length (rest_key s4))) (insert a L) s4" using owns_less[OF e(3)] r4 by simp
    from create_leaf_ok[OF e(2) this T] obtain s' es b L' where c: "create_leaf T Ops vsz s4 = Some s'" "placed T live key vsz n (([] @ [e]) @ es) b L' s'"
      "key_frames (rest_key s4) es" by blast
    have "first_exec T Ops vsz s1 = Some s'"
      using True f1 a(1) e(1) c(1) by (simp add: first_exec_def Let_def tr_def s3_def)
    moreover have "key_frames key (e # es)" using c(3) r4 e(4-7) True by simp
    moreover have "placed T live key vsz n (e # es) b L' s'" using c(2) by simp
    ultimately show ?thesis using push by blast
  next
    case False
    then have k: "length key \<le> 255" by simp
    have "owns T live (Suc n) L s1" by (rule owns_less[OF ow1]) simp
    from fill_leaf_ok[OF this T k] obtain a s2 p l where a: "fill_leaf T Ops vsz key s1 = Some (a, s2)" "a \<noteq> 0" "a \<notin> L" "owns T live n (insert a L) s2"
      "heap s2 = (heap s1)(a \<mapsto> p)" "body p = LeafN l" "new_leaf key vsz l" "root s2 = root s1" "stack s2 = stack s1" "keys_kept s1 s2" by blast
    let ?tr = "tr\<lparr>t_node := a, t_cmp := 0, t_prefix := length key\<rparr>"
    define s3 where "s3 = s2\<lparr>stack := [?tr], root := Link LEAF a, current_key := current_key s2 @ take (length key) (rest_key s2), rest_key := drop (length key) (rest_key s2)\<rparr>"
    have "first_exec T Ops vsz s1 = Some s3"
      using False f1 a(1,9) by (simp add: first_exec_def Let_def tr_def s3_def upd_tr_def advance_key_def)
    moreover have "placed T live key vsz n [] a (insert a L) s3"
      using a f1 owns_same[OF a(4), of s3]
      by (simp add: placed_def on_path_def separate_path_def s3_def on_tree_def tr_def keys_kept_def)
    moreover have "key_frames key []" using k by simp
    ultimately show ?thesis using push by blast
  qed
qed

end

section \<open>Putting a value\<close>

definition put_cost :: "atree option \<Rightarrow> bytes \<Rightarrow> nat" where
  "put_cost ot key = 4 + length key + 2 * (case ot of None \<Rightarrow> 0 | Some t \<Rightarrow> length (addrs t))"

text \<open>What a put leaves behind.\<close>

definition put_done ::
  "traits \<Rightarrow> (nat \<Rightarrow> 'm \<Rightarrow> nat set \<Rightarrow> bool) \<Rightarrow> nat \<Rightarrow> (bytes \<rightharpoonup> bool \<times> bytes) \<Rightarrow> bytes \<Rightarrow> bytes \<Rightarrow> ('m, 'z) cursor_scheme \<Rightarrow> bool" where
  "put_done T live n M key v s \<longleftrightarrow> (\<exists>t L. cursor_at T t s \<and> map_of (entries t) = M(key \<mapsto> (False, v)) \<and> is_valid s
     \<and> current_key s = key \<and> db_owned T live n L (Some t) s)"

lemma cursor_reserve_insert: "stack s \<noteq> [] \<Longrightarrow> insert_exec T Ops n s = Some s' \<Longrightarrow> cursor_reserve T Ops n s = Some (Inr s')"
  by (simp add: cursor_reserve_def)

context page_allocator
begin

lemma put_grown:
  assumes r: "ready T live key fs c m L s" and g: "insert_exec T Ops (length v) s = Some s1" "grown T live key (length v) n fs c s1"
  shows "\<exists>s'. cursor_put T Ops v s = Some (Inr s') \<and> put_done T live n (map_of (entries (plug fs c))) key v s'"
proof -
  note R = readyD[OF r]
  have rl: "rail key fs LRoot 0 (take (length fs) (stack s))" and ix: "\<forall>f\<in>set fs. f_idx f < length (f_children f)"
    using R(1) frames_idx[of T "heap s" fs "tree_link c"] by (simp_all add: on_path_def)
  obtain gs hs a L1 where s1: "same_frames fs gs" "placed T live key (length v) n (gs @ hs) a L1 s1" "grows key fs c hs a"
    using g(2) unfolding grown_def by blast
  let ?c = "plug hs (ALeaf a (drop (end_pos 0 (fs @ hs)) key) (False, v))"
  have w: "wf_tree ?c" "lookup ?c = (lookup c)(drop (end_pos 0 fs) key \<mapsto> (False, v))" "fs = [] \<or> (\<forall>k. branch_ok k c \<longrightarrow> branch_ok k ?c)"
    using s1(3) unfolding grows_def Let_def by blast+
  note gp = grow_plug[OF rl R(13) ix s1(1) w]
  have pos: "end_pos 0 (gs @ hs) = end_pos 0 (fs @ hs)" using same_frames_pos[OF s1(1)] by simp
  have "plug gs ?c = plug (gs @ hs) (ALeaf a (drop (end_pos 0 (gs @ hs)) key) (False, v))" unfolding pos by simp
  from write_value_ok[OF s1(2) this conjunct1[OF gp]] obtain s2 where s2: "write_value v s1 = Some s2" "cursor_at T (plug gs ?c) s2"
    "is_valid s2" "current_key s2 = key" "db_owned T live n L1 (Some (plug gs ?c)) s2" by blast
  have "stack s \<noteq> []" using R(7) by auto
  from cursor_put_eq[OF cursor_reserve_insert[OF this g(1)] s2(1)] show ?thesis using s2(2-5) gp unfolding put_done_def by blast
qed

lemma ready_cost:
  assumes "ready T live key fs c (n + put_cost (Some (plug fs c)) key) L s" "k \<le> 4 + length key"
  shows "ready T live key fs c (n + k + 2 * length fs) L s"
proof -
  note R = readyD[OF assms(1)]
  have ix: "\<forall>f\<in>set fs. f_idx f < length (f_children f)" using R(1) frames_idx[of T "heap s" fs "tree_link c"] by (simp add: on_path_def)
  have "length (addrs (plug fs c)) = length (nodes fs @ sibs fs @ addrs c)" using addrs_plug[OF ix, of c] by (metis size_mset)
  then have "n + k + 2 * length fs \<le> n + put_cost (Some (plug fs c)) key" using assms(2) by (simp add: put_cost_def)
  then show ?thesis using assms(1) owns_less[OF R(3)] by (simp add: ready_def)
qed

lemma put_found:
  assumes f: "found_at t key s0 s" "cursor_at T t s" "db_owned T live (n + put_cost (Some t) key) L (Some t) s" and T: "page_traits T" "value_ok T (length v)"
  shows "\<exists>s'. cursor_put T Ops v s = Some (Inr s') \<and> put_done T live n (map_of (entries t)) key v s'"
proof -
  obtain "is" c where d: "descent t LRoot 0 (drop 0 key) (stack s) (rest_key s) is c" and ck: "current_key s = take (length key - length (rest_key s)) key"
    using f(1) by (auto simp: found_at_def)
  obtain ts tr is' l kp where e: "stack s = ts @ [tr]" "spine key t LRoot 0 ts is' c l kp" "descent c l kp (drop kp key) [tr] (rest_key s) [] c"
    using descent_end[OF d] by auto
  have "on_tree l kp c tr" using e(3) by (cases rule: descent.cases) auto
  from ready_from_spine[OF e(2,1) this f(2,3) ck] obtain fs where fs: "t = plug fs c" "kp = end_pos 0 fs" "length ts = length fs"
    "ready T live key fs c (n + put_cost (Some t) key) L s" by blast
  have tr: "stack s ! length fs = tr" using e(1) fs(3) by (metis nth_append_length)
  have "length (rest_key s) \<le> length key" using descent_rest_length[OF d] by simp
  then have "ready T live key fs c (n + (4 + length (rest_key s)) + 2 * length fs) L s"
    using ready_cost[OF fs(4)[unfolded fs(1)], of "4 + length (rest_key s)"] by simp
  then have r: "ready T live key fs c (Suc (Suc (Suc (Suc (n + length (rest_key s) + 2 * length fs))))) L s"
    by (simp add: numeral_eq_Suc)
  have "descent c l (end_pos 0 fs) (drop (end_pos 0 fs) key) [stack s ! length fs] (rest_key s) [] c" using e(3) tr fs(2) by simp
  from insert_exec_ok[OF r T this] show ?thesis using put_grown[OF r] fs(1) by blast
qed

lemma put_valid:
  assumes f: "cursor_at T t s" "is_valid s" "rest_key s = []" "db_owned T live (n + put_cost (Some t) (current_key s)) L (Some t) s"
    and T: "page_traits T" "value_ok T (length v)"
  shows "\<exists>s'. cursor_put T Ops v s = Some (Inr s') \<and> put_done T live n (map_of (entries t)) (current_key s) v s'"
proof -
  let ?key = "current_key s"
  have ne: "stack s \<noteq> []" using f(2) by (simp add: is_valid_def)
  obtain ts tr "is" c l kp where p: "stack s = ts @ [tr]" "spine ?key t LRoot 0 ts is c l kp" "top_ok ?key l kp c tr" "t_cmp tr = 0"
    using cursor_valid_iff[OF f(1) ne] f(2) by metis
  obtain a v0 where c: "c = ALeaf a (drop kp ?key) v0" "on_tree l kp c tr" "t_prefix tr = length (drop kp ?key)" using p(3,4) by (auto simp: top_ok_def)
  from ready_from_spine[OF p(2,1) c(2) f(1,4)] f(3) obtain fs where fs: "t = plug fs c" "kp = end_pos 0 fs" "length ts = length fs"
    "ready T live ?key fs c (n + put_cost (Some t) ?key) L s" by auto
  have tr: "stack s ! length fs = tr" using p(1) fs(3) by (metis nth_append_length)
  have "ready T live ?key fs c (n + 2 + 2 * length fs) L s" using ready_cost[OF fs(4)[unfolded fs(1)], of 2] by simp
  then have r: "ready T live ?key fs (ALeaf a (drop kp ?key) v0) (Suc (Suc (n + 2 * length fs))) L s" unfolding c(1) by simp
  from replace_leaf_ok[OF this T] fs(2) tr p(4) f(3) c(3) obtain s1 where s1: "change_leaf T Ops (length v) s = Some s1"
    "grown T live ?key (length v) n fs (ALeaf a (drop kp ?key) v0) s1" by auto
  have "is_leaf s (length fs)" using ready_leaf[OF r] by simp
  then have "insert_exec T Ops (length v) s = Some s1" using s1(1) readyD(15)[OF r] by (simp add: insert_exec_def)
  from put_grown[OF r this s1(2)] show ?thesis using fs(1) c(1) by simp
qed

lemma put_first:
  assumes s: "root s = 0" "stack s = []" "current_key s = []" "rest_key s = key" and o: "db_owned T live (n + put_cost None key) L None s"
    and T: "page_traits T" "value_ok T (length v)"
  shows "\<exists>s'. cursor_put T Ops v s = Some (Inr s') \<and> put_done T live n Map.empty key v s'"
proof -
  have "owns T live (n + put_cost None key) L s" using o by (simp add: db_owned_def)
  then have ow: "owns T live (Suc (Suc (n + length key))) L s" by (rule owns_less) (simp add: put_cost_def)
  obtain s1 s2 es a L1 where f: "push_loc LRoot s = Some s1" "first_exec T Ops (length v) s1 = Some s2" "placed T live key (length v) n es a L1 s2"
    "key_frames key es" using first_exec_ok[OF s ow T] by blast
  let ?t = "plug es (ALeaf a (drop (end_pos 0 es) key) (False, v))"
  note k = plug_key_frames[OF f(4), of a "(False, v)"]
  obtain s3 where s3: "write_value v s2 = Some s3" "cursor_at T ?t s3" "is_valid s3" "current_key s3 = key" "db_owned T live n L1 (Some ?t) s3"
    using write_value_ok[OF f(3) refl k(1)] by blast
  have "cursor_reserve T Ops (length v) s = Some (Inr s2)" using s(1,2) f(1,2) by (simp add: cursor_reserve_def)
  moreover have "map_of (entries ?t) = [key \<mapsto> (False, v)]" using lookup_entries[OF k(1)] k(2) by (simp add: fun_eq_iff)
  ultimately show ?thesis using cursor_put_eq[OF _ s3(1)] s3(2-5) unfolding put_done_def by blast
qed

text \<open>Search and put, from any position a cursor may have.\<close>

lemma find_put:
  assumes T: "page_traits T" "value_ok T (length v)" and on: "cursor_on T ot s" "stack s = [] \<or> current_key s \<noteq> key \<or> is_valid s"
    and e: "ot = None \<longrightarrow> current_key s = []" and k: "length key \<le> MAX_KEY_SIZE T" and o: "db_owned T live (n + put_cost ot key) L ot s"
  shows "\<exists>s1 s2. cursor_find T key s = Some (Inr s1) \<and> cursor_put T Ops v s1 = Some (Inr s2)
    \<and> put_done T live n (map_of (db_entries ot)) key v s2"
proof -
  have ct: "cursor_traits T" using T(1) by (simp add: page_traits_def)
  have od: "db_owned T live m L ot s' = db_owned T live m L ot s" if "same_db s s'" for s' m
    using that by (simp add: db_owned_def owns_def same_db_def)
  show ?thesis
  proof (cases ot)
    case None
    let ?s = "s\<lparr>rest_key := key\<rparr>"
    have "root s = 0" "stack s = []" "current_key s = []" using on e None by (simp_all add: cursor_on_def)
    moreover have "cursor_find T key s = Some (Inr ?s)" using calculation k by (simp add: cursor_find_def find_from_def)
    moreover have "db_owned T live (n + put_cost None key) L None ?s" using od[of ?s] o None by (simp add: same_db_def)
    ultimately show ?thesis using put_first[of ?s key n L v] T None by (simp add: db_entries_def)
  next
    case (Some t)
    have at: "cursor_at T t s" using on(1) Some by (simp add: cursor_on_def)
    show ?thesis
    proof (cases "stack s = [] \<or> current_key s \<noteq> key")
      case True
      from cursor_find_found[OF ct at k True] obtain s1 where s1: "cursor_find T key s = Some (Inr s1)" "found_at t key s s1" by blast
      have "same_db s s1" using s1(2) by (simp add: found_at_def)
      then have "db_owned T live (n + put_cost (Some t) key) L (Some t) s1" using od o Some by simp
      from put_found[OF s1(2) found_cursor_at(1)[OF s1(2) at] this T] show ?thesis using s1(1) Some by (auto simp: db_entries_def)
    next
      case False
      let ?s = "s\<lparr>rest_key := []\<rparr>"
      have v: "is_valid s" "current_key s = key" "stack s \<noteq> []" using False on(2) by auto
      have "cursor_find T key s = Some (Inr ?s)"
        using keep_stack_same[OF ct, of "s\<lparr>rest_key := key\<rparr>"] v k by (simp add: cursor_find_def Let_def)
      moreover have "cursor_at T t ?s" using at by (simp add: cursor_at_def stack_on_def)
      moreover have "is_valid ?s" using v(1) reads_same_db(1)[of s ?s] by (simp add: same_db_def)
      moreover have "db_owned T live (n + put_cost (Some t) (current_key ?s)) L (Some t) ?s" using od[of ?s] o Some v(2) by (simp add: same_db_def)
      ultimately show ?thesis using put_valid[of t ?s n L v] T Some v(2) by (simp add: db_entries_def)
    qed
  qed
qed

end

end
