(* ===== verification/Leaves_Shrink.thy ===== *)
theory Leaves_Shrink
  imports Leaves_Grow
begin

text \<open>
  The trie-level content of a removal: a node with one branch less, and the last child of a node that takes
  over the prefix of its parent.
\<close>

section \<open>A node with one branch less\<close>

definition remove_child :: "nat \<Rightarrow> 'a list \<Rightarrow> 'a list" where
  "remove_child i xs = take i xs @ drop (Suc i) xs"

lemma siblings_remove: "siblings f = remove_child (f_idx f) (f_children f)"
  by (simp add: siblings_def remove_child_def)

lemma remove_child_simps [simp]:
  "map f (remove_child i xs) = remove_child i (map f xs)" "remove_child i (xs[i := x]) = remove_child i xs"
  "i < length xs \<Longrightarrow> length (remove_child i xs) = length xs - 1"
  by (auto simp: remove_child_def take_map drop_map)

lemma remove_child_nth:
  "i < length xs \<Longrightarrow> j < length xs - 1 \<Longrightarrow> remove_child i xs ! j = xs ! (if j < i then j else Suc j)"
  by (simp add: remove_child_def nth_append)

lemma remove_child_set: "x \<in> set (remove_child i xs) \<Longrightarrow> x \<in> set xs"
  by (auto simp: remove_child_def dest: in_set_takeD in_set_dropD)

lemma remove_key_child:
  assumes "sorted_wrt (<) ks" "i < length ks"
  shows "remove_key (ks ! i) ks = remove_child i ks" "length (filter (\<lambda>x. x < ks ! i) ks) = i"
proof -
  have s: "sorted_wrt (<) (take i ks @ ks ! i # drop (Suc i) ks)" using assms by (simp add: id_take_nth_drop[symmetric])
  then have l: "\<forall>x\<in>set (take i ks). x < ks ! i" "\<forall>x\<in>set (drop (Suc i) ks). ks ! i < x" by (auto simp: sorted_wrt_append)
  have k: "ks = take i ks @ ks ! i # drop (Suc i) ks" using assms(2) by (rule id_take_nth_drop)
  have n: "filter (\<lambda>x. x < ks ! i) (take i ks) = take i ks" "filter (\<lambda>x. x < ks ! i) (drop (Suc i) ks) = []"
    "filter (\<lambda>x. ks ! i < x) (take i ks) = []" "filter (\<lambda>x. ks ! i < x) (drop (Suc i) ks) = drop (Suc i) ks"
    using l by (force simp: filter_id_conv filter_empty_conv)+
  have "filter (\<lambda>x. x < ks ! i) ks = take i ks" by (subst (2) k) (simp add: n)
  moreover have "filter (\<lambda>x. ks ! i < x) ks = drop (Suc i) ks" by (subst (2) k) (simp add: n)
  ultimately show "remove_key (ks ! i) ks = remove_child i ks" "length (filter (\<lambda>x. x < ks ! i) ks) = i"
    using assms(2) by (simp_all add: remove_key_def remove_child_def)
qed

lemma remove_map:
  assumes "length ks = length xs" "i < length ks" "distinct ks"
  shows "map_of (zip (remove_child i ks) (remove_child i xs)) = (map_of (zip ks xs))(ks ! i := None)"
proof -
  have "ks = take i ks @ ks ! i # drop (Suc i) ks" using assms(2) by (rule id_take_nth_drop)
  then have "distinct (take i ks @ ks ! i # drop (Suc i) ks)" using assms(3) by metis
  then have n: "ks ! i \<notin> set (take i ks)" "ks ! i \<notin> set (drop (Suc i) ks)" by auto
  define A B where "A = map_of (zip (take i ks) (take i xs))" and "B = map_of (zip (drop (Suc i) ks) (drop (Suc i) xs))"
  have z: "A (ks ! i) = None" "B (ks ! i) = None" using n unfolding A_def B_def by (auto simp: map_of_eq_None_iff dest: set_zip_leftD)
  have "drop i ks = ks ! i # drop (Suc i) ks" "drop i xs = xs ! i # drop (Suc i) xs" using assms(1,2) by (simp_all add: Cons_nth_drop_Suc)
  then have "map_of (zip ks xs) = B(ks ! i \<mapsto> xs ! i) ++ A"
    using map_of_zip_split[of i ks xs] assms(1,2) by (simp add: A_def B_def)
  moreover have "map_of (zip (remove_child i ks) (remove_child i xs)) = B ++ A"
    using map_of_zip_append[of "take i ks" "take i xs"] assms(1,2) by (simp add: remove_child_def A_def B_def)
  ultimately show ?thesis using map_middle(2)[of A "ks ! i" B "xs ! i"] z by simp
qed

lemma shrink_node:
  fixes a' :: nat
  assumes w: "wf_tree (ANode a p ks cs)" and i: "i < length cs" and x: "lookup (cs ! i) = [r \<mapsto> v]" "key_branch r = ks ! i"
  defines "n \<equiv> ANode a' p (remove_child i ks) (remove_child i cs)"
  shows "2 \<le> length cs \<Longrightarrow> wf_tree n" "lookup n = (lookup (ANode a p ks cs))(p @ r := None)"
proof -
  have s: "length ks = length cs" "sorted_wrt (<) ks" "\<forall>j<length cs. branch_ok (ks ! j) (cs ! j)" "length p \<le> 255" "\<forall>c\<in>set cs. wf_tree c"
    using w by auto
  have d: "distinct ks" using s(2) by (simp add: strict_sorted_iff)
  show "lookup n = (lookup (ANode a p ks cs))(p @ r := None)"
  proof
    fix key :: bytes
    let ?r = "drop (length p) key"
    define M where "M = map_of (zip ks (map lookup cs))"
    have e: "key = p @ r \<longleftrightarrow> Sublist.prefix p key \<and> ?r = r" by (auto simp: Sublist.prefix_def)
    have m: "map_of (zip (remove_child i ks) (map lookup (remove_child i cs))) = M(ks ! i := None)"
      using remove_map[of ks "map lookup cs" i] s(1) i d by (simp add: M_def)
    have n: "lookup n key = (if Sublist.prefix p key then Option.bind ((M(ks ! i := None)) (key_branch ?r)) (\<lambda>f. f ?r) else None)"
      using lookup_ANode_map[of "remove_child i ks" "remove_child i cs" a' p key] s(1) i unfolding n_def m by simp
    have o: "lookup (ANode a p ks cs) key = (if Sublist.prefix p key then Option.bind (M (key_branch ?r)) (\<lambda>f. f ?r) else None)"
      using lookup_ANode_map[OF s(1), of a p key] unfolding M_def .
    have "M (ks ! i) = Some [r \<mapsto> v]" using map_of_zip_nth[of ks "map lookup cs" i] s(1) i d x(1) by (simp add: M_def)
    then show "lookup n key = ((lookup (ANode a p ks cs))(p @ r := None)) key"
      unfolding fun_upd_def n o using e x(2) by auto
  qed
  assume 2: "2 \<le> length cs"
  have "branch_ok (remove_child i ks ! j) (remove_child i cs ! j)" if "j < length cs - 1" for j
    using remove_child_nth[of i ks j] remove_child_nth[of i cs j] s(1,3) i that by auto
  moreover have "sorted_wrt (<) (remove_child i ks)"
  proof -
    have "i < length ks" using s(1) i by simp
    from remove_key_child(1)[OF s(2) this, symmetric] show ?thesis
      using s(2) by (auto simp: remove_key_def sorted_wrt_append sorted_wrt_filter)
  qed
  moreover have "length (remove_child i ks) = length cs - 1" "length (remove_child i cs) = length cs - 1" using s(1) i by simp_all
  moreover then have "remove_child i ks \<noteq> []" using 2 by auto
  ultimately show "wf_tree n" using s(4,5) remove_child_set[of _ i cs] unfolding n_def by auto
qed

section \<open>The only child\<close>

lemma only_child:
  assumes "wf_tree (ANode a p ks [c])" "lookup c = [r \<mapsto> v]" "key_branch r = ks ! 0"
  shows "lookup (ANode a p ks [c]) = [p @ r \<mapsto> v]"
proof -
  obtain k where k: "ks = [k]" using assms(1) by (cases ks) auto
  show ?thesis
  proof
    fix key :: bytes
    have e: "key = p @ r \<longleftrightarrow> Sublist.prefix p key \<and> drop (length p) key = r" by (auto simp: Sublist.prefix_def)
    then show "lookup (ANode a p ks [c]) key = [p @ r \<mapsto> v] key" using assms(2,3) k by (auto simp: Let_def)
  qed
qed

text \<open>A child that takes over the prefix of its parent.\<close>

fun prepend :: "nat \<Rightarrow> bytes \<Rightarrow> atree \<Rightarrow> atree" where
  "prepend a p (ALeaf b k v) = ALeaf a (p @ k) v"
| "prepend a p (ANode b q ks cs) = ANode a (p @ q) ks cs"

lemma prepend_simps [simp]: "addr (prepend a p x) = a" "label (prepend a p x) = p @ label x"
  by (cases x; simp)+

lemma prepend_wf: "wf_tree x \<Longrightarrow> length p + length (label x) \<le> 255 \<Longrightarrow> wf_tree (prepend a p x)"
  by (cases x) auto

lemma prepend_lookup: "lookup (prepend a p x) key = (if Sublist.prefix p key then lookup x (drop (length p) key) else None)"
proof (cases x)
  case (ALeaf b k v)
  have "key = p @ k \<longleftrightarrow> Sublist.prefix p key \<and> drop (length p) key = k" by (auto simp: Sublist.prefix_def)
  then show ?thesis using ALeaf by auto
next
  case (ANode b q ks cs)
  have e: "Sublist.prefix (p @ q) key \<longleftrightarrow> Sublist.prefix p key \<and> Sublist.prefix q (drop (length p) key)"
    by (auto simp: Sublist.prefix_def)
  have "drop (length (p @ q)) key = drop (length q) (drop (length p) key)" by (simp add: add.commute)
  then show ?thesis unfolding ANode prepend.simps lookup.simps e by simp
qed

lemma merge_node:
  fixes a' :: nat
  assumes w: "wf_tree (ANode a p ks cs)" and i: "i < length cs" and x: "lookup (cs ! i) = [r \<mapsto> v]" "key_branch r = ks ! i"
    and y: "remove_child i cs = [y]"
  shows "lookup (prepend a' p y) = (lookup (ANode a p ks cs))(p @ r := None)"
proof -
  have s: "length ks = length cs" "length cs = 2" using w arg_cong[OF y, of length] i by auto
  have "length (remove_child i ks) = Suc 0" using s i by simp
  then obtain k where k: "remove_child i ks = [k]" by (metis length_0_conv length_Suc_conv)
  have "wf_tree (ANode a' p [k] [y])" using shrink_node(1)[OF w i x, of a'] s k y by simp
  then have yw: "wf_tree y" "branch_ok k y" by auto
  have "lookup (ANode a' p [k] [y]) key = lookup (prepend a' p y) key" for key
    using lookup_other_branch[OF yw, of "drop (length p) key"] by (auto simp: prepend_lookup Let_def)
  moreover have "lookup (ANode a' p [k] [y]) = (lookup (ANode a p ks cs))(p @ r := None)"
    using shrink_node(2)[OF w i x, of a'] k y by simp
  ultimately show ?thesis by (metis ext)
qed

end
