(* ===== verification/Leaves_Land.thy ===== *)
theory Leaves_Land
  imports Leaves_Grow Leaves_Iterate
begin

text \<open>
  Moving on from a position that is no entry: after a removal the cursor stands on the node that was
  changed, and \<open>next\<close> or \<open>first\<close> takes it to an entry or out of the database.
\<close>

section \<open>An entry below the end of a path\<close>

lemma spine_append:
  "spine ck t l kp trs is c l' kp' \<Longrightarrow> spine ck c l' kp' us js e l2 kp2 \<Longrightarrow> spine ck t l kp (trs @ us) (is @ js) e l2 kp2"
proof (induction rule: spine.induct)
  case (down l kp a p ks cs tr i trs "is" c l' kp')
  show ?case using spine.down[OF down.hyps(1-7) down.IH[OF down.prems]] by simp
qed simp

lemma key_branch_agree:
  assumes "take (q + m) x = take (q + m) y" "q + m \<le> length x" "q + m \<le> length y"
    and "key_branch (drop (q + m) x) = key_branch (drop (q + m) y)"
  shows "key_branch (drop q x) = key_branch (drop q y)"
proof (cases m)
  case (Suc j)
  have "take (q + m) x ! q = take (q + m) y ! q" by (rule arg_cong[OF assms(1)])
  moreover have "q < q + m" using Suc by simp
  ultimately have xy: "x ! q = y ! q" by (simp only: nth_take)
  have "q < length x" "q < length y" using assms(2,3) Suc by simp_all
  then have "drop q x = x ! q # drop (Suc q) x" "drop q y = y ! q # drop (Suc q) y"
    using Cons_nth_drop_Suc[of q x] Cons_nth_drop_Suc[of q y] by metis+
  then show ?thesis using xy by (simp only: key_branch_def list.case)
qed (use assms in simp)

text \<open>A path for one key is a path for another that agrees with it up to the branch at its end.\<close>

lemma rail_switch:
  assumes "rail key fs l kp ts" "take (end_pos kp fs) key' = take (end_pos kp fs) key" "end_pos kp fs \<le> length key" "end_pos kp fs \<le> length key'"
    and "key_branch (drop (end_pos kp fs) key') = key_branch (drop (end_pos kp fs) key)"
  shows "rail key' fs l kp ts"
  using assms
proof (induction fs arbitrary: ts rule: rev_induct)
  case (snoc f fs)
  let ?q = "end_pos kp fs" and ?m = "length (f_prefix f)"
  have e: "end_pos kp (fs @ [f]) = ?q + ?m" by simp
  obtain us tr where r: "ts = us @ [tr]" "rail key fs l kp us" "on_frame key f (end_loc l fs) ?q tr" using snoc.prems(1) by (auto simp: rail_snoc)
  note P = snoc.prems(2-5)[unfolded e]
  have "rail key' fs l kp us"
  proof (rule snoc.IH[OF r(2)])
    show "take ?q key' = take ?q key" using arg_cong[OF P(1), of "take ?q"] by simp
    show "key_branch (drop ?q key') = key_branch (drop ?q key)" by (rule key_branch_agree[OF P(1,3,2,4)])
  qed (use P in simp_all)
  moreover have "on_frame key' f (end_loc l fs) ?q tr"
  proof -
    have "take ?m (drop ?q key') = take ?m (drop ?q key)" using arg_cong[OF P(1), of "drop ?q"] by (simp add: drop_take)
    moreover have "take ?m (drop ?q key) = f_prefix f" using r(3) by (auto simp: on_frame_def Sublist.prefix_def)
    ultimately have p: "Sublist.prefix (f_prefix f) (drop ?q key')" by (metis take_is_prefix)
    have b: "?q + ?m < length key' \<longrightarrow> t_branch_key tr = key' ! (?q + ?m)"
    proof
      assume l: "?q + ?m < length key'"
      from key_branch_eq[OF P(4)] l have "drop (?q + ?m) key \<noteq> []" "hd (drop (?q + ?m) key') = hd (drop (?q + ?m) key)" by auto
      then show "t_branch_key tr = key' ! (?q + ?m)" using r(3) l by (simp add: on_frame_def hd_drop_conv_nth)
    qed
    show ?thesis using r(3) p b P(4) by (simp add: on_frame_def)
  qed
  ultimately show ?case using r(1) by (auto simp: rail_snoc)
qed simp

lemma entry_lands:
  assumes r: "rail key fs LRoot 0 ts" and ix: "\<forall>f\<in>set fs. f_idx f < length (f_children f)"
    and t: "t = plug fs c" "wf_tree t" "holds T (heap s) t" "root s = tree_link t"
    and s: "stack s = ts @ trs" "at_entry c (end_loc LRoot fs) (take (end_pos 0 fs) key) trs B e R" "end_pos 0 fs \<le> length key" "current_key s = fst e"
  shows "cursor_at T t s \<and> is_valid s"
proof -
  let ?q = "end_pos 0 fs"
  have wc: "wf_tree c" using wf_plug_end[of fs c] t(1,2) ix by simp
  obtain k where k: "fst e = take ?q key @ k" "(k, snd e) \<in> set (entries c)" using at_entry_in[OF s(2)] by metis
  have lq: "length (take ?q key) = ?q" using s(3) by simp
  have b: "fs = [] \<or> key_branch (drop ?q (fst e)) = key_branch (drop ?q key)"
  proof (cases fs rule: rev_cases)
    case (snoc gs f)
    have "branch_ok (key_branch (drop ?q key)) c" using end_branch[of key gs f LRoot 0 ts c] r t(1,2) ix snoc by simp
    from entries_branch[OF this k(2)] show ?thesis using k(1) lq by simp
  qed simp
  have re: "rail (fst e) fs LRoot 0 ts"
  proof (cases "fs = []")
    case False
    then show ?thesis using rail_switch[OF r, of "fst e"] b k(1) lq s(3) by simp
  qed (use r in simp)
  have "0 \<le> length (fst e)" by simp
  from rail_spine[OF re this ix, of c] obtain "is" where sp: "spine (fst e) t LRoot 0 ts is c (end_loc LRoot fs) ?q" unfolding t(1) by blast
  from at_entry_spine[OF s(2) wc] obtain us tr js e2 l2 kp2 where lo: "trs = us @ [tr]"
    "spine (fst e) c (end_loc LRoot fs) ?q us js e2 l2 kp2" "top_ok (fst e) l2 kp2 e2 tr" "t_cmp tr = 0" unfolding lq by blast
  have "stack_on t s" using spine_append[OF sp lo(2)] lo(1,3) s(1,4) unfolding stack_on_def by (metis append_assoc)
  then have at: "cursor_at T t s" using t(2-4) by (simp add: cursor_at_def)
  have ne: "stack s \<noteq> []" using s(1) lo(1) by simp
  obtain ts' tr' where "stack s = ts' @ [tr']" "is_valid s \<longleftrightarrow> t_cmp tr' = 0" using cursor_valid_iff[OF at ne] by metis
  then have "is_valid s" using s(1) lo(1,4) by (metis append_assoc last_snoc)
  then show ?thesis using at by blast
qed

section \<open>A step from any transition\<close>

definition child_done :: "transition \<Rightarrow> atree \<Rightarrow> bytes \<Rightarrow> bytes \<Rightarrow> bool" where
  "child_done tr c P k \<longleftrightarrow> (\<forall>a p ks cs. c = ANode a p ks cs \<longrightarrow> t_prefix tr \<le> length p
     \<and> (t_cmp tr = 0 \<longrightarrow> k = P @ p \<and> t_prefix tr = length p \<and> t_link_idx tr < length cs))"

definition given_up :: "('m, 'z) cursor_scheme \<Rightarrow> ('m, 'z) cursor_scheme \<Rightarrow> transition list \<Rightarrow> bytes \<Rightarrow> bool" where
  "given_up s s' pre P \<longleftrightarrow> same_db s s' \<and> rest_key s' = rest_key s \<and> take (length P) (current_key s') = P
     \<and> (\<exists>tr'. stack s' = pre @ [tr'] \<and> t_keypos tr' = length P)"

lemma next_branch:
  assumes "stack s = pre @ [tr]" "on_tree l (length P) (ANode a p ks cs) tr" "read_loc s l = Some (Link TRIE a)" "t_cmp tr \<noteq> 0"
    "t_prefix tr = length p" "holds T (heap s) (ANode a p ks cs)" "wf_tree (ANode a p ks cs)" "take (length P) (current_key s) = P"
  shows "(\<exists>s' trs B e R. next_tr s = Some (True, s') \<and> moved s s' (pre @ trs) (fst e) \<and> at_entry (ANode a p ks cs) l P trs B e R)
    \<or> (\<exists>s'. next_tr s = Some (False, s') \<and> given_up s s' pre P)"
proof -
  let ?t = "ANode a p ks cs" and ?b = "uint (t_branch_key tr)"
  obtain n where n: "trie_at s a = Some n" "wf_node T n" "compressed n = p" "node_keys n = ks" "unat (compressed_len n) = length p"
    "length ks = length cs" using holds_trie[OF assms(6)] by metis
  have nl: "\<not> is_leaf s (length pre)" using is_leaf_snoc[OF assms(1)] assms(2,3) by (simp add: on_tree_def)
  have a: "t_node tr = a" "t_keypos tr = length P" using assms(2) by (simp_all add: on_tree_def)
  have "length P \<le> length (current_key s)" using arg_cong[OF assms(8), of length] by simp
  then have "take (length P) (current_key s @ replicate (length P) 0) = P" using assms(8) by simp
  then have rs: "resize_key (length P) s = s\<lparr>current_key := P\<rparr>" by (simp add: resize_key_def)
  define nx where "nx = node_next n ?b"
  have wb: "wf_bitmaps n" using n(2) by (simp add: wf_node_def)
  have vb: "valid_key ?b" by (rule valid_uint)
  have suc: "is_succ (set ks) ?b nx" using succ_key_is_succ[of ks ?b] node_next_eq[OF wb vb] n(4) assms(7) by (simp add: nx_def)
  show ?thesis
  proof (cases "nx = OUT_OF_RANGE")
    case True
    have "next_tr s = Some (False, s\<lparr>current_key := P @ p\<rparr>)"
      using assms(1,4,5) nl n a rs True by (simp add: next_tr_def Let_def append_key_def nx_def)
    moreover have "given_up s (s\<lparr>current_key := P @ p\<rparr>) pre P" using assms(1) a(2) by (simp add: given_up_def same_db_def)
    ultimately show ?thesis by blast
  next
    case False
    then have nk: "nx \<in> set ks" "?b < nx" using suc unfolding is_succ_def by (meson)+
    have vn: "valid_key nx" using valid_node_keys[OF wb] nk(1) n(4) by blast
    let ?i = "nat (array_index n nx)"
    have i: "?i < length cs" "ks ! ?i = nx" using index_of_key[OF n(2) vn] nk(1) n(4,6) by auto
    let ?tr = "tr\<lparr>t_cmp := 0, t_branch_key := word_of_int nx, t_link_idx := ?i\<rparr>"
    let ?s = "s\<lparr>current_key := P @ p, stack := pre @ [?tr]\<rparr>"
    define c where "c = child_tr (spare ?s) (Suc (length pre)) (LSlot a ?i) (length (P @ p)) (cs ! ?i)"
    define s2 where "s2 = ?s\<lparr>stack := (pre @ [?tr]) @ [c]\<rparr>"
    have s2: "push ?s = Some s2"
      using push_down[of ?s pre ?tr a ?i T p ks cs] a assms(6) i(1) by (simp add: s2_def c_def)
    have h2: "holds T (heap s2) ?t" using assms(6) by (simp add: s2_def)
    have ic: "cs ! ?i \<in> set cs" using i(1) by simp
    have "\<exists>s' trs e R. first_tr s2 = Some s' \<and> moved s2 s' ((pre @ [?tr]) @ trs) (fst e) \<and> at_entry (cs ! ?i) (LSlot a ?i) (P @ p) trs [] e R"
      by (rule first_tr_entry[OF _ _ read_slot[OF h2 i(1)]]) (use h2 ic assms(7) in \<open>auto simp: s2_def c_def\<close>)
    then obtain s3 trs e R where s3: "first_tr s2 = Some s3" "moved s2 s3 ((pre @ [?tr]) @ trs) (fst e)"
      "at_entry (cs ! ?i) (LSlot a ?i) (P @ p) trs [] e R" by blast
    have up: "upd_tr (length pre) (\<lambda>tr. tr\<lparr>t_cmp := 0, t_branch_key := word_of_int nx, t_link_idx := ?i\<rparr>) (s\<lparr>current_key := P @ p\<rparr>) = ?s"
      using assms(1) by (simp add: upd_tr_def)
    have "next_tr s = Some (True, s3)"
      using assms(1,4,5) nl n a rs False s2 s3(1) up by (simp add: next_tr_def Let_def append_key_def nx_def)
    moreover have "moved s s3 (pre @ ?tr # trs) (fst e)" using s3(2) by (simp add: moved_def same_db_def s2_def)
    moreover have "branch_set ?tr (drop (length (P @ p)) (fst e))"
    proof -
      obtain k where k: "fst e = (P @ p) @ k" "(k, snd e) \<in> set (entries (cs ! ?i))" using at_entry_in[OF s3(3)] by metis
      have "branch_ok nx (cs ! ?i)" using assms(7) i by auto
      from entries_branch[OF this k(2)] have "key_branch k = nx" .
      then show ?thesis using k(1) by (cases k) (auto simp: branch_set_def key_branch_def)
    qed
    then have "at_entry ?t l P (?tr # trs) (keyed (P @ p) (take ?i cs) @ []) e (R @ keyed (P @ p) (drop (Suc ?i) cs))"
      using assms(2,5) i(1) s3(3) by (intro at_entry.node) (simp_all add: on_tree_def)
    ultimately show ?thesis by blast
  qed
qed

lemma next_any:
  assumes "stack s = pre @ [tr]" "on_tree l (length P) c tr" "read_loc s l = Some (tree_link c)"
    "holds T (heap s) c" "wf_tree c" "take (length P) (current_key s) = P" "child_done tr c P (current_key s)"
  shows "(\<exists>s' trs B e R. next_tr s = Some (True, s') \<and> moved s s' (pre @ trs) (fst e) \<and> at_entry c l P trs B e R)
    \<or> (\<exists>s'. next_tr s = Some (False, s') \<and> given_up s s' pre P)"
proof (cases c)
  case (ALeaf a k v)
  have lf: "is_leaf s (length pre)" using is_leaf_snoc[OF assms(1)] assms(2,3) ALeaf by (simp add: on_tree_def)
  have a: "t_node tr = a" "t_keypos tr = length P" using assms(2) ALeaf by (simp_all add: on_tree_def)
  show ?thesis
  proof (cases "t_cmp tr < 0")
    case True
    obtain lf' where l: "leaf_at s a = Some lf'" "leaf_key lf' = k" "unat (key_size lf') = length k"
      using holds_leaf assms(4) ALeaf by metis
    have "next_tr s = Some (True, leaf_step (length pre) lf' s)" using lf assms(1) a l(1) True by (simp add: next_tr_def Let_def)
    moreover obtain tr' where "moved s (leaf_step (length pre) lf' s) (pre @ [tr']) (fst (P @ k, v))" "at_entry c l P [tr'] [] (P @ k, v) []"
      using leaf_step_moved[OF assms(1) assms(2)[unfolded ALeaf] assms(6) l] ALeaf by auto
    ultimately show ?thesis by blast
  next
    case False
    then have "next_tr s = Some (False, s)" using lf assms(1) by (simp add: next_tr_def Let_def)
    moreover have "given_up s s pre P" using assms(1,6) a by (simp add: given_up_def same_db_def)
    ultimately show ?thesis by blast
  qed
next
  case (ANode a p ks cs)
  have d: "t_prefix tr \<le> length p" "t_cmp tr = 0 \<Longrightarrow> current_key s = P @ p \<and> t_prefix tr = length p \<and> t_link_idx tr < length cs"
    using assms(7) ANode by (simp_all add: child_done_def)
  have rd: "read_loc s l = Some (Link TRIE a)" using assms(3) ANode by simp
  have a: "t_node tr = a" "t_keypos tr = length P" using assms(2) ANode by (simp_all add: on_tree_def)
  have nl: "\<not> is_leaf s (length pre)" using is_leaf_snoc[OF assms(1)] assms(2) rd by (simp add: on_tree_def)
  obtain n where n: "trie_at s a = Some n" "unat (compressed_len n) = length p" using holds_trie assms(4) ANode by metis
  have "length P \<le> length (current_key s)" using arg_cong[OF assms(6), of length] by simp
  then have "take (length P) (current_key s @ replicate (length P) 0) = P" using assms(6) by simp
  then have rs: "resize_key (length P) s = s\<lparr>current_key := P\<rparr>" by (simp add: resize_key_def)
  consider "t_cmp tr = 0" | "t_cmp tr \<noteq> 0" "t_prefix tr = length p" | "t_cmp tr \<noteq> 0" "t_prefix tr < length p" using d(1) by linarith
  then show ?thesis
  proof cases
    case 1
    let ?i = "t_link_idx tr"
    have i: "?i < length cs" "current_key s = P @ p" "t_prefix tr = length p" using d(2)[OF 1] by simp_all
    note nn = next_node[OF assms(1) assms(2)[unfolded ANode] rd 1 refl i(1) assms(4,5)[unfolded ANode] i(2,3)]
    show ?thesis
    proof (cases "Suc ?i = length cs")
      case True
      from nn(1)[OF this] obtain tr' where "next_tr s = Some (False, s\<lparr>stack := pre @ [tr']\<rparr>)" "t_keypos tr' = length P" by blast
      moreover then have "given_up s (s\<lparr>stack := pre @ [tr']\<rparr>) pre P" using assms(6) by (simp add: given_up_def same_db_def)
      ultimately show ?thesis by blast
    next
      case False
      then have "Suc ?i < length cs" using i(1) by simp
      from nn(2)[OF this] show ?thesis unfolding ANode by blast
    qed
  next
    case 2
    show ?thesis unfolding ANode by (rule next_branch[OF assms(1) assms(2)[unfolded ANode] rd 2 assms(4,5)[unfolded ANode] assms(6)])
  next
    case 3
    show ?thesis
    proof (cases "t_cmp tr > 0")
      case True
      then have "next_tr s = Some (False, s\<lparr>current_key := P\<rparr>)" using assms(1) nl n a rs 3 by (simp add: next_tr_def Let_def)
      moreover have "given_up s (s\<lparr>current_key := P\<rparr>) pre P" using assms(1) a by (simp add: given_up_def same_db_def)
      ultimately show ?thesis by blast
    next
      case False
      let ?s = "s\<lparr>current_key := P\<rparr>"
      have "read_loc ?s l = Some (tree_link c)" using assms(3) read_same[of s ?s l] by (simp add: same_db_def)
      then obtain s' trs e R where s': "first_tr ?s = Some s'" "moved ?s s' (pre @ trs) (fst e)" "at_entry c l P trs [] e R"
        using first_tr_entry[of ?s pre tr l P c T] assms(1,2,4,5) by auto
      then have "next_tr s = Some (True, s')" using assms(1) nl n a rs 3 False by (simp add: next_tr_def Let_def)
      moreover have "moved s s' (pre @ trs) (fst e)" using s'(2) by (simp add: moved_def same_db_def)
      ultimately show ?thesis using s'(3) by blast
    qed
  qed
qed

section \<open>The loop of \<open>next\<close>\<close>

lemma next_lands:
  assumes r: "rail key fs LRoot 0 ts" and fh: "frames_hold T (heap s) fs (tree_link c)" and c: "holds T (heap s) c"
    and t: "t = plug fs c" "wf_tree t" "root s = tree_link t"
    and s: "stack s = ts @ [tr]" "on_tree (end_loc LRoot fs) (end_pos 0 fs) c tr" "end_pos 0 fs \<le> length key"
      "take (end_pos 0 fs) (current_key s) = take (end_pos 0 fs) key" "child_done tr c (take (end_pos 0 fs) key) (current_key s)"
  shows "\<exists>s'. step_loop next_tr (Suc (length ts)) s = Some s' \<and> same_db s s' \<and> rest_key s' = rest_key s
    \<and> (stack s' = [] \<or> cursor_at T t s' \<and> is_valid s')"
  using assms
proof (induction fs arbitrary: ts c s tr rule: rev_induct)
  case Nil
  let ?P = "take (end_pos 0 []) key"
  have ts: "ts = []" using Nil.prems(1) by simp
  have rd: "read_loc s (end_loc LRoot []) = Some (tree_link c)" using Nil.prems(4,6) by simp
  have P: "length ?P = end_pos 0 []" "take (length ?P) (current_key s) = ?P" by simp_all
  have wc: "wf_tree c" using Nil.prems(4,5) by simp
  have on: "on_tree (end_loc LRoot []) (length ?P) c tr" using Nil.prems(8) by simp
  from next_any[OF Nil.prems(7) on rd Nil.prems(3) wc P(2) Nil.prems(11)] consider
    (yes) s' trs B e R where "next_tr s = Some (True, s')" "moved s s' (ts @ trs) (fst e)" "at_entry c (end_loc LRoot []) ?P trs B e R" |
    (no) s' where "next_tr s = Some (False, s')" "given_up s s' ts ?P" by blast
  then show ?case
  proof cases
    case yes
    have ht: "holds T (heap s') t" using Nil.prems(3,4) yes(2) by (simp add: moved_def same_db_def)
    have rt: "root s' = tree_link t" using Nil.prems(6) yes(2) by (simp add: moved_def same_db_def)
    have st: "stack s' = ts @ trs" "current_key s' = fst e" using yes(2) by (simp_all add: moved_def)
    have "cursor_at T t s' \<and> is_valid s'"
      by (rule entry_lands[OF Nil.prems(1) _ Nil.prems(4,5) ht rt st(1) yes(3) _ st(2)]) simp_all
    then show ?thesis using loop_True[of next_tr, OF yes(1)] yes(2) by (auto simp: moved_def)
  next
    case no
    have "stack (pop s') = []" "same_db s' (pop s')" "rest_key (pop s') = rest_key s'"
      using no(2) ts by (auto simp: given_up_def pop_def clear_stack_def resize_key_def same_db_def top_idx_def)
    then show ?thesis using loop_False[of next_tr, OF no(1)] no(2) ts by (auto simp: given_up_def same_db_def)
  qed
next
  case (snoc f fs)
  let ?gs = "fs @ [f]"
  let ?P = "take (end_pos 0 ?gs) key" and ?c = "plug [f] c"
  obtain us tf where u: "ts = us @ [tf]" "rail key fs LRoot 0 us" "on_frame key f (end_loc LRoot fs) (end_pos 0 fs) tf"
    using snoc.prems(1) by (auto simp: rail_snoc)
  have fi: "f_idx f < length (f_children f)" using snoc.prems(2) by (simp add: frame_at_def)
  have ix: "\<forall>g\<in>set ?gs. f_idx g < length (f_children g)" using frames_idx[OF snoc.prems(2)] .
  have ht: "holds T (heap s) t" unfolding snoc.prems(4) by (rule holds_plug[OF snoc.prems(2,3)])
  have hc: "holds T (heap s) ?c" by (rule holds_plug) (use snoc.prems(2,3) in simp_all)
  have "read_loc s (LSlot (f_addr f) (f_idx f)) = Some (tree_link ((f_children f)[f_idx f := c] ! f_idx f))"
    by (rule read_slot[OF hc[unfolded plug.simps]]) (use fi in simp)
  then have rd: "read_loc s (end_loc LRoot ?gs) = Some (tree_link c)" using fi by simp
  have P: "length ?P = end_pos 0 ?gs" "take (length ?P) (current_key s) = ?P" using snoc.prems(9,10) by simp_all
  have tc: "t = plug fs ?c" using snoc.prems(4) by simp
  have wc: "wf_tree c" using snoc.prems(4,5) ix wf_plug_end[of ?gs c] by simp
  have wfc: "wf_tree ?c" using snoc.prems(5) ix wf_plug_end[of fs ?c] unfolding tc by simp
  have on: "on_tree (end_loc LRoot ?gs) (length ?P) c tr" using snoc.prems(8) P(1) by simp
  from next_any[OF snoc.prems(7) on rd snoc.prems(3) wc P(2) snoc.prems(11)] consider
    (yes) s' trs B e R where "next_tr s = Some (True, s')" "moved s s' (ts @ trs) (fst e)" "at_entry c (end_loc LRoot ?gs) ?P trs B e R" |
    (no) s' where "next_tr s = Some (False, s')" "given_up s s' ts ?P" by blast
  then show ?case
  proof cases
    case yes
    have ht': "holds T (heap s') t" using ht yes(2) by (simp add: moved_def same_db_def)
    have rt: "root s' = tree_link t" using snoc.prems(6) yes(2) by (simp add: moved_def same_db_def)
    have st: "stack s' = ts @ trs" "current_key s' = fst e" using yes(2) by (simp_all add: moved_def)
    have "cursor_at T t s' \<and> is_valid s'"
      by (rule entry_lands[OF snoc.prems(1) ix snoc.prems(4,5) ht' rt st(1) yes(3) snoc.prems(9) st(2)])
    then show ?thesis using loop_True[of next_tr, OF yes(1)] yes(2) by (auto simp: moved_def)
  next
    case no
    obtain tr' where g: "same_db s s'" "rest_key s' = rest_key s" "stack s' = ts @ [tr']" "t_keypos tr' = length ?P"
      "take (length ?P) (current_key s') = ?P" using no(2) by (auto simp: given_up_def)
    have pm: "moved s' (pop s') ts ?P" by (rule pop_moved[OF g(3,4,5)])
    then have p: "same_db s (pop s')" "rest_key (pop s') = rest_key s" "stack (pop s') = us @ [tf]" "current_key (pop s') = ?P"
      using g(1,2) u(1) by (simp_all add: moved_def same_db_def)
    have "take (length (f_prefix f)) (drop (end_pos 0 fs) key) = f_prefix f"
      using u(3) by (auto simp: on_frame_def Sublist.prefix_def)
    moreover have "end_pos 0 ?gs = end_pos 0 fs + length (f_prefix f)" by simp
    ultimately have Pf: "?P = take (end_pos 0 fs) key @ f_prefix f" by (simp only: take_add)
    have "\<exists>s2. step_loop next_tr (Suc (length us)) (pop s') = Some s2 \<and> same_db (pop s') s2 \<and> rest_key s2 = rest_key (pop s')
      \<and> (stack s2 = [] \<or> cursor_at T t s2 \<and> is_valid s2)"
    proof (rule snoc.IH[OF u(2) _ _ tc snoc.prems(5) _ p(3)])
      show "frames_hold T (heap (pop s')) fs (tree_link ?c)" using snoc.prems(2) p(1) by (simp add: same_db_def)
      show "holds T (heap (pop s')) ?c" using hc p(1) by (simp add: same_db_def)
      show "root (pop s') = tree_link t" using snoc.prems(6) p(1) by (simp add: same_db_def)
      show "on_tree (end_loc LRoot fs) (end_pos 0 fs) ?c tf" using u(3) by (simp add: on_frame_def on_tree_def)
      show "end_pos 0 fs \<le> length key" using snoc.prems(9) by simp
      show "take (end_pos 0 fs) (current_key (pop s')) = take (end_pos 0 fs) key" unfolding p(4) by simp
      show "child_done tf ?c (take (end_pos 0 fs) key) (current_key (pop s'))"
        unfolding p(4) Pf using u(3) fi by (simp add: child_done_def on_frame_def)
    qed
    then show ?thesis using loop_False[of next_tr, OF no(1)] u(1) p(1,2) by (auto simp: same_db_def)
  qed
qed

end
