(* ===== verification/Leaves_Remove.thy ===== *)
theory Leaves_Remove
  imports Leaves_Write Leaves_Shrink Leaves_Land Leaves_Deleter
begin

text \<open>
  The correctness of removing: the subtree that replaces a shrunk or merged node is put at the end of the
  path, the pages that are no longer used are freed, and the cursor moves on.
\<close>

section \<open>A subtree at the end of the path\<close>

definition settled ::
  "traits \<Rightarrow> (nat \<Rightarrow> 'm \<Rightarrow> nat set \<Rightarrow> bool) \<Rightarrow> bytes \<Rightarrow> nat \<Rightarrow> frame list \<Rightarrow> atree \<Rightarrow> nat set \<Rightarrow> ('m, 'z) cursor_scheme \<Rightarrow> bool" where
  "settled T live key n fs c L s \<longleftrightarrow> on_path T key fs (tree_link c) L s \<and> holds T (heap s) c \<and> owns T live n L s \<and> distinct (addrs c)
     \<and> set (addrs c) \<subseteq> L - (set (nodes fs) \<union> set (sibs fs)) \<and> length (stack s) = Suc (length fs)
     \<and> on_tree (end_loc LRoot fs) (end_pos 0 fs) c (stack s ! length fs)"

definition tree_pages :: "frame list \<Rightarrow> atree \<Rightarrow> nat set" where
  "tree_pages fs c = set (nodes fs) \<union> set (sibs fs) \<union> set (addrs c)"

lemma settledD:
  assumes "settled T live key n fs c L s"
  shows "on_path T key fs (tree_link c) L s" "holds T (heap s) c" "owns T live n L s" "distinct (addrs c)"
    "set (addrs c) \<subseteq> L" "set (addrs c) \<inter> (set (nodes fs) \<union> set (sibs fs)) = {}" "length (stack s) = Suc (length fs)"
    "on_tree (end_loc LRoot fs) (end_pos 0 fs) c (stack s ! length fs)" "set (nodes fs) \<union> set (sibs fs) \<subseteq> L" "tree_pages fs c \<subseteq> L"
  using assms unfolding settled_def on_path_def tree_pages_def by blast+

text \<open>What the settled state means for the whole trie.\<close>

lemma settled_tree:
  assumes "settled T live key n fs c L s"
  shows "holds T (heap s) (plug fs c)" "root s = tree_link (plug fs c)" "db_owned T live n L (Some (plug fs c)) s"
    "set (addrs (plug fs c)) = tree_pages fs c"
proof -
  note S = settledD[OF assms]
  have f: "frames_hold T (heap s) fs (tree_link c)" "separate_path fs" "root s = path_link fs (tree_link c)" using S(1) by (simp_all add: on_path_def)
  show "holds T (heap s) (plug fs c)" by (rule holds_plug[OF f(1) S(2)])
  show "root s = tree_link (plug fs c)" using f(3) by (simp add: tree_link_plug)
  note d = distinct_plug[OF frames_idx[OF f(1)], of c]
  show "set (addrs (plug fs c)) = tree_pages fs c" using d(2) by (simp add: tree_pages_def)
  then show "db_owned T live n L (Some (plug fs c)) s" using d(1) f(2) S(3,4,6,10) by (auto simp: db_owned_def)
qed

lemma settled_upd:
  assumes "settled T live key n fs c L s" "length fs = d" "\<And>tr. t_offset (u tr) = t_offset tr \<and> t_keypos (u tr) = t_keypos tr \<and> t_node (u tr) = t_node tr"
  shows "settled T live key n fs c L (upd_tr d u s)"
proof -
  note S = settledD[OF assms(1)]
  have "on_path T key fs (tree_link c) L (upd_tr d u s)"
    by (rule on_path_heap[OF S(1) _ _ _ _ S(9)]) (use assms(2) in simp_all)
  then show ?thesis using assms S(2-8) by (auto simp: settled_def on_tree_def)
qed

lemma settled_key: "settled T live key n fs c L s \<Longrightarrow> settled T live key n fs c L (s\<lparr>current_key := k\<rparr>)"
  by (auto simp: settled_def on_path_def owns_def)

context page_allocator
begin

lemma settled_free:
  assumes "settled T live key (Suc n) fs c L s" "a \<in> L - tree_pages fs c"
  shows "\<exists>s'. free_node Ops a s = Some s' \<and> settled T live key n fs c (L - {a}) s' \<and> heap s' = heap s \<and> stack s' = stack s \<and> keys_kept s s'"
proof -
  note S = settledD[OF assms(1)]
  obtain s' where s': "free_node Ops a s = Some s'" "owns T live n (L - {a}) s'" "heap s' = heap s" "root s' = root s" "stack s' = stack s" "keys_kept s s'"
    using free_node_ok[OF S(3)] assms(2) by blast
  have sub: "set (nodes fs) \<union> set (sibs fs) \<subseteq> L - {a}" "set (addrs c) \<subseteq> L - {a}" using S(10) assms(2) unfolding tree_pages_def by blast+
  have "on_path T key fs (tree_link c) (L - {a}) s'" by (rule on_path_heap[OF S(1) _ _ _ _ sub(1)]) (use s' in simp_all)
  then have "settled T live key n fs c (L - {a}) s'" using S(2,4,6,7,8) s' sub unfolding settled_def by auto
  then show ?thesis using s' by blast
qed

text \<open>The link at the end of the path is set to the root of a subtree that was written before.\<close>

lemma settle_ok:
  assumes on: "on_path T key fs lk L s" and ow: "owns T live (n + 2 * length fs) L s" and c: "holds T (heap s) c" "distinct (addrs c)"
      "set (addrs c) \<subseteq> L - (set (nodes fs) \<union> set (sibs fs))"
    and st: "length (stack s) = Suc d" "length fs = d" "on_tree (end_loc LRoot fs) (end_pos 0 fs) c (stack s ! d)"
  shows "\<exists>s' gs L'. update_offset Ops d (tree_link c) s = Some s' \<and> same_frames fs gs \<and> settled T live key n gs c L' s' \<and> keys_kept s s'
    \<and> stack s' ! d = (stack s ! d)\<lparr>t_offset := end_loc LRoot gs\<rparr>
    \<and> L - set (nodes fs) \<subseteq> L' \<and> unchanged (L - set (nodes fs)) s s' \<and> set (nodes gs) \<inter> (L - set (nodes fs)) = {}"
proof -
  have d: "d < length (stack s)" "t_offset (stack s ! d) = end_loc LRoot fs" using st by (simp_all add: on_tree_def)
  obtain s' gs L' where u: "update_offset Ops d (tree_link c) s = Some s'" "same_frames fs gs" "on_path T key gs (tree_link c) L' s'" "owns T live n L' s'"
    "keys_kept s s'" "stack s' = take d (stack s') @ (stack s ! d)\<lparr>t_offset := end_loc LRoot gs\<rparr> # drop (Suc d) (stack s)"
    "L - set (nodes fs) \<subseteq> L'" "unchanged (L - set (nodes fs)) s s'" "set (nodes gs) \<inter> (L - set (nodes fs)) = {}"
    using update_offset_ok[OF on ow st(2) d, of "tree_link c"] by blast
  have lg: "length gs = d" using same_frames_length[OF u(2)] st(2) by simp
  have dl: "d \<le> length (stack s')" using u(3) lg by (simp add: on_path_def)
  have e: "stack s' = take d (stack s') @ [(stack s ! d)\<lparr>t_offset := end_loc LRoot gs\<rparr>]" using u(6) st(1) by simp
  have lt: "last (stack s') = (stack s ! d)\<lparr>t_offset := end_loc LRoot gs\<rparr>" "length (stack s') = Suc d"
    using take_snoc_last[OF e dl] by blast+
  have "stack s' \<noteq> []" using lt(2) by auto
  then have top: "stack s' ! d = (stack s ! d)\<lparr>t_offset := end_loc LRoot gs\<rparr>" using lt by (simp add: last_conv_nth)
  have al: "set (addrs c) \<subseteq> L - set (nodes fs)" using c(3) by blast
  have "holds T (heap s') c" by (rule holds_cong[OF c(1)]) (use al u(8) in \<open>auto simp: unchanged_def\<close>)
  moreover have "set (addrs c) \<subseteq> L' - (set (nodes gs) \<union> set (sibs gs))"
    unfolding same_frames_sibs[OF u(2)] using al u(7,9) c(3) by blast
  moreover have "on_tree (end_loc LRoot gs) (end_pos 0 gs) c (stack s' ! length gs)"
    unfolding lg top same_frames_pos[OF u(2)] using st(3) by (simp add: on_tree_def)
  ultimately have "settled T live key n gs c L' s'" using u(3,4) c(2) lt(2) lg by (simp add: settled_def)
  then show ?thesis using u top by blast
qed

end

section \<open>Moving on\<close>

lemma settled_next:
  assumes "settled T live key n fs c L s" "wf_tree (plug fs c)" "end_pos 0 fs \<le> length key"
    and "take (end_pos 0 fs) (current_key s) = take (end_pos 0 fs) key" "t_cmp (stack s ! length fs) \<noteq> 0" "t_prefix (stack s ! length fs) \<le> length (label c)"
  shows "\<exists>s'. cursor_next s = Some s' \<and> same_db s s' \<and> cursor_at T (plug fs c) s' \<and> (stack s' = [] \<or> is_valid s')"
proof -
  note S = settledD[OF assms(1)]
  let ?s = "s\<lparr>rest_key := []\<rparr>"
  obtain ts tr where st: "stack s = ts @ [tr]" using S(7) by (metis length_Suc_conv_rev)
  have l: "length ts = length fs" "stack s ! length fs = tr" using S(7) st by (simp_all, metis nth_append_length length_append_singleton S(7) nat.inject)
  have r: "rail key fs LRoot 0 ts" using S(1) st l by (simp add: on_path_def)
  have fh: "frames_hold T (heap ?s) fs (tree_link c)" using S(1) by (simp add: on_path_def)
  have "child_done tr c (take (end_pos 0 fs) key) (current_key ?s)" using assms(5,6) l(2) by (auto simp: child_done_def)
  from next_lands[OF r fh _ refl assms(2) _ _ _ assms(3) _ this] obtain s' where s': "step_loop next_tr (Suc (length ts)) ?s = Some s'" "same_db ?s s'"
    "stack s' = [] \<or> cursor_at T (plug fs c) s' \<and> is_valid s'"
    using S(2,8) settled_tree(2)[OF assms(1)] st l assms(4) by auto
  have "cursor_next s = Some s'" using s'(1) st by (simp add: cursor_next_def)
  moreover have "same_db s s'" using s'(2) by (simp add: same_db_def)
  moreover then have "stack s' = [] \<Longrightarrow> cursor_at T (plug fs c) s'"
    using settled_tree(1,2)[OF assms(1)] assms(2) by (simp add: cursor_at_def same_db_def)
  ultimately show ?thesis using s'(3) by blast
qed

lemma settled_first:
  assumes "settled T live key n fs c L s" "wf_tree (plug fs c)" "end_pos 0 fs \<le> length key"
    and "current_key s = take (end_pos 0 fs) key"
  shows "\<exists>s'. first_tr s = Some s' \<and> same_db s s' \<and> cursor_at T (plug fs c) s' \<and> (stack s' = [] \<or> is_valid s')"
proof -
  note S = settledD[OF assms(1)]
  obtain ts tr where st: "stack s = ts @ [tr]" using S(7) by (metis length_Suc_conv_rev)
  have l: "length ts = length fs" using S(7) st by simp
  have tr: "stack s ! length fs = tr" unfolding l[symmetric] st by simp
  have r: "rail key fs LRoot 0 ts" using S(1) st l by (simp add: on_path_def)
  have fh: "frames_hold T (heap s) fs (tree_link c)" using S(1) by (simp add: on_path_def)
  let ?P = "take (end_pos 0 fs) key"
  have P: "length ?P = end_pos 0 fs" using assms(3) by simp
  have rd: "read_loc s (end_loc LRoot fs) = Some (tree_link c)" using read_path_end[OF S(1)] .
  have on: "on_tree (end_loc LRoot fs) (length ?P) c tr" using S(8) tr P by simp
  have ix: "\<forall>f\<in>set fs. f_idx f < length (f_children f)" using frames_idx[OF fh] .
  have wc: "wf_tree c" using wf_plug_end[OF assms(2) ix] .
  obtain s' trs e R where s': "first_tr s = Some s'" "moved s s' (ts @ trs) (fst e)" "at_entry c (end_loc LRoot fs) ?P trs [] e R"
    using first_tr_entry[OF st on rd S(2) wc assms(4)] by blast
  have d: "same_db s s'" "stack s' = ts @ trs" "current_key s' = fst e" using s'(2) by (simp_all add: moved_def)
  have "holds T (heap s') (plug fs c)" "root s' = tree_link (plug fs c)" using settled_tree(1,2)[OF assms(1)] d(1) by (simp_all add: same_db_def)
  from entry_lands[OF r ix refl assms(2) this d(2) s'(3) assms(3) d(3)] show ?thesis using s'(1) d(1) by blast
qed

section \<open>Before and after\<close>

text \<open>
  \<open>popped\<close>: the transition of the subtree \<open>c\<close>, which holds just the key that is removed, was popped; \<open>f\<close> is
  the node above it. \<open>removed\<close>: the key is gone, the cursor is on an entry or outside, and the
  pages \<open>X\<close> are in use outside the trie.
\<close>

definition popped ::
  "traits \<Rightarrow> (nat \<Rightarrow> 'm \<Rightarrow> nat set \<Rightarrow> bool) \<Rightarrow> bytes \<Rightarrow> frame list \<Rightarrow> frame \<Rightarrow> atree \<Rightarrow> nat \<Rightarrow> nat set \<Rightarrow> ('m, 'z) cursor_scheme \<Rightarrow> bool" where
  "popped T live key fs f c n L s \<longleftrightarrow> (\<exists>lk. on_path T key (fs @ [f]) lk L s) \<and> owns T live n L s \<and> length (stack s) = Suc (length fs)
     \<and> current_key s = take (end_pos 0 (fs @ [f])) key \<and> end_pos 0 (fs @ [f]) \<le> length key \<and> wf_tree (plug (fs @ [f]) c)
     \<and> (\<exists>v. lookup c = [drop (end_pos 0 (fs @ [f])) key \<mapsto> v])"

definition pages_of :: "atree option \<Rightarrow> nat set" where
  "pages_of ot = (case ot of None \<Rightarrow> {} | Some t \<Rightarrow> set (addrs t))"

definition removed ::
  "traits \<Rightarrow> (nat \<Rightarrow> 'm \<Rightarrow> nat set \<Rightarrow> bool) \<Rightarrow> bytes \<Rightarrow> nat \<Rightarrow> nat set \<Rightarrow> (bytes \<rightharpoonup> bool \<times> bytes) \<Rightarrow> ('m, 'z) cursor_scheme \<Rightarrow> bool" where
  "removed T live key n X M s \<longleftrightarrow> (\<exists>ot L. cursor_on T ot s \<and> (stack s = [] \<or> is_valid s) \<and> (ot = None \<longrightarrow> current_key s = [])
     \<and> map_of (db_entries ot) = M(key := None) \<and> db_owned T live n L ot s \<and> X \<subseteq> L \<and> X \<inter> pages_of ot = {})"

lemma poppedD:
  assumes "popped T live key fs f c n L s"
  shows "on_path T key fs (Link TRIE (f_addr f)) L s" "owns T live n L s" "on_frame key f (end_loc LRoot fs) (end_pos 0 fs) (stack s ! length fs)"
    "top_idx s = length fs" "length (stack s) = Suc (length fs)" "current_key s = take (end_pos 0 (fs @ [f])) key" "wf_tree (plug [f] c)"
    "f_idx f < length (f_children f)" "f_addr f \<in> L" "f_addr f \<notin> set (nodes fs) \<union> set (sibs fs)" "set (sibs [f]) \<subseteq> L" "f_addr f \<notin> set (sibs [f])"
    "set (sibs [f]) \<inter> (set (nodes fs) \<union> set (sibs fs)) = {}" "distinct (sibs [f])" "end_pos 0 fs \<le> length key"
    "\<forall>x\<in>set (siblings f). holds T (heap s) x"
proof -
  obtain lk where on: "on_path T key (fs @ [f]) lk L s" using assms by (auto simp: popped_def)
  note P = on[unfolded on_path_def]
  have ix: "\<forall>g\<in>set (fs @ [f]). f_idx g < length (f_children g)" using P frames_idx by blast
  show "owns T live n L s" "length (stack s) = Suc (length fs)" "current_key s = take (end_pos 0 (fs @ [f])) key"
    using assms by (simp_all add: popped_def)
  then show "top_idx s = length fs" by (simp add: top_idx_def)
  show "on_frame key f (end_loc LRoot fs) (end_pos 0 fs) (stack s ! length fs)" by (rule on_path_top[OF on])
  show "f_idx f < length (f_children f)" using ix by simp
  have "wf_tree (plug fs (plug [f] c))" using assms by (simp add: popped_def)
  from wf_plug_end[OF this] ix show "wf_tree (plug [f] c)" by simp
  have "separate_path (fs @ [f])" "set (nodes (fs @ [f])) \<union> set (sibs (fs @ [f])) \<subseteq> L" using P by blast+
  then show "f_addr f \<in> L" "f_addr f \<notin> set (nodes fs) \<union> set (sibs fs)" "set (sibs [f]) \<subseteq> L" "f_addr f \<notin> set (sibs [f])"
    "set (sibs [f]) \<inter> (set (nodes fs) \<union> set (sibs fs)) = {}" "distinct (sibs [f])" by (auto simp: separate_path_def)
  show "end_pos 0 fs \<le> length key" using assms by (simp add: popped_def)
  show "\<forall>x\<in>set (siblings f). holds T (heap s) x" using P by (simp add: frame_at_def)
  show "on_path T key fs (Link TRIE (f_addr f)) L s"
    using P rail_take_snoc[of "length fs" "stack s" fs key f LRoot 0] frames_snoc_notin(2)[of fs f] by (auto simp: on_path_def)
qed

lemma popped_node:
  assumes "popped T live key fs f c n L s"
  shows "\<exists>m lk. trie_at s (f_addr f) = Some m \<and> wf_node T m \<and> compressed m = f_prefix f \<and> node_keys m = f_keys f \<and> node_count m = length (f_children f)
    \<and> array m = (map tree_link (f_children f))[f_idx f := lk] \<and> unat (compressed_len m) = length (f_prefix f)"
proof -
  obtain lk where "on_path T key (fs @ [f]) lk L s" using assms by (auto simp: popped_def)
  then have "frame_at T (heap s) f lk" by (simp add: on_path_def)
  then obtain pg m where m: "heap s (f_addr f) = Some pg" "body pg = TrieN m" "wf_node T m" "compressed m = f_prefix f" "node_keys m = f_keys f"
    "array m = (map tree_link (f_children f))[f_idx f := lk]" unfolding frame_at_def by blast
  have "node_count m = length (array m)" using m(3) node_count_array by (simp add: wf_node_def wf_bitmaps_def)
  moreover have "unat (compressed_len m) = length (compressed m)" using m(3) by (simp add: wf_node_def wf_layout_def)
  ultimately show ?thesis using m by (intro exI[of _ m] exI[of _ lk]) (simp add: trie_at_def)
qed

text \<open>The rest of the removed key below the node.\<close>

lemma popped_rest:
  assumes "popped T live key fs f c n L s"
  defines "r \<equiv> drop (end_pos 0 (fs @ [f])) key"
  shows "\<exists>v. lookup c = [r \<mapsto> v]" "key_branch r = f_keys f ! f_idx f" "drop (end_pos 0 fs) key = f_prefix f @ r"
    "r \<noteq> [] \<Longrightarrow> uint (t_branch_key (stack s ! length fs)) = f_keys f ! f_idx f" "r = [] \<Longrightarrow> f_keys f ! f_idx f = NONE"
proof -
  have o: "on_frame key f (end_loc LRoot fs) (end_pos 0 fs) (stack s ! length fs)" by (rule poppedD(3)[OF assms(1)])
  show "\<exists>v. lookup c = [r \<mapsto> v]" using assms by (simp add: popped_def)
  show b: "key_branch r = f_keys f ! f_idx f" using o by (simp add: on_frame_def r_def)
  obtain z where z: "drop (end_pos 0 fs) key = f_prefix f @ z" using o by (auto simp: on_frame_def Sublist.prefix_def)
  have "r = drop (length (f_prefix f)) (drop (end_pos 0 fs) key)" by (simp add: r_def add.commute)
  then have "r = z" unfolding z by simp
  then show "drop (end_pos 0 fs) key = f_prefix f @ r" using z by simp
  show "uint (t_branch_key (stack s ! length fs)) = f_keys f ! f_idx f" if "r \<noteq> []"
  proof -
    have l: "end_pos 0 fs + length (f_prefix f) < length key" using that by (simp add: r_def)
    then have "t_branch_key (stack s ! length fs) = hd r" using o by (simp add: on_frame_def r_def hd_drop_conv_nth)
    then show ?thesis using b that by (cases r) (auto simp: key_branch_def)
  qed
  show "r = [] \<Longrightarrow> f_keys f ! f_idx f = NONE" using b by (simp add: key_branch_def)
qed

lemma shrink_plug:
  assumes "popped T live key fs f c n L s" "same_frames fs gs" "wf_tree c'" "label c' = f_prefix f @ z"
    and "lookup c' = (lookup (plug [f] c))(drop (end_pos 0 fs) key := None)"
  shows "wf_tree (plug gs c') \<and> map_of (entries (plug gs c')) = (map_of (entries (plug (fs @ [f]) c)))(key := None)"
proof -
  have on: "on_path T key fs (Link TRIE (f_addr f)) L s" by (rule poppedD(1)[OF assms(1)])
  have r: "rail key fs LRoot 0 (take (length fs) (stack s))" "\<forall>f\<in>set fs. f_idx f < length (f_children f)"
    using on frames_idx by (auto simp: on_path_def)
  have w: "wf_tree (plug fs (plug [f] c))" using assms(1) by (simp add: popped_def)
  have "branch_ok k c'" if "branch_ok k (plug [f] c)" for k using that assms(4) by (auto simp: branch_ok_def split: if_splits)
  then have "fs = [] \<or> (\<forall>k. branch_ok k (plug [f] c) \<longrightarrow> branch_ok k c')" by blast
  from grow_plug[OF r(1) w r(2) assms(2,3,5) this] show ?thesis by simp
qed

context page_allocator
begin

text \<open>A new subtree, written to a fresh page, takes the place of the node \<open>f\<close>.\<close>

lemma replace_node_ok:
  assumes p: "popped T live key fs f c n0 L s" and ow: "owns T live (n + 2 * length fs) (insert a L) s2"
    and s2: "heap s2 = (heap s)(a \<mapsto> pg)" "root s2 = root s" "stack s2 = stack s" "keys_kept s s2" "a \<notin> L"
    and c: "holds T (heap s2) c'" "distinct (addrs c')" "addr c' = a" "set (addrs c') \<subseteq> insert a (set (sibs [f]))"
  shows "\<exists>s3 gs L3. update_offset Ops (length fs) (tree_link c') (upd_tr (length fs) (\<lambda>tr. tr\<lparr>t_node := a\<rparr>) s2) = Some s3 \<and> same_frames fs gs
    \<and> settled T live key n gs c' L3 s3 \<and> keys_kept s s3 \<and> stack s3 ! length fs = (stack s ! length fs)\<lparr>t_node := a, t_offset := end_loc LRoot gs\<rparr>
    \<and> (\<forall>Y \<subseteq> L - (set (nodes fs) \<union> set (sibs fs) \<union> set (addrs c')). Y \<subseteq> L3 \<and> Y \<inter> tree_pages gs c' = {})"
proof -
  note P = poppedD[OF p]
  let ?s = "upd_tr (length fs) (\<lambda>tr. tr\<lparr>t_node := a\<rparr>) s2"
  have N: "set (nodes fs) \<union> set (sibs fs) \<subseteq> L" using P(1) by (simp add: on_path_def)
  then have "\<forall>x\<in>set (nodes fs) \<union> set (sibs fs). heap ?s x = heap s x" using s2(1,5) by auto
  from on_path_heap[OF P(1) this, of "insert a L"] N have on: "on_path T key fs (Link TRIE (f_addr f)) (insert a L) ?s"
    using s2(2,3) by (simp add: subset_insertI2)
  have sub: "set (addrs c') \<subseteq> insert a L - (set (nodes fs) \<union> set (sibs fs))" using c(4) P(11,13) N s2(5) by blast
  have tr: "length (stack ?s) = Suc (length fs)" "on_tree (end_loc LRoot fs) (end_pos 0 fs) c' (stack ?s ! length fs)"
    using P(3,5) s2(3) c(3) by (simp_all add: on_tree_def on_frame_def)
  have o2: "owns T live (n + 2 * length fs) (insert a L) ?s" using ow by simp
  have c1: "holds T (heap ?s) c'" using c(1) by simp
  obtain s3 gs L3 where u: "update_offset Ops (length fs) (tree_link c') ?s = Some s3" "same_frames fs gs" "settled T live key n gs c' L3 s3"
    "keys_kept ?s s3" "stack s3 ! length fs = (stack ?s ! length fs)\<lparr>t_offset := end_loc LRoot gs\<rparr>"
    "insert a L - set (nodes fs) \<subseteq> L3" "set (nodes gs) \<inter> (insert a L - set (nodes fs)) = {}"
    using settle_ok[OF on o2 c1 c(2) sub tr(1) refl tr(2)] by blast
  have "Y \<subseteq> L3 \<and> Y \<inter> tree_pages gs c' = {}" if "Y \<subseteq> L - (set (nodes fs) \<union> set (sibs fs) \<union> set (addrs c'))" for Y
    using that u(6,7) unfolding tree_pages_def same_frames_sibs[OF u(2)] by blast
  moreover have "keys_kept s s3" using s2(4) u(4) by (simp add: keys_kept_def)
  moreover have "stack s3 ! length fs = (stack s ! length fs)\<lparr>t_node := a, t_offset := end_loc LRoot gs\<rparr>" using u(5) s2(3) P(5) by simp
  ultimately show ?thesis using u(1-3) by blast
qed

text \<open>A state that is settled, in which the cursor has moved on.\<close>

lemma settled_removed:
  assumes "settled T live key n gs c' L s" "same_db s s'" "cursor_at T (plug gs c') s'" "stack s' = [] \<or> is_valid s'"
    and "map_of (entries (plug gs c')) = M(key := None)" "X \<subseteq> L" "X \<inter> tree_pages gs c' = {}"
  shows "removed T live key n X M s'"
proof -
  note t = settled_tree[OF assms(1)]
  have "db_owned T live n L (Some (plug gs c')) s'" using t(3) assms(2) by (simp add: db_owned_def owns_def same_db_def)
  then show ?thesis unfolding removed_def
    using assms(3-7) t(4) by (intro exI[of _ "Some (plug gs c')"] exI[of _ L]) (simp add: cursor_on_def db_entries_def pages_of_def)
qed

section \<open>One branch less\<close>

lemma reduce_ok:
  assumes p: "popped T live key fs f c (Suc (Suc (n + 2 * length fs))) L s" and T: "page_traits T" and two: "2 \<le> length (f_children f)"
    and pfx: "pfx = 0 \<longleftrightarrow> drop (end_pos 0 (fs @ [f])) key = []" and X: "X \<subseteq> L - (set (nodes (fs @ [f])) \<union> set (sibs (fs @ [f])))"
  shows "\<exists>s'. reduce_array T Ops (length fs) pfx s = Some s' \<and> removed T live key n X (map_of (entries (plug (fs @ [f]) c))) s'"
proof -
  note P = poppedD[OF p] and R = popped_rest[OF p]
  have T': "traits_ok T" using T by (simp add: page_traits_def cursor_traits_def)
  let ?i = "f_idx f" and ?ks = "f_keys f" and ?cs = "f_children f" and ?d = "length fs" and ?r = "drop (end_pos 0 (fs @ [f])) key"
  obtain v where v: "lookup c = [?r \<mapsto> v]" using R(1) by blast
  obtain m lk where m: "trie_at s (f_addr f) = Some m" "wf_node T m" "compressed m = f_prefix f" "node_keys m = ?ks"
    "array m = (map tree_link ?cs)[?i := lk]" using popped_node[OF p] by blast
  let ?k = "?ks ! ?i" and ?tr = "stack s ! ?d"
  have br: "(if pfx \<noteq> 0 then uint (t_branch_key ?tr) else NONE) = ?k" using pfx R(4,5) by auto
  note w = wf_plug_frame[of f "[]" c, unfolded plug.simps(1), OF P(7,8)]
  have wl: "length ?ks = length ?cs" "sorted_wrt (<) ?ks" "length (f_prefix f) \<le> 255" using P(7) by simp_all
  have ki: "?i < length ?ks" using P(8) wl(1) by simp
  have kin: "?k \<in> set (node_keys m)" using ki m(4) by simp
  let ?n = "create_remove T m ?k"
  note cr = create_remove_wf[OF T' m(2) kin]
  have "decrement_size T m ?k + PAGE_HEADER_SIZE T \<le> last (PAGE_SIZES T)"
    using node_size_layout(2)[OF T' cr(1)] cr(3) T by (simp add: page_traits_def)
  from alloc_node_ok[OF P(2) T this] obtain a s1 g where a: "alloc_node T Ops (decrement_size T m ?k) s = Some (a, s1)" "a \<noteq> 0" "a \<notin> L"
    "owns T live (Suc (n + 2 * ?d)) (insert a L) s1" "heap s1 = (heap s)(a \<mapsto> g)" "slot_id g < length (PAGE_SIZES T)" "root s1 = root s"
    "stack s1 = stack s" "keys_kept s s1" by blast
  define s2 where "s2 = s1\<lparr>heap := (heap s)(a \<mapsto> g\<lparr>body := TrieN ?n\<rparr>)\<rparr>"
  have p2: "put_trie a ?n s1 = Some s2" using a(5) by (simp add: put_trie_def set_page_def s2_def)
  have ow: "owns T live (Suc n + 2 * ?d) (insert a L) s2"
    using owns_set[OF a(4), of s2 a "g\<lparr>body := TrieN ?n\<rparr>"] a(5,6) by (simp add: s2_def)
  let ?c = "ANode a (f_prefix f) (remove_child ?i ?ks) (siblings f)"
  have st2: "heap s2 = (heap s)(a \<mapsto> g\<lparr>body := TrieN ?n\<rparr>)" "root s2 = root s" "stack s2 = stack s" "keys_kept s s2"
    using a(7-9) by (simp_all add: s2_def keys_kept_def)
  have hc: "holds T (heap s2) x" if "x \<in> set (siblings f)" for x
  proof (rule holds_cong)
    show "holds T (heap s) x" using P(16) that by blast
    fix y assume "y \<in> set (addrs x)"
    then have "y \<in> L" using that P(11) by auto
    then show "heap s2 y = heap s y" using a(3) by (auto simp: s2_def)
  qed
  have "array ?n = map tree_link (siblings f)" "node_keys ?n = remove_child ?i ?ks" "compressed ?n = f_prefix f"
    using cr(2) m(3-5) remove_key_child[OF wl(2) ki] unfolding branch_removed_def siblings_remove by (auto simp: remove_child_def[symmetric])
  then have h: "holds T (heap s2) ?c" using a(2) cr(1) hc st2(1) by simp
  have ad: "distinct (addrs ?c)" "set (addrs ?c) = insert a (set (sibs [f]))" using P(11,14) a(3) by auto
  obtain s3 gs L3 where u: "update_offset Ops ?d (tree_link ?c) (upd_tr ?d (\<lambda>tr. tr\<lparr>t_node := a\<rparr>) s2) = Some s3" "same_frames fs gs"
    "settled T live key (Suc n) gs ?c L3 s3" "keys_kept s s3" "stack s3 ! ?d = ?tr\<lparr>t_node := a, t_offset := end_loc LRoot gs\<rparr>"
    "\<forall>Y \<subseteq> L - (set (nodes fs) \<union> set (sibs fs) \<union> set (addrs ?c)). Y \<subseteq> L3 \<and> Y \<inter> tree_pages gs ?c = {}"
    using replace_node_ok[OF p ow st2 a(3) h ad(1)] ad(2) by auto
  have Y: "insert (f_addr f) X \<subseteq> L - (set (nodes fs) \<union> set (sibs fs) \<union> set (addrs ?c))"
    unfolding ad(2) using P(9,10,12) X a(3) by auto
  have Y3: "insert (f_addr f) X \<subseteq> L3" "insert (f_addr f) X \<inter> tree_pages gs ?c = {}" using u(6) Y by blast+
  have "f_addr f \<in> L3 - tree_pages gs ?c" using Y3 by blast
  from settled_free[OF u(3) this] obtain s4 where s4: "free_node Ops (f_addr f) s3 = Some s4" "settled T live key n gs ?c (L3 - {f_addr f}) s4"
    "stack s4 = stack s3" "keys_kept s3 s4" by blast
  have lg: "length gs = ?d" "end_pos 0 gs = end_pos 0 fs" using same_frames_length[OF u(2)] same_frames_pos[OF u(2)] by simp_all
  let ?u = "\<lambda>tr. tr\<lparr>t_cmp := -1, t_prefix := (if pfx = 0 then 0 else t_prefix tr)\<rparr>"
  let ?s5 = "upd_tr ?d ?u s4"
  have s5: "settled T live key n gs ?c (L3 - {f_addr f}) ?s5" by (rule settled_upd[OF s4(2) lg(1)]) simp
  have l4: "?d < length (stack s4)" using settledD(7)[OF s4(2)] lg(1) by simp
  have top: "t_cmp (stack ?s5 ! length gs) \<noteq> 0" "t_prefix (stack ?s5 ! length gs) \<le> length (label ?c)"
    using l4 lg(1) s4(3) u(5) P(3) by (simp_all add: on_frame_def)
  have ck: "take (end_pos 0 gs) (current_key ?s5) = take (end_pos 0 gs) key"
    using P(6) u(4) s4(4) lg(2) by (simp add: keys_kept_def)
  have "wf_tree ?c" "lookup ?c = (lookup (plug [f] c))(drop (end_pos 0 fs) key := None)"
    using shrink_node[of "f_addr f" "f_prefix f" ?ks "?cs[?i := c]" ?i ?r v a] P(7,8) v R(2,3) two by (simp_all add: siblings_remove del: lookup.simps)
  from shrink_plug[OF p u(2) this(1) _ this(2), of "[]"] have w5: "wf_tree (plug gs ?c)"
    "map_of (entries (plug gs ?c)) = (map_of (entries (plug (fs @ [f]) c)))(key := None)" by simp_all
  obtain s6 where s6: "cursor_next ?s5 = Some s6" "same_db ?s5 s6" "cursor_at T (plug gs ?c) s6" "stack s6 = [] \<or> is_valid s6"
    using settled_next[OF s5 w5(1) _ ck top] P(15) lg(2) by auto
  have "X \<subseteq> L3 - {f_addr f}" "X \<inter> tree_pages gs ?c = {}" using Y3 X by auto
  from settled_removed[OF s5 s6(2-4) w5(2) this] have "removed T live key n X (map_of (entries (plug (fs @ [f]) c))) s6" .
  moreover have "t_node ?tr = f_addr f" using P(3) by (simp add: on_frame_def)
  then have "reduce_array T Ops ?d pfx s = Some s6"
    using m(1) br a(1) p2 u(1) s4(1) s6(1) unfolding reduce_array_def Let_def by simp
  ultimately show ?thesis by blast
qed

section \<open>The last child takes over the prefix\<close>

lemma combine_finish:
  assumes p: "popped T live key fs f c n0 L s" and gs: "same_frames fs gs" and s3: "settled T live key (Suc (Suc n)) gs c' L3 s3" "keys_kept s s3"
      "stack s3 ! length fs = (stack s ! length fs)\<lparr>t_node := a, t_offset := l\<rparr>"
    and Y: "{b, f_addr f} \<union> X \<subseteq> L3" "({b, f_addr f} \<union> X) \<inter> tree_pages gs c' = {}" "b \<noteq> f_addr f" "b \<notin> X" "f_addr f \<notin> X"
    and w: "wf_tree (plug gs c')" "map_of (entries (plug gs c')) = M(key := None)" "label c' = f_prefix f @ z"
  shows "\<exists>s4 s5 s6. free_node Ops b s3 = Some s4 \<and> free_node Ops (f_addr f) (upd_tr (length fs) (\<lambda>tr. tr\<lparr>t_cmp := 1\<rparr>) s4) = Some s5
    \<and> (if go then cursor_next s5 else first_tr (resize_key (t_keypos (stack s ! length fs)) s5)) = Some s6 \<and> removed T live key n X M s6"
proof -
  note P = poppedD[OF p]
  let ?d = "length fs" and ?old = "f_addr f"
  have lg: "length gs = ?d" "end_pos 0 gs = end_pos 0 fs" using same_frames_length[OF gs] same_frames_pos[OF gs] by simp_all
  have "b \<in> L3 - tree_pages gs c'" using Y(1,2) by blast
  from settled_free[OF s3(1) this] obtain s4 where s4: "free_node Ops b s3 = Some s4" "settled T live key (Suc n) gs c' (L3 - {b}) s4"
    "stack s4 = stack s3" "keys_kept s3 s4" by blast
  let ?s4 = "upd_tr ?d (\<lambda>tr. tr\<lparr>t_cmp := 1\<rparr>) s4"
  have u4: "settled T live key (Suc n) gs c' (L3 - {b}) ?s4" by (rule settled_upd[OF s4(2) lg(1)]) simp
  have "?old \<in> (L3 - {b}) - tree_pages gs c'" using Y(1-3) by blast
  from settled_free[OF u4 this] obtain s5 where s5: "free_node Ops ?old ?s4 = Some s5" "settled T live key n gs c' (L3 - {b} - {?old}) s5"
    "stack s5 = stack ?s4" "keys_kept ?s4 s5" by blast
  have X: "X \<subseteq> L3 - {b} - {?old}" "X \<inter> tree_pages gs c' = {}" using Y by blast+
  have ck: "current_key s5 = current_key s" using s3(2) s4(4) s5(4) by (simp add: keys_kept_def)
  have ek: "end_pos 0 gs \<le> length key" using P(15) lg(2) by simp
  have l4: "?d < length (stack s4)" using settledD(7)[OF s4(2)] lg(1) by simp
  have "\<exists>s6. (if go then cursor_next s5 else first_tr (resize_key (t_keypos (stack s ! ?d)) s5)) = Some s6 \<and> removed T live key n X M s6"
  proof (cases go)
    case True
    have top: "t_cmp (stack s5 ! length gs) \<noteq> 0" "t_prefix (stack s5 ! length gs) \<le> length (label c')"
      using l4 lg(1) s5(3) s4(3) s3(3) P(3) w(3) by (simp_all add: on_frame_def)
    have ck': "take (end_pos 0 gs) (current_key s5) = take (end_pos 0 gs) key" using ck P(6) lg(2) by simp
    from settled_next[OF s5(2) w(1) ek ck' top] obtain s6 where s6: "cursor_next s5 = Some s6" "same_db s5 s6"
      "cursor_at T (plug gs c') s6" "stack s6 = [] \<or> is_valid s6" by blast
    from settled_removed[OF s5(2) s6(2-4) w(2) X] show ?thesis using s6(1) True by simp
  next
    case False
    let ?s5 = "s5\<lparr>current_key := take (end_pos 0 gs) key\<rparr>"
    have "t_keypos (stack s ! ?d) = end_pos 0 fs" using P(3) by (simp add: on_frame_def)
    moreover have "take (end_pos 0 fs) (current_key s @ replicate (end_pos 0 fs) 0) = take (end_pos 0 fs) key"
      using P(6) ek lg(2) by (simp add: min_def)
    ultimately have rk: "resize_key (t_keypos (stack s ! ?d)) s5 = ?s5" using ck lg(2) by (simp add: resize_key_def)
    have k5: "settled T live key n gs c' (L3 - {b} - {?old}) ?s5" by (rule settled_key[OF s5(2)])
    obtain s6 where s6: "first_tr ?s5 = Some s6" "same_db ?s5 s6" "cursor_at T (plug gs c') s6" "stack s6 = [] \<or> is_valid s6"
      using settled_first[OF k5 w(1) ek] by auto
    from settled_removed[OF k5 s6(2-4) w(2) X] show ?thesis using s6(1) rk False by simp
  qed
  then show ?thesis using s4(1) s5(1) by blast
qed

lemma two_children:
  assumes "length (f_children f) = 2" "f_idx f < 2"
  shows "\<exists>y. siblings f = [y] \<and> ((map tree_link (f_children f))[f_idx f := lk]) ! (if f_idx f \<noteq> 0 then 0 else 1) = tree_link y"
proof -
  obtain x y where xy: "f_children f = [x, y]" using assms(1) by (auto simp: numeral_2_eq_2 length_Suc_conv)
  have "f_idx f = 0 \<or> f_idx f = 1" using assms(2) by auto
  then show ?thesis using xy by (auto simp: siblings_def)
qed

lemma merge_plug:
  assumes p: "popped T live key fs f c n L s" and gs: "same_frames fs gs" and y: "siblings f = [y]" "length (f_prefix f) + length (label y) \<le> 255"
  shows "wf_tree (plug gs (prepend a (f_prefix f) y))"
    "map_of (entries (plug gs (prepend a (f_prefix f) y))) = (map_of (entries (plug (fs @ [f]) c)))(key := None)"
proof -
  note P = poppedD[OF p] and R = popped_rest[OF p]
  obtain v where v: "lookup c = [drop (end_pos 0 (fs @ [f])) key \<mapsto> v]" using R(1) by blast
  have "y \<in> set ((f_children f)[f_idx f := c])" using y(1) P(8) by (simp add: set_update_siblings siblings_def)
  then have "wf_tree y" using P(7) by simp
  then have w: "wf_tree (prepend a (f_prefix f) y)" using y(2) by (intro prepend_wf) simp_all
  have "lookup (prepend a (f_prefix f) y) = (lookup (plug [f] c))(drop (end_pos 0 fs) key := None)"
    unfolding R(3) plug.simps
  proof (rule merge_node[where v = v])
    show "remove_child (f_idx f) ((f_children f)[f_idx f := c]) = [y]"
      using y(1) unfolding siblings_remove by (simp only: remove_child_simps(2))
  qed (use P(7,8) v R(2) in simp_all)
  from shrink_plug[OF p gs w _ this] show "wf_tree (plug gs (prepend a (f_prefix f) y))"
    "map_of (entries (plug gs (prepend a (f_prefix f) y))) = (map_of (entries (plug (fs @ [f]) c)))(key := None)" by simp_all
qed

text \<open>What the two cases of \<open>combine\<close> share once the merged node \<open>nd\<close> is written.\<close>

lemma combine_tail:
  assumes p: "popped T live key fs f c n0 L s" and y: "siblings f = [y]" "length (f_prefix f) + length (label y) \<le> 255"
    and X: "X \<subseteq> L - (set (nodes (fs @ [f])) \<union> set (sibs (fs @ [f])))"
    and s2: "owns T live (Suc (Suc n) + 2 * length fs) (insert a L) s2" "heap s2 = (heap s)(a \<mapsto> pg)" "root s2 = root s" "stack s2 = stack s"
      "keys_kept s s2" "a \<notin> L" "a \<noteq> 0"
    and h: "holds T ((heap s)(a \<mapsto> pg)) (prepend a (f_prefix f) y)"
  shows "\<exists>s3 s4 s5 s6. update_offset Ops (length fs) (tree_link (prepend a (f_prefix f) y)) (upd_tr (length fs) (\<lambda>tr. tr\<lparr>t_node := a\<rparr>) s2) = Some s3
    \<and> free_node Ops (addr y) s3 = Some s4 \<and> free_node Ops (f_addr f) (upd_tr (length fs) (\<lambda>tr. tr\<lparr>t_cmp := 1\<rparr>) s4) = Some s5
    \<and> (if go then cursor_next s5 else first_tr (resize_key (t_keypos (stack s ! length fs)) s5)) = Some s6
    \<and> removed T live key n X (map_of (entries (plug (fs @ [f]) c))) s6"
proof -
  note P = poppedD[OF p]
  let ?c = "prepend a (f_prefix f) y"
  have sb: "sibs [f] = addrs y" using y(1) by simp
  have ay: "addrs ?c = a # tl (addrs y)" "addrs y = addr y # tl (addrs y)" by (cases y; simp)+
  have "set (addrs y) \<subseteq> L" using P(11) unfolding sb .
  then have "distinct (addrs y)" "a \<notin> set (addrs y)" using P(14) s2(6) unfolding sb by auto
  then have ad: "distinct (addrs ?c)" "set (addrs ?c) \<subseteq> insert a (set (sibs [f]))" "addr y \<notin> set (addrs ?c)"
    unfolding sb ay(1) using ay(2) by (metis distinct.simps(2) list.set_intros(2), metis insert_mono list.set(2) subset_insertI, metis distinct.simps(2) list.set_intros(1) set_ConsD)
  obtain s3 gs L3 where u: "update_offset Ops (length fs) (tree_link ?c) (upd_tr (length fs) (\<lambda>tr. tr\<lparr>t_node := a\<rparr>) s2) = Some s3" "same_frames fs gs"
    "settled T live key (Suc (Suc n)) gs ?c L3 s3" "keys_kept s s3" "stack s3 ! length fs = (stack s ! length fs)\<lparr>t_node := a, t_offset := end_loc LRoot gs\<rparr>"
    "\<forall>Y \<subseteq> L - (set (nodes fs) \<union> set (sibs fs) \<union> set (addrs ?c)). Y \<subseteq> L3 \<and> Y \<inter> tree_pages gs ?c = {}"
    using replace_node_ok[OF p s2(1-6) _ ad(1) _ ad(2)] h s2(2) by auto
  have yL: "addr y \<in> set (sibs [f])" using sb by simp
  have Y: "{addr y, f_addr f} \<union> X \<subseteq> L - (set (nodes fs) \<union> set (sibs fs) \<union> set (addrs ?c))"
  proof -
    have "addr y \<in> L - (set (nodes fs) \<union> set (sibs fs))" using yL P(11,13) by blast
    moreover have "f_addr f \<in> L - (set (nodes fs) \<union> set (sibs fs) \<union> set (sibs [f]))" using P(9,10,12) by blast
    moreover have "X \<subseteq> L - (set (nodes fs) \<union> set (sibs fs) \<union> set (sibs [f]))" using X by auto
    ultimately show ?thesis using ad(2,3) s2(6) by blast
  qed
  have Y3: "{addr y, f_addr f} \<union> X \<subseteq> L3" "({addr y, f_addr f} \<union> X) \<inter> tree_pages gs ?c = {}" using u(6) Y by blast+
  have ne: "addr y \<noteq> f_addr f" "addr y \<notin> X" "f_addr f \<notin> X"
  proof -
    show "addr y \<noteq> f_addr f" using yL P(12) by metis
    show "addr y \<notin> X" using yL X by auto
    show "f_addr f \<notin> X" using X by auto
  qed
  note m = merge_plug[OF p u(2) y, of a]
  from combine_finish[OF p u(2-5) Y3 ne m prepend_simps(2), of go] show ?thesis using u(1) by blast
qed

section \<open>Removing\<close>

lemma popped_less: "popped T live key fs f c m L s \<Longrightarrow> k \<le> m \<Longrightarrow> popped T live key fs f c k L s"
  using owns_less by (auto simp: popped_def)

lemma combine_ok:
  assumes p: "popped T live key fs f c (Suc (Suc (Suc (n + 2 * length fs)))) L s" and T: "page_traits T" and two: "length (f_children f) = 2"
    and pfx: "pfx = 0 \<longleftrightarrow> drop (end_pos 0 (fs @ [f])) key = []" and X: "X \<subseteq> L - (set (nodes (fs @ [f])) \<union> set (sibs (fs @ [f])))"
  shows "\<exists>s'. combine T Ops (length fs) pfx s = Some s' \<and> removed T live key n X (map_of (entries (plug (fs @ [f]) c))) s'"
proof -
  note P = poppedD[OF p]
  have T': "traits_ok T" using T by (simp add: page_traits_def cursor_traits_def)
  let ?d = "length fs" and ?p = "f_prefix f" and ?tr = "stack s ! length fs"
  let ?go = "t_link_idx ?tr \<noteq> 0"
  have tr: "t_node ?tr = f_addr f" "t_link_idx ?tr = f_idx f" using P(3) by (simp_all add: on_frame_def)
  obtain m lk where m: "trie_at s (f_addr f) = Some m" "wf_node T m" "compressed m = ?p"
    "array m = (map tree_link (f_children f))[f_idx f := lk]" "unat (compressed_len m) = length ?p" using popped_node[OF p] by blast
  obtain y where y: "siblings f = [y]" "array m ! (if ?go then 0 else 1) = tree_link y"
    using two_children[OF two, of lk] P(8) two m(4) tr(2) by auto
  have hy: "holds T (heap s) y" using P(16) y(1) by simp
  have red: ?thesis if "combine T Ops ?d pfx s = reduce_array T Ops ?d pfx s"
    using reduce_ok[OF popped_less[OF p] T _ pfx X] that two by simp
  have yw: "wf_tree y"
  proof -
    have "y \<in> set ((f_children f)[f_idx f := c])" using y(1) P(8) by (simp add: set_update_siblings siblings_def)
    then show ?thesis using P(7) by simp
  qed
  have yL: "set (addrs y) \<subseteq> L" using P(11) y(1) by simp
  show ?thesis
  proof (cases y)
    case (ANode b q ks cs)
    obtain pg mb where mb: "heap s b = Some pg" "body pg = TrieN mb" "b \<noteq> 0" "wf_node T mb" "compressed mb = q" "node_keys mb = ks" "array mb = map tree_link cs"
      using hy ANode by auto
    have tb: "trie_at s b = Some mb" using mb(1,2) by (simp add: trie_at_def)
    have lb: "unat (compressed_len mb) = length q" using mb(4,5) by (simp add: wf_node_def wf_layout_def)
    show ?thesis
    proof (cases "length ?p + length q > 255")
      case True
      then have "combine T Ops ?d pfx s = reduce_array T Ops ?d pfx s"
        using tr(1) m(1,5) y(2) ANode tb lb by (simp add: combine_def Let_def)
      then show ?thesis by (rule red)
    next
      case False
      let ?buf = "?p @ q"
      have bl: "length ?buf < 256" "length ?p + length (label y) \<le> 255" using False ANode by simp_all
      have wb: "wf_bitmaps mb" using mb(4) by (simp add: wf_node_def)
      note cp = create_prefix_eq[OF T' bl(1) wb]
      have "changed_len T mb (length ?buf) + PAGE_HEADER_SIZE T \<le> last (PAGE_SIZES T)"
        using node_size_layout(2)[OF T' cp(1)] cp(5) T by (simp add: page_traits_def)
      from alloc_node_ok[OF P(2) T this] obtain a s1 g where a: "alloc_node T Ops (changed_len T mb (length ?buf)) s = Some (a, s1)" "a \<noteq> 0" "a \<notin> L"
        "owns T live (Suc (Suc (n + 2 * ?d))) (insert a L) s1" "heap s1 = (heap s)(a \<mapsto> g)" "slot_id g < length (PAGE_SIZES T)" "root s1 = root s"
        "stack s1 = stack s" "keys_kept s s1" by blast
      let ?pg = "g\<lparr>body := TrieN (create_prefix T mb ?buf)\<rparr>"
      define s2 where "s2 = s1\<lparr>heap := (heap s)(a \<mapsto> ?pg)\<rparr>"
      have p2: "put_trie a (create_prefix T mb ?buf) s1 = Some s2" using a(5) by (simp add: put_trie_def set_page_def s2_def)
      have ow: "owns T live (Suc (Suc n) + 2 * ?d) (insert a L) s2"
        using owns_set[OF a(4), of s2 a ?pg] a(5,6) by (simp add: s2_def)
      have f2: "heap s2 = (heap s)(a \<mapsto> ?pg)" "root s2 = root s" "stack s2 = stack s" "keys_kept s s2"
        using a(7-9) by (simp_all add: s2_def keys_kept_def)
      have "holds T ((heap s)(a \<mapsto> ?pg)) x" if "x \<in> set cs" for x
        by (rule holds_cong[of T "heap s"]) (use hy ANode that yL a(3) in auto)
      then have h: "holds T ((heap s)(a \<mapsto> ?pg)) (prepend a ?p y)" using ANode cp(1-4) mb(6,7) a(2) by simp
      from combine_tail[OF p y(1) bl(2) X ow f2 a(3,2) h, of ?go] obtain s3 s4 s5 s6 where
        u: "update_offset Ops ?d (Link TRIE a) (upd_tr ?d (\<lambda>tr. tr\<lparr>t_node := a\<rparr>) s2) = Some s3" "free_node Ops b s3 = Some s4"
          "free_node Ops (f_addr f) (upd_tr ?d (\<lambda>tr. tr\<lparr>t_cmp := 1\<rparr>) s4) = Some s5"
          "(if ?go then cursor_next s5 else first_tr (resize_key (t_keypos ?tr) s5)) = Some s6"
          "removed T live key n X (map_of (entries (plug (fs @ [f]) c))) s6" using ANode by auto
      have "combine T Ops ?d pfx s = Some s6"
        using tr(1) m(1,3,5) y(2) ANode tb lb False mb(5) a(1) p2 u(1-4) by (simp add: combine_def Let_def)
      then show ?thesis using u(5) by blast
    qed
  next
    case (ALeaf b k v)
    obtain pg l where l: "heap s b = Some pg" "body pg = LeafN l" "b \<noteq> 0" "length (leaf_data l) = unat (key_size l) + vsize l" "leaf_key l = k"
      "(leaf_is_big l, leaf_value l) = v" using hy ALeaf by auto
    have lb: "leaf_at s b = Some l" using l(1,2) by (simp add: leaf_at_def)
    have kl: "unat (key_size l) = length k" using l(4,5) by (auto simp: leaf_key_def)
    show ?thesis
    proof (cases "length ?p + length k > 255")
      case True
      then have "combine T Ops ?d pfx s = reduce_array T Ops ?d pfx s"
        using tr(1) m(1,5) y(2) ALeaf lb kl by (simp add: combine_def Let_def)
      then show ?thesis by (rule red)
    next
      case False
      let ?buf = "?p @ k"
      have bl: "length ?buf < 256" "length ?p + length (label y) \<le> 255" using False ALeaf by simp_all
      define l' where "l' = \<lparr>value_size = value_size l, key_size = word_of_nat (length ?buf), leaf_data = ?buf @ leaf_value l\<rparr>"
      have vs: "vsize l' = vsize l" "leaf_is_big l' = leaf_is_big l" by (simp_all add: l'_def vsize_def leaf_is_big_def)
      have ks: "unat (key_size l') = length ?buf" using prefix_len[OF bl(1)] by (simp add: l'_def)
      have lv: "length (leaf_value l) = vsize l" using l(4) by (simp add: leaf_value_def)
      have rd: "leaf_key l' = ?buf" "leaf_value l' = leaf_value l" "length (leaf_data l') = unat (key_size l') + vsize l'"
        unfolding leaf_key_def leaf_value_def[of l'] ks vs using lv by (simp_all add: l'_def)
      have "b \<in> L" using yL ALeaf by simp
      from owns_page[OF P(2) this] have "page_ok T pg" using l(1) by auto
      then have fit: "leaf_fits T 255 (vsize l)" using l(2) by (simp add: page_ok_def)
      have "leaf_size_of T (length ?buf) (vsize l) + PAGE_HEADER_SIZE T \<le> last (PAGE_SIZES T)"
        using leaf_fits_mono[OF fit, of "length ?buf"] bl(1) by (simp add: leaf_fits_def)
      from alloc_node_ok[OF P(2) T this] obtain a s1 g where a: "alloc_node T Ops (leaf_size_of T (length ?buf) (vsize l)) s = Some (a, s1)" "a \<noteq> 0" "a \<notin> L"
        "owns T live (Suc (Suc (n + 2 * ?d))) (insert a L) s1" "heap s1 = (heap s)(a \<mapsto> g)" "slot_id g < length (PAGE_SIZES T)" "root s1 = root s"
        "stack s1 = stack s" "keys_kept s s1" by blast
      let ?pg = "g\<lparr>body := LeafN l'\<rparr>"
      define s2 where "s2 = s1\<lparr>heap := (heap s)(a \<mapsto> ?pg)\<rparr>"
      have p2: "put_leaf a l' s1 = Some s2" using a(5) by (simp add: put_leaf_def set_page_def s2_def)
      have "page_ok T ?pg" using a(6) fit vs(1) by (simp add: page_ok_def)
      then have ow: "owns T live (Suc (Suc n) + 2 * ?d) (insert a L) s2"
        using owns_set[OF a(4), of s2 a ?pg] a(5) by (simp add: s2_def)
      have f2: "heap s2 = (heap s)(a \<mapsto> ?pg)" "root s2 = root s" "stack s2 = stack s" "keys_kept s s2"
        using a(7-9) by (simp_all add: s2_def keys_kept_def)
      have h: "holds T ((heap s)(a \<mapsto> ?pg)) (prepend a ?p y)" using ALeaf a(2) rd vs(2) l(6) by simp
      from combine_tail[OF p y(1) bl(2) X ow f2 a(3,2) h, of ?go] obtain s3 s4 s5 s6 where
        u: "update_offset Ops ?d (Link LEAF a) (upd_tr ?d (\<lambda>tr. tr\<lparr>t_node := a\<rparr>) s2) = Some s3" "free_node Ops b s3 = Some s4"
          "free_node Ops (f_addr f) (upd_tr ?d (\<lambda>tr. tr\<lparr>t_cmp := 1\<rparr>) s4) = Some s5"
          "(if ?go then cursor_next s5 else first_tr (resize_key (t_keypos ?tr) s5)) = Some s6"
          "removed T live key n X (map_of (entries (plug (fs @ [f]) c))) s6" using ALeaf by auto
      have "combine T Ops ?d pfx s = Some s6"
        using tr(1) m(1,3,5) y(2) ALeaf lb kl False l(5) a(1) p2 u(1-4) by (simp add: combine_def Let_def l'_def)
      then show ?thesis using u(5) by blast
    qed
  qed
qed

text \<open>The page of the removed node is freed last.\<close>

lemma removed_free:
  assumes "removed T live key (Suc n) (insert a X) M s" "a \<notin> X"
  shows "\<exists>s'. free_node Ops a s = Some s' \<and> removed T live key n X M s'"
proof -
  obtain ot L where o: "cursor_on T ot s" "stack s = [] \<or> is_valid s" "ot = None \<longrightarrow> current_key s = []" "map_of (db_entries ot) = M(key := None)"
    "db_owned T live (Suc n) L ot s" "insert a X \<subseteq> L" "insert a X \<inter> pages_of ot = {}" using assms(1) unfolding removed_def by blast
  have ow: "owns T live (Suc n) L s" using o(5) by (simp add: db_owned_def)
  obtain s' where s': "free_node Ops a s = Some s'" "owns T live n (L - {a}) s'" "heap s' = heap s" "root s' = root s" "stack s' = stack s" "keys_kept s s'"
    using free_node_ok[OF ow] o(6) by blast
  have "cursor_on T ot s'" using o(1) s'(3-6) by (auto simp: cursor_on_def cursor_at_def stack_on_def keys_kept_def split: option.splits)
  moreover have "is_valid s' = is_valid s"
  proof -
    have "read_loc s' l = read_loc s l" for l using read_loc_cong[of s' s l] s'(3,4) by simp
    then show ?thesis using s'(5) by (simp add: is_valid_def success_def is_leaf_def top_idx_def)
  qed
  moreover have "db_owned T live n (L - {a}) ot s'" using o(5,7) s'(2) by (auto simp: db_owned_def pages_of_def split: option.splits)
  moreover have "X \<subseteq> L - {a}" using o(6) assms(2) by blast
  moreover have "current_key s' = current_key s" using s'(6) by (simp add: keys_kept_def)
  ultimately have "removed T live key n X M s'" unfolding removed_def using o(2,3,4,7) s'(5) by (metis Int_insert_left insert_not_empty)
  then show ?thesis using s'(1) by blast
qed

end

text \<open>How many requests a removal may make.\<close>

definition remove_cost :: "atree \<Rightarrow> nat" where
  "remove_cost t = 4 + 2 * length (addrs t)"

lemma label_rest:
  assumes "branch_ok (key_branch r) c"
  shows "length (label c) = 0 \<longleftrightarrow> r = []"
proof (cases r)
  case (Cons y ys)
  have "uint y \<noteq> NONE" unfolding NONE_def by (smt (verit) uint_ge_0)
  then show ?thesis using assms Cons by (auto simp: branch_ok_def key_branch_def)
qed (use assms in \<open>auto simp: branch_ok_def key_branch_def\<close>)

lemma pop_popped:
  assumes on: "on_path T key (fs @ [f]) lk L s" and ow: "owns T live n L s" and w: "wf_tree (plug (fs @ [f]) c)"
    and c: "lookup c = [drop (end_pos 0 (fs @ [f])) key \<mapsto> v]" and st: "length (stack s) = Suc (length (fs @ [f]))"
      "t_keypos (stack s ! length (fs @ [f])) = end_pos 0 (fs @ [f])" "end_pos 0 (fs @ [f]) \<le> length key"
      "take (end_pos 0 (fs @ [f])) (current_key s) = take (end_pos 0 (fs @ [f])) key"
  shows "popped T live key fs f c n L (pop s)"
proof -
  let ?q = "end_pos 0 (fs @ [f])"
  have ti: "top_idx s = length (fs @ [f])" using st(1) by (simp add: top_idx_def)
  have len: "length (stack (pop s)) = Suc (length fs)" "stack (pop s) = take (length (fs @ [f])) (stack s)"
    using st(1) ti by (simp_all add: pop_def clear_stack_def resize_key_def)
  have "?q \<le> length (current_key s)" using arg_cong[OF st(4), of length] st(3) by simp
  then have "take ?q (current_key s @ replicate ?q 0) = take ?q key" using st(4) by simp
  then have ck: "current_key (pop s) = take ?q key" unfolding pop_def ti st(2) by (simp add: clear_stack_def resize_key_def)
  have hp: "heap (pop s) = heap s" "root (pop s) = root s" "mem (pop s) = mem s" by (simp_all add: pop_def clear_stack_def resize_key_def)
  have "on_path T key (fs @ [f]) lk L (pop s)" using on hp(1,2) len by (simp add: on_path_def)
  then show ?thesis unfolding popped_def using owns_same[OF ow hp(3,1)] len(1) ck st(3) w c by blast
qed

context page_allocator
begin

lemma remove_node_ok:
  assumes "on_path T key fs lk L s" "owns T live (n + 4 + 2 * length fs) L s" "page_traits T" "wf_tree (plug fs c)"
    and "lookup c = [drop (end_pos 0 fs) key \<mapsto> v]" "addr c \<in> L - (set (nodes fs) \<union> set (sibs fs))" "length (stack s) = Suc (length fs)"
    and "on_tree (end_loc LRoot fs) (end_pos 0 fs) c (stack s ! length fs)" "t_prefix (stack s ! length fs) = length (label c)"
    and "end_pos 0 fs \<le> length key" "take (end_pos 0 fs) (current_key s) = take (end_pos 0 fs) key"
    and "X \<subseteq> L - (set (nodes fs) \<union> set (sibs fs) \<union> {addr c})"
  shows "\<exists>s'. remove_node T Ops (length fs) s = Some s' \<and> removed T live key n X (map_of (entries (plug fs c))) s'"
  using assms
proof (induction fs arbitrary: c L s X n lk rule: rev_induct)
  case Nil
  obtain tr where st: "stack s = [tr]" using Nil.prems(7) by (metis length_0_conv length_Suc_conv list.size(3))
  have tr: "t_offset tr = LRoot" "t_keypos tr = 0" "t_node tr = addr c" using Nil.prems(8) st by (simp_all add: on_tree_def)
  let ?s = "s\<lparr>root := 0\<rparr>"
  have "owns T live (Suc n) L ?s" using owns_less[OF Nil.prems(2), of "Suc n"] by (simp add: owns_def)
  from free_node_ok[OF this] Nil.prems(6) obtain s2 where s2: "free_node Ops (addr c) ?s = Some s2" "owns T live n (L - {addr c}) s2"
    "heap s2 = heap ?s" "root s2 = root ?s" "stack s2 = stack ?s" "keys_kept ?s s2" by blast
  have "remove_node T Ops (length []) s = Some (pop s2)" using st tr s2(1) by simp
  moreover have f: "stack (pop s2) = []" "root (pop s2) = 0" "current_key (pop s2) = []" "heap (pop s2) = heap s2" "mem (pop s2) = mem s2"
    using s2(4,5) st tr by (simp_all add: pop_def clear_stack_def resize_key_def top_idx_def)
  moreover have "map_of (entries c) = [key \<mapsto> v]" using lookup_entries[of c] Nil.prems(4,5) by (simp add: fun_eq_iff)
  moreover have "owns T live n (L - {addr c}) (pop s2)" by (rule owns_same[OF s2(2) f(5,4)])
  ultimately show ?case using Nil.prems(12) unfolding removed_def
    by (intro exI[of _ "pop s2"]) (auto simp: cursor_on_def db_entries_def db_owned_def pages_of_def intro!: exI[of _ None] exI[of _ "L - {addr c}"])
next
  case (snoc f fs)
  let ?gs = "fs @ [f]" and ?d = "length fs" and ?s = "pop s" and ?M = "map_of (entries (plug (fs @ [f]) c))"
  let ?pfx = "t_prefix (stack s ! Suc ?d)" and ?X = "insert (addr c) X"
  have "t_keypos (stack s ! length ?gs) = end_pos 0 ?gs" using snoc.prems(8) by (simp add: on_tree_def)
  from pop_popped[OF snoc.prems(1,2,4,5,7) this snoc.prems(10,11)]
  have p: "popped T live key fs f c (n + 4 + 2 * length ?gs) L ?s" .
  note P = poppedD[OF p] and R = popped_rest[OF p]
  have bo: "branch_ok (key_branch (drop (end_pos 0 ?gs) key)) c"
    using wf_plug_frame(3)[of f "[]" c] P(7,8) R(2) by simp
  have pfx: "?pfx = 0 \<longleftrightarrow> drop (end_pos 0 ?gs) key = []" using label_rest[OF bo] snoc.prems(9) by simp
  have X: "?X \<subseteq> L - (set (nodes ?gs) \<union> set (sibs ?gs))" "addr c \<notin> X" using snoc.prems(6,12) by auto
  obtain m where m: "trie_at ?s (f_addr f) = Some m" "node_count m = length (f_children f)" using popped_node[OF p] by blast
  have tn: "t_node (stack ?s ! ?d) = f_addr f" "t_node (stack s ! Suc ?d) = addr c"
    using P(3) snoc.prems(8) by (simp_all add: on_frame_def on_tree_def)
  have "\<exists>s2. (if node_count m = 0 then Some ?s else if node_count m = 1 then remove_node T Ops ?d ?s
      else if node_count m = 2 then combine T Ops ?d ?pfx ?s else reduce_array T Ops ?d ?pfx ?s) = Some s2 \<and> removed T live key (Suc n) ?X ?M s2"
  proof -
    have c0: "node_count m \<noteq> 0" using P(8) m(2) by auto
    consider "node_count m = 1" | "node_count m = 2" | "2 < node_count m" using c0 by linarith
    then show ?thesis
    proof cases
      case 1
      have ch: "f_idx f = 0" "(f_children f)[f_idx f := c] = [c]" using 1 m(2) P(8) by (auto simp: length_Suc_conv)
      have w: "wf_tree (ANode (f_addr f) (f_prefix f) (f_keys f) [c])" using P(7) ch(2) by simp
      have "lookup (plug [f] c) = [drop (end_pos 0 fs) key \<mapsto> v]"
        unfolding R(3) plug.simps ch(2) by (rule only_child[OF w snoc.prems(5)]) (use R(2) ch(1) in simp)
      moreover have "owns T live (Suc n + 4 + 2 * ?d) L ?s" by (rule owns_less[OF P(2)]) simp
      moreover have "wf_tree (plug fs (plug [f] c))" using snoc.prems(4) by simp
      moreover have "?X \<subseteq> L - (set (nodes fs) \<union> set (sibs fs) \<union> {addr (plug [f] c)})" using X(1) by auto
      moreover have "on_tree (end_loc LRoot fs) (end_pos 0 fs) (plug [f] c) (stack ?s ! ?d)" "t_prefix (stack ?s ! ?d) = length (label (plug [f] c))"
        using P(3) by (simp_all add: on_frame_def on_tree_def)
      moreover have "take (end_pos 0 fs) (current_key ?s) = take (end_pos 0 fs) key" unfolding P(6) by simp
      moreover have "addr (plug [f] c) \<in> L - (set (nodes fs) \<union> set (sibs fs))" using P(9,10) by simp
      ultimately have "\<exists>s2. remove_node T Ops ?d ?s = Some s2 \<and> removed T live key (Suc n) ?X (map_of (entries (plug fs (plug [f] c)))) s2"
        using snoc.IH[OF P(1) _ snoc.prems(3)] P(5,15) by blast
      then show ?thesis using 1 by simp
    next
      case 2
      have "popped T live key fs f c (Suc (Suc (Suc (Suc n + 2 * ?d)))) L ?s" by (rule popped_less[OF p]) simp
      from combine_ok[OF this snoc.prems(3) _ pfx X(1)] show ?thesis using 2 m(2) by simp
    next
      case 3
      have "popped T live key fs f c (Suc (Suc (Suc n + 2 * ?d))) L ?s" by (rule popped_less[OF p]) simp
      from reduce_ok[OF this snoc.prems(3) _ pfx X(1)] have "\<exists>s2. reduce_array T Ops ?d ?pfx ?s = Some s2 \<and> removed T live key (Suc n) ?X ?M s2"
        using 3 m(2) by simp
      moreover have "node_count m \<noteq> 0" "node_count m \<noteq> 1" "node_count m \<noteq> 2" using 3 by auto
      ultimately show ?thesis by (simp only: if_False)
    qed
  qed
  then obtain s2 where s2: "(if node_count m = 0 then Some ?s else if node_count m = 1 then remove_node T Ops ?d ?s
      else if node_count m = 2 then combine T Ops ?d ?pfx ?s else reduce_array T Ops ?d ?pfx ?s) = Some s2" "removed T live key (Suc n) ?X ?M s2" by blast
  from removed_free[OF s2(2) X(2)] obtain s3 where "free_node Ops (addr c) s2 = Some s3" "removed T live key n X ?M s3" by blast
  then show ?case using m(1) tn s2(1) by (simp add: Let_def)
qed

text \<open>Removing the entry under a valid cursor.\<close>

lemma cursor_remove_ok:
  assumes at: "cursor_at T t s" "is_valid s" and o: "db_owned T live (n + remove_cost t) L (Some t) s" and T: "page_traits T"
  shows "\<exists>s'. cursor_remove T Ops s = Some (Inr s') \<and> removed T live (current_key s) n {} (map_of (entries t)) s'"
proof -
  let ?key = "current_key s"
  have ne: "stack s \<noteq> []" using at(2) by (simp add: is_valid_def)
  have h: "holds T (heap s) t" "root s = tree_link t" "wf_tree t" using at(1) by (simp_all add: cursor_at_def)
  obtain ts tr "is" c l kp where p: "stack s = ts @ [tr]" "spine ?key t LRoot 0 ts is c l kp" "top_ok ?key l kp c tr" "t_cmp tr = 0"
    using cursor_valid_iff[OF at(1) ne] at(2) by metis
  obtain a v where c: "c = ALeaf a (drop kp ?key) v" "on_tree l kp c tr" "t_prefix tr = length (label c)" using p(3,4) by (auto simp: top_ok_def)
  obtain fs where fs: "t = plug fs c" "rail ?key fs LRoot 0 ts" "l = end_loc LRoot fs" "kp = end_pos 0 fs" "frames_hold T (heap s) fs (tree_link c)"
    using spine_rail[OF p(2) h(1)] by blast
  have ix: "\<forall>f\<in>set fs. f_idx f < length (f_children f)" by (rule frames_idx[OF fs(5)])
  have ow: "owns T live (n + remove_cost t) L s" "distinct (addrs t)" "set (addrs t) \<subseteq> L" using o by (simp_all add: db_owned_def)
  note dp = distinct_plug[OF ix, of c, folded fs(1)]
  have lt: "length ts = length fs" using rail_length[OF fs(2)] .
  have "length (nodes fs) \<le> length (addrs t)"
    using arg_cong[OF addrs_plug[OF ix, of c], of size] fs(1) by simp
  then have o2: "owns T live (n + 4 + 2 * length fs) L s" using owns_less[OF ow(1)] by (simp add: remove_cost_def)
  have on: "on_path T ?key fs (tree_link c) L s"
    using fs(2,5) h(2) dp ow(2,3) p(1) lt unfolding on_path_def fs(1) tree_link_plug by auto
  have ac: "addr c \<in> L - (set (nodes fs) \<union> set (sibs fs))" using dp ow(2,3) addr_in_addrs[of c] by blast
  have top: "stack s ! length fs = tr" "length (stack s) = Suc (length fs)" using p(1) lt by (simp_all flip: lt)
  have "kp \<le> length ?key" using spine_le[OF p(2)] by simp
  moreover have "lookup c = [drop (end_pos 0 fs) ?key \<mapsto> v]" using c(1) fs(4) by (auto simp: fun_eq_iff)
  ultimately obtain s' where "remove_node T Ops (length fs) s = Some s'" "removed T live ?key n {} (map_of (entries t)) s'"
    using remove_node_ok[OF on o2 T _ _ ac top(2), of v "{}"] h(3) c(2,3) fs(1,3,4) top(1) by auto
  then show ?thesis using at(2) top(2) by (simp add: cursor_remove_def top_idx_def)
qed

end

section \<open>Search and remove\<close>

lemma find_present:
  assumes T: "cursor_traits T" and at: "cursor_at T t s" "stack s = [] \<or> current_key s \<noteq> key \<or> is_valid s" and k: "length key \<le> MAX_KEY_SIZE T"
    and m: "map_of (entries t) key \<noteq> None"
  shows "\<exists>s'. cursor_find T key s = Some (Inr s') \<and> same_db s s' \<and> cursor_at T t s' \<and> is_valid s' \<and> current_key s' = key"
proof (cases "stack s = [] \<or> current_key s \<noteq> key")
  case True
  from cursor_find_found[OF T at(1) k True] obtain s' where s': "cursor_find T key s = Some (Inr s')" "found_at t key s s'" by blast
  have "same_db s s'" using s'(2) by (simp add: found_at_def)
  then show ?thesis using s'(1) found_cursor_at(1)[OF s'(2) at(1)] found_valid[OF s'(2) at(1)] m by blast
next
  case False
  let ?s = "s\<lparr>rest_key := []\<rparr>"
  have v: "is_valid s" using False at(2) by blast
  have "cursor_find T key s = Some (Inr ?s)"
    using keep_stack_same[OF T, of "s\<lparr>rest_key := key\<rparr>"] False k by (simp add: cursor_find_def Let_def)
  moreover have d: "same_db s ?s" by (simp add: same_db_def)
  moreover have "is_valid ?s" using v reads_same_db[of s ?s] d by simp
  moreover have "cursor_at T t ?s" using at(1) by (auto simp: cursor_at_def stack_on_def)
  ultimately show ?thesis using False by auto
qed

lemma find_remove:
  assumes A: "page_allocator T Ops live" and T: "page_traits T" and at: "cursor_at T t s" "stack s = [] \<or> current_key s \<noteq> key \<or> is_valid s"
    and k: "length key \<le> MAX_KEY_SIZE T" "map_of (entries t) key \<noteq> None" and o: "db_owned T live (n + remove_cost t) L (Some t) s"
  shows "\<exists>s1 s2. cursor_find T key s = Some (Inr s1) \<and> cursor_remove T Ops s1 = Some (Inr s2) \<and> removed T live key n {} (map_of (entries t)) s2"
proof -
  have "cursor_traits T" using T by (simp add: page_traits_def)
  from find_present[OF this at k] obtain s1 where s1: "cursor_find T key s = Some (Inr s1)" "same_db s s1" "cursor_at T t s1" "is_valid s1" "current_key s1 = key" by blast
  have "db_owned T live (n + remove_cost t) L (Some t) s1" using o s1(2) by (simp add: db_owned_def owns_def same_db_def)
  from page_allocator.cursor_remove_ok[OF A s1(3,4) this T] show ?thesis using s1(1,5) by blast
qed

end
