(* ===== verification/Leaves_Database.thy ===== *)
theory Leaves_Database
  imports Leaves_Remove Leaves_MemManager
begin

text \<open>
  The parts together: a cursor that finds, puts and removes values in a database whose pages come from
  the memory manager. The contract the inserter and the deleter rely on is proved for the model
  of the memory manager while nothing may be recycled.
\<close>

section \<open>The memory manager as a page allocator\<close>

text \<open>
  The transaction \<open>cur\<close> requests and frees pages; \<open>recyc\<close> is \<open>may_recycle\<close>. Allocation fails when the
  storage has no area left.
\<close>

definition mm_ops :: "mm_traits \<Rightarrow> (tid \<Rightarrow> bool) \<Rightarrow> tid \<Rightarrow> bool \<Rightarrow> mm db_ops" where
  "mm_ops C recyc cur cow = \<lparr>
     op_alloc = (\<lambda>slot m. case mm_exec C recyc cur (MAlloc slot) m of
        None \<Rightarrow> None | Some (p, m) \<Rightarrow> if p = 0 then None else Some (p, m)),
     op_free = (\<lambda>a slot m. map_option snd (mm_exec C recyc cur (MFree a) m)),
     op_cow = cow\<rparr>"

text \<open>
  The manager can serve \<open>n\<close> requests while the pages \<open>L\<close> are in use. What the transaction frees itself may
  not be recycled, nor what was queued before: the older pages are held by readers.
\<close>

definition mm_live :: "traits \<Rightarrow> mm_traits \<Rightarrow> (tid \<Rightarrow> bool) \<Rightarrow> tid \<Rightarrow> nat \<Rightarrow> mm \<Rightarrow> nat set \<Rightarrow> bool" where
  "mm_live T C recyc cur n m L \<longleftrightarrow> PAGE_SIZES T = mm_sizes C \<and> sizes_ok C \<and> space_ok C m \<and> length (slots m) = length (mm_sizes C)
     \<and> n \<le> length (new_areas m) \<and> (\<forall>a\<in>L. a \<notin> space m \<and> page_slot m a < length (slots m)) \<and> \<not> recyc cur \<and> queues_held C recyc m"

lemma mm_liveD:
  assumes "mm_live T C recyc cur (Suc n) m L"
  shows "PAGE_SIZES T = mm_sizes C" "sizes_ok C" "space_ok C m" "length (slots m) = length (mm_sizes C)" "new_areas m \<noteq> []"
    "Suc n \<le> length (new_areas m)" "\<forall>a\<in>L. a \<notin> space m \<and> page_slot m a < length (slots m)" "\<not> recyc cur" "queues_held C recyc m"
    "mm_SLOT_ID C < length (slots m)"
proof -
  show m: "PAGE_SIZES T = mm_sizes C" "sizes_ok C" "space_ok C m" "length (slots m) = length (mm_sizes C)"
    "Suc n \<le> length (new_areas m)" "\<forall>a\<in>L. a \<notin> space m \<and> page_slot m a < length (slots m)" "\<not> recyc cur" "queues_held C recyc m"
    using assms unfolding mm_live_def by blast+
  show "new_areas m \<noteq> []" using m(5) by auto
  show "mm_SLOT_ID C < length (slots m)" using m(2,4) by (simp add: sizes_ok_def)
qed

lemma bump_alloc_served:
  assumes "space_ok C m" "sizes_ok C" "i < length (mm_sizes C)" "new_areas m \<noteq> []" "bump_alloc C i m = (p, m')"
  shows "p \<noteq> 0" "length (new_areas m) \<le> Suc (length (new_areas m'))" "page_slot m' = (page_slot m)(p := i)" "length (slots m') = length (slots m)"
proof -
  have n: "0 < mm_sizes C ! i" using assms(2,3) by (auto simp: sizes_ok_def)
  obtain a b as where as: "new_areas m = (a, b) # as" using assms(4) by (cases "new_areas m") auto
  have a: "0 < a" "0 < allocation_start m" "left_space m \<noteq> {} \<longrightarrow> 0 < left_over_start m" using assms(1) as by (simp_all add: space_ok_def)
  have l: "left_over_start m + mm_sizes C ! i \<le> left_over_end m \<Longrightarrow> 0 < left_over_start m" using a(3) n by (auto simp: left_space_def)
  show "p \<noteq> 0" "length (new_areas m) \<le> Suc (length (new_areas m'))" "page_slot m' = (page_slot m)(p := i)" "length (slots m') = length (slots m)"
    using assms(5) as a l by (auto simp: bump_alloc_def Let_def split: if_splits)
qed

lemma mm_free_served:
  assumes ok: "space_ok C m" "sizes_ok C" "length (slots m) = length (mm_sizes C)" "new_areas m \<noteq> []" and b: "page_slot m b < length (slots m)"
  shows "\<exists>r m'. mm_exec C (\<lambda>_. False) cur (MFree b) m = Some (r, m') \<and> length (new_areas m) \<le> Suc (length (new_areas m'))
    \<and> (\<forall>x. x \<notin> space m \<longrightarrow> page_slot m' x = page_slot m x)"
proof -
  let ?i = "page_slot m b" and ?c = "mm_SLOT_ID C"
  have c: "?c < length (mm_sizes C)" "?c < length (slots m)" using ok by (simp_all add: sizes_ok_def)
  obtain nb m1 where al: "bump_alloc C ?c m = (nb, m1)" by fastforce
  note s = bump_alloc_served[OF ok(1,2) c(1) ok(4) al]
  have "nb \<in> page_at C ?c nb" using ok(2) c(1) by (auto simp: page_at_def sizes_ok_def)
  then have "nb \<in> space m" using bump_alloc_space[OF ok(1,2) c(1) al s(1)] by (auto simp: takes_def)
  then have ps: "x \<notin> space m \<Longrightarrow> page_slot m1 x = page_slot m x" for x using s(3) by auto
  have "mm_exec C (\<lambda>_. False) cur (MFree b) m = mm_exec C (\<lambda>_. False) cur (MPush b ?i) m" by (simp add: mm_exec.simps(2))
  also have "\<exists>r m'. \<dots> = Some (r, m') \<and> length (new_areas m) \<le> Suc (length (new_areas m')) \<and> (\<forall>x. x \<notin> space m \<longrightarrow> page_slot m' x = page_slot m x)"
    using b s ps
    by (subst mm_exec.simps(4)) (simp add: Let_def alloc_protected[OF c(2)] al set_slot_def set_container_next_def set_block_def)
  finally show ?thesis .
qed

interpretation mm: page_allocator T "mm_ops C recyc cur cow" "mm_live T C recyc cur" for T C recyc cur cow
proof
  fix n m L slot
  assume l: "mm_live T C recyc cur (Suc n) m L" and i: "slot < length (PAGE_SIZES T)"
  note m = mm_liveD[OF l]
  have i': "slot < length (mm_sizes C)" using i m(1) by simp
  obtain p m' where b: "bump_alloc C slot m = (p, m')" by fastforce
  note s = bump_alloc_served[OF m(3,2) i' m(5) b]
  have t: "space_ok C m'" "takes (page_at C slot p) m m'" using bump_alloc_space[OF m(3,2) i' b s(1)] by auto
  have "p \<in> page_at C slot p" using m(2) i' by (auto simp: page_at_def sizes_ok_def)
  then have p: "p \<in> space m" "p \<notin> space m'" "space m' \<subseteq> space m" using t(2) unfolding takes_def by blast+
  have "op_alloc (mm_ops C recyc cur cow) slot m = Some (p, m')"
    using alloc_protected[of slot m C cur] alloc_held[OF m(9)] i' m(4) b s(1) by (simp add: mm_ops_def)
  moreover have q: "queues_held C recyc m'" by (rule held_same[OF m(9) bump_alloc_same[OF b]])
  moreover have "p \<notin> L" using m(7) p(1) by blast
  moreover have "\<forall>a\<in>insert p L. a \<notin> space m' \<and> page_slot m' a < length (slots m')" using m(7) p i' s(3,4) m(4) by auto
  then have "mm_live T C recyc cur n m' (insert p L)" unfolding mm_live_def using t(1) s(2,4) m(1,2,4,6,8) q by simp
  ultimately show "\<exists>a m'. op_alloc (mm_ops C recyc cur cow) slot m = Some (a, m') \<and> a \<noteq> 0 \<and> a \<notin> L \<and> mm_live T C recyc cur n m' (insert a L)" using s(1) by blast
next
  fix n m L a and slot :: nat
  assume l: "mm_live T C recyc cur (Suc n) m L" and a: "a \<in> L"
  note m = mm_liveD[OF l]
  have "page_slot m a < length (slots m)" using m(7) a by blast
  from mm_free_served[OF m(3,2,4,5) this, of cur] obtain r m' where f: "mm_exec C (\<lambda>_. False) cur (MFree a) m = Some (r, m')"
    "length (new_areas m) \<le> Suc (length (new_areas m'))" "\<forall>x. x \<notin> space m \<longrightarrow> page_slot m' x = page_slot m x" by blast
  have f': "space_ok C m'" "space m' \<subseteq> space m" "length (slots m') = length (slots m)" using free_protected[OF m(3,2,4) f(1)] by auto
  have q: "queues_held C recyc m'"
    using push_held[OF m(9,8,10)] f(1) by (simp add: mm_exec.simps(2))
  have "\<forall>x\<in>L - {a}. x \<notin> space m' \<and> page_slot m' x < length (slots m')" using f(3) f'(2,3) m(7) by auto
  then have "mm_live T C recyc cur n m' (L - {a})" unfolding mm_live_def using f(2) f'(1,3) m(1,2,4,6,8) q by simp
  then show "\<exists>m'. op_free (mm_ops C recyc cur cow) a slot m = Some m' \<and> mm_live T C recyc cur n m' (L - {a})" using f(1) free_held[OF m(9)] by (simp add: mm_ops_def)
next
  fix n m L
  assume l: "mm_live T C recyc cur (Suc n) m L"
  note m = mm_liveD[OF l]
  have "n \<le> length (new_areas m)" using m(6) by simp
  then show "mm_live T C recyc cur n m L" unfolding mm_live_def using m(1-4,7-9) by blast
qed

section \<open>Many updates\<close>

text \<open>
  What a client does with a cursor: it searches a key and puts a value there or removes the entry. A search
  of a missing key leaves a position that a later search can mistake for its result
  (\<open>find_keeps_invalid_position\<close>), so the keys that are removed are present.
\<close>

datatype update = Put bytes bytes | Remove bytes

fun update_key :: "update \<Rightarrow> bytes" where
  "update_key (Put k v) = k"
| "update_key (Remove k) = k"

fun run_update :: "traits \<Rightarrow> 'm db_ops \<Rightarrow> update \<Rightarrow> ('m, 'z) cursor_scheme \<Rightarrow> (error + ('m, 'z) cursor_scheme) option" where
  "run_update T Ops (Put k v) s = cursor_put T Ops v s"
| "run_update T Ops (Remove k) s = cursor_remove T Ops s"

fun run_updates :: "traits \<Rightarrow> 'm db_ops \<Rightarrow> update list \<Rightarrow> ('m, 'z) cursor_scheme \<Rightarrow> ('m, 'z) cursor_scheme option" where
  "run_updates T Ops [] s = Some s"
| "run_updates T Ops (u # us) s =
     (case cursor_find T (update_key u) s of Some (Inr s1) \<Rightarrow>
        (case run_update T Ops u s1 of Some (Inr s2) \<Rightarrow> run_updates T Ops us s2 | _ \<Rightarrow> None) | _ \<Rightarrow> None)"

text \<open>The finite map afterwards.\<close>

fun updated1 :: "update \<Rightarrow> (bytes \<rightharpoonup> bytes) \<Rightarrow> (bytes \<rightharpoonup> bytes)" where
  "updated1 (Put k v) m = m(k \<mapsto> v)"
| "updated1 (Remove k) m = m(k := None)"

definition updated :: "update list \<Rightarrow> (bytes \<rightharpoonup> bytes) \<Rightarrow> (bytes \<rightharpoonup> bytes)" where
  "updated us m = fold updated1 us m"

lemma updated_simps [simp]: "updated [] m = m" "updated (u # us) m = updated us (updated1 u m)"
  by (simp_all add: updated_def)

text \<open>The bound on the requests of an update when \<open>c\<close> pages are in use before it.\<close>

fun step_cost :: "nat \<Rightarrow> update \<Rightarrow> nat" where
  "step_cost c (Put k v) = 4 + length k + 2 * c"
| "step_cost c (Remove k) = 4 + 2 * c"

fun updates_cost :: "nat \<Rightarrow> update list \<Rightarrow> nat" where
  "updates_cost c [] = 0"
| "updates_cost c (u # us) = step_cost c u + updates_cost (c + step_cost c u) us"

definition put_ok :: "traits \<Rightarrow> bytes \<times> bytes \<Rightarrow> bool" where
  "put_ok T kv \<longleftrightarrow> length (fst kv) \<le> MAX_KEY_SIZE T \<and> value_ok T (length (snd kv))"

text \<open>An allocator that counts the pages in use: with a total budget \<open>B\<close>, what is left bounds them.\<close>

definition within :: "nat \<Rightarrow> (nat \<Rightarrow> 'm \<Rightarrow> nat set \<Rightarrow> bool) \<Rightarrow> nat \<Rightarrow> 'm \<Rightarrow> nat set \<Rightarrow> bool" where
  "within B live n m L \<longleftrightarrow> live n m L \<and> finite L \<and> card L + n \<le> B"

fun update_ok :: "traits \<Rightarrow> update \<Rightarrow> (bytes \<rightharpoonup> bytes) \<Rightarrow> bool" where
  "update_ok T (Put k v) m \<longleftrightarrow> put_ok T (k, v)"
| "update_ok T (Remove k) m \<longleftrightarrow> length k \<le> MAX_KEY_SIZE T \<and> m k \<noteq> None"

fun updates_ok :: "traits \<Rightarrow> update list \<Rightarrow> (bytes \<rightharpoonup> bytes) \<Rightarrow> bool" where
  "updates_ok T [] m \<longleftrightarrow> True"
| "updates_ok T (u # us) m \<longleftrightarrow> update_ok T u m \<and> updates_ok T us (updated1 u m)"

text \<open>Values that are not marked as big.\<close>

definition plain :: "(bytes \<rightharpoonup> bytes) \<Rightarrow> (bytes \<rightharpoonup> bool \<times> bytes)" where
  "plain m = (\<lambda>k. map_option (Pair False) (m k))"

lemma plain_upd: "plain (m(k := v)) = (plain m)(k := map_option (Pair False) v)"
  by (auto simp: plain_def)

lemma plain_values: "map_option snd (plain m key) = m key" "plain m key \<noteq> None \<longleftrightarrow> m key \<noteq> None"
  by (simp_all add: plain_def option.map_comp comp_def option.map_ident)

definition map_holds :: "traits \<Rightarrow> ('m, 'z) cursor_scheme \<Rightarrow> (bytes \<rightharpoonup> bool \<times> bytes) \<Rightarrow> atree option \<Rightarrow> bool" where
  "map_holds T s M ot \<longleftrightarrow> cursor_on T ot s \<and> map_of (db_entries ot) = M \<and> (stack s = [] \<or> is_valid s) \<and> (ot = None \<longrightarrow> current_key s = [])"

context page_allocator
begin

lemma within_allocator: "page_allocator T Ops (within B live)"
proof
  fix n m L slot
  assume l: "within B live (Suc n) m L" and i: "slot < length (PAGE_SIZES T)"
  obtain a m' where a: "op_alloc Ops slot m = Some (a, m')" "a \<noteq> 0" "a \<notin> L" "live n m' (insert a L)"
    using alloc_fresh[of n m L slot] l i by (auto simp: within_def)
  then have "within B live n m' (insert a L)" using l by (simp add: within_def)
  then show "\<exists>a m'. op_alloc Ops slot m = Some (a, m') \<and> a \<noteq> 0 \<and> a \<notin> L \<and> within B live n m' (insert a L)" using a by blast
next
  fix n m L a slot
  assume l: "within B live (Suc n) m L" and a: "a \<in> L" and i: "slot < length (PAGE_SIZES T)"
  obtain m' where f: "op_free Ops a slot m = Some m'" "live n m' (L - {a})" using free_live[of n m L a slot] l a i by (auto simp: within_def)
  have "card (L - {a}) \<le> card L" using l by (simp add: within_def card_mono)
  then have "within B live n m' (L - {a})" using f(2) l by (simp add: within_def)
  then show "\<exists>m'. op_free Ops a slot m = Some m' \<and> within B live n m' (L - {a})" using f(1) by blast
next
  show "within B live n m L" if "within B live (Suc n) m L" for n m L using that live_Suc by (auto simp: within_def)
qed

text \<open>One update, with enough requests left for it: what is left bounds the pages in use.\<close>

lemma run_update_ok:
  assumes T: "page_traits T" and u: "update_ok T u m" and s: "map_holds T s (plain m) ot"
    and o: "db_owned T (within (r + step_cost c u + c) live) (r + step_cost c u) L ot s"
  shows "\<exists>s1 s2 ot' L'. cursor_find T (update_key u) s = Some (Inr s1) \<and> run_update T Ops u s1 = Some (Inr s2)
    \<and> map_holds T s2 (plain (updated1 u m)) ot' \<and> db_owned T (within (r + step_cost c u + c) live) r L' ot' s2"
proof -
  let ?live = "within (r + step_cost c u + c) live"
  note H = s[unfolded map_holds_def]
  have less: "db_owned T ?live r L' ot' s'" if "db_owned T ?live N L' ot' s'" "r \<le> N" for N L' ot' and s' :: "('m, 'z) cursor_scheme"
    using that page_allocator.owns_less[OF within_allocator, of "r + step_cost c u + c" N L' s' r] by (simp add: db_owned_def)
  have len: "length (addrs t) \<le> c" if "ot = Some t" for t
  proof -
    have "distinct (addrs t)" "set (addrs t) \<subseteq> L" "finite L" "card L \<le> c"
      using o that by (auto simp: db_owned_def owns_def within_def)
    then show ?thesis by (metis card_mono distinct_card le_trans)
  qed
  show ?thesis
  proof (cases u)
    case (Put k v)
    define N where "N = r + step_cost c u - put_cost ot k"
    have "put_cost ot k \<le> step_cost c u" using len Put by (auto simp: put_cost_def split: option.splits)
    then have N: "r + step_cost c u = N + put_cost ot k" "r \<le> N" by (simp_all add: N_def)
    have v: "value_ok T (length v)" "length k \<le> MAX_KEY_SIZE T" using u Put by (simp_all add: put_ok_def)
    have o': "db_owned T ?live (N + put_cost ot k) L ot s" using o N(1) by simp
    obtain s1 s2 where f: "cursor_find T k s = Some (Inr s1)" "cursor_put T Ops v s1 = Some (Inr s2)"
      "put_done T ?live N (map_of (db_entries ot)) k v s2"
      using page_allocator.find_put[OF within_allocator T v(1) _ _ _ v(2) o'] H by blast
    obtain t L' where t: "cursor_at T t s2" "map_of (entries t) = (map_of (db_entries ot))(k \<mapsto> (False, v))" "is_valid s2" "db_owned T ?live N L' (Some t) s2"
      using f(3) by (auto simp: put_done_def)
    have "map_holds T s2 (plain (updated1 u m)) (Some t)"
      using t(1-3) H Put by (simp add: map_holds_def cursor_on_def db_entries_def plain_upd)
    then show ?thesis using f(1,2) less[OF t(4) N(2)] Put by auto
  next
    case (Remove k)
    have k: "length k \<le> MAX_KEY_SIZE T" "map_of (db_entries ot) k \<noteq> None" using u H Remove by (simp_all add: plain_def)
    then obtain t where t: "ot = Some t" by (cases ot) (auto simp: db_entries_def)
    define N where "N = r + step_cost c u - remove_cost t"
    have "remove_cost t \<le> step_cost c u" using len[OF t] Remove by (simp add: remove_cost_def)
    then have N: "r + step_cost c u = N + remove_cost t" "r \<le> N" by (simp_all add: N_def)
    have o': "db_owned T ?live (N + remove_cost t) L (Some t) s" using o N(1) t by simp
    have e: "map_of (entries t) k \<noteq> None" "map_of (entries t) = plain m" "cursor_at T t s" using k(2) H t by (auto simp: db_entries_def cursor_on_def)
    obtain s1 s2 where f: "cursor_find T k s = Some (Inr s1)" "cursor_remove T Ops s1 = Some (Inr s2)" "removed T ?live k N {} (plain m) s2"
      using find_remove[OF within_allocator T e(3) _ k(1) e(1) o'] H e(2) by auto
    obtain ot' L' where x: "cursor_on T ot' s2" "stack s2 = [] \<or> is_valid s2" "ot' = None \<longrightarrow> current_key s2 = []"
      "map_of (db_entries ot') = (plain m)(k := None)" "db_owned T ?live N L' ot' s2" using f(3) unfolding removed_def by blast
    then have "map_holds T s2 (plain (updated1 u m)) ot'" using Remove by (simp add: map_holds_def plain_upd)
    then show ?thesis using f(1,2) less[OF x(5) N(2)] Remove by auto
  qed
qed

text \<open>A sequence of updates, which keeps what every update keeps.\<close>

lemma run_updates_keep:
  assumes "page_traits T"
    and step: "\<And>s M ot u s1 s2. map_holds T s M ot \<Longrightarrow> cursor_find T (update_key u) s = Some (Inr s1) \<Longrightarrow>
      run_update T Ops u s1 = Some (Inr s2) \<Longrightarrow> I s \<Longrightarrow> I s2"
    and "updates_ok T us m" "map_holds T s (plain m) ot" "I s"
    and "db_owned T (within (n + updates_cost c us + c) live) (n + updates_cost c us) L ot s"
  shows "\<exists>s' ot'. run_updates T Ops us s = Some s' \<and> map_holds T s' (plain (updated us m)) ot' \<and> I s'"
  using assms(3-)
proof (induction us arbitrary: s m ot c L)
  case Nil
  then show ?case by auto
next
  case (Cons u us)
  let ?d = "step_cost c u"
  let ?r = "n + updates_cost (c + ?d) us"
  have B: "n + updates_cost c (u # us) = ?r + ?d" by simp
  have u: "update_ok T u m" "updates_ok T us (updated1 u m)" using Cons.prems(1) by simp_all
  from run_update_ok[OF assms(1) u(1) Cons.prems(2) Cons.prems(4)[unfolded B]] obtain s1 s2 ot2 L2 where
    f: "cursor_find T (update_key u) s = Some (Inr s1)" "run_update T Ops u s1 = Some (Inr s2)" "map_holds T s2 (plain (updated1 u m)) ot2"
    "db_owned T (within (?r + ?d + c) live) ?r L2 ot2 s2" by blast
  have e: "?r + ?d + c = ?r + (c + ?d)" by (simp only: add.assoc add.commute)
  have i: "I s2" by (rule step[OF Cons.prems(2) f(1,2) Cons.prems(3)])
  from Cons.IH[OF u(2) f(3) i f(4)[unfolded e]] show ?case using f(1,2) by auto
qed

end

lemma map_holds_find:
  assumes "cursor_traits T" "map_holds T s M ot" "length key \<le> MAX_KEY_SIZE T"
  shows "\<exists>s'. cursor_find T key s = Some (Inr s') \<and> (is_valid s' \<longleftrightarrow> M key \<noteq> None)
    \<and> (is_valid s' \<longrightarrow> cursor_value s' = map_option snd (M key))"
proof -
  note H = assms(2)[unfolded map_holds_def]
  show ?thesis
  proof (cases ot)
    case None
    then show ?thesis using H assms(3)
      by (auto simp: cursor_on_def cursor_find_def find_from_def db_entries_def is_valid_def)
  next
    case (Some t)
    then have at: "cursor_at T t s" and m: "map_of (entries t) = M" using H by (auto simp: cursor_on_def db_entries_def)
    show ?thesis
    proof (cases "stack s = [] \<or> current_key s \<noteq> key")
      case True
      from cursor_find_found[OF assms(1) at assms(3) True] obtain s' where s': "cursor_find T key s = Some (Inr s')" "found_at t key s s'" by blast
      then show ?thesis using found_valid[OF s'(2) at] m by (auto simp: not_None_eq)
    next
      case False
      then have v: "is_valid s" "current_key s = key" "stack s \<noteq> []" using H by auto
      let ?s = "s\<lparr>rest_key := []\<rparr>"
      have f: "cursor_find T key s = Some (Inr ?s)"
        using keep_stack_same[OF assms(1), of "s\<lparr>rest_key := key\<rparr>"] v assms(3) by (simp add: cursor_find_def Let_def)
      have "is_valid ?s" "cursor_value ?s = cursor_value s" using v(1) reads_same_db[of s ?s] by (auto simp: same_db_def)
      moreover have "cursor_value s = map_option snd (M key)" "M key \<noteq> None"
        using valid_reads[OF at v(1)] lookup_entries[of t key] at m v(2) by (auto simp: cursor_at_def)
      ultimately show ?thesis using f by auto
    qed
  qed
qed

section \<open>Properties\<close>


definition ex_mm_leaves :: mm_traits where
  "ex_mm_leaves = \<lparr>mm_sizes = PAGE_SIZES ex_traits, mm_SLOT_ID = 2, mm_COUNT = 30\<rparr>"

text \<open>A manager whose storage can be extended by \<open>n\<close> areas of 4096 bytes.\<close>

definition ex_areas :: "nat \<Rightarrow> nat \<Rightarrow> (nat \<times> nat) list" where
  "ex_areas b n = map (\<lambda>i. (b + 4096 * i, b + 4096 * i + 4096)) [0..<n]"

definition ex_manager :: "nat \<Rightarrow> nat \<Rightarrow> mm" where
  "ex_manager b n = mm_init ex_mm_leaves 4096 8192 \<lparr>allocation_start = 0, allocation_end = 0, left_over_start = 0, left_over_end = 0,
     slots = [], containers = (\<lambda>_. \<lparr>c_next = 0, c_blocks = (\<lambda>_. (0, 0))\<rparr>), page_slot = (\<lambda>_. 0), new_areas = ex_areas b n\<rparr>"

lemma ex_areas_Suc: "ex_areas b (Suc n) = (b, b + 4096) # ex_areas (b + 4096) n"
  by (simp add: ex_areas_def upt_conv_Cons map_Suc_upt[symmetric] comp_def algebra_simps del: upt_Suc)

lemma ex_areas_ok:
  assumes "A \<subseteq> {..<b}" "0 < b"
  shows "areas_ok 2432 A (ex_areas b n)"
  using assms
proof (induction n arbitrary: A b)
  case (Suc n)
  note ex_areas_Suc
  moreover have "A \<inter> {b..<b + 4096} = {}" using Suc.prems(1) by auto
  moreover have "areas_ok 2432 (A \<union> {b..<b + 4096}) (ex_areas (b + 4096) n)" using Suc.prems by (intro Suc.IH) auto
  ultimately show ?case using Suc.prems(2) by simp
qed (simp add: ex_areas_def)

lemma ex_page_traits: "page_traits ex_traits"
proof -
  have "trie_MAX_SIZE ex_traits + PAGE_HEADER_SIZE ex_traits \<le> last (PAGE_SIZES ex_traits)"
    by (simp add: trie_MAX_SIZE_def trie_HEADER_SIZE_def padding_def align_size_eq sizeof_uint32_e_def sizeof_offset_e_def
        MAX_BRANCH_COUNT_def ex_traits_def)
  then show ?thesis using ex_traits_cursor by (simp add: page_traits_def ex_traits_def)
qed

text \<open>\<open>may_recycle\<close> of the second transaction while the first one may still be read.\<close>

definition ex_recyc :: "tid \<Rightarrow> bool" where
  "ex_recyc t = serial_less t 1"

lemma ex_recyc_cur: "\<not> ex_recyc 2"
  by (simp add: ex_recyc_def) code_simp

lemma ex_manager_live: "mm_live ex_traits ex_mm_leaves ex_recyc 2 n (ex_manager 8192 n) {}"
proof -
  have ivl: "{4096..<8192} \<subseteq> {..<8192 :: nat}" by auto
  have "sizes_ok ex_mm_leaves" by (simp add: sizes_ok_def ex_mm_leaves_def ex_traits_def)
  moreover have "space_ok ex_mm_leaves (ex_manager 8192 n)"
    using ex_areas_ok[OF ivl, of n]
    by (auto simp: space_ok_def ex_manager_def mm_init_def alloc_space_def left_space_def ex_mm_leaves_def ex_traits_def)
  ultimately show ?thesis
    by (simp add: mm_live_def ex_manager_def mm_init_def ex_areas_def ex_recyc_cur queues_held_def)
      (simp add: ex_mm_leaves_def empty_slot_def slot_held_def)
qed

text \<open>The small database with its pages from the memory manager, opened by a later transaction.\<close>

definition ex_db :: "mm cursor" where
  "ex_db = \<lparr>heap = heap ex_cursor, mem = ex_manager 8192 100, root = Link TRIE 1, active_txn = 2,
    stack = [], spare = (\<lambda>_. 0), rest_key = [], current_key = []\<rparr>"

lemma ex_db_at: "cursor_at ex_traits ex_tree ex_db"
  using ex_cursor_at by (simp add: cursor_at_def ex_db_def ex_cursor_def)

lemma ex_areas_above: "areas_set (ex_areas b n) \<subseteq> {b..}"
proof (induction n arbitrary: b)
  case (Suc n)
  have "ex_areas b (Suc n) = (b, b + 4096) # ex_areas (b + 4096) n" by (rule ex_areas_Suc)
  then show ?case using Suc[of "b + 4096"] by auto
qed (simp add: ex_areas_def)

lemma ex_db_owned: "db_owned ex_traits (mm_live ex_traits ex_mm_leaves ex_recyc 2) 100 {1, 2, 3} (Some ex_tree) ex_db"
proof -
  have "\<forall>a\<in>{1, 2, 3}. \<exists>p. heap ex_db a = Some p \<and> page_ok ex_traits p"
    by (simp add: ex_db_def ex_cursor_def ex_page_def page_ok_def leaf_fits_def leaf_size_of_def leaf_HEADER_SIZE_def ex_leaf_reads)
      (simp add: ex_traits_def)
  moreover have "mm_live ex_traits ex_mm_leaves ex_recyc 2 100 (mem ex_db) {1, 2, 3}"
    using ex_manager_live[of 100]
      ex_areas_above[of 8192 100]
    by (auto simp: mm_live_def queues_held_def ex_db_def ex_manager_def mm_init_def space_def alloc_space_def left_space_def ex_mm_leaves_def ex_traits_def)
  ultimately show ?thesis by (simp add: db_owned_def owns_def ex_tree_def)
qed





definition ex_empty :: "nat \<Rightarrow> mm cursor" where
  "ex_empty n = \<lparr>heap = (\<lambda>_. None), mem = ex_manager 8192 n, root = 0, active_txn = 2, stack = [], spare = (\<lambda>_. 0), rest_key = [], current_key = []\<rparr>"


end
