(* ===== verification/Leaves_Snapshot.thy ===== *)
theory Leaves_Snapshot
  imports Leaves_Database
begin

text \<open>
  Older versions under copy on write: the pages of a version that another transaction made are not
  touched by the puts and removals of the active transaction, so that a reader of that version keeps
  its contents. The contract the allocator has to keep is a locale of its own, interpreted on the
  memory manager with its check of \<open>may_recycle\<close>, while the page at the front of every queue is held.
\<close>

section \<open>Pages that must not change\<close>

text \<open>
  The pages \<open>P\<close> were written by other transactions than \<open>cur\<close>. Leaves marked as big values are left out:
  \<open>copy_reduced_leaf\<close> clears their flag in place.
\<close>

definition old_pages :: "nat set \<Rightarrow> heap \<Rightarrow> tid \<Rightarrow> bool" where
  "old_pages P h cur \<longleftrightarrow> (\<forall>a\<in>P. \<exists>p. h a = Some p \<and> page_txn p \<noteq> cur \<and> (\<forall>l. body p = LeafN l \<longrightarrow> \<not> leaf_is_big l))"

locale page_guard =
  fixes Ops :: "'m db_ops" and J :: "'m \<Rightarrow> bool" and P :: "nat set"
  assumes versioned: "op_cow Ops"
    and alloc_outside: "J m \<Longrightarrow> op_alloc Ops slot m = Some (a, m') \<Longrightarrow> a \<notin> P \<and> J m'"
    and free_guarded: "J m \<Longrightarrow> op_free Ops a slot m = Some m' \<Longrightarrow> J m'"

definition intact :: "('m \<Rightarrow> bool) \<Rightarrow> nat set \<Rightarrow> heap \<Rightarrow> tid \<Rightarrow> ('m, 'z) cursor_scheme \<Rightarrow> bool" where
  "intact J P h cur s \<longleftrightarrow> old_pages P h cur \<and> (\<forall>a\<in>P. heap s a = h a) \<and> J (mem s) \<and> active_txn s = cur"

text \<open>The cell a cursor may write: the root field, or a slot of a page that is not protected.\<close>

fun outside :: "nat set \<Rightarrow> loc \<Rightarrow> bool" where
  "outside P LRoot = True"
| "outside P (LSlot a i) = (a \<notin> P)"

definition rooted :: "('m, 'z) cursor_scheme \<Rightarrow> bool" where
  "rooted s \<longleftrightarrow> stack s \<noteq> [] \<and> t_offset (stack s ! 0) = LRoot"

definition tip :: "nat set \<Rightarrow> ('m, 'z) cursor_scheme \<Rightarrow> bool" where
  "tip P s \<longleftrightarrow> stack s \<noteq> [] \<and> t_node (stack s ! top_idx s) \<notin> P"

lemma upd_tr_intact [simp]: "intact J P h cur (upd_tr d f s) = intact J P h cur s"
  by (simp add: intact_def upd_tr_def)

lemma move_intact [simp]:
  "intact J P h cur (advance_key n s) = intact J P h cur s"
  "intact J P h cur (append_key bs s) = intact J P h cur s"
  "intact J P h cur (resize_key n s) = intact J P h cur s"
  "intact J P h cur (clear_stack n s) = intact J P h cur s"
  "intact J P h cur (pop s) = intact J P h cur s"
  "intact J P h cur (s\<lparr>rest_key := k\<rparr>) = intact J P h cur s"
  "intact J P h cur (s\<lparr>stack := xs\<rparr>) = intact J P h cur s"
  by (simp_all add: intact_def advance_key_def append_key_def resize_key_def clear_stack_def pop_def)

lemma push_loc_intact: "push_loc l s = Some s' \<Longrightarrow> intact J P h cur s' = intact J P h cur s"
  by (auto simp: push_loc_def intact_def split: bind_splits)

lemma push_intact: "push s = Some s' \<Longrightarrow> intact J P h cur s' = intact J P h cur s"
  unfolding push_def by (rule push_loc_intact)

section \<open>Writes outside the pages\<close>

lemma set_page_intact: "set_page a f s = Some s' \<Longrightarrow> intact J P h cur s \<Longrightarrow> a \<notin> P \<Longrightarrow> intact J P h cur s' \<and> stack s' = stack s \<and> rest_key s' = rest_key s"
  by (auto simp: set_page_def intact_def split: bind_splits)

lemma put_intact:
  "put_trie a n s = Some s' \<Longrightarrow> intact J P h cur s \<Longrightarrow> a \<notin> P \<Longrightarrow> intact J P h cur s' \<and> stack s' = stack s \<and> rest_key s' = rest_key s"
  "put_leaf a l s = Some s' \<Longrightarrow> intact J P h cur s \<Longrightarrow> a \<notin> P \<Longrightarrow> intact J P h cur s' \<and> stack s' = stack s \<and> rest_key s' = rest_key s"
  unfolding put_trie_def put_leaf_def by (rule set_page_intact; assumption)+

lemma write_loc_intact:
  "write_loc l k s = Some s' \<Longrightarrow> intact J P h cur s \<Longrightarrow> outside P l \<Longrightarrow> intact J P h cur s' \<and> stack s' = stack s \<and> rest_key s' = rest_key s"
  by (cases l) (auto simp: intact_def put_trie_def set_page_def split: bind_splits if_splits)

text \<open>A link that was written is read back.\<close>

lemma write_read: "write_loc l k s = Some s' \<Longrightarrow> read_loc s' l = Some k"
  by (cases l) (auto simp: put_trie_def set_page_def trie_at_def split: bind_splits if_splits)

lemma writable_page: "intact J P h cur s \<Longrightarrow> op_cow Ops \<Longrightarrow> heap s a = Some p \<Longrightarrow> \<not> needs_cow Ops s p \<Longrightarrow> a \<notin> P"
  by (auto simp: intact_def old_pages_def needs_cow_def)

context page_guard
begin

lemma alloc_slot_intact:
  assumes "alloc_slot Ops slot s = Some (a, s')" "intact J P h cur s"
  shows "intact J P h cur s' \<and> a \<notin> P \<and> stack s' = stack s \<and> rest_key s' = rest_key s"
proof -
  obtain m where m: "op_alloc Ops slot (mem s) = Some (a, m)"
    "s' = s\<lparr>mem := m, heap := (heap s)(a \<mapsto> \<lparr>page_txn = active_txn s, used = 0, slot_id = slot, body = Raw\<rparr>)\<rparr>"
    using assms(1) by (auto simp: alloc_slot_def split: bind_splits)
  have "a \<notin> P \<and> J m" using alloc_outside[OF _ m(1)] assms(2) by (simp add: intact_def)
  then show ?thesis using assms(2) by (auto simp: m(2) intact_def)
qed

lemma alloc_node_intact:
  assumes "alloc_node T Ops n s = Some (a, s')" "intact J P h cur s"
  shows "intact J P h cur s' \<and> a \<notin> P \<and> stack s' = stack s \<and> rest_key s' = rest_key s"
  using assms by (auto simp: alloc_node_def alloc_page_def Let_def split: bind_splits if_splits
      dest!: alloc_slot_intact[where h = h and cur = cur] set_page_intact)

lemma free_node_intact:
  assumes "free_node Ops a s = Some s'" "intact J P h cur s"
  shows "intact J P h cur s' \<and> stack s' = stack s \<and> rest_key s' = rest_key s"
  using assms free_guarded by (auto simp: free_node_def intact_def split: bind_splits)

section \<open>Copy on write along the path\<close>

lemma cow_copy_intact:
  assumes "cow_copy Ops d s = Some s'" "intact J P h cur s" "d < length (stack s)"
  shows "intact J P h cur s' \<and> rest_key s' = rest_key s
    \<and> (\<exists>a. a \<notin> P \<and> stack s' = (stack s)[d := (stack s ! d)\<lparr>t_node := a\<rparr>])"
proof -
  obtain k f a s1 s2 where p: "alloc_slot Ops k s = Some (a, s1)" "set_page a f s1 = Some s2"
    "free_node Ops (t_node (stack s ! d)) (upd_tr d (\<lambda>tr. tr\<lparr>t_node := a\<rparr>) s2) = Some s'"
    using assms(1) by (auto simp: cow_copy_def Let_def split: bind_splits)
  note a = alloc_slot_intact[OF p(1) assms(2)]
  have b: "intact J P h cur s2 \<and> stack s2 = stack s1 \<and> rest_key s2 = rest_key s1" using set_page_intact[OF p(2)] a by blast
  then have "intact J P h cur (upd_tr d (\<lambda>tr. tr\<lparr>t_node := a\<rparr>) s2)" by simp
  from free_node_intact[OF p(3) this] show ?thesis using a b by (auto simp: upd_tr_def)
qed

lemma relink_intact:
  assumes "relink d l s = Some (k, s')" "intact J P h cur s" "outside P l"
  shows "intact J P h cur s' \<and> rest_key s' = rest_key s \<and> k = link_of_tr (stack s ! d) \<and> stack s' = (stack s)[d := (stack s ! d)\<lparr>t_offset := l\<rparr>]"
proof -
  have w: "write_loc l (Link TRIE (t_node (stack s ! d))) (upd_tr d (\<lambda>tr. tr\<lparr>t_offset := l\<rparr>) s) = Some s'" "k = link_of_tr (stack s ! d)"
    using assms(1) by (auto simp: relink_def split: bind_splits)
  show ?thesis using write_loc_intact[OF w(1) _ assms(3), of J h cur] assms(2) w(2) by (simp add: upd_tr_def)
qed

lemma update_tr_intact:
  assumes "update_tr Ops d s = Some (l, s')" "intact J P h cur s" "rooted s" "d < length (stack s)"
  shows "intact J P h cur s' \<and> outside P l \<and> rooted s' \<and> length (stack s') = length (stack s) \<and> rest_key s' = rest_key s
    \<and> (\<forall>e>d. stack s' ! e = stack s ! e)"
  using assms
proof (induction d arbitrary: s l s')
  case 0
  obtain p where p: "heap s (t_node (stack s ! 0)) = Some p" using 0(1) by (auto split: bind_splits)
  show ?case
  proof (cases "needs_cow Ops s p")
    case True
    then obtain s1 where c: "cow_copy Ops 0 s = Some s1" "relink 0 (t_offset (stack s1 ! 0)) s1 = Some (l, s')"
      using 0(1) p by (auto split: bind_splits)
    from cow_copy_intact[OF c(1) 0(2,4)] obtain a where a: "a \<notin> P" "stack s1 = (stack s)[0 := (stack s ! 0)\<lparr>t_node := a\<rparr>]"
      "intact J P h cur s1" "rest_key s1 = rest_key s" by blast
    have "t_offset (stack s1 ! 0) = LRoot" using 0(3,4) a(2) by (simp add: rooted_def)
    then show ?thesis using relink_intact[OF c(2) a(3)] a 0(3,4) by (auto simp: rooted_def link_of_tr_def)
  next
    case False
    then show ?thesis using 0 p writable_page[OF 0(2) versioned p False] by (auto simp: link_of_tr_def)
  qed
next
  case (Suc d)
  obtain p where p: "heap s (t_node (stack s ! Suc d)) = Some p" using Suc.prems(1) by (auto split: bind_splits)
  show ?case
  proof (cases "needs_cow Ops s p")
    case True
    then obtain s1 k s2 where c: "cow_copy Ops (Suc d) s = Some s1" "update_tr Ops d s1 = Some (k, s2)" "relink (Suc d) k s2 = Some (l, s')"
      using Suc.prems(1) p by (auto split: bind_splits)
    from cow_copy_intact[OF c(1) Suc.prems(2,4)] obtain a where a: "a \<notin> P" "stack s1 = (stack s)[Suc d := (stack s ! Suc d)\<lparr>t_node := a\<rparr>]"
      "intact J P h cur s1" "rest_key s1 = rest_key s" by blast
    have r: "rooted s1" "d < length (stack s1)" using Suc.prems(3,4) a(2) by (auto simp: rooted_def)
    note u = Suc.IH[OF c(2) a(3) r]
    have o: "outside P k" "intact J P h cur s2" using u by blast+
    have e: "stack s2 ! Suc d = (stack s ! Suc d)\<lparr>t_node := a\<rparr>" using u a(2) Suc.prems(4) by simp
    note x = relink_intact[OF c(3) o(2,1)]
    have "outside P l" using x e a(1) by (simp add: link_of_tr_def)
    moreover have "rooted s'" using u x by (auto simp: rooted_def)
    moreover have "\<forall>e>Suc d. stack s' ! e = stack s ! e" using u x a(2) by auto
    ultimately show ?thesis using u x a by simp
  next
    case False
    then show ?thesis using Suc.prems p writable_page[OF Suc.prems(2) versioned p False] by (auto simp: link_of_tr_def)
  qed
qed

lemma update_offset_intact:
  assumes "update_offset Ops d k s = Some s'" "intact J P h cur s" "rooted s" "d < length (stack s)"
  shows "intact J P h cur s' \<and> length (stack s') = length (stack s) \<and> rest_key s' = rest_key s \<and> (\<forall>e\<ge>d. t_node (stack s' ! e) = t_node (stack s ! e))"
proof -
  obtain l s1 where c: "(case d of 0 \<Rightarrow> Some (t_offset (stack s ! 0), s) | Suc e \<Rightarrow> update_tr Ops e s) = Some (l, s1)"
    "write_loc l k (upd_tr d (\<lambda>tr. tr\<lparr>t_offset := l\<rparr>) s1) = Some s'"
    using assms(1) unfolding update_offset_def by (auto split: bind_splits)
  have u: "intact J P h cur s1 \<and> outside P l \<and> length (stack s1) = length (stack s) \<and> rest_key s1 = rest_key s \<and> (\<forall>e\<ge>d. stack s1 ! e = stack s ! e)"
  proof (cases d)
    case 0
    then show ?thesis using c(1) assms(2,3) by (auto simp: rooted_def)
  next
    case (Suc e)
    then have "update_tr Ops e s = Some (l, s1)" "e < length (stack s)" using c(1) assms(4) by simp_all
    from update_tr_intact[OF this(1) assms(2,3) this(2)] show ?thesis using Suc by auto
  qed
  then have i: "intact J P h cur (upd_tr d (\<lambda>tr. tr\<lparr>t_offset := l\<rparr>) s1)" "outside P l" by simp_all
  show ?thesis using write_loc_intact[OF c(2) i] u assms(4) by (auto simp: upd_tr_def nth_list_update)
qed

end

section \<open>Insertion\<close>

text \<open>After the link above it is in place, an insertion only writes through the transition on top of the stack.\<close>

lemma push_writtenD:
  assumes "push s1 = Some s'" "write_loc (link_of_tr (stack s ! top_idx s)) (Link ty a) s = Some s1" "stack s1 = stack s"
    "intact J P h cur s1" "a \<notin> P"
  shows "intact J P h cur s' \<and> tip P s' \<and> rest_key s' = rest_key s1"
proof -
  have "read_loc s1 (link_of_tr (stack s ! top_idx s)) = Some (Link ty a)" by (rule write_read[OF assms(2)])
  then have "stack s' \<noteq> [] \<and> t_node (last (stack s')) = a \<and> rest_key s' = rest_key s1"
    using assms(1,3) by (auto simp: push_def push_loc_def top_idx_def split: bind_splits)
  then show ?thesis using push_intact[OF assms(1), of J P h cur] assms(4,5) by (auto simp: tip_def top_idx_def last_conv_nth)
qed

lemma tip_updates:
  "tip P s \<Longrightarrow> (\<And>tr. t_node (f tr) = t_node tr) \<Longrightarrow> tip P (upd_tr (top_idx s) f s)"
  "tip P (advance_key n s) = tip P s"
  by (simp_all add: tip_def upd_tr_def advance_key_def top_idx_def)

lemma link_outside: "tip P s \<Longrightarrow> outside P (link_of_tr (stack s ! top_idx s))"
  by (simp add: tip_def link_of_tr_def)

lemma fill_bigkey_intact:
  assumes "fill_bigkey T s = Some s'" "intact J P h cur s" "tip P s"
  shows "intact J P h cur s' \<and> tip P s'"
proof -
  obtain n :: "link trie_node" and i where n: "create_key T (take 255 (rest_key s)) (uint (rest_key s ! 255)) = (n, i)" by fastforce
  obtain s1 where s1: "put_trie (t_node (stack s ! top_idx s)) n s = Some s1"
    "s' = advance_key 255 (upd_tr (top_idx s) (\<lambda>tr. tr\<lparr>t_branch_key := rest_key s ! 255, t_link_idx := i,
        t_prefix := length (take 255 (rest_key s)), t_cmp := 0\<rparr>) s1)"
    using assms(1) n by (auto simp: fill_bigkey_def Let_def split: bind_splits)
  have "t_node (stack s ! top_idx s) \<notin> P" using assms(3) by (simp add: tip_def)
  from put_intact(1)[OF s1(1) assms(2) this] have "intact J P h cur s1" "stack s1 = stack s" by simp_all
  then have "tip P s1" "top_idx s1 = top_idx s" using assms(3) by (simp_all add: tip_def top_idx_def)
  then show ?thesis using \<open>intact J P h cur s1\<close> tip_updates(1)[of P s1] unfolding s1(2) by (simp add: tip_updates(2))
qed

context page_guard
begin

lemma fill_leaf_intact:
  assumes "fill_leaf T Ops vsz key s = Some (a, s')" "intact J P h cur s"
  shows "intact J P h cur s' \<and> a \<notin> P \<and> stack s' = stack s \<and> rest_key s' = rest_key s"
proof -
  obtain s1 where s1: "alloc_node T Ops (leaf_size_of T (length key) vsz) s = Some (a, s1)"
    "put_leaf a (leaf_set (fresh_leaf (length key + vsz)) key vsz) s1 = Some s'"
    using assms(1) by (auto simp: fill_leaf_def split: bind_splits)
  note a = alloc_node_intact[OF s1(1) assms(2)]
  show ?thesis using put_intact(2)[OF s1(2), of J P h cur] a by simp
qed

lemma new_child_intact:
  assumes "alloc_node T Ops n s = Some (a, s1)" "write_loc (link_of_tr (stack s1 ! top_idx s1)) (Link TRIE a) s1 = Some s2" "push s2 = Some s3"
    "intact J P h cur s" "tip P s"
  shows "intact J P h cur s3 \<and> tip P s3"
proof -
  note a = alloc_node_intact[OF assms(1,4)]
  have "tip P s1" using a assms(5) by (simp add: tip_def top_idx_def)
  then have w: "intact J P h cur s2 \<and> stack s2 = stack s1" using write_loc_intact[OF assms(2) _ link_outside, of J P h cur] a by simp
  show ?thesis using push_writtenD[OF assms(3,2)] w a by blast
qed

lemma create_bigkey_intact:
  assumes "create_bigkey T Ops s = Some s'" "intact J P h cur s" "tip P s"
  shows "intact J P h cur s' \<and> tip P s'"
proof -
  have "intact J P h cur s \<longrightarrow> tip P s \<longrightarrow> intact J P h cur s' \<and> tip P s'"
  proof (rule create_bigkey.raw_induct[where P = "\<lambda>T O' s s'. O' = Ops \<longrightarrow> intact J P h cur s \<longrightarrow> tip P s \<longrightarrow> intact J P h cur s' \<and> tip P s'",
        OF _ assms(1), THEN mp, OF _ refl])
    fix cb and T and O' :: "'m db_ops" and s s' :: "('m, 'z) cursor_scheme"
    assume IH: "\<And>T O' s s'. cb T O' s = Some s' \<Longrightarrow> O' = Ops \<longrightarrow> intact J P h cur s \<longrightarrow> tip P s \<longrightarrow> intact J P h cur s' \<and> tip P s'"
      and r: "(if length (rest_key s) > 255 then
        do { (a, s1) \<leftarrow> alloc_node T O' (trie_size_branches T 255 1) s;
             s2 \<leftarrow> write_loc (link_of_tr (stack s1 ! top_idx s1)) (Link TRIE a) s1;
             s3 \<leftarrow> push s2; s4 \<leftarrow> fill_bigkey T s3; cb T O' s4 } else Some s) = Some s'"
    show "O' = Ops \<longrightarrow> intact J P h cur s \<longrightarrow> tip P s \<longrightarrow> intact J P h cur s' \<and> tip P s'"
    proof (intro impI)
      assume a: "O' = Ops" "intact J P h cur s" "tip P s"
      show "intact J P h cur s' \<and> tip P s'"
      proof (cases "length (rest_key s) > 255")
        case True
        then obtain a' s1 s2 s3 s4 where x: "alloc_node T O' (trie_size_branches T 255 1) s = Some (a', s1)"
          "write_loc (link_of_tr (stack s1 ! top_idx s1)) (Link TRIE a') s1 = Some s2" "push s2 = Some s3" "fill_bigkey T s3 = Some s4" "cb T O' s4 = Some s'"
          using r by (auto split: bind_splits)
        have "intact J P h cur s3 \<and> tip P s3" using new_child_intact[OF x(1)[unfolded a(1)] x(2,3) a(2,3)] .
        then have "intact J P h cur s4 \<and> tip P s4" using fill_bigkey_intact[OF x(4)] by blast
        then show ?thesis using IH[OF x(5)] a(1) by blast
      qed (use r a in simp)
    qed
  qed
  then show ?thesis using assms by blast
qed

lemma create_leaf_intact:
  assumes "create_leaf T Ops vsz s = Some s'" "intact J P h cur s" "tip P s"
  shows "intact J P h cur s' \<and> tip P s'"
proof -
  obtain s1 a s2 s3 s4 where x: "create_bigkey T Ops s = Some s1" "fill_leaf T Ops vsz (rest_key s1) s1 = Some (a, s2)"
    "write_loc (link_of_tr (stack s2 ! top_idx s2)) (Link LEAF a) s2 = Some s3" "push s3 = Some s4"
    "s' = advance_key (length (rest_key s4)) (upd_tr (top_idx s4) (\<lambda>tr. tr\<lparr>t_cmp := 0, t_prefix := length (rest_key s4)\<rparr>) s4)"
    using assms(1) by (auto simp: create_leaf_def Let_def split: bind_splits)
  have b: "intact J P h cur s1" "tip P s1" using create_bigkey_intact[OF x(1) assms(2,3)] by blast+
  note f = fill_leaf_intact[OF x(2) b(1)]
  have "tip P s2" using f b(2) by (simp add: tip_def top_idx_def)
  then have w: "intact J P h cur s3 \<and> stack s3 = stack s2" using write_loc_intact[OF x(3) _ link_outside, of J P h cur] f by simp
  have "intact J P h cur s4 \<and> tip P s4" using push_writtenD[OF x(4,3)] w f by blast
  then show ?thesis unfolding x(5) using tip_updates(1)[of P s4] by (simp add: tip_updates(2))
qed

lemma first_exec_intact:
  assumes "first_exec T Ops vsz s = Some s'" "intact J P h cur s" "stack s \<noteq> []" "t_offset (stack s ! top_idx s) = LRoot"
  shows "intact J P h cur s' \<and> tip P s'"
proof -
  have tipI: "tip P (upd_tr (top_idx s) (\<lambda>tr. tr\<lparr>t_node := a\<rparr>) t)" if "a \<notin> P" "stack t = stack s" for a and t :: "('m, 'z) cursor_scheme"
    using that assms(3) by (simp add: tip_def upd_tr_def top_idx_def)
  show ?thesis
  proof (cases "length (rest_key s) > 255")
    case True
    then obtain a s1 s2 s3 where x: "alloc_node T Ops (trie_size_branches T 255 1) s = Some (a, s1)" "write_loc LRoot (Link TRIE a) s1 = Some s2"
      "fill_bigkey T (upd_tr (top_idx s) (\<lambda>tr. tr\<lparr>t_node := a\<rparr>) s2) = Some s3" "create_leaf T Ops vsz s3 = Some s'"
      using assms(1,4) by (auto simp: first_exec_def Let_def split: bind_splits)
    note a = alloc_node_intact[OF x(1) assms(2)]
    have w: "intact J P h cur s2 \<and> stack s2 = stack s" using write_loc_intact[OF x(2), of J P h cur] a by simp
    have "intact J P h cur s3 \<and> tip P s3" using fill_bigkey_intact[OF x(3), of J P h cur] w tipI[of a s2] a by simp
    then show ?thesis using create_leaf_intact[OF x(4)] by blast
  next
    case False
    then obtain a s1 s2 where x: "fill_leaf T Ops vsz (rest_key s) s = Some (a, s1)"
      "write_loc LRoot (Link LEAF a) (upd_tr (top_idx s) (\<lambda>tr. tr\<lparr>t_node := a\<rparr>) s1) = Some s2"
      "s' = advance_key (length (rest_key s)) (upd_tr (top_idx s) (\<lambda>tr. tr\<lparr>t_cmp := 0, t_prefix := length (rest_key s)\<rparr>) s2)"
      using assms(1,4) by (auto simp: first_exec_def Let_def split: bind_splits)
    note a = fill_leaf_intact[OF x(1) assms(2)]
    let ?t = "upd_tr (top_idx s) (\<lambda>tr. tr\<lparr>t_node := a\<rparr>) s1"
    have w: "intact J P h cur s2 \<and> stack s2 = stack ?t" using write_loc_intact[OF x(2), of J P h cur] a by simp
    have "tip P ?t" using tipI a by blast
    then have "tip P s2" "top_idx s2 = top_idx s" using w a by (simp_all add: tip_def top_idx_def upd_tr_def)
    then show ?thesis unfolding x(3) using tip_updates(1)[of P s2] w by (simp add: tip_updates(2))
  qed
qed

text \<open>The common end of a change: a new page for the node at \<open>d\<close>, linked from above.\<close>

lemma replace_top_intact:
  assumes "free_node Ops x (upd_tr (top_idx s) f s) = Some s1" "update_offset Ops (top_idx s) k s1 = Some s2"
    "intact J P h cur s" "rooted s" "t_node (f (stack s ! top_idx s)) \<notin> P" "\<And>tr. t_offset (f tr) = t_offset tr"
  shows "intact J P h cur s2 \<and> tip P s2 \<and> top_idx s2 = top_idx s"
proof -
  let ?s = "upd_tr (top_idx s) f s"
  have st: "stack ?s = (stack s)[top_idx s := f (stack s ! top_idx s)]" by (simp add: upd_tr_def)
  have d: "top_idx s < length (stack s)" using assms(4) by (simp add: rooted_def top_idx_def)
  have f: "intact J P h cur s1 \<and> stack s1 = stack ?s" using free_node_intact[OF assms(1)] assms(3) by simp
  have "rooted s1" using f assms(4,6) st d by (auto simp: rooted_def nth_list_update)
  moreover have "top_idx s < length (stack s1)" using f st d by simp
  ultimately have u: "intact J P h cur s2 \<and> length (stack s2) = length (stack s1) \<and> t_node (stack s2 ! top_idx s) = t_node (stack s1 ! top_idx s)"
    using update_offset_intact[OF assms(2)] f by blast
  then have "top_idx s2 = top_idx s" "stack s2 \<noteq> []" using f st d by (auto simp: top_idx_def)
  then show ?thesis using u f st d assms(5) by (simp add: tip_def)
qed

lemma split_compressed_intact:
  assumes "split_compressed T Ops vsz s = Some s'" "intact J P h cur s" "rooted s"
  shows "intact J P h cur s' \<and> tip P s'"
proof -
  obtain ca nc ns s1 nd s2 n a nn s3 ln s4 s5 s6 where x: "alloc_node T Ops ns s = Some (ca, s1)" "put_trie ca nc s1 = Some s2"
    "alloc_node T Ops nn s2 = Some (a, s3)" "put_trie a n s3 = Some s4"
    "free_node Ops (t_node (stack s ! top_idx s)) (upd_tr (top_idx s) (\<lambda>tr. tr\<lparr>t_node := a, t_link_idx := nd,
        t_branch_key := (if rest_key s2 = [] then t_branch_key tr else hd (rest_key s2))\<rparr>) s4) = Some s5"
    "update_offset Ops (top_idx s) ln s5 = Some s6" "create_leaf T Ops vsz s6 = Some s'"
    using assms(1) by (auto simp: split_compressed_def Let_def split: bind_splits prod.splits)
  note a1 = alloc_node_intact[OF x(1) assms(2)]
  have p1: "intact J P h cur s2 \<and> stack s2 = stack s1" using put_intact(1)[OF x(2), of J P h cur] a1 by simp
  then have a2: "intact J P h cur s3 \<and> a \<notin> P \<and> stack s3 = stack s2" using alloc_node_intact[OF x(3)] by blast
  then have p2: "intact J P h cur s4 \<and> stack s4 = stack s3" using put_intact(1)[OF x(4), of J P h cur] by simp
  have st: "stack s4 = stack s" "top_idx s4 = top_idx s" "rooted s4" using a1 p1 a2 p2 assms(3) by (simp_all add: top_idx_def rooted_def)
  have "intact J P h cur s6 \<and> tip P s6" using replace_top_intact[OF x(5,6)[folded st(2)] _ st(3), of h cur] p2 a2 by simp
  then show ?thesis using create_leaf_intact[OF x(7)] by blast
qed

lemma add_to_array_intact:
  assumes "add_to_array T Ops vsz s = Some s'" "intact J P h cur s" "rooted s"
  shows "intact J P h cur s' \<and> tip P s'"
proof -
  let ?d = "top_idx s" and ?old = "t_node (stack s ! top_idx s)"
  let ?key = "if rest_key s = [] then NONE else uint (t_branch_key (stack s ! top_idx s))"
  obtain otrie p where o: "trie_at s ?old = Some otrie" "heap s ?old = Some p" using assms(1)
    by (auto simp: add_to_array_def Let_def split: bind_splits)
  show ?thesis
  proof (cases "\<not> needs_cow Ops s p \<and> increment_size T otrie ?key \<le> PAGE_SIZES T ! slot_id p - PAGE_HEADER_SIZE T")
    case True
    then obtain n i s1 s2 where x: "insert_branch otrie ?key = (n, i)" "put_trie ?old n s = Some s1"
      "set_page ?old (\<lambda>p. p\<lparr>used := increment_size T otrie ?key\<rparr>) s1 = Some s2"
      "create_leaf T Ops vsz (upd_tr ?d (\<lambda>tr. tr\<lparr>t_link_idx := i, t_cmp := 0\<rparr>) s2) = Some s'"
      using assms(1) o unfolding add_to_array_def Let_def by (simp split: prod.splits bind_splits)
    have old: "?old \<notin> P" using writable_page[OF assms(2) versioned o(2)] True by blast
    then have b: "intact J P h cur s2 \<and> stack s2 = stack s"
      using put_intact(1)[OF x(2) assms(2)] set_page_intact[OF x(3), of J P h cur] by auto
    then have "tip P s2" "top_idx s2 = ?d" using old assms(3) by (simp_all add: tip_def top_idx_def rooted_def)
    then show ?thesis using create_leaf_intact[OF x(4), of h cur] tip_updates(1)[of P s2] b by simp
  next
    case False
    obtain n i where n: "create_add T otrie ?key = (n, i)" by fastforce
    obtain a s1 s2 s3 s4 where x: "alloc_node T Ops (increment_size T otrie ?key) s = Some (a, s1)"
      "put_trie a n s1 = Some s2" "free_node Ops ?old (upd_tr ?d (\<lambda>tr. tr\<lparr>t_node := a, t_link_idx := i\<rparr>) s2) = Some s3"
      "update_offset Ops ?d (Link TRIE a) s3 = Some s4" "create_leaf T Ops vsz (upd_tr ?d (\<lambda>tr. tr\<lparr>t_cmp := 0\<rparr>) s4) = Some s'"
      using assms(1) o n unfolding add_to_array_def Let_def by (auto simp: if_not_P[OF False] split: bind_splits)
    note a1 = alloc_node_intact[OF x(1) assms(2)]
    have p1: "intact J P h cur s2 \<and> stack s2 = stack s1" using put_intact(1)[OF x(2), of J P h cur] a1 by simp
    have st: "top_idx s2 = ?d" "rooted s2" using a1 p1 assms(3) by (simp_all add: top_idx_def rooted_def)
    have u: "intact J P h cur s4 \<and> tip P s4 \<and> top_idx s4 = top_idx s2" using replace_top_intact[OF x(3,4)[folded st(1)] _ st(2), of h cur] p1 a1 by simp
    then show ?thesis using create_leaf_intact[OF x(5), of h cur] tip_updates(1)[of P s4] st(1) by simp
  qed
qed

lemma copy_reduced_leaf_intact:
  assumes "copy_reduced_leaf T Ops k old oleaf s = Some (a, c, s')" "leaf_at s old = Some oleaf" "intact J P h cur s"
  shows "intact J P h cur s' \<and> stack s' = stack s"
proof -
  obtain ns s1 s2 where x: "alloc_node T Ops ns s = Some (a, s1)" "put_leaf a c s1 = Some s2"
    "(if leaf_is_big oleaf then put_leaf old (clear_big oleaf) s2 else Some s2) = Some s'"
    using assms(1) by (auto simp: copy_reduced_leaf_def Let_def split: bind_splits)
  have "leaf_is_big oleaf \<Longrightarrow> old \<notin> P"
    using assms(2,3) by (force simp: leaf_at_def intact_def old_pages_def split: bind_splits node.splits)
  moreover have "intact J P h cur s2 \<and> stack s2 = stack s" using alloc_node_intact[OF x(1) assms(3)] put_intact(2)[OF x(2), of J P h cur] by simp
  ultimately show ?thesis using x(3) put_intact(2)[of old _ s2 s' J P h cur] by (auto split: if_splits)
qed

lemma change_leaf_intact:
  assumes "change_leaf T Ops vsz s = Some s'" "intact J P h cur s" "rooted s"
  shows "intact J P h cur s' \<and> tip P s'"
proof -
  let ?d = "top_idx s" and ?old = "t_node (stack s ! top_idx s)"
  obtain oleaf where o: "leaf_at s ?old = Some oleaf" using assms(1) by (auto simp: change_leaf_def Let_def split: bind_splits)
  show ?thesis
  proof (cases "t_cmp (stack s ! ?d) = 0")
    case True
    then obtain a s1 s2 where x: "fill_leaf T Ops vsz (leaf_key oleaf) s = Some (a, s1)" "free_node Ops ?old (upd_tr ?d (\<lambda>tr. tr\<lparr>t_node := a\<rparr>) s1) = Some s2"
      "update_offset Ops ?d (Link LEAF a) s2 = Some s'"
      using assms(1) o by (auto simp: change_leaf_def Let_def split: bind_splits)
    note a1 = fill_leaf_intact[OF x(1) assms(2)]
    have st: "top_idx s1 = ?d" "rooted s1" using a1 assms(3) by (simp_all add: top_idx_def rooted_def)
    show ?thesis using replace_top_intact[OF x(2,3)[folded st(1)] _ st(2), of h cur] a1 by simp
  next
    case False
    then obtain ca copy s1 nn n a s2 s3 j bk s4 s5 where x: "copy_reduced_leaf T Ops (t_prefix (stack s ! ?d)) ?old oleaf s = Some (ca, copy, s1)"
      "alloc_node T Ops nn s1 = Some (a, s2)" "put_trie a n s2 = Some s3"
      "free_node Ops ?old (upd_tr ?d (\<lambda>tr. tr\<lparr>t_node := a, t_link_idx := j, t_branch_key := bk, t_cmp := 0\<rparr>) s3) = Some s4"
      "update_offset Ops ?d (Link TRIE a) s4 = Some s5" "create_leaf T Ops vsz s5 = Some s'"
      using assms(1) o by (auto simp: change_leaf_def Let_def split: bind_splits prod.splits)
    have c: "intact J P h cur s1 \<and> stack s1 = stack s" using copy_reduced_leaf_intact[OF x(1) o assms(2)] .
    then have a1: "intact J P h cur s2 \<and> a \<notin> P \<and> stack s2 = stack s1" using alloc_node_intact[OF x(2)] by blast
    then have p1: "intact J P h cur s3 \<and> stack s3 = stack s2" using put_intact(1)[OF x(3), of J P h cur] by simp
    have st: "top_idx s3 = ?d" "rooted s3" using c a1 p1 assms(3) by (simp_all add: top_idx_def rooted_def)
    have "intact J P h cur s5 \<and> tip P s5" using replace_top_intact[OF x(4,5)[folded st(1)] _ st(2), of h cur] p1 a1 by simp
    then show ?thesis using create_leaf_intact[OF x(6)] by blast
  qed
qed

lemma cursor_put_intact:
  assumes "cursor_put T Ops v s = Some (Inr s')" "intact J P h cur s" "stack s = [] \<or> rooted s"
  shows "intact J P h cur s'"
proof -
  obtain s1 l where x: "cursor_reserve T Ops (length v) s = Some (Inr s1)" "put_leaf (t_node (stack s1 ! top_idx s1)) (leaf_write l v) s1 = Some s'"
    using assms(1) by (auto simp: cursor_put_def Let_def split: bind_splits sum.splits)
  have "intact J P h cur s1 \<and> tip P s1"
  proof (cases "stack s = []")
    case True
    then obtain s0 where p: "push_loc LRoot s = Some s0" "first_exec T Ops (length v) s0 = Some s1"
      using x(1) by (auto simp: cursor_reserve_def split: if_splits bind_splits)
    have "stack s0 \<noteq> [] \<and> t_offset (stack s0 ! top_idx s0) = LRoot" using p(1) True by (auto simp: push_loc_def top_idx_def)
    then show ?thesis using first_exec_intact[OF p(2)] push_loc_intact[OF p(1), of J P h cur] assms(2) by simp
  next
    case False
    then have r: "rooted s" "insert_exec T Ops (length v) s = Some s1" using assms(3) x(1) by (simp_all add: cursor_reserve_def)
    then show ?thesis using change_leaf_intact[of T "length v" s s1] add_to_array_intact[of T "length v" s s1] split_compressed_intact[of T "length v" s s1] assms(2)
      by (auto simp: insert_exec_def Let_def split: if_splits bind_splits)
  qed
  then show ?thesis using put_intact(2)[OF x(2), of J P h cur] by (simp add: tip_def)
qed

end

section \<open>Removal\<close>

lemma enter_intact: "enter d n i s = Some s' \<Longrightarrow> intact J P h cur s' = intact J P h cur s"
  unfolding enter_def using push_intact by fastforce

lemma first_tr_intact:
  fixes s s' :: "('m, 'z) cursor_scheme"
  assumes "first_tr s = Some s'"
  shows "intact J P h cur s' = intact J P h cur s"
proof (rule first_tr.raw_induct[where P = "\<lambda>s s'. intact J P h cur s' = intact J P h cur s", OF _ assms])
  fix ft :: "('m, 'z) cursor_scheme \<Rightarrow> ('m, 'z) cursor_scheme option" and s s' :: "('m, 'z) cursor_scheme"
  assume IH: "\<And>s s'. ft s = Some s' \<Longrightarrow> intact J P h cur s' = intact J P h cur s"
    and r: "(let d = top_idx s; a = t_node (stack s ! d)
      in if is_leaf s d then do { l \<leftarrow> leaf_at s a; Some (leaf_step d l s) }
         else do { n \<leftarrow> trie_at s a; s1 \<leftarrow> enter d n 0 s; s2 \<leftarrow> ft s1; Some (set_branch d (t_keypos (stack s1 ! Suc d)) s2) }) = Some s'"
  show "intact J P h cur s' = intact J P h cur s"
  proof (cases "is_leaf s (top_idx s)")
    case True
    then show ?thesis using r by (auto simp: Let_def leaf_step_def split: bind_splits)
  next
    case False
    then obtain n s1 s2 kp where "enter (top_idx s) n 0 s = Some s1" "ft s1 = Some s2" "s' = set_branch (top_idx s) kp s2"
      using r by (auto simp: Let_def split: bind_splits)
    then show ?thesis using enter_intact[of _ _ _ s s1] IH[of s1 s2] by (simp add: set_branch_def)
  qed
qed

lemma next_tr_intact: "next_tr s = Some (r, s') \<Longrightarrow> intact J P h cur s' = intact J P h cur s"
  by (auto simp: next_tr_def Let_def leaf_step_def load_branch_def split: bind_splits if_splits dest!: push_intact first_tr_intact)

lemma step_loop_intact:
  assumes "\<And>s r s'. f s = Some (r, s') \<Longrightarrow> intact J P h cur s' = intact J P h cur s"
  shows "step_loop f k s = Some s' \<Longrightarrow> intact J P h cur s' = intact J P h cur s"
proof (induction k arbitrary: s)
  case (Suc k)
  then obtain r t where t: "f s = Some (r, t)" "(if r then Some t else step_loop f k (pop t)) = Some s'" by (auto split: bind_splits)
  show ?case using t(2) Suc.IH[of "pop t"] assms[OF t(1)] by (auto split: if_splits)
qed simp

lemma cursor_next_intact:
  assumes "cursor_next s = Some s'"
  shows "intact J P h cur s' = intact J P h cur s"
proof -
  have "step_loop next_tr (length (stack s)) (s\<lparr>rest_key := []\<rparr>) = Some s'" using assms by (simp add: cursor_next_def)
  from step_loop_intact[OF next_tr_intact this] show ?thesis by simp
qed

lemma pop_stack [simp]: "stack (pop s) = take (top_idx s) (stack s)"
  by (simp add: pop_def clear_stack_def resize_key_def)

context page_guard
begin

text \<open>The new node of a removal takes the place of the node at \<open>d\<close>.\<close>

lemma new_node_intact:
  assumes "alloc_node T Ops n s = Some (a, s1)" "set_page a f s1 = Some s2"
    "update_offset Ops d k (upd_tr d (\<lambda>tr. tr\<lparr>t_node := a\<rparr>) s2) = Some s3" "intact J P h cur s" "rooted s" "d < length (stack s)"
  shows "intact J P h cur s3"
proof -
  note a = alloc_node_intact[OF assms(1,4)]
  then have "intact J P h cur s2 \<and> stack s2 = stack s" using set_page_intact[OF assms(2), of J P h cur] by simp
  moreover from this have "rooted (upd_tr d (\<lambda>tr. tr\<lparr>t_node := a\<rparr>) s2)"
    using assms(5,6) by (auto simp: rooted_def upd_tr_def nth_list_update)
  ultimately show ?thesis using update_offset_intact[OF assms(3), of h cur] assms(6) by (simp add: upd_tr_def)
qed

lemma reduce_array_intact:
  assumes "reduce_array T Ops d pfx s = Some s'" "intact J P h cur s" "rooted s" "d < length (stack s)"
  shows "intact J P h cur s'"
proof -
  obtain n nd a k s1 s2 s3 s4 b f where x: "alloc_node T Ops n s = Some (a, s1)" "put_trie a nd s1 = Some s2"
    "update_offset Ops d k (upd_tr d (\<lambda>tr. tr\<lparr>t_node := a\<rparr>) s2) = Some s3" "free_node Ops b s3 = Some s4" "cursor_next (upd_tr d f s4) = Some s'"
    using assms(1) unfolding reduce_array_def Let_def by (auto split: bind_splits)
  have "intact J P h cur s3" using new_node_intact[OF x(1) x(2)[unfolded put_trie_def] x(3) assms(2-4)] .
  then show ?thesis using free_node_intact[OF x(4), of h cur] cursor_next_intact[OF x(5), of J P h cur] by simp
qed

lemma combine_intact:
  assumes "combine T Ops d pfx s = Some s'" "intact J P h cur s" "rooted s" "d < length (stack s)"
  shows "intact J P h cur s'"
proof -
  let ?tr = "stack s ! d"
  have fin: "intact J P h cur s'"
    if f: "free_node Ops (t_node ?tr) (upd_tr d (\<lambda>tr. tr\<lparr>t_cmp := 1\<rparr>) t) = Some t1" "intact J P h cur t"
      and n: "(if t_link_idx ?tr \<noteq> 0 then cursor_next t1 else first_tr (resize_key (t_keypos ?tr) t1)) = Some s'" for t t1
  proof -
    have "intact J P h cur t1" using free_node_intact[OF f(1), of h cur] f(2) by simp
    then show ?thesis using n cursor_next_intact[of t1 s' J P h cur] first_tr_intact[of "resize_key (t_keypos ?tr) t1" s' J P h cur]
      by (simp split: if_splits)
  qed
  obtain otrie where o: "trie_at s (t_node ?tr) = Some otrie" using assms(1) by (auto simp: combine_def Let_def split: bind_splits)
  let ?rest = "array otrie ! (if t_link_idx ?tr \<noteq> 0 then 0 else 1)"
  show ?thesis
  proof (cases "reduce_array T Ops d pfx s = Some s'")
    case True
    then show ?thesis using reduce_array_intact assms(2-4) by blast
  next
    case False
    have "\<exists>n a s1 f s2 k s3 s4 s5. alloc_node T Ops n s = Some (a, s1) \<and> set_page a f s1 = Some s2
      \<and> update_offset Ops d k (upd_tr d (\<lambda>tr. tr\<lparr>t_node := a\<rparr>) s2) = Some s3 \<and> free_node Ops (laddr ?rest) s3 = Some s4
      \<and> free_node Ops (t_node ?tr) (upd_tr d (\<lambda>tr. tr\<lparr>t_cmp := 1\<rparr>) s4) = Some s5
      \<and> (if t_link_idx ?tr \<noteq> 0 then cursor_next s5 else first_tr (resize_key (t_keypos ?tr) s5)) = Some s'"
    proof (cases "ltype ?rest")
      case TRIE
      show ?thesis using assms(1) o TRIE False
        by (simp add: combine_def Let_def put_trie_def del: ex_simps split: bind_splits prod.splits if_split_asm) blast+
    next
      case LEAF
      show ?thesis using assms(1) o LEAF False
        by (simp add: combine_def Let_def put_leaf_def del: ex_simps split: bind_splits prod.splits if_split_asm) blast+
    qed
    then obtain n a s1 f s2 k s3 s4 s5 where new: "alloc_node T Ops n s = Some (a, s1)" "set_page a f s1 = Some s2"
      "update_offset Ops d k (upd_tr d (\<lambda>tr. tr\<lparr>t_node := a\<rparr>) s2) = Some s3" "free_node Ops (laddr ?rest) s3 = Some s4"
      "free_node Ops (t_node ?tr) (upd_tr d (\<lambda>tr. tr\<lparr>t_cmp := 1\<rparr>) s4) = Some s5"
      "(if t_link_idx ?tr \<noteq> 0 then cursor_next s5 else first_tr (resize_key (t_keypos ?tr) s5)) = Some s'" by blast
    have "intact J P h cur s3" using new_node_intact[OF new(1-3) assms(2-4)] .
    then have "intact J P h cur s4" using free_node_intact[OF new(4)] by blast
    from fin[OF new(5) this new(6)] show ?thesis .
  qed
qed

lemma remove_node_intact:
  assumes "remove_node T Ops d s = Some s'" "intact J P h cur s" "rooted s" "d = top_idx s"
  shows "intact J P h cur s'"
  using assms
proof (induction d arbitrary: s s')
  case 0
  then obtain s1 s2 where x: "write_loc LRoot 0 s = Some s1" "free_node Ops (t_node (stack s ! 0)) s1 = Some s2" "s' = pop s2"
    by (auto simp: rooted_def split: bind_splits)
  have "intact J P h cur s1" using write_loc_intact[OF x(1) 0(2)] by simp
  then show ?case using free_node_intact[OF x(2)] x(3) by simp
next
  case (Suc d)
  let ?s = "pop s" and ?pfx = "t_prefix (stack s ! Suc d)"
  have st: "rooted ?s" "top_idx ?s = d" "d < length (stack ?s)" "intact J P h cur ?s"
    using Suc.prems(2-4) by (auto simp: rooted_def top_idx_def)
  obtain n s2 where x: "trie_at ?s (t_node (stack ?s ! d)) = Some n"
    "(if node_count n = 0 then Some ?s else if node_count n = 1 then remove_node T Ops d ?s
      else if node_count n = 2 then combine T Ops d ?pfx ?s else reduce_array T Ops d ?pfx ?s) = Some s2"
    "free_node Ops (t_node (stack s ! Suc d)) s2 = Some s'"
    using Suc.prems(1) unfolding remove_node.simps Let_def bind_eq_Some_conv by blast
  have "intact J P h cur s2"
    using x(2) st(4) Suc.IH[OF _ st(4,1) st(2)[symmetric], of s2] combine_intact[OF _ st(4,1,3), of T ?pfx s2]
      reduce_array_intact[OF _ st(4,1,3), of T ?pfx s2] by (auto split: if_split_asm)
  then show ?case using free_node_intact[OF x(3)] by blast
qed

lemma cursor_remove_intact:
  assumes "cursor_remove T Ops s = Some (Inr s')" "intact J P h cur s" "rooted s"
  shows "intact J P h cur s'"
proof -
  have "remove_node T Ops (top_idx s) s = Some s'" using assms(1) by (auto simp: cursor_remove_def split: if_splits)
  from remove_node_intact[OF this assms(2,3) refl] show ?thesis .
qed

end

section \<open>The memory manager guards pages\<close>

definition mm_guard :: "mm_traits \<Rightarrow> (tid \<Rightarrow> bool) \<Rightarrow> tid \<Rightarrow> nat set \<Rightarrow> mm \<Rightarrow> bool" where
  "mm_guard C recyc cur P m \<longleftrightarrow> \<not> recyc cur \<and> queues_held C recyc m \<and> sizes_ok C \<and> space_ok C m \<and> length (slots m) = length (mm_sizes C) \<and> space m \<inter> P = {}"

interpretation guard: page_guard "mm_ops C recyc cur True" "mm_guard C recyc cur P" P for C recyc cur P
proof
  show "op_cow (mm_ops C recyc cur True)" by (simp add: mm_ops_def)
next
  fix m slot a m'
  assume J: "mm_guard C recyc cur P m" and al: "op_alloc (mm_ops C recyc cur True) slot m = Some (a, m')"
  have ok: "space_ok C m" "sizes_ok C" "length (slots m) = length (mm_sizes C)" "space m \<inter> P = {}" "queues_held C recyc m" "\<not> recyc cur"
    using J by (simp_all add: mm_guard_def)
  have x: "mm_exec C (\<lambda>_. False) cur (MAlloc slot) m = Some (a, m')" "a \<noteq> 0" unfolding alloc_held[OF ok(5), symmetric] using al by (auto simp: mm_ops_def split: option.splits if_splits)
  have i: "slot < length (slots m)"
  proof (rule ccontr)
    assume "\<not> slot < length (slots m)"
    then show False using x(1) by (simp add: mm_exec.simps(1,3))
  qed
  have b: "bump_alloc C slot m = (a, m')" using x(1) alloc_protected[OF i] by simp
  have t: "space_ok C m'" "takes (page_at C slot a) m m'" using bump_alloc_space[OF ok(1,2) _ b x(2)] i ok(3) by auto
  have "a \<in> page_at C slot a" using ok(2,3) i by (auto simp: page_at_def sizes_ok_def)
  then have "a \<in> space m" "space m' \<subseteq> space m" using t(2) by (auto simp: takes_def)
  moreover have "length (slots m') = length (slots m)" using bump_alloc_slots[of C slot m] b by simp
  moreover have "queues_held C recyc m'" by (rule held_same[OF ok(5) bump_alloc_same[OF b]])
  ultimately show "a \<notin> P \<and> mm_guard C recyc cur P m'" using ok t(1) unfolding mm_guard_def by auto
next
  fix m a slot m'
  assume J: "mm_guard C recyc cur P m" and f: "op_free (mm_ops C recyc cur True) a slot m = Some m'"
  have q: "queues_held C recyc m" "\<not> recyc cur" "mm_SLOT_ID C < length (slots m)" using J by (simp_all add: mm_guard_def sizes_ok_def)
  obtain r where x: "mm_exec C (\<lambda>_. False) cur (MFree a) m = Some (r, m')"
    unfolding free_held[OF q(1), symmetric] using f by (auto simp: mm_ops_def)
  have "queues_held C recyc m'" using push_held[OF q] x by (simp add: mm_exec.simps(2))
  with free_protected[OF _ _ _ x] show "mm_guard C recyc cur P m'" using J unfolding mm_guard_def by auto
qed

section \<open>Readers of an older version\<close>

lemma cursor_at_rooted:
  assumes "cursor_at T t s" "stack s \<noteq> []"
  shows "rooted s"
proof -
  obtain trs tr "is" c l kp where x: "stack s = trs @ [tr]" "spine (current_key s) t LRoot 0 trs is c l kp" "top_ok (current_key s) l kp c tr"
    using assms by (auto simp: cursor_at_def stack_on_def)
  show ?thesis
  proof (cases trs)
    case Nil
    then show ?thesis using x by (auto simp: rooted_def spine_Nil top_ok_def on_tree_def)
  next
    case (Cons tr0 trs')
    then show ?thesis using x by (auto simp: rooted_def on_tree_def elim: spine_ConsE)
  qed
qed

lemma find_keeps:
  assumes "cursor_traits T" "map_holds T s M ot" "cursor_find T key s = Some (Inr s')"
  shows "same_db s s' \<and> (stack s' = [] \<or> rooted s')"
proof -
  note H = assms(2)[unfolded map_holds_def]
  have key: "length key \<le> MAX_KEY_SIZE T" using assms(3) by (auto simp: cursor_find_def split: if_splits)
  show ?thesis
  proof (cases ot)
    case None
    then show ?thesis using H assms(3) key
      by (auto simp: cursor_on_def cursor_find_def find_from_def same_db_def)
  next
    case (Some t)
    then have at: "cursor_at T t s" using H by (simp add: cursor_on_def)
    show ?thesis
    proof (cases "stack s = [] \<or> current_key s \<noteq> key")
      case True
      from cursor_find_found[OF assms(1) at key True] have f: "found_at t key s s'" using assms(3) by auto
      then show ?thesis using found_cursor_at[OF f at] cursor_at_rooted by (auto simp: found_at_def)
    next
      case False
      then have v: "current_key s = key" "stack s \<noteq> []" by auto
      have "s' = s\<lparr>rest_key := []\<rparr>"
        using keep_stack_same[OF assms(1), of "s\<lparr>rest_key := key\<rparr>"] v assms(3) key by (simp add: cursor_find_def Let_def)
      then show ?thesis using cursor_at_rooted[OF at v(2)] by (simp add: same_db_def rooted_def)
    qed
  qed
qed

lemma run_update_intact:
  assumes "page_guard Ops J P" "cursor_traits T" "map_holds T s M ot" "cursor_find T (update_key u) s = Some (Inr s1)"
    and "run_update T Ops u s1 = Some (Inr s2)" "intact J P h cur s"
  shows "intact J P h cur s2"
proof -
  have k: "same_db s s1" "stack s1 = [] \<or> rooted s1" using find_keeps[OF assms(2-4)] by blast+
  have i: "intact J P h cur s1" using k(1) assms(6) by (simp add: intact_def same_db_def)
  show ?thesis
  proof (cases u)
    case (Put key v)
    then show ?thesis using page_guard.cursor_put_intact[OF assms(1) _ i k(2)] assms(5) by simp
  next
    case (Remove key)
    then have r: "cursor_remove T Ops s1 = Some (Inr s2)" using assms(5) by simp
    then have "stack s1 \<noteq> []" by (auto simp: cursor_remove_def is_valid_def split: if_splits)
    then show ?thesis using page_guard.cursor_remove_intact[OF assms(1) r i] k(2) by blast
  qed
qed

text \<open>What a search of a key returns, with a cursor.\<close>

definition reads :: "traits \<Rightarrow> bytes \<Rightarrow> ('m, 'z) cursor_scheme \<Rightarrow> bytes option \<Rightarrow> bool" where
  "reads T key s v \<longleftrightarrow> (\<exists>s'. cursor_find T key s = Some (Inr s') \<and> (is_valid s' \<longleftrightarrow> v \<noteq> None) \<and> (is_valid s' \<longrightarrow> cursor_value s' = v))"

lemma map_holds_reads:
  assumes "cursor_traits T" "map_holds T s (plain m) ot" "length key \<le> MAX_KEY_SIZE T"
  shows "reads T key s (m key)"
  using map_holds_find[OF assms, unfolded plain_values] unfolding reads_def .

lemma stack_heap: "stack (r\<lparr>heap := h\<rparr>) = stack r"
  by simp

lemma map_holds_heap:
  assumes "map_holds T r M (Some v)" "\<And>a. a \<in> set (addrs v) \<Longrightarrow> h a = heap r a"
  shows "map_holds T (r\<lparr>heap := h\<rparr>) M (Some v)"
proof -
  let ?r = "r\<lparr>heap := h\<rparr>"
  have at: "cursor_at T v r" using assms(1) by (simp add: map_holds_def cursor_on_def)
  then have "holds T h v" using holds_cong[of T "heap r" v h] assms(2) by (simp add: cursor_at_def)
  then have at': "cursor_at T v ?r" using at by (simp add: cursor_at_def stack_on_def)
  have "is_valid ?r" if ne: "stack r \<noteq> []" and iv: "is_valid r"
  proof -
    have "t_cmp (last (stack r)) = 0" using cursor_valid_iff[OF at ne] iv by (metis last_snoc)
    then show ?thesis using cursor_valid_iff[OF at'] ne by (metis last_snoc stack_heap)
  qed
  then show ?thesis using assms(1) at' by (auto simp: map_holds_def cursor_on_def is_valid_def)
qed

section \<open>Properties\<close>



end
