(* ===== verification/Leaves_BigMemory.thy ===== *)
theory Leaves_BigMemory
  imports Leaves_Util Leaves_Serial "HOL-Library.Multiset"
begin

text \<open>
  Memory for values larger than a page (\<open>include/leaves/intern/memory/_bigmemory.hpp\<close>). Chunks are cut
  from areas; freed chunks are the keys of a trie of their own, ordered by n, and the rest of the
  last chunk that was cut is the hot region. The trie of free chunks is the one whose cursor refines a
  finite map with the entries in key order; here it is the list of its entries. Memory that
  holds the header of a chunk is a function from offsets, so that stale headers can be read.
\<close>

section \<open>Keys of free chunks\<close>

text \<open>\<open>_FreeKey\<close>: the size as a big-endian number, and the offset, whose lowest bit says that a chunk of the
  same area follows.\<close>

type_synonym free_key = "nat \<times> nat"

fun be_bytes :: "nat \<Rightarrow> nat \<Rightarrow> nat list" where
  "be_bytes 0 x = []"
| "be_bytes (Suc n) x = (x div 256 ^ n mod 256) # be_bytes n x"

definition fkey_bytes :: "free_key \<Rightarrow> nat list" where
  "fkey_bytes k = be_bytes 8 (fst k) @ rev (be_bytes 8 (snd k))"

definition FREE_KEY_SIZE :: nat where
  "FREE_KEY_SIZE = 16"

definition clear_flag :: "nat \<Rightarrow> nat" where
  "clear_flag x = x - x mod 2"

definition set_flag :: "nat \<Rightarrow> bool \<Rightarrow> nat" where
  "set_flag x f = (if f then clear_flag x + 1 else x)"

text \<open>Keys are compared as byte strings; those behind \<open>(n, 0)\<close> have at least the size \<open>n\<close>.\<close>

lemma be_bytes_le: "be_bytes n x @ xs < be_bytes n y @ ys \<Longrightarrow> x mod 256 ^ n \<le> y mod 256 ^ n"
proof (induction n)
  case (Suc n)
  have m: "z mod 256 ^ Suc n = 256 ^ n * (z div 256 ^ n mod 256) + z mod 256 ^ n" for z :: nat
    using mod_mult2_eq[of z "256 ^ n" 256] by (simp add: mult.commute)
  have lt: "z mod 256 ^ n < 256 ^ n" for z :: nat by simp
  let ?a = "x div 256 ^ n mod 256" and ?b = "y div 256 ^ n mod 256"
  consider "?a < ?b" | "?a = ?b" "be_bytes n x @ xs < be_bytes n y @ ys" using Suc.prems by (auto simp: Cons_less_Cons)
  then show ?case
  proof cases
    case 1
    then have "256 ^ n * (?a + 1) \<le> 256 ^ n * ?b" by (intro mult_le_mono2) simp
    then show ?thesis unfolding m using lt[of x] by (simp only: distrib_left mult_1_right)
  next
    case 2
    then show ?thesis unfolding m using Suc.IH by simp
  qed
qed simp

lemma fkey_bytes_size:
  assumes "fkey_bytes (n, z) < fkey_bytes k" "n < 2 ^ 64" "fst k < 2 ^ 64"
  shows "n \<le> fst k"
proof -
  have p: "256 ^ 8 = (2 :: nat) ^ 64" by simp
  have "be_bytes 8 n @ rev (be_bytes 8 z) < be_bytes 8 (fst k) @ rev (be_bytes 8 (snd k))" using assms(1) by (simp only: fkey_bytes_def fst_conv snd_conv)
  from be_bytes_le[OF this] show ?thesis unfolding p using assms(2,3) by simp
qed

section \<open>State\<close>

record bigmem =
  hot_offset :: nat
  hot_size :: nat
  hot_successor :: bool
  free_index :: "(free_key \<times> tid) list"
  header :: "nat \<Rightarrow> free_key"

record big_traits =
  MAX_PAGE_SIZE :: nat
  AREA_SIZE :: nat
  AREA_HEADER :: nat

text \<open>\<open>_BigValue\<close>: where the data is, and its size, a 32-bit number.\<close>

record big_value =
  chunk_offset :: nat
  big_size :: uint32

definition modify_size :: "big_traits \<Rightarrow> nat \<Rightarrow> nat \<Rightarrow> nat \<Rightarrow> nat \<Rightarrow> nat" where
  "modify_size B leaf_header key n big_inline = (if leaf_header + n + key mod 256 > MAX_PAGE_SIZE B then big_inline mod 65536 else n mod 65536)"

section \<open>The index of free chunks\<close>

definition index_remove :: "free_key \<Rightarrow> (free_key \<times> tid) list \<Rightarrow> (free_key \<times> tid) list" where
  "index_remove k xs = filter (\<lambda>e. fst e \<noteq> k) xs"

definition index_put :: "free_key \<Rightarrow> tid \<Rightarrow> (free_key \<times> tid) list \<Rightarrow> (free_key \<times> tid) list" where
  "index_put k t xs =
     takeWhile (\<lambda>e. fkey_bytes (fst e) < fkey_bytes k) (index_remove k xs)
     @ (k, t) # dropWhile (\<lambda>e. fkey_bytes (fst e) < fkey_bytes k) (index_remove k xs)"

definition index_after :: "free_key \<Rightarrow> (free_key \<times> tid) list \<Rightarrow> (free_key \<times> tid) list" where
  "index_after k xs = filter (\<lambda>e. fkey_bytes k < fkey_bytes (fst e)) xs"

section \<open>Operations\<close>

definition reset_hot :: "bigmem \<Rightarrow> bigmem" where
  "reset_hot s = s\<lparr>hot_offset := 0, hot_size := 0, hot_successor := False\<rparr>"

definition add_free_chunk :: "nat \<Rightarrow> nat \<Rightarrow> bool \<Rightarrow> tid \<Rightarrow> bigmem \<Rightarrow> bigmem" where
  "add_free_chunk off sz succ t s = s\<lparr>free_index := index_put (sz, set_flag (clear_flag off) succ) t (free_index s)\<rparr>"

text \<open>The end of \<open>alloc\<close>: the header is written and the value refers to the bytes behind it.\<close>

definition take_chunk :: "nat \<Rightarrow> nat \<Rightarrow> nat \<Rightarrow> bool \<Rightarrow> bigmem \<Rightarrow> big_value \<times> bigmem" where
  "take_chunk n found fsize succ s =
     (\<lparr>chunk_offset = found + FREE_KEY_SIZE, big_size = word_of_nat n\<rparr>,
      s\<lparr>header := (header s)(found := (fsize, set_flag found succ))\<rparr>)"

definition alloc_hot :: "nat \<Rightarrow> nat \<Rightarrow> bigmem \<Rightarrow> big_value \<times> bigmem" where
  "alloc_hot n padded s =
     (let found = hot_offset s;
          s = s\<lparr>hot_offset := found + padded, hot_size := hot_size s - padded\<rparr>
      in if hot_size s = 0 then take_chunk n found padded (hot_successor s) (reset_hot s)
         else take_chunk n found padded True s)"

text \<open>The search among the ten next larger chunks, or a new area; its offset, size and whether a chunk follows.\<close>

definition find_chunk ::
  "big_traits \<Rightarrow> (tid \<Rightarrow> bool) \<Rightarrow> (nat \<Rightarrow> (nat \<times> nat) option) \<Rightarrow> nat \<Rightarrow> bigmem \<Rightarrow> (nat \<times> nat \<times> bool \<times> bigmem) option" where
  "find_chunk B recyc area padded s =
     (case find (\<lambda>e. recyc (snd e)) (take 10 (index_after (padded, 0) (free_index s))) of
        Some (k, t) \<Rightarrow> Some (clear_flag (snd k), fst k, odd (snd k), s\<lparr>free_index := index_remove k (free_index s)\<rparr>)
      | None \<Rightarrow> (case area (padding (padded + AREA_HEADER B) (AREA_SIZE B)) of
            None \<Rightarrow> None
          | Some (a, b) \<Rightarrow> Some (a, b - a, False, s)))"

definition split_chunk :: "nat \<Rightarrow> nat \<Rightarrow> nat \<Rightarrow> bool \<Rightarrow> bigmem \<Rightarrow> bigmem" where
  "split_chunk found padded delta succ s =
     (let s = (if hot_size s > 0 then add_free_chunk (hot_offset s) (hot_size s) (hot_successor s) 0 s else s)
      in s\<lparr>hot_offset := found + padded, hot_size := delta, hot_successor := succ\<rparr>)"

definition big_alloc ::
  "big_traits \<Rightarrow> (tid \<Rightarrow> bool) \<Rightarrow> (nat \<Rightarrow> (nat \<times> nat) option) \<Rightarrow> nat \<Rightarrow> bigmem \<Rightarrow> (big_value \<times> bigmem) option" where
  "big_alloc B recyc area n s =
     (let padded = padding (FREE_KEY_SIZE + n) (MAX_PAGE_SIZE B)
      in if hot_size s \<ge> padded then Some (alloc_hot n padded s)
         else case find_chunk B recyc area padded s of
           None \<Rightarrow> None
         | Some (found, fsize, succ, s) \<Rightarrow>
             let delta = fsize - padded
             in if delta \<ge> MAX_PAGE_SIZE B
                then Some (take_chunk n found padded True (split_chunk found padded delta succ s))
                else Some (take_chunk n found fsize succ s))"

text \<open>\<open>cur\<close> is the id of the active transaction, which \<open>mark_for_recycle\<close> writes.\<close>

definition big_free :: "tid \<Rightarrow> big_value \<Rightarrow> bigmem \<Rightarrow> bigmem" where
  "big_free cur v s =
     (let h = header s (chunk_offset v - FREE_KEY_SIZE) in add_free_chunk (clear_flag (snd h)) (fst h) (odd (snd h)) cur s)"

section \<open>No byte belongs to two chunks\<close>

text \<open>How many of the hot region, the free chunks and the chunks in use, given by their headers, have the byte \<open>x\<close>.\<close>

definition covers :: "nat \<Rightarrow> nat \<Rightarrow> nat \<Rightarrow> nat" where
  "covers x a n = (if a \<le> x \<and> x < a + n then 1 else 0)"

definition key_cover :: "nat \<Rightarrow> free_key \<Rightarrow> nat" where
  "key_cover x k = covers x (clear_flag (snd k)) (fst k)"

definition cover :: "bigmem \<Rightarrow> nat list \<Rightarrow> nat \<Rightarrow> nat" where
  "cover s us x = covers x (hot_offset s) (hot_size s) + sum_list (map (\<lambda>e. key_cover x (fst e)) (free_index s))
     + sum_list (map (\<lambda>u. covers x u (fst (header s u))) us)"

definition big_ok :: "bigmem \<Rightarrow> nat list \<Rightarrow> bool" where
  "big_ok s us \<longleftrightarrow> (\<forall>x. cover s us x \<le> 1) \<and> even (hot_offset s) \<and> hot_offset s + hot_size s < 2 ^ 64
     \<and> (\<forall>e\<in>set (free_index s). 0 < fst (fst e) \<and> clear_flag (snd (fst e)) + fst (fst e) < 2 ^ 64)
     \<and> (\<forall>u\<in>set us. even u \<and> 0 < fst (header s u) \<and> u + fst (header s u) < 2 ^ 64 \<and> clear_flag (snd (header s u)) = u)"

lemma covers_split: "p \<le> n \<Longrightarrow> covers x h p + covers x (h + p) (n - p) = covers x h n"
  by (auto simp: covers_def)

lemma covers_mono: "p \<le> n \<Longrightarrow> covers x h p \<le> covers x h n"
  by (auto simp: covers_def)

lemma covers_zero [simp]: "covers x h 0 = 0"
  by (simp add: covers_def)

lemma clear_flag_even [simp]: "even (clear_flag x)" "even x \<Longrightarrow> clear_flag x = x" "even x \<Longrightarrow> clear_flag (set_flag x f) = x"
proof -
  show e: "even (clear_flag x)" for x unfolding clear_flag_def by presburger
  show "clear_flag x = x" if "even x" using that by (simp add: clear_flag_def)
  show "clear_flag (set_flag x f) = x" if "even x" using that by (cases f) (simp_all add: clear_flag_def set_flag_def mod_Suc)
qed

lemma sum_filter_le: "sum_list (map (f :: 'a \<Rightarrow> nat) (filter P xs)) \<le> sum_list (map f xs)"
  by (induction xs) auto

lemma index_put_sum: "sum_list (map (f :: _ \<Rightarrow> nat) (index_put k t xs)) \<le> f (k, t) + sum_list (map f xs)"
proof -
  let ?ys = "index_remove k xs" and ?P = "\<lambda>e. fkey_bytes (fst e) < fkey_bytes k"
  have "sum_list (map f (takeWhile ?P ?ys @ dropWhile ?P ?ys)) = sum_list (map f ?ys)" by (simp only: takeWhile_dropWhile_id)
  then have "sum_list (map f (takeWhile ?P ?ys)) + sum_list (map f (dropWhile ?P ?ys)) = sum_list (map f ?ys)"
    by (simp only: map_append sum_list_append)
  moreover have "sum_list (map f ?ys) \<le> sum_list (map f xs)" unfolding index_remove_def by (rule sum_filter_le)
  ultimately show ?thesis by (simp add: index_put_def)
qed

lemma index_put_set: "set (index_put k t xs) \<subseteq> insert (k, t) (set xs)"
  unfolding index_put_def index_remove_def by (auto dest: set_takeWhileD set_dropWhileD)

lemma index_remove_sum: "(k, t) \<in> set xs \<Longrightarrow> sum_list (map (f :: _ \<Rightarrow> nat) (index_remove k xs)) + f (k, t) \<le> sum_list (map f xs)"
proof (induction xs)
  case (Cons e xs)
  show ?case
  proof (cases "e = (k, t)")
    case True
    then show ?thesis using sum_filter_le[of f "\<lambda>e. fst e \<noteq> k" xs] by (simp add: index_remove_def)
  next
    case False
    then have "(k, t) \<in> set xs" using Cons.prems by simp
    from Cons.IH[OF this] show ?thesis by (simp add: index_remove_def)
  qed
qed simp

lemma add_free_chunk_ok:
  assumes "even off" "\<And>x. cover s us x + covers x off n \<le> 1" "big_ok s us" "0 < n" "off + n < 2 ^ 64"
  shows "big_ok (add_free_chunk off n f t s) us"
    "cover (add_free_chunk off n f t s) us x \<le> cover s us x + covers x off n"
proof -
  let ?k = "(n, set_flag (clear_flag off) f)" and ?s = "add_free_chunk off n f t s"
  have c: "cover ?s us x \<le> cover s us x + covers x off n" for x
    using index_put_sum[of "\<lambda>e. key_cover x (fst e)" ?k t "free_index s"] assms(1)
    by (simp add: cover_def add_free_chunk_def key_cover_def)
  then show "cover ?s us x \<le> cover s us x + covers x off n" .
  have "cover ?s us x \<le> 1" for x using c[of x] assms(2)[of x] by linarith
  moreover have "\<forall>e\<in>set (free_index ?s). 0 < fst (fst e) \<and> clear_flag (snd (fst e)) + fst (fst e) < 2 ^ 64"
    using index_put_set[of ?k t "free_index s"] assms(1,3-5) by (auto simp: add_free_chunk_def big_ok_def)
  ultimately show "big_ok ?s us" using assms(3) by (simp add: big_ok_def add_free_chunk_def)
qed

lemma free_not_used:
  assumes "big_ok s us" "0 < fs" "\<And>x. cover s us x + covers x found fs \<le> 1"
  shows "found \<notin> set us"
proof
  assume u: "found \<in> set us"
  then have "covers found found (fst (header s found)) \<le> sum_list (map (\<lambda>u. covers found u (fst (header s u))) us)"
    by (intro member_le_sum_list) auto
  moreover have "covers found found (fst (header s found)) = 1" using assms(1) u by (auto simp: big_ok_def covers_def)
  moreover have "covers found found fs = 1" using assms(2) by (simp add: covers_def)
  ultimately show False using assms(3)[of found] unfolding cover_def by linarith
qed

text \<open>A chunk of free bytes becomes one in use.\<close>

lemma take_chunk_ok:
  assumes "take_chunk n found fs f s = (v, s')" "even found" "0 < fs" "found + fs < 2 ^ 64" "\<And>x. cover s us x + covers x found fs \<le> 1" "big_ok s us"
  shows "big_ok s' (found # us)" "chunk_offset v = found + 16" "header s' = (header s)(found := (fs, set_flag found f))" "found \<notin> set us"
proof -
  have s': "s' = s\<lparr>header := (header s)(found := (fs, set_flag found f))\<rparr>" and v: "chunk_offset v = found + 16"
    using assms(1) by (auto simp: take_chunk_def FREE_KEY_SIZE_def)
  show "chunk_offset v = found + 16" "header s' = (header s)(found := (fs, set_flag found f))" using v s' by simp_all
  show n: "found \<notin> set us" by (rule free_not_used[OF assms(6,3,5)])
  have m: "map (\<lambda>u. covers x u (fst (header s' u))) us = map (\<lambda>u. covers x u (fst (header s u))) us" for x using n by (auto simp: s')
  have "cover s' (found # us) x = cover s us x + covers x found fs" for x
    using arg_cong[OF m[of x], of sum_list] by (simp add: cover_def s')
  then have "\<forall>x. cover s' (found # us) x \<le> 1" using assms(5) by simp
  moreover have "\<forall>u\<in>set us. even u \<and> 0 < fst (header s' u) \<and> u + fst (header s' u) < 2 ^ 64 \<and> clear_flag (snd (header s' u)) = u"
    using assms(6) n by (auto simp: big_ok_def s')
  ultimately show "big_ok s' (found # us)" using assms(2-4,6) by (simp add: big_ok_def s')
qed

section \<open>Allocation and release\<close>

definition big_traits_ok :: "big_traits \<Rightarrow> bool" where
  "big_traits_ok B \<longleftrightarrow> 0 < MAX_PAGE_SIZE B \<and> even (MAX_PAGE_SIZE B) \<and> 0 < AREA_SIZE B"

text \<open>
  What the areas of \<open>alloc_multi_area\<close> are relied on for, by their content offset and end: large enough,
  and disjoint from all chunks. The area pool is proved to hand out disjoint areas.
\<close>

definition area_law :: "big_traits \<Rightarrow> bigmem \<Rightarrow> nat list \<Rightarrow> (nat \<Rightarrow> (nat \<times> nat) option) \<Rightarrow> bool" where
  "area_law B s us area \<longleftrightarrow> (\<forall>p a b. area p = Some (a, b) \<longrightarrow>
     p \<le> b - a + AREA_HEADER B \<and> even a \<and> b < 2 ^ 64 \<and> (\<forall>x. a \<le> x \<and> x < b \<longrightarrow> cover s us x = 0))"

lemma find_chunk_ok:
  assumes "find_chunk B recyc area padded s = Some (found, fs, f, s1)" "big_ok s us" "area_law B s us area"
    and "big_traits_ok B" "0 < padded" "padded < 2 ^ 64"
  shows "big_ok s1 us \<and> even found \<and> padded \<le> fs \<and> found + fs < 2 ^ 64 \<and> (\<forall>x. cover s1 us x + covers x found fs \<le> 1)
    \<and> header s1 = header s \<and> hot_offset s1 = hot_offset s \<and> hot_size s1 = hot_size s"
proof (cases "find (\<lambda>e. recyc (snd e)) (take 10 (index_after (padded, 0) (free_index s)))")
  case None
  let ?p = "padding (padded + AREA_HEADER B) (AREA_SIZE B)"
  obtain b where b: "area ?p = Some (found, b)" "fs = b - found" "s1 = s"
    using assms(1) None by (auto simp: find_chunk_def split: option.splits)
  have l: "?p \<le> fs + AREA_HEADER B" "even found" "b < 2 ^ 64" "\<And>x. found \<le> x \<Longrightarrow> x < b \<Longrightarrow> cover s us x = 0"
    using assms(3) b(1,2) unfolding area_law_def by blast+
  have "padded + AREA_HEADER B \<le> ?p" using padding_bounds assms(4) by (simp add: big_traits_ok_def)
  then have "padded \<le> fs" using l(1) by linarith
  moreover have "cover s us x + covers x found fs \<le> 1" for x
  proof (cases "found \<le> x \<and> x < b")
    case True
    then show ?thesis using l(4) by (simp add: covers_def)
  next
    case False
    then have "covers x found fs = 0" using b(2) by (auto simp: covers_def)
    then show ?thesis using assms(2) by (simp add: big_ok_def)
  qed
  moreover have "found + fs < 2 ^ 64" using calculation(1) assms(5) l(3) b(2) by linarith
  ultimately show ?thesis using assms(2) l(2) b(3) by simp
next
  case (Some e)
  obtain k t where e: "e = (k, t)" by fastforce
  have fk: "found = clear_flag (snd k)" "fs = fst k" "s1 = s\<lparr>free_index := index_remove k (free_index s)\<rparr>"
    using assms(1) Some e by (auto simp: find_chunk_def)
  have "e \<in> set (take 10 (index_after (padded, 0) (free_index s)))" using Some find_Some_iff[of _ _ e] by (metis nth_mem)
  then have m: "(k, t) \<in> set (free_index s)" "fkey_bytes (padded, 0) < fkey_bytes k"
    using e by (auto simp: index_after_def dest: in_set_takeD)
  have z: "0 < fst k" "clear_flag (snd k) + fst k < 2 ^ 64" "fst k < 2 ^ 64" using assms(2) m(1) by (auto simp: big_ok_def)
  have c: "cover s1 us x + covers x found fs \<le> cover s us x" for x
    using index_remove_sum[OF m(1), of "\<lambda>e. key_cover x (fst e)"] by (simp add: cover_def fk key_cover_def)
  have c1: "cover s1 us x + covers x found fs \<le> 1" for x
    using c[of x] assms(2) by (meson big_ok_def le_trans)
  then have "\<forall>x. cover s1 us x \<le> 1" using add_leD1 by blast
  then have "big_ok s1 us" using assms(2) by (auto simp: big_ok_def fk(3) index_remove_def)
  then show ?thesis using fkey_bytes_size[OF m(2) assms(6) z(3)] z(2) c1 by (simp add: fk)
qed

lemma split_chunk_ok:
  assumes "big_ok s us" "even found" "even padded" "padded \<le> fs" "found + fs < 2 ^ 64" "\<And>x. cover s us x + covers x found fs \<le> 1"
  shows "big_ok (split_chunk found padded (fs - padded) f s) us"
    "cover (split_chunk found padded (fs - padded) f s) us x + covers x found padded \<le> 1"
    "header (split_chunk found padded (fs - padded) f s) = header s"
proof -
  let ?off = "hot_offset s" and ?n = "hot_size s"
  let ?t = "s\<lparr>hot_size := 0\<rparr>"
  define u where "u = (if ?n > 0 then add_free_chunk ?off ?n (hot_successor s) 0 ?t else ?t)"
  let ?s = "split_chunk found padded (fs - padded) f s"
  have s': "?s = u\<lparr>hot_offset := found + padded, hot_size := fs - padded, hot_successor := f\<rparr>"
    by (simp add: split_chunk_def u_def add_free_chunk_def)
  have t: "cover ?t us x + covers x ?off ?n = cover s us x" for x by (simp add: cover_def)
  have c1: "cover s us x \<le> 1" for x using assms(1) by (simp add: big_ok_def)
  have "cover ?t us x \<le> 1" for x using t[of x] c1[of x] by linarith
  then have ok: "big_ok ?t us" using assms(1) by (simp add: big_ok_def)
  have off: "even ?off" "?off + ?n < 2 ^ 64" using assms(1) by (simp_all add: big_ok_def)
  have le: "cover ?t us x + covers x ?off ?n \<le> 1" for x using t[of x] c1[of x] by linarith
  have u: "big_ok u us \<and> cover u us x \<le> cover s us x" for x
  proof (cases "?n > 0")
    case True
    then show ?thesis using add_free_chunk_ok(1)[OF off(1) le ok True off(2)]
        add_free_chunk_ok(2)[OF off(1) le ok True off(2), where f = "hot_successor s" and t = 0 and x = x] t[of x] by (simp add: u_def)
  next
    case False
    then show ?thesis using ok t[of x] by (simp add: u_def)
  qed
  have h: "hot_size u = 0" "header u = header s" by (simp_all add: u_def add_free_chunk_def)
  have q: "cover ?s us x = cover u us x + covers x (found + padded) (fs - padded)" for x using h(1) by (simp add: cover_def s')
  have c: "cover ?s us x + covers x found padded \<le> 1" for x
    using q[of x] u[of x] assms(6)[of x] covers_split[OF assms(4), of x found] by linarith
  then show "cover ?s us x + covers x found padded \<le> 1" .
  have "\<forall>x. cover ?s us x \<le> 1" using c add_leD1 by blast
  then show "big_ok ?s us" using u assms(2-5) by (simp add: big_ok_def s')
  show "header ?s = header s" by (simp add: s' h)
qed

text \<open>What \<open>alloc\<close> and \<open>free\<close> do to the chunks in use.\<close>

definition chunk_of :: "big_value \<Rightarrow> nat" where
  "chunk_of v = chunk_offset v - FREE_KEY_SIZE"

definition big_taken :: "nat \<Rightarrow> nat list \<Rightarrow> bigmem \<Rightarrow> big_value \<Rightarrow> bigmem \<Rightarrow> bool" where
  "big_taken n us s v s' \<longleftrightarrow> big_ok s' (chunk_of v # us) \<and> FREE_KEY_SIZE \<le> chunk_offset v
     \<and> FREE_KEY_SIZE + n \<le> fst (header s' (chunk_of v)) \<and> (\<forall>w\<in>set us. header s' w = header s w)"

lemma take_chunk_taken:
  assumes "take_chunk n found fs f t = (v, s')" "even found" "FREE_KEY_SIZE + n \<le> fs" "found + fs < 2 ^ 64"
    and "\<And>x. cover t us x + covers x found fs \<le> 1" "big_ok t us" "header t = header s"
  shows "big_taken n us s v s'"
proof -
  have "0 < fs" using assms(3) by (simp add: FREE_KEY_SIZE_def)
  note k = take_chunk_ok[OF assms(1,2) this assms(4,5,6)]
  have "chunk_of v = found" using k(2) by (simp add: chunk_of_def FREE_KEY_SIZE_def)
  then show ?thesis using k assms(3,7) by (auto simp: big_taken_def FREE_KEY_SIZE_def)
qed

lemma alloc_hot_ok:
  assumes "alloc_hot n padded s = (v, s')" "big_ok s us" "padded \<le> hot_size s" "even padded" "FREE_KEY_SIZE + n \<le> padded"
  shows "big_taken n us s v s'"
proof -
  let ?h = "hot_offset s"
  define s0 where "s0 = s\<lparr>hot_offset := ?h + padded, hot_size := hot_size s - padded\<rparr>"
  define t where "t = (if hot_size s0 = 0 then reset_hot s0 else s0)"
  have "cover s0 us x + covers x ?h padded = cover s us x" for x
    using covers_split[OF assms(3), of x ?h] by (simp add: cover_def s0_def)
  moreover have "cover t us x = cover s0 us x" for x by (simp add: t_def reset_hot_def cover_def)
  ultimately have c: "cover t us x + covers x ?h padded \<le> 1" for x using assms(2) by (simp add: big_ok_def)
  then have c0: "\<forall>x. cover t us x \<le> 1" using add_leD1 by blast
  have same: "free_index t = free_index s" "header t = header s" by (simp_all add: t_def reset_hot_def s0_def)
  have "even (hot_offset t)" "hot_offset t + hot_size t < 2 ^ 64" using assms(2-4) by (auto simp: t_def reset_hot_def s0_def big_ok_def)
  then have ok: "big_ok t us" using assms(2) c0 by (simp add: big_ok_def same)
  have "?h + padded < 2 ^ 64" "even ?h" using assms(2,3) by (simp_all add: big_ok_def)
  moreover have "alloc_hot n padded s = (if hot_size s0 = 0 then take_chunk n ?h padded (hot_successor s0) (reset_hot s0)
      else take_chunk n ?h padded True s0)" by (simp only: alloc_hot_def Let_def s0_def)
  then obtain f where "take_chunk n ?h padded f t = (v, s')" using assms(1) by (auto simp: t_def split: if_splits)
  ultimately show ?thesis using take_chunk_taken[OF _ _ assms(5) _ c ok same(2)] by blast
qed

lemma big_alloc_ok:
  assumes "big_traits_ok B" "big_ok s us" "area_law B s us area" "FREE_KEY_SIZE + n + MAX_PAGE_SIZE B \<le> 2 ^ 64"
    and "big_alloc B recyc area n s = Some (v, s')"
  shows "big_taken n us s v s'"
proof -
  define padded where "padded = padding (FREE_KEY_SIZE + n) (MAX_PAGE_SIZE B)"
  have p: "FREE_KEY_SIZE + n \<le> padded" "padded < FREE_KEY_SIZE + n + MAX_PAGE_SIZE B" "MAX_PAGE_SIZE B dvd padded"
    using padding_bounds assms(1) by (simp_all add: padded_def big_traits_ok_def)
  have pd: "even padded" "0 < padded" "padded < 2 ^ 64"
    using p assms(1,4) dvd_trans by (auto simp: big_traits_ok_def FREE_KEY_SIZE_def)
  show ?thesis
  proof (cases "padded \<le> hot_size s")
    case True
    then have "alloc_hot n padded s = (v, s')" using assms(5) by (simp add: big_alloc_def padded_def[symmetric] Let_def)
    from alloc_hot_ok[OF this assms(2) True pd(1) p(1)] show ?thesis .
  next
    case False
    then obtain found fs f s1 where f: "find_chunk B recyc area padded s = Some (found, fs, f, s1)"
      "(if fs - padded \<ge> MAX_PAGE_SIZE B then take_chunk n found padded True (split_chunk found padded (fs - padded) f s1)
        else take_chunk n found fs f s1) = (v, s')"
      using assms(5) by (auto simp: big_alloc_def padded_def[symmetric] Let_def split: option.splits if_splits)
    from find_chunk_ok[OF f(1) assms(2,3,1) pd(2,3)] have k: "big_ok s1 us" "even found" "padded \<le> fs" "found + fs < 2 ^ 64"
      "\<And>x. cover s1 us x + covers x found fs \<le> 1" "header s1 = header s" by blast+
    show ?thesis
    proof (cases "fs - padded \<ge> MAX_PAGE_SIZE B")
      case True
      then have t: "take_chunk n found padded True (split_chunk found padded (fs - padded) f s1) = (v, s')" using f(2) by simp
      note sp = split_chunk_ok[OF k(1,2) pd(1) k(3-5), of f]
      have "found + padded < 2 ^ 64" using k(3,4) by linarith
      from take_chunk_taken[OF t k(2) p(1) this sp(2,1)] show ?thesis using sp(3) k(6) by simp
    next
      case False
      then have t: "take_chunk n found fs f s1 = (v, s')" using f(2) by simp
      have "FREE_KEY_SIZE + n \<le> fs" using p(1) k(3) by linarith
      from take_chunk_taken[OF t k(2) this k(4,5,1,6)] show ?thesis .
    qed
  qed
qed

lemma big_free_ok:
  assumes "big_ok s us" "chunk_of v \<in> set us"
  shows "big_ok (big_free cur v s) (remove1 (chunk_of v) us)" "header (big_free cur v s) = header s"
proof -
  let ?u = "chunk_of v" and ?us = "remove1 (chunk_of v) us"
  have u: "even ?u" "0 < fst (header s ?u)" "?u + fst (header s ?u) < 2 ^ 64" "clear_flag (snd (header s ?u)) = ?u"
    using assms by (auto simp: big_ok_def)
  have "sum_list (map g us) = sum_list (map g ?us) + g ?u" for g :: "nat \<Rightarrow> nat"
    using sum_list_map_remove1[OF assms(2), of g] by simp
  then have "cover s us x = cover s ?us x + covers x ?u (fst (header s ?u))" for x by (simp add: cover_def)
  then have c: "cover s ?us x + covers x ?u (fst (header s ?u)) \<le> 1" for x using assms(1) by (metis big_ok_def)
  then have "\<forall>x. cover s ?us x \<le> 1" using add_leD1 by blast
  moreover have "set ?us \<subseteq> set us" by (rule set_remove1_subset)
  ultimately have ok: "big_ok s ?us" using assms(1) unfolding big_ok_def by blast
  have f: "big_free cur v s = add_free_chunk ?u (fst (header s ?u)) (odd (snd (header s ?u))) cur s"
    using u(4) by (simp add: big_free_def chunk_of_def[symmetric] Let_def)
  show "big_ok (big_free cur v s) ?us" unfolding f by (rule add_free_chunk_ok(1)[OF u(1) c ok u(2,3)])
  show "header (big_free cur v s) = header s" by (simp add: big_free_def add_free_chunk_def Let_def)
qed

section \<open>Defragmentation\<close>

text \<open>
  The inner loop of \<open>defrag\<close>: while a chunk follows, the header behind the merged chunk is read from memory
  and looked up in the index. The results are the size, whether a chunk follows, and whether a chunk
  was merged. Every round removes a key.
\<close>

lemma index_remove_shorter: "map_of xs k = Some t \<Longrightarrow> length (index_remove k xs) < length xs"
  unfolding index_remove_def by (metis (mono_tags, lifting) fst_conv length_filter_less map_of_SomeD)

function absorb :: "(tid \<Rightarrow> bool) \<Rightarrow> nat \<Rightarrow> nat \<Rightarrow> bool \<Rightarrow> bigmem \<Rightarrow> nat \<times> bool \<times> bool \<times> bigmem" where
  "absorb recyc off tot succ s =
     (if \<not> succ then (tot, succ, False, s)
      else let nk = header s (off + tot)
           in case map_of (free_index s) nk of
                None \<Rightarrow> (tot, succ, False, s)
              | Some t \<Rightarrow>
                  if \<not> recyc t then (tot, succ, False, s)
                  else let (tot, succ, found, s) =
                         absorb recyc off (tot + fst nk) (odd (snd nk)) (s\<lparr>free_index := index_remove nk (free_index s)\<rparr>)
                       in (tot, succ, True, s))"
  by pat_completeness auto

termination absorb
  by (relation "measure (\<lambda>(recyc, off, tot, succ, s). length (free_index s))") (simp_all add: index_remove_shorter)

declare absorb.simps [simp del]

lemma absorb_length:
  "absorb recyc off tot succ s = (tot', succ', found, s') \<Longrightarrow>
    length (free_index s') \<le> length (free_index s) \<and> (found \<longrightarrow> length (free_index s') < length (free_index s))"
proof (induction recyc off tot succ s arbitrary: tot' succ' found s' rule: absorb.induct)
  case (1 recyc off tot succ s)
  let ?nk = "header s (off + tot)"
  show ?case
  proof (cases "\<exists>t. succ \<and> map_of (free_index s) ?nk = Some t \<and> recyc t")
    case True
    then obtain t where t: "succ" "map_of (free_index s) ?nk = Some t" "recyc t" by blast
    let ?s = "s\<lparr>free_index := index_remove ?nk (free_index s)\<rparr>"
    obtain a b c d where r: "absorb recyc off (tot + fst ?nk) (odd (snd ?nk)) ?s = (a, b, c, d)" by (metis prod_cases4)
    have "length (free_index d) \<le> length (free_index ?s)" using "1.IH"[OF _ refl t(2) _ r] t by simp
    moreover have "s' = d" using "1.prems" t r by (subst (asm) absorb.simps) (simp add: Let_def)
    ultimately show ?thesis using index_remove_shorter[OF t(2)] by simp
  next
    case False
    then have "s' = s" "\<not> found" using "1.prems" by (subst (asm) absorb.simps; auto simp: Let_def split: if_splits option.splits)+
    then show ?thesis by simp
  qed
qed

text \<open>
  The outer loop, with the position of the iterating cursor: the first entry, or the one after a key. Merging
  starts it over. \<open>None\<close> is the removal of a key that was merged into itself.
\<close>

definition entries_from :: "free_key option \<Rightarrow> bigmem \<Rightarrow> (free_key \<times> tid) list" where
  "entries_from pos s = (case pos of None \<Rightarrow> free_index s | Some k \<Rightarrow> index_after k (free_index s))"

definition merge_chunk :: "free_key \<Rightarrow> tid \<Rightarrow> nat \<Rightarrow> bool \<Rightarrow> bigmem \<Rightarrow> bigmem" where
  "merge_chunk k t tot succ s =
     (let off = clear_flag (snd k); mk = (tot, set_flag off succ)
      in s\<lparr>header := (header s)(off := mk), free_index := index_put mk t (index_remove k (free_index s))\<rparr>)"

function defrag_loop :: "(tid \<Rightarrow> bool) \<Rightarrow> free_key option \<Rightarrow> bigmem \<Rightarrow> bigmem option" where
  "defrag_loop recyc pos s =
     (case entries_from pos s of
        [] \<Rightarrow> Some s
      | (k, t) # es \<Rightarrow>
          if \<not> recyc t then defrag_loop recyc (Some k) s
          else case absorb recyc (clear_flag (snd k)) (fst k) (odd (snd k)) s of
            (tot, succ, found, s1) \<Rightarrow>
              if \<not> found then defrag_loop recyc (Some k) s
              else if map_of (free_index s1) k = None then None
              else defrag_loop recyc None (merge_chunk k t tot succ s1))"
  by pat_completeness auto

lemma entries_from_step:
  assumes "entries_from pos s = (k, t) # es"
  shows "length (entries_from (Some k) s) < length (entries_from pos s)"
proof -
  have "(k, t) \<in> set (entries_from pos s)" using assms by simp
  moreover have "entries_from (Some k) s = filter (\<lambda>e. fkey_bytes k < fkey_bytes (fst e)) (entries_from pos s)"
  proof (cases pos)
    case (Some p)
    then have "fkey_bytes p < fkey_bytes k" using calculation by (auto simp: entries_from_def index_after_def)
    then show ?thesis using Some by (auto simp: entries_from_def index_after_def intro!: filter_cong)
  qed (simp add: entries_from_def index_after_def)
  ultimately show ?thesis by (auto intro!: length_filter_less)
qed

lemma merge_chunk_length:
  assumes "map_of (free_index s) k = Some u"
  shows "length (free_index (merge_chunk k t tot succ s)) \<le> length (free_index s)"
proof -
  have "length (index_put k' t xs) \<le> Suc (length xs)" for k' xs
  proof -
    let ?P = "\<lambda>e. fkey_bytes (fst e) < fkey_bytes k'" and ?ys = "index_remove k' xs"
    have "length (takeWhile ?P ?ys @ dropWhile ?P ?ys) = length ?ys" by (simp only: takeWhile_dropWhile_id)
    then have l: "length (takeWhile ?P ?ys) + length (dropWhile ?P ?ys) = length ?ys" by (simp only: length_append)
    have "length (index_put k' t xs) = Suc (length ?ys)" unfolding index_put_def using l by simp
    moreover have "length ?ys \<le> length xs" unfolding index_remove_def by (rule length_filter_le)
    ultimately show ?thesis by simp
  qed
  then have "length (free_index (merge_chunk k t tot succ s)) \<le> Suc (length (index_remove k (free_index s)))"
    by (simp add: merge_chunk_def Let_def)
  with index_remove_shorter[OF assms] show ?thesis by linarith
qed

termination defrag_loop
proof (relation "measures [\<lambda>(recyc, pos, s). length (free_index s), \<lambda>(recyc, pos, s). length (entries_from pos s)]", goal_cases)
  case 1
  then show ?case by simp
next
  case 2
  then show ?case using entries_from_step by fastforce
next
  case 3
  then show ?case using entries_from_step by fastforce
next
  case (4 recyc pos s e es k t tot b succ c found s1)
  then obtain u where u: "map_of (free_index s1) k = Some u" by blast
  have "absorb recyc (clear_flag (snd k)) (fst k) (odd (snd k)) s = (tot, succ, found, s1)" "found" using 4 by simp_all
  from absorb_length[OF this(1)] this(2) have "length (free_index s1) < length (free_index s)" by simp
  with merge_chunk_length[OF u, of t tot succ] show ?case by simp
qed

declare defrag_loop.simps [simp del]

definition big_defrag :: "(tid \<Rightarrow> bool) \<Rightarrow> bigmem \<Rightarrow> bigmem option" where
  "big_defrag recyc s =
     defrag_loop recyc None (if hot_size s > 0 then reset_hot (add_free_chunk (hot_offset s) (hot_size s) (hot_successor s) 0 s) else s)"

text \<open>
  The hot region has no header: after a chunk that was cut before it, defragmentation reads what the memory
  holds, here bytes of an old value that look like the key of a free chunk elsewhere. The chunk is merged
  with bytes it does not own: the free chunk of 192 bytes at 4160 overlaps the one at 4288.
\<close>

definition ex_stale :: bigmem where
  "ex_stale = \<lparr>hot_offset = 4288, hot_size = 3904, hot_successor = False,
     free_index = [((64, 9000), 1), ((128, 4161), 1)], header = (\<lambda>a. if a = 4288 then (64, 9000) else (0, 0))\<rparr>"

lemma be_bytes_rec: "0 < n \<Longrightarrow> be_bytes n x = (x div 256 ^ (n - 1) mod 256) # be_bytes (n - 1) x"
  by (cases n) simp_all

lemma ex_key_order:
  "fkey_bytes (64, 9000) < fkey_bytes (128, 4161)" "fkey_bytes (64, 9000) < fkey_bytes (3904, 4288)"
  "fkey_bytes (128, 4161) < fkey_bytes (3904, 4288)" "fkey_bytes (192, 4160) < fkey_bytes (3904, 4288)"
  "\<not> fkey_bytes (3904, 4288) < fkey_bytes (192, 4160)"
  by (simp_all add: fkey_bytes_def be_bytes_rec)

lemma defrag_trusts_stale_header:
  "map_option free_index (big_defrag (\<lambda>t. True) ex_stale) = Some [((192, 4160), 1), ((3904, 4288), 0)]"
  by (simp add: big_defrag_def ex_stale_def reset_hot_def add_free_chunk_def index_put_def index_remove_def clear_flag_def set_flag_def
      defrag_loop.simps absorb.simps entries_from_def index_after_def merge_chunk_def Let_def ex_key_order)

subsection \<open>Defragmentation with truthful memory\<close>

text \<open>When every header that can be read names its own offset, merging keeps the chunks apart.\<close>

definition truthful :: "bigmem \<Rightarrow> bool" where
  "truthful s \<longleftrightarrow> (\<forall>a. fst (header s a) = 0 \<or> clear_flag (snd (header s a)) = a)"

lemma index_remove_ok:
  assumes "big_ok s us" "map_of (free_index s) k = Some t"
  shows "big_ok (s\<lparr>free_index := index_remove k (free_index s)\<rparr>) us"
    "cover (s\<lparr>free_index := index_remove k (free_index s)\<rparr>) us x + covers x (clear_flag (snd k)) (fst k) \<le> cover s us x"
proof -
  let ?s = "s\<lparr>free_index := index_remove k (free_index s)\<rparr>"
  have c: "cover ?s us x + covers x (clear_flag (snd k)) (fst k) \<le> cover s us x" for x
    using index_remove_sum[OF map_of_SomeD[OF assms(2)], of "\<lambda>e. key_cover x (fst e)"] by (simp add: cover_def key_cover_def)
  then show "cover ?s us x + covers x (clear_flag (snd k)) (fst k) \<le> cover s us x" .
  have "cover ?s us x \<le> 1" for x using c[of x] assms(1) by (meson add_leD1 big_ok_def le_trans)
  then show "big_ok ?s us" using assms(1) by (auto simp: big_ok_def index_remove_def)
qed

lemma absorb_ok:
  "absorb recyc off tot succ s = (tot', succ', found, s') \<Longrightarrow> big_ok s us \<Longrightarrow> truthful s \<Longrightarrow> off + tot < 2 ^ 64 \<Longrightarrow>
    header s' = header s \<and> hot_offset s' = hot_offset s \<and> big_ok s' us \<and> tot \<le> tot' \<and> off + tot' < 2 ^ 64
    \<and> (\<forall>x. cover s' us x + covers x (off + tot) (tot' - tot) \<le> cover s us x)"
proof (induction recyc off tot succ s arbitrary: tot' succ' found s' rule: absorb.induct)
  case (1 recyc off tot succ s)
  let ?nk = "header s (off + tot)"
  show ?case
  proof (cases "\<exists>t. succ \<and> map_of (free_index s) ?nk = Some t \<and> recyc t")
    case True
    then obtain t where t: "succ" "map_of (free_index s) ?nk = Some t" "recyc t" by blast
    let ?s = "s\<lparr>free_index := index_remove ?nk (free_index s)\<rparr>"
    obtain a b c d where r: "absorb recyc off (tot + fst ?nk) (odd (snd ?nk)) ?s = (a, b, c, d)" by (metis prod_cases4)
    have eq: "s' = d" "tot' = a" using "1.prems"(1) t r by (subst (asm) absorb.simps; simp add: Let_def)+
    have nk: "0 < fst ?nk" "clear_flag (snd ?nk) + fst ?nk < 2 ^ 64" using "1.prems"(2) map_of_SomeD[OF t(2)] by (auto simp: big_ok_def)
    then have off: "clear_flag (snd ?nk) = off + tot" using spec[OF "1.prems"(3)[unfolded truthful_def], of "off + tot"] by simp
    note rm = index_remove_ok[OF "1.prems"(2) t(2)]
    have "truthful ?s" using "1.prems"(3) by (simp add: truthful_def)
    moreover have "off + (tot + fst ?nk) < 2 ^ 64" using nk(2) off by simp
    ultimately have i: "header d = header ?s \<and> hot_offset d = hot_offset ?s \<and> big_ok d us \<and> tot + fst ?nk \<le> a \<and> off + a < 2 ^ 64
        \<and> (\<forall>x. cover d us x + covers x (off + (tot + fst ?nk)) (a - (tot + fst ?nk)) \<le> cover ?s us x)"
      using "1.IH"[OF _ refl t(2) _ r rm(1)] t by simp
    have "cover d us x + covers x (off + tot) (a - tot) \<le> cover s us x" for x
    proof -
      have "fst ?nk \<le> a - tot" using i by linarith
      from covers_split[OF this, of x "off + tot"] have "covers x (off + tot) (a - tot)
        = covers x (off + tot) (fst ?nk) + covers x (off + (tot + fst ?nk)) (a - (tot + fst ?nk))" by (simp add: add.assoc)
      moreover have "cover d us x + covers x (off + (tot + fst ?nk)) (a - (tot + fst ?nk)) \<le> cover ?s us x" using i by blast
      ultimately show ?thesis using rm(2)[of x] off by simp
    qed
    then show ?thesis using i eq by simp
  next
    case False
    then have "s' = s" "tot' = tot" using "1.prems"(1) by (subst (asm) absorb.simps; auto simp: Let_def split: if_splits option.splits)+
    then show ?thesis using "1.prems" by simp
  qed
qed

lemma merge_chunk_ok:
  assumes "big_ok s us" "truthful s" "map_of (free_index s) k = Some u" "fst k \<le> tot" "clear_flag (snd k) + tot < 2 ^ 64"
    and c: "\<And>x. cover s us x + covers x (clear_flag (snd k) + fst k) (tot - fst k) \<le> 1"
  shows "big_ok (merge_chunk k t tot succ s) us \<and> truthful (merge_chunk k t tot succ s)
    \<and> (\<forall>u\<in>set us. header (merge_chunk k t tot succ s) u = header s u)"
proof -
  let ?off = "clear_flag (snd k)"
  let ?r = "s\<lparr>free_index := index_remove k (free_index s)\<rparr>"
  let ?w = "?r\<lparr>header := (header s)(?off := (tot, set_flag ?off succ))\<rparr>"
  note rm = index_remove_ok[OF assms(1,3)]
  have k: "0 < fst k" using assms(1) map_of_SomeD[OF assms(3)] by (auto simp: big_ok_def)
  have cr: "cover ?r us x + covers x ?off tot \<le> 1" for x
    using rm(2)[of x] c[of x] covers_split[OF assms(4), of x ?off] by linarith
  have n: "?off \<notin> set us" using free_not_used[OF rm(1) _ cr] k assms(4) by simp
  then have "map (\<lambda>u. covers x u (fst (header ?w u))) us = map (\<lambda>u. covers x u (fst (header ?r u))) us" for x by auto
  from arg_cong[OF this, of sum_list] have cw: "cover ?w us x = cover ?r us x" for x by (simp add: cover_def)
  have hw: "\<forall>u\<in>set us. header ?w u = header s u" using n by auto
  then have w: "big_ok ?w us" using rm(1) cw n by (auto simp: big_ok_def)
  have le: "cover ?w us x + covers x ?off tot \<le> 1" for x using cr[of x] cw[of x] by linarith
  have "0 < tot" using k assms(4) by simp
  from add_free_chunk_ok(1)[OF _ le w this assms(5), of succ t]
  have "big_ok (add_free_chunk ?off tot succ t ?w) us" by simp
  moreover have "merge_chunk k t tot succ s = add_free_chunk ?off tot succ t ?w"
    by (simp add: merge_chunk_def add_free_chunk_def Let_def)
  moreover have "truthful ?w" using assms(2) by (simp add: truthful_def)
  then have "truthful (add_free_chunk ?off tot succ t ?w)" by (simp add: truthful_def add_free_chunk_def)
  moreover have "\<forall>u\<in>set us. header (add_free_chunk ?off tot succ t ?w) u = header s u" using hw by (simp add: add_free_chunk_def)
  ultimately show ?thesis by simp
qed

lemma defrag_loop_ok:
  "defrag_loop recyc pos s = Some s' \<Longrightarrow> big_ok s us \<Longrightarrow> truthful s \<Longrightarrow> big_ok s' us \<and> (\<forall>u\<in>set us. header s' u = header s u)"
proof (induction recyc pos s rule: defrag_loop.induct)
  case (1 recyc pos s)
  show ?case
  proof (cases "entries_from pos s")
    case Nil
    then show ?thesis using "1.prems" by (subst (asm) defrag_loop.simps) simp
  next
    case (Cons e es)
    obtain k t where e: "e = (k, t)" by fastforce
    note e' = Cons[unfolded e]
    obtain tot succ found s1 where ab: "absorb recyc (clear_flag (snd k)) (fst k) (odd (snd k)) s = (tot, succ, found, s1)" by (metis prod_cases4)
    have un: "defrag_loop recyc pos s = (if \<not> recyc t \<or> \<not> found then defrag_loop recyc (Some k) s
        else if map_of (free_index s1) k = None then None else defrag_loop recyc None (merge_chunk k t tot succ s1))"
      by (subst defrag_loop.simps) (simp add: e' ab)
    have m: "(k, t) \<in> set (free_index s)" using e'
      by (cases pos) (auto simp: entries_from_def index_after_def dest!: filter_eq_ConsD)
    consider (pinned) "\<not> recyc t" | (alone) "recyc t" "\<not> found" | (merged) u where "recyc t" "found" "map_of (free_index s1) k = Some u"
      "defrag_loop recyc None (merge_chunk k t tot succ s1) = Some s'"
      using "1.prems"(1) un by (auto split: if_splits)
    then show ?thesis
    proof cases
      case pinned
      then show ?thesis using "1.IH"(1)[OF Cons e[symmetric]] "1.prems" un by simp
    next
      case alone
      then show ?thesis using "1.IH"(2)[OF Cons e[symmetric] _ ab[symmetric] refl refl] "1.prems" un by simp
    next
      case merged
      have "clear_flag (snd k) + fst k < 2 ^ 64" using "1.prems"(2) m by (auto simp: big_ok_def)
      note a = absorb_ok[OF ab "1.prems"(2,3) this]
      have t1: "truthful s1" using a "1.prems"(3) by (simp add: truthful_def)
      have "cover s1 us x + covers x (clear_flag (snd k) + fst k) (tot - fst k) \<le> 1" for x
        using a "1.prems"(2) by (meson big_ok_def le_trans)
      from merge_chunk_ok[OF _ t1 merged(3) _ _ this, of t succ] a have k: "big_ok (merge_chunk k t tot succ s1) us"
        "truthful (merge_chunk k t tot succ s1)" "\<forall>u\<in>set us. header (merge_chunk k t tot succ s1) u = header s u" by simp_all
      show ?thesis using "1.IH"(3)[OF Cons e[symmetric] _ ab[symmetric] refl refl] merged k by simp
    qed
  qed
qed

lemma big_defrag_ok:
  assumes "big_defrag recyc s = Some s'" "big_ok s us" "truthful s"
  shows "big_ok s' us \<and> (\<forall>u\<in>set us. header s' u = header s u)"
proof -
  define t where "t = (if hot_size s > 0 then reset_hot (add_free_chunk (hot_offset s) (hot_size s) (hot_successor s) 0 s) else s)"
  have d: "defrag_loop recyc None t = Some s'" using assms(1) by (simp add: big_defrag_def t_def)
  have "big_ok t us"
  proof (cases "hot_size s > 0")
    case True
    let ?r = "reset_hot s"
    have c: "cover ?r us x + covers x (hot_offset s) (hot_size s) = cover s us x" for x by (simp add: cover_def reset_hot_def)
    have c1: "cover s us x \<le> 1" for x using assms(2) by (simp add: big_ok_def)
    have "cover ?r us x \<le> 1" for x using c[of x] c1[of x] by linarith
    then have ok: "big_ok ?r us" using assms(2) by (simp add: big_ok_def reset_hot_def)
    have le: "cover ?r us x + covers x (hot_offset s) (hot_size s) \<le> 1" for x using c[of x] c1[of x] by linarith
    have "even (hot_offset s)" "hot_offset s + hot_size s < 2 ^ 64" using assms(2) by (simp_all add: big_ok_def)
    from add_free_chunk_ok(1)[OF this(1) le ok True this(2), of "hot_successor s" 0] show ?thesis
      using True by (cases s) (simp add: t_def add_free_chunk_def reset_hot_def)
  qed (use assms(2) in \<open>simp add: t_def\<close>)
  moreover have h: "header t = header s" by (simp add: t_def reset_hot_def add_free_chunk_def)
  then have "truthful t" using assms(3) by (simp add: truthful_def)
  ultimately show ?thesis using defrag_loop_ok[OF d] h by simp
qed

section \<open>Runs\<close>

text \<open>The values in use after some allocations and releases, each with its size.\<close>

definition chunks_of :: "(big_value \<times> nat) list \<Rightarrow> nat list" where
  "chunks_of vs = map (chunk_of \<circ> fst) vs"

inductive big_reach :: "big_traits \<Rightarrow> bigmem \<Rightarrow> (big_value \<times> nat) list \<Rightarrow> bool" for B where
  start: "free_index s = [] \<Longrightarrow> big_reach B (reset_hot s) []"
| alloc: "big_reach B s vs \<Longrightarrow> area_law B s (chunks_of vs) area \<Longrightarrow> FREE_KEY_SIZE + n + MAX_PAGE_SIZE B \<le> 2 ^ 64 \<Longrightarrow>
    big_alloc B recyc area n s = Some (v, s') \<Longrightarrow> big_reach B s' ((v, n) # vs)"
| free: "big_reach B s vs \<Longrightarrow> (v, n) \<in> set vs \<Longrightarrow> big_reach B (big_free cur v s) (remove1 (v, n) vs)"
| defrag: "big_reach B s vs \<Longrightarrow> truthful s \<Longrightarrow> big_defrag recyc s = Some s' \<Longrightarrow> big_reach B s' vs"

lemma big_ok_mset:
  assumes "mset us = mset ws" "big_ok s us"
  shows "big_ok s ws"
proof -
  have "sum_list (map f us) = sum_list (map f ws)" for f :: "nat \<Rightarrow> nat"
    using assms(1) by (metis mset_map sum_mset_sum_list)
  then have "cover s us x = cover s ws x" for x by (simp add: cover_def)
  moreover have "set us = set ws" using assms(1) by (metis set_mset_mset)
  ultimately show ?thesis using assms(2) by (simp add: big_ok_def)
qed

lemma big_reach_ok:
  assumes "big_traits_ok B" "big_reach B s vs"
  shows "big_ok s (chunks_of vs) \<and> (\<forall>(v, n)\<in>set vs. FREE_KEY_SIZE \<le> chunk_offset v \<and> FREE_KEY_SIZE + n \<le> fst (header s (chunk_of v)))"
  using assms(2)
proof (induction rule: big_reach.induct)
  case (start s)
  then show ?case by (simp add: big_ok_def cover_def reset_hot_def chunks_of_def)
next
  case (alloc s vs area n recyc v s')
  have t: "big_taken n (chunks_of vs) s v s'" using big_alloc_ok[OF assms(1) _ alloc.hyps(2-4)] alloc.IH by blast
  have "header s' (chunk_of w) = header s (chunk_of w)" if "(w, k) \<in> set vs" for w k
    using t that unfolding big_taken_def chunks_of_def by force
  then show ?case using t alloc.IH by (auto simp: big_taken_def chunks_of_def)
next
  case (free s vs v n cur)
  have m: "chunk_of v \<in> set (chunks_of vs)" using free.hyps(2) by (force simp: chunks_of_def)
  have i: "big_ok s (chunks_of vs)" using free.IH by blast
  have "mset (remove1 (chunk_of v) (chunks_of vs)) = mset (chunks_of (remove1 (v, n) vs))"
    using free.hyps(2) by (simp add: chunks_of_def image_mset_Diff)
  from big_ok_mset[OF this big_free_ok(1)[OF i m]] show ?case
    using free.IH big_free_ok(2)[OF i m] set_remove1_subset[of "(v, n)" vs] by auto
next
  case (defrag s vs recyc s')
  have "big_ok s' (chunks_of vs) \<and> (\<forall>u\<in>set (chunks_of vs). header s' u = header s u)"
    using big_defrag_ok[OF defrag.hyps(3) _ defrag.hyps(2)] defrag.IH by blast
  then show ?case using defrag.IH by (force simp: chunks_of_def)
qed

lemma sum_two: "i < j \<Longrightarrow> j < length xs \<Longrightarrow> f (xs ! i) + f (xs ! j) \<le> sum_list (map (f :: _ \<Rightarrow> nat) xs)"
proof -
  assume ij: "i < j" "j < length xs"
  have "take j xs ! i \<in> set (take j xs)" using ij by (intro nth_mem) simp
  then have "f (xs ! i) \<in> set (map f (take j xs))" using ij by simp
  then have "f (xs ! i) \<le> sum_list (map f (take j xs))" by (rule member_le_sum_list) simp
  moreover have "sum_list (map f xs) = sum_list (map f (take j xs @ xs ! j # drop (Suc j) xs))"
    using id_take_nth_drop[OF ij(2)] by simp
  ultimately show ?thesis by simp
qed

text \<open>
  C16. Values in big memory never overlap: after any sequence of allocations and releases, with chunks from
  the hot region, from the index of free chunks or from new areas, and whatever chunks may be
  recycled, the bytes of two values in use are disjoint. Defragmentations may run in between when
  no memory it reads looks like the header of another chunk.
\<close>

theorem big_values_apart:
  assumes "big_traits_ok B" "big_reach B s vs" "i < j" "j < length vs"
  shows "{chunk_offset (fst (vs ! i))..<chunk_offset (fst (vs ! i)) + snd (vs ! i)}
    \<inter> {chunk_offset (fst (vs ! j))..<chunk_offset (fst (vs ! j)) + snd (vs ! j)} = {}"
proof -
  note r = big_reach_ok[OF assms(1,2)]
  have c: "covers x (chunk_of (fst (vs ! k))) (fst (header s (chunk_of (fst (vs ! k))))) = 1"
    if k: "k < length vs" and x: "chunk_offset (fst (vs ! k)) \<le> x" "x < chunk_offset (fst (vs ! k)) + snd (vs ! k)" for k x
  proof -
    have "vs ! k \<in> set vs" using k by simp
    then have "FREE_KEY_SIZE \<le> chunk_offset (fst (vs ! k))" "FREE_KEY_SIZE + snd (vs ! k) \<le> fst (header s (chunk_of (fst (vs ! k))))"
      using r by (auto simp: case_prod_beta)
    then show ?thesis using x by (auto simp: covers_def chunk_of_def)
  qed
  have "cover s (chunks_of vs) x \<le> 1" for x using r by (simp add: big_ok_def)
  then have "sum_list (map (\<lambda>u. covers x u (fst (header s u))) (chunks_of vs)) \<le> 1" for x unfolding cover_def by (meson add_leD2)
  then have s: "covers x (chunk_of (fst (vs ! i))) (fst (header s (chunk_of (fst (vs ! i)))))
      + covers x (chunk_of (fst (vs ! j))) (fst (header s (chunk_of (fst (vs ! j))))) \<le> 1" for x
    using sum_two[OF assms(3,4), of "\<lambda>v. covers x (chunk_of (fst v)) (fst (header s (chunk_of (fst v))))"]
    by (fastforce simp: chunks_of_def comp_def intro: le_trans)
  show ?thesis
  proof (rule ccontr)
    assume "\<not> ?thesis"
    then obtain x where "x \<in> {chunk_offset (fst (vs ! i))..<chunk_offset (fst (vs ! i)) + snd (vs ! i)}"
      "x \<in> {chunk_offset (fst (vs ! j))..<chunk_offset (fst (vs ! j)) + snd (vs ! j)}" by blast
    then show False using s[of x] c[of i x] c[of j x] assms(3,4) by simp
  qed
qed

definition ex_big_traits :: big_traits where
  "ex_big_traits = \<lparr>MAX_PAGE_SIZE = 64, AREA_SIZE = 4096, AREA_HEADER = 64\<rparr>"

definition ex_big :: bigmem where
  "ex_big = \<lparr>hot_offset = 0, hot_size = 0, hot_successor = False, free_index = [], header = (\<lambda>_. (0, 0))\<rparr>"

definition ex_area :: "nat \<Rightarrow> (nat \<times> nat) option" where
  "ex_area p = (if p \<le> 4096 then Some (4160, 8192) else None)"

theorem big_values_apart_witness:
  "\<exists>s. big_reach ex_big_traits s [(\<lparr>chunk_offset = 4304, big_size = 200\<rparr>, 200), (\<lparr>chunk_offset = 4176, big_size = 100\<rparr>, 100)]
    \<and> {4304..<4304 + 200} \<inter> {4176..<4176 + 100 :: nat} = {}"
proof -
  let ?v1 = "\<lparr>chunk_offset = 4176, big_size = 100\<rparr>" and ?v2 = "\<lparr>chunk_offset = 4304, big_size = 200\<rparr>"
  let ?B = ex_big_traits
  have B: "big_traits_ok ?B" by (simp add: big_traits_ok_def ex_big_traits_def)
  have r0: "big_reach ?B (reset_hot ex_big) []" by (rule big_reach.start) (simp add: ex_big_def)
  obtain s1 where s1: "big_alloc ?B (\<lambda>_. False) ex_area 100 (reset_hot ex_big) = Some (?v1, s1)" "hot_offset s1 = 4288" "hot_size s1 = 3904"
    by (simp add: big_alloc_def find_chunk_def index_after_def ex_big_def reset_hot_def ex_big_traits_def ex_area_def padding_def
        FREE_KEY_SIZE_def take_chunk_def split_chunk_def Let_def)
  have "area_law ?B (reset_hot ex_big) (chunks_of []) ex_area"
    by (auto simp: area_law_def ex_area_def ex_big_traits_def cover_def reset_hot_def ex_big_def chunks_of_def split: if_splits)
  from big_reach.alloc[OF r0 this _ s1(1)] have r1: "big_reach ?B s1 [(?v1, 100)]" by (simp add: ex_big_traits_def FREE_KEY_SIZE_def)
  obtain s2 where s2: "big_alloc ?B (\<lambda>_. False) (\<lambda>_. None) 200 s1 = Some (?v2, s2)"
    using s1(2,3) by (simp add: big_alloc_def alloc_hot_def ex_big_traits_def padding_def FREE_KEY_SIZE_def take_chunk_def Let_def)
  have "area_law ?B s1 (chunks_of [(?v1, 100)]) (\<lambda>_. None)" by (simp add: area_law_def)
  from big_reach.alloc[OF r1 this _ s2] have r2: "big_reach ?B s2 [(?v2, 200), (?v1, 100)]" by (simp add: ex_big_traits_def FREE_KEY_SIZE_def)
  from big_values_apart[OF B this, of 0 1] show ?thesis using r2 by auto
qed

end
