(* ===== verification/Leaves_DB.thy ===== *)
theory Leaves_DB
  imports Leaves_Serial "HOL-Library.Monad_Syntax"
begin

text \<open>
  Transactions of a database (\<open>include/leaves/intern/db/_db.hpp\<close>): the chain of committed
  transactions, the active one, two-phase commit, rollback with the return of areas, references of
  readers and the rule for recycling freed pages. Transactions are records at offsets, 0 is the null
  offset. The page allocator of a transaction is an argument: \<open>op_new\<close> and \<open>op_del\<close> stand for
  \<open>_MemManager::alloc\<close> of a transaction page and \<open>_MemManager::free\<close>; they get the bound of
  \<open>may_recycle\<close> and the id \<open>mark_for_recycle\<close> writes, and work on the manager's copy in the
  transaction and on memory all transactions share. \<open>None\<close> is an exception.
\<close>

section \<open>State\<close>

record 'm txn =
  t_id :: tid
  t_root :: nat
  start_txn :: nat
  next_txn :: nat
  refs :: uint32
  tail_single :: nat
  tail_multi :: nat
  mem_manager :: 'm

record ('m, 'h) database =
  txns :: "nat \<Rightarrow> 'm txn"
  shared :: 'h
  area_next :: "nat \<Rightarrow> nat"
  read_txn :: nat
  prepared_txn :: nat
  next_txn_page :: nat
  txn_lock :: bool
  txn_cursor_id :: nat
  head_single :: nat
  head_multi :: nat
  cur_txn :: nat
  start_txn_id :: tid
  returned_single :: "(nat \<times> nat) list"
  returned_multi :: "(nat \<times> nat) list"

record ('m, 'h) txn_ops =
  op_new :: "tid \<Rightarrow> tid \<Rightarrow> 'm \<Rightarrow> 'h \<Rightarrow> (nat \<times> 'm \<times> 'h) option"
  op_del :: "tid \<Rightarrow> tid \<Rightarrow> nat \<Rightarrow> 'm \<Rightarrow> 'h \<Rightarrow> ('m \<times> 'h) option"

definition upd_txn :: "nat \<Rightarrow> ('m txn \<Rightarrow> 'm txn) \<Rightarrow> ('m, 'h) database \<Rightarrow> ('m, 'h) database" where
  "upd_txn a f s = s\<lparr>txns := (txns s)(a := f (txns s a))\<rparr>"

section \<open>Operations\<close>

definition may_recycle :: "('m, 'h) database \<Rightarrow> tid \<Rightarrow> bool" where
  "may_recycle s t = serial_less t (start_txn_id s)"

definition active_id :: "('m, 'h) database \<Rightarrow> tid" where
  "active_id s = (if cur_txn s = 0 then 0 else t_id (txns s (cur_txn s)))"

text \<open>\<open>free\<close> of the active transaction's manager.\<close>

definition db_free :: "('m, 'h) txn_ops \<Rightarrow> nat \<Rightarrow> ('m, 'h) database \<Rightarrow> ('m, 'h) database option" where
  "db_free Ops a s =
     do { (m, h) \<leftarrow> op_del Ops (start_txn_id s) (active_id s) a (mem_manager (txns s (cur_txn s))) (shared s);
          Some (upd_txn (cur_txn s) (\<lambda>t. t\<lparr>mem_manager := m\<rparr>) (s\<lparr>shared := h\<rparr>)) }"

text \<open>
  \<open>_Transaction::clone\<close> of the transaction at \<open>a\<close>: the page comes from its own manager, the copy is made
  after that, with no references.
\<close>

definition clone :: "('m, 'h) txn_ops \<Rightarrow> nat \<Rightarrow> ('m, 'h) database \<Rightarrow> (nat \<times> ('m, 'h) database) option" where
  "clone Ops a s =
     do { (p, m, h) \<leftarrow> op_new Ops (start_txn_id s) (active_id s) (mem_manager (txns s a)) (shared s);
          let s = upd_txn a (\<lambda>t. t\<lparr>mem_manager := m\<rparr>) (s\<lparr>shared := h\<rparr>) in
          Some (p, s\<lparr>txns := (txns s)(p := (txns s a)\<lparr>refs := 0\<rparr>)\<rparr>) }"

definition txn_ref :: "('m, 'h) database \<Rightarrow> ('m, 'h) database" where
  "txn_ref s = upd_txn (read_txn s) (\<lambda>t. t\<lparr>refs := refs t + 1\<rparr>) s"

definition txn_ref_at :: "nat \<Rightarrow> ('m, 'h) database \<Rightarrow> ('m, 'h) database" where
  "txn_ref_at a s = (if a = 0 then s else upd_txn a (\<lambda>t. t\<lparr>refs := refs t + 1\<rparr>) s)"

definition txn_unref :: "nat \<Rightarrow> ('m, 'h) database \<Rightarrow> ('m, 'h) database" where
  "txn_unref a s = upd_txn a (\<lambda>t. t\<lparr>refs := refs t - 1\<rparr>) s"

text \<open>
  The walk over old transactions in \<open>start_transaction\<close>: \<open>iter_transactions\<close> with its callback. The
  loop reads the next link and the id of a transaction after the callback has freed it.
\<close>

partial_function (option) gc_walk ::
  "('m, 'h) txn_ops \<Rightarrow> tid \<Rightarrow> nat \<Rightarrow> ('m, 'h) database \<Rightarrow> ('m, 'h) database option" where
  "gc_walk Ops lst a s =
     (if refs (txns s a) \<noteq> 0 then
        Some ((upd_txn (cur_txn s) (\<lambda>t. t\<lparr>start_txn := a\<rparr>) s)\<lparr>start_txn_id := t_id (txns s a)\<rparr>)
      else Option.bind (db_free Ops a s) (\<lambda>s.
        if serial_less (t_id (txns s a)) lst then gc_walk Ops lst (next_txn (txns s a)) s else Some s))"

declare gc_walk.simps [code]

text \<open>\<open>start_transaction\<close>; \<open>None\<close> in the first component: the lock is held by another writer.\<close>

definition start_transaction ::
  "('m, 'h) txn_ops \<Rightarrow> nat \<Rightarrow> ('m, 'h) database \<Rightarrow> (nat option \<times> ('m, 'h) database) option" where
  "start_transaction Ops cursor s =
     (if txn_lock s then Some (None, s)
      else let s = s\<lparr>txn_lock := True, txn_cursor_id := cursor, cur_txn := next_txn_page s, next_txn_page := 0\<rparr>;
               lst = read_txn s; id0 = t_id (txns s lst);
               s = upd_txn (cur_txn s) (\<lambda>t. t\<lparr>t_id := serial_add id0 1, next_txn := 0\<rparr>) s;
               s = (upd_txn lst (\<lambda>t. t\<lparr>refs := refs t + 1\<rparr>) s)\<lparr>start_txn_id := id0\<rparr>
           in do { s \<leftarrow> gc_walk Ops id0 (start_txn (txns s lst)) s;
                   Some (Some (cur_txn s), upd_txn lst (\<lambda>t. t\<lparr>refs := refs t - 1\<rparr>) s) })"

definition end_transaction :: "('m, 'h) database \<Rightarrow> ('m, 'h) database" where
  "end_transaction s = s\<lparr>txn_cursor_id := 0, cur_txn := 0, txn_lock := False\<rparr>"

definition return_areas_range :: "nat \<Rightarrow> nat \<Rightarrow> nat \<Rightarrow> nat \<Rightarrow> ('m, 'h) database \<Rightarrow> ('m, 'h) database" where
  "return_areas_range ss es sm em s =
     (let s = (if ss \<noteq> 0 \<and> es \<noteq> 0 \<and> ss \<noteq> es
               then s\<lparr>returned_single := returned_single s @ [(area_next s ss, es)], area_next := (area_next s)(ss := 0)\<rparr>
               else s)
      in if em \<noteq> 0 \<and> sm \<noteq> em then
           if sm = 0
           then s\<lparr>returned_multi := returned_multi s @ [(head_multi s, em)], head_multi := 0\<rparr>
           else s\<lparr>returned_multi := returned_multi s @ [(area_next s sm, em)], area_next := (area_next s)(sm := 0)\<rparr>
         else s)"

definition rollback :: "nat \<Rightarrow> ('m, 'h) database \<Rightarrow> bool \<times> ('m, 'h) database" where
  "rollback cursor s =
     (if txn_cursor_id s \<noteq> cursor then (False, s)
      else let r = txns s (read_txn s); a = txns s (cur_txn s);
               s = return_areas_range (tail_single r) (tail_single a) (tail_multi r) (tail_multi a) s;
               s = s\<lparr>prepared_txn := read_txn s, txns := (txns s)(cur_txn s := r\<lparr>refs := 0\<rparr>), next_txn_page := cur_txn s\<rparr>
           in (True, end_transaction s))"

definition prepare_commit :: "('m, 'h) txn_ops \<Rightarrow> nat \<Rightarrow> ('m, 'h) database \<Rightarrow> (tid \<times> ('m, 'h) database) option" where
  "prepare_commit Ops cursor s =
     (if txn_cursor_id s \<noteq> cursor then Some (0, s)
      else if prepared_txn s \<noteq> read_txn s then Some (active_id s, s)
      else do { (p, s) \<leftarrow> clone Ops (cur_txn s) s;
                let s = s\<lparr>next_txn_page := p, prepared_txn := cur_txn s\<rparr> in
                Some (active_id s, upd_txn (read_txn s) (\<lambda>t. t\<lparr>next_txn := prepared_txn s\<rparr>) s) })"

text \<open>An exception of \<open>prepare_commit\<close> is passed on after a rollback: the first component is \<open>None\<close>.\<close>

definition commit :: "('m, 'h) txn_ops \<Rightarrow> nat \<Rightarrow> ('m, 'h) database \<Rightarrow> bool option \<times> ('m, 'h) database" where
  "commit Ops cursor s =
     (case prepare_commit Ops cursor s of
        None \<Rightarrow> (None, snd (rollback cursor s))
      | Some (t, s) \<Rightarrow>
          if t = 0 then (Some False, s)
          else (Some True, end_transaction (s\<lparr>read_txn := prepared_txn s\<rparr>)))"

text \<open>Areas: the storage hands out the area at offset \<open>a\<close>, which is appended to the transaction's list.\<close>

definition db_alloc_single_area :: "nat \<Rightarrow> ('m, 'h) database \<Rightarrow> ('m, 'h) database" where
  "db_alloc_single_area a s =
     upd_txn (cur_txn s) (\<lambda>t. t\<lparr>tail_single := a\<rparr>) (s\<lparr>area_next := (area_next s)(tail_single (txns s (cur_txn s)) := a)\<rparr>)"

definition db_alloc_multi_area :: "nat \<Rightarrow> ('m, 'h) database \<Rightarrow> ('m, 'h) database" where
  "db_alloc_multi_area a s =
     (let tl = tail_multi (txns s (cur_txn s));
          s = (if tl \<noteq> 0 then s\<lparr>area_next := (area_next s)(tl := a)\<rparr> else s\<lparr>head_multi := a\<rparr>)
      in upd_txn (cur_txn s) (\<lambda>t. t\<lparr>tail_multi := a\<rparr>) s)"

text \<open>\<open>iter_transactions\<close> for the reading callbacks: the transactions met, at most \<open>n\<close>.\<close>

fun iter_transactions :: "nat \<Rightarrow> ('m, 'h) database \<Rightarrow> nat \<Rightarrow> nat list" where
  "iter_transactions 0 s a = []"
| "iter_transactions (Suc n) s a =
     a # (if serial_less (t_id (txns s a)) (t_id (txns s (read_txn s))) then iter_transactions n s (next_txn (txns s a)) else [])"

definition is_active :: "nat \<Rightarrow> ('m, 'h) database \<Rightarrow> bool" where
  "is_active n s \<longleftrightarrow> cur_txn s \<noteq> 0
     \<or> (\<exists>a\<in>set (iter_transactions n s (start_txn (txns s (read_txn s)))). refs (txns s a) \<noteq> 0)"

text \<open>\<open>repair\<close>; \<open>healthy\<close> is the answer of \<open>_check_trie_health\<close> for a root. \<open>None\<close>: \<open>TransactionActive\<close>.\<close>

definition repair :: "nat \<Rightarrow> (nat \<Rightarrow> bool) \<Rightarrow> ('m, 'h) database \<Rightarrow> ('m, 'h) database option" where
  "repair n healthy s =
     (if is_active n s then None
      else let good = takeWhile (\<lambda>a. healthy (t_root (txns s a))) (iter_transactions n s (start_txn (txns s (read_txn s))));
               last_healthy = (if good = [] then 0 else last good)
           in Some (if last_healthy \<noteq> 0 \<and> last_healthy \<noteq> read_txn s
                    then s\<lparr>read_txn := last_healthy, prepared_txn := last_healthy\<rparr> else s))"

text \<open>
  \<open>init\<close> in the area at offset \<open>area\<close>, whose content starts at \<open>content\<close>: the first transaction follows the header
  and the page of the next one is allocated. \<open>m0\<close> is the manager after \<open>mem_manager.init\<close>.
\<close>

definition first_txn :: "nat \<Rightarrow> nat \<Rightarrow> 'm \<Rightarrow> 'm txn" where
  "first_txn r area m0 = \<lparr>t_id = 1, t_root = 0, start_txn = r, next_txn = 0, refs = 0,
     tail_single = area, tail_multi = 0, mem_manager = m0\<rparr>"

definition db_init ::
  "('m, 'h) txn_ops \<Rightarrow> nat \<Rightarrow> nat \<Rightarrow> nat \<Rightarrow> 'm \<Rightarrow> ('m, 'h) database \<Rightarrow> ('m, 'h) database option" where
  "db_init Ops header_size area content m0 s =
     (let r = content + header_size;
          s = s\<lparr>txns := (txns s)(r := first_txn r area m0), read_txn := r, prepared_txn := r, next_txn_page := 0,
                txn_lock := False, txn_cursor_id := 0, head_single := area, head_multi := 0, cur_txn := r\<rparr>
      in do { (p, s) \<leftarrow> clone Ops r s; Some (s\<lparr>next_txn_page := p, cur_txn := 0\<rparr>) })"

definition return_areas :: "('m, 'h) database \<Rightarrow> ('m, 'h) database" where
  "return_areas s =
     (let r = txns s (read_txn s);
          s = (if head_single s \<noteq> 0 \<and> tail_single r \<noteq> 0
               then s\<lparr>returned_single := returned_single s @ [(head_single s, tail_single r)]\<rparr> else s)
      in if head_multi s \<noteq> 0 \<and> tail_multi r \<noteq> 0
         then s\<lparr>returned_multi := returned_multi s @ [(head_multi s, tail_multi r)]\<rparr> else s)"

text \<open>\<open>reset\<close>; \<open>before\<close> is the answer of the aspect, \<open>None\<close> is \<open>TransactionActive\<close> or an exception of the allocation.\<close>

definition db_reset ::
  "('m, 'h) txn_ops \<Rightarrow> nat \<Rightarrow> bool \<Rightarrow> nat \<Rightarrow> nat \<Rightarrow> nat \<Rightarrow> 'm \<Rightarrow> ('m, 'h) database \<Rightarrow> ('m, 'h) database option" where
  "db_reset Ops n before header_size area content m0 s =
     (if is_active n s then None
      else if \<not> before then Some s
      else db_init Ops header_size area content m0 (return_areas s))"

definition reset_in_place ::
  "('m, 'h) txn_ops \<Rightarrow> nat \<Rightarrow> nat \<Rightarrow> nat \<Rightarrow> 'm \<Rightarrow> ('m, 'h) database \<Rightarrow> ('m, 'h) database option" where
  "reset_in_place Ops n header_size header m0 s =
     (if is_active n s then None
      else let r = txns s (read_txn s); hs = head_single s; second = area_next s hs;
               s = (if hs \<noteq> 0 \<and> second \<noteq> 0
                    then s\<lparr>returned_single := returned_single s @ [(second, tail_single r)], area_next := (area_next s)(hs := 0)\<rparr>
                    else s);
               s = (if head_multi s \<noteq> 0 \<and> tail_multi r \<noteq> 0
                    then s\<lparr>returned_multi := returned_multi s @ [(head_multi s, tail_multi r)], head_multi := 0\<rparr> else s);
               t = header + header_size;
               s = s\<lparr>read_txn := t, prepared_txn := t, next_txn_page := 0, txn_cursor_id := 0,
                     txns := (txns s)(t := first_txn t hs m0), cur_txn := t\<rparr>
           in do { (p, s) \<leftarrow> clone Ops t s; Some (s\<lparr>next_txn_page := p, cur_txn := 0\<rparr>) })"

text \<open>
  \<open>sanitize\<close> after a crash: locks and references are reset, a missing page for the next transaction is made,
  the log is replayed (\<open>recover\<close>) and a prepared transaction becomes the active one again.
\<close>

definition clear_refs :: "nat list \<Rightarrow> ('m, 'h) database \<Rightarrow> ('m, 'h) database" where
  "clear_refs as s = fold (\<lambda>a. upd_txn a (\<lambda>t. t\<lparr>refs := 0\<rparr>)) as s"

definition sanitize_begin :: "('m, 'h) txn_ops \<Rightarrow> nat \<Rightarrow> ('m, 'h) database \<Rightarrow> ('m, 'h) database option" where
  "sanitize_begin Ops n s =
     (let s = s\<lparr>txn_lock := False, txn_cursor_id := 0, cur_txn := 0\<rparr>;
          s = clear_refs (iter_transactions n s (start_txn (txns s (read_txn s)))) s
      in if next_txn_page s \<noteq> 0 then Some (upd_txn (next_txn_page s) (\<lambda>t. t\<lparr>refs := 0\<rparr>) s)
         else do { (p, s) \<leftarrow> clone Ops (read_txn s) (s\<lparr>cur_txn := read_txn s\<rparr>);
                   Some (s\<lparr>next_txn_page := p, cur_txn := 0\<rparr>) })"

definition sanitize_end :: "('m, 'h) database \<Rightarrow> ('m, 'h) database" where
  "sanitize_end s = (if prepared_txn s \<noteq> read_txn s then s\<lparr>txn_lock := True, cur_txn := prepared_txn s\<rparr> else s)"

definition sanitize ::
  "('m, 'h) txn_ops \<Rightarrow> nat \<Rightarrow> (('m, 'h) database \<Rightarrow> ('m, 'h) database option) \<Rightarrow> ('m, 'h) database \<Rightarrow> ('m, 'h) database option" where
  "sanitize Ops n recover s = do { s \<leftarrow> sanitize_begin Ops n s; s \<leftarrow> recover s; Some (sanitize_end s) }"

section \<open>The chain of transactions\<close>

text \<open>
  The committed transactions that are kept, the oldest first; their ids follow each other. Fewer than
  \<open>2^31 - 2\<close> of them are kept, so that the overflow-aware order of the ids is the order of the chain.
\<close>

definition chain_ok :: "('m, 'h) database \<Rightarrow> tid \<Rightarrow> nat list \<Rightarrow> bool" where
  "chain_ok s b cs \<longleftrightarrow> cs \<noteq> [] \<and> distinct cs \<and> 0 \<notin> set cs \<and> b \<noteq> 0 \<and> length cs < 2147483646
     \<and> (\<forall>k<length cs. t_id (txns s (cs ! k)) = (serial_inc ^^ k) b)
     \<and> (\<forall>k. Suc k < length cs \<longrightarrow> next_txn (txns s (cs ! k)) = cs ! Suc k)
     \<and> last cs = read_txn s \<and> start_txn (txns s (read_txn s)) = hd cs"

lemma chain_ids:
  assumes "chain_ok s b cs" "i \<le> j" "j < length cs"
  shows "t_id (txns s (cs ! j)) = (serial_inc ^^ (j - i)) (t_id (txns s (cs ! i)))" "t_id (txns s (cs ! i)) \<noteq> 0"
proof -
  have "t_id (txns s (cs ! j)) = (serial_inc ^^ ((j - i) + i)) b" "t_id (txns s (cs ! i)) = (serial_inc ^^ i) b"
    using assms by (auto simp: chain_ok_def)
  then show "t_id (txns s (cs ! j)) = (serial_inc ^^ (j - i)) (t_id (txns s (cs ! i)))" by (simp only: funpow_add o_def)
  show "t_id (txns s (cs ! i)) \<noteq> 0" using assms serial_steps(1)[of b i] by (auto simp: chain_ok_def)
qed

lemma chain_read:
  assumes "chain_ok s b cs"
  shows "cs ! (length cs - 1) = read_txn s" "length cs - 1 < length cs" "read_txn s \<in> set cs" "last cs = read_txn s"
    "read_txn s \<notin> set (butlast cs)" "t_id (txns s (read_txn s)) \<noteq> 0" "read_txn s \<noteq> 0"
proof -
  show l: "cs ! (length cs - 1) = read_txn s" "length cs - 1 < length cs" "read_txn s \<in> set cs" "last cs = read_txn s"
    using assms last_in_set[of cs] by (auto simp: chain_ok_def last_conv_nth)
  show "read_txn s \<notin> set (butlast cs)" using assms by (cases cs rule: rev_cases) (auto simp: chain_ok_def)
  show "t_id (txns s (read_txn s)) \<noteq> 0" using chain_ids(2)[OF assms _ l(2)] l(1) by (metis order_refl)
  show "read_txn s \<noteq> 0" using l(3) assms by (metis chain_ok_def)
qed

lemma chain_less:
  assumes "chain_ok s b cs" "i < length cs"
  shows "serial_less (t_id (txns s (cs ! i))) (t_id (txns s (last cs))) \<longleftrightarrow> Suc i < length cs"
proof -
  let ?j = "length cs - 1"
  have j: "last cs = cs ! ?j" "i \<le> ?j" "?j < length cs" "length cs < 2147483646"
    using assms by (auto simp: chain_ok_def last_conv_nth)
  note ids = chain_ids[OF assms(1) j(2,3)]
  show ?thesis
  proof (cases "Suc i < length cs")
    case True
    then show ?thesis using serial_steps(2)[OF ids(2), of "?j - i"] ids(1) j by simp
  next
    case False
    then have "?j - i = 0" using assms(2) by simp
    then show ?thesis using False serial_steps(3)[OF ids(2), of 0] ids(1) j(1) by simp
  qed
qed

definition after_gc :: "nat \<Rightarrow> 'm \<Rightarrow> 'h \<Rightarrow> ('m, 'h) database \<Rightarrow> ('m, 'h) database" where
  "after_gc a m h s = s\<lparr>txns := (txns s)(cur_txn s := (txns s (cur_txn s))\<lparr>start_txn := a, mem_manager := m\<rparr>),
     shared := h, start_txn_id := t_id (txns s a)\<rparr>"

definition freed_mem :: "'m \<Rightarrow> 'h \<Rightarrow> ('m, 'h) database \<Rightarrow> ('m, 'h) database" where
  "freed_mem m h s = s\<lparr>txns := (txns s)(cur_txn s := (txns s (cur_txn s))\<lparr>mem_manager := m\<rparr>), shared := h\<rparr>"

lemma db_free_freed:
  assumes "db_free Ops a s = Some s'"
  obtains m h where "s' = freed_mem m h s"
proof -
  obtain m h where "s' = upd_txn (cur_txn s) (\<lambda>t. t\<lparr>mem_manager := m\<rparr>) (s\<lparr>shared := h\<rparr>)"
    using assms by (auto simp: db_free_def bind_eq_Some_conv)
  then show thesis using that[of m h] by (cases s) (simp add: upd_txn_def freed_mem_def)
qed

lemma freed_mem_fields [simp]:
  "cur_txn (freed_mem m h s) = cur_txn s" "start_txn_id (freed_mem m h s) = start_txn_id s" "read_txn (freed_mem m h s) = read_txn s"
  "a \<noteq> cur_txn s \<Longrightarrow> txns (freed_mem m h s) a = txns s a"
  by (simp_all add: freed_mem_def)

lemma after_gc_freed: "a \<noteq> cur_txn s \<Longrightarrow> after_gc a m h (freed_mem m' h' s) = after_gc a m h s"
  by (cases s) (simp add: after_gc_def freed_mem_def)

lemma chain_freed: "chain_ok s b cs \<Longrightarrow> cur_txn s \<notin> set cs \<Longrightarrow> chain_ok (freed_mem m h s) b cs"
proof -
  assume c: "chain_ok s b cs" "cur_txn s \<notin> set cs"
  have "cs ! k \<noteq> cur_txn s" if "k < length cs" for k using c(2) that by (metis nth_mem)
  moreover have "read_txn s \<noteq> cur_txn s" using c last_in_set[of cs] by (auto simp: chain_ok_def)
  ultimately show ?thesis using c(1) by (simp add: chain_ok_def)
qed

lemma gc_walk_spec:
  assumes "chain_ok s b cs" "cur_txn s \<notin> set cs" "refs (txns s (last cs)) \<noteq> 0" "i < length cs"
    "gc_walk Ops (t_id (txns s (last cs))) (cs ! i) s = Some s'"
  shows "\<exists>j m h. i \<le> j \<and> j < length cs \<and> refs (txns s (cs ! j)) \<noteq> 0 \<and> (\<forall>k. i \<le> k \<and> k < j \<longrightarrow> refs (txns s (cs ! k)) = 0)
    \<and> s' = after_gc (cs ! j) m h s"
  using assms
proof (induction "length cs - i" arbitrary: i s)
  case (Suc n)
  have nc: "cs ! k \<noteq> cur_txn s" if "k < length cs" for k using Suc.prems(2) that by (metis nth_mem)
  show ?case
  proof (cases "refs (txns s (cs ! i)) \<noteq> 0")
    case True
    then have "s' = after_gc (cs ! i) (mem_manager (txns s (cur_txn s))) (shared s) s"
      using Suc.prems(5) by (subst (asm) gc_walk.simps) (cases s, simp add: after_gc_def upd_txn_def)
    then show ?thesis using True Suc.prems(4) by (intro exI[of _ i]) auto
  next
    case False
    have "i \<noteq> length cs - 1" using False Suc.prems(1,3) by (auto simp: chain_ok_def last_conv_nth)
    then have i: "Suc i < length cs" using Suc.prems(4) by linarith
    obtain s1 where s1: "db_free Ops (cs ! i) s = Some s1"
      using Suc.prems(5) False by (subst (asm) gc_walk.simps) (auto simp: bind_eq_Some_conv)
    then obtain m h where f: "s1 = freed_mem m h s" by (rule db_free_freed)
    let ?s = "freed_mem m h s"
    have lc: "last cs \<noteq> cur_txn s" using nc[of "length cs - 1"] Suc.prems(1) by (auto simp: chain_ok_def last_conv_nth)
    have ids: "t_id (txns ?s (cs ! i)) = t_id (txns s (cs ! i))" "next_txn (txns ?s (cs ! i)) = cs ! Suc i"
      "txns ?s (last cs) = txns s (last cs)"
      using nc[of i] lc i Suc.prems(1,4) by (auto simp: chain_ok_def)
    have step: "gc_walk Ops (t_id (txns ?s (last cs))) (cs ! Suc i) ?s = Some s'"
      using Suc.prems(5) False s1 f ids chain_less[OF Suc.prems(1,4)] i by (subst (asm) gc_walk.simps) simp
    have p: "n = length cs - Suc i" "cur_txn ?s \<notin> set cs" "refs (txns ?s (last cs)) \<noteq> 0"
      using Suc.hyps(2) Suc.prems(2,3) ids(3) by simp_all
    obtain j m' h' where j: "Suc i \<le> j" "j < length cs" "refs (txns ?s (cs ! j)) \<noteq> 0"
      "\<forall>k. Suc i \<le> k \<and> k < j \<longrightarrow> refs (txns ?s (cs ! k)) = 0" "s' = after_gc (cs ! j) m' h' ?s"
      using Suc.hyps(1)[OF p(1) chain_freed[OF Suc.prems(1,2), of m h] p(2,3) i step] by blast
    have "s' = after_gc (cs ! j) m' h' s" using j(5) after_gc_freed[OF nc[OF j(2)]] by simp
    moreover have "refs (txns s (cs ! k)) = 0" if "i \<le> k" "k < j" for k
    proof (cases "k = i")
      case True then show ?thesis using False by simp
    next
      case False
      then show ?thesis using j(2) j(4)[rule_format, of k] nc[of k] that by simp
    qed
    ultimately show ?thesis using j(1,2,3) nc[OF j(2)] by (intro exI[of _ j]) auto
  qed
qed simp

lemma iter_chain:
  assumes "chain_ok s b cs" "i < length cs"
  shows "iter_transactions n s (cs ! i) = take n (drop i cs)"
  using assms(2)
proof (induction n arbitrary: i)
  case (Suc n)
  have l: "last cs = read_txn s" using assms(1) by (simp add: chain_ok_def)
  have d: "drop i cs = cs ! i # drop (Suc i) cs" using Suc.prems by (simp add: Cons_nth_drop_Suc)
  show ?case
  proof (cases "Suc i < length cs")
    case True
    then have "next_txn (txns s (cs ! i)) = cs ! Suc i" using assms(1) by (simp add: chain_ok_def)
    then show ?thesis using chain_less[OF assms(1) Suc.prems] True Suc.IH[OF True] d l by simp
  next
    case False
    then show ?thesis using chain_less[OF assms(1) Suc.prems] d l by simp
  qed
qed simp

lemma iter_all:
  assumes "chain_ok s b cs"
  shows "iter_transactions n s (start_txn (txns s (read_txn s))) = take n cs"
  using iter_chain[OF assms, of 0 n] assms by (simp add: chain_ok_def hd_conv_nth)

section \<open>Runs of the database\<close>

text \<open>Between transactions, and during one: \<open>j\<close> is the position of the oldest transaction kept by the active one.\<close>

definition readers_in :: "('m, 'h) database \<Rightarrow> nat list \<Rightarrow> bool" where
  "readers_in s cs \<longleftrightarrow> (\<forall>a. refs (txns s a) \<noteq> 0 \<longrightarrow> a \<in> set cs)"

definition page_ready :: "('m, 'h) database \<Rightarrow> nat list \<Rightarrow> bool" where
  "page_ready s cs \<longleftrightarrow> next_txn_page s \<noteq> 0 \<and> next_txn_page s \<notin> set cs"

definition idle :: "('m, 'h) database \<Rightarrow> nat list \<Rightarrow> bool" where
  "idle s cs \<longleftrightarrow> (\<exists>b. chain_ok s b cs) \<and> cur_txn s = 0 \<and> \<not> txn_lock s \<and> prepared_txn s = read_txn s
     \<and> txn_cursor_id s = 0 \<and> page_ready s cs \<and> readers_in s cs"

definition busy :: "('m, 'h) database \<Rightarrow> nat list \<Rightarrow> nat \<Rightarrow> bool" where
  "busy s cs j \<longleftrightarrow> (\<exists>b. chain_ok s b cs) \<and> j < length cs \<and> cur_txn s \<noteq> 0 \<and> cur_txn s \<notin> set cs \<and> txn_lock s
     \<and> txn_cursor_id s \<noteq> 0
     \<and> t_id (txns s (cur_txn s)) = serial_inc (t_id (txns s (read_txn s)))
     \<and> start_txn (txns s (cur_txn s)) = cs ! j \<and> start_txn_id s = t_id (txns s (cs ! j))
     \<and> readers_in s (drop j cs @ [cur_txn s])
     \<and> (if prepared_txn s = read_txn s then True
        else prepared_txn s = cur_txn s \<and> next_txn (txns s (read_txn s)) = cur_txn s \<and> page_ready s (cur_txn s # cs))"

text \<open>
  What the page allocator promises for the page of the next transaction: it is none of the pages that
  hold transactions.
\<close>

definition page_law :: "('m, 'h) txn_ops \<Rightarrow> ('m, 'h) database \<Rightarrow> bool" where
  "page_law Ops s \<longleftrightarrow>
     (\<forall>p m h. op_new Ops (start_txn_id s) (active_id s) (mem_manager (txns s (cur_txn s))) (shared s) = Some (p, m, h)
       \<longrightarrow> p \<noteq> 0 \<and> p \<noteq> cur_txn s \<and> (\<forall>n. p \<notin> set (iter_transactions n s (start_txn (txns s (read_txn s))))))"

section \<open>The invariant\<close>

lemma chain_cong:
  assumes c: "chain_ok s b cs" and r: "read_txn s' = read_txn s"
    and f: "\<And>a. a \<in> set cs \<Longrightarrow> t_id (txns s' a) = t_id (txns s a) \<and> start_txn (txns s' a) = start_txn (txns s a)"
    and n: "\<And>a. a \<in> set (butlast cs) \<Longrightarrow> next_txn (txns s' a) = next_txn (txns s a)"
  shows "chain_ok s' b cs"
proof -
  have "cs ! k \<in> set (butlast cs)" if "Suc k < length cs" for k
    using that nth_mem[of k "butlast cs"] by (simp add: nth_butlast)
  moreover have "read_txn s \<in> set cs" using c last_in_set[of cs] by (auto simp: chain_ok_def)
  ultimately show ?thesis using c r f n by (simp add: chain_ok_def)
qed

lemma upd_txn_fields [simp]:
  "txns (upd_txn a f s) = (txns s)(a := f (txns s a))" "read_txn (upd_txn a f s) = read_txn s" "cur_txn (upd_txn a f s) = cur_txn s"
  "txn_lock (upd_txn a f s) = txn_lock s" "prepared_txn (upd_txn a f s) = prepared_txn s" "txn_cursor_id (upd_txn a f s) = txn_cursor_id s"
  "next_txn_page (upd_txn a f s) = next_txn_page s" "start_txn_id (upd_txn a f s) = start_txn_id s" "shared (upd_txn a f s) = shared s"
  by (simp_all add: upd_txn_def)

text \<open>Steps that keep every field the invariant reads but the references.\<close>

definition same_txns :: "('m, 'h) database \<Rightarrow> ('m, 'h) database \<Rightarrow> bool" where
  "same_txns s s' \<longleftrightarrow> (\<forall>a. t_id (txns s' a) = t_id (txns s a) \<and> start_txn (txns s' a) = start_txn (txns s a)
       \<and> next_txn (txns s' a) = next_txn (txns s a))
     \<and> read_txn s' = read_txn s \<and> cur_txn s' = cur_txn s \<and> txn_lock s' = txn_lock s \<and> prepared_txn s' = prepared_txn s
     \<and> txn_cursor_id s' = txn_cursor_id s \<and> next_txn_page s' = next_txn_page s \<and> start_txn_id s' = start_txn_id s"

lemma same_txns_chain: "same_txns s s' \<Longrightarrow> chain_ok s b cs \<Longrightarrow> chain_ok s' b cs"
  by (erule chain_cong) (auto simp: same_txns_def)

lemma same_txns_idle:
  assumes "same_txns s s'" "\<And>a. refs (txns s' a) \<noteq> 0 \<Longrightarrow> refs (txns s a) \<noteq> 0 \<or> a = read_txn s" "idle s cs"
  shows "idle s' cs"
proof -
  obtain b where b: "chain_ok s b cs" using assms(3) by (auto simp: idle_def)
  have "readers_in s' cs" unfolding readers_in_def using assms(2,3) chain_read(3)[OF b] by (auto simp: idle_def readers_in_def)
  then show ?thesis using assms(1,3) same_txns_chain[OF assms(1) b]
    by (auto simp: idle_def same_txns_def page_ready_def)
qed

lemma same_txns_busy:
  assumes "same_txns s s'" "\<And>a. refs (txns s' a) \<noteq> 0 \<Longrightarrow> refs (txns s a) \<noteq> 0 \<or> a = read_txn s \<or> a = cur_txn s" "busy s cs j"
  shows "busy s' cs j"
proof -
  obtain b where b: "chain_ok s b cs" using assms(3) by (auto simp: busy_def)
  have "read_txn s \<in> set (drop j cs)" using b assms(3) last_in_set[of "drop j cs"] by (auto simp: chain_ok_def busy_def)
  then have "readers_in s' (drop j cs @ [cur_txn s])" unfolding readers_in_def using assms(2,3)
    by (auto simp: busy_def readers_in_def)
  then show ?thesis using assms(1,3) same_txns_chain[OF assms(1) b]
    by (auto simp: busy_def same_txns_def page_ready_def)
qed

lemma start_busy:
  assumes i: "idle s cs" and st: "start_transaction Ops cursor s = Some (res, s')" and c: "cursor \<noteq> 0"
    and w: "refs (txns s (read_txn s)) + 1 \<noteq> 0"
  shows "(\<exists>j. busy s' cs j) \<and> (\<forall>a. refs (txns s' a) = refs (txns s a)) \<and> res = Some (cur_txn s') \<and> cur_txn s' = next_txn_page s
    \<and> txn_cursor_id s' = cursor \<and> read_txn s' = read_txn s \<and> t_root (txns s' (cur_txn s')) = t_root (txns s (next_txn_page s))"
proof -
  obtain b where ch: "chain_ok s b cs" using i by (auto simp: idle_def)
  let ?r = "read_txn s" and ?p = "next_txn_page s" and ?id = "t_id (txns s (read_txn s))"
  have fr: "?p \<noteq> 0" "?p \<notin> set cs" "\<not> txn_lock s" using i by (auto simp: idle_def page_ready_def)
  note rc = chain_read(3,4)[OF ch] and i0 = chain_read(6)[OF ch]
  have pr: "?p \<noteq> ?r" using fr rc by auto
  define s1 where "s1 = s\<lparr>txn_lock := True, txn_cursor_id := cursor, cur_txn := ?p, next_txn_page := 0, start_txn_id := ?id,
    txns := (txns s)(?p := (txns s ?p)\<lparr>t_id := serial_add ?id 1, next_txn := 0\<rparr>, ?r := (txns s ?r)\<lparr>refs := refs (txns s ?r) + 1\<rparr>)\<rparr>"
  obtain s2 where g: "gc_walk Ops ?id (start_txn (txns s ?r)) s1 = Some s2" "s' = upd_txn ?r (\<lambda>t. t\<lparr>refs := refs t - 1\<rparr>) s2"
    "res = Some (cur_txn s2)"
    using st fr(3) pr by (cases s) (auto simp: start_transaction_def Let_def upd_txn_def s1_def bind_eq_Some_conv fun_upd_twist)
  have ne: "a \<noteq> ?p" if "a \<in> set cs" for a using fr(2) that by auto
  have nb: "?p \<notin> set (butlast cs)" using fr(2) by (blast dest: in_set_butlastD)
  have f1: "t_id (txns s1 a) = t_id (txns s a)" "start_txn (txns s1 a) = start_txn (txns s a)" "next_txn (txns s1 a) = next_txn (txns s a)"
    if "a \<in> set cs" for a using ne[OF that] by (simp_all add: s1_def)
  have ch1: "chain_ok s1 b cs"
    by (rule chain_cong[OF ch]) (use nb in \<open>auto simp: s1_def ne\<close>)
  have h: "start_txn (txns s ?r) = cs ! 0" "0 < length cs" using ch by (auto simp: chain_ok_def hd_conv_nth)
  have "gc_walk Ops (t_id (txns s1 (last cs))) (cs ! 0) s1 = Some s2" using g(1) h f1(1)[OF rc(1)] rc(2) by simp
  from gc_walk_spec[OF ch1 _ _ h(2) this] obtain j m h' where j: "j < length cs" "\<forall>k<j. refs (txns s1 (cs ! k)) = 0"
    "s2 = after_gc (cs ! j) m h' s1"
    using fr(2) rc(2) w by (auto simp: s1_def)
  have s': "s' = upd_txn ?r (\<lambda>t. t\<lparr>refs := refs t - 1\<rparr>) (after_gc (cs ! j) m h' s1)" using g(2) j(3) by simp
  have cu: "cur_txn s1 = ?p" "txn_lock s1" "txn_cursor_id s1 = cursor" "read_txn s1 = ?r" "prepared_txn s1 = ?r"
    using i by (simp_all add: s1_def idle_def)
  have cj: "cs ! j \<noteq> ?p" using ne j(1) by auto
  have tx: "txns s' a = (if a = ?p then (txns s ?p)\<lparr>t_id := serial_add ?id 1, next_txn := 0, start_txn := cs ! j, mem_manager := m\<rparr> else txns s a)" for a
    using pr by (simp add: s' after_gc_def cu s1_def)
  have fs: "cur_txn s' = ?p" "txn_lock s'" "txn_cursor_id s' = cursor" "read_txn s' = ?r" "prepared_txn s' = ?r"
    "start_txn_id s' = t_id (txns s (cs ! j))"
    using cu f1(1)[of "cs ! j"] j(1) by (simp_all add: s' after_gc_def)
  have "chain_ok s' b cs" by (rule chain_cong[OF ch]) (use nb in \<open>auto simp: tx fs ne\<close>)
  moreover have "readers_in s' (drop j cs @ [cur_txn s'])"
    unfolding readers_in_def
  proof (intro allI impI)
    fix a assume a: "refs (txns s' a) \<noteq> 0"
    have "refs (txns s ?p) = 0" using i fr(2) by (auto simp: idle_def readers_in_def)
    then have "refs (txns s a) \<noteq> 0" using a by (simp add: tx split: if_splits)
    then have "a \<in> set cs" "refs (txns s1 a) \<noteq> 0" using i ne w by (auto simp: idle_def readers_in_def s1_def)
    then obtain k where k: "k < length cs" "a = cs ! k" by (auto simp: in_set_conv_nth)
    then have "\<not> k < j" using j(2) \<open>refs (txns s1 a) \<noteq> 0\<close> by auto
    with k have "drop j cs ! (k - j) = a" "k - j < length (drop j cs)" by auto
    then show "a \<in> set (drop j cs @ [cur_txn s'])" by (auto simp: in_set_conv_nth)
  qed
  moreover have "serial_add ?id 1 = serial_inc ?id" using serial_add_counts[OF i0, of 1] by simp
  ultimately have "busy s' cs j" using j(1) fr(1,2) c cj pr unfolding busy_def by (auto simp: fs tx)
  then show ?thesis using g(3) j(3) cu(1) by (auto simp: fs tx after_gc_def)
qed


lemma busy_id: "busy s cs j \<Longrightarrow> active_id s \<noteq> 0"
proof -
  assume b: "busy s cs j"
  then obtain x where c: "chain_ok s x cs" by (auto simp: busy_def)
  show ?thesis using b chain_read(6)[OF c] serial_steps(1)[of "t_id (txns s (read_txn s))" 1] by (simp add: active_id_def busy_def)
qed

lemma page_fresh:
  assumes "page_law Ops s" "chain_ok s b cs" "op_new Ops (start_txn_id s) (active_id s) (mem_manager (txns s (cur_txn s))) (shared s) = Some (p, m, h)"
  shows "p \<noteq> 0 \<and> p \<noteq> cur_txn s \<and> p \<notin> set cs"
proof -
  have "p \<notin> set (take (length cs) cs)" "p \<noteq> 0" "p \<noteq> cur_txn s"
    using assms(1,3) iter_all[OF assms(2)] unfolding page_law_def by metis+
  then show ?thesis by simp
qed

lemma prepare_busy:
  assumes b: "busy s cs j" and p: "prepare_commit Ops cursor s = Some (t, s')" and l: "page_law Ops s"
    and c: "cursor = txn_cursor_id s"
  shows "busy s' cs j \<and> t = active_id s \<and> prepared_txn s' = cur_txn s' \<and> read_txn s' = read_txn s \<and> cur_txn s' = cur_txn s
    \<and> t_root (txns s' (cur_txn s)) = t_root (txns s (cur_txn s)) \<and> t_id (txns s' (read_txn s)) = t_id (txns s (read_txn s))
    \<and> (\<forall>a. refs (txns s' a) = refs (txns s a)) \<and> txn_cursor_id s' = txn_cursor_id s"
proof (cases "prepared_txn s = read_txn s")
  case False
  then show ?thesis using p b c by (auto simp: prepare_commit_def busy_def)
next
  case True
  let ?c = "cur_txn s" and ?r = "read_txn s"
  obtain x where ch: "chain_ok s x cs" using b by (auto simp: busy_def)
  obtain q m h where q: "op_new Ops (start_txn_id s) (active_id s) (mem_manager (txns s ?c)) (shared s) = Some (q, m, h)"
    using p True c by (auto simp: prepare_commit_def clone_def bind_eq_Some_conv)
  have fr: "q \<noteq> 0" "q \<noteq> ?c" "q \<notin> set cs" using page_fresh[OF l ch q] by auto
  note rc = chain_read(3)[OF ch] and nl = chain_read(5)[OF ch]
  have ne: "?r \<noteq> ?c" "?r \<noteq> q" "?c \<noteq> 0" "?c \<notin> set cs" "?c \<notin> set (butlast cs)" "q \<notin> set (butlast cs)"
    using rc b fr by (auto simp: busy_def dest: in_set_butlastD)
  have s': "txns s' = (txns s)(?c := (txns s ?c)\<lparr>mem_manager := m\<rparr>, q := (txns s ?c)\<lparr>mem_manager := m, refs := 0\<rparr>,
      ?r := (txns s ?r)\<lparr>next_txn := ?c\<rparr>)" "read_txn s' = ?r" "cur_txn s' = ?c" "prepared_txn s' = ?c" "next_txn_page s' = q"
      "txn_lock s' = txn_lock s" "txn_cursor_id s' = txn_cursor_id s" "start_txn_id s' = start_txn_id s" "t = active_id s"
    using p True c q ne by (auto simp: prepare_commit_def clone_def active_id_def Let_def)
  have "chain_ok s' x cs"
    by (rule chain_cong[OF ch]) (use ne fr nl in \<open>auto simp: s'\<close>)
  moreover have "readers_in s' (drop j cs @ [?c])" using b ne fr by (auto simp: busy_def readers_in_def s')
  moreover have "cs ! j \<in> set cs" using b by (simp add: busy_def)
  then have "cs ! j \<noteq> ?c" "cs ! j \<noteq> q" using ne(4) fr(3) by metis+
  moreover have "refs (txns s q) = 0" using b fr by (auto simp: busy_def readers_in_def dest: in_set_dropD)
  ultimately show ?thesis using b ne fr unfolding busy_def page_ready_def by (auto simp: s')
qed

lemma rollback_idle:
  assumes b: "busy s cs j" and r: "rollback (txn_cursor_id s) s = (res, s')"
  shows "idle s' cs \<and> res \<and> read_txn s' = read_txn s \<and> next_txn_page s' = cur_txn s
    \<and> txns s' = (txns s)(cur_txn s := (txns s (read_txn s))\<lparr>refs := 0\<rparr>)"
proof -
  let ?c = "cur_txn s" and ?r = "read_txn s"
  obtain x where ch: "chain_ok s x cs" using b by (auto simp: busy_def)
  have s': "txns s' = (txns s)(?c := (txns s ?r)\<lparr>refs := 0\<rparr>)" "read_txn s' = ?r" "cur_txn s' = 0" "prepared_txn s' = ?r"
    "next_txn_page s' = ?c" "\<not> txn_lock s'" "txn_cursor_id s' = 0" "res"
    using r by (auto simp: rollback_def Let_def end_transaction_def return_areas_range_def split: if_splits)
  have ne: "?c \<notin> set cs" "?c \<notin> set (butlast cs)" "?c \<noteq> 0" using b by (auto simp: busy_def dest: in_set_butlastD)
  have "chain_ok s' x cs"
    by (rule chain_cong[OF ch]) (use ne in \<open>auto simp: s'\<close>)
  moreover have "readers_in s' cs" using b by (auto simp: busy_def readers_in_def s' dest: in_set_dropD)
  ultimately show ?thesis using ne unfolding idle_def page_ready_def by (auto simp: s')
qed

lemma publish_idle:
  assumes b: "busy s cs j" and p: "prepared_txn s = cur_txn s" "read_txn s \<noteq> cur_txn s" and n: "Suc (length cs) < 2147483646"
  shows "idle (end_transaction (s\<lparr>read_txn := prepared_txn s\<rparr>)) (drop j cs @ [cur_txn s])"
proof -
  let ?s = "end_transaction (s\<lparr>read_txn := prepared_txn s\<rparr>)" and ?c = "cur_txn s" and ?cs = "drop j cs @ [cur_txn s]"
  obtain x where ch: "chain_ok s x cs" using b by (auto simp: busy_def)
  have j: "j < length cs" and nx: "next_txn (txns s (read_txn s)) = ?c" "page_ready s (?c # cs)" "?c \<notin> set cs" "?c \<noteq> 0"
    using b p by (auto simp: busy_def)
  have s': "txns ?s = txns s" "read_txn ?s = ?c" by (simp_all add: end_transaction_def p)
  have ids: "t_id (txns s (?cs ! k)) = (serial_inc ^^ k) (t_id (txns s (cs ! j)))" if "k < length ?cs" for k
  proof (cases "k < length cs - j")
    case True
    then show ?thesis using chain_ids(1)[OF ch, of j "j + k"] j by (simp add: nth_append)
  next
    case False
    then have "k = Suc (length cs - 1 - j)" using that j by simp
    moreover have "t_id (txns s (read_txn s)) = (serial_inc ^^ (length cs - 1 - j)) (t_id (txns s (cs ! j)))"
      using chain_ids(1)[OF ch _ chain_read(2)[OF ch], of j] j chain_read(1)[OF ch] by simp
    moreover have "t_id (txns s ?c) = serial_inc (t_id (txns s (read_txn s)))" using b by (simp add: busy_def)
    moreover have "Suc (length cs - 1 - j) = length (drop j cs)" using j by simp
    then have "?cs ! Suc (length cs - 1 - j) = ?c" by (simp only: nth_append_length)
    ultimately show ?thesis by (simp only: funpow.simps o_def)
  qed
  have lnk: "next_txn (txns s (?cs ! k)) = ?cs ! Suc k" if "Suc k < length ?cs" for k
  proof (cases "Suc k < length cs - j")
    case True
    then show ?thesis using ch by (simp add: nth_append chain_ok_def)
  next
    case False
    then have k: "Suc k = length (drop j cs)" using that j by simp
    then have "j + k = length cs - 1" using j by simp
    then have "?cs ! k = read_txn s" using chain_read(1)[OF ch] k by (simp add: nth_append)
    moreover have "?cs ! Suc k = ?c" by (simp only: k nth_append_length)
    ultimately show ?thesis using nx(1) by simp
  qed
  have "chain_ok ?s (t_id (txns s (cs ! j))) ?cs"
    unfolding chain_ok_def s'
  proof (intro conjI allI impI)
    show "distinct ?cs" using ch nx(3) by (auto simp: chain_ok_def dest: in_set_dropD)
    show "0 \<notin> set ?cs" using ch nx(4) by (auto simp: chain_ok_def dest: in_set_dropD)
    show "t_id (txns s (cs ! j)) \<noteq> 0" using chain_ids(2)[OF ch _ j] j by simp
    show "start_txn (txns s ?c) = hd ?cs" using b j by (simp add: busy_def hd_drop_conv_nth)
  qed (use n ids lnk in auto)
  moreover have "readers_in ?s ?cs" using b by (auto simp: busy_def readers_in_def s')
  moreover have "page_ready ?s ?cs" using nx(2) by (auto simp: page_ready_def end_transaction_def dest: in_set_dropD)
  ultimately show ?thesis unfolding idle_def by (auto simp: end_transaction_def)
qed


lemma commit_idle:
  assumes b: "busy s cs j" and c: "commit Ops (txn_cursor_id s) s = (res, s')" and l: "page_law Ops s"
    and n: "Suc (length cs) < 2147483646"
  shows "(res = Some True \<and> idle s' (drop j cs @ [cur_txn s]) \<and> (\<forall>a. refs (txns s' a) = refs (txns s a)) \<and> read_txn s' = cur_txn s
           \<and> t_root (txns s' (cur_txn s)) = t_root (txns s (cur_txn s)) \<and> t_id (txns s' (cur_txn s)) = serial_inc (t_id (txns s (read_txn s))))
       \<or> (res = None \<and> idle s' cs \<and> s' = snd (rollback (txn_cursor_id s) s))"
proof (cases "prepare_commit Ops (txn_cursor_id s) s")
  case None
  then have r: "res = None" "s' = snd (rollback (txn_cursor_id s) s)" using c by (auto simp: commit_def)
  moreover have "idle s' cs" using rollback_idle[OF b] r(2) by (cases "rollback (txn_cursor_id s) s") auto
  ultimately show ?thesis by simp
next
  case (Some ts)
  then obtain t s1 where s1: "prepare_commit Ops (txn_cursor_id s) s = Some (t, s1)" by (cases ts) auto
  note p = prepare_busy[OF b s1 l refl]
  have "t \<noteq> 0" using p busy_id[OF b] by simp
  then have r: "res = Some True" "s' = end_transaction (s1\<lparr>read_txn := prepared_txn s1\<rparr>)" using c s1 by (auto simp: commit_def)
  obtain x where ch: "chain_ok s1 x cs" using p by (auto simp: busy_def)
  have "read_txn s1 \<noteq> cur_txn s1" using p chain_read(3)[OF ch] by (auto simp: busy_def)
  then have "idle s' (drop j cs @ [cur_txn s])" using publish_idle[of s1 cs j] p n r(2) by simp
  moreover have "t_id (txns s1 (cur_txn s1)) = serial_inc (t_id (txns s1 (read_txn s1)))"
    using conjunct1[OF p] by (simp add: busy_def)
  ultimately show ?thesis using r p by (simp add: end_transaction_def)
qed

end
