(* ===== verification/Leaves_System.thy ===== *)
theory Leaves_System
  imports Leaves_DB
begin

text \<open>
  A database with its cursors: \<open>_TransactionalCursor\<close> of \<open>include/leaves/intern/db/_cursor.hpp\<close> as far as it handles
  transactions, and the recovery of the log of \<open>include/leaves/intern/db/_db.hpp\<close>. The theorems hold for every
  interleaving of the steps of any number of reading cursors and of the writing one, as long as no commit or
  prepare throws: references are exact, and between the steps nothing a cursor can still see may be recycled.
\<close>

section \<open>Cursors\<close>

text \<open>
  The cursors of a database with the transactions they hold
  (\<open>_TransactionalCursor\<close> of \<open>db/_cursor.hpp\<close>): cursor ids are not 0. The answers of the aspect's gates are
  arguments.
\<close>

type_synonym ('m, 'h) system = "('m, 'h) database \<times> (nat \<rightharpoonup> nat)"

definition set_txn :: "nat \<Rightarrow> nat \<Rightarrow> ('m, 'h) system \<Rightarrow> ('m, 'h) system" where
  "set_txn c a = (\<lambda>(d, cu). (txn_ref_at a (case cu c of None \<Rightarrow> d | Some b \<Rightarrow> txn_unref b d), cu(c \<mapsto> a)))"

definition cursor_update :: "nat \<Rightarrow> ('m, 'h) system \<Rightarrow> ('m, 'h) system" where
  "cursor_update c = (\<lambda>(d, cu).
     if cu c = Some (read_txn d) then (d, cu)
     else let new_txn = read_txn d; d = txn_ref d;
              newer = (case cu c of None \<Rightarrow> True | Some a \<Rightarrow> serial_greater (t_id (txns d new_txn)) (t_id (txns d a)));
              (d, cu) = (if newer then set_txn c new_txn (d, cu) else (d, cu))
          in (txn_unref new_txn d, cu))"

definition cursor_start_transaction ::
  "('m, 'h) txn_ops \<Rightarrow> bool \<Rightarrow> nat \<Rightarrow> ('m, 'h) system \<Rightarrow> (bool \<times> ('m, 'h) system) option" where
  "cursor_start_transaction Ops before c = (\<lambda>(d, cu).
     if txn_cursor_id d = c then Some (True, d, cu)
     else if \<not> before then Some (False, d, cu)
     else do { (r, d) \<leftarrow> start_transaction Ops c d;
               Some (case r of None \<Rightarrow> (False, d, cu) | Some a \<Rightarrow> (True, set_txn c a (d, cu))) })"

definition cursor_prepare_commit :: "('m, 'h) txn_ops \<Rightarrow> nat \<Rightarrow> ('m, 'h) system \<Rightarrow> (tid \<times> ('m, 'h) system) option" where
  "cursor_prepare_commit Ops c = (\<lambda>(d, cu).
     if txn_cursor_id d \<noteq> c then Some (0, d, cu)
     else do { (t, d) \<leftarrow> prepare_commit Ops c d; Some (t, d, cu) })"

definition cursor_commit :: "('m, 'h) txn_ops \<Rightarrow> bool \<Rightarrow> nat \<Rightarrow> ('m, 'h) system \<Rightarrow> bool option \<times> ('m, 'h) system" where
  "cursor_commit Ops before c = (\<lambda>(d, cu).
     if txn_cursor_id d \<noteq> c \<or> \<not> before then (Some False, d, cu)
     else let (r, d) = commit Ops c d in (r, d, cu))"

definition cursor_rollback :: "bool \<Rightarrow> nat \<Rightarrow> ('m, 'h) system \<Rightarrow> bool \<times> ('m, 'h) system" where
  "cursor_rollback before c = (\<lambda>(d, cu).
     if txn_cursor_id d \<noteq> c \<or> \<not> before then (False, d, cu)
     else let (r, d) = rollback c d in
          if r then (True, txn_ref d, cu(c \<mapsto> read_txn d)) else (False, d, cu))"

definition cursor_close :: "bool \<Rightarrow> nat \<Rightarrow> ('m, 'h) system \<Rightarrow> ('m, 'h) system" where
  "cursor_close before c = (\<lambda>(d, cu).
     let (d, cu) = (if txn_cursor_id d = c then snd (cursor_rollback before c (d, cu)) else (d, cu))
     in (case cu c of None \<Rightarrow> d | Some a \<Rightarrow> txn_unref a d, cu(c := None)))"

text \<open>
  The steps of a system, with the number of commits they make. Cursors are opened, move to the newest
  transaction and are closed at any moment; the writing cursor starts, allocates areas, prepares,
  commits and rolls back. Commits and prepares that throw are not steps: \<open>commit_failure_unpins\<close> below shows what
  is wrong after such a commit. The aspect lets the destructor roll back.
\<close>

inductive sys_step :: "('m, 'h) txn_ops \<Rightarrow> nat \<Rightarrow> ('m, 'h) system \<Rightarrow> ('m, 'h) system \<Rightarrow> bool" for Ops where
  openc: "cu c = None \<Longrightarrow> c \<noteq> 0 \<Longrightarrow> card (dom cu) < 4294967290 \<Longrightarrow> sys_step Ops 0 (d, cu) (cursor_update c (d, cu))"
| update: "cu c = Some a \<Longrightarrow> sys_step Ops 0 (d, cu) (cursor_update c (d, cu))"
| start: "cu c = Some a \<Longrightarrow> cursor_start_transaction Ops before c (d, cu) = Some (ok, S) \<Longrightarrow> sys_step Ops 0 (d, cu) S"
| single: "cur_txn d \<noteq> 0 \<Longrightarrow> sys_step Ops 0 (d, cu) (db_alloc_single_area a d, cu)"
| multi: "cur_txn d \<noteq> 0 \<Longrightarrow> sys_step Ops 0 (d, cu) (db_alloc_multi_area a d, cu)"
| prepare: "cu c = Some a \<Longrightarrow> page_law Ops d \<Longrightarrow> cursor_prepare_commit Ops c (d, cu) = Some (t, S) \<Longrightarrow> sys_step Ops 0 (d, cu) S"
| commit: "cu c = Some a \<Longrightarrow> page_law Ops d \<Longrightarrow> cursor_commit Ops before c (d, cu) = (Some ok, S) \<Longrightarrow> sys_step Ops 1 (d, cu) S"
| rollback: "cu c = Some a \<Longrightarrow> cursor_rollback before c (d, cu) = (ok, S) \<Longrightarrow> sys_step Ops 0 (d, cu) S"
| closec: "cu c = Some a \<Longrightarrow> sys_step Ops 0 (d, cu) (cursor_close True c (d, cu))"

inductive sys_reach :: "('m, 'h) txn_ops \<Rightarrow> ('m, 'h) system \<Rightarrow> nat \<Rightarrow> ('m, 'h) system \<Rightarrow> bool" for Ops S where
  here: "sys_reach Ops S 0 S"
| step: "sys_reach Ops S n S' \<Longrightarrow> sys_step Ops k S' S'' \<Longrightarrow> sys_reach Ops S (n + k) S''"

text \<open>References are exact, and the writing cursor alone holds the active transaction.\<close>

definition holders :: "(nat \<rightharpoonup> nat) \<Rightarrow> nat \<Rightarrow> nat set" where
  "holders cu a = {c. cu c = Some a}"

definition refs_exact :: "('m, 'h) database \<Rightarrow> (nat \<rightharpoonup> nat) \<Rightarrow> bool" where
  "refs_exact d cu \<longleftrightarrow> finite (dom cu) \<and> card (dom cu) < 4294967294 \<and> cu 0 = None
     \<and> (\<forall>a. refs (txns d a) = of_nat (card (holders cu a)))"

definition sys_inv :: "nat \<Rightarrow> ('m, 'h) system \<Rightarrow> bool" where
  "sys_inv n = (\<lambda>(d, cu). refs_exact d cu \<and> (\<exists>cs. length cs \<le> n \<and> (idle d cs \<or> (\<exists>j. busy d cs j)
     \<and> holders cu (cur_txn d) = {txn_cursor_id d})))"

lemma holders_upd:
  "holders (cu(c \<mapsto> a)) b = (if b = a then insert c (holders cu b) else holders cu b - {c})"
  "holders (cu(c := None)) b = holders cu b - {c}"
  by (auto simp: holders_def)

lemma holders_finite: "finite (holders cu a)" "card (holders cu a) \<le> card (dom cu)" if "finite (dom cu)"
proof -
  have s: "holders cu a \<subseteq> dom cu" by (auto simp: holders_def)
  show "finite (holders cu a)" using s that by (rule finite_subset)
  show "card (holders cu a) \<le> card (dom cu)" using that s by (rule card_mono)
qed

lemma refs_zero:
  assumes "refs_exact d cu"
  shows "refs (txns d a) = 0 \<longleftrightarrow> holders cu a = {}" "refs (txns d a) + 1 \<noteq> 0"
proof -
  have b: "finite (holders cu a)" "card (holders cu a) < 4294967294"
    using assms holders_finite[of cu a] by (auto simp: refs_exact_def)
  have u: "unat (refs (txns d a)) = card (holders cu a)" using assms b(2) by (simp add: refs_exact_def unat_of_nat take_bit_eq_mod)
  show "refs (txns d a) = 0 \<longleftrightarrow> holders cu a = {}" using u b by (metis card_eq_0_iff unat_eq_zero)
  have "unat (refs (txns d a) + 1) = card (holders cu a) + 1" using u b by (simp add: unat_word_ariths)
  then show "refs (txns d a) + 1 \<noteq> 0" by (metis Suc_eq_plus1 nat.distinct(1) unat_0)
qed

lemma card_swap:
  assumes "finite A"
  shows "c \<in> A \<Longrightarrow> (of_nat (card (A - {c})) :: uint32) = of_nat (card A) - 1" "c \<notin> A \<Longrightarrow> (of_nat (card (insert c A)) :: uint32) = of_nat (card A) + 1"
proof -
  assume "c \<in> A"
  then have "card A = Suc (card (A - {c}))" using assms by (metis card_Suc_Diff1)
  then show "(of_nat (card (A - {c})) :: uint32) = of_nat (card A) - 1" by simp
qed (use assms in simp)

lemma refs_move:
  assumes e: "refs_exact d cu" and c: "c \<noteq> 0" "c \<in> dom cu \<or> card (dom cu) < 4294967290"
    and r: "\<And>a. refs (txns d' a) = refs (txns d a) - (if cu c = Some a then 1 else 0) + (if a = b then 1 else 0)"
  shows "refs_exact d' (cu(c \<mapsto> b))"
proof -
  have f: "finite (holders cu a)" for a using e holders_finite(1) by (auto simp: refs_exact_def)
  have "refs (txns d' a) = of_nat (card (holders (cu(c \<mapsto> b)) a))" for a
  proof (cases "cu c = Some a")
    case True
    then have "c \<in> holders cu a" by (simp add: holders_def)
    then have "insert c (holders cu a) = holders cu a" "(of_nat (card (holders cu a - {c})) :: uint32) = of_nat (card (holders cu a)) - 1"
      using card_swap(1)[OF f] by auto
    then show ?thesis using e r[of a] True by (simp only: holders_upd refs_exact_def) simp
  next
    case False
    then have "c \<notin> holders cu a" by (simp add: holders_def)
    then have "holders cu a - {c} = holders cu a" "(of_nat (card (insert c (holders cu a))) :: uint32) = of_nat (card (holders cu a)) + 1"
      using card_swap(2)[OF f] by auto
    then show ?thesis using e r[of a] False by (cases "a = b"; simp only: holders_upd refs_exact_def) auto
  qed
  moreover have "card (insert c (dom cu)) < 4294967294" using e c(2) by (auto simp: refs_exact_def insert_absorb card_insert_if)
  ultimately show ?thesis using e c by (simp add: refs_exact_def)
qed

lemma refs_drop:
  assumes e: "refs_exact d cu" and c: "cu c = Some b"
    and r: "\<And>a. refs (txns d' a) = refs (txns d a) - (if a = b then 1 else 0)"
  shows "refs_exact d' (cu(c := None))"
proof -
  have f: "finite (holders cu a)" for a using e holders_finite(1) by (auto simp: refs_exact_def)
  have "refs (txns d' a) = of_nat (card (holders (cu(c := None)) a))" for a
    using e r[of a] c card_swap(1)[OF f, of c a] by (auto simp: holders_upd refs_exact_def) (auto simp: holders_def)
  moreover have "card (dom cu - {c}) \<le> card (dom cu)" by (rule card_Diff1_le)
  ultimately show ?thesis using e by (auto simp: refs_exact_def)
qed

lemma refs_same: "refs_exact d cu \<Longrightarrow> (\<And>a. refs (txns d' a) = refs (txns d a)) \<Longrightarrow> refs_exact d' cu"
  by (simp add: refs_exact_def)

lemma sys_keeps:
  assumes i: "sys_inv n (d, cu)" and s: "same_txns d d'" and e: "refs_exact d' cu'"
    and h: "\<And>a. holders cu' a \<noteq> {} \<Longrightarrow> holders cu a \<noteq> {} \<or> a = read_txn d"
    and w: "\<And>cs j. busy d cs j \<Longrightarrow> holders cu' (cur_txn d) = holders cu (cur_txn d)"
  shows "sys_inv n (d', cu')"
proof -
  obtain cs where cs: "length cs \<le> n" "idle d cs \<or> (\<exists>j. busy d cs j) \<and> holders cu (cur_txn d) = {txn_cursor_id d}" "refs_exact d cu"
    using i by (auto simp: sys_inv_def)
  have r: "refs (txns d' a) \<noteq> 0 \<Longrightarrow> refs (txns d a) \<noteq> 0 \<or> a = read_txn d" for a
    using h[of a] refs_zero(1)[OF e, of a] refs_zero(1)[OF cs(3), of a] by blast
  show ?thesis
  proof (cases "idle d cs")
    case True
    then show ?thesis using same_txns_idle[OF s r] cs(1) e by (auto simp: sys_inv_def intro!: exI[of _ cs])
  next
    case False
    then obtain j where j: "busy d cs j" "holders cu (cur_txn d) = {txn_cursor_id d}" using cs(2) by auto
    have "busy d' cs j" using same_txns_busy[OF s _ j(1)] r by blast
    then show ?thesis using w[OF j(1)] j(2) s cs(1) e by (auto simp: sys_inv_def same_txns_def intro!: exI[of _ cs])
  qed
qed

lemma busy_ids:
  assumes "busy d cs j"
  shows "\<not> serial_greater (t_id (txns d (read_txn d))) (t_id (txns d (cur_txn d)))" "read_txn d \<noteq> cur_txn d"
proof -
  obtain b where ch: "chain_ok d b cs" using assms by (auto simp: busy_def)
  show "read_txn d \<noteq> cur_txn d" using assms chain_read(3)[OF ch] by (auto simp: busy_def)
  show "\<not> serial_greater (t_id (txns d (read_txn d))) (t_id (txns d (cur_txn d)))"
    using assms serial_steps(3)[OF chain_read(6)[OF ch], of 1] by (simp add: busy_def serial_greater_def)
qed

lemma update_inv:
  assumes i: "sys_inv n (d, cu)" and c: "c \<noteq> 0" "c \<in> dom cu \<or> card (dom cu) < 4294967290"
  shows "sys_inv n (cursor_update c (d, cu))"
proof -
  let ?r = "read_txn d"
  define newer where "newer = (case cu c of None \<Rightarrow> True | Some a \<Rightarrow> serial_greater (t_id (txns d ?r)) (t_id (txns d a)))"
  have e: "refs_exact d cu" using i by (simp add: sys_inv_def)
  show ?thesis
  proof (cases "cu c = Some ?r \<or> \<not> newer")
    case True
    then have "cursor_update c (d, cu) = (d, cu)"
      by (cases d) (auto simp: cursor_update_def newer_def txn_ref_def txn_unref_def upd_txn_def Let_def split: option.splits)
    then show ?thesis using i by simp
  next
    case False
    define d' where "d' = fst (cursor_update c (d, cu))"
    have n: "(case cu c of None \<Rightarrow> True | Some a \<Rightarrow> serial_greater (t_id (txns (txn_ref d) ?r)) (t_id (txns (txn_ref d) a)))"
      using False by (auto simp: newer_def txn_ref_def split: option.splits)
    have u: "cursor_update c (d, cu) = (d', cu(c \<mapsto> ?r))"
      and d': "d' = txn_unref ?r (txn_ref_at ?r (case cu c of None \<Rightarrow> txn_ref d | Some b \<Rightarrow> txn_unref b (txn_ref d)))"
      using False n by (auto simp: cursor_update_def set_txn_def d'_def Let_def)
    have s: "same_txns d d'" by (auto simp: d' txn_ref_def txn_ref_at_def txn_unref_def same_txns_def split: option.splits)
    obtain cs where "idle d cs \<or> (\<exists>j. busy d cs j)" using i by (auto simp: sys_inv_def)
    then obtain b where "chain_ok d b cs" by (auto simp: idle_def busy_def)
    then have "?r \<noteq> 0" by (rule chain_read(7))
    then have "refs_exact d' (cu(c \<mapsto> ?r))"
      by (intro refs_move[OF e c]) (use False in \<open>auto simp: d' txn_ref_def txn_ref_at_def txn_unref_def split: option.splits\<close>)
    moreover have "holders (cu(c \<mapsto> ?r)) (cur_txn d) = holders cu (cur_txn d)" if "busy d cs j" for cs j
      using busy_ids[OF that] False by (auto simp: holders_def newer_def)
    ultimately show ?thesis unfolding u by (intro sys_keeps[OF i s]) (auto simp: holders_def split: if_splits)
  qed
qed

lemma sys_exact:
  assumes "sys_inv n (d, cu)"
  shows "refs_exact d cu" "cu c = Some a \<Longrightarrow> c \<noteq> 0"
proof -
  show e: "refs_exact d cu" using assms by (simp add: sys_inv_def)
  show "cu c = Some a \<Longrightarrow> c \<noteq> 0" using e by (metis option.distinct(1) refs_exact_def)
qed

lemma writer_busy:
  assumes "sys_inv n (d, cu)" "cu c = Some a" "txn_cursor_id d = c"
  obtains cs j where "busy d cs j" "holders cu (cur_txn d) = {c}" "cu c = Some (cur_txn d)" "length cs \<le> n"
proof -
  have "c \<noteq> 0" using sys_exact(2)[OF assms(1,2)] .
  then obtain cs j where *: "busy d cs j" "holders cu (cur_txn d) = {c}" "length cs \<le> n"
    using assms by (auto simp: sys_inv_def idle_def)
  then have "cu c = Some (cur_txn d)" by (auto simp: holders_def)
  then show thesis using * that by blast
qed

lemma start_inv:
  assumes i: "sys_inv n (d, cu)" and a: "cu c = Some a" and s: "cursor_start_transaction Ops before c (d, cu) = Some (ok, S)"
  shows "sys_inv n S"
proof -
  note e = sys_exact(1)[OF i] and c = sys_exact(2)[OF i a]
  have cd: "c \<in> dom cu \<or> card (dom cu) < 4294967290" using a by blast
  have "S = (d, cu) \<or> (\<not> txn_lock d \<and> (\<exists>r d'. start_transaction Ops c d = Some (r, d')
      \<and> S = (case r of None \<Rightarrow> (d', cu) | Some x \<Rightarrow> set_txn c x (d', cu))))"
    using s by (auto simp: cursor_start_transaction_def start_transaction_def bind_eq_Some_conv split: if_splits option.splits)
  then show ?thesis
  proof (elim disjE conjE exE)
    fix r d' assume l: "\<not> txn_lock d" and st: "start_transaction Ops c d = Some (r, d')"
      and S: "S = (case r of None \<Rightarrow> (d', cu) | Some x \<Rightarrow> set_txn c x (d', cu))"
    obtain cs where cs: "idle d cs" "length cs \<le> n" using i l by (auto simp: sys_inv_def busy_def)
    note b = start_busy[OF cs(1) st c refs_zero(2)[OF e]]
    then obtain j where j: "busy d' cs j" by blast
    let ?c = "cur_txn d'"
    have e': "refs_exact d' cu" using b refs_same[OF e] by blast
    have h: "holders cu ?c = {}" using b cs(1) refs_zero(1)[OF e, of ?c] by (auto simp: idle_def page_ready_def readers_in_def)
    have "?c \<noteq> 0" using j by (simp add: busy_def)
    define d2 where "d2 = txn_ref_at ?c (txn_unref a d')"
    have S2: "S = (d2, cu(c \<mapsto> ?c))" using S b a by (simp add: set_txn_def d2_def)
    have "refs_exact d2 (cu(c \<mapsto> ?c))"
      by (rule refs_move[OF e' c cd]) (use a h \<open>?c \<noteq> 0\<close> in \<open>auto simp: d2_def txn_ref_at_def txn_unref_def\<close>)
    moreover have sm: "same_txns d' d2" using \<open>?c \<noteq> 0\<close> by (auto simp: d2_def txn_ref_at_def txn_unref_def same_txns_def)
    moreover have "busy d2 cs j"
    proof (rule same_txns_busy[OF sm _ j])
      fix x assume "refs (txns d2 x) \<noteq> 0"
      then have "holders (cu(c \<mapsto> ?c)) x \<noteq> {}" using refs_zero(1)[OF calculation(1)] by blast
      then have "x = ?c \<or> holders cu x \<noteq> {}" by (auto simp: holders_upd split: if_splits)
      then show "refs (txns d' x) \<noteq> 0 \<or> x = read_txn d' \<or> x = ?c" using refs_zero(1)[OF e'] by blast
    qed
    moreover have "holders (cu(c \<mapsto> ?c)) ?c = {c}" using h by (simp add: holders_upd)
    ultimately show ?thesis using S2 cs(2) b by (auto simp: sys_inv_def same_txns_def intro!: exI[of _ cs])
  qed (use i in simp)
qed

lemma rollback_inv:
  assumes i: "sys_inv n (d, cu)" and a: "cu c = Some a" and s: "cursor_rollback before c (d, cu) = (ok, S)"
  shows "sys_inv n S \<and> (txn_cursor_id d = c \<and> before \<longrightarrow> snd S c = Some (read_txn (fst S)) \<and> txn_cursor_id (fst S) = 0)"
proof (cases "txn_cursor_id d = c \<and> before")
  case True
  then obtain cs j where b: "busy d cs j" "holders cu (cur_txn d) = {c}" "cu c = Some (cur_txn d)" "length cs \<le> n"
    using writer_busy[OF i a] by blast
  obtain r d' where r: "rollback c d = (r, d')" by (cases "rollback c d")
  then have ri: "idle d' cs \<and> r \<and> read_txn d' = read_txn d \<and> next_txn_page d' = cur_txn d
    \<and> txns d' = (txns d)(cur_txn d := (txns d (read_txn d))\<lparr>refs := 0\<rparr>)" using rollback_idle[OF b(1)] True by blast
  have S: "S = (txn_ref d', cu(c \<mapsto> read_txn d))" using s r ri True by (simp add: cursor_rollback_def)
  note e = sys_exact(1)[OF i] and c = sys_exact(2)[OF i a]
  have cd: "c \<in> dom cu \<or> card (dom cu) < 4294967290" using a by blast
  have one: "refs (txns d (cur_txn d)) = 1" using e b(2) by (simp add: refs_exact_def)
  have "refs_exact (txn_ref d') (cu(c \<mapsto> read_txn d))"
    by (rule refs_move[OF e c cd]) (use ri one busy_ids(2)[OF b(1)] b(3) in \<open>auto simp: txn_ref_def\<close>)
  moreover have "idle (txn_ref d') cs"
    by (rule same_txns_idle[OF _ _ conjunct1[OF ri]]) (use ri in \<open>auto simp: txn_ref_def same_txns_def split: if_splits\<close>)
  ultimately have "sys_inv n S" "txn_cursor_id (fst S) = 0" using b(4) unfolding S sys_inv_def by (auto simp: idle_def)
  moreover have "snd S c = Some (read_txn (fst S))" using ri by (simp add: S txn_ref_def)
  ultimately show ?thesis by blast
next
  case False
  then show ?thesis using i s by (auto simp: cursor_rollback_def)
qed

lemma close_inv:
  assumes i: "sys_inv n (d, cu)" and a: "cu c = Some a"
  shows "sys_inv n (cursor_close True c (d, cu))"
proof -
  define T where "T = (if txn_cursor_id d = c then snd (cursor_rollback True c (d, cu)) else (d, cu))"
  obtain d1 cu1 where T: "T = (d1, cu1)" by (cases T)
  note c = sys_exact(2)[OF i a]
  obtain r S where S: "cursor_rollback True c (d, cu) = (r, S)" by (cases "cursor_rollback True c (d, cu)")
  have i1: "sys_inv n (d1, cu1)" and nc: "txn_cursor_id d1 \<noteq> c" and ex: "\<exists>b. cu1 c = Some b"
    using rollback_inv[OF i a S] i a c T S by (auto simp: T_def split: if_splits)
  then obtain b where b: "cu1 c = Some b" by blast
  have e: "refs_exact d1 cu1" using i1 by (simp add: sys_inv_def)
  have "cursor_close True c (d, cu) = (txn_unref b d1, cu1(c := None))"
    using T b by (auto simp: cursor_close_def T_def Let_def split: prod.splits if_splits)
  moreover have "sys_inv n (txn_unref b d1, cu1(c := None))"
  proof (rule sys_keeps[OF i1])
    show "same_txns d1 (txn_unref b d1)" by (auto simp: txn_unref_def same_txns_def)
    show "refs_exact (txn_unref b d1) (cu1(c := None))" by (rule refs_drop[OF e b]) (auto simp: txn_unref_def)
    show "holders (cu1(c := None)) (cur_txn d1) = holders cu1 (cur_txn d1)" if "busy d1 cs j" for cs j
    proof -
      have "\<not> idle d1 xs" for xs using that by (auto simp: busy_def idle_def)
      then have "holders cu1 (cur_txn d1) = {txn_cursor_id d1}" using i1 by (auto simp: sys_inv_def)
      then show ?thesis using nc by (auto simp: holders_upd)
    qed
  qed (auto simp: holders_upd)
  ultimately show ?thesis by simp
qed

lemma prepare_inv:
  assumes i: "sys_inv n (d, cu)" and a: "cu c = Some a" and l: "page_law Ops d" and s: "cursor_prepare_commit Ops c (d, cu) = Some (t, S)"
  shows "sys_inv n S"
proof (cases "txn_cursor_id d = c")
  case True
  then obtain cs j where b: "busy d cs j" "holders cu (cur_txn d) = {c}" "length cs \<le> n"
    using writer_busy[OF i a] by blast
  obtain d' where d': "prepare_commit Ops c d = Some (t, d')" "S = (d', cu)"
    using s True by (auto simp: cursor_prepare_commit_def bind_eq_Some_conv)
  note p = prepare_busy[OF b(1) d'(1) l True[symmetric]]
  have "refs_exact d' cu" using refs_same[OF sys_exact(1)[OF i]] p by blast
  then show ?thesis using p b True by (auto simp: d'(2) sys_inv_def)
next
  case False
  then show ?thesis using i s by (simp add: cursor_prepare_commit_def)
qed

lemma commit_inv:
  assumes i: "sys_inv n (d, cu)" and a: "cu c = Some a" and l: "page_law Ops d" and s: "cursor_commit Ops before c (d, cu) = (Some ok, S)"
    and n: "Suc n < 2147483646"
  shows "sys_inv (Suc n) S"
proof (cases "txn_cursor_id d = c \<and> before")
  case True
  then obtain cs j where b: "busy d cs j" "length cs \<le> n" using writer_busy[OF i a] by blast
  obtain d' where d': "commit Ops (txn_cursor_id d) d = (Some ok, d')" "S = (d', cu)"
    using s True by (auto simp: cursor_commit_def split: prod.splits)
  have "idle d' (drop j cs @ [cur_txn d])" "\<forall>a. refs (txns d' a) = refs (txns d a)"
    using commit_idle[OF b(1) d'(1) l] b(2) n by auto
  moreover have "length (drop j cs @ [cur_txn d]) \<le> Suc n" using b(2) by simp
  moreover have "refs_exact d' cu" using refs_same[OF sys_exact(1)[OF i]] calculation(2) by blast
  ultimately show ?thesis unfolding d'(2) sys_inv_def by blast
next
  case False
  then have "S = (d, cu)" using s by (auto simp: cursor_commit_def)
  then show ?thesis using i unfolding sys_inv_def by (auto intro: le_SucI)
qed

lemma area_step_inv:
  assumes "sys_inv n (d, cu)" "same_txns d d'" "\<And>a. refs (txns d' a) = refs (txns d a)"
  shows "sys_inv n (d', cu)"
  by (rule sys_keeps[OF assms(1,2) refs_same[OF sys_exact(1)[OF assms(1)] assms(3)]]) auto

lemma sys_step_inv:
  assumes "sys_step Ops k S S'" "sys_inv n S" "n + k < 2147483646"
  shows "sys_inv (n + k) S'"
  using assms(1)
proof cases
  case (openc cu c d)
  then show ?thesis using update_inv[of n d cu c] assms(2) by simp
next
  case (update cu c a d)
  then show ?thesis using update_inv[of n d cu c] sys_exact(2)[of n d cu c a] assms(2) by auto
next
  case (start cu c a before d ok)
  then show ?thesis using start_inv[of n d cu c a Ops before ok S'] assms(2) by simp
next
  case (single d cu a)
  then show ?thesis using assms(2)
    by (auto intro!: area_step_inv[of n d cu] simp: db_alloc_single_area_def same_txns_def)
next
  case (multi d cu a)
  then show ?thesis using assms(2)
    by (auto intro!: area_step_inv[of n d cu] simp: db_alloc_multi_area_def Let_def same_txns_def)
next
  case (prepare cu c a d t)
  then show ?thesis using prepare_inv[of n d cu c a Ops t S'] assms(2) by simp
next
  case (commit cu c a d before ok)
  then show ?thesis using commit_inv[of n d cu c a Ops before ok S'] assms(2,3) by simp
next
  case (rollback cu c a before d ok)
  then show ?thesis using rollback_inv[of n d cu c a before ok S'] assms(2) by simp
next
  case (closec cu c a d)
  then show ?thesis using close_inv[of n d cu c a] assms(2) by simp
qed

lemma sys_reach_inv:
  assumes "sys_reach Ops (d, cu) n S" "idle d cs" "refs_exact d cu" "length cs + n < 2147483646"
  shows "sys_inv (length cs + n) S"
  using assms
proof induction
  case here
  then show ?case by (auto simp: sys_inv_def)
next
  case (step n S k S')
  then show ?case using sys_step_inv[of Ops k S S' "length cs + n"] by (simp add: add.assoc)
qed

lemma kept_reader:
  assumes b: "busy d cs j" and r: "refs (txns d r) \<noteq> 0"
  obtains i where "t_id (txns d r) = (serial_inc ^^ i) (start_txn_id d)" "start_txn_id d \<noteq> 0" "i \<le> length cs"
    "r = cur_txn d \<or> r \<in> set (iter_transactions (length cs) d (start_txn (txns d (cur_txn d))))"
proof -
  obtain x where ch: "chain_ok d x cs" using b by (auto simp: busy_def)
  have j: "j < length cs" and st: "start_txn_id d = t_id (txns d (cs ! j))" "start_txn (txns d (cur_txn d)) = cs ! j"
    and cu: "t_id (txns d (cur_txn d)) = serial_inc (t_id (txns d (read_txn d)))"
    using b by (simp_all add: busy_def)
  have n0: "start_txn_id d \<noteq> 0" using chain_ids(2)[OF ch _ j] st by simp
  have rd: "t_id (txns d (read_txn d)) = (serial_inc ^^ (length cs - 1 - j)) (start_txn_id d)"
    using chain_ids(1)[OF ch _ chain_read(2)[OF ch], of j] j chain_read(1)[OF ch] st(1) by simp
  have "r \<in> set (drop j cs) \<or> r = cur_txn d" using b r by (auto simp: busy_def readers_in_def)
  then show thesis
  proof
    assume "r = cur_txn d"
    then show thesis using cu rd n0 j by (intro that[of "Suc (length cs - 1 - j)"]) auto
  next
    assume m: "r \<in> set (drop j cs)"
    then obtain i where i: "i < length cs - j" "r = cs ! (j + i)" by (auto simp: in_set_conv_nth)
    have "t_id (txns d r) = (serial_inc ^^ i) (start_txn_id d)" using chain_ids(1)[OF ch, of j "j + i"] i st(1) by simp
    moreover have "iter_transactions (length cs) d (cs ! j) = drop j cs" using iter_chain[OF ch j] by simp
    ultimately show thesis using n0 i m st(2) by (intro that[of i]) auto
  qed
qed

section \<open>Recovery of the log\<close>

text \<open>
  \<open>wal_recover\<close>: the committed transactions of the log that are newer than the read transaction are
  replayed, then the prepared one, which stays prepared. \<open>ap\<close> is the effect of the operations of a transaction
  on the root of the trie, \<open>c\<close> and \<open>c'\<close> are the ids of the two cursors.
\<close>

definition replay_txn :: "('m, 'h) txn_ops \<Rightarrow> ('o list \<Rightarrow> nat \<Rightarrow> nat) \<Rightarrow> 'o list \<Rightarrow> nat \<Rightarrow> ('m, 'h) system \<Rightarrow> ('m, 'h) system option" where
  "replay_txn Ops ap ops c S =
     do { (ok, d, cu) \<leftarrow> cursor_start_transaction Ops True c S;
          Some (upd_txn (cur_txn d) (\<lambda>t. t\<lparr>t_root := ap ops (t_root t)\<rparr>) d, cu) }"

fun replay_all :: "('m, 'h) txn_ops \<Rightarrow> ('o list \<Rightarrow> nat \<Rightarrow> nat) \<Rightarrow> tid \<Rightarrow> nat \<Rightarrow> (tid \<times> 'o list) list \<Rightarrow> ('m, 'h) system \<Rightarrow> ('m, 'h) system option" where
  "replay_all Ops ap read_id c [] S = Some S"
| "replay_all Ops ap read_id c ((t, ops) # ts) S =
     (if serial_le t read_id then replay_all Ops ap read_id c ts S
      else do { S \<leftarrow> replay_txn Ops ap ops c S;
                let (r, S) = cursor_commit Ops True c S in
                if r = None then None else replay_all Ops ap read_id c ts S })"

definition wal_recover ::
  "('m, 'h) txn_ops \<Rightarrow> ('o list \<Rightarrow> nat \<Rightarrow> nat) \<Rightarrow> nat \<Rightarrow> nat \<Rightarrow> (tid \<times> 'o list) list \<Rightarrow> tid \<times> 'o list
   \<Rightarrow> ('m, 'h) database \<Rightarrow> ('m, 'h) database option" where
  "wal_recover Ops ap c c' all dangling d =
     (let read_id = t_id (txns d (read_txn d)) in
      do { (d, cu) \<leftarrow> (if all = [] then Some (d, Map.empty)
             else map_option (cursor_close True c) (replay_all Ops ap read_id c all (cursor_update c (d, Map.empty))));
           if fst dangling \<noteq> 0 \<and> serial_greater (fst dangling) read_id
           then do { S \<leftarrow> replay_txn Ops ap (snd dangling) c' (cursor_update c' (d, cu));
                     (t, d, cu) \<leftarrow> cursor_prepare_commit Ops c' S;
                     Some (fst (cursor_close True c' (end_transaction d, cu))) }
           else Some d })"

text \<open>The fields of the header that references do not touch.\<close>

definition same_header :: "('m, 'h) database \<Rightarrow> ('m, 'h) database \<Rightarrow> bool" where
  "same_header s s' \<longleftrightarrow> read_txn s' = read_txn s \<and> prepared_txn s' = prepared_txn s \<and> next_txn_page s' = next_txn_page s
     \<and> txn_cursor_id s' = txn_cursor_id s \<and> cur_txn s' = cur_txn s \<and> txn_lock s' = txn_lock s"

lemma same_header_upd: "same_header s (upd_txn a f s)"
  by (simp add: same_header_def)

lemma same_header_trans: "same_header a b \<Longrightarrow> same_header b c \<Longrightarrow> same_header a c"
  by (simp add: same_header_def)

lemma same_header_refs: "same_header s (txn_ref s)" "same_header s (txn_ref_at a s)" "same_header s (txn_unref a s)"
  by (simp_all add: same_header_def txn_ref_def txn_ref_at_def txn_unref_def)

lemma same_header_clear: "same_header s (clear_refs as s) \<and> (\<forall>a. t_id (txns (clear_refs as s) a) = t_id (txns s a))"
proof (induction as arbitrary: s)
  case (Cons a as)
  then show ?case using Cons.IH[of "upd_txn a (\<lambda>t. t\<lparr>refs := 0\<rparr>) s"]
    by (auto simp: clear_refs_def same_header_def)
qed (simp add: clear_refs_def same_header_def)

text \<open>What starting a transaction does to the header, whatever the state of the chain.\<close>

lemma gc_walk_header:
  fixes s :: "('m, 'h) database"
  assumes "gc_walk Ops l a s = Some s'"
  shows "read_txn s' = read_txn s \<and> prepared_txn s' = prepared_txn s \<and> next_txn_page s' = next_txn_page s
    \<and> txn_cursor_id s' = txn_cursor_id s \<and> cur_txn s' = cur_txn s"
  using assms
proof (rule gc_walk.raw_induct[where P = "\<lambda>Ops l a s s'. read_txn s' = read_txn s \<and> prepared_txn s' = prepared_txn s
      \<and> next_txn_page s' = next_txn_page s \<and> txn_cursor_id s' = txn_cursor_id s \<and> cur_txn s' = cur_txn s", rotated])
  fix walk :: "('m, 'h) txn_ops \<Rightarrow> tid \<Rightarrow> nat \<Rightarrow> ('m, 'h) database \<Rightarrow> ('m, 'h) database option" and Ops l a s s'
  assume 1: "\<And>Ops l a s s'. walk Ops l a s = Some s' \<Longrightarrow> read_txn s' = read_txn s \<and> prepared_txn s' = prepared_txn s
      \<and> next_txn_page s' = next_txn_page s \<and> txn_cursor_id s' = txn_cursor_id s \<and> cur_txn s' = cur_txn s"
    "(if refs (txns s a) \<noteq> 0 then Some ((upd_txn (cur_txn s) (\<lambda>t. t\<lparr>start_txn := a\<rparr>) s)\<lparr>start_txn_id := t_id (txns s a)\<rparr>)
      else Option.bind (db_free Ops a s) (\<lambda>s.
        if serial_less (t_id (txns s a)) l then walk Ops l (next_txn (txns s a)) s else Some s)) = Some s'"
  show "read_txn s' = read_txn s \<and> prepared_txn s' = prepared_txn s
      \<and> next_txn_page s' = next_txn_page s \<and> txn_cursor_id s' = txn_cursor_id s \<and> cur_txn s' = cur_txn s"
  proof (cases "refs (txns s a) = 0")
    case True
    then obtain s1 where s1: "db_free Ops a s = Some s1"
      "(if serial_less (t_id (txns s1 a)) l then walk Ops l (next_txn (txns s1 a)) s1 else Some s1) = Some s'"
      using 1(2) by (auto simp: bind_eq_Some_conv)
    obtain m h where f: "s1 = freed_mem m h s" using s1(1) by (rule db_free_freed)
    show ?thesis
    proof (cases "serial_less (t_id (txns s1 a)) l")
      case True
      then have "walk Ops l (next_txn (txns s1 a)) s1 = Some s'" using s1(2) by simp
      from 1(1)[OF this] show ?thesis by (simp add: f freed_mem_def)
    next
      case False
      then have "s' = freed_mem m h s" using s1(2) f by simp
      then show ?thesis by (simp add: freed_mem_def)
    qed
  next
    case False
    then show ?thesis using 1(2) by auto
  qed
qed

lemma start_header:
  assumes "start_transaction Ops c s = Some (r, s')" "\<not> txn_lock s"
  shows "read_txn s' = read_txn s" "prepared_txn s' = prepared_txn s" "next_txn_page s' = 0" "txn_cursor_id s' = c"
    "cur_txn s' = next_txn_page s" "r = Some (cur_txn s')"
  using assms by (auto simp: start_transaction_def Let_def bind_eq_Some_conv dest!: gc_walk_header)

section \<open>Areas of a transaction\<close>

definition linked :: "(nat \<Rightarrow> nat) \<Rightarrow> nat list \<Rightarrow> bool" where
  "linked nxt xs \<longleftrightarrow> successively (\<lambda>a b. nxt a = b) xs"

lemma linked_other: "x \<notin> set xs \<Longrightarrow> linked nxt xs \<Longrightarrow> linked (nxt(x := a)) xs"
  unfolding linked_def by (induction xs rule: induct_list012) auto

lemma linked_snoc: "distinct (x # xs) \<Longrightarrow> linked nxt (x # xs) \<Longrightarrow> linked (nxt(last (x # xs) := a)) (x # xs @ [a])"
proof (induction xs arbitrary: x)
  case (Cons y ys)
  then have "linked (nxt(last (y # ys) := a)) (y # ys @ [a])" by (simp add: linked_def)
  moreover have "x \<noteq> last (y # ys)" using Cons.prems(1) by (metis distinct.simps(2) last_in_set list.distinct(1))
  ultimately show ?case using Cons.prems(2) by (simp add: linked_def)
qed (simp add: linked_def)

lemma linked_tail: "linked nxt (x # xs) \<Longrightarrow> linked nxt xs" "linked nxt (x # y # xs) \<Longrightarrow> nxt x = y"
  by (cases xs) (auto simp: linked_def)

definition db_alloc_area :: "bool \<times> nat \<Rightarrow> ('m, 'h) database \<Rightarrow> ('m, 'h) database" where
  "db_alloc_area = (\<lambda>(multi, a). if multi then db_alloc_multi_area a else db_alloc_single_area a)"

abbreviation singles :: "(bool \<times> nat) list \<Rightarrow> nat list" where
  "singles as \<equiv> map snd (filter (\<lambda>x. \<not> fst x) as)"

abbreviation multis :: "(bool \<times> nat) list \<Rightarrow> nat list" where
  "multis as \<equiv> map snd (filter fst as)"

text \<open>The state after a transaction that started with the tails \<open>ts\<close> and \<open>tm\<close> has allocated the areas \<open>as\<close>.\<close>

definition grown :: "nat \<Rightarrow> nat \<Rightarrow> (bool \<times> nat) list \<Rightarrow> ('m, 'h) database \<Rightarrow> ('m, 'h) database \<Rightarrow> bool" where
  "grown ts tm as d d' \<longleftrightarrow> same_txns d d' \<and> (\<forall>a. refs (txns d' a) = refs (txns d a)) \<and> (\<forall>a. a \<noteq> cur_txn d \<longrightarrow> txns d' a = txns d a)
     \<and> returned_single d' = returned_single d \<and> returned_multi d' = returned_multi d
     \<and> tail_single (txns d' (cur_txn d)) = last (ts # singles as) \<and> tail_multi (txns d' (cur_txn d)) = last (tm # multis as)
     \<and> linked (area_next d') (ts # singles as)
     \<and> (if tm = 0 then linked (area_next d') (multis as) \<and> head_multi d' = (if multis as = [] then head_multi d else hd (multis as))
        else linked (area_next d') (tm # multis as) \<and> head_multi d' = head_multi d)"

lemma same_txns_trans: "same_txns a b \<Longrightarrow> same_txns b c \<Longrightarrow> same_txns a c"
  by (simp add: same_txns_def)

lemma grown_step:
  assumes g: "grown ts tm as d d'" and n: "distinct (ts # map snd (as @ [x]))" "tm \<notin> set (ts # map snd (as @ [x]))" "0 \<notin> set (ts # map snd (as @ [x]))"
  shows "grown ts tm (as @ [x]) d (db_alloc_area x d')"
proof -
  obtain m a where x: "x = (m, a)" by (cases x)
  let ?S = "ts # singles as" and ?M = "multis as" and ?c = "cur_txn d"
  have sg: "same_txns d d'" using g by (simp add: grown_def)
  then have c: "cur_txn d' = ?c" by (simp add: same_txns_def)
  have sub: "set (singles as) \<subseteq> set (map snd as)" "set ?M \<subseteq> set (map snd as)" by auto
  have dj: "set ?S \<inter> set (tm # ?M) = {}"
  proof -
    have "distinct (map snd as)" "ts \<notin> set (map snd as)" "tm \<notin> set (ts # map snd as)" using n by auto
    moreover have "inj_on snd (set as)" using n by (simp add: distinct_map)
    then have "(False, y) \<notin> set as \<or> (True, y) \<notin> set as" for y using inj_onD[of snd "set as" "(False, y)" "(True, y)"] by auto
    ultimately show ?thesis using sub by (auto 0 3)
  qed
  have ds: "distinct ?S" "distinct (tm # ?M)" using n sub by (auto simp: distinct_map distinct_filter intro: inj_on_subset)
  have ls: "last ?S \<in> set ?S" "last (tm # ?M) \<in> set (tm # ?M)" using last_in_set by blast+
  show ?thesis
  proof (cases m)
    case False
    have lk: "linked ((area_next d')(last ?S := a)) (?S @ [a])" using linked_snoc[OF ds(1)] g by (simp add: grown_def)
    have lo: "linked ((area_next d')(last ?S := a)) xs" if "linked (area_next d') xs" "set xs \<subseteq> set (tm # ?M)" for xs
    proof -
      have "last ?S \<notin> set xs" using that(2) ls(1) dj by blast
      then show ?thesis using that(1) by (rule linked_other)
    qed
    have sm: "same_txns d (db_alloc_area x d')" using False x
      by (intro same_txns_trans[OF sg]) (auto simp: db_alloc_area_def db_alloc_single_area_def same_txns_def)
    have tl: "tail_single (txns d' ?c) = last ?S" using g by (simp add: grown_def)
    have f: "area_next (db_alloc_area x d') = (area_next d')(last ?S := a)" "head_multi (db_alloc_area x d') = head_multi d'"
      "txns (db_alloc_area x d') = (txns d')(?c := (txns d' ?c)\<lparr>tail_single := a\<rparr>)"
      "returned_single (db_alloc_area x d') = returned_single d'" "returned_multi (db_alloc_area x d') = returned_multi d'"
      using False x tl c by (simp_all add: db_alloc_area_def db_alloc_single_area_def upd_txn_def)
    have xs: "singles (as @ [x]) = singles as @ [a]" "multis (as @ [x]) = ?M" using False x by simp_all
    have "if tm = 0 then linked ((area_next d')(last ?S := a)) ?M \<and> head_multi d' = (if ?M = [] then head_multi d else hd ?M)
        else linked ((area_next d')(last ?S := a)) (tm # ?M) \<and> head_multi d' = head_multi d"
    proof -
      have g2: "if tm = 0 then linked (area_next d') ?M \<and> head_multi d' = (if ?M = [] then head_multi d else hd ?M)
          else linked (area_next d') (tm # ?M) \<and> head_multi d' = head_multi d" using g unfolding grown_def by blast
      have "set ?M \<subseteq> set (tm # ?M)" by auto
      then show ?thesis using g2 lo[of ?M] lo[of "tm # ?M"] by (cases "tm = 0") (simp_all only: if_True if_False subset_refl simp_thms)
    qed
    then show ?thesis using g lk sm unfolding grown_def f xs by (simp del: fun_upd_apply) auto
  next
    case True
    have lo: "linked ((area_next d')(last (tm # ?M) := a)) ?S" 
    proof (rule linked_other)
      show "last (tm # ?M) \<notin> set ?S" using ls(2) dj by blast
    qed (use g in \<open>simp add: grown_def\<close>)
    have lk: "linked ((area_next d')(last (tm # ?M) := a)) (tm # ?M @ [a])" if "tm \<noteq> 0" using linked_snoc[OF ds(2)] that g by (simp add: grown_def)
    have lk0: "linked ((area_next d')(last ?M := a)) (?M @ [a])" if "tm = 0" "?M = y # ys" for y ys
      using linked_snoc[of y ys "area_next d'" a] ds(2) that g by (simp add: grown_def)
    have sm: "same_txns d (db_alloc_area x d')" using True x
      by (intro same_txns_trans[OF sg]) (auto simp: db_alloc_area_def db_alloc_multi_area_def Let_def same_txns_def)
    have t0: "last (tm # ?M) = 0 \<longleftrightarrow> tm = 0 \<and> ?M = []" using n sub by (cases "?M" rule: rev_cases) auto
    show ?thesis
    proof (cases "?M")
      case Nil
      then show ?thesis using g lo lk sm True x
        by (auto simp: grown_def db_alloc_area_def db_alloc_multi_area_def c upd_txn_def Let_def linked_def)
    next
      case (Cons y ys)
      then show ?thesis using g lo lk lk0 sm True x t0
        by (auto simp: grown_def db_alloc_area_def db_alloc_multi_area_def c upd_txn_def Let_def)
    qed
  qed
qed

lemma linked_first: "linked nxt (x # xs) \<Longrightarrow> xs \<noteq> [] \<Longrightarrow> nxt x = hd xs"
  by (cases xs) (auto simp: linked_def)

lemma last_new: "distinct (x # xs) \<Longrightarrow> xs \<noteq> [] \<Longrightarrow> x \<noteq> last xs"
  by auto

lemma last_nonzero: "0 \<notin> set xs \<Longrightarrow> xs \<noteq> [] \<Longrightarrow> last xs \<noteq> (0::nat)"
  by (metis last_in_set)

lemma return_singles:
  assumes "linked (area_next d) (ts # S)" "distinct (ts # S)" "0 \<notin> set (ts # S)"
  shows "returned_single (return_areas_range ts (last (ts # S)) sm em d) = returned_single d @ (if S = [] then [] else [(hd S, last S)])"
    "S \<noteq> [] \<Longrightarrow> sm \<noteq> ts \<Longrightarrow> area_next (return_areas_range ts (last (ts # S)) sm em d) ts = 0"
    "sm \<notin> set S \<Longrightarrow> linked (area_next (return_areas_range ts (last (ts # S)) sm em d)) S"
proof -
  have f: "ts \<noteq> 0" "S \<noteq> [] \<Longrightarrow> last S \<noteq> 0" "S \<noteq> [] \<Longrightarrow> ts \<noteq> last S" "S \<noteq> [] \<Longrightarrow> area_next d ts = hd S"
    using assms last_new[OF assms(2)] linked_first[OF assms(1)] last_nonzero[of S] by simp_all
  show "returned_single (return_areas_range ts (last (ts # S)) sm em d) = returned_single d @ (if S = [] then [] else [(hd S, last S)])"
    using f by (cases "S = []") (simp_all add: return_areas_range_def Let_def)
  show "area_next (return_areas_range ts (last (ts # S)) sm em d) ts = 0" if "S \<noteq> []" "sm \<noteq> ts"
    using f that by (simp add: return_areas_range_def Let_def)
  show "linked (area_next (return_areas_range ts (last (ts # S)) sm em d)) S" if "sm \<notin> set S"
    using f that assms(1,2) linked_tail(1)[OF assms(1)] by (cases "S = []") (auto simp: return_areas_range_def Let_def intro!: linked_other)
qed

lemma return_multis:
  assumes "if tm = 0 then linked (area_next d) M \<and> (M \<noteq> [] \<longrightarrow> head_multi d = hd M) else linked (area_next d) (tm # M)"
    "distinct (tm # M)" "0 \<notin> set M" "ss \<notin> set (tm # M)"
  shows "returned_multi (return_areas_range ss es tm (last (tm # M)) d) = returned_multi d @ (if M = [] then [] else [(hd M, last M)])"
    "M \<noteq> [] \<Longrightarrow> if tm = 0 then head_multi (return_areas_range ss es tm (last (tm # M)) d) = 0
                else area_next (return_areas_range ss es tm (last (tm # M)) d) tm = 0"
    "linked (area_next (return_areas_range ss es tm (last (tm # M)) d)) M"
proof -
  have f: "M \<noteq> [] \<Longrightarrow> last M \<noteq> 0" "M \<noteq> [] \<Longrightarrow> tm \<noteq> last M" "tm \<noteq> 0 \<Longrightarrow> M \<noteq> [] \<Longrightarrow> area_next d tm = hd M" "linked (area_next d) M"
    using assms last_new[OF assms(2)] linked_first[of "area_next d" tm M] linked_tail(1)[of "area_next d" tm M] last_nonzero[of M]
    by (simp_all split: if_splits)
  show "returned_multi (return_areas_range ss es tm (last (tm # M)) d) = returned_multi d @ (if M = [] then [] else [(hd M, last M)])"
    using f assms(1,4) by (cases "M = []") (auto simp: return_areas_range_def Let_def split: if_splits)
  show "if tm = 0 then head_multi (return_areas_range ss es tm (last (tm # M)) d) = 0
                else area_next (return_areas_range ss es tm (last (tm # M)) d) tm = 0" if "M \<noteq> []"
    using f that by (auto simp: return_areas_range_def Let_def)
  show "linked (area_next (return_areas_range ss es tm (last (tm # M)) d)) M"
    using f assms(2,4) by (cases "M = []") (auto simp: return_areas_range_def Let_def intro!: linked_other)
qed

section \<open>An example run\<close>

text \<open>
  An allocator that hands out pages one after the other, a new database, and a run: two cursors are
  opened and the first one starts a transaction.
\<close>

definition ex_ops :: "(nat, unit) txn_ops" where
  "ex_ops = \<lparr>op_new = \<lambda>_ _ m h. Some (m, m + 1, h), op_del = \<lambda>_ _ _ m h. Some (m, h)\<rparr>"

definition ex_blank :: "(nat, unit) database" where
  "ex_blank = \<lparr>txns = \<lambda>_. \<lparr>t_id = 0, t_root = 0, start_txn = 0, next_txn = 0, refs = 0, tail_single = 0, tail_multi = 0, mem_manager = 0\<rparr>,
     shared = (), area_next = \<lambda>_. 0, read_txn = 0, prepared_txn = 0, next_txn_page = 0, txn_lock = False, txn_cursor_id = 0,
     head_single = 0, head_multi = 0, cur_txn = 0, start_txn_id = 0, returned_single = [], returned_multi = []\<rparr>"

definition ex_db :: "(nat, unit) database" where
  "ex_db = the (db_init ex_ops 64 100 200 1000 ex_blank)"

definition ex_two :: "(nat, unit) system" where
  "ex_two = cursor_update 9 (cursor_update 7 (ex_db, Map.empty))"

definition ex_busy :: "(nat, unit) system" where
  "ex_busy = snd (the (cursor_start_transaction ex_ops True 7 ex_two))"

lemma ex_db_eq: "ex_db = ex_blank\<lparr>txns := (txns ex_blank)(264 := first_txn 264 100 1001, 1000 := first_txn 264 100 1001),
    read_txn := 264, prepared_txn := 264, next_txn_page := 1000, head_single := 100\<rparr>"
  by (simp add: ex_db_def db_init_def clone_def ex_ops_def ex_blank_def upd_txn_def active_id_def first_txn_def)

lemma ex_two_eq: "ex_two = (ex_db\<lparr>txns := (txns ex_db)(264 := (first_txn 264 100 1001)\<lparr>refs := 2\<rparr>)\<rparr>, [7 \<mapsto> 264, 9 \<mapsto> 264])"
  by (simp add: ex_two_def ex_db_eq ex_blank_def cursor_update_def set_txn_def txn_ref_def txn_ref_at_def txn_unref_def
      upd_txn_def first_txn_def serial_greater_def Let_def)

lemma ex_next_id: "serial_add 1 1 = 2"
  by code_simp

lemma ex_start: "cursor_start_transaction Ops True 7 ex_two = Some (True,
    ex_db\<lparr>txns := (txns ex_db)(264 := (first_txn 264 100 1001)\<lparr>refs := 1\<rparr>,
        1000 := (first_txn 264 100 1001)\<lparr>t_id := 2, refs := 1\<rparr>),
      txn_lock := True, txn_cursor_id := 7, cur_txn := 1000, next_txn_page := 0, start_txn_id := 1\<rparr>,
    [7 \<mapsto> 1000, 9 \<mapsto> 264])"
  by (simp add: ex_two_eq ex_db_eq ex_blank_def cursor_start_transaction_def start_transaction_def set_txn_def txn_ref_at_def txn_unref_def
      upd_txn_def first_txn_def gc_walk.simps ex_next_id Let_def fun_upd_twist)

lemma ex_busy_eq: "ex_busy =
    (ex_db\<lparr>txns := (txns ex_db)(264 := (first_txn 264 100 1001)\<lparr>refs := 1\<rparr>,
        1000 := (first_txn 264 100 1001)\<lparr>t_id := 2, refs := 1\<rparr>),
      txn_lock := True, txn_cursor_id := 7, cur_txn := 1000, next_txn_page := 0, start_txn_id := 1\<rparr>,
    [7 \<mapsto> 1000, 9 \<mapsto> 264])"
  by (simp add: ex_busy_def ex_start)

lemma ex_idle: "idle ex_db [264]"
  by (auto simp: idle_def ex_db_eq chain_ok_def ex_blank_def first_txn_def page_ready_def readers_in_def intro!: exI[of _ 1])

lemma ex_refs: "refs_exact ex_db Map.empty"
  by (simp add: refs_exact_def holders_def ex_db_eq ex_blank_def first_txn_def)

lemma ex_reach: "sys_reach Ops (ex_db, Map.empty) 0 ex_busy"
proof -
  have "sys_step Ops 0 (ex_db, Map.empty) (cursor_update 7 (ex_db, Map.empty))" by (rule sys_step.openc) auto
  then have r1: "sys_reach Ops (ex_db, Map.empty) (0 + 0) (cursor_update 7 (ex_db, Map.empty))"
    by (rule sys_reach.step[OF sys_reach.here])
  obtain d cu where S: "cursor_update 7 (ex_db, Map.empty) = (d, cu)" by (cases "cursor_update 7 (ex_db, Map.empty)")
  then have "cu = [7 \<mapsto> 264]" by (auto simp: cursor_update_def set_txn_def ex_db_eq Let_def)
  then have "sys_step Ops 0 (cursor_update 7 (ex_db, Map.empty)) ex_two" unfolding ex_two_def S by (intro sys_step.openc) auto
  then have r2: "sys_reach Ops (ex_db, Map.empty) (0 + 0 + 0) ex_two" by (rule sys_reach.step[OF r1])
  obtain d cu where T: "ex_two = (d, cu)" "cu 7 = Some 264" by (simp add: ex_two_eq)
  have "sys_step Ops 0 ex_two ex_busy" 
    using sys_step.start[of cu 7 264 Ops True d True ex_busy] T ex_start by (simp add: ex_busy_def)
  then have "sys_reach Ops (ex_db, Map.empty) (0 + 0 + 0 + 0) ex_busy" by (rule sys_reach.step[OF r2])
  then show ?thesis by simp
qed

lemma ex_page_law: "page_law ex_ops (fst ex_busy)"
proof -
  have m: "1001 \<notin> set (iter_transactions m (fst ex_busy) 264)" for m
    by (cases m) (simp_all add: ex_busy_eq ex_db_eq first_txn_def serial_less_def)
  have "start_txn (txns (fst ex_busy) (read_txn (fst ex_busy))) = 264" "mem_manager (txns (fst ex_busy) (cur_txn (fst ex_busy))) = 1001"
    "cur_txn (fst ex_busy) = 1000"
    by (simp_all add: ex_busy_eq ex_db_eq first_txn_def)
  then show ?thesis using m by (simp add: page_law_def ex_ops_def)
qed

section \<open>Properties\<close>

text \<open>
  C7. No reader loses a page between the steps of a run. Take any run of any number of cursors in which
  no commit and no prepare throws. In every state it reaches while a transaction is being written, a page
  that was freed by the transaction a cursor holds or by one of the \<open>k\<close> that follow it (the pages the
  cursor can still see among them) may not be recycled, and the cursor's transaction is either the one
  being written or still on the chain that starts at the oldest transaction the writer has kept. The
  ids stay in half of the serial range. Nothing is said about the moments inside \<open>start_transaction\<close>: while
  it frees old versions the bound is that of the newest version, until its walk meets the oldest reader.
\<close>

theorem cursor_protected:
  assumes "idle d cs" "refs_exact d cu" "sys_reach Ops (d, cu) n (d', cu')" "length cs + n + k < 2147483646"
    "cu' c = Some r" "cur_txn d' \<noteq> 0"
  shows "\<not> may_recycle d' ((serial_inc ^^ k) (t_id (txns d' r)))
    \<and> (r = cur_txn d' \<or> (\<exists>m. r \<in> set (iter_transactions m d' (start_txn (txns d' (cur_txn d'))))))"
proof -
  have i: "sys_inv (length cs + n) (d', cu')" using sys_reach_inv[OF assms(3,1,2)] assms(4) by simp
  obtain xs j where b: "busy d' xs j" "length xs \<le> length cs + n" using i assms(6) by (auto simp: sys_inv_def idle_def)
  have "refs (txns d' r) \<noteq> 0" using refs_zero(1)[OF sys_exact(1)[OF i]] assms(5) by (auto simp: holders_def)
  from kept_reader[OF b(1) this] obtain m where m: "t_id (txns d' r) = (serial_inc ^^ m) (start_txn_id d')" "start_txn_id d' \<noteq> 0"
    "m \<le> length xs" "r = cur_txn d' \<or> r \<in> set (iter_transactions (length xs) d' (start_txn (txns d' (cur_txn d'))))" .
  have "(serial_inc ^^ k) (t_id (txns d' r)) = (serial_inc ^^ (k + m)) (start_txn_id d')" using m(1) by (simp add: funpow_add)
  moreover have "k + m < 2147483647" using m(3) b(2) assms(4) by simp
  ultimately have "\<not> may_recycle d' ((serial_inc ^^ k) (t_id (txns d' r)))"
    using serial_steps(3)[OF m(2), of "k + m"] by (simp add: may_recycle_def)
  then show ?thesis using m(4) by blast
qed

theorem cursor_protected_witness:
  "\<not> may_recycle (fst ex_busy) ((serial_inc ^^ 1) (t_id (txns (fst ex_busy) 264)))
    \<and> (264 = cur_txn (fst ex_busy)
        \<or> (\<exists>m. 264 \<in> set (iter_transactions m (fst ex_busy) (start_txn (txns (fst ex_busy) (cur_txn (fst ex_busy)))))))"
  by (rule cursor_protected[OF ex_idle ex_refs, of ex_ops 0 _ "snd ex_busy" 1 9]) (use ex_reach in \<open>simp_all add: ex_busy_eq\<close>)

text \<open>
  C17. Reference counts are exact in every state of a run in which no commit and no prepare throws: the
  32-bit count of a transaction is the number of cursors that hold it, and the transaction being written
  is held by the cursor that writes it and by no other. After a commit that throws it is not so
  (\<open>commit_failure_unpins\<close>).
\<close>

theorem reference_counts_exact:
  assumes "idle d cs" "refs_exact d cu" "sys_reach Ops (d, cu) n (d', cu')" "length cs + n < 2147483646"
  shows "(\<forall>a. unat (refs (txns d' a)) = card {c. cu' c = Some a})
    \<and> (cur_txn d' \<noteq> 0 \<longrightarrow> {c. cu' c = Some (cur_txn d')} = {txn_cursor_id d'} \<and> txn_cursor_id d' \<noteq> 0)"
proof -
  have i: "sys_inv (length cs + n) (d', cu')" using sys_reach_inv[OF assms(3,1,2,4)] .
  note e = sys_exact(1)[OF i]
  have "unat (refs (txns d' a)) = card {c. cu' c = Some a}" for a
    using e holders_finite(2)[of cu' a] by (auto simp: refs_exact_def holders_def unat_of_nat take_bit_eq_mod)
  moreover have "{c. cu' c = Some (cur_txn d')} = {txn_cursor_id d'} \<and> txn_cursor_id d' \<noteq> 0" if "cur_txn d' \<noteq> 0"
  proof -
    have "\<not> idle d' xs" for xs using that by (simp add: idle_def)
    then have "holders cu' (cur_txn d') = {txn_cursor_id d'}" "\<exists>xs j. busy d' xs j" using i by (auto simp: sys_inv_def)
    then show ?thesis by (auto simp: holders_def busy_def)
  qed
  ultimately show ?thesis by blast
qed

theorem reference_counts_exact_witness:
  "unat (refs (txns (fst ex_busy) 264)) = card {c. snd ex_busy c = Some 264}
    \<and> {c. snd ex_busy c = Some (cur_txn (fst ex_busy))} = {txn_cursor_id (fst ex_busy)}"
proof -
  have "cur_txn (fst ex_busy) \<noteq> 0" by (simp add: ex_busy_eq)
  then show ?thesis
    using reference_counts_exact[OF ex_idle ex_refs, of ex_ops 0 "fst ex_busy" "snd ex_busy"] ex_reach by simp
qed

text \<open>C12. A commit that returns publishes exactly the transaction that was written: the new read
  transaction is the active one with its root, its id is the next one, the committing cursor holds it, the
  lock is free, a page for the next transaction is ready, and every other cursor
  still holds what it held.\<close>

theorem commit_publishes:
  assumes "idle d cs" "refs_exact d cu" "sys_reach Ops (d, cu) n (d', cu')" "Suc (length cs + n) < 2147483646"
    "cu' c = Some a" "txn_cursor_id d' = c" "page_law Ops d'" "cursor_commit Ops True c (d', cu') = (Some ok, d'', cu'')"
  shows "ok \<and> read_txn d'' = cur_txn d' \<and> t_root (txns d'' (read_txn d'')) = t_root (txns d' (cur_txn d'))
    \<and> t_id (txns d'' (read_txn d'')) = serial_inc (t_id (txns d' (read_txn d')))
    \<and> cu'' = cu' \<and> cu'' c = Some (read_txn d'') \<and> \<not> txn_lock d'' \<and> next_txn_page d'' \<noteq> 0"
proof -
  have i: "sys_inv (length cs + n) (d', cu')" using sys_reach_inv[OF assms(3,1,2)] assms(4) by simp
  obtain xs j where b: "busy d' xs j" "cu' c = Some (cur_txn d')" "length xs \<le> length cs + n"
    using writer_busy[OF i assms(5,6)] by blast
  have cm: "commit Ops (txn_cursor_id d') d' = (Some ok, d'')" "cu'' = cu'"
    using assms(6,8) by (auto simp: cursor_commit_def split: prod.splits)
  have "Suc (length xs) < 2147483646" using b(3) assms(4) by simp
  from commit_idle[OF b(1) cm(1) assms(7) this] show ?thesis using b(2) cm(2) by (auto simp: idle_def page_ready_def)
qed

theorem commit_publishes_witness:
  "\<exists>d'' cu''. cursor_commit ex_ops True 7 ex_busy = (Some True, d'', cu'') \<and> read_txn d'' = 1000"
proof -
  obtain d'' cu'' where c: "cursor_commit ex_ops True 7 ex_busy = (Some True, d'', cu'')"
    by (simp add: ex_busy_eq ex_db_eq ex_blank_def cursor_commit_def commit_def prepare_commit_def clone_def ex_ops_def active_id_def
        first_txn_def upd_txn_def Let_def)
  have "read_txn d'' = 1000"
    using commit_publishes[OF ex_idle ex_refs, of ex_ops 0 "fst ex_busy" "snd ex_busy" 7 1000 True d'' cu''] ex_reach ex_page_law c
    by (simp add: ex_busy_eq)
  then show ?thesis using c by blast
qed



text \<open>C11. A rollback undoes a transaction. After a writer that found the state \<open>d\<close> has allocated any
  sequence of areas, single and multi ones in any order, rolling back restores the chain of committed
  transactions, the readers and the lock, makes the page of the abandoned transaction, with the
  content of the read transaction and no references, the page for the next one, and returns to the
  storage exactly the areas the transaction allocated, as the two ranges from the first to the last, which
  are linked in the order of allocation and cut off from the lists that stay.\<close>

theorem rollback_undoes:
  assumes "busy d cs j" "r = txns d (read_txn d)" "tail_single (txns d (cur_txn d)) = tail_single r"
    "tail_multi (txns d (cur_txn d)) = tail_multi r"
    "distinct (tail_single r # map snd as)" "0 \<notin> set (tail_single r # map snd as)" "tail_multi r \<notin> set (tail_single r # map snd as)"
    "rollback (txn_cursor_id d) (fold db_alloc_area as d) = (ok, d')"
  shows "ok \<and> idle d' cs \<and> read_txn d' = read_txn d \<and> next_txn_page d' = cur_txn d
    \<and> txns d' = (txns d)(cur_txn d := r\<lparr>refs := 0\<rparr>)
    \<and> returned_single d' = returned_single d @ (if singles as = [] then [] else [(hd (singles as), last (singles as))])
    \<and> returned_multi d' = returned_multi d @ (if multis as = [] then [] else [(hd (multis as), last (multis as))])
    \<and> linked (area_next d') (singles as) \<and> linked (area_next d') (multis as)
    \<and> (singles as \<noteq> [] \<longrightarrow> area_next d' (tail_single r) = 0)
    \<and> (multis as \<noteq> [] \<longrightarrow> (if tail_multi r = 0 then head_multi d' = 0 else area_next d' (tail_multi r) = 0))"
proof -
  let ?ts = "tail_single r" and ?tm = "tail_multi r" and ?d = "fold db_alloc_area as d"
  have "grown ?ts ?tm as d ?d"
    using assms(5,6,7)
  proof (induction as rule: rev_induct)
    case Nil
    then show ?case using assms(3,4) by (auto simp: grown_def same_txns_def linked_def)
  next
    case (snoc x xs)
    then show ?case using grown_step[of ?ts ?tm xs d "fold db_alloc_area xs d" x] by auto
  qed
  note g = this[unfolded grown_def]
  have b: "busy ?d cs j" using same_txns_busy[OF _ _ assms(1)] g by metis
  have st: "txn_cursor_id ?d = txn_cursor_id d" "read_txn ?d = read_txn d" "cur_txn ?d = cur_txn d" using g by (auto simp: same_txns_def)
  have ne: "read_txn d \<noteq> cur_txn d" using busy_ids(2)[OF assms(1)] .
  have rr: "txns ?d (read_txn d) = r" using g ne assms(2) by auto
  note ri = rollback_idle[OF b, unfolded st, OF assms(8)]
  have tx: "txns d' = (txns d)(cur_txn d := r\<lparr>refs := 0\<rparr>)" using ri rr g by (auto simp: fun_eq_iff)
  have d': "area_next d' = area_next (return_areas_range ?ts (last (?ts # singles as)) ?tm (last (?tm # multis as)) ?d)"
    "head_multi d' = head_multi (return_areas_range ?ts (last (?ts # singles as)) ?tm (last (?tm # multis as)) ?d)"
    "returned_single d' = returned_single (return_areas_range ?ts (last (?ts # singles as)) ?tm (last (?tm # multis as)) ?d)"
    "returned_multi d' = returned_multi (return_areas_range ?ts (last (?ts # singles as)) ?tm (last (?tm # multis as)) ?d)"
    using assms(8) st rr g by (auto simp: rollback_def end_transaction_def Let_def)
  have sub: "set (singles as) \<subseteq> set (map snd as)" "set (multis as) \<subseteq> set (map snd as)" by auto
  have lS: "linked (area_next ?d) (?ts # singles as)" and lM: "if ?tm = 0 then linked (area_next ?d) (multis as)
      \<and> (multis as \<noteq> [] \<longrightarrow> head_multi ?d = hd (multis as)) else linked (area_next ?d) (?tm # multis as)"
    and rt: "returned_single ?d = returned_single d" "returned_multi ?d = returned_multi d"
    using g by (auto split: if_splits)
  have dS: "distinct (?ts # singles as)" "0 \<notin> set (?ts # singles as)" "?tm \<notin> set (singles as)"
    and dM: "distinct (?tm # multis as)" "0 \<notin> set (multis as)" "?ts \<notin> set (?tm # multis as)" and nt: "?tm \<noteq> ?ts"
    using assms(5,6,7) sub by (auto simp: distinct_map intro: inj_on_subset)
  note S = return_singles[OF lS dS(1,2), of ?tm "last (?tm # multis as)"] and M = return_multis[OF lM dM, of "last (?ts # singles as)"]
  show ?thesis using ri tx S(2)[OF _ nt] S(3)[OF dS(3)] M(2,3) unfolding d' S(1) M(1) rt by blast
qed


theorem rollback_undoes_witness:
  "\<exists>ok d'. rollback 7 (fold db_alloc_area [(False, 300), (True, 400), (False, 500)] (fst ex_busy)) = (ok, d') \<and> ok
    \<and> returned_single d' = [(300, 500)] \<and> returned_multi d' = [(400, 400)]"
proof -
  let ?d = "fst ex_busy" and ?as = "[(False, 300), (True, 400), (False, 500)] :: (bool \<times> nat) list"
  obtain ok d' where r: "rollback 7 (fold db_alloc_area ?as ?d) = (ok, d')" by (metis surj_pair)
  have i: "sys_inv 1 (fst ex_busy, snd ex_busy)" using sys_reach_inv[OF ex_reach ex_idle ex_refs] by simp
  have f: "cur_txn ?d = 1000" "txn_cursor_id ?d = 7" "read_txn ?d = 264"
    "txns ?d 264 = (first_txn 264 100 1001)\<lparr>refs := 1\<rparr>" "txns ?d 1000 = (first_txn 264 100 1001)\<lparr>t_id := 2, refs := 1\<rparr>"
    "returned_single ?d = []" "returned_multi ?d = []" "snd ex_busy 7 = Some 1000"
    by (simp_all add: ex_busy_eq ex_db_eq ex_blank_def)
  obtain cs j where "busy ?d cs j" using writer_busy[OF i f(8,2)] by blast
  then have "ok \<and> returned_single d' = [(300, 500)] \<and> returned_multi d' = [(400, 400)]"
    using rollback_undoes[of ?d cs j "txns ?d 264" ?as ok d'] r f by (simp add: first_txn_def)
  then show ?thesis using r by blast
qed

text \<open>C30. A commit that throws because no page for the next transaction can be allocated rolls the database
  back, but the cursor goes on holding the abandoned transaction, whose page is now the one
  for the next transaction and whose count has been reset: closing the cursor makes the count of that
  page wrap to \<open>2^32 - 1\<close>.\<close>

theorem commit_failure_unpins:
  assumes "idle d cs" "refs_exact d cu" "sys_reach Ops (d, cu) n (d', cu')" "length cs + n < 2147483646"
    "cu' c = Some a" "txn_cursor_id d' = c" "prepare_commit Ops c d' = None" "cursor_commit Ops True c (d', cu') = (res, d'', cu'')"
  shows "res = None \<and> read_txn d'' = read_txn d' \<and> cu'' c = Some (next_txn_page d'') \<and> refs (txns d'' (next_txn_page d'')) = 0
    \<and> refs (txns (fst (cursor_close True c (d'', cu''))) (next_txn_page d'')) = 0xFFFFFFFF"
proof -
  have i: "sys_inv (length cs + n) (d', cu')" using sys_reach_inv[OF assms(3,1,2,4)] .
  obtain xs j where b: "busy d' xs j" "cu' c = Some (cur_txn d')" using writer_busy[OF i assms(5,6)] by blast
  obtain ok e where r: "rollback c d' = (ok, e)" by (cases "rollback c d'")
  then have ri: "idle e xs \<and> ok \<and> read_txn e = read_txn d' \<and> next_txn_page e = cur_txn d'
      \<and> txns e = (txns d')(cur_txn d' := (txns d' (read_txn d'))\<lparr>refs := 0\<rparr>)"
    using rollback_idle[OF b(1)] assms(6) by blast
  have e: "res = None" "d'' = e" "cu'' = cu'" using assms(6,7,8) r by (auto simp: cursor_commit_def commit_def)
  have "txn_cursor_id e \<noteq> c" using ri sys_exact(2)[OF i assms(5)] by (auto simp: idle_def)
  then show ?thesis using e b(2) ri by (simp add: cursor_close_def txn_unref_def)
qed

definition ex_full :: "(nat, unit) txn_ops" where
  "ex_full = ex_ops\<lparr>op_new := \<lambda>_ _ m h. None\<rparr>"

theorem commit_failure_unpins_witness:
  "\<exists>res d'' cu''. cursor_commit ex_full True 7 ex_busy = (res, d'', cu'')
    \<and> refs (txns (fst (cursor_close True 7 (d'', cu''))) (next_txn_page d'')) = 0xFFFFFFFF"
proof -
  obtain res d'' cu'' where c: "cursor_commit ex_full True 7 ex_busy = (res, d'', cu'')" by (metis surj_pair)
  have "prepare_commit ex_full 7 (fst ex_busy) = None"
    by (simp add: prepare_commit_def clone_def ex_full_def ex_busy_eq ex_db_eq ex_blank_def)
  then show ?thesis
    using c commit_failure_unpins[OF ex_idle ex_refs, of ex_full 0 "fst ex_busy" "snd ex_busy" 7 1000 res d'' cu''] ex_reach
    by (simp add: ex_busy_eq ex_db_eq)
qed

text \<open>C29. Recovery after a crash between the two phases of a commit. When the header on disk has a
  prepared transaction and the log holds the same transaction as prepared, \<open>sanitize\<close> makes the prepared
  transaction the active one again, but the replay has used up the page for the next transaction
  and prepared no other: once the recovered transaction is committed, the next transaction starts on the null page.\<close>

theorem recovery_drops_next_page:
  assumes "prepared_txn d \<noteq> read_txn d" "next_txn_page d \<noteq> 0" "fst dangling \<noteq> 0" "serial_greater (fst dangling) (t_id (txns d (read_txn d)))"
    "c' \<noteq> 0" "sanitize Ops n (wal_recover Ops ap c c' [] dangling) d = Some d'"
  shows "cur_txn d' = prepared_txn d \<and> txn_lock d' \<and> next_txn_page d' = 0
    \<and> (\<forall>d'' cursor t s. commit Ops 0 d' = (Some True, d'') \<longrightarrow> start_transaction Ops cursor d'' = Some (Some t, s) \<longrightarrow> t = 0)"
proof -
  obtain d1 d2 where d1: "sanitize_begin Ops n d = Some d1" and d2: "wal_recover Ops ap c c' [] dangling d1 = Some d2"
    and d': "d' = sanitize_end d2"
    using assms(6) by (auto simp: sanitize_def bind_eq_Some_conv)
  let ?r = "read_txn d"
  define d0 where "d0 = d\<lparr>txn_lock := False, txn_cursor_id := 0, cur_txn := 0\<rparr>"
  have h0: "same_header d0 d1 \<and> (\<forall>a. t_id (txns d1 a) = t_id (txns d a))"
  proof -
    let ?e = "clear_refs (iter_transactions n d0 (start_txn (txns d0 (read_txn d0)))) d0"
    have e: "same_header d0 ?e \<and> (\<forall>a. t_id (txns ?e a) = t_id (txns d0 a))" by (rule same_header_clear)
    then have "next_txn_page ?e \<noteq> 0" using assms(2) by (simp add: same_header_def d0_def)
    then have "d1 = upd_txn (next_txn_page ?e) (\<lambda>t. t\<lparr>refs := 0\<rparr>) ?e"
      using d1 by (simp add: sanitize_begin_def d0_def[symmetric] Let_def)
    then show ?thesis using e same_header_trans[OF _ same_header_upd] by (auto simp: d0_def)
  qed
  obtain e1 cu where u: "cursor_update c' (d1, Map.empty) = (e1, cu)" by (cases "cursor_update c' (d1, Map.empty)")
  have e1: "e1 = txn_unref (read_txn d1) (txn_ref_at (read_txn d1) (txn_ref d1))" and h1: "cu = [c' \<mapsto> read_txn d1]"
    using u by (auto simp: cursor_update_def set_txn_def Let_def)
  have h1s: "same_header d1 e1" by (auto simp: e1 same_header_def txn_ref_def txn_ref_at_def txn_unref_def)
  have f1: "\<not> txn_lock e1" "txn_cursor_id e1 = 0" "read_txn e1 = ?r" "prepared_txn e1 = prepared_txn d"
    using h0 h1s by (simp_all add: same_header_def d0_def)
  obtain S where S: "replay_txn Ops ap (snd dangling) c' (e1, cu) = Some S"
    and cl: "\<exists>t e cu'. cursor_prepare_commit Ops c' S = Some (t, e, cu') \<and> d2 = fst (cursor_close True c' (end_transaction e, cu'))"
    using d2 assms(3,4) u h0 h1 by (auto simp: wal_recover_def Let_def bind_eq_Some_conv same_header_def d0_def)
  obtain x e2 where st: "start_transaction Ops c' e1 = Some (x, e2)"
    using S f1(2) assms(5) by (auto simp: replay_txn_def cursor_start_transaction_def bind_eq_Some_conv)
  note h2 = start_header[OF st f1(1)]
  obtain e3 cu3 where e3: "S = (e3, cu3)" "same_header e2 e3"
    using S st f1(2) assms(5) h2(6)
    by (auto simp: replay_txn_def cursor_start_transaction_def set_txn_def h1 same_header_def txn_unref_def txn_ref_at_def)
  have "cursor_prepare_commit Ops c' S = Some (active_id e3, S)"
    using e3 h2 f1 assms(1) by (simp add: cursor_prepare_commit_def prepare_commit_def same_header_def)
  then have "d2 = fst (cursor_close True c' (end_transaction e3, cu3))" using cl e3(1) by auto
  then have "same_header (end_transaction e3) d2"
    using assms(5) by (auto simp: cursor_close_def end_transaction_def same_header_def txn_unref_def split: option.splits)
  then have f: "next_txn_page d2 = 0" "prepared_txn d2 = prepared_txn d" "read_txn d2 = ?r"
    using e3(2) h2 f1 by (simp_all add: same_header_def end_transaction_def)
  then have g: "cur_txn d' = prepared_txn d" "txn_lock d'" "next_txn_page d' = 0" "prepared_txn d' \<noteq> read_txn d'"
    using d' assms(1) by (simp_all add: sanitize_end_def)
  have "t = 0" if "commit Ops 0 d' = (Some True, d'')" "start_transaction Ops cursor d'' = Some (Some t, s)" for d'' cursor t s
  proof -
    have "next_txn_page d'' = 0" "\<not> txn_lock d''"
      using that(1) g by (auto simp: commit_def prepare_commit_def end_transaction_def split: if_splits)
    then show ?thesis using start_header(5,6)[OF that(2)] by simp
  qed
  then show ?thesis using g by blast
qed


text \<open>A crash after \<open>prepare_commit\<close> of the example's transaction.\<close>

definition ex_crashed :: "(nat, unit) database" where
  "ex_crashed = snd (the (prepare_commit ex_ops 7 (fst ex_busy)))"

theorem recovery_drops_next_page_witness:
  "\<exists>d'. sanitize ex_ops 1 (wal_recover ex_ops (\<lambda>_ r. r) 11 13 [] (2, [] :: nat list)) ex_crashed = Some d'
    \<and> cur_txn d' = 1000 \<and> next_txn_page d' = 0"
proof -
  have e: "ex_crashed = ex_db\<lparr>txns := (txns ex_db)(264 := (first_txn 264 100 1001)\<lparr>refs := 1, next_txn := 1000\<rparr>,
        1000 := (first_txn 264 100 1002)\<lparr>t_id := 2, refs := 1\<rparr>, 1001 := (first_txn 264 100 1002)\<lparr>t_id := 2\<rparr>),
      txn_lock := True, txn_cursor_id := 7, cur_txn := 1000, next_txn_page := 1001, prepared_txn := 1000, start_txn_id := 1\<rparr>"
    by (simp add: ex_crashed_def ex_busy_eq ex_db_eq ex_blank_def prepare_commit_def clone_def ex_ops_def active_id_def
        first_txn_def upd_txn_def fun_upd_twist Let_def)
  have l: "\<not> serial_less 1 1" "serial_less 1 2" "serial_add 1 1 = 2" by code_simp+
  obtain d' where d': "sanitize ex_ops 1 (wal_recover ex_ops (\<lambda>_ r. r) 11 13 [] (2, [] :: nat list)) ex_crashed = Some d'"
    by (simp add: e ex_db_eq ex_blank_def first_txn_def l sanitize_def sanitize_begin_def clear_refs_def upd_txn_def wal_recover_def serial_greater_def
        cursor_update_def set_txn_def txn_ref_def txn_ref_at_def txn_unref_def replay_txn_def cursor_start_transaction_def start_transaction_def
        gc_walk.simps cursor_prepare_commit_def prepare_commit_def cursor_close_def end_transaction_def sanitize_end_def Let_def)
  have "cur_txn d' = 1000 \<and> next_txn_page d' = 0"
    using recovery_drops_next_page[OF _ _ _ _ _ d'] l by (simp add: e ex_db_eq ex_blank_def first_txn_def serial_greater_def)
  then show ?thesis using d' by blast
qed

end
