(* ===== verification/Spec2Isabelle.thy ===== *)
theory Spec2Isabelle
  imports Leaves_NodeMap Leaves_Serial Leaves_Iterate Leaves_Deleter Leaves_Areas Leaves_Wal Leaves_TwoQ Leaves_MemManager Leaves_Snapshot Leaves_BigMemory Leaves_System
begin

text \<open>
  \<^bold>\<open>A verification library for the key/value database leaves\<close>

  leaves is a header-only C++ library (\<open>include/leaves/intern\<close>). A database is a copy-on-write trie of
  byte strings whose nodes live in pages; pages come from areas of a file or of memory; transactions
  are versions of the root that readers hold while one writer makes the next version; a write-ahead
  log makes committed versions survive a crash. The library is generic in the storage (memory, file,
  browser) and in hooks called aspects.

  \<^bold>\<open>Parts, and the theories that model them\<close>

  \<^item> \<open>Leaves_Prelude\<close>: machine words, theorem collections, generic facts on lists.
  \<^item> \<open>Leaves_Bits\<close> (\<open>core/_bits.hpp\<close>): count, rank, first, last, next and previous bit of a bitmap.
  \<^item> \<open>Leaves_Serial\<close> (\<open>core/_serial.hpp\<close>): transaction ids, 32-bit numbers that skip 0 and whose order
    is relative to half of the range.
  \<^item> \<open>Leaves_Util\<close> (\<open>core/_util.hpp\<close>): comparison of slices, the common prefix of two strings with its
    word and vector paths, offsets with a type tag and relative offsets.
  \<^item> \<open>Leaves_Node\<close>, \<open>Leaves_Branch\<close>, \<open>Leaves_NodeMap\<close> (\<open>core/_node.hpp\<close>): trie nodes with their two-level bitmap
    and link array, and leaves. \<open>Leaves_Node\<close> has the operations, \<open>Leaves_Branch\<close> their effect on the
    bitmaps, \<open>Leaves_NodeMap\<close> the abstraction of a node to a finite map from branch keys to links and
    the refinement of every operation.
  \<^item> \<open>Leaves_Memory\<close>, \<open>Leaves_Areas\<close>, \<open>Leaves_MemManager\<close> (\<open>memory/_memory.hpp\<close>): size classes; areas, area lists, the pool
    of areas and its reconstruction after a crash; the page allocator of a transaction with its
    garbage queues.
  \<^item> \<open>Leaves_BigMemory\<close> (\<open>memory/_bigmemory.hpp\<close>): chunks for values larger than a page, with the hot region and the
    index of free chunks, whose trie is represented by the list of its entries.
  \<^item> \<open>Leaves_Pool\<close>, \<open>Leaves_TwoQ\<close> (\<open>memory/_twoquecache.hpp\<close>): object pool, intrusive list and the 2Q page cache, on
    an explicit heap of entries.
  \<^item> \<open>Leaves_Store\<close> (\<open>storage/_memstore.hpp\<close>): pages with their headers, nodes and leaves in them.
  \<^item> \<open>Leaves_Cursor\<close>, \<open>Leaves_Trie\<close>, \<open>Leaves_Find\<close>, \<open>Leaves_Path\<close>, \<open>Leaves_Iterate\<close> (\<open>db/_cursor.hpp\<close>): the stack of transitions, search and
    movement; the abstract tree a heap of pages represents and its finite map from keys to values;
    the correctness of the search from an empty stack and from a stack kept from the last search;
    a cursor as a zipper over the sorted entries.
  \<^item> \<open>Leaves_Inserter\<close>, \<open>Leaves_Deleter\<close> (\<open>db/_inserter.hpp\<close>, \<open>db/_deleter.hpp\<close>): changing the trie through a cursor.
  \<^item> \<open>Leaves_Frames\<close>, \<open>Leaves_Update\<close>, \<open>Leaves_Insert\<close>, \<open>Leaves_Grow\<close>, \<open>Leaves_Put\<close>, \<open>Leaves_Write\<close>: the correctness of inserting.
    The stack of a cursor as the frames of a one-hole context of the tree; the locale \<open>page_allocator\<close> with
    what the code relies on when it requests and frees pages, and copy on write along the stack under
    it; new leaves and long keys; the shapes of the tree after each kind of insertion and their
    entries; each case of \<open>_Inserter\<close>; find followed by put.
  \<^item> \<open>Leaves_Shrink\<close>, \<open>Leaves_Land\<close>, \<open>Leaves_Remove\<close>: the correctness of removing. The shapes of the tree after a
    node lost a branch or was merged with its last child; where \<open>next\<close> and \<open>first\<close> take a cursor that
    stands on a changed node; each case of \<open>_Deleter\<close>; find followed by remove.
  \<^item> \<open>Leaves_Database\<close>: the memory manager as an interpretation (\<open>mm\<close>) of \<open>page_allocator\<close>, and sequences of puts
    and removals on it.
  \<^item> \<open>Leaves_Snapshot\<close>: copy on write keeps the pages of other transactions. The locale \<open>page_guard\<close> is what the
    allocator must not do with these pages, with its interpretation (\<open>guard\<close>) on the memory manager; every
    step of the inserter and the deleter keeps them, whether or not the cursor is well formed.
  \<^item> \<open>Leaves_Wal\<close> (\<open>storage/_wal.hpp\<close>): the log: records, parsing, the writer with its two files.
  \<^item> \<open>Leaves_DB\<close>, \<open>Leaves_System\<close> (\<open>db/_db.hpp\<close> and the transactional cursor of \<open>db/_cursor.hpp\<close>): versions, two-phase commit,
    rollback, reference counts, recovery, and the interleaved runs of all cursors of a database.

  \<^bold>\<open>How state and errors are modelled\<close>

  A struct is a record with the fields of the source. Pages are a finite map from addresses to
  pages, with the links as typed addresses; the entries of the cache and the headers of areas are
  maps from addresses too, so that aliasing is explicit. Every operation of the source takes the state
  and returns it. \<open>None\<close> is an exception or an access to a page that is not there; errors that the
  code reports are values. Word widths are kept where the code can overflow: transaction ids,
  reference counts, the layout fields of nodes, sizes in log records.

  \<^bold>\<open>What the groups of lemmas show\<close>

  \<^item> Nodes: a well-formed node is a finite map from branch keys (a byte, or the end of the key) to links;
    looking up, scanning, copying with one branch more or less, inserting in place and building
    in bulk are the corresponding operations on maps, keep the node well formed and have the announced
    size.
  \<^item> Search: \<open>find\<close> reads the finite map that the trie represents, also from a kept stack, with the one
    exception stated as \<open>find_keeps_invalid_position\<close>; \<open>first\<close>, \<open>next\<close>, \<open>last\<close> and \<open>prev\<close> visit its entries in key order.
  \<^item> Update: a find followed by a put or a remove is the update or the deletion of the finite map, whether
    pages are copied or changed in place, and leaves the cursor on the key, or on an entry or outside;
    a transaction on a database whose pages come from the memory manager refines a map under any sequence of
    puts, removals of stored keys and searches, while nothing queued may be recycled. Which entry the cursor is on after a removal is not
    stated: it is not always the next one, since the transitions above can have a stale state.
  \<^item> Snapshots: while the writer changes the trie with copy on write, a cursor on a version of another
    transaction goes on reading the contents of that version, while nothing queued may be recycled. The
    versions are assumed free of leaves marked as big values, because splitting such a leaf clears the mark
    of the old page.
  \<^item> Areas and pages: what the pool, the page allocator and the big memory hand out is pairwise disjoint (for big memory,
    across defragmentation, when no memory looks like the header of another chunk; for pages, while nothing
    queued may be recycled); the list operations refine operations on lists and switch between two states
    atomically; the reconstruction of a pool from a file below 4 GiB terminates and finds exactly the blocks
    nobody owns.
  \<^item> Cache: every run of get and put answers as a specification on three lists, the limits hold as far as
    pinned pages allow (the capacity as far as \<open>Am\<close> has unpinned pages), and the destructor gives every entry back to its pool once.
  \<^item> Log: encoding and parsing are inverse, a torn transaction is never half replayed, and in
    every run without a write that breaks off in the middle recovery returns the committed transactions.
  \<^item> Transactions: for all interleavings of readers and the writer in which no commit or prepare throws,
    reference counts are exact, between the steps nothing a cursor can see may be recycled, commit publishes and rollback undoes; two theorems state what
    goes wrong after a failing commit and after a crash between the phases of a commit.

  \<^bold>\<open>Bounds, fuel and termination\<close>

  The loops of the cache, the log parser and the pool are total functions or \<open>partial_function\<close>s with a
  theorem that they return. The log parser returns on files below 4 GiB, since its positions are 32-bit
  numbers. The order of transaction ids is that of the versions while fewer than \<open>2^31 - 2\<close> versions
  are kept or made in a run, which is the window of the serial order. \<open>mm_exec\<close>, the mutual
  recursion of alloc and free, is a total function. An allocator serves a number of requests: \<open>put_cost\<close>
  bounds those of one put (four, one for each byte of the key and two for each page of the trie),
  \<open>remove_cost\<close> those of a removal and \<open>updates_cost\<close> those of a sequence, so that the theorems on updates
  state that they return.
  \<open>iter_transactions\<close> has fuel for its loop, and \<open>iter_all\<close> shows that the length of the
  chain is enough.

  \<^bold>\<open>Parameters\<close>

  The order of the bytes in a word, the vector width, page sizes and alignment are fields of the
  traits records. The page allocator is an argument of the transaction model (\<open>txn_ops\<close>) with the law
  \<open>page_law\<close>: the page of a new transaction is none that holds a live one. Partial writes and failing
  syncs of the log are an argument of its writer. The answers of the aspect are arguments.
  In the runs of updates \<open>may_recycle\<close> of the database is a predicate on transaction ids that refuses the
  id of the transaction itself; \<open>queues_held\<close> says that it refuses the oldest page of every queue. Assertions
  of the source are not part of the definitions; the one of \<open>insert_branch\<close> is a hypothesis of its theorem.

  \<^bold>\<open>Not modelled\<close>

  Storage back ends (memory mapping, files, browser storage), locks, threads and thread pools,
  replication with its network state machine and hashes, the confluence database with its tributaries, merging
  and transfer of tries, aspects, statistics, dumping, the experimental inserter, the
  public wrappers and the bindings. The first group is I/O and concurrency primitives; the others are
  clients of the parts modelled here.
\<close>

end
